(* ===== verification/Ygg_Prelude.thy ===== *)
theory Ygg_Prelude
  imports Main "HOL-Library.Word" "HOL-Library.Monad_Syntax"
begin

text \<open>
  Shared conventions of the development.

  \<^item> A kernel routine that can hit \<open>panic\<close>, \<open>assert\<close> or \<open>_assert\<close> (src/include/sys/assert.h)
    returns an option value; \<^term>\<open>None\<close> stands for the halted kernel, so that every theorem with
    conclusion \<open>... = Some ...\<close> also states that no assertion fires.
  \<^item> Return codes are integers as in C: zero or positive for success, minus an errno of
    src/include/user/errno.h for a failure.
  \<^item> Bit masks \<open>(1 << n)\<close> are \<open>BIT n\<close>; a test \<open>flags & mask\<close> is a comparison of the bitwise
    conjunction with zero.
\<close>

unbundle bit_operations_syntax

named_theorems flag_simps
named_theorems ygg_inv

type_synonym 'a kern = "'a option"
type_synonym tid = nat
type_synonym byte = "8 word"

section \<open>Error numbers\<close>

abbreviation (input) EPERM :: int where "EPERM \<equiv> 1"
abbreviation (input) ENOENT :: int where "ENOENT \<equiv> 2"
abbreviation (input) ESRCH :: int where "ESRCH \<equiv> 3"
abbreviation (input) EINTR :: int where "EINTR \<equiv> 4"
abbreviation (input) EIO :: int where "EIO \<equiv> 5"
abbreviation (input) ENOEXEC :: int where "ENOEXEC \<equiv> 8"
abbreviation (input) EBADF :: int where "EBADF \<equiv> 9"
abbreviation (input) ECHILD :: int where "ECHILD \<equiv> 10"
abbreviation (input) ENOMEM :: int where "ENOMEM \<equiv> 12"
abbreviation (input) EACCES :: int where "EACCES \<equiv> 13"
abbreviation (input) EFAULT :: int where "EFAULT \<equiv> 14"
abbreviation (input) EBUSY :: int where "EBUSY \<equiv> 16"
abbreviation (input) EEXIST :: int where "EEXIST \<equiv> 17"
abbreviation (input) ENODEV :: int where "ENODEV \<equiv> 19"
abbreviation (input) ENOTDIR :: int where "ENOTDIR \<equiv> 20"
abbreviation (input) EISDIR :: int where "EISDIR \<equiv> 21"
abbreviation (input) EINVAL :: int where "EINVAL \<equiv> 22"
abbreviation (input) EMFILE :: int where "EMFILE \<equiv> 24"
abbreviation (input) ENOSPC :: int where "ENOSPC \<equiv> 28"
abbreviation (input) ESPIPE :: int where "ESPIPE \<equiv> 29"
abbreviation (input) EROFS :: int where "EROFS \<equiv> 30"
abbreviation (input) EPIPE :: int where "EPIPE \<equiv> 32"
abbreviation (input) ENOSYS :: int where "ENOSYS \<equiv> 38"
abbreviation (input) ELOOP :: int where "ELOOP \<equiv> 40"
abbreviation (input) EADDRINUSE :: int where "EADDRINUSE \<equiv> 98"
abbreviation (input) ECONNRESET :: int where "ECONNRESET \<equiv> 104"
abbreviation (input) ECONNREFUSED :: int where "ECONNREFUSED \<equiv> 111"

section \<open>Assertions\<close>

definition kassert :: "bool \<Rightarrow> unit kern" where
  "kassert c = (if c then Some () else None)"

lemma kassert_simps [simp]:
  "kassert True = Some ()"
  "kassert False = None"
  by (simp_all add: kassert_def)

lemma kassert_eq_Some [simp]: "(kassert c = Some u) = c"
  by (simp add: kassert_def)

lemma kassert_bind_Some [simp]:
  "(kassert c \<bind> f = Some y) = (c \<and> f () = Some y)"
  by (simp add: kassert_def)

lemma kassert_bind_None [simp]:
  "(kassert c \<bind> f = None) = (c \<longrightarrow> f () = None)"
  by (simp add: kassert_def)

section \<open>Bit masks\<close>

definition BIT :: "nat \<Rightarrow> 'a::len word" where
  "BIT n = push_bit n 1"

lemma bit_BIT [flag_simps]: "bit (BIT n :: 'a::len word) k = (k = n \<and> n < LENGTH('a))"
  by (auto simp: BIT_def bit_simps)

lemma BIT_eq_0 [flag_simps]: "(BIT n = (0 :: 'a::len word)) = (LENGTH('a) \<le> n)"
  by (auto simp: bit_eq_iff bit_BIT not_less)

lemma and_BIT_eq_0 [flag_simps]: "((f :: 'a::len word) AND BIT n = 0) = (\<not> bit f n)"
  by (simp add: BIT_def flip: and_exp_eq_0_iff_not_bit push_bit_of_1)

lemma and_or_BIT_eq_0 [flag_simps]:
  "((f :: 'a::len word) AND (a OR b) = 0) = (f AND a = 0 \<and> f AND b = 0)"
  by (simp add: bit.conj_disj_distrib or_eq_0_iff)

lemmas flag_bits [flag_simps] = bit_or_iff bit_and_iff bit_not_iff

section \<open>Lists and options\<close>

lemma drop_Suc_nth: "i < length xs \<Longrightarrow> drop i xs = xs ! i # drop (Suc i) xs"
  by (rule Cons_nth_drop_Suc [symmetric])

lemma mod_add_window_inj:
  assumes "i < j" "j < i + c"
  shows "(a + i) mod c \<noteq> (a + j) mod (c::nat)"
proof
  assume "(a + i) mod c = (a + j) mod c"
  hence "c dvd (a + j) - (a + i)" using assms by (intro mod_eq_dvd_iff_nat [THEN iffD1]) auto
  hence "c dvd j - i" by simp
  moreover have "0 < j - i" "j - i < c" using assms by auto
  ultimately show False using nat_dvd_not_less by blast
qed

lemma mod_add_one_wrap: "x < c \<Longrightarrow> (if x = c - 1 then 0 else Suc x) = Suc x mod (c::nat)"
  by (cases "Suc x = c") auto

end
