(* ===== verification/Wait_IO.thy ===== *)
theory Wait_IO
  imports Ygg_Prelude
begin

text \<open>
  The single-slot notifications of src/sys/wait.c.  A \<open>struct io_notify\<close> carries a sticky event
  counter and at most one sleeping owner.  A blocking call is modelled up to the point where it
  has made the thread the owner and released the lock (\<open>WSleep\<close>), and from the point where the thread is resumed
  (\<open>thread_wait_io_resume\<close>); between the two, other threads run.  The thread is still in its run queue at \<open>WSleep\<close>: \<open>sched_unqueue\<close>
  comes after the release of the lock. Pipe_Window makes that window explicit; elsewhere a thread at \<open>WSleep\<close> is taken
  to have left the CPU.
\<close>

record io_notify =
  ion_owner :: "tid option"
  ion_value :: nat

datatype wait_result = WRet int | WSleep

definition thread_wait_io_init :: io_notify where
  "thread_wait_io_init = \<lparr> ion_owner = None, ion_value = 0 \<rparr>"

definition thread_wait_io :: "tid \<Rightarrow> io_notify \<Rightarrow> (wait_result \<times> io_notify) kern" where
  "thread_wait_io t n =
    (if ion_value n \<noteq> 0 then Some (WRet 0, n\<lparr>ion_value := 0\<rparr>)
     else do {
       kassert (ion_owner n = None);
       Some (WSleep, n\<lparr>ion_owner := Some t\<rparr>)
     })"

definition thread_wait_io_resume ::
  "tid \<Rightarrow> int \<Rightarrow> io_notify \<Rightarrow> (wait_result \<times> io_notify) kern" where
  "thread_wait_io_resume t r n =
    (let n = n\<lparr>ion_owner := None\<rparr>
     in if r \<noteq> 0 then Some (WRet r, n) else thread_wait_io t n)"

definition thread_notify_io :: "io_notify \<Rightarrow> tid option \<times> io_notify" where
  "thread_notify_io n = (ion_owner n, n\<lparr>ion_value := Suc (ion_value n), ion_owner := None\<rparr>)"

definition thread_wait_io_add :: "tid \<Rightarrow> io_notify \<Rightarrow> io_notify kern" where
  "thread_wait_io_add t n = do { kassert (ion_owner n = None); Some (n\<lparr>ion_owner := Some t\<rparr>) }"

text \<open>
  \<open>thread_wait_io_any\<close> walks the thread's wait list; the list holds the indices of the
  notifications in a table, newest first.  The scan returns the first entry whose counter is non-zero.
\<close>

fun wait_scan :: "nat list \<Rightarrow> (nat \<Rightarrow> io_notify) \<Rightarrow> nat option" where
  "wait_scan [] ns = None"
| "wait_scan (i # is) ns = (if ion_value (ns i) \<noteq> 0 then Some i else wait_scan is ns)"

definition thread_wait_io_any ::
  "nat list \<Rightarrow> (nat \<Rightarrow> io_notify) \<Rightarrow> nat option \<times> (nat \<Rightarrow> io_notify)" where
  "thread_wait_io_any wl ns =
    (case wait_scan wl ns of
       Some i \<Rightarrow> (Some i, ns(i := (ns i)\<lparr>ion_value := ion_value (ns i) - 1\<rparr>))
     | None \<Rightarrow> (None, ns))"

fun thread_wait_io_clear :: "nat list \<Rightarrow> (nat \<Rightarrow> io_notify) \<Rightarrow> (nat \<Rightarrow> io_notify)" where
  "thread_wait_io_clear [] ns = ns"
| "thread_wait_io_clear (i # is) ns = thread_wait_io_clear is (ns(i := (ns i)\<lparr>ion_owner := None\<rparr>))"

section \<open>Facts used by the clients\<close>

lemma io_notify_set_all [simp]:
  "(n::io_notify)\<lparr>ion_owner := a, ion_value := b\<rparr> = \<lparr> ion_owner = a, ion_value = b \<rparr>"
  "(n::io_notify)\<lparr>ion_value := b, ion_owner := a\<rparr> = \<lparr> ion_owner = a, ion_value = b \<rparr>"
  by (cases n; simp)+

lemma thread_wait_io_cases:
  assumes "thread_wait_io t n = Some (r, n')"
  obtains (ret) "ion_value n \<noteq> 0" "r = WRet 0" "n' = n\<lparr>ion_value := 0\<rparr>"
    | (sleep) "ion_value n = 0" "ion_owner n = None" "r = WSleep" "n' = n\<lparr>ion_owner := Some t\<rparr>"
  using assms by (auto simp: thread_wait_io_def split: if_splits)

lemma thread_wait_io_measure:
  "thread_wait_io t n = Some (WRet 0, n') \<Longrightarrow> ion_value n' < ion_value n"
  by (auto simp: thread_wait_io_def split: if_splits)

lemma thread_notify_io_value [simp]: "ion_value (snd (thread_notify_io n)) = Suc (ion_value n)"
  by (simp add: thread_notify_io_def)

lemma thread_notify_io_owner [simp]: "ion_owner (snd (thread_notify_io n)) = None"
  by (simp add: thread_notify_io_def)

lemma notify_then_wait_returns:
  "thread_wait_io t (snd (thread_notify_io n)) =
     Some (WRet 0, \<lparr> ion_owner = None, ion_value = 0 \<rparr>)"
  by (simp add: thread_wait_io_def thread_notify_io_def)

lemma wait_scan_Some:
  "wait_scan wl ns = Some i \<Longrightarrow> i \<in> set wl \<and> ion_value (ns i) \<noteq> 0"
  by (induction wl) (auto split: if_splits)

lemma wait_scan_None:
  "wait_scan wl ns = None \<longleftrightarrow> (\<forall>i \<in> set wl. ion_value (ns i) = 0)"
  by (induction wl) auto

lemma thread_wait_io_clear_owner:
  "ion_owner (thread_wait_io_clear wl ns i) = (if i \<in> set wl then None else ion_owner (ns i))"
  by (induction wl arbitrary: ns) auto

lemma thread_wait_io_clear_value [simp]:
  "ion_value (thread_wait_io_clear wl ns i) = ion_value (ns i)"
  by (induction wl arbitrary: ns) auto

end
