(* ===== verification/Ring.thy ===== *)
theory Ring
  imports Wait_IO
begin

text \<open>
  The byte ring of src/sys/char/ring.c, used by pipes, terminals and unix sockets.  The record keeps
  the fields of \<open>struct ring\<close>; \<open>ring_take\<close> and \<open>ring_store\<close> are the tails of
  \<open>ring_getc\<close> and \<open>ring_putc\<close> after their wait loops.  A blocking call either
  returns or goes to sleep on one of the two notifications; the \<open>_resume\<close> definitions continue it
  after a wake-up, with the result of \<open>thread_check_signal\<close> as an argument.
\<close>

abbreviation RING_SIGNAL_BRK :: "32 word" where "RING_SIGNAL_BRK \<equiv> BIT 0"
abbreviation RING_SIGNAL_EOF :: "32 word" where "RING_SIGNAL_EOF \<equiv> BIT 1"
abbreviation RING_SIGNAL_RET :: "32 word" where "RING_SIGNAL_RET \<equiv> BIT 2"
abbreviation RING_RAW :: "32 word" where "RING_RAW \<equiv> BIT 3"

record ring =
  r_rd :: nat
  r_wr :: nat
  r_cap :: nat
  r_base :: "char list"
  r_flags :: "32 word"
  r_wait :: io_notify
  r_writer_wait :: io_notify

datatype getc_res = GChar char | GErr int | GSleep
datatype putc_res = PRet int | PSleep
datatype write_res = WDone int | WBlocked "char list"

section \<open>Operations\<close>

definition ring_readable :: "ring \<Rightarrow> nat" where
  "ring_readable r =
    (if r_rd r \<le> r_wr r then r_wr r - r_rd r else r_wr r + (r_cap r - r_rd r))"

definition ring_writable :: "ring \<Rightarrow> nat" where
  "ring_writable r =
    (if r_wr r = r_cap r - 1 \<and> r_rd r = 0 then 0
     else if r_rd r \<le> r_wr r then r_wr r + (r_cap r - r_rd r)
     else if r_rd r = r_wr r + 1 then 0
     else r_rd r - r_wr r)"

definition ring_advance_read :: "ring \<Rightarrow> ring" where
  "ring_advance_read r = r\<lparr>r_rd := (if r_rd r = r_cap r - 1 then 0 else Suc (r_rd r))\<rparr>"

definition ring_advance_write :: "ring \<Rightarrow> ring" where
  "ring_advance_write r = r\<lparr>r_wr := (if r_wr r = r_cap r - 1 then 0 else Suc (r_wr r))\<rparr>"

definition ring_take :: "ring \<Rightarrow> char \<times> ring" where
  "ring_take r =
    (let c = r_base r ! r_rd r;
         r = ring_advance_read r
     in (c, r\<lparr>r_writer_wait := snd (thread_notify_io (r_writer_wait r))\<rparr>))"

definition ring_store :: "ring \<Rightarrow> char \<Rightarrow> ring" where
  "ring_store r c =
    (let r = r\<lparr>r_base := (r_base r)[r_wr r := c]\<rparr>;
         r = ring_advance_write r
     in r\<lparr>r_wait := snd (thread_notify_io (r_wait r))\<rparr>)"

function ring_getc_loop :: "tid \<Rightarrow> ring \<Rightarrow> (getc_res \<times> ring) kern" where
  "ring_getc_loop t r =
    (if r_flags r AND (RING_SIGNAL_BRK OR RING_SIGNAL_EOF) \<noteq> 0 \<and> ring_readable r = 0
     then Some (GErr (- 1), r\<lparr>r_flags := r_flags r AND NOT RING_SIGNAL_BRK\<rparr>)
     else if ring_readable r = 0 then
       (case thread_wait_io t (r_wait r) of
          None \<Rightarrow> None
        | Some (WSleep, n) \<Rightarrow> Some (GSleep, r\<lparr>r_wait := n\<rparr>)
        | Some (WRet res, n) \<Rightarrow>
            if res \<noteq> 0 then do { kassert (res = - EINTR); Some (GErr res, r\<lparr>r_wait := n\<rparr>) }
            else ring_getc_loop t (r\<lparr>r_wait := n\<rparr>))
     else (let (c, r') = ring_take r in Some (GChar c, r')))"
  by auto
termination
  by (relation "measure (\<lambda>(t, r). ion_value (r_wait r))") (auto dest: thread_wait_io_measure)

definition ring_getc :: "tid \<Rightarrow> ring \<Rightarrow> bool \<Rightarrow> (getc_res \<times> ring) kern" where
  "ring_getc t r err =
    (if err then
       (if ring_readable r = 0 then Some (GErr (- 1), r)
        else (let (c, r') = ring_take r in Some (GChar c, r')))
     else ring_getc_loop t r)"

definition ring_getc_resume :: "tid \<Rightarrow> int \<Rightarrow> ring \<Rightarrow> (getc_res \<times> ring) kern" where
  "ring_getc_resume t sig r =
    (case thread_wait_io_resume t sig (r_wait r) of
       None \<Rightarrow> None
     | Some (WSleep, n) \<Rightarrow> Some (GSleep, r\<lparr>r_wait := n\<rparr>)
     | Some (WRet res, n) \<Rightarrow>
         if res \<noteq> 0 then do { kassert (res = - EINTR); Some (GErr res, r\<lparr>r_wait := n\<rparr>) }
         else ring_getc_loop t (r\<lparr>r_wait := n\<rparr>))"

function ring_putc_loop :: "tid \<Rightarrow> ring \<Rightarrow> char \<Rightarrow> (putc_res \<times> ring) kern" where
  "ring_putc_loop t r c =
    (if ring_writable r = 0 then
       (if r_flags r AND RING_SIGNAL_EOF \<noteq> 0 then Some (PRet (- EPIPE), r)
        else case thread_wait_io t (r_writer_wait r) of
          None \<Rightarrow> None
        | Some (WSleep, n) \<Rightarrow> Some (PSleep, r\<lparr>r_writer_wait := n\<rparr>)
        | Some (WRet res, n) \<Rightarrow>
            if res \<noteq> 0 then do { kassert (res = - EINTR); Some (PRet res, r\<lparr>r_writer_wait := n\<rparr>) }
            else ring_putc_loop t (r\<lparr>r_writer_wait := n\<rparr>) c)
     else if r_flags r AND RING_SIGNAL_EOF \<noteq> 0 then Some (PRet (- EPIPE), r)
     else Some (PRet 0, ring_store r c))"
  by auto
termination
  by (relation "measure (\<lambda>(t, r, c). ion_value (r_writer_wait r))") (auto dest: thread_wait_io_measure)

definition ring_putc :: "tid \<Rightarrow> ring \<Rightarrow> char \<Rightarrow> bool \<Rightarrow> (putc_res \<times> ring) kern" where
  "ring_putc t r c wait =
    (if wait then ring_putc_loop t r c
     else if r_flags r AND RING_SIGNAL_EOF \<noteq> 0 then Some (PRet (- EPIPE), r)
     else Some (PRet 0, ring_store r c))"

definition ring_putc_resume :: "tid \<Rightarrow> int \<Rightarrow> ring \<Rightarrow> char \<Rightarrow> (putc_res \<times> ring) kern" where
  "ring_putc_resume t sig r c =
    (case thread_wait_io_resume t sig (r_writer_wait r) of
       None \<Rightarrow> None
     | Some (WSleep, n) \<Rightarrow> Some (PSleep, r\<lparr>r_writer_wait := n\<rparr>)
     | Some (WRet res, n) \<Rightarrow>
         if res \<noteq> 0 then do { kassert (res = - EINTR); Some (PRet res, r\<lparr>r_writer_wait := n\<rparr>) }
         else ring_putc_loop t (r\<lparr>r_writer_wait := n\<rparr>) c)"

fun ring_write :: "tid \<Rightarrow> ring \<Rightarrow> char list \<Rightarrow> nat \<Rightarrow> bool \<Rightarrow> (write_res \<times> ring) kern" where
  "ring_write t r [] len wait = Some (WDone (int len), r)"
| "ring_write t r (c # cs) len wait =
    (case ring_putc t r c wait of
       None \<Rightarrow> None
     | Some (PSleep, r') \<Rightarrow> Some (WBlocked (c # cs), r')
     | Some (PRet res, r') \<Rightarrow>
         if res \<noteq> 0 then Some (WDone (- 1), r') else ring_write t r' cs len wait)"

definition ring_signal :: "ring \<Rightarrow> 32 word \<Rightarrow> ring" where
  "ring_signal r s =
    (let r = r\<lparr>r_flags := r_flags r OR s\<rparr>;
         r = r\<lparr>r_wait := snd (thread_notify_io (r_wait r))\<rparr>
     in r\<lparr>r_writer_wait := snd (thread_notify_io (r_writer_wait r))\<rparr>)"

text \<open>The buffer comes from the kernel heap with arbitrary contents \<open>mem\<close>.\<close>

definition ring_init :: "nat \<Rightarrow> char list option \<Rightarrow> int \<times> ring" where
  "ring_init cap mem =
    (let r = \<lparr> r_rd = 0, r_wr = 0, r_cap = cap, r_base = [], r_flags = 0,
               r_wait = thread_wait_io_init, r_writer_wait = thread_wait_io_init \<rparr>
     in case mem of None \<Rightarrow> (- 1, r) | Some bs \<Rightarrow> (0, r\<lparr>r_base := bs\<rparr>))"

declare ring_getc_loop.simps [simp del]
declare ring_putc_loop.simps [simp del]

section \<open>Invariant and abstraction\<close>

definition ring_inv :: "ring \<Rightarrow> bool" where
  "ring_inv r \<longleftrightarrow> 0 < r_cap r \<and> r_rd r < r_cap r \<and> r_wr r < r_cap r \<and> length (r_base r) = r_cap r"

definition ring_list :: "ring \<Rightarrow> char list" where
  "ring_list r = map (\<lambda>i. r_base r ! ((r_rd r + i) mod r_cap r)) [0..<ring_readable r]"

definition ring_room :: "ring \<Rightarrow> nat" where
  "ring_room r = r_cap r - 1"

definition ring_eof :: "ring \<Rightarrow> bool" where
  "ring_eof r = bit (r_flags r) 1"

lemma length_ring_list [simp]: "length (ring_list r) = ring_readable r"
  by (simp add: ring_list_def)

lemma ring_list_empty_iff [simp]:
  "ring_list r = [] \<longleftrightarrow> ring_readable r = 0"
  "[] = ring_list r \<longleftrightarrow> ring_readable r = 0"
  by (metis length_0_conv length_ring_list)+

lemma ring_readable_bound: "ring_inv r \<Longrightarrow> ring_readable r \<le> ring_room r"
  by (auto simp: ring_inv_def ring_readable_def ring_room_def)

lemma ring_readable_mod: "ring_inv r \<Longrightarrow> ring_readable r = (r_wr r + r_cap r - r_rd r) mod r_cap r"
  by (auto simp: ring_inv_def ring_readable_def mod_if)

lemma ring_wr_eq: "ring_inv r \<Longrightarrow> r_wr r = (r_rd r + ring_readable r) mod r_cap r"
  by (auto simp: ring_inv_def ring_readable_def mod_if)

lemma ring_writable_iff: "ring_inv r \<Longrightarrow> ring_writable r \<noteq> 0 \<longleftrightarrow> ring_readable r < ring_room r"
  by (auto simp: ring_inv_def ring_readable_def ring_writable_def ring_room_def)

lemma ring_store_readable:
  assumes "ring_inv r" "ring_readable r < ring_room r"
  shows "ring_readable (ring_store r c) = Suc (ring_readable r)"
  using assms
  by (auto simp: ring_inv_def ring_readable_def ring_room_def ring_store_def ring_advance_write_def Let_def)

lemma ring_take_readable:
  assumes "ring_inv r" "ring_readable r \<noteq> 0"
  shows "ring_readable (snd (ring_take r)) = ring_readable r - 1"
  using assms
  by (auto simp: ring_inv_def ring_readable_def ring_take_def ring_advance_read_def Let_def)

lemma ring_store_inv [ygg_inv]: "ring_inv r \<Longrightarrow> ring_inv (ring_store r c)"
  by (auto simp: ring_inv_def ring_store_def ring_advance_write_def Let_def)

lemma ring_take_inv [ygg_inv]: "ring_inv r \<Longrightarrow> ring_inv (snd (ring_take r))"
  by (auto simp: ring_inv_def ring_take_def ring_advance_read_def Let_def)

lemma ring_store_fields [simp]:
  "r_rd (ring_store r c) = r_rd r" "r_cap (ring_store r c) = r_cap r"
  "r_flags (ring_store r c) = r_flags r" "r_writer_wait (ring_store r c) = r_writer_wait r"
  "r_wait (ring_store r c) = snd (thread_notify_io (r_wait r))"
  "r_base (ring_store r c) = (r_base r)[r_wr r := c]"
  "ring_room (ring_store r c) = ring_room r"
  by (simp_all add: ring_store_def ring_advance_write_def Let_def ring_room_def)

lemma ring_take_fields [simp]:
  "r_wr (snd (ring_take r)) = r_wr r" "r_cap (snd (ring_take r)) = r_cap r"
  "r_flags (snd (ring_take r)) = r_flags r" "r_wait (snd (ring_take r)) = r_wait r"
  "r_writer_wait (snd (ring_take r)) = snd (thread_notify_io (r_writer_wait r))"
  "r_base (snd (ring_take r)) = r_base r"
  "ring_room (snd (ring_take r)) = ring_room r"
  by (simp_all add: ring_take_def ring_advance_read_def Let_def ring_room_def)

lemma ring_store_list:
  assumes inv: "ring_inv r" and room: "ring_readable r < ring_room r"
  shows "ring_list (ring_store r c) = ring_list r @ [c]"
proof (rule nth_equalityI)
  show "length (ring_list (ring_store r c)) = length (ring_list r @ [c])"
    by (simp add: ring_store_readable [OF assms])
next
  fix i assume "i < length (ring_list (ring_store r c))"
  hence i: "i < Suc (ring_readable r)" by (simp add: ring_store_readable [OF assms])
  have wr: "r_wr r = (r_rd r + ring_readable r) mod r_cap r" by (rule ring_wr_eq [OF inv])
  have lt: "r_wr r < length (r_base r)" using inv by (simp add: ring_inv_def)
  show "ring_list (ring_store r c) ! i = (ring_list r @ [c]) ! i"
  proof (cases "i = ring_readable r")
    case True
    thus ?thesis using lt wr
      by (simp add: ring_list_def ring_store_readable [OF assms] nth_append del: upt_Suc)
  next
    case False
    with i have lt_i: "i < ring_readable r" by simp
    have "(r_rd r + i) mod r_cap r \<noteq> (r_rd r + ring_readable r) mod r_cap r"
      using lt_i room by (intro mod_add_window_inj) (auto simp: ring_room_def)
    thus ?thesis using lt_i wr
      by (simp add: ring_list_def ring_store_readable [OF assms] nth_append del: upt_Suc)
  qed
qed

lemma ring_take_list:
  assumes inv: "ring_inv r" and ne: "ring_readable r \<noteq> 0"
  shows "ring_list r = fst (ring_take r) # ring_list (snd (ring_take r))"
proof (rule nth_equalityI)
  show "length (ring_list r) = length (fst (ring_take r) # ring_list (snd (ring_take r)))"
    using ne by (simp add: ring_take_readable [OF assms])
next
  fix i assume "i < length (ring_list r)"
  hence i: "i < ring_readable r" by simp
  have cap: "r_rd r < r_cap r" using inv by (simp add: ring_inv_def)
  have rd: "r_rd (snd (ring_take r)) = Suc (r_rd r) mod r_cap r"
    using mod_add_one_wrap [OF cap] by (simp add: ring_take_def ring_advance_read_def Let_def)
  show "ring_list r ! i = (fst (ring_take r) # ring_list (snd (ring_take r))) ! i"
  proof (cases i)
    case 0
    thus ?thesis using i cap by (simp add: ring_list_def) (simp add: ring_take_def Let_def)
  next
    case (Suc j)
    hence "j < ring_readable r - 1" using i by simp
    thus ?thesis using i Suc rd
      by (simp add: ring_list_def ring_take_readable [OF assms] mod_simps)
  qed
qed

section \<open>The bounded queue contract\<close>

text \<open>
  What the clients of a byte ring rely on: as long as there is room, a store appends to the contents,
  a take removes the head, and neither changes the bound.
\<close>

locale bounded_queue =
  fixes q_inv :: "'s \<Rightarrow> bool"
    and contents :: "'s \<Rightarrow> 'a list"
    and bound :: "'s \<Rightarrow> nat"
    and push :: "'s \<Rightarrow> 'a \<Rightarrow> 's"
    and pop :: "'s \<Rightarrow> 'a \<times> 's"
  assumes push_inv: "q_inv s \<Longrightarrow> q_inv (push s x)"
    and pop_inv: "q_inv s \<Longrightarrow> q_inv (snd (pop s))"
    and bound_inv: "q_inv s \<Longrightarrow> length (contents s) \<le> bound s"
    and push_bound: "bound (push s x) = bound s"
    and pop_bound: "bound (snd (pop s)) = bound s"
    and push_contents: "q_inv s \<Longrightarrow> length (contents s) < bound s \<Longrightarrow> contents (push s x) = contents s @ [x]"
    and pop_contents: "q_inv s \<Longrightarrow> contents s \<noteq> [] \<Longrightarrow> contents s = fst (pop s) # contents (snd (pop s))"
begin

fun push_all :: "'s \<Rightarrow> 'a list \<Rightarrow> 's" where
  "push_all s [] = s"
| "push_all s (x # xs) = push_all (push s x) xs"

fun pop_many :: "nat \<Rightarrow> 's \<Rightarrow> 'a list \<times> 's" where
  "pop_many 0 s = ([], s)"
| "pop_many (Suc n) s = (let (x, s1) = pop s; (xs, s2) = pop_many n s1 in (x # xs, s2))"

lemma push_all_inv: "q_inv s \<Longrightarrow> q_inv (push_all s xs)"
  by (induction xs arbitrary: s) (simp_all add: push_inv)

lemma push_all_contents:
  "q_inv s \<Longrightarrow> length (contents s) + length xs \<le> bound s \<Longrightarrow> contents (push_all s xs) = contents s @ xs"
  by (induction xs arbitrary: s) (simp_all add: push_inv push_contents push_bound)

lemma pop_many_contents:
  "q_inv s \<Longrightarrow> n \<le> length (contents s) \<Longrightarrow>
     fst (pop_many n s) = take n (contents s) \<and> contents (snd (pop_many n s)) = drop n (contents s)
     \<and> q_inv (snd (pop_many n s))"
proof (induction n arbitrary: s)
  case 0
  thus ?case by simp
next
  case (Suc n)
  have hd: "contents s = fst (pop s) # contents (snd (pop s))"
    using Suc.prems by (intro pop_contents) auto
  moreover have "n \<le> length (contents (snd (pop s)))" using Suc.prems(2) hd by (metis Suc_le_mono length_Cons)
  ultimately show ?case
    using Suc.IH [of "snd (pop s)"] pop_inv [OF Suc.prems(1)]
    by (simp add: Let_def split_beta)
qed

lemma push_all_pop_many:
  assumes "q_inv s" "contents s = []" "length xs \<le> bound s"
  shows "fst (pop_many (length xs) (push_all s xs)) = xs"
  using assms pop_many_contents [of "push_all s xs" "length xs"]
  by (simp add: push_all_inv push_all_contents)

end

interpretation ring_q: bounded_queue ring_inv ring_list ring_room ring_store ring_take
  by unfold_locales
    (simp_all add: ring_store_list ring_readable_bound ring_store_inv ring_take_inv,
     auto intro!: ring_take_list)

section \<open>Behaviour of the operations\<close>

lemma ring_getc_loop_nonempty:
  "ring_readable r \<noteq> 0 \<Longrightarrow>
     ring_getc_loop t r = Some (GChar (fst (ring_take r)), snd (ring_take r))"
  by (subst ring_getc_loop.simps) (simp add: split_beta)

lemma ring_getc_nonempty:
  "ring_readable r \<noteq> 0 \<Longrightarrow>
     ring_getc t r err = Some (GChar (fst (ring_take r)), snd (ring_take r))"
  by (simp add: ring_getc_def ring_getc_loop_nonempty split_beta)

lemma ring_getc_loop_closed:
  "ring_readable r = 0 \<Longrightarrow> ring_eof r \<Longrightarrow>
     ring_getc_loop t r = Some (GErr (- 1), r\<lparr>r_flags := r_flags r AND NOT RING_SIGNAL_BRK\<rparr>)"
  by (subst ring_getc_loop.simps) (simp add: flag_simps ring_eof_def)

lemma ring_getc_loop_empty:
  assumes "ring_readable r = 0" "\<not> bit (r_flags r) 0" "\<not> bit (r_flags r) 1"
    and "ion_owner (r_wait r) = None"
  shows "ring_getc_loop t r = Some (GSleep, r\<lparr>r_wait := \<lparr> ion_owner = Some t, ion_value = 0 \<rparr>\<rparr>)"
proof -
  have z: "ring_getc_loop t r = Some (GSleep, r\<lparr>r_wait := \<lparr> ion_owner = Some t, ion_value = 0 \<rparr>\<rparr>)"
    if "ring_readable r = 0" "\<not> bit (r_flags r) 0" "\<not> bit (r_flags r) 1"
      "ion_owner (r_wait r) = None" "ion_value (r_wait r) = 0" for r
    using that by (subst ring_getc_loop.simps) (simp add: flag_simps thread_wait_io_def)
  show ?thesis
  proof (cases "ion_value (r_wait r) = 0")
    case True
    with assms show ?thesis by (intro z)
  next
    case False
    have "ring_readable (r\<lparr>r_wait := n\<rparr>) = ring_readable r" for n by (simp add: ring_readable_def)
    with False assms show ?thesis
      by (subst ring_getc_loop.simps) (simp add: flag_simps thread_wait_io_def z)
  qed
qed

lemma ring_putc_loop_room:
  "ring_writable r \<noteq> 0 \<Longrightarrow> \<not> ring_eof r \<Longrightarrow> ring_putc_loop t r c = Some (PRet 0, ring_store r c)"
  by (subst ring_putc_loop.simps) (simp add: flag_simps ring_eof_def)

lemma ring_putc_loop_closed:
  "ring_eof r \<Longrightarrow> ring_putc_loop t r c = Some (PRet (- EPIPE), r)"
  by (subst ring_putc_loop.simps) (simp add: flag_simps ring_eof_def)

lemma ring_putc_loop_full:
  assumes "ring_writable r = 0" "\<not> ring_eof r" "ion_owner (r_writer_wait r) = None"
  shows "ring_putc_loop t r c =
    Some (PSleep, r\<lparr>r_writer_wait := \<lparr> ion_owner = Some t, ion_value = 0 \<rparr>\<rparr>)"
proof -
  have z: "ring_putc_loop t r c = Some (PSleep, r\<lparr>r_writer_wait := \<lparr> ion_owner = Some t, ion_value = 0 \<rparr>\<rparr>)"
    if "ring_writable r = 0" "\<not> ring_eof r" "ion_owner (r_writer_wait r) = None"
      "ion_value (r_writer_wait r) = 0" for r
    using that by (subst ring_putc_loop.simps) (simp add: flag_simps ring_eof_def thread_wait_io_def)
  show ?thesis
  proof (cases "ion_value (r_writer_wait r) = 0")
    case True
    with assms show ?thesis by (intro z)
  next
    case False
    have "ring_writable (r\<lparr>r_writer_wait := n\<rparr>) = ring_writable r"
      "ring_eof (r\<lparr>r_writer_wait := n\<rparr>) = ring_eof r" for n
      by (simp_all add: ring_writable_def ring_eof_def)
    with False assms show ?thesis
      by (subst ring_putc_loop.simps) (simp add: flag_simps ring_eof_def thread_wait_io_def z)
  qed
qed

lemma ring_signal_fields [simp]:
  "r_rd (ring_signal r s) = r_rd r" "r_wr (ring_signal r s) = r_wr r" "r_cap (ring_signal r s) = r_cap r"
  "r_base (ring_signal r s) = r_base r" "r_flags (ring_signal r s) = r_flags r OR s"
  "r_wait (ring_signal r s) = snd (thread_notify_io (r_wait r))"
  "r_writer_wait (ring_signal r s) = snd (thread_notify_io (r_writer_wait r))"
  by (simp_all add: ring_signal_def Let_def)

lemma ring_signal_inv [ygg_inv]: "ring_inv r \<Longrightarrow> ring_inv (ring_signal r s)"
  by (simp add: ring_inv_def)

lemma ring_signal_list [simp]: "ring_list (ring_signal r s) = ring_list r"
  by (simp add: ring_list_def ring_readable_def)

lemma ring_init_ok:
  "0 < cap \<Longrightarrow> length bs = cap \<Longrightarrow>
     fst (ring_init cap (Some bs)) = 0 \<and> ring_inv (snd (ring_init cap (Some bs)))
     \<and> ring_list (snd (ring_init cap (Some bs))) = []"
  by (simp add: ring_init_def ring_inv_def ring_list_def ring_readable_def Let_def)

text \<open>A write that fits is one \<open>push_all\<close> of the contract.\<close>

lemma ring_write_fits:
  "ring_inv r \<Longrightarrow> \<not> ring_eof r \<Longrightarrow> ring_readable r + length cs \<le> ring_room r \<Longrightarrow>
     ring_write t r cs len True = Some (WDone (int len), ring_q.push_all r cs)"
proof (induction cs arbitrary: r)
  case Nil
  thus ?case by simp
next
  case (Cons c cs)
  hence room: "ring_readable r < ring_room r" by simp
  hence "ring_putc t r c True = Some (PRet 0, ring_store r c)"
    using Cons.prems ring_writable_iff [of r] by (simp add: ring_putc_def ring_putc_loop_room)
  moreover have "\<not> ring_eof (ring_store r c)" using Cons.prems by (simp add: ring_eof_def)
  ultimately show ?case
    using Cons.prems room by (simp add: Cons.IH ring_store_inv ring_store_readable)
qed

end
