(* ===== verification/Pipe.thy ===== *)
theory Pipe
  imports Ring
begin

text \<open>
  Pipes (src/sys/char/pipe.c): the read and write handlers on the shared ring, as they run between two
  points where the calling thread may leave the CPU, and the concurrent system of one writing and one
  reading thread.  The receive loop of unix sockets (src/net/unix.c, \<open>unix_ring_recv\<close>) is the
  same code as the read loop of a pipe.  Here a thread that goes to sleep is off the CPU at once; \<open>Pipe_Window\<close>
  adds the time between the release of its lock and its removal from the run queue.
\<close>

definition PIPE_RING_SIZE :: nat where
  "PIPE_RING_SIZE = 1024"

datatype read_res = RDone "char list" | RBlocked nat "char list"

section \<open>Handlers\<close>

definition ring_write_resume ::
  "tid \<Rightarrow> int \<Rightarrow> ring \<Rightarrow> char list \<Rightarrow> nat \<Rightarrow> (write_res \<times> ring) kern" where
  "ring_write_resume t sig r rest len =
    (case rest of
       [] \<Rightarrow> Some (WDone (int len), r)
     | c # cs \<Rightarrow>
         (case ring_putc_resume t sig r c of
            None \<Rightarrow> None
          | Some (PSleep, r') \<Rightarrow> Some (WBlocked (c # cs), r')
          | Some (PRet res, r') \<Rightarrow>
              if res \<noteq> 0 then Some (WDone (- 1), r') else ring_write t r' cs len True))"

definition pipe_write_finish :: "(write_res \<times> ring) \<Rightarrow> (write_res \<times> ring)" where
  "pipe_write_finish x =
    (case x of
       (WDone res, r) \<Rightarrow> (WDone res, if res > 0 then ring_signal r RING_SIGNAL_RET else r)
     | (WBlocked rest, r) \<Rightarrow> (WBlocked rest, r))"

definition pipe_vnode_write :: "tid \<Rightarrow> ring \<Rightarrow> char list \<Rightarrow> (write_res \<times> ring) kern" where
  "pipe_vnode_write t r buf = map_option pipe_write_finish (ring_write t r buf (length buf) True)"

definition pipe_vnode_write_resume ::
  "tid \<Rightarrow> int \<Rightarrow> ring \<Rightarrow> char list \<Rightarrow> nat \<Rightarrow> (write_res \<times> ring) kern" where
  "pipe_vnode_write_resume t sig r rest len =
    map_option pipe_write_finish (ring_write_resume t sig r rest len)"

fun unix_ring_recv :: "tid \<Rightarrow> ring \<Rightarrow> nat \<Rightarrow> char list \<Rightarrow> (read_res \<times> ring) kern" where
  "unix_ring_recv t r 0 acc = Some (RDone acc, r)"
| "unix_ring_recv t r (Suc rem) acc =
    (case ring_getc t r False of
       None \<Rightarrow> None
     | Some (GSleep, r') \<Rightarrow> Some (RBlocked (Suc rem) acc, r')
     | Some (GErr e, r') \<Rightarrow> Some (RDone acc, r')
     | Some (GChar c, r') \<Rightarrow>
         if ring_readable r' = 0 \<and> r_flags r' AND RING_SIGNAL_RET \<noteq> 0
         then Some (RDone (acc @ [c]), r'\<lparr>r_flags := r_flags r' AND NOT RING_SIGNAL_RET\<rparr>)
         else unix_ring_recv t r' rem (acc @ [c]))"

definition pipe_vnode_read :: "tid \<Rightarrow> ring \<Rightarrow> nat \<Rightarrow> (read_res \<times> ring) kern" where
  "pipe_vnode_read t r count = unix_ring_recv t r count []"

definition pipe_vnode_read_resume ::
  "tid \<Rightarrow> int \<Rightarrow> ring \<Rightarrow> nat \<Rightarrow> char list \<Rightarrow> (read_res \<times> ring) kern" where
  "pipe_vnode_read_resume t sig r rem acc =
    (case ring_getc_resume t sig r of
       None \<Rightarrow> None
     | Some (GSleep, r') \<Rightarrow> Some (RBlocked rem acc, r')
     | Some (GErr e, r') \<Rightarrow> Some (RDone acc, r')
     | Some (GChar c, r') \<Rightarrow>
         if ring_readable r' = 0 \<and> r_flags r' AND RING_SIGNAL_RET \<noteq> 0
         then Some (RDone (acc @ [c]), r'\<lparr>r_flags := r_flags r' AND NOT RING_SIGNAL_RET\<rparr>)
         else unix_ring_recv t r' (rem - 1) (acc @ [c]))"

definition pipe_vnode_close :: "ring \<Rightarrow> ring" where
  "pipe_vnode_close r = ring_signal r RING_SIGNAL_EOF"

section \<open>What one handler run does to the ring\<close>

lemma ring_room_upd [simp]:
  "ring_room (r\<lparr>r_flags := f\<rparr>) = ring_room r" "ring_room (r\<lparr>r_wait := n\<rparr>) = ring_room r"
  "ring_room (r\<lparr>r_writer_wait := n\<rparr>) = ring_room r"
  by (simp_all add: ring_room_def)

lemma ring_readable_upd [simp]:
  "ring_readable (r\<lparr>r_flags := f\<rparr>) = ring_readable r" "ring_readable (r\<lparr>r_wait := n\<rparr>) = ring_readable r"
  "ring_readable (r\<lparr>r_writer_wait := n\<rparr>) = ring_readable r"
  "ring_readable (ring_signal r s) = ring_readable r"
  by (simp_all add: ring_readable_def)

lemma ring_list_upd [simp]:
  "ring_list (r\<lparr>r_flags := f\<rparr>) = ring_list r" "ring_list (r\<lparr>r_wait := n\<rparr>) = ring_list r"
  "ring_list (r\<lparr>r_writer_wait := n\<rparr>) = ring_list r"
  by (simp_all add: ring_list_def ring_readable_def)

lemma ring_inv_upd [simp]:
  "ring_inv (r\<lparr>r_flags := f\<rparr>) = ring_inv r" "ring_inv (r\<lparr>r_wait := n\<rparr>) = ring_inv r"
  "ring_inv (r\<lparr>r_writer_wait := n\<rparr>) = ring_inv r"
  by (simp_all add: ring_inv_def)

lemma ring_eof_upd [simp]:
  "ring_eof (r\<lparr>r_wait := n\<rparr>) = ring_eof r" "ring_eof (r\<lparr>r_writer_wait := n\<rparr>) = ring_eof r"
  "ring_eof (ring_store r c) = ring_eof r" "ring_eof (snd (ring_take r)) = ring_eof r"
  by (simp_all add: ring_eof_def)

lemma push_all_fields [simp]:
  "r_flags (ring_q.push_all r cs) = r_flags r"
  "r_writer_wait (ring_q.push_all r cs) = r_writer_wait r"
  "ring_room (ring_q.push_all r cs) = ring_room r"
  by (induction cs arbitrary: r) simp_all

lemma pop_many_fields [simp]:
  "r_flags (snd (ring_q.pop_many n r)) = r_flags r"
  "r_wait (snd (ring_q.pop_many n r)) = r_wait r"
  "ring_room (snd (ring_q.pop_many n r)) = ring_room r"
  by (induction n arbitrary: r) (simp_all add: Let_def split_beta)

text \<open>
  A write pushes a prefix of the bytes; it stops early only at a full ring or a closed one.
\<close>

definition write_outcome ::
  "tid \<Rightarrow> ring \<Rightarrow> char list \<Rightarrow> nat \<Rightarrow> nat \<Rightarrow> (write_res \<times> ring) kern \<Rightarrow> bool" where
  "write_outcome t r cs len n out \<longleftrightarrow>
    n \<le> length cs \<and> ring_readable r + n \<le> ring_room r \<and>
    (let r1 = ring_q.push_all r (take n cs) in
      n = length cs \<and> out = Some (WDone (int len), r1)
      \<or> n < length cs \<and> ring_eof r \<and> out = Some (WDone (- 1), r1)
      \<or> n < length cs \<and> \<not> ring_eof r \<and> ring_readable r1 = ring_room r1
         \<and> out = Some (WBlocked (drop n cs), r1\<lparr>r_writer_wait := \<lparr> ion_owner = Some t, ion_value = 0 \<rparr>\<rparr>))"

lemma ring_writable_0: "ring_inv r \<Longrightarrow> ring_writable r = 0 \<Longrightarrow> ring_readable r = ring_room r"
  using ring_writable_iff [of r] ring_readable_bound [of r] by linarith

lemma ring_write_outcome:
  "ring_inv r \<Longrightarrow> ion_owner (r_writer_wait r) = None \<Longrightarrow>
     \<exists>n. write_outcome t r cs len n (ring_write t r cs len True)"
proof (induction cs arbitrary: r)
  case Nil
  show ?case
    by (rule exI [of _ 0]) (simp add: write_outcome_def ring_readable_bound [OF Nil.prems(1)])
next
  case (Cons c cs)
  note inv = Cons.prems(1)
  consider (closed) "ring_eof r" | (full) "\<not> ring_eof r" "ring_writable r = 0"
    | (room) "\<not> ring_eof r" "ring_writable r \<noteq> 0" by blast
  thus ?case
  proof cases
    case closed
    thus ?thesis
      by (intro exI [of _ 0])
        (simp add: write_outcome_def ring_putc_def ring_putc_loop_closed ring_readable_bound [OF inv])
  next
    case full
    thus ?thesis using Cons.prems
      by (intro exI [of _ 0])
        (simp add: write_outcome_def ring_putc_def ring_putc_loop_full ring_writable_0)
  next
    case room
    hence lt: "ring_readable r < ring_room r" using ring_writable_iff [OF inv] by blast
    obtain n where n: "write_outcome t (ring_store r c) cs len n (ring_write t (ring_store r c) cs len True)"
      using Cons.IH [of "ring_store r c"] Cons.prems by (auto simp: ring_store_inv)
    thus ?thesis using room lt
      by (intro exI [of _ "Suc n"])
        (auto simp: write_outcome_def ring_putc_def ring_putc_loop_room ring_store_readable [OF inv] Let_def)
  qed
qed

lemma ring_write_resume_outcome:
  assumes inv: "ring_inv r" and sig: "sig = 0 \<or> sig = - EINTR" and ne: "rest \<noteq> []"
  shows "(\<exists>n. write_outcome t (r\<lparr>r_writer_wait := \<lparr> ion_owner = None, ion_value = 0 \<rparr>\<rparr>) rest len n
                (ring_write_resume t sig r rest len))
    \<or> sig \<noteq> 0 \<and> ring_write_resume t sig r rest len =
          Some (WDone (- 1), r\<lparr>r_writer_wait := (r_writer_wait r)\<lparr>ion_owner := None\<rparr>\<rparr>)
    \<or> sig = 0 \<and> ion_value (r_writer_wait r) = 0 \<and> ring_write_resume t sig r rest len =
          Some (WBlocked rest, r\<lparr>r_writer_wait := \<lparr> ion_owner = Some t, ion_value = 0 \<rparr>\<rparr>)"
proof -
  obtain c cs where rest: "rest = c # cs" using ne by (cases rest) auto
  consider (intr) "sig \<noteq> 0" | (again) "sig = 0" "ion_value (r_writer_wait r) = 0"
    | (go) "sig = 0" "ion_value (r_writer_wait r) \<noteq> 0" by blast
  thus ?thesis
  proof cases
    case intr
    thus ?thesis using sig rest
      by (simp add: ring_write_resume_def ring_putc_resume_def thread_wait_io_resume_def)
  next
    case again
    thus ?thesis using rest
      by (simp add: ring_write_resume_def ring_putc_resume_def thread_wait_io_resume_def thread_wait_io_def)
  next
    case go
    let ?r = "r\<lparr>r_writer_wait := \<lparr> ion_owner = None, ion_value = 0 \<rparr>\<rparr>"
    have "ring_write_resume t sig r rest len = ring_write t ?r rest len True"
      using go rest
      by (simp add: ring_write_resume_def ring_putc_resume_def thread_wait_io_resume_def
          thread_wait_io_def ring_putc_def)
    moreover have "\<exists>n. write_outcome t ?r rest len n (ring_write t ?r rest len True)"
      using inv by (intro ring_write_outcome) simp_all
    ultimately show ?thesis by simp
  qed
qed

text \<open>
  A read pops a prefix of the contents.  It goes to sleep only after it has drained the ring, and
  it never changes the end-of-file flag.
\<close>

definition read_outcome ::
  "tid \<Rightarrow> ring \<Rightarrow> nat \<Rightarrow> char list \<Rightarrow> nat \<Rightarrow> (read_res \<times> ring) kern \<Rightarrow> bool" where
  "read_outcome t r rem acc n out \<longleftrightarrow>
    n \<le> rem \<and> n \<le> ring_readable r \<and>
    (let r1 = snd (ring_q.pop_many n r); got = acc @ take n (ring_list r) in
      (\<exists>f. bit f 1 = ring_eof r \<and> out = Some (RDone got, r1\<lparr>r_flags := f\<rparr>))
      \<or> n = ring_readable r \<and> n < rem \<and> \<not> ring_eof r
         \<and> out = Some (RBlocked (rem - n) got, r1\<lparr>r_wait := \<lparr> ion_owner = Some t, ion_value = 0 \<rparr>\<rparr>))"

lemma read_outcome_0:
  "bit f 1 = ring_eof r \<Longrightarrow> read_outcome t r rem acc 0 (Some (RDone acc, r\<lparr>r_flags := f\<rparr>))"
  unfolding read_outcome_def Let_def by (intro conjI disjI1 exI [of _ f]) simp_all

lemma read_outcome_0':
  "read_outcome t r rem acc 0 (Some (RDone acc, r))"
  using read_outcome_0 [of "r_flags r" r] by (simp add: ring_eof_def)

lemma ring_recv_outcome:
  "ring_inv r \<Longrightarrow> ion_owner (r_wait r) = None \<Longrightarrow>
     \<exists>n. read_outcome t r rem acc n (unix_ring_recv t r rem acc)"
proof (induction rem arbitrary: r acc)
  case 0
  show ?case by (rule exI [of _ 0]) (simp add: read_outcome_0')
next
  case (Suc rem)
  note inv = Suc.prems(1)
  consider (closed) "ring_readable r = 0" "bit (r_flags r) 0 \<or> bit (r_flags r) 1"
    | (empty) "ring_readable r = 0" "\<not> bit (r_flags r) 0" "\<not> bit (r_flags r) 1"
    | (some) "ring_readable r \<noteq> 0" by blast
  thus ?case
  proof cases
    case closed
    hence "unix_ring_recv t r (Suc rem) acc =
        Some (RDone acc, r\<lparr>r_flags := r_flags r AND NOT RING_SIGNAL_BRK\<rparr>)"
      by (simp add: ring_getc_def ring_getc_loop.simps [of t r] flag_simps)
    moreover have "bit (r_flags r AND NOT RING_SIGNAL_BRK) 1 = ring_eof r"
      by (simp add: flag_simps ring_eof_def)
    ultimately show ?thesis using read_outcome_0 by metis
  next
    case empty
    thus ?thesis using Suc.prems
      by (intro exI [of _ 0]) (simp add: read_outcome_def ring_getc_def ring_getc_loop_empty ring_eof_def)
  next
    case some
    let ?r = "snd (ring_take r)" and ?c = "fst (ring_take r)"
    have lst: "ring_list r = ?c # ring_list ?r" by (rule ring_take_list [OF inv some])
    have rd: "ring_readable r = Suc (ring_readable ?r)" using arg_cong [OF lst, of length] by simp
    show ?thesis
    proof (cases "ring_readable ?r = 0 \<and> bit (r_flags r) 2")
      case True
      let ?f = "r_flags r AND NOT RING_SIGNAL_RET"
      have "unix_ring_recv t r (Suc rem) acc = Some (RDone (acc @ [?c]), ?r\<lparr>r_flags := ?f\<rparr>)"
        using True some by (simp add: ring_getc_nonempty flag_simps)
      moreover have "bit ?f 1 = ring_eof r" by (simp add: flag_simps ring_eof_def)
      ultimately have "read_outcome t r (Suc rem) acc 1 (unix_ring_recv t r (Suc rem) acc)"
        using rd lst by (auto simp: read_outcome_def Let_def split_beta intro!: exI [of _ ?f])
      thus ?thesis by blast
    next
      case False
      obtain n where n: "read_outcome t ?r rem (acc @ [?c]) n (unix_ring_recv t ?r rem (acc @ [?c]))"
        using Suc.IH [of ?r "acc @ [?c]"] Suc.prems by (auto simp: ring_take_inv)
      have "unix_ring_recv t r (Suc rem) acc = unix_ring_recv t ?r rem (acc @ [?c])"
        using False some by (auto simp: ring_getc_nonempty flag_simps)
      thus ?thesis using n rd lst
        by (intro exI [of _ "Suc n"]) (auto simp: read_outcome_def Let_def split_beta)
    qed
  qed
qed

lemma pipe_read_resume_outcome:
  assumes inv: "ring_inv r" and sig: "sig = 0 \<or> sig = - EINTR" and rem: "0 < rem"
  shows "(\<exists>n. read_outcome t (r\<lparr>r_wait := \<lparr> ion_owner = None, ion_value = 0 \<rparr>\<rparr>) rem acc n
                (pipe_vnode_read_resume t sig r rem acc))
    \<or> sig \<noteq> 0 \<and> pipe_vnode_read_resume t sig r rem acc =
          Some (RDone acc, r\<lparr>r_wait := (r_wait r)\<lparr>ion_owner := None\<rparr>\<rparr>)
    \<or> sig = 0 \<and> ion_value (r_wait r) = 0 \<and> pipe_vnode_read_resume t sig r rem acc =
          Some (RBlocked rem acc, r\<lparr>r_wait := \<lparr> ion_owner = Some t, ion_value = 0 \<rparr>\<rparr>)"
proof -
  consider (intr) "sig \<noteq> 0" | (again) "sig = 0" "ion_value (r_wait r) = 0"
    | (go) "sig = 0" "ion_value (r_wait r) \<noteq> 0" by blast
  thus ?thesis
  proof cases
    case intr
    thus ?thesis using sig
      by (simp add: pipe_vnode_read_resume_def ring_getc_resume_def thread_wait_io_resume_def)
  next
    case again
    thus ?thesis
      by (simp add: pipe_vnode_read_resume_def ring_getc_resume_def thread_wait_io_resume_def thread_wait_io_def)
  next
    case go
    let ?r = "r\<lparr>r_wait := \<lparr> ion_owner = None, ion_value = 0 \<rparr>\<rparr>"
    obtain m where m: "rem = Suc m" using rem by (cases rem) auto
    have "pipe_vnode_read_resume t sig r rem acc = unix_ring_recv t ?r rem acc"
      using go m
      by (simp add: pipe_vnode_read_resume_def ring_getc_resume_def thread_wait_io_resume_def
          thread_wait_io_def ring_getc_def split: option.split prod.split getc_res.split)
    moreover have "\<exists>n. read_outcome t ?r rem acc n (unix_ring_recv t ?r rem acc)"
      using inv by (intro ring_recv_outcome) simp_all
    ultimately show ?thesis by simp
  qed
qed

section \<open>One writer and one reader\<close>

text \<open>
  The system state is the ring, the program point of the two threads, and two histories: the bytes
  that entered the ring and the bytes a read call has taken out of it.  A thread that sleeps is runnable
  again once a notification has cleared its ownership, or when a signal wakes it (\<open>thread_signal\<close>
  queues the thread without touching the notification).
\<close>

definition WRITER :: tid where "WRITER = 0"
definition READER :: tid where "READER = 1"

datatype writer_pc = WIdle | WAsleep "char list" nat
datatype reader_pc = RIdle | RAsleep nat "char list"

record pipesys =
  ps_ring :: ring
  ps_writer :: writer_pc
  ps_reader :: reader_pc
  ps_sent :: "char list"
  ps_recv :: "char list"

datatype pipe_event = EvWrite "char list" | EvWriteResume int | EvRead nat | EvReadResume int | EvClose

definition ps_write_done :: "pipesys \<Rightarrow> char list \<Rightarrow> nat \<Rightarrow> write_res \<times> ring \<Rightarrow> pipesys" where
  "ps_write_done s cs len x =
    (let (res, r') = x; n = ring_readable r' - ring_readable (ps_ring s)
     in s\<lparr>ps_sent := ps_sent s @ take n cs,
         ps_writer := (case res of WDone _ \<Rightarrow> WIdle | WBlocked rest \<Rightarrow> WAsleep rest len),
         ps_ring := r'\<rparr>)"

definition ps_read_done :: "pipesys \<Rightarrow> char list \<Rightarrow> read_res \<times> ring \<Rightarrow> pipesys" where
  "ps_read_done s acc x =
    (case x of
       (RDone got, r') \<Rightarrow>
         s\<lparr>ps_ring := r', ps_recv := ps_recv s @ drop (length acc) got, ps_reader := RIdle\<rparr>
     | (RBlocked rem got, r') \<Rightarrow>
         s\<lparr>ps_ring := r', ps_recv := ps_recv s @ drop (length acc) got, ps_reader := RAsleep rem got\<rparr>)"

definition signal_ok :: "int \<Rightarrow> bool" where
  "signal_ok sig \<longleftrightarrow> sig = 0 \<or> sig = - EINTR"

fun pipe_enabled :: "pipe_event \<Rightarrow> pipesys \<Rightarrow> bool" where
  "pipe_enabled (EvWrite cs) s = (ps_writer s = WIdle)"
| "pipe_enabled (EvRead n) s = (ps_reader s = RIdle)"
| "pipe_enabled (EvWriteResume sig) s =
     (ps_writer s \<noteq> WIdle \<and> signal_ok sig
      \<and> (sig = 0 \<longrightarrow> ion_owner (r_writer_wait (ps_ring s)) = None))"
| "pipe_enabled (EvReadResume sig) s =
     (ps_reader s \<noteq> RIdle \<and> signal_ok sig
      \<and> (sig = 0 \<longrightarrow> ion_owner (r_wait (ps_ring s)) = None))"
| "pipe_enabled EvClose s = True"

fun pipe_exec :: "pipe_event \<Rightarrow> pipesys \<Rightarrow> pipesys kern" where
  "pipe_exec (EvWrite cs) s =
     map_option (ps_write_done s cs (length cs)) (pipe_vnode_write WRITER (ps_ring s) cs)"
| "pipe_exec (EvRead n) s =
     map_option (ps_read_done s []) (pipe_vnode_read READER (ps_ring s) n)"
| "pipe_exec (EvWriteResume sig) s =
     (case ps_writer s of WIdle \<Rightarrow> None
      | WAsleep rest len \<Rightarrow>
          map_option (ps_write_done s rest len) (pipe_vnode_write_resume WRITER sig (ps_ring s) rest len))"
| "pipe_exec (EvReadResume sig) s =
     (case ps_reader s of RIdle \<Rightarrow> None
      | RAsleep rem acc \<Rightarrow>
          map_option (ps_read_done s acc) (pipe_vnode_read_resume READER sig (ps_ring s) rem acc))"
| "pipe_exec EvClose s = Some (s\<lparr>ps_ring := pipe_vnode_close (ps_ring s)\<rparr>)"

definition pipe_start :: "nat \<Rightarrow> char list \<Rightarrow> pipesys" where
  "pipe_start cap mem = \<lparr> ps_ring = snd (ring_init cap (Some mem)), ps_writer = WIdle,
      ps_reader = RIdle, ps_sent = [], ps_recv = [] \<rparr>"

text \<open>Pipes use a ring of \<^term>\<open>PIPE_RING_SIZE\<close> bytes; the system is studied for every capacity of at least two.\<close>

inductive pipe_reach :: "pipesys \<Rightarrow> bool" where
  start: "1 < cap \<Longrightarrow> length mem = cap \<Longrightarrow> pipe_reach (pipe_start cap mem)"
| step: "pipe_reach s \<Longrightarrow> pipe_enabled ev s \<Longrightarrow> pipe_exec ev s = Some s' \<Longrightarrow> pipe_reach s'"

text \<open>The system invariant: a thread that nobody has woken sleeps for a reason.\<close>

definition writer_ok :: "ring \<Rightarrow> writer_pc \<Rightarrow> bool" where
  "writer_ok r w \<longleftrightarrow>
    (case w of
       WIdle \<Rightarrow> ion_owner (r_writer_wait r) = None
     | WAsleep rest len \<Rightarrow> rest \<noteq> [] \<and>
         (ion_owner (r_writer_wait r) = None \<and> ion_value (r_writer_wait r) \<noteq> 0
          \<or> ion_owner (r_writer_wait r) = Some WRITER \<and> ring_readable r = ring_room r \<and> \<not> ring_eof r))"

definition reader_ok :: "ring \<Rightarrow> reader_pc \<Rightarrow> bool" where
  "reader_ok r p \<longleftrightarrow>
    (case p of
       RIdle \<Rightarrow> ion_owner (r_wait r) = None
     | RAsleep rem acc \<Rightarrow> 0 < rem \<and>
         (ion_owner (r_wait r) = None \<and> ion_value (r_wait r) \<noteq> 0
          \<or> ion_owner (r_wait r) = Some READER \<and> ring_readable r = 0 \<and> \<not> ring_eof r))"

definition pipe_inv :: "pipesys \<Rightarrow> bool" where
  "pipe_inv s \<longleftrightarrow>
    ring_inv (ps_ring s) \<and> 0 < ring_room (ps_ring s)
    \<and> ps_sent s = ps_recv s @ ring_list (ps_ring s)
    \<and> writer_ok (ps_ring s) (ps_writer s) \<and> reader_ok (ps_ring s) (ps_reader s)"

section \<open>Preservation\<close>

lemma push_all_wait:
  "cs \<noteq> [] \<Longrightarrow> ion_owner (r_wait (ring_q.push_all r cs)) = None \<and> ion_value (r_wait (ring_q.push_all r cs)) \<noteq> 0"
proof (induction cs arbitrary: r)
  case (Cons c cs)
  thus ?case by (cases cs) simp_all
qed simp

lemma pop_many_writer_wait:
  "0 < n \<Longrightarrow> ion_owner (r_writer_wait (snd (ring_q.pop_many n r))) = None
      \<and> ion_value (r_writer_wait (snd (ring_q.pop_many n r))) \<noteq> 0"
proof (induction n arbitrary: r)
  case (Suc n)
  thus ?case by (cases n) (simp_all add: Let_def split_beta)
qed simp

lemma reader_ok_upd [simp]:
  "reader_ok (r\<lparr>r_writer_wait := n\<rparr>) p = reader_ok r p"
  by (simp add: reader_ok_def split: reader_pc.split)

lemma writer_ok_upd [simp]:
  "writer_ok (r\<lparr>r_wait := n\<rparr>) p = writer_ok r p"
  by (simp add: writer_ok_def split: writer_pc.split)

lemma reader_ok_notified:
  "ion_owner (r_wait r') = None \<Longrightarrow> ion_value (r_wait r') \<noteq> 0 \<Longrightarrow> reader_ok r p \<Longrightarrow> reader_ok r' p"
  by (auto simp: reader_ok_def split: reader_pc.splits)

lemma writer_ok_notified:
  "ion_owner (r_writer_wait r') = None \<Longrightarrow> ion_value (r_writer_wait r') \<noteq> 0 \<Longrightarrow> writer_ok r p \<Longrightarrow> writer_ok r' p"
  by (auto simp: writer_ok_def split: writer_pc.splits)

lemma reader_ok_push: "reader_ok r p \<Longrightarrow> reader_ok (ring_q.push_all r cs) p"
  by (cases "cs = []") (auto intro: reader_ok_notified dest: push_all_wait)

lemma writer_ok_pop: "writer_ok r p \<Longrightarrow> writer_ok (snd (ring_q.pop_many n r)) p"
  by (cases "n = 0") (auto intro: writer_ok_notified dest: pop_many_writer_wait)

lemma writer_ok_flags: "bit f 1 = ring_eof r \<Longrightarrow> writer_ok (r\<lparr>r_flags := f\<rparr>) p = writer_ok r p"
  by (simp add: writer_ok_def ring_eof_def split: writer_pc.split)

lemma pipe_signal_inv:
  assumes "pipe_inv s"
  shows "pipe_inv (s\<lparr>ps_ring := ring_signal (ps_ring s) f\<rparr>)"
proof -
  have "ring_room (ring_signal (ps_ring s) f) = ring_room (ps_ring s)" by (simp add: ring_room_def)
  moreover have "writer_ok (ring_signal (ps_ring s) f) (ps_writer s)"
    by (rule writer_ok_notified [of _ "ps_ring s"]) (use assms in \<open>simp_all add: pipe_inv_def\<close>)
  moreover have "reader_ok (ring_signal (ps_ring s) f) (ps_reader s)"
    by (rule reader_ok_notified [of _ "ps_ring s"]) (use assms in \<open>simp_all add: pipe_inv_def\<close>)
  ultimately show ?thesis using assms by (simp add: pipe_inv_def ring_signal_inv)
qed

text \<open>A finished or suspended write keeps the invariant, before and after the line signal.\<close>

lemma write_outcome_inv:
  assumes inv: "pipe_inv s" and out: "write_outcome WRITER r cs len n (Some x)"
    and r: "r = (ps_ring s)\<lparr>r_writer_wait := nt\<rparr>" "ion_owner nt = None"
  shows "pipe_inv (ps_write_done s cs len x) \<and> fst x \<noteq> WBlocked []"
proof -
  let ?r1 = "ring_q.push_all r (take n cs)"
  have rinv: "ring_inv r" and n: "n \<le> length cs" "ring_readable r + n \<le> ring_room r"
    using inv out r by (simp_all add: pipe_inv_def write_outcome_def)
  have lst: "ring_list ?r1 = ring_list r @ take n cs"
    using rinv n by (simp add: ring_q.push_all_contents)
  have "length (ring_list ?r1) = length (ring_list r @ take n cs)" by (simp only: lst)
  hence rd: "ring_readable ?r1 = ring_readable r + n" using n by simp
  have r1: "ring_inv ?r1" using rinv by (rule ring_q.push_all_inv)
  have rok: "reader_ok ?r1 (ps_reader s)"
    using inv r by (intro reader_ok_push) (simp add: pipe_inv_def)
  have eof: "ring_eof ?r1 = ring_eof r" by (simp add: ring_eof_def)
  show ?thesis
    using inv out r rd lst r1 rok eof n
    by (auto simp: write_outcome_def Let_def pipe_inv_def ps_write_done_def writer_ok_def ring_eof_def
        intro!: arg_cong2 [where f = take])
qed

lemma pipe_write_finish_inv:
  assumes "pipe_inv (ps_write_done s cs len x)"
  shows "pipe_inv (ps_write_done s cs len (pipe_write_finish x))"
proof -
  obtain res r where x: "x = (res, r)" by (cases x)
  show ?thesis
  proof (cases res)
    case (WDone k)
    thus ?thesis
      using assms pipe_signal_inv [OF assms, of RING_SIGNAL_RET] x
      by (auto simp: pipe_write_finish_def ps_write_done_def Let_def)
  next
    case (WBlocked rest)
    thus ?thesis using assms x by (simp add: pipe_write_finish_def)
  qed
qed

lemma read_outcome_inv:
  assumes inv: "pipe_inv s" and out: "read_outcome READER r rem acc n (Some x)"
    and r: "r = (ps_ring s)\<lparr>r_wait := nt\<rparr>" "ion_owner nt = None"
  shows "pipe_inv (ps_read_done s acc x)"
proof -
  let ?r1 = "snd (ring_q.pop_many n r)"
  have rinv: "ring_inv r" and n: "n \<le> rem" "n \<le> ring_readable r"
    using inv out r by (simp_all add: pipe_inv_def read_outcome_def)
  have lst: "ring_list ?r1 = drop n (ring_list r)" and r1: "ring_inv ?r1"
    using ring_q.pop_many_contents [OF rinv, of n] n by simp_all
  have rd: "ring_readable ?r1 = ring_readable r - n" using arg_cong [OF lst, of length] by simp
  have wok: "writer_ok ?r1 (ps_writer s)"
    using inv r by (intro writer_ok_pop) (simp add: pipe_inv_def)
  have eof: "ring_eof ?r1 = ring_eof r" by (simp add: ring_eof_def)
  have split: "take n (ring_list (ps_ring s)) @ drop n (ring_list (ps_ring s)) = ring_list (ps_ring s)"
    by (rule append_take_drop_id)
  from out consider
      (fin) f where "bit f 1 = ring_eof r" "x = (RDone (acc @ take n (ring_list r)), ?r1\<lparr>r_flags := f\<rparr>)"
    | (blk) "n = ring_readable r" "n < rem" "\<not> ring_eof r"
        "x = (RBlocked (rem - n) (acc @ take n (ring_list r)),
              ?r1\<lparr>r_wait := \<lparr> ion_owner = Some READER, ion_value = 0 \<rparr>\<rparr>)"
    unfolding read_outcome_def Let_def by auto
  thus ?thesis
  proof cases
    case fin
    thus ?thesis using inv r rd lst r1 wok eof split
      by (simp add: ps_read_done_def pipe_inv_def reader_ok_def writer_ok_flags)
  next
    case blk
    thus ?thesis using inv r rd lst r1 wok eof split
      by (simp add: ps_read_done_def pipe_inv_def reader_ok_def)
  qed
qed

lemma pipe_start_inv: "1 < cap \<Longrightarrow> length mem = cap \<Longrightarrow> pipe_inv (pipe_start cap mem)"
  using ring_init_ok [of cap mem]
  by (simp add: pipe_inv_def pipe_start_def ring_init_def ring_room_def
      writer_ok_def reader_ok_def thread_wait_io_init_def)

lemma r_upd_self [simp]:
  "(r::ring)\<lparr>r_writer_wait := r_writer_wait r\<rparr> = r" "(r::ring)\<lparr>r_wait := r_wait r\<rparr> = r"
  by simp_all

lemma pipe_exec_write:
  assumes inv: "pipe_inv s" and idle: "ps_writer s = WIdle"
  shows "\<exists>s'. pipe_exec (EvWrite cs) s = Some s' \<and> pipe_inv s'"
proof -
  let ?r = "ps_ring s"
  have own: "ring_inv ?r" "ion_owner (r_writer_wait ?r) = None"
    using inv idle by (simp_all add: pipe_inv_def writer_ok_def)
  obtain n where n: "write_outcome WRITER ?r cs (length cs) n (ring_write WRITER ?r cs (length cs) True)"
    using ring_write_outcome [OF own] by blast
  then obtain x where x: "ring_write WRITER ?r cs (length cs) True = Some x"
    by (auto simp: write_outcome_def Let_def)
  have "pipe_inv (ps_write_done s cs (length cs) x)"
    using write_outcome_inv [OF inv, of ?r cs "length cs" n x "r_writer_wait ?r"] n x own by simp
  thus ?thesis by (simp add: pipe_vnode_write_def x pipe_write_finish_inv)
qed

lemma pipe_exec_read:
  assumes inv: "pipe_inv s" and idle: "ps_reader s = RIdle"
  shows "\<exists>s'. pipe_exec (EvRead k) s = Some s' \<and> pipe_inv s'"
proof -
  let ?r = "ps_ring s"
  have own: "ring_inv ?r" "ion_owner (r_wait ?r) = None"
    using inv idle by (simp_all add: pipe_inv_def reader_ok_def)
  obtain n where n: "read_outcome READER ?r k [] n (unix_ring_recv READER ?r k [])"
    using ring_recv_outcome [OF own] by blast
  then obtain x where x: "unix_ring_recv READER ?r k [] = Some x"
    by (auto simp: read_outcome_def Let_def)
  have "pipe_inv (ps_read_done s [] x)"
    using read_outcome_inv [OF inv, of ?r k "[]" n x "r_wait ?r"] n x own by simp
  thus ?thesis by (simp add: pipe_vnode_read_def x)
qed

lemma pipe_exec_write_resume:
  assumes inv: "pipe_inv s" and en: "pipe_enabled (EvWriteResume sig) s"
  shows "\<exists>s'. pipe_exec (EvWriteResume sig) s = Some s' \<and> pipe_inv s'"
proof -
  let ?r = "ps_ring s"
  obtain rest len where w: "ps_writer s = WAsleep rest len" using en by (cases "ps_writer s") auto
  have r: "ring_inv ?r" "rest \<noteq> []" and sig: "sig = 0 \<or> sig = - EINTR"
    and val: "sig = 0 \<Longrightarrow> ion_value (r_writer_wait ?r) \<noteq> 0"
    using inv w en by (auto simp: pipe_inv_def writer_ok_def signal_ok_def)
  let ?out = "ring_write_resume WRITER sig ?r rest len"
  from ring_write_resume_outcome [OF r(1) sig r(2), of WRITER len] val
  obtain x where x: "?out = Some x" "pipe_inv (ps_write_done s rest len x)"
  proof (elim disjE exE conjE)
    fix n
    assume n: "write_outcome WRITER (?r\<lparr>r_writer_wait := \<lparr> ion_owner = None, ion_value = 0 \<rparr>\<rparr>) rest len n ?out"
    then obtain x where x: "?out = Some x" by (auto simp: write_outcome_def Let_def)
    thus thesis using that [OF x] n write_outcome_inv [OF inv, of _ rest len n x] by auto
  next
    assume "?out = Some (WDone (- 1), ?r\<lparr>r_writer_wait := (r_writer_wait ?r)\<lparr>ion_owner := None\<rparr>\<rparr>)"
    thus thesis using inv
      by (intro that) (auto simp: ps_write_done_def pipe_inv_def writer_ok_def)
  qed simp
  thus ?thesis by (simp add: w pipe_vnode_write_resume_def pipe_write_finish_inv)
qed

lemma pipe_exec_read_resume:
  assumes inv: "pipe_inv s" and en: "pipe_enabled (EvReadResume sig) s"
  shows "\<exists>s'. pipe_exec (EvReadResume sig) s = Some s' \<and> pipe_inv s'"
proof -
  let ?r = "ps_ring s"
  obtain rem acc where w: "ps_reader s = RAsleep rem acc" using en by (cases "ps_reader s") auto
  have r: "ring_inv ?r" "0 < rem" and sig: "sig = 0 \<or> sig = - EINTR"
    and val: "sig = 0 \<Longrightarrow> ion_value (r_wait ?r) \<noteq> 0"
    using inv w en by (auto simp: pipe_inv_def reader_ok_def signal_ok_def)
  let ?out = "pipe_vnode_read_resume READER sig ?r rem acc"
  from pipe_read_resume_outcome [OF r(1) sig r(2), of READER acc] val
  obtain x where x: "?out = Some x" "pipe_inv (ps_read_done s acc x)"
  proof (elim disjE exE conjE)
    fix n
    assume n: "read_outcome READER (?r\<lparr>r_wait := \<lparr> ion_owner = None, ion_value = 0 \<rparr>\<rparr>) rem acc n ?out"
    then obtain x where x: "?out = Some x" by (auto simp: read_outcome_def Let_def)
    thus thesis using that [OF x] n read_outcome_inv [OF inv, of _ rem acc n x] by auto
  next
    assume "?out = Some (RDone acc, ?r\<lparr>r_wait := (r_wait ?r)\<lparr>ion_owner := None\<rparr>\<rparr>)"
    thus thesis using inv
      by (intro that) (auto simp: ps_read_done_def pipe_inv_def reader_ok_def)
  qed simp
  thus ?thesis by (simp add: w)
qed

lemma pipe_exec_inv:
  assumes "pipe_inv s" "pipe_enabled ev s"
  shows "\<exists>s'. pipe_exec ev s = Some s' \<and> pipe_inv s'"
proof (cases ev)
  case EvClose
  thus ?thesis using pipe_signal_inv [OF assms(1)] by (simp add: pipe_vnode_close_def)
qed (use assms pipe_exec_write pipe_exec_read pipe_exec_write_resume pipe_exec_read_resume in auto)

lemma pipe_reach_inv: "pipe_reach s \<Longrightarrow> pipe_inv s"
  by (induction rule: pipe_reach.induct) (auto intro: pipe_start_inv dest: pipe_exec_inv)

section \<open>Properties\<close>

fun pipe_run :: "pipe_event list \<Rightarrow> pipesys \<Rightarrow> pipesys kern" where
  "pipe_run [] s = Some s"
| "pipe_run (ev # evs) s =
    (if pipe_enabled ev s then (case pipe_exec ev s of None \<Rightarrow> None | Some s' \<Rightarrow> pipe_run evs s') else None)"

lemma pipe_run_reach: "pipe_run evs s = Some s' \<Longrightarrow> pipe_reach s \<Longrightarrow> pipe_reach s'"
  by (induction evs arbitrary: s) (auto split: if_splits option.splits intro: pipe_reach.step)

lemma pipe_demo:
  "\<exists>s. pipe_reach s \<and> ps_sent s = ''heyyo'' \<and> ps_recv s = ''he'' \<and> ps_writer s = WAsleep ''u'' 4"
proof -
  let ?run = "pipe_run [EvRead 2, EvWrite ''he'', EvReadResume 0, EvWrite ''yyou''] (pipe_start 4 ''....'')"
  have out: "map_option (\<lambda>s. (ps_sent s, ps_recv s, ps_writer s)) ?run = Some (''heyyo'', ''he'', WAsleep ''u'' 4)"
    by code_simp
  then obtain s where s: "?run = Some s" by (cases ?run) auto
  hence "pipe_reach s" by (rule pipe_run_reach) (simp add: pipe_reach.start)
  thus ?thesis using out s by auto
qed

text \<open>
  C24: Every byte written to a pipe comes out once and in order.  In every reachable state of the
  system of a writing and a reading thread, whatever the interleaving, the sleeps, the wake-ups,
  the interrupting signals and closes, the bytes that entered the ring are the bytes handed to
  the reader followed by the bytes still stored.
\<close>
theorem pipe_fifo:
  assumes "pipe_reach s"
  shows "ps_sent s = ps_recv s @ ring_list (ps_ring s)"
  using pipe_reach_inv [OF assms] by (simp add: pipe_inv_def)

theorem pipe_fifo_witness:
  "\<exists>s. pipe_reach s \<and> ps_recv s = ''he'' \<and> ps_sent s = ps_recv s @ ring_list (ps_ring s)"
  using pipe_demo pipe_fifo by metis

text \<open>
  The pipe handlers are total: whatever step is possible in a reachable state, it completes or goes to
  sleep without tripping one of the assertions of the wait primitives or of the ring.
\<close>
lemma pipe_handlers_safe:
  assumes "pipe_reach s" "pipe_enabled ev s"
  shows "\<exists>s'. pipe_exec ev s = Some s'"
  using pipe_exec_inv [OF pipe_reach_inv [OF assms(1)] assms(2)] by blast

end
