(* ===== verification/Kstring.thy ===== *)
theory Kstring
  imports Ygg_Prelude
begin

text \<open>
  Character classes and C strings (src/sys/ctype.c, src/sys/string.c).  A C string is a region of
  memory, a list of characters that contains the terminating NUL; a routine that runs past the end
  of a region has the value \<^term>\<open>None\<close>.  The block routines \<open>memcpy\<close>, \<open>memmove\<close> and
  \<open>memset\<close> work on a byte-addressed memory, so that overlapping operands are visible.
\<close>

abbreviation NUL :: char where "NUL \<equiv> CHR 0x00"

text \<open>The value of a (signed) \<open>char\<close> after promotion to \<open>int\<close>.\<close>

definition schar :: "char \<Rightarrow> int" where
  "schar c = (let n = of_char c :: int in if n \<ge> 128 then n - 256 else n)"

section \<open>Character classes\<close>

definition isprint :: "int \<Rightarrow> bool" where "isprint x \<longleftrightarrow> x \<ge> 32 \<and> x < 255"
definition islower :: "int \<Rightarrow> bool" where "islower x \<longleftrightarrow> x \<ge> 97 \<and> x \<le> 122"
definition isupper :: "int \<Rightarrow> bool" where "isupper x \<longleftrightarrow> x \<ge> 65 \<and> x \<le> 90"
definition isspace :: "int \<Rightarrow> bool" where "isspace x \<longleftrightarrow> x = 32 \<or> x = 10 \<or> x = 9"
definition isdigit :: "int \<Rightarrow> bool" where "isdigit x \<longleftrightarrow> x \<ge> 48 \<and> x \<le> 57"
definition isxdigit :: "int \<Rightarrow> bool" where
  "isxdigit x \<longleftrightarrow> (x \<ge> 48 \<and> x \<le> 57) \<or> (x \<ge> 65 \<and> x \<le> 70) \<or> (x \<ge> 97 \<and> x \<le> 102)"
definition toupper :: "int \<Rightarrow> int" where "toupper x = (if islower x then x - 97 + 65 else x)"
definition tolower :: "int \<Rightarrow> int" where "tolower x = (if isupper x then x - 65 + 97 else x)"

lemma toupper_tolower: "toupper (tolower x) = toupper x" "tolower (toupper x) = tolower x"
  by (auto simp: toupper_def tolower_def islower_def isupper_def)

section \<open>Strings\<close>

fun atoi_loop :: "int \<Rightarrow> char list \<Rightarrow> int option" where
  "atoi_loop res [] = None"
| "atoi_loop res (c # cs) =
    (if isdigit (schar c) then atoi_loop (res * 10 + (schar c - 48)) cs else Some res)"

definition atoi :: "char list \<Rightarrow> int option" where
  "atoi s = atoi_loop 0 s"

fun strlen :: "char list \<Rightarrow> nat option" where
  "strlen [] = None"
| "strlen (c # cs) = (if c = NUL then Some 0 else map_option Suc (strlen cs))"

fun strcpy :: "char list \<Rightarrow> char list \<Rightarrow> char list option" where
  "strcpy (d # ds) (s # ss) =
    (if s = NUL then Some (NUL # ds) else map_option ((#) s) (strcpy ds ss))"
| "strcpy _ _ = None"

fun strncpy :: "char list \<Rightarrow> char list \<Rightarrow> nat \<Rightarrow> char list option" where
  "strncpy ds ss 0 = Some ds"
| "strncpy (d # ds) (s # ss) (Suc n) =
    (if s = NUL then Some (NUL # ds) else map_option ((#) s) (strncpy ds ss n))"
| "strncpy _ _ (Suc n) = None"

definition strcat :: "char list \<Rightarrow> char list \<Rightarrow> char list option" where
  "strcat dst src = do {
     l \<leftarrow> strlen dst;
     t \<leftarrow> strcpy (drop l dst) src;
     Some (take l dst @ t)
   }"

definition strncat :: "char list \<Rightarrow> char list \<Rightarrow> nat \<Rightarrow> char list option" where
  "strncat dst src lim = do {
     l \<leftarrow> strlen dst;
     if l < lim then Some dst
     else do {
       t \<leftarrow> strncpy (drop l dst) src ((2 ^ 64 + lim - l) mod 2 ^ 64);
       Some (take l dst @ t)
     }
   }"

fun strncmp :: "char list \<Rightarrow> char list \<Rightarrow> nat \<Rightarrow> int option" where
  "strncmp _ _ 0 = Some 0"
| "strncmp (x # xs) (y # ys) (Suc n) =
    (if x = NUL \<and> y = NUL then Some 0 else if x \<noteq> y then Some (- 1) else strncmp xs ys n)"
| "strncmp _ _ (Suc n) = None"

fun strcmp :: "char list \<Rightarrow> char list \<Rightarrow> int option" where
  "strcmp (x # xs) (y # ys) =
    (if x = NUL \<and> y = NUL then Some 0 else if x \<noteq> y then Some 1 else strcmp xs ys)"
| "strcmp _ _ = None"

fun strchr :: "char list \<Rightarrow> char \<Rightarrow> nat option option" where
  "strchr [] c = None"
| "strchr (x # xs) c =
    (if x = NUL then Some None else if x = c then Some (Some 0)
     else map_option (map_option Suc) (strchr xs c))"

fun strrchr_loop :: "char list \<Rightarrow> char \<Rightarrow> nat \<Rightarrow> nat option" where
  "strrchr_loop s c 0 = (if s ! 0 = c then Some 0 else None)"
| "strrchr_loop s c (Suc l) = (if s ! Suc l = c then Some (Suc l) else strrchr_loop s c l)"

definition strrchr :: "char list \<Rightarrow> char \<Rightarrow> nat option option" where
  "strrchr s c = do {
     l \<leftarrow> strlen s;
     if l = 0 then Some None else Some (strrchr_loop s c l)
   }"

fun memchr_loop :: "char list \<Rightarrow> int \<Rightarrow> nat \<Rightarrow> nat \<Rightarrow> nat option" where
  "memchr_loop a v i 0 = None"
| "memchr_loop a v i (Suc k) = (if schar (a ! i) = v then Some i else memchr_loop a v (Suc i) k)"

definition memchr :: "char list \<Rightarrow> int \<Rightarrow> nat \<Rightarrow> nat option" where
  "memchr a v c = memchr_loop a v 0 c"

fun memcmp :: "char list \<Rightarrow> char list \<Rightarrow> nat \<Rightarrow> int option" where
  "memcmp _ _ 0 = Some 0"
| "memcmp (x # xs) (y # ys) (Suc n) = (if x = y then memcmp xs ys n else Some (schar x - schar y))"
| "memcmp _ _ (Suc n) = None"

section \<open>Laws of the string routines\<close>

text \<open>\<open>cstring s\<close> is the region of a string followed by arbitrary memory.\<close>

definition no_nul :: "char list \<Rightarrow> bool" where
  "no_nul s \<longleftrightarrow> NUL \<notin> set s"

lemma no_nul_simps [simp]: "no_nul []" "no_nul (c # cs) \<longleftrightarrow> c \<noteq> NUL \<and> no_nul cs"
  "no_nul (xs @ ys) \<longleftrightarrow> no_nul xs \<and> no_nul ys"
  by (auto simp: no_nul_def)

lemma strlen_cstring [simp]: "no_nul s \<Longrightarrow> strlen (s @ NUL # r) = Some (length s)"
  by (induction s) auto

lemma strcpy_cstring [simp]:
  "no_nul s \<Longrightarrow> length s < length d \<Longrightarrow> strcpy d (s @ NUL # r) = Some (s @ NUL # drop (Suc (length s)) d)"
proof (induction s arbitrary: d)
  case Nil
  thus ?case by (cases d) auto
next
  case (Cons c cs)
  thus ?case by (cases d) auto
qed

lemma strcpy_overflow: "no_nul s \<Longrightarrow> length d \<le> length s \<Longrightarrow> strcpy d (s @ NUL # r) = None"
proof (induction s arbitrary: d)
  case (Cons c cs)
  thus ?case by (cases d) auto
qed simp

lemma strcat_cstring:
  assumes "no_nul a" "no_nul b" "length b \<le> length m"
  shows "strcat (a @ NUL # m) (b @ NUL # r) = Some (a @ b @ NUL # drop (length b) m)"
  using assms by (simp add: strcat_def)

lemma strcmp_cstring:
  "no_nul a \<Longrightarrow> no_nul b \<Longrightarrow> strcmp (a @ NUL # r) (b @ NUL # r') = Some (if a = b then 0 else 1)"
proof (induction a arbitrary: b)
  case Nil
  thus ?case by (cases b) auto
next
  case (Cons c cs)
  thus ?case by (cases b) auto
qed

lemma strncmp_cstring:
  "no_nul a \<Longrightarrow> no_nul b \<Longrightarrow>
     strncmp (a @ NUL # r) (b @ NUL # r') n = Some (if take n a = take n b then 0 else - 1)"
proof (induction a arbitrary: b n)
  case Nil
  thus ?case by (cases b; cases n) auto
next
  case (Cons c cs)
  thus ?case by (cases b; cases n) auto
qed

lemma strchr_cstring:
  "no_nul s \<Longrightarrow> strchr (s @ NUL # r) c =
     Some (if c \<in> set s then Some (length (takeWhile (\<lambda>x. x \<noteq> c) s)) else None)"
  by (induction s) auto

lemma of_char_bounds: "0 \<le> (of_char c :: int)" "(of_char c :: int) < 256"
proof -
  have e: "(of_char c :: int) = int (of_char c)" by (simp only: of_nat_of_char)
  show "0 \<le> (of_char c :: int)" by (simp only: e of_nat_0_le_iff)
  show "(of_char c :: int) < 256" using nat_of_char_less_256 [of c] by (simp only: e of_nat_less_numeral_iff)
qed

lemma schar_inj: "schar x = schar y \<longleftrightarrow> x = y"
  using of_char_bounds [of x] of_char_bounds [of y]
  by (auto simp: schar_def Let_def)

lemma memcmp_eq:
  "n \<le> length a \<Longrightarrow> n \<le> length b \<Longrightarrow> (memcmp a b n = Some 0) = (take n a = take n b)"
proof (induction n arbitrary: a b)
  case (Suc n)
  thus ?case by (cases a; cases b) (auto simp: schar_inj)
qed simp

section \<open>Block routines\<close>

type_synonym 'a mem = "nat \<Rightarrow> 'a"

definition memcpy :: "'a mem \<Rightarrow> nat \<Rightarrow> nat \<Rightarrow> nat \<Rightarrow> 'a mem" where
  "memcpy m dst src sz = fold (\<lambda>i m. m(dst + i := m (src + i))) [0..<sz] m"

definition memset :: "'a mem \<Rightarrow> nat \<Rightarrow> 'a \<Rightarrow> nat \<Rightarrow> 'a mem" where
  "memset m blk v sz = fold (\<lambda>i m. m(blk + i := v)) [0..<sz] m"

text \<open>One store of a \<open>size_t\<close>: eight bytes are read and then written.\<close>

definition copy8 :: "'a mem \<Rightarrow> nat \<Rightarrow> nat \<Rightarrow> 'a mem" where
  "copy8 m d s = (\<lambda>a. if d \<le> a \<and> a < d + 8 then m (s + (a - d)) else m a)"

fun mm_fwd_align :: "'a mem \<Rightarrow> nat \<Rightarrow> nat \<Rightarrow> nat \<Rightarrow> 'a mem + ('a mem \<times> nat \<times> nat \<times> nat)" where
  "mm_fwd_align m d s n =
    (if d mod 8 = 0 then Inr (m, d, s, n)
     else case n of 0 \<Rightarrow> Inl m | Suc k \<Rightarrow> mm_fwd_align (m(d := m s)) (d + 1) (s + 1) k)"

fun mm_fwd_words :: "'a mem \<Rightarrow> nat \<Rightarrow> nat \<Rightarrow> nat \<Rightarrow> 'a mem \<times> nat \<times> nat \<times> nat" where
  "mm_fwd_words m d s n =
    (if 8 \<le> n then mm_fwd_words (copy8 m d s) (d + 8) (s + 8) (n - 8) else (m, d, s, n))"

fun mm_fwd_bytes :: "'a mem \<Rightarrow> nat \<Rightarrow> nat \<Rightarrow> nat \<Rightarrow> 'a mem" where
  "mm_fwd_bytes m d s 0 = m"
| "mm_fwd_bytes m d s (Suc n) = mm_fwd_bytes (m(d := m s)) (d + 1) (s + 1) n"

fun mm_bwd_align :: "'a mem \<Rightarrow> nat \<Rightarrow> nat \<Rightarrow> nat \<Rightarrow> 'a mem + ('a mem \<times> nat)" where
  "mm_bwd_align m d s n =
    (if (d + n) mod 8 = 0 then Inr (m, n)
     else case n of 0 \<Rightarrow> Inl m | Suc k \<Rightarrow> mm_bwd_align (m(d + k := m (s + k))) d s k)"

fun mm_bwd_words :: "'a mem \<Rightarrow> nat \<Rightarrow> nat \<Rightarrow> nat \<Rightarrow> 'a mem \<times> nat" where
  "mm_bwd_words m d s n =
    (if 8 \<le> n then mm_bwd_words (copy8 m (d + (n - 8)) (s + (n - 8))) d s (n - 8) else (m, n))"

fun mm_bwd_bytes :: "'a mem \<Rightarrow> nat \<Rightarrow> nat \<Rightarrow> nat \<Rightarrow> 'a mem" where
  "mm_bwd_bytes m d s 0 = m"
| "mm_bwd_bytes m d s (Suc n) = mm_bwd_bytes (m(d + n := m (s + n))) d s n"

definition memmove :: "'a mem \<Rightarrow> nat \<Rightarrow> nat \<Rightarrow> nat \<Rightarrow> 'a mem" where
  "memmove m d s n =
    (if d = s then m
     else if s + n \<le> d \<or> d + n \<le> s then memcpy m d s n
     else if d < s then
       (if s mod 8 = d mod 8 then
          (case mm_fwd_align m d s n of
             Inl m' \<Rightarrow> m'
           | Inr (m, d, s, n) \<Rightarrow>
               (case mm_fwd_words m d s n of (m, d, s, n) \<Rightarrow> mm_fwd_bytes m d s n))
        else mm_fwd_bytes m d s n)
     else
       (if s mod 8 = d mod 8 then
          (case mm_bwd_align m d s n of
             Inl m' \<Rightarrow> m'
           | Inr (m, n) \<Rightarrow> (case mm_bwd_words m d s n of (m, n) \<Rightarrow> mm_bwd_bytes m d s n))
        else mm_bwd_bytes m d s n))"

declare mm_fwd_align.simps [simp del]
declare mm_bwd_align.simps [simp del]
declare mm_fwd_words.simps [simp del]
declare mm_bwd_words.simps [simp del]

text \<open>The reference: every target byte gets the original source byte.\<close>

definition moved :: "'a mem \<Rightarrow> nat \<Rightarrow> nat \<Rightarrow> nat \<Rightarrow> 'a mem" where
  "moved m d s n = (\<lambda>a. if d \<le> a \<and> a < d + n then m (s + (a - d)) else m a)"

lemma moved_0 [simp]: "moved m d s 0 = m"
  by (rule ext) (auto simp: moved_def)

lemma upd_moved: "m(d := m s) = moved m d s 1"
  by (auto simp: moved_def fun_eq_iff)

lemma copy8_moved: "copy8 m d s = moved m d s 8"
  by (simp add: copy8_def moved_def)

lemma moved_forward: "d \<le> s \<Longrightarrow> moved (moved m d s k) (d + k) (s + k) n = moved m d s (k + n)"
  by (auto simp: moved_def fun_eq_iff)

lemma moved_backward: "s \<le> d \<Longrightarrow> moved (moved m (d + n) (s + n) k) d s n = moved m d s (n + k)"
  by (auto simp: moved_def fun_eq_iff)

lemma mm_fwd_bytes_moved: "d \<le> s \<Longrightarrow> mm_fwd_bytes m d s n = moved m d s n"
proof (induction n arbitrary: m d s)
  case (Suc n)
  thus ?case using moved_forward [of d s m 1 n] by (simp add: upd_moved)
qed simp

lemma mm_bwd_bytes_moved: "s \<le> d \<Longrightarrow> mm_bwd_bytes m d s n = moved m d s n"
proof (induction n arbitrary: m)
  case (Suc n)
  thus ?case using moved_backward [of s d m n 1] by (simp add: upd_moved)
qed simp

lemma mm_fwd_words_moved:
  "d \<le> s \<Longrightarrow> mm_fwd_words m d s n = (m', d', s', n') \<Longrightarrow> moved m' d' s' n' = moved m d s n \<and> d' \<le> s'"
proof (induction m d s n rule: mm_fwd_words.induct)
  case (1 m d s n)
  show ?case
  proof (cases "8 \<le> n")
    case True
    hence "moved m' d' s' n' = moved (copy8 m d s) (d + 8) (s + 8) (n - 8) \<and> d' \<le> s'"
      using 1 by (simp add: mm_fwd_words.simps [of m])
    thus ?thesis using True moved_forward [OF 1(2), of m 8 "n - 8"] by (simp add: copy8_moved)
  qed (use 1 in \<open>simp add: mm_fwd_words.simps\<close>)
qed

lemma mm_bwd_words_moved:
  "s \<le> d \<Longrightarrow> mm_bwd_words m d s n = (m', n') \<Longrightarrow> moved m' d s n' = moved m d s n"
proof (induction m d s n rule: mm_bwd_words.induct)
  case (1 m d s n)
  show ?case
  proof (cases "8 \<le> n")
    case True
    hence "moved m' d s n' = moved (copy8 m (d + (n - 8)) (s + (n - 8))) d s (n - 8)"
      using 1 by (simp add: mm_bwd_words.simps [of m])
    thus ?thesis using True moved_backward [OF 1(2), of m "n - 8" 8] by (simp add: copy8_moved)
  qed (use 1 in \<open>simp add: mm_bwd_words.simps\<close>)
qed

lemma mm_fwd_align_moved:
  "d \<le> s \<Longrightarrow>
    (case mm_fwd_align m d s n of
       Inl m' \<Rightarrow> m' = moved m d s n
     | Inr (m', d', s', n') \<Rightarrow> moved m' d' s' n' = moved m d s n \<and> d' \<le> s')"
proof (induction n arbitrary: m d s)
  case 0
  thus ?case by (simp add: mm_fwd_align.simps)
next
  case (Suc n)
  define m1 where "m1 = m(d := m s)"
  have "moved m1 (d + 1) (s + 1) n = moved m d s (Suc n)"
    using moved_forward [OF Suc.prems, of m 1 n] by (simp add: upd_moved m1_def)
  moreover have "mm_fwd_align m d s (Suc n) =
      (if d mod 8 = 0 then Inr (m, d, s, Suc n) else mm_fwd_align m1 (d + 1) (s + 1) n)"
    by (simp add: mm_fwd_align.simps [of m] m1_def)
  ultimately show ?case using Suc.prems Suc.IH [of "d + 1" "s + 1" m1]
    by (auto split: sum.splits)
qed

lemma mm_bwd_align_moved:
  "s \<le> d \<Longrightarrow>
    (case mm_bwd_align m d s n of
       Inl m' \<Rightarrow> m' = moved m d s n
     | Inr (m', n') \<Rightarrow> moved m' d s n' = moved m d s n)"
proof (induction n arbitrary: m)
  case 0
  thus ?case by (simp add: mm_bwd_align.simps)
next
  case (Suc n)
  define m1 where "m1 = m(d + n := m (s + n))"
  have "moved m1 d s n = moved m d s (Suc n)"
    using moved_backward [OF Suc.prems, of m n 1] by (simp add: upd_moved m1_def)
  moreover have "mm_bwd_align m d s (Suc n) =
      (if (d + Suc n) mod 8 = 0 then Inr (m, Suc n) else mm_bwd_align m1 d s n)"
    by (simp add: mm_bwd_align.simps [of m] m1_def)
  ultimately show ?case using Suc.prems Suc.IH [of m1]
    by (auto split: sum.splits)
qed

lemma memcpy_moved: "d \<le> s \<or> s + n \<le> d \<Longrightarrow> memcpy m d s n = moved m d s n"
proof (induction n)
  case (Suc n)
  hence "memcpy m d s (Suc n) = (moved m d s n)(d + n := moved m d s n (s + n))"
    by (auto simp: memcpy_def)
  thus ?case using Suc.prems by (auto simp: moved_def fun_eq_iff)
qed (simp add: memcpy_def)

lemma memset_eq: "memset m b v n = (\<lambda>a. if b \<le> a \<and> a < b + n then v else m a)"
  by (induction n) (auto simp: memset_def fun_eq_iff)

text \<open>
  C31: The kernel's \<open>memmove\<close>, with its word-at-a-time forward and backward paths, moves
  correctly for every placement of the two blocks: each byte of the target block gets the value the
  corresponding source byte had before the call, and no other byte changes.
\<close>
theorem memmove_correct: "memmove m d s n = moved m d s n"
proof -
  consider (same) "d = s" | (apart) "d \<noteq> s" "s + n \<le> d \<or> d + n \<le> s"
    | (fwd) "d < s" "\<not> (s + n \<le> d \<or> d + n \<le> s)" | (bwd) "s < d" "\<not> (s + n \<le> d \<or> d + n \<le> s)"
    by linarith
  thus ?thesis
  proof cases
    case same
    thus ?thesis by (auto simp: memmove_def moved_def)
  next
    case apart
    thus ?thesis by (auto simp: memmove_def intro: memcpy_moved)
  next
    case fwd
    thus ?thesis using mm_fwd_align_moved [of d s m n]
      by (auto simp: memmove_def mm_fwd_bytes_moved dest: mm_fwd_words_moved split: sum.splits prod.splits)
  next
    case bwd
    thus ?thesis using mm_bwd_align_moved [of s d m n]
      by (auto simp: memmove_def mm_bwd_bytes_moved split: sum.splits prod.splits)
        (metis mm_bwd_words_moved less_imp_le)
  qed
qed

end
