(* ===== verification/Tty.thy ===== *)
theory Tty
  imports Pipe Kstring
begin

text \<open>
  Terminals: the input side (\<open>tty_data_write\<close>, src/sys/char/tty.c), the line discipline
  (\<open>line_read\<close>, src/sys/char/line.c) and the control requests.  The characters handed to the console or
  the serial line are collected in \<open>t_out\<close>; the calls of \<open>process_signal_pgid\<close> in \<open>t_sig\<close>.
\<close>

abbreviation ICRNL :: "32 word" where "ICRNL \<equiv> BIT 0"
abbreviation ISIG :: "32 word" where "ISIG \<equiv> BIT 0"
abbreviation ICANON :: "32 word" where "ICANON \<equiv> BIT 1"
abbreviation ECHO :: "32 word" where "ECHO \<equiv> BIT 4"
abbreviation ECHOE :: "32 word" where "ECHOE \<equiv> BIT 5"
abbreviation ECHOK :: "32 word" where "ECHOK \<equiv> BIT 6"
abbreviation ECHONL :: "32 word" where "ECHONL \<equiv> BIT 8"
abbreviation OPOST :: "32 word" where "OPOST \<equiv> BIT 0"
abbreviation (input) VEOF :: nat where "VEOF \<equiv> 0"
abbreviation (input) VINTR :: nat where "VINTR \<equiv> 1"
abbreviation (input) VSUSP :: nat where "VSUSP \<equiv> 2"
abbreviation (input) SIGINT :: int where "SIGINT \<equiv> 2"
abbreviation (input) SIGSTOP :: int where "SIGSTOP \<equiv> 19"
abbreviation LF :: char where "LF \<equiv> CHR 0x0A"
abbreviation CR :: char where "CR \<equiv> CHR 0x0D"
abbreviation DEL :: char where "DEL \<equiv> CHR 0x7F"
abbreviation ETB :: char where "ETB \<equiv> CHR 0x17"
abbreviation ESC :: char where "ESC \<equiv> CHR 0x1B"

record termios =
  c_iflag :: "32 word"
  c_oflag :: "32 word"
  c_cflag :: "32 word"
  c_lflag :: "32 word"
  c_cc :: "char list"

definition TERMIOS_DEFAULT :: termios where
  "TERMIOS_DEFAULT = \<lparr> c_iflag = 0, c_oflag = OPOST, c_cflag = 0,
     c_lflag = ECHO OR ECHONL OR ECHOE OR ECHOK OR ISIG OR ICANON,
     c_cc = [CHR 0x04, CHR 0x03, CHR 0x1A] \<rparr>"

record tty =
  t_buffer :: ring
  t_tc :: termios
  t_fg_pgid :: int
  t_console :: "(nat \<times> nat) option"
  t_out :: "char list"
  t_sig :: "(int \<times> int) list"

section \<open>Output and input\<close>

definition tty_putc :: "tty \<Rightarrow> char \<Rightarrow> tty" where
  "tty_putc y c = y\<lparr>t_out := t_out y @ [c]\<rparr>"

fun tty_puts :: "tty \<Rightarrow> char list \<Rightarrow> tty" where
  "tty_puts y [] = y"
| "tty_puts y (c # cs) = tty_puts (tty_putc y c) cs"

definition tty_write :: "tty \<Rightarrow> char list \<Rightarrow> int \<times> tty" where
  "tty_write y buf = (int (length buf), tty_puts y buf)"

definition lflag :: "tty \<Rightarrow> 32 word \<Rightarrow> bool" where
  "lflag y m \<longleftrightarrow> c_lflag (t_tc y) AND m \<noteq> 0"

definition tty_echo :: "tty \<Rightarrow> char \<Rightarrow> tty" where
  "tty_echo y c =
    (if c = LF then
       (let y = (if lflag y ECHONL then tty_putc y c else y)
        in if lflag y ICANON then y\<lparr>t_buffer := ring_signal (t_buffer y) RING_SIGNAL_RET\<rparr> else y)
     else if c = ETB \<or> c = DEL then y\<lparr>t_buffer := ring_signal (t_buffer y) 0\<rparr>
     else if c = CHR 0x0C then (if lflag y ECHO then tty_putc (tty_putc y CHR ''^'') CHR ''L'' else y)
     else if c = ESC then (if lflag y ECHO \<and> lflag y ICANON then tty_puts y ''^['' else y)
     else if lflag y ECHO then tty_putc y c else y)"

definition tty_data_write :: "tty \<Rightarrow> char \<Rightarrow> tty kern" where
  "tty_data_write y c =
    (let c = (if c = CR \<and> c_iflag (t_tc y) AND ICRNL \<noteq> 0 then LF else c);
         cc = c_cc (t_tc y)
     in if lflag y ICANON \<and> cc ! VEOF = c
        then Some (y\<lparr>t_buffer := ring_signal (t_buffer y) RING_SIGNAL_EOF\<rparr>)
        else if cc ! VSUSP = c \<and> lflag y ISIG
        then Some (y\<lparr>t_sig := t_sig y @ [(t_fg_pgid y, SIGSTOP)]\<rparr>)
        else
          (let y = (if cc ! VSUSP = c then tty_putc (tty_putc y CHR ''^'') CHR ''Z'' else y)
           in if cc ! VINTR = c \<and> lflag y ISIG
              then Some (y\<lparr>t_sig := t_sig y @ [(t_fg_pgid y, SIGINT)]\<rparr>)
              else
                (let y = (if cc ! VINTR = c then tty_putc (tty_putc y CHR ''^'') CHR ''C'' else y)
                 in case ring_putc 0 (t_buffer y) c False of
                      None \<Rightarrow> None
                    | Some (_, r) \<Rightarrow> Some (tty_echo (y\<lparr>t_buffer := r\<rparr>) c))))"

text \<open>A terminal on a console reports the console's size; a serial line reports 80 by 25.\<close>

datatype tty_request = TIOCGWINSZ | TCGETS | TCSETS termios | TIOCSPGRP int | TTY_OTHER
datatype tty_reply = NoReply | ReplyWinsize nat nat | ReplyTermios termios

definition tty_ioctl :: "tty \<Rightarrow> tty_request \<Rightarrow> int \<times> tty_reply \<times> tty" where
  "tty_ioctl y cmd =
    (case cmd of
       TIOCGWINSZ \<Rightarrow>
         (0, (case t_console y of Some (w, h) \<Rightarrow> ReplyWinsize w h | None \<Rightarrow> ReplyWinsize 80 25), y)
     | TCGETS \<Rightarrow> (0, ReplyTermios (t_tc y), y)
     | TCSETS tc \<Rightarrow>
         (let y = y\<lparr>t_tc := tc\<rparr>; r = t_buffer y
          in (0, NoReply,
              y\<lparr>t_buffer := r\<lparr>r_flags := (if lflag y ICANON then r_flags r AND NOT RING_RAW
                                           else r_flags r OR RING_RAW)\<rparr>\<rparr>))
     | TIOCSPGRP g \<Rightarrow> (0, NoReply, y\<lparr>t_buffer := (t_buffer y)\<lparr>r_flags := 0\<rparr>, t_fg_pgid := g\<rparr>)
     | TTY_OTHER \<Rightarrow> (- EINVAL, NoReply, y))"

section \<open>The line discipline\<close>

text \<open>The bytes collected so far are kept newest first; a call suspended in \<open>ring_getc\<close> keeps the room left.\<close>

datatype line_res = LDone "char list" | LBlocked nat "char list"

definition erase_seq :: "char list" where
  "erase_seq = [ESC, CHR ''['', CHR ''D'', CHR '' '', ESC, CHR ''['', CHR ''D'']"

fun line_werase :: "tty \<Rightarrow> char list \<Rightarrow> tty \<times> char list" where
  "line_werase y [] = (y, [])"
| "line_werase y (c # racc) =
    (if racc \<noteq> [] \<and> isspace (schar c) then (y, c # racc)
     else line_werase (if lflag y ECHOE then tty_puts y erase_seq else y) racc)"

definition line_clear_ret :: "tty \<Rightarrow> tty" where
  "line_clear_ret y =
    y\<lparr>t_buffer := (t_buffer y)\<lparr>r_flags := r_flags (t_buffer y) AND NOT RING_SIGNAL_RET\<rparr>\<rparr>"

definition line_step ::
  "nat \<Rightarrow> tty \<Rightarrow> nat \<Rightarrow> char list \<Rightarrow> getc_res \<times> ring \<Rightarrow> (line_res \<times> tty) + (tty \<times> nat \<times> char list)" where
  "line_step lim y rem racc g =
    (let y = y\<lparr>t_buffer := snd g\<rparr>
     in case fst g of
          GSleep \<Rightarrow> Inl (LBlocked rem racc, y)
        | GErr e \<Rightarrow>
            if r_flags (t_buffer y) AND RING_SIGNAL_EOF \<noteq> 0 then Inl (LDone (rev racc), y)
            else Inr (y, lim, [])
        | GChar c \<Rightarrow>
            if c = ETB \<and> lflag y ICANON then
              (let (y', racc') = line_werase y racc
               in Inr (y', rem + (length racc - length racc'), racc'))
            else if c = DEL \<and> lflag y ICANON then
              (case racc of
                 [] \<Rightarrow> Inr (y, rem, [])
               | _ # racc' \<Rightarrow> Inr (if lflag y ECHOE then tty_puts y erase_seq else y, Suc rem, racc'))
            else if c = LF \<or> (ring_readable (t_buffer y) = 0 \<and> \<not> lflag y ICANON)
            then Inl (LDone (rev (c # racc)), line_clear_ret y)
            else Inr (y, rem - 1, c # racc))"

partial_function (option) line_loop ::
  "tid \<Rightarrow> nat \<Rightarrow> tty \<Rightarrow> nat \<Rightarrow> char list \<Rightarrow> (line_res \<times> tty) option" where
  "line_loop t lim y rem racc =
    (if rem = 0 then Some (LDone (rev racc), line_clear_ret y)
     else case ring_getc t (t_buffer y) False of
            None \<Rightarrow> None
          | Some g \<Rightarrow>
              (case line_step lim y rem racc g of
                 Inl x \<Rightarrow> Some x
               | Inr (y', rem', racc') \<Rightarrow> line_loop t lim y' rem' racc'))"

definition line_read :: "tid \<Rightarrow> tty \<Rightarrow> nat \<Rightarrow> (line_res \<times> tty) option" where
  "line_read t y lim =
    (let y = line_clear_ret y
     in if r_flags (t_buffer y) AND RING_SIGNAL_EOF \<noteq> 0 then Some (LDone [], y)
        else line_loop t lim y lim [])"

definition line_read_resume ::
  "tid \<Rightarrow> int \<Rightarrow> nat \<Rightarrow> tty \<Rightarrow> nat \<Rightarrow> char list \<Rightarrow> (line_res \<times> tty) option" where
  "line_read_resume t sig lim y rem racc =
    (case ring_getc_resume t sig (t_buffer y) of
       None \<Rightarrow> None
     | Some g \<Rightarrow>
         (case line_step lim y rem racc g of
            Inl x \<Rightarrow> Some x
          | Inr (y', rem', racc') \<Rightarrow> line_loop t lim y' rem' racc'))"

text \<open>
  \<open>simple_line_read\<close> of devices that are not terminals: it spins until the ring has data, so the model
  starts at a non-empty ring and drains it with non-blocking reads.
\<close>

fun simple_line_drain :: "tid \<Rightarrow> ring \<Rightarrow> nat \<Rightarrow> char list \<Rightarrow> (char list \<times> ring) kern" where
  "simple_line_drain t r 0 acc = Some (acc, r)"
| "simple_line_drain t r (Suc rem) acc =
    (if ring_readable r = 0 then Some (acc, r)
     else case ring_getc t r True of
            None \<Rightarrow> None
          | Some (GChar c, r') \<Rightarrow> simple_line_drain t r' rem (acc @ [c])
          | Some (_, r') \<Rightarrow> Some (acc, r'))"

section \<open>A list-level specification of the discipline\<close>

fun werase_spec :: "char list \<Rightarrow> char list" where
  "werase_spec [] = []"
| "werase_spec (c # racc) = (if racc \<noteq> [] \<and> isspace (schar c) then c # racc else werase_spec racc)"

text \<open>
  \<open>line_spec ican rem racc cs\<close> reads \<open>cs\<close>: the result says whether the call is complete, the room left,
  the collected bytes (newest first) and the unread rest.
\<close>

fun line_spec :: "bool \<Rightarrow> nat \<Rightarrow> char list \<Rightarrow> char list \<Rightarrow> bool \<times> nat \<times> char list \<times> char list" where
  "line_spec ican rem racc [] = (rem = 0, rem, racc, [])"
| "line_spec ican rem racc (c # cs) =
    (if rem = 0 then (True, rem, racc, c # cs)
     else if c = ETB \<and> ican then
       line_spec ican (rem + (length racc - length (werase_spec racc))) (werase_spec racc) cs
     else if c = DEL \<and> ican then
       (case racc of [] \<Rightarrow> line_spec ican rem [] cs | _ # racc' \<Rightarrow> line_spec ican (Suc rem) racc' cs)
     else if c = LF \<or> (cs = [] \<and> \<not> ican) then (True, rem - 1, c # racc, cs)
     else line_spec ican (rem - 1) (c # racc) cs)"

section \<open>The discipline meets its specification\<close>

lemma tty_puts_fields [simp]:
  "t_buffer (tty_puts y cs) = t_buffer y" "t_tc (tty_puts y cs) = t_tc y"
  by (induction cs arbitrary: y) (simp_all add: tty_putc_def)

lemma lflag_upd [simp]:
  "lflag (tty_puts y cs) m = lflag y m" "lflag (y\<lparr>t_buffer := r\<rparr>) m = lflag y m"
  by (simp_all add: lflag_def)

lemma line_werase_spec:
  "snd (line_werase y racc) = werase_spec racc" "t_buffer (fst (line_werase y racc)) = t_buffer y"
  "lflag (fst (line_werase y racc)) m = lflag y m"
  by (induction racc arbitrary: y) simp_all

lemma werase_spec_length: "length (werase_spec racc) \<le> length racc"
  by (induction racc) auto

text \<open>The buffer of an idle, undisturbed terminal: no reader sleeps, no break and no end of file.\<close>

definition line_idle :: "ring \<Rightarrow> bool" where
  "line_idle r \<longleftrightarrow>
    ring_inv r \<and> ion_owner (r_wait r) = None \<and> \<not> bit (r_flags r) 0 \<and> \<not> bit (r_flags r) 1"

lemma line_idle_take: "line_idle r \<Longrightarrow> line_idle (snd (ring_take r))"
  by (simp add: line_idle_def ring_take_inv)

definition line_outcome ::
  "tid \<Rightarrow> bool \<times> nat \<times> char list \<times> char list \<Rightarrow> (line_res \<times> tty) option \<Rightarrow> bool" where
  "line_outcome t sp out \<longleftrightarrow>
    (case sp of (complete, rem, racc, rest) \<Rightarrow>
       if complete
       then (\<exists>y'. out = Some (LDone (rev racc), y') \<and> ring_list (t_buffer y') = rest \<and> line_idle (t_buffer y'))
       else (\<exists>y'. out = Some (LBlocked rem racc, y') \<and> ring_readable (t_buffer y') = 0
                  \<and> ring_inv (t_buffer y') \<and> ion_owner (r_wait (t_buffer y')) = Some t))"

lemma line_clear_ret_idle:
  "line_idle (t_buffer y) \<Longrightarrow> line_idle (t_buffer (line_clear_ret y))"
  "ring_list (t_buffer (line_clear_ret y)) = ring_list (t_buffer y)"
  "ring_readable (t_buffer (line_clear_ret y)) = ring_readable (t_buffer y)"
  "lflag (line_clear_ret y) m = lflag y m"
  by (simp_all add: line_idle_def line_clear_ret_def flag_simps)

lemma line_loop_spec:
  "line_idle (t_buffer y) \<Longrightarrow> ring_list (t_buffer y) = cs \<Longrightarrow>
     line_outcome t (line_spec (lflag y ICANON) rem racc cs) (line_loop t lim y rem racc)"
proof (induction cs arbitrary: y rem racc)
  case Nil
  hence "ring_readable (t_buffer y) = 0" by (metis ring_list_empty_iff(1))
  thus ?case using Nil line_clear_ret_idle [of y]
    by (subst line_loop.simps)
      (auto simp: line_outcome_def line_step_def ring_getc_def ring_getc_loop_empty line_idle_def)
next
  case (Cons c cs)
  let ?r = "t_buffer y" and ?r' = "snd (ring_take (t_buffer y))"
  have ne: "ring_readable ?r \<noteq> 0"
    using Cons.prems(2) by (metis ring_list_empty_iff(1) list.distinct(1))
  have hd: "fst (ring_take ?r) = c" "ring_list ?r' = cs"
    using ring_take_list [of ?r] Cons.prems ne by (simp_all add: line_idle_def)
  have idle: "line_idle ?r'" using Cons.prems by (simp add: line_idle_take)
  have emp: "ring_readable ?r' = 0 \<longleftrightarrow> cs = []" using hd(2) ring_list_empty_iff(1) by metis
  let ?y = "y\<lparr>t_buffer := ?r'\<rparr>"
  show ?case
  proof (cases "rem = 0")
    case True
    thus ?thesis using Cons.prems line_clear_ret_idle [of y]
      by (subst line_loop.simps) (simp add: line_outcome_def)
  next
    case False
    have loop: "line_loop t lim y rem racc =
        (case line_step lim y rem racc (GChar c, ?r') of
           Inl x \<Rightarrow> Some x | Inr (y', rem', racc') \<Rightarrow> line_loop t lim y' rem' racc')"
      using False hd by (subst line_loop.simps) (simp add: ring_getc_nonempty [OF ne])
    have IH: "t_buffer y' = ?r' \<Longrightarrow> lflag y' ICANON = lflag y ICANON \<Longrightarrow>
        line_outcome t (line_spec (lflag y ICANON) rem' racc' cs) (line_loop t lim y' rem' racc')"
      for y' rem' racc'
      using Cons.IH [of y' rem' racc'] idle hd(2) by simp
    let ?ican = "lflag y ICANON"
    consider (word) "c = ETB" ?ican | (del) "c = DEL" ?ican
      | (fin) "\<not> (c = ETB \<and> ?ican)" "\<not> (c = DEL \<and> ?ican)" "c = LF \<or> cs = [] \<and> \<not> ?ican"
      | (go) "\<not> (c = ETB \<and> ?ican)" "\<not> (c = DEL \<and> ?ican)" "\<not> (c = LF \<or> cs = [] \<and> \<not> ?ican)"
      by blast
    thus ?thesis
    proof cases
      case word
      have "line_step lim y rem racc (GChar c, ?r') =
          Inr (fst (line_werase ?y racc), rem + (length racc - length (werase_spec racc)), werase_spec racc)"
        using word by (simp add: line_step_def Let_def split_beta line_werase_spec)
      thus ?thesis using word False IH [of "fst (line_werase ?y racc)"]
        by (simp add: loop line_werase_spec)
    next
      case del
      show ?thesis
      proof (cases racc)
        case Nil
        thus ?thesis using del False IH [of ?y rem "[]"] by (simp add: loop [unfolded Nil] line_step_def)
      next
        case (Cons x xs)
        thus ?thesis
          using del False IH [of "if lflag y ECHOE then tty_puts ?y erase_seq else ?y" "Suc rem" xs]
          by (cases "lflag y ECHOE") (simp_all add: loop [unfolded Cons] line_step_def)
      qed
    next
      case fin
      hence "line_step lim y rem racc (GChar c, ?r') = Inl (LDone (rev (c # racc)), line_clear_ret ?y)"
        by (auto simp: line_step_def emp)
      thus ?thesis using fin False idle hd(2) line_clear_ret_idle [of ?y]
        by (auto simp: loop line_outcome_def)
    next
      case go
      hence "line_step lim y rem racc (GChar c, ?r') = Inr (?y, rem - 1, c # racc)"
        by (auto simp: line_step_def emp)
      thus ?thesis using go False IH [of ?y "rem - 1" "c # racc"] by (auto simp: loop)
    qed
  qed
qed

lemma line_read_spec:
  assumes "line_idle (t_buffer y)"
  shows "line_outcome t (line_spec (lflag y ICANON) lim [] (ring_list (t_buffer y))) (line_read t y lim)"
proof -
  have "line_read t y lim = line_loop t lim (line_clear_ret y) lim []"
    using line_clear_ret_idle(1) [OF assms] by (simp add: line_read_def Let_def line_idle_def flag_simps)
  thus ?thesis
    using line_loop_spec [of "line_clear_ret y" "ring_list (t_buffer y)" t lim "[]" lim]
      line_clear_ret_idle [of y] assms by simp
qed

lemma line_spec_bound:
  "line_spec ican rem racc cs = (complete, rem', racc', rest) \<Longrightarrow>
     length racc' + rem' = length racc + rem"
proof (induction ican rem racc cs rule: line_spec.induct)
  case (2 ican rem racc c cs)
  thus ?case using werase_spec_length [of racc] by (auto split: if_splits list.splits)
qed simp

lemma line_spec_plain:
  "list_all (\<lambda>c. c \<noteq> LF \<and> c \<noteq> ETB \<and> c \<noteq> DEL) cs \<Longrightarrow> length cs < rem \<Longrightarrow>
     line_spec True rem racc (cs @ LF # rest) = (True, rem - Suc (length cs), LF # rev cs @ racc, rest)"
  by (induction cs arbitrary: rem racc) auto

section \<open>Typing into a terminal\<close>

definition plain_key :: "tty \<Rightarrow> char \<Rightarrow> bool" where
  "plain_key y c \<longleftrightarrow> c \<notin> {c_cc (t_tc y) ! VEOF, c_cc (t_tc y) ! VSUSP, c_cc (t_tc y) ! VINTR}
     \<and> (c = CR \<longrightarrow> \<not> bit (c_iflag (t_tc y)) 0)"

fun tty_type :: "tty \<Rightarrow> char list \<Rightarrow> tty kern" where
  "tty_type y [] = Some y"
| "tty_type y (c # cs) = (case tty_data_write y c of None \<Rightarrow> None | Some y' \<Rightarrow> tty_type y' cs)"

lemma tty_data_write_plain:
  assumes "plain_key y c" "\<not> bit (r_flags (t_buffer y)) 1"
  shows "tty_data_write y c = Some (tty_echo (y\<lparr>t_buffer := ring_store (t_buffer y) c\<rparr>) c)"
proof -
  have key: "(if c = CR \<and> c_iflag (t_tc y) AND ICRNL \<noteq> 0 then LF else c) = c"
    and cc: "(c_cc (t_tc y) ! VEOF = c) = False" "(c_cc (t_tc y) ! VSUSP = c) = False"
      "(c_cc (t_tc y) ! VINTR = c) = False"
    using assms(1) by (auto simp: plain_key_def flag_simps)
  have put: "ring_putc 0 (t_buffer y) c False = Some (PRet 0, ring_store (t_buffer y) c)"
    using assms(2) by (simp add: ring_putc_def flag_simps)
  show ?thesis
    unfolding tty_data_write_def Let_def key cc by (simp add: put)
qed

lemma tty_echo_fields [simp]:
  "t_tc (tty_echo y c) = t_tc y" "ring_list (t_buffer (tty_echo y c)) = ring_list (t_buffer y)"
  "ring_room (t_buffer (tty_echo y c)) = ring_room (t_buffer y)"
  "ring_readable (t_buffer (tty_echo y c)) = ring_readable (t_buffer y)"
  by (simp_all add: tty_echo_def tty_putc_def Let_def ring_room_def)

lemma tty_echo_idle: "line_idle (t_buffer y) \<Longrightarrow> line_idle (t_buffer (tty_echo y c))"
  by (simp add: tty_echo_def tty_putc_def Let_def line_idle_def flag_simps ring_signal_inv)

lemma plain_key_tc: "t_tc y' = t_tc y \<Longrightarrow> plain_key y' c = plain_key y c"
  by (simp add: plain_key_def)

lemma tty_type_plain:
  "line_idle (t_buffer y) \<Longrightarrow> list_all (plain_key y) cs \<Longrightarrow>
   ring_readable (t_buffer y) + length cs \<le> ring_room (t_buffer y) \<Longrightarrow>
   \<exists>y'. tty_type y cs = Some y' \<and> line_idle (t_buffer y') \<and> t_tc y' = t_tc y
      \<and> ring_list (t_buffer y') = ring_list (t_buffer y) @ cs"
proof (induction cs arbitrary: y)
  case Nil
  thus ?case by simp
next
  case (Cons c cs)
  let ?y = "tty_echo (y\<lparr>t_buffer := ring_store (t_buffer y) c\<rparr>) c"
  have inv: "ring_inv (t_buffer y)" and room: "ring_readable (t_buffer y) < ring_room (t_buffer y)"
    using Cons.prems by (simp_all add: line_idle_def)
  have step: "tty_data_write y c = Some ?y"
    using Cons.prems by (intro tty_data_write_plain) (simp_all add: line_idle_def)
  have lst: "ring_list (t_buffer ?y) = ring_list (t_buffer y) @ [c]"
    by (simp add: ring_store_list [OF inv room])
  have rd: "ring_readable (t_buffer ?y) + length cs \<le> ring_room (t_buffer ?y)"
    using Cons.prems(3) by (simp add: ring_store_readable [OF inv room])
  have "line_idle (t_buffer ?y)"
    using Cons.prems inv by (intro tty_echo_idle) (simp add: line_idle_def ring_store_inv)
  moreover have "list_all (plain_key ?y) cs"
    using Cons.prems(2) plain_key_tc [of ?y y] by (simp add: list_all_iff)
  ultimately obtain y' where "tty_type ?y cs = Some y'" "line_idle (t_buffer y')" "t_tc y' = t_tc y"
      "ring_list (t_buffer y') = ring_list (t_buffer ?y) @ cs"
    using Cons.IH [OF _ _ rd] by auto
  thus ?case using step lst by simp
qed

lemma ring_store_overrun:
  assumes "ring_inv r" "ring_readable r = ring_room r"
  shows "ring_readable (ring_store r c) = 0"
proof (cases "r_rd r \<le> r_wr r")
  case True
  hence "r_wr r = r_cap r - 1" "r_rd r = 0" using assms by (auto simp: ring_inv_def ring_readable_def ring_room_def)
  thus ?thesis by (simp add: ring_readable_def ring_store_def ring_advance_write_def Let_def)
next
  case False
  hence "r_rd r = Suc (r_wr r)" "r_wr r \<noteq> r_cap r - 1" using assms by (auto simp: ring_inv_def ring_readable_def ring_room_def)
  thus ?thesis by (simp add: ring_readable_def ring_store_def ring_advance_write_def Let_def)
qed

section \<open>Properties\<close>

text \<open>
  C32: Typing a line into an idle terminal and reading it returns the edited line.  Whatever ordinary keys
  are typed (erase keys included; no end-of-file, interrupt or suspend key and no carriage return that
  \<open>ICRNL\<close> translates) and fit the buffer, every key is stored without a panic, and
  the following \<open>line_read\<close> terminates and yields exactly what the list-level line
  discipline computes: the edited bytes up to the newline or the caller's limit, with the
  unread rest left in the buffer, or it goes to sleep with the partial line kept.
\<close>
theorem tty_line_correct:
  assumes "line_idle (t_buffer y)" "list_all (plain_key y) cs"
    and "length (ring_list (t_buffer y)) + length cs < r_cap (t_buffer y)"
  shows "\<exists>y'. tty_type y cs = Some y' \<and>
           line_outcome t (line_spec (lflag y ICANON) lim [] (ring_list (t_buffer y) @ cs)) (line_read t y' lim)"
proof -
  have room: "ring_readable (t_buffer y) + length cs \<le> ring_room (t_buffer y)"
    using assms(3) by (simp add: ring_room_def)
  obtain y' where y': "tty_type y cs = Some y'" "line_idle (t_buffer y')" "t_tc y' = t_tc y"
      "ring_list (t_buffer y') = ring_list (t_buffer y) @ cs"
    using tty_type_plain [OF assms(1,2)] room by blast
  moreover have "lflag y' ICANON = lflag y ICANON" using y' by (simp add: lflag_def)
  ultimately show ?thesis using line_read_spec [OF y'(2), of t lim] by simp
qed

definition demo_tty :: tty where
  "demo_tty = \<lparr> t_buffer = snd (ring_init 16 (Some (replicate 16 CHR ''.''))), t_tc = TERMIOS_DEFAULT,
     t_fg_pgid = 1, t_console = None, t_out = [], t_sig = [] \<rparr>"

theorem tty_line_correct_witness:
  "\<exists>y y'. tty_type demo_tty [CHR ''a'', CHR ''b'', DEL, CHR ''c'', LF] = Some y
     \<and> line_read 7 y 10 = Some (LDone [CHR ''a'', CHR ''c'', LF], y')"
proof -
  let ?cs = "[CHR ''a'', CHR ''b'', DEL, CHR ''c'', LF]"
  have pre: "line_idle (t_buffer demo_tty)" "list_all (plain_key demo_tty) ?cs"
    "length (ring_list (t_buffer demo_tty)) + length ?cs < r_cap (t_buffer demo_tty)"
    by code_simp+
  have spec: "line_spec (lflag demo_tty ICANON) 10 [] (ring_list (t_buffer demo_tty) @ ?cs) =
      (True, 7, [LF, CHR ''c'', CHR ''a''], [])"
    by code_simp
  obtain y where "tty_type demo_tty ?cs = Some y"
      "line_outcome 7 (line_spec (lflag demo_tty ICANON) 10 [] (ring_list (t_buffer demo_tty) @ ?cs)) (line_read 7 y 10)"
    using tty_line_correct [OF pre, of 7 10] by blast
  thus ?thesis by (simp only: spec) (auto simp: line_outcome_def)
qed

text \<open>
  A read of a terminal never hands out more bytes than asked for: whether the call returns or is
  suspended, the collected bytes and the room left add up to the limit.
\<close>
lemma line_read_bound:
  assumes "line_idle (t_buffer y)"
  shows "\<exists>y'. (\<exists>bs. line_read t y lim = Some (LDone bs, y') \<and> length bs \<le> lim)
            \<or> (\<exists>rem racc. line_read t y lim = Some (LBlocked rem racc, y') \<and> length racc + rem = lim)"
proof -
  obtain complete rem racc rest where
    sp: "line_spec (lflag y ICANON) lim [] (ring_list (t_buffer y)) = (complete, rem, racc, rest)"
    by (metis prod_cases4)
  have "length racc + rem = lim" using line_spec_bound [OF sp] by simp
  moreover have "line_outcome t (complete, rem, racc, rest) (line_read t y lim)"
    using line_read_spec [OF assms, of t lim] by (simp only: sp)
  ultimately show ?thesis by (cases complete) (auto simp: line_outcome_def)
qed

text \<open>
  C40: The input path of a terminal stores without looking for room: a plain key that arrives while the buffer is
  full makes the read and write positions meet, so the whole unread input disappears.
\<close>
theorem tty_overrun_drops_input:
  assumes "ring_inv (t_buffer y)" "\<not> ring_eof (t_buffer y)" "plain_key y c"
    and "length (ring_list (t_buffer y)) = r_cap (t_buffer y) - 1"
  shows "\<exists>y'. tty_data_write y c = Some y' \<and> ring_list (t_buffer y') = []"
proof -
  have "ring_readable (ring_store (t_buffer y) c) = 0"
    using assms by (intro ring_store_overrun) (simp_all add: ring_room_def)
  thus ?thesis using assms by (simp add: tty_data_write_plain ring_eof_def)
qed

theorem tty_overrun_drops_input_witness:
  "\<exists>y y'. tty_type demo_tty ''123456789012345'' = Some y \<and> ring_list (t_buffer y) = ''123456789012345''
     \<and> tty_data_write y CHR ''6'' = Some y' \<and> ring_list (t_buffer y') = []"
proof -
  let ?cs = "''123456789012345''"
  have pre: "line_idle (t_buffer demo_tty)" "list_all (plain_key demo_tty) ?cs" "plain_key demo_tty CHR ''6''"
    "ring_readable (t_buffer demo_tty) + length ?cs \<le> ring_room (t_buffer demo_tty)"
    "ring_list (t_buffer demo_tty) = []"
    by code_simp+
  obtain y where y: "tty_type demo_tty ?cs = Some y" "line_idle (t_buffer y)" "t_tc y = t_tc demo_tty"
      "ring_list (t_buffer y) = ?cs"
    using tty_type_plain [OF pre(1,2,4)] pre(5) by auto
  have "map_option (\<lambda>y. r_cap (t_buffer y)) (tty_type demo_tty ?cs) = Some 16" by code_simp
  hence "r_cap (t_buffer y) = 16" using y(1) by simp
  hence "\<exists>y'. tty_data_write y CHR ''6'' = Some y' \<and> ring_list (t_buffer y') = []"
    using y pre(3) plain_key_tc [OF y(3)]
    by (intro tty_overrun_drops_input) (simp_all add: line_idle_def ring_eof_def)
  thus ?thesis using y by blast
qed

end
