(* ===== verification/Pipe_Window.thy ===== *)
theory Pipe_Window
  imports Pipe
begin

text \<open>
  The window of \<open>thread_wait_io\<close> (src/sys/wait.c). A thread that has to wait makes itself the owner of the notification, releases
  the lock, and only then calls \<open>sched_unqueue\<close>. Until that call has unlinked it, \<open>thread_notify_io\<close> finds the thread
  in a run queue and does not queue it. Here the writer and the reader of a pipe have, beside their program points, a
  stage that follows this: the steps of the pipe system are those of Pipe, and leaving the run queue is a step of its own.
\<close>

section \<open>Stages\<close>

text \<open>
  \<open>Running\<close>: not waiting. \<open>Leaving\<close>: owner of the notification, not yet unlinked. \<open>Missed\<close>: notified before it was unlinked.
  \<open>Off\<close>: unlinked. \<open>Lost\<close>: unlinked after it missed the notification. \<open>Queued\<close>: notified while unlinked, and queued.
\<close>

datatype stage = Running | Leaving | Missed | Off | Lost | Queued

text \<open>What \<open>thread_notify_io\<close> does with the owner: \<open>sched_queue\<close>, unless it is linked.\<close>

fun stage_notify :: "stage \<Rightarrow> stage" where
  "stage_notify Leaving = Missed"
| "stage_notify Off = Queued"
| "stage_notify x = x"

text \<open>\<open>sched_unqueue\<close> unlinks the thread.\<close>

fun stage_leave :: "stage \<Rightarrow> stage" where
  "stage_leave Leaving = Off"
| "stage_leave Missed = Lost"
| "stage_leave x = x"

record winsys =
  w_pipe :: pipesys
  w_writer :: stage
  w_reader :: stage

datatype win_event = Act pipe_event | LeaveWriter | LeaveReader

text \<open>A step notified \<open>t\<close> if it took the ownership away from \<open>t\<close>.\<close>

definition stage_after :: "tid \<Rightarrow> io_notify \<Rightarrow> io_notify \<Rightarrow> stage \<Rightarrow> stage" where
  "stage_after t n n' st = (if ion_owner n = Some t \<and> ion_owner n' = None then stage_notify st else st)"

fun by_writer :: "pipe_event \<Rightarrow> bool" where
  "by_writer (EvWrite cs) = True"
| "by_writer (EvWriteResume sig) = True"
| "by_writer _ = False"

fun by_reader :: "pipe_event \<Rightarrow> bool" where
  "by_reader (EvRead n) = True"
| "by_reader (EvReadResume sig) = True"
| "by_reader _ = False"

text \<open>
  A waiting thread comes back when it has been queued. A signal queues a thread that is unlinked (\<open>thread_signal\<close>); the call
  then returns with -EINTR.
\<close>

fun win_enabled :: "win_event \<Rightarrow> winsys \<Rightarrow> bool" where
  "win_enabled (Act ev) s = (pipe_enabled ev (w_pipe s) \<and>
     (case ev of
        EvWriteResume sig \<Rightarrow> w_writer s \<in> (if sig = 0 then {Queued} else {Off, Lost, Queued})
      | EvReadResume sig \<Rightarrow> w_reader s \<in> (if sig = 0 then {Queued} else {Off, Lost, Queued})
      | _ \<Rightarrow> True))"
| "win_enabled LeaveWriter s = (w_writer s \<in> {Leaving, Missed})"
| "win_enabled LeaveReader s = (w_reader s \<in> {Leaving, Missed})"

fun win_exec :: "win_event \<Rightarrow> winsys \<Rightarrow> winsys kern" where
  "win_exec (Act ev) s =
     (let p = w_pipe s in
      case pipe_exec ev p of
        None \<Rightarrow> None
      | Some p' \<Rightarrow> Some \<lparr> w_pipe = p',
          w_writer = (if by_writer ev then if ps_writer p' = WIdle then Running else Leaving
             else stage_after WRITER (r_writer_wait (ps_ring p)) (r_writer_wait (ps_ring p')) (w_writer s)),
          w_reader = (if by_reader ev then if ps_reader p' = RIdle then Running else Leaving
             else stage_after READER (r_wait (ps_ring p)) (r_wait (ps_ring p')) (w_reader s)) \<rparr>)"
| "win_exec LeaveWriter s = Some (s\<lparr>w_writer := stage_leave (w_writer s)\<rparr>)"
| "win_exec LeaveReader s = Some (s\<lparr>w_reader := stage_leave (w_reader s)\<rparr>)"

inductive win_reach :: "winsys \<Rightarrow> bool" where
  start: "1 < cap \<Longrightarrow> length mem = cap \<Longrightarrow> win_reach \<lparr> w_pipe = pipe_start cap mem, w_writer = Running, w_reader = Running \<rparr>"
| step: "win_reach s \<Longrightarrow> win_enabled ev s \<Longrightarrow> win_exec ev s = Some s' \<Longrightarrow> win_reach s'"

fun win_run :: "win_event list \<Rightarrow> winsys \<Rightarrow> winsys kern" where
  "win_run [] s = Some s"
| "win_run (ev # evs) s =
    (if win_enabled ev s then (case win_exec ev s of None \<Rightarrow> None | Some s' \<Rightarrow> win_run evs s') else None)"

lemma win_run_reach: "win_run evs s = Some s' \<Longrightarrow> win_reach s \<Longrightarrow> win_reach s'"
  by (induction evs arbitrary: s) (auto split: if_splits option.splits intro: win_reach.step)

text \<open>The pipe of a reachable state is a reachable state of the pipe system: its properties carry over.\<close>

lemma win_reach_pipe: "win_reach s \<Longrightarrow> pipe_reach (w_pipe s)"
proof (induction rule: win_reach.induct)
  case (step s ev s')
  thus ?case by (cases ev) (auto simp: Let_def split: option.splits intro: pipe_reach.step)
qed (simp add: pipe_reach.start)

section \<open>What a handler leaves alone\<close>

text \<open>A thread that has to wait is the owner; the handler takes the ownership of the other end away or leaves it.\<close>

lemma write_outcome_owners:
  assumes "write_outcome t r cs len n (Some x)"
  shows "fst x = WBlocked rest \<Longrightarrow> ion_owner (r_writer_wait (snd x)) = Some t"
    and "ion_owner (r_wait (snd x)) \<in> {ion_owner (r_wait r), None}"
proof -
  have "ion_owner (r_wait (ring_q.push_all r (take n cs))) \<in> {ion_owner (r_wait r), None}"
    using push_all_wait [of "take n cs" r] by (cases "take n cs = []") auto
  thus "ion_owner (r_wait (snd x)) \<in> {ion_owner (r_wait r), None}"
    using assms by (auto simp: write_outcome_def Let_def)
  show "fst x = WBlocked rest \<Longrightarrow> ion_owner (r_writer_wait (snd x)) = Some t"
    using assms by (auto simp: write_outcome_def Let_def)
qed

lemma read_outcome_owners:
  assumes "read_outcome t r rem acc n (Some x)"
  shows "fst x = RBlocked m got \<Longrightarrow> ion_owner (r_wait (snd x)) = Some t"
    and "ion_owner (r_writer_wait (snd x)) \<in> {ion_owner (r_writer_wait r), None}"
proof -
  have "ion_owner (r_writer_wait (snd (ring_q.pop_many n r))) \<in> {ion_owner (r_writer_wait r), None}"
    using pop_many_writer_wait [of n r] by (cases n) auto
  thus "ion_owner (r_writer_wait (snd x)) \<in> {ion_owner (r_writer_wait r), None}"
    using assms by (auto simp: read_outcome_def Let_def)
  show "fst x = RBlocked m got \<Longrightarrow> ion_owner (r_wait (snd x)) = Some t"
    using assms by (auto simp: read_outcome_def Let_def)
qed

definition writer_done :: "ring \<Rightarrow> write_res \<times> ring \<Rightarrow> bool" where
  "writer_done r x \<longleftrightarrow> (\<forall>rest. fst x = WBlocked rest \<longrightarrow> ion_owner (r_writer_wait (snd x)) = Some WRITER)
     \<and> ion_owner (r_wait (snd x)) \<in> {ion_owner (r_wait r), None}"

lemma writer_done_finish:
  assumes "writer_done r x"
  shows "writer_done r (pipe_write_finish x)"
proof -
  obtain res r' where x: "x = (res, r')" by (cases x)
  show ?thesis using assms by (cases res) (simp_all add: x writer_done_def pipe_write_finish_def)
qed

lemma writer_event:
  assumes inv: "pipe_inv s" and en: "pipe_enabled ev s" and who: "by_writer ev" and run: "pipe_exec ev s = Some s'"
  shows "ps_reader s' = ps_reader s \<and> ps_recv s' = ps_recv s
    \<and> ion_owner (r_wait (ps_ring s')) \<in> {ion_owner (r_wait (ps_ring s)), None}
    \<and> (ps_writer s' \<noteq> WIdle \<longrightarrow> ion_owner (r_writer_wait (ps_ring s')) = Some WRITER)"
proof -
  let ?r = "ps_ring s"
  have rinv: "ring_inv ?r" using inv by (simp add: pipe_inv_def)
  have "\<exists>cs len x. s' = ps_write_done s cs len (pipe_write_finish x) \<and> writer_done ?r x"
  proof (cases ev)
    case (EvWrite cs)
    have own: "ion_owner (r_writer_wait ?r) = None" using inv en EvWrite by (simp add: pipe_inv_def writer_ok_def)
    obtain n x where x: "write_outcome WRITER ?r cs (length cs) n (Some x)" "ring_write WRITER ?r cs (length cs) True = Some x"
      using ring_write_outcome [OF rinv own, of WRITER cs "length cs"] by (auto simp: write_outcome_def Let_def)
    have "writer_done ?r x" using write_outcome_owners [OF x(1)] by (simp add: writer_done_def)
    moreover have "s' = ps_write_done s cs (length cs) (pipe_write_finish x)" using run EvWrite x(2) by (simp add: pipe_vnode_write_def)
    ultimately show ?thesis by blast
  next
    case (EvWriteResume sig)
    obtain rest len where w: "ps_writer s = WAsleep rest len" using en EvWriteResume by (cases "ps_writer s") auto
    have ne: "rest \<noteq> []" and sig: "sig = 0 \<or> sig = - EINTR"
      using inv w en EvWriteResume by (auto simp: pipe_inv_def writer_ok_def signal_ok_def)
    obtain x where x: "ring_write_resume WRITER sig ?r rest len = Some x" "s' = ps_write_done s rest len (pipe_write_finish x)"
      using run EvWriteResume w by (auto simp: pipe_vnode_write_resume_def)
    have "writer_done ?r x"
      using ring_write_resume_outcome [OF rinv sig ne, of WRITER len] unfolding x(1)
    proof (elim disjE exE conjE)
      fix n assume "write_outcome WRITER (?r\<lparr>r_writer_wait := \<lparr>ion_owner = None, ion_value = 0\<rparr>\<rparr>) rest len n (Some x)"
      thus ?thesis using write_outcome_owners [of WRITER _ rest len n x] by (auto simp: writer_done_def)
    qed (auto simp: writer_done_def)
    thus ?thesis using x(2) by blast
  qed (use who in auto)
  then obtain cs len x where s': "s' = ps_write_done s cs len x" and x: "writer_done ?r x"
    using writer_done_finish by blast
  obtain res r' where xx: "x = (res, r')" by (cases x)
  thus ?thesis using x by (cases res) (simp_all add: s' xx ps_write_done_def writer_done_def)
qed

definition reader_done :: "ring \<Rightarrow> read_res \<times> ring \<Rightarrow> bool" where
  "reader_done r x \<longleftrightarrow> (\<forall>m got. fst x = RBlocked m got \<longrightarrow> ion_owner (r_wait (snd x)) = Some READER)
     \<and> ion_owner (r_writer_wait (snd x)) \<in> {ion_owner (r_writer_wait r), None}"

lemma reader_event:
  assumes inv: "pipe_inv s" and en: "pipe_enabled ev s" and who: "by_reader ev" and run: "pipe_exec ev s = Some s'"
  shows "ps_writer s' = ps_writer s \<and> ps_sent s' = ps_sent s
    \<and> ion_owner (r_writer_wait (ps_ring s')) \<in> {ion_owner (r_writer_wait (ps_ring s)), None}
    \<and> (ps_reader s' \<noteq> RIdle \<longrightarrow> ion_owner (r_wait (ps_ring s')) = Some READER)"
proof -
  let ?r = "ps_ring s"
  have rinv: "ring_inv ?r" using inv by (simp add: pipe_inv_def)
  have "\<exists>acc x. s' = ps_read_done s acc x \<and> reader_done ?r x"
  proof (cases ev)
    case (EvRead k)
    have own: "ion_owner (r_wait ?r) = None" using inv en EvRead by (simp add: pipe_inv_def reader_ok_def)
    obtain n x where x: "read_outcome READER ?r k [] n (Some x)" "unix_ring_recv READER ?r k [] = Some x"
      using ring_recv_outcome [OF rinv own, of READER k "[]"] by (auto simp: read_outcome_def Let_def)
    have "reader_done ?r x" using read_outcome_owners [OF x(1)] by (simp add: reader_done_def)
    moreover have "s' = ps_read_done s [] x" using run EvRead x(2) by (simp add: pipe_vnode_read_def)
    ultimately show ?thesis by blast
  next
    case (EvReadResume sig)
    obtain rem acc where w: "ps_reader s = RAsleep rem acc" using en EvReadResume by (cases "ps_reader s") auto
    have rem: "0 < rem" and sig: "sig = 0 \<or> sig = - EINTR"
      using inv w en EvReadResume by (auto simp: pipe_inv_def reader_ok_def signal_ok_def)
    obtain x where x: "pipe_vnode_read_resume READER sig ?r rem acc = Some x" "s' = ps_read_done s acc x"
      using run EvReadResume w by auto
    have "reader_done ?r x"
      using pipe_read_resume_outcome [OF rinv sig rem, of READER acc] unfolding x(1)
    proof (elim disjE exE conjE)
      fix n assume "read_outcome READER (?r\<lparr>r_wait := \<lparr>ion_owner = None, ion_value = 0\<rparr>\<rparr>) rem acc n (Some x)"
      thus ?thesis using read_outcome_owners [of READER _ rem acc n x] by (auto simp: reader_done_def)
    qed (auto simp: reader_done_def)
    thus ?thesis using x(2) by blast
  qed (use who in auto)
  then obtain acc x where s': "s' = ps_read_done s acc x" and x: "reader_done ?r x" by blast
  obtain res r' where xx: "x = (res, r')" by (cases x)
  thus ?thesis using x by (cases res) (simp_all add: s' xx ps_read_done_def reader_done_def)
qed

section \<open>The invariant\<close>

text \<open>How stage, program point and ownership of one end fit together.\<close>

definition stage_ok :: "tid \<Rightarrow> bool \<Rightarrow> io_notify \<Rightarrow> stage \<Rightarrow> bool" where
  "stage_ok t idle n st \<longleftrightarrow> (st = Running \<longleftrightarrow> idle)
     \<and> (st \<in> {Leaving, Off} \<longrightarrow> ion_owner n = Some t) \<and> (st \<in> {Missed, Lost, Queued} \<longrightarrow> ion_owner n = None)"

definition win_inv :: "winsys \<Rightarrow> bool" where
  "win_inv s \<longleftrightarrow> stage_ok WRITER (ps_writer (w_pipe s) = WIdle) (r_writer_wait (ps_ring (w_pipe s))) (w_writer s)
     \<and> stage_ok READER (ps_reader (w_pipe s) = RIdle) (r_wait (ps_ring (w_pipe s))) (w_reader s)"

lemma stage_ok_leave: "stage_ok t idle n st \<Longrightarrow> stage_ok t idle n (stage_leave st)"
  by (cases st) (simp_all add: stage_ok_def)

lemma stage_ok_after:
  "stage_ok t idle n st \<Longrightarrow> ion_owner n' \<in> {ion_owner n, None} \<Longrightarrow> stage_ok t idle n' (stage_after t n n' st)"
  by (cases st) (auto simp: stage_ok_def stage_after_def)

lemma win_step_inv:
  assumes "win_reach s" "win_inv s" "win_enabled ev s" "win_exec ev s = Some s'"
  shows "win_inv s'"
proof (cases ev)
  case (Act e)
  let ?p = "w_pipe s"
  have inv: "pipe_inv ?p" using pipe_reach_inv [OF win_reach_pipe [OF assms(1)]] .
  have en: "pipe_enabled e ?p" using assms(3) Act by simp
  obtain p' where p': "pipe_exec e ?p = Some p'" using assms(4) Act by (auto simp: Let_def split: option.splits)
  have s': "s' = \<lparr> w_pipe = p',
          w_writer = (if by_writer e then if ps_writer p' = WIdle then Running else Leaving
             else stage_after WRITER (r_writer_wait (ps_ring ?p)) (r_writer_wait (ps_ring p')) (w_writer s)),
          w_reader = (if by_reader e then if ps_reader p' = RIdle then Running else Leaving
             else stage_after READER (r_wait (ps_ring ?p)) (r_wait (ps_ring p')) (w_reader s)) \<rparr>"
    using assms(4) Act p' by (simp add: Let_def)
  note ok = assms(2) [unfolded win_inv_def]
  consider (w) "by_writer e" "\<not> by_reader e" | (r) "by_reader e" "\<not> by_writer e" | (c) "e = EvClose" by (cases e) auto
  thus ?thesis
  proof cases
    case w
    note ev = writer_event [OF inv en w(1) p']
    have "stage_ok READER (ps_reader p' = RIdle) (r_wait (ps_ring p')) (w_reader s')"
      using stage_ok_after [OF conjunct2 [OF ok], of "r_wait (ps_ring p')"] ev w(2) by (simp add: s')
    moreover have "stage_ok WRITER (ps_writer p' = WIdle) (r_writer_wait (ps_ring p')) (w_writer s')"
      using ev w(1) by (simp add: s' stage_ok_def)
    ultimately show ?thesis by (simp add: win_inv_def s')
  next
    case r
    note ev = reader_event [OF inv en r(1) p']
    have "stage_ok WRITER (ps_writer p' = WIdle) (r_writer_wait (ps_ring p')) (w_writer s')"
      using stage_ok_after [OF conjunct1 [OF ok], of "r_writer_wait (ps_ring p')"] ev r(2) by (simp add: s')
    moreover have "stage_ok READER (ps_reader p' = RIdle) (r_wait (ps_ring p')) (w_reader s')"
      using ev r(1) by (simp add: s' stage_ok_def)
    ultimately show ?thesis by (simp add: win_inv_def s')
  next
    case c
    hence p: "p' = ?p\<lparr>ps_ring := pipe_vnode_close (ps_ring ?p)\<rparr>" using p' by simp
    have "stage_ok WRITER (ps_writer p' = WIdle) (r_writer_wait (ps_ring p')) (w_writer s')"
      using stage_ok_after [OF conjunct1 [OF ok], of "r_writer_wait (ps_ring p')"] c by (simp add: s' p pipe_vnode_close_def)
    moreover have "stage_ok READER (ps_reader p' = RIdle) (r_wait (ps_ring p')) (w_reader s')"
      using stage_ok_after [OF conjunct2 [OF ok], of "r_wait (ps_ring p')"] c by (simp add: s' p pipe_vnode_close_def)
    ultimately show ?thesis by (simp add: win_inv_def s')
  qed
next
  case LeaveWriter
  thus ?thesis using assms(2,4) stage_ok_leave [of WRITER _ _ "w_writer s"] by (auto simp: win_inv_def)
next
  case LeaveReader
  thus ?thesis using assms(2,4) stage_ok_leave [of READER _ _ "w_reader s"] by (auto simp: win_inv_def)
qed

lemma win_reach_inv: "win_reach s \<Longrightarrow> win_inv s"
proof (induction rule: win_reach.induct)
  case (step s ev s')
  thus ?case by (blast intro: win_step_inv)
qed (simp add: win_inv_def stage_ok_def pipe_start_def)

section \<open>Properties\<close>

lemma lost_step:
  assumes "win_reach s" "w_reader s = Lost" "win_enabled ev s" "ev \<noteq> Act (EvReadResume (- EINTR))" "win_exec ev s = Some s'"
  shows "w_reader s' = Lost \<and> ps_reader (w_pipe s') = ps_reader (w_pipe s) \<and> ps_recv (w_pipe s') = ps_recv (w_pipe s)"
proof (cases ev)
  case (Act e)
  let ?p = "w_pipe s"
  have inv: "pipe_inv ?p" using pipe_reach_inv [OF win_reach_pipe [OF assms(1)]] .
  have en: "pipe_enabled e ?p" using assms(3) Act by simp
  obtain p' where p': "pipe_exec e ?p = Some p'" using assms(5) Act by (auto simp: Let_def split: option.splits)
  have asleep: "ps_reader ?p \<noteq> RIdle" "ion_owner (r_wait (ps_ring ?p)) = None"
    using win_reach_inv [OF assms(1)] assms(2) by (auto simp: win_inv_def stage_ok_def)
  have nr: "\<not> by_reader e"
    using asleep(1) en assms(2-4) Act by (cases e) (auto simp: signal_ok_def split: if_splits)
  have "ps_reader p' = ps_reader ?p \<and> ps_recv p' = ps_recv ?p"
    using writer_event [OF inv en _ p'] nr p' by (cases e) auto
  thus ?thesis using assms(2,5) Act p' nr asleep(2) by (auto simp: Let_def stage_after_def)
qed (use assms in auto)

text \<open>
  C26: A waiting end of a pipe sleeps for a reason unless it missed its notification. In every reachable state of a writer and a
  reader, with the window between the release of the lock and the removal from the run queue as steps of their own,
  a reader off the CPU that has not been notified faces an empty, open pipe, and such a writer a full, open one. So the two
  ends never sleep unnotified together, and an end that was notified while it was off the CPU can run.
\<close>
theorem pipe_sleepers_have_reason:
  assumes "win_reach s"
  shows "(w_reader s = Off \<longrightarrow> ring_list (ps_ring (w_pipe s)) = [] \<and> \<not> ring_eof (ps_ring (w_pipe s)))
       \<and> (w_writer s = Off \<longrightarrow>
            length (ring_list (ps_ring (w_pipe s))) = r_cap (ps_ring (w_pipe s)) - 1 \<and> \<not> ring_eof (ps_ring (w_pipe s)))
       \<and> \<not> (w_reader s = Off \<and> w_writer s = Off)
       \<and> (w_reader s = Queued \<longrightarrow> win_enabled (Act (EvReadResume 0)) s)
       \<and> (w_writer s = Queued \<longrightarrow> win_enabled (Act (EvWriteResume 0)) s)"
proof -
  have inv: "pipe_inv (w_pipe s)" using pipe_reach_inv [OF win_reach_pipe [OF assms]] .
  have room: "ring_room (ps_ring (w_pipe s)) = r_cap (ps_ring (w_pipe s)) - 1" "0 < ring_room (ps_ring (w_pipe s))"
    using inv by (simp_all add: pipe_inv_def ring_room_def)
  have r: "ring_list (ps_ring (w_pipe s)) = [] \<and> \<not> ring_eof (ps_ring (w_pipe s))" if "w_reader s = Off"
    using win_reach_inv [OF assms] inv that
    by (auto simp: win_inv_def stage_ok_def pipe_inv_def reader_ok_def split: reader_pc.splits)
  have w: "length (ring_list (ps_ring (w_pipe s))) = r_cap (ps_ring (w_pipe s)) - 1 \<and> \<not> ring_eof (ps_ring (w_pipe s))" if "w_writer s = Off"
    using win_reach_inv [OF assms] inv that room(1)
    by (auto simp: win_inv_def stage_ok_def pipe_inv_def writer_ok_def split: writer_pc.splits)
  have "win_enabled (Act (EvReadResume 0)) s" if "w_reader s = Queued"
    using win_reach_inv [OF assms] that by (simp add: win_inv_def stage_ok_def signal_ok_def)
  moreover have "win_enabled (Act (EvWriteResume 0)) s" if "w_writer s = Queued"
    using win_reach_inv [OF assms] that by (simp add: win_inv_def stage_ok_def signal_ok_def)
  ultimately show ?thesis using r w room by auto
qed

lemma win_demo:
  "\<exists>s. win_reach s \<and> w_reader s = Off \<and> w_writer s = Running"
proof -
  let ?s0 = "\<lparr> w_pipe = pipe_start 4 ''....'', w_writer = Running, w_reader = Running \<rparr>"
  let ?run = "win_run [Act (EvRead 2), LeaveReader] ?s0"
  have out: "map_option (\<lambda>s. (w_reader s, w_writer s)) ?run = Some (Off, Running)" by code_simp
  then obtain s where s: "?run = Some s" by (cases ?run) auto
  hence "win_reach s" by (rule win_run_reach) (simp add: win_reach.start)
  thus ?thesis using out s by auto
qed

theorem pipe_sleepers_have_reason_witness:
  "\<exists>s. win_reach s \<and> w_reader s = Off \<and> ring_list (ps_ring (w_pipe s)) = []"
  using win_demo pipe_sleepers_have_reason by metis

text \<open>
  C35: A wake-up can be lost. A reader that was notified between the release of the lock and its removal from the run queue
  stays off the CPU with the notification pending: whatever the writer does, and whether or not the pipe is closed, the reader neither
  runs nor receives anything, until a signal interrupts it.
\<close>
theorem pipe_lost_wakeup:
  assumes "win_reach s" "w_reader s = Lost" "win_run evs s = Some s'" "Act (EvReadResume (- EINTR)) \<notin> set evs"
  shows "w_reader s' = Lost \<and> ps_reader (w_pipe s') = ps_reader (w_pipe s) \<and> ps_recv (w_pipe s') = ps_recv (w_pipe s)"
  using assms
proof (induction evs arbitrary: s)
  case (Cons ev evs)
  obtain s1 where s1: "win_enabled ev s" "win_exec ev s = Some s1" "win_run evs s1 = Some s'"
    using Cons.prems(3) by (auto split: if_splits option.splits)
  have ne: "ev \<noteq> Act (EvReadResume (- EINTR))" "Act (EvReadResume (- EINTR)) \<notin> set evs" using Cons.prems(4) by auto
  note l = lost_step [OF Cons.prems(1,2) s1(1) ne(1) s1(2)]
  have "win_reach s1" using win_reach.step [OF Cons.prems(1) s1(1,2)] .
  thus ?case using Cons.IH [OF _ _ s1(3) ne(2)] l by simp
qed simp

text \<open>The reader asks for two bytes of an empty pipe, the writer writes one while the reader is on its way out, then two more.\<close>

theorem pipe_lost_wakeup_witness:
  "\<exists>s s'. win_reach s \<and> win_run [Act (EvWrite ''bc''), Act EvClose] s = Some s' \<and> ring_list (ps_ring (w_pipe s')) = ''abc''
     \<and> w_reader s' = Lost \<and> ps_recv (w_pipe s') = []"
proof -
  let ?s0 = "\<lparr> w_pipe = pipe_start 8 ''........'', w_writer = Running, w_reader = Running \<rparr>"
  let ?pre = "win_run [Act (EvRead 2), Act (EvWrite ''a''), LeaveReader] ?s0"
  have out: "map_option (\<lambda>s. (w_reader s, ps_recv (w_pipe s),
      map_option (\<lambda>s'. ring_list (ps_ring (w_pipe s'))) (win_run [Act (EvWrite ''bc''), Act EvClose] s))) ?pre
    = Some (Lost, [], Some ''abc'')" by code_simp
  then obtain s s' where s: "?pre = Some s" "w_reader s = Lost" "ps_recv (w_pipe s) = []"
    "win_run [Act (EvWrite ''bc''), Act EvClose] s = Some s'" "ring_list (ps_ring (w_pipe s')) = ''abc''" by (cases ?pre) auto
  have r: "win_reach s" by (rule win_run_reach [OF s(1)]) (simp add: win_reach.start)
  have "Act (EvReadResume (- EINTR)) \<notin> set [Act (EvWrite ''bc''), Act EvClose]" by simp
  hence "w_reader s' = Lost" "ps_recv (w_pipe s') = []" using pipe_lost_wakeup [OF r s(2,4)] s(3) by simp_all
  thus ?thesis using r s(4,5) by blast
qed

end
