(* ===== verification/Vfs.thy ===== *)
theory Vfs
  imports Ygg_Prelude
begin

text \<open>
  The vnode layer: vnodes and their tree (src/fs/node.c, src/include/fs/node.h), access checks
  (src/fs/vfs_access.c), open files (src/fs/ofile.c) and character devices (src/sys/char/chr.c).

  A vnode pointer is a number, the key of the vnode in the store \<open>vf_node\<close>; zero is never a key, so
  that it can stand for NULL where the code keeps a pointer in an integer. Keys of destroyed
  vnodes are not given out again: touching a destroyed vnode is a fault (\<^term>\<open>None\<close>). The chain
  \<open>first_child\<close>, \<open>next_child\<close>, ... of a directory is the list \<open>vn_children\<close>, first child first. Names and
  paths are character lists without the terminating NUL. The tables of function pointers a
  filesystem provides are records of optional functions; the private data of a vnode (\<open>fs_data\<close>) and
  whatever else drivers touch (\<open>vf_world\<close>) are type parameters.
\<close>

section \<open>Constants\<close>

abbreviation VN_MEMORY :: "32 word" where "VN_MEMORY \<equiv> BIT 0"
abbreviation VN_PER_PROCESS :: "32 word" where "VN_PER_PROCESS \<equiv> BIT 1"
abbreviation (input) NODE_MAXLEN :: nat where "NODE_MAXLEN \<equiv> 64"
abbreviation (input) PATH_MAX :: nat where "PATH_MAX \<equiv> 256"
abbreviation (input) LINK_MAX :: int where "LINK_MAX \<equiv> 16"
definition VFS_MODE_MASK :: "32 word" where "VFS_MODE_MASK = 0xFFF"

abbreviation OF_WRITABLE :: "32 word" where "OF_WRITABLE \<equiv> BIT 0"
abbreviation OF_READABLE :: "32 word" where "OF_READABLE \<equiv> BIT 1"
abbreviation OF_DIRECTORY :: "32 word" where "OF_DIRECTORY \<equiv> BIT 2"
abbreviation OF_MEMDIR :: "32 word" where "OF_MEMDIR \<equiv> BIT 3"
abbreviation OF_MEMDIR_DOT :: "32 word" where "OF_MEMDIR_DOT \<equiv> BIT 4"
abbreviation OF_MEMDIR_DOTDOT :: "32 word" where "OF_MEMDIR_DOTDOT \<equiv> BIT 5"
abbreviation OF_SOCKET :: "32 word" where "OF_SOCKET \<equiv> BIT 6"
abbreviation OF_CLOEXEC :: "32 word" where "OF_CLOEXEC \<equiv> BIT 7"

abbreviation R_OK :: "32 word" where "R_OK \<equiv> BIT 2"
abbreviation W_OK :: "32 word" where "W_OK \<equiv> BIT 1"
abbreviation X_OK :: "32 word" where "X_OK \<equiv> BIT 0"
abbreviation (input) F_OK :: "32 word" where "F_OK \<equiv> 0"

abbreviation S_IRUSR :: "32 word" where "S_IRUSR \<equiv> BIT 8"
abbreviation S_IWUSR :: "32 word" where "S_IWUSR \<equiv> BIT 7"
abbreviation S_IXUSR :: "32 word" where "S_IXUSR \<equiv> BIT 6"
abbreviation S_IRGRP :: "32 word" where "S_IRGRP \<equiv> BIT 5"
abbreviation S_IWGRP :: "32 word" where "S_IWGRP \<equiv> BIT 4"
abbreviation S_IXGRP :: "32 word" where "S_IXGRP \<equiv> BIT 3"
abbreviation S_IROTH :: "32 word" where "S_IROTH \<equiv> BIT 2"
abbreviation S_IWOTH :: "32 word" where "S_IWOTH \<equiv> BIT 1"
abbreviation S_IXOTH :: "32 word" where "S_IXOTH \<equiv> BIT 0"

abbreviation (input) S_IFMT :: "32 word" where "S_IFMT \<equiv> 0xF000"
abbreviation (input) S_IFSOCK :: "32 word" where "S_IFSOCK \<equiv> 0xC000"
abbreviation (input) S_IFLNK :: "32 word" where "S_IFLNK \<equiv> 0xA000"
abbreviation (input) S_IFREG :: "32 word" where "S_IFREG \<equiv> 0x8000"
abbreviation (input) S_IFBLK :: "32 word" where "S_IFBLK \<equiv> 0x6000"
abbreviation (input) S_IFDIR :: "32 word" where "S_IFDIR \<equiv> 0x4000"
abbreviation (input) S_IFCHR :: "32 word" where "S_IFCHR \<equiv> 0x2000"
abbreviation (input) S_IFIFO :: "32 word" where "S_IFIFO \<equiv> 0x1000"

section \<open>Data\<close>

datatype vnode_type = VN_REG | VN_DIR | VN_BLK | VN_CHR | VN_LNK | VN_FIFO | VN_SOCK | VN_UNK | VN_MNT

record 'd vnode =
  vn_type :: vnode_type
  vn_name :: string
  vn_flags :: "32 word"
  vn_children :: "nat list"
  vn_parent :: "nat option"
  vn_target :: "nat option"
  vn_open_count :: "32 word"
  vn_ino :: nat
  vn_gid :: "32 word"
  vn_uid :: "32 word"
  vn_mode :: "32 word"
  vn_fs :: "nat option"
  vn_data :: "'d option"
  vn_dev :: "nat option"
  vn_op :: "nat option"

record vfs_ioctx =
  cwd_vnode :: "nat option"
  io_umask :: "32 word"
  io_uid :: "32 word"
  io_gid :: "32 word"

record ofile =
  of_flags :: "32 word"
  of_refcount :: int
  of_vnode :: "nat option"
  of_pos :: nat

record fs_inst =
  fs_blk :: "nat option"
  fs_flags :: "32 word"
  fs_cls :: "nat option"

record ('d, 'w) vfs =
  vf_node :: "nat \<Rightarrow> 'd vnode option"
  vf_next :: nat
  vf_root :: "nat option"
  vf_fs :: "nat \<Rightarrow> fs_inst option"
  vf_fs_next :: nat
  vf_classes :: "nat list"
  vf_mounts :: "nat list"
  vf_busy :: "nat \<Rightarrow> bool"
  vf_world :: 'w

record dirent =
  d_ino :: nat
  d_off :: nat
  d_reclen :: nat
  d_type :: nat
  d_name :: string

record stat_buf =
  st_mode :: "32 word"
  st_uid :: "32 word"
  st_gid :: "32 word"
  st_size :: nat
  st_blksize :: nat
  st_blocks :: nat

record ('d, 'w) vnode_operations =
  vo_find :: "(nat \<Rightarrow> string \<Rightarrow> ('d, 'w) vfs \<Rightarrow> ((int + nat) \<times> ('d, 'w) vfs) kern) option"
  vo_readdir :: "(ofile \<Rightarrow> ('d, 'w) vfs \<Rightarrow> (int \<times> dirent option \<times> ofile \<times> ('d, 'w) vfs) kern) option"
  vo_opendir :: "(ofile \<Rightarrow> ('d, 'w) vfs \<Rightarrow> (int \<times> ofile \<times> ('d, 'w) vfs) kern) option"
  vo_open :: "(ofile \<Rightarrow> 32 word \<Rightarrow> ('d, 'w) vfs \<Rightarrow> (int \<times> ofile \<times> ('d, 'w) vfs) kern) option"
  vo_close :: "(ofile \<Rightarrow> ('d, 'w) vfs \<Rightarrow> ('d, 'w) vfs kern) option"
  vo_mknod :: "(nat \<Rightarrow> nat \<Rightarrow> ('d, 'w) vfs \<Rightarrow> (int \<times> ('d, 'w) vfs) kern) option"
  vo_creat :: "(nat \<Rightarrow> string \<Rightarrow> 32 word \<Rightarrow> 32 word \<Rightarrow> 32 word \<Rightarrow> ('d, 'w) vfs \<Rightarrow> (int \<times> ('d, 'w) vfs) kern) option"
  vo_mkdir :: "(nat \<Rightarrow> string \<Rightarrow> 32 word \<Rightarrow> 32 word \<Rightarrow> 32 word \<Rightarrow> ('d, 'w) vfs \<Rightarrow> (int \<times> ('d, 'w) vfs) kern) option"
  vo_truncate :: "(nat \<Rightarrow> nat \<Rightarrow> ('d, 'w) vfs \<Rightarrow> (int \<times> ('d, 'w) vfs) kern) option"
  vo_unlink :: "(nat \<Rightarrow> ('d, 'w) vfs \<Rightarrow> (int \<times> ('d, 'w) vfs) kern) option"
  vo_lseek :: "(ofile \<Rightarrow> int \<Rightarrow> int \<Rightarrow> ('d, 'w) vfs \<Rightarrow> (int \<times> ofile \<times> ('d, 'w) vfs) kern) option"
  vo_stat :: "(nat \<Rightarrow> ('d, 'w) vfs \<Rightarrow> (int \<times> stat_buf) kern) option"
  vo_chmod :: "(nat \<Rightarrow> 32 word \<Rightarrow> ('d, 'w) vfs \<Rightarrow> (int \<times> ('d, 'w) vfs) kern) option"
  vo_chown :: "(nat \<Rightarrow> 32 word \<Rightarrow> 32 word \<Rightarrow> ('d, 'w) vfs \<Rightarrow> (int \<times> ('d, 'w) vfs) kern) option"
  vo_readlink :: "(nat \<Rightarrow> nat \<Rightarrow> ('d, 'w) vfs \<Rightarrow> (int \<times> string) kern) option"
  vo_read :: "(ofile \<Rightarrow> nat \<Rightarrow> ('d, 'w) vfs \<Rightarrow> (int \<times> byte list \<times> ofile \<times> ('d, 'w) vfs) kern) option"
  vo_write :: "(ofile \<Rightarrow> byte list \<Rightarrow> ('d, 'w) vfs \<Rightarrow> (int \<times> ofile \<times> ('d, 'w) vfs) kern) option"

record ('d, 'w) chrdev =
  ch_tty :: bool
  ch_write :: "(byte list \<Rightarrow> nat \<Rightarrow> ('d, 'w) vfs \<Rightarrow> (int \<times> ('d, 'w) vfs) kern) option"
  ch_read :: "(nat \<Rightarrow> nat \<Rightarrow> ('d, 'w) vfs \<Rightarrow> (int \<times> byte list \<times> ('d, 'w) vfs) kern) option"
  ch_ioctl :: "(nat \<Rightarrow> nat \<Rightarrow> ('d, 'w) vfs \<Rightarrow> (int \<times> ('d, 'w) vfs) kern) option"

record ('d, 'w) fs_class =
  fc_name :: string
  fc_get_root :: "(nat \<Rightarrow> ('d, 'w) vfs \<Rightarrow> nat option) option"
  fc_init :: "(nat \<Rightarrow> string option \<Rightarrow> ('d, 'w) vfs \<Rightarrow> (int \<times> ('d, 'w) vfs) kern) option"
  fc_destroy :: "(nat \<Rightarrow> ('d, 'w) vfs \<Rightarrow> ('d, 'w) vfs kern) option"

text \<open>
  What the VFS core calls outside itself, most of it through pointers: the operation tables of the
  vnodes, the link getters of per-process links, the devices behind device nodes, the filesystem
  classes, \<open>pipe_fifo_create\<close> and \<open>net_close\<close>.
\<close>

record ('d, 'w) vfs_env =
  env_ops :: "nat \<Rightarrow> ('d, 'w) vnode_operations"
  env_link :: "nat \<Rightarrow> nat \<Rightarrow> ('d, 'w) vfs \<Rightarrow> nat option \<times> string"
  env_chr :: "nat \<Rightarrow> ('d, 'w) chrdev"
  env_blk_read :: "nat \<Rightarrow> nat \<Rightarrow> nat \<Rightarrow> ('d, 'w) vfs \<Rightarrow> (int \<times> byte list \<times> ('d, 'w) vfs) kern"
  env_blk_ioctl :: "nat option \<Rightarrow> nat \<Rightarrow> nat \<Rightarrow> ('d, 'w) vfs \<Rightarrow> (int \<times> ('d, 'w) vfs) kern"
  env_cls :: "nat \<Rightarrow> ('d, 'w) fs_class"
  env_fifo_create :: "nat \<Rightarrow> ('d, 'w) vfs \<Rightarrow> (int \<times> ('d, 'w) vfs) kern"
  env_net_close :: "ofile \<Rightarrow> ('d, 'w) vfs \<Rightarrow> ('d, 'w) vfs kern"

definition vn_oper :: "('d, 'w) vfs_env \<Rightarrow> 'd vnode \<Rightarrow> (('d, 'w) vnode_operations \<Rightarrow> 'f option) \<Rightarrow> 'f option" where
  "vn_oper env n sel = (case vn_op n of None \<Rightarrow> None | Some k \<Rightarrow> sel (env_ops env k))"

definition upd_node :: "nat \<Rightarrow> ('d vnode \<Rightarrow> 'd vnode) \<Rightarrow> ('d, 'w) vfs \<Rightarrow> ('d, 'w) vfs" where
  "upd_node v f st = st\<lparr>vf_node := (vf_node st)(v := map_option f (vf_node st v))\<rparr>"

section \<open>Vnodes\<close>

definition vnode_create :: "vnode_type \<Rightarrow> string option \<Rightarrow> ('d, 'w) vfs \<Rightarrow> (nat \<times> ('d, 'w) vfs) kern" where
  "vnode_create t name st = do {
     kassert (case name of None \<Rightarrow> True | Some s \<Rightarrow> length s < NODE_MAXLEN);
     let v = vf_next st;
     let n = \<lparr>vn_type = t, vn_name = (case name of None \<Rightarrow> [] | Some s \<Rightarrow> s), vn_flags = 0,
              vn_children = [], vn_parent = None, vn_target = None, vn_open_count = 0, vn_ino = 0,
              vn_gid = 0, vn_uid = 0, vn_mode = 0, vn_fs = None, vn_data = None, vn_dev = None,
              vn_op = None\<rparr>;
     Some (v, st\<lparr>vf_node := (vf_node st)(v \<mapsto> n), vf_next := Suc v\<rparr>)
   }"

definition vnode_destroy :: "nat \<Rightarrow> ('d, 'w) vfs \<Rightarrow> ('d, 'w) vfs kern" where
  "vnode_destroy v st = do {
     n \<leftarrow> vf_node st v;
     kassert (vn_open_count n = 0);
     Some (st\<lparr>vf_node := (vf_node st)(v := None)\<rparr>)
   }"

definition vnode_attach :: "nat \<Rightarrow> nat \<Rightarrow> ('d, 'w) vfs \<Rightarrow> ('d, 'w) vfs kern" where
  "vnode_attach parent child st = do {
     p \<leftarrow> vf_node st parent;
     c \<leftarrow> vf_node st child;
     kassert (vn_parent c = None);
     let st = upd_node child (vn_parent_update (\<lambda>_. Some parent)) st;
     Some (upd_node parent (vn_children_update (\<lambda>cs. child # cs)) st)
   }"

definition vnode_detach :: "nat \<Rightarrow> ('d, 'w) vfs \<Rightarrow> ('d, 'w) vfs kern" where
  "vnode_detach v st = do {
     n \<leftarrow> vf_node st v;
     let st' = upd_node v (vn_parent_update (\<lambda>_. None)) st;
     (case vn_parent n of
        None \<Rightarrow> Some st'
      | Some parent \<Rightarrow> do {
          p \<leftarrow> vf_node st' parent;
          kassert (v \<in> set (vn_children p));
          Some (upd_node parent (vn_children_update (remove1 v)) st')
        })
   }"

fun find_child :: "('d, 'w) vfs \<Rightarrow> string \<Rightarrow> nat list \<Rightarrow> nat option kern" where
  "find_child st name [] = Some None"
| "find_child st name (c # cs) = do {
     n \<leftarrow> vf_node st c;
     (if vn_name n = name then Some (Some c) else find_child st name cs)
   }"

definition vnode_lookup_child :: "nat \<Rightarrow> string \<Rightarrow> ('d, 'w) vfs \<Rightarrow> (int + nat) kern" where
  "vnode_lookup_child v name st = do {
     n \<leftarrow> vf_node st v;
     kassert (length name < NODE_MAXLEN);
     r \<leftarrow> find_child st name (vn_children n);
     Some (case r of Some c \<Rightarrow> Inr c | None \<Rightarrow> Inl (- ENOENT))
   }"

section \<open>Access checks\<close>

definition vfs_access_check ::
  "vfs_ioctx \<Rightarrow> 32 word \<Rightarrow> 32 word \<Rightarrow> 32 word \<Rightarrow> 32 word \<Rightarrow> int" where
  "vfs_access_check ctx desm mode uid gid =
     (if io_uid ctx = 0 then
        if desm AND X_OK \<noteq> 0 \<and> mode AND (S_IXOTH OR S_IXGRP OR S_IXUSR) = 0 then - EACCES else 0
      else if uid = io_uid ctx then
        if desm AND R_OK \<noteq> 0 \<and> mode AND S_IRUSR = 0 then - EACCES
        else if desm AND W_OK \<noteq> 0 \<and> mode AND S_IWUSR = 0 then - EACCES
        else if desm AND X_OK \<noteq> 0 \<and> mode AND S_IXUSR = 0 then - EACCES
        else 0
      else if gid = io_gid ctx then
        if desm AND R_OK \<noteq> 0 \<and> mode AND S_IRGRP = 0 then - EACCES
        else if desm AND W_OK \<noteq> 0 \<and> mode AND S_IWGRP = 0 then - EACCES
        else if desm AND X_OK \<noteq> 0 \<and> mode AND S_IXGRP = 0 then - EACCES
        else 0
      else
        if desm AND R_OK \<noteq> 0 \<and> mode AND S_IROTH = 0 then - EACCES
        else if desm AND W_OK \<noteq> 0 \<and> mode AND S_IWOTH = 0 then - EACCES
        else if desm AND X_OK \<noteq> 0 \<and> mode AND S_IXOTH = 0 then - EACCES
        else 0)"

definition vfs_access_node :: "vfs_ioctx \<Rightarrow> nat \<Rightarrow> 32 word \<Rightarrow> ('d, 'w) vfs \<Rightarrow> int kern" where
  "vfs_access_node ctx v mode st = do {
     n \<leftarrow> vf_node st v;
     Some (vfs_access_check ctx mode (vn_mode n) (vn_uid n) (vn_gid n))
   }"

section \<open>Character devices\<close>

definition chr_ioctl :: "('d, 'w) chrdev option \<Rightarrow> nat \<Rightarrow> nat \<Rightarrow> ('d, 'w) vfs \<Rightarrow> (int \<times> ('d, 'w) vfs) kern" where
  "chr_ioctl chr cmd arg st =
     (case chr of None \<Rightarrow> Some (- ENODEV, st)
      | Some c \<Rightarrow> (case ch_ioctl c of None \<Rightarrow> Some (- EINVAL, st) | Some f \<Rightarrow> f cmd arg st))"

definition chr_write :: "('d, 'w) chrdev option \<Rightarrow> byte list \<Rightarrow> nat \<Rightarrow> ('d, 'w) vfs \<Rightarrow> (int \<times> ('d, 'w) vfs) kern" where
  "chr_write chr buf off st =
     (case chr of None \<Rightarrow> Some (- ENODEV, st)
      | Some c \<Rightarrow> (case ch_write c of None \<Rightarrow> Some (- EROFS, st) | Some f \<Rightarrow> f buf off st))"

definition chr_read :: "('d, 'w) chrdev option \<Rightarrow> nat \<Rightarrow> nat \<Rightarrow> ('d, 'w) vfs \<Rightarrow> (int \<times> byte list \<times> ('d, 'w) vfs) kern" where
  "chr_read chr off count st =
     (case chr of None \<Rightarrow> Some (- ENODEV, [], st)
      | Some c \<Rightarrow> (case ch_read c of None \<Rightarrow> Some (- EINVAL, [], st) | Some f \<Rightarrow> f off count st))"

section \<open>Access rights\<close>

text \<open>
  The rule of file permissions: the class of the caller (owner, group, others) selects three bits of
  the mode, which must contain the requested ones. The superuser is only refused execution, of files
  that nobody may execute.
\<close>

definition access_class :: "vfs_ioctx \<Rightarrow> 32 word \<Rightarrow> 32 word \<Rightarrow> nat" where
  "access_class ctx uid gid = (if uid = io_uid ctx then 6 else if gid = io_gid ctx then 3 else 0)"

definition access_allowed :: "vfs_ioctx \<Rightarrow> 32 word \<Rightarrow> 32 word \<Rightarrow> 32 word \<Rightarrow> 32 word \<Rightarrow> bool" where
  "access_allowed ctx desm mode uid gid =
     (if io_uid ctx = 0 then bit desm 0 \<longrightarrow> (\<exists>s \<in> {0, 3, 6}. bit mode s)
      else desm AND mask 3 AND NOT (drop_bit (access_class ctx uid gid) mode) = 0)"

lemma class_bits:
  "((desm :: 32 word) AND mask 3 AND NOT (drop_bit s mode) = 0) =
     ((bit desm 2 \<longrightarrow> bit mode (s + 2)) \<and> (bit desm 1 \<longrightarrow> bit mode (s + 1)) \<and> (bit desm 0 \<longrightarrow> bit mode s))"
proof -
  have "(desm AND mask 3 AND NOT (drop_bit s mode) = 0) =
      (\<forall>k. \<not> (k < 3 \<and> bit desm k \<and> \<not> bit mode (s + k)))"
    by (auto simp: bit_eq_iff bit_simps dest: bit_imp_le_length)
  also have "\<dots> = (\<forall>k < 3. bit desm k \<longrightarrow> bit mode (s + k))" by blast
  also have "\<dots> = ((bit desm 2 \<longrightarrow> bit mode (s + 2)) \<and> (bit desm 1 \<longrightarrow> bit mode (s + 1)) \<and> (bit desm 0 \<longrightarrow> bit mode s))"
    by (auto simp: numeral_3_eq_3 numeral_2_eq_2 less_Suc_eq)
  finally show ?thesis .
qed

lemma access_check_rule:
  "vfs_access_check ctx desm mode uid gid = (if access_allowed ctx desm mode uid gid then 0 else - EACCES)"
  by (simp add: vfs_access_check_def access_allowed_def access_class_def class_bits flag_simps numeral_2_eq_2)

lemma access_check_zero [simp]:
  "(vfs_access_check ctx desm mode uid gid = 0) = access_allowed ctx desm mode uid gid"
  by (simp add: access_check_rule)

text \<open>
  C25: The access check decides by the permission rule: it returns 0 exactly when the requested
  rights are contained in the three mode bits of the caller's class, the class being the owner's if
  the user ids agree, else the group's if the group ids agree, else the others'; the superuser passes
  unless execution is requested and no execute bit is set. Otherwise it returns \<open>-EACCES\<close>.
\<close>

theorem vfs_access_check_correct:
  "vfs_access_check ctx desm mode uid gid = (if access_allowed ctx desm mode uid gid then 0 else - EACCES)"
  by (rule access_check_rule)

end
