(* ===== verification/Vfs_Wf.thy ===== *)
theory Vfs_Wf
  imports Vfs
begin

text \<open>
  Well-formedness of the vnode store: child lists and parent pointers agree, names fit their buffer,
  keys are below the next free one. The tree operations of src/fs/node.c keep it.
\<close>

section \<open>Well-formed vnode stores\<close>

definition node_ok :: "('d, 'w) vfs \<Rightarrow> nat \<Rightarrow> 'd vnode \<Rightarrow> bool" where
  "node_ok st v n \<longleftrightarrow> 0 < v \<and> v < vf_next st \<and> length (vn_name n) < NODE_MAXLEN \<and> distinct (vn_children n)
     \<and> (\<forall>c \<in> set (vn_children n). \<exists>cn. vf_node st c = Some cn \<and> vn_parent cn = Some v)"

definition vfs_wf :: "('d, 'w) vfs \<Rightarrow> bool" where
  "vfs_wf st \<longleftrightarrow> 0 < vf_next st \<and> (\<forall>v n. vf_node st v = Some n \<longrightarrow> node_ok st v n)"

lemma wf_node: "vfs_wf st \<Longrightarrow> vf_node st v = Some n \<Longrightarrow> node_ok st v n"
  by (simp add: vfs_wf_def)

lemma wf_fresh: "vfs_wf st \<Longrightarrow> vf_node st (vf_next st) = None"
  by (cases "vf_node st (vf_next st)") (auto dest: wf_node simp: node_ok_def)

lemma wf_child:
  "vfs_wf st \<Longrightarrow> vf_node st v = Some n \<Longrightarrow> c \<in> set (vn_children n)
     \<Longrightarrow> \<exists>cn. vf_node st c = Some cn \<and> vn_parent cn = Some v"
  using wf_node [of st v n] by (simp add: node_ok_def)

lemma upd_node_simps [simp]:
  "vf_node (upd_node v f st) = (vf_node st)(v := map_option f (vf_node st v))"
  "vf_next (upd_node v f st) = vf_next st"
  "vf_root (upd_node v f st) = vf_root st"
  "vf_world (upd_node v f st) = vf_world st"
  by (simp_all add: upd_node_def)

text \<open>
  \<open>vfs_grows st st'\<close>: a step that keeps the store well formed, destroys no vnode and leaves types and
  open counts alone, new vnodes starting with a count of zero.
\<close>

definition kept :: "'d vnode \<Rightarrow> 'd vnode \<Rightarrow> bool" where
  "kept n n' \<longleftrightarrow> vn_open_count n' = vn_open_count n \<and> vn_type n' = vn_type n"

definition vfs_grows :: "('d, 'w) vfs \<Rightarrow> ('d, 'w) vfs \<Rightarrow> bool" where
  "vfs_grows st st' \<longleftrightarrow> (vfs_wf st \<longrightarrow> vfs_wf st' \<and> vf_next st \<le> vf_next st'
     \<and> (\<forall>v n. vf_node st v = Some n \<longrightarrow> (\<exists>n'. vf_node st' v = Some n' \<and> kept n n'))
     \<and> (\<forall>v n'. vf_node st v = None \<longrightarrow> vf_node st' v = Some n' \<longrightarrow> vf_next st \<le> v \<and> vn_open_count n' = 0))"

lemma kept_refl [simp]: "kept n n"
  by (simp add: kept_def)

lemma vfs_grows_refl [simp]: "vfs_grows st st"
  by (simp add: vfs_grows_def)

lemma vfs_grows_live:
  "vfs_grows st st' \<Longrightarrow> vfs_wf st \<Longrightarrow> vf_node st v = Some n
     \<Longrightarrow> \<exists>n'. vf_node st' v = Some n' \<and> kept n n'"
  by (simp add: vfs_grows_def)

lemma vfs_grows_wf: "vfs_grows st st' \<Longrightarrow> vfs_wf st \<Longrightarrow> vfs_wf st'"
  by (simp add: vfs_grows_def)

lemma vfs_grows_new:
  "vfs_grows st st' \<Longrightarrow> vfs_wf st \<Longrightarrow> vf_node st v = None \<Longrightarrow> vf_node st' v = Some n'
     \<Longrightarrow> vf_next st \<le> v \<and> vn_open_count n' = 0"
  by (simp add: vfs_grows_def)

lemma vfs_grows_next: "vfs_grows st st' \<Longrightarrow> vfs_wf st \<Longrightarrow> vf_next st \<le> vf_next st'"
  by (simp add: vfs_grows_def)

lemma vfs_grows_trans [trans]:
  assumes "vfs_grows a b" "vfs_grows b c"
  shows "vfs_grows a c"
proof (unfold vfs_grows_def, intro impI conjI allI)
  assume a: "vfs_wf a"
  note b = vfs_grows_wf [OF assms(1) a]
  show "vfs_wf c" by (rule vfs_grows_wf [OF assms(2) b])
  show "vf_next a \<le> vf_next c"
    using vfs_grows_next [OF assms(1) a] vfs_grows_next [OF assms(2) b] by simp
  show "\<exists>n'. vf_node c v = Some n' \<and> kept n n'" if "vf_node a v = Some n" for v n
    using vfs_grows_live [OF assms(1) a that] vfs_grows_live [OF assms(2) b, of v] by (auto simp: kept_def)
  fix v n' assume n: "vf_node a v = None" and n': "vf_node c v = Some n'"
  have "vf_next a \<le> v \<and> vn_open_count n' = 0"
  proof (cases "vf_node b v")
    case None
    thus ?thesis using vfs_grows_new [OF assms(2) b None n'] vfs_grows_next [OF assms(1) a] by simp
  next
    case (Some m)
    thus ?thesis using vfs_grows_new [OF assms(1) a n Some] vfs_grows_live [OF assms(2) b Some] n' by (auto simp: kept_def)
  qed
  thus "vf_next a \<le> v" "vn_open_count n' = 0" by simp_all
qed

text \<open>Changing the attributes of a vnode, but not its place in the tree.\<close>

definition same_place :: "'d vnode \<Rightarrow> 'd vnode \<Rightarrow> bool" where
  "same_place n n' \<longleftrightarrow> vn_name n' = vn_name n \<and> vn_children n' = vn_children n \<and> vn_parent n' = vn_parent n"

lemma upd_attr_wf:
  assumes "vfs_wf st" "\<And>n. vf_node st v = Some n \<Longrightarrow> same_place n (f n)"
  shows "vfs_wf (upd_node v f st)"
proof -
  have f: "vn_name (f n) = vn_name n" "vn_children (f n) = vn_children n" "vn_parent (f n) = vn_parent n"
    if "vf_node st v = Some n" for n
    using assms(2) [OF that] by (simp_all add: same_place_def)
  have "node_ok (upd_node v f st) u m" if m: "vf_node (upd_node v f st) u = Some m" for u m
  proof -
    obtain m0 where m0: "vf_node st u = Some m0" "m = (if u = v then f m0 else m0)"
      using m by (cases "u = v") auto
    have ok: "node_ok st u m0" by (rule wf_node [OF assms(1) m0(1)])
    have c: "\<exists>cn. vf_node (upd_node v f st) c = Some cn \<and> vn_parent cn = Some u" if "c \<in> set (vn_children m0)" for c
      using wf_child [OF assms(1) m0(1) that] f(3) by auto
    have cs: "vn_children m = vn_children m0" "vn_parent m = vn_parent m0" "vn_name m = vn_name m0"
      using m0 f by auto
    show ?thesis unfolding node_ok_def
    proof (intro conjI ballI allI impI)
      show "0 < u" "u < vf_next (upd_node v f st)" "length (vn_name m) < 64" "distinct (vn_children m)"
        using ok cs by (simp_all add: node_ok_def)
      show "\<exists>cn. vf_node (upd_node v f st) c = Some cn \<and> vn_parent cn = Some u" if "c \<in> set (vn_children m)" for c
        using c that cs(1) by simp
    qed
  qed
  thus ?thesis using assms(1) by (simp add: vfs_wf_def)
qed

lemma upd_attr_grows:
  assumes "\<And>n. vf_node st v = Some n \<Longrightarrow> same_place n (f n) \<and> kept n (f n)"
  shows "vfs_grows st (upd_node v f st)"
  unfolding vfs_grows_def using upd_attr_wf [of st v f] assms by (auto split: if_splits)

section \<open>The tree operations\<close>

lemma wfI:
  assumes "0 < vf_next st"
    and "\<And>v n. vf_node st v = Some n \<Longrightarrow> 0 < v \<and> v < vf_next st \<and> length (vn_name n) < NODE_MAXLEN \<and> distinct (vn_children n)"
    and "\<And>v n c. vf_node st v = Some n \<Longrightarrow> c \<in> set (vn_children n) \<Longrightarrow> \<exists>cn. vf_node st c = Some cn \<and> vn_parent cn = Some v"
  shows "vfs_wf st"
  using assms by (simp add: vfs_wf_def node_ok_def)

lemma wf_basic:
  assumes "vfs_wf st" "vf_node st v = Some n"
  shows "0 < v" "v < vf_next st" "length (vn_name n) < NODE_MAXLEN" "distinct (vn_children n)"
  using wf_node [OF assms] by (simp_all add: node_ok_def)

lemma vnode_create_spec:
  assumes "vnode_create t name st = Some (v, st')"
  shows "\<exists>n. st' = st\<lparr>vf_node := (vf_node st)(v \<mapsto> n), vf_next := Suc v\<rparr> \<and> v = vf_next st
       \<and> vn_type n = t \<and> vn_name n = (case name of None \<Rightarrow> [] | Some s \<Rightarrow> s) \<and> vn_parent n = None
       \<and> vn_children n = [] \<and> vn_open_count n = 0 \<and> vn_target n = None \<and> length (vn_name n) < NODE_MAXLEN
       \<and> vn_flags n = 0 \<and> vn_data n = None"
  using assms by (auto simp: vnode_create_def Let_def split: option.splits)

lemma vnode_create_grows:
  assumes "vnode_create t name st = Some (v, st')"
  shows "vfs_grows st st'"
proof (unfold vfs_grows_def, rule impI)
  assume wf: "vfs_wf st"
  obtain n where st': "st' = st\<lparr>vf_node := (vf_node st)(v \<mapsto> n), vf_next := Suc v\<rparr>" and v: "v = vf_next st"
    and n: "vn_parent n = None" "vn_children n = []" "vn_open_count n = 0" "length (vn_name n) < 64"
    using vnode_create_spec [OF assms] by blast
  have nodes: "vf_node st' = (vf_node st)(v \<mapsto> n)" "vf_next st' = Suc v" by (simp_all add: st')
  have fresh: "vf_node st v = None" using wf_fresh [OF wf] v by simp
  have "vfs_wf st'"
  proof (rule wfI)
    show "0 < vf_next st'" by (simp add: nodes)
    show "0 < u \<and> u < vf_next st' \<and> length (vn_name m) < 64 \<and> distinct (vn_children m)" if "vf_node st' u = Some m" for u m
      using that n wf_basic [OF wf, of u m] wf v by (auto simp: nodes vfs_wf_def split: if_splits)
    show "\<exists>cn. vf_node st' c = Some cn \<and> vn_parent cn = Some u" if "vf_node st' u = Some m" "c \<in> set (vn_children m)" for u m c
      using that n wf_child [OF wf, of u m c] fresh by (auto simp: nodes split: if_splits)
  qed
  thus "vfs_wf st' \<and> vf_next st \<le> vf_next st'
     \<and> (\<forall>v n. vf_node st v = Some n \<longrightarrow> (\<exists>n'. vf_node st' v = Some n' \<and> kept n n'))
     \<and> (\<forall>v n'. vf_node st v = None \<longrightarrow> vf_node st' v = Some n' \<longrightarrow> vf_next st \<le> v \<and> vn_open_count n' = 0)"
    using n v fresh by (auto simp: nodes kept_def split: if_splits)
qed

lemma growsI:
  assumes "vfs_wf st \<Longrightarrow> vfs_wf st'" "vf_next st' = vf_next st"
    and "\<And>v. map_option (\<lambda>n. (vn_open_count n, vn_type n)) (vf_node st' v) = map_option (\<lambda>n. (vn_open_count n, vn_type n)) (vf_node st v)"
  shows "vfs_grows st st'"
proof (unfold vfs_grows_def, intro impI conjI allI)
  show "vfs_wf st'" if "vfs_wf st" using assms(1) that .
  show "vf_next st \<le> vf_next st'" by (simp add: assms(2))
  show "\<exists>n'. vf_node st' v = Some n' \<and> kept n n'" if "vf_node st v = Some n" for v n
    using assms(3) [of v] that by (auto simp: kept_def)
  fix v n' assume "vf_node st v = None" "vf_node st' v = Some n'"
  hence False using assms(3) [of v] by simp
  thus "vf_next st \<le> v" "vn_open_count n' = 0" by simp_all
qed

lemma vnode_attach_spec:
  assumes "vnode_attach p c st = Some st'" "p \<noteq> c"
  shows "\<exists>pn cn. vf_node st p = Some pn \<and> vf_node st c = Some cn \<and> vn_parent cn = None
     \<and> st' = st\<lparr>vf_node := (vf_node st)(c \<mapsto> cn\<lparr>vn_parent := Some p\<rparr>, p \<mapsto> vn_children_update ((#) c) pn)\<rparr>"
proof -
  obtain pn cn where n: "vf_node st p = Some pn" "vf_node st c = Some cn" "vn_parent cn = None"
    and st': "st' = upd_node p (vn_children_update ((#) c)) (upd_node c (vn_parent_update (\<lambda>_. Some p)) st)"
    using assms by (auto simp: vnode_attach_def Let_def bind_eq_Some_conv)
  have "st' = st\<lparr>vf_node := (vf_node st)(c \<mapsto> cn\<lparr>vn_parent := Some p\<rparr>, p \<mapsto> vn_children_update ((#) c) pn)\<rparr>"
    using assms(2) n by (simp add: st' upd_node_def)
  thus ?thesis using n by blast
qed

lemma vnode_attach_grows:
  assumes "vnode_attach p c st = Some st'" "p \<noteq> c"
  shows "vfs_grows st st'"
proof -
  obtain pn cn where pn: "vf_node st p = Some pn" and cn: "vf_node st c = Some cn" "vn_parent cn = None"
    and st': "st' = st\<lparr>vf_node := (vf_node st)(c \<mapsto> cn\<lparr>vn_parent := Some p\<rparr>, p \<mapsto> vn_children_update ((#) c) pn)\<rparr>"
    using vnode_attach_spec [OF assms] by blast
  show ?thesis
  proof (rule growsI)
    assume wf: "vfs_wf st"
    have notin: "c \<notin> set (vn_children n)" if "vf_node st u = Some n" for u n
      using wf_child [OF wf that, of c] cn by auto
    have old: "\<exists>m'. vf_node st u = Some m' \<and> vn_name m = vn_name m'
        \<and> vn_children m = (if u = p then c # vn_children m' else vn_children m')
        \<and> vn_parent m = (if u = c then Some p else vn_parent m')"
      if "vf_node st' u = Some m" for u m
      using that pn cn assms(2) by (auto simp: st' split: if_splits)
    have new: "\<exists>m. vf_node st' u = Some m \<and> set (vn_children m') \<subseteq> set (vn_children m)
        \<and> vn_parent m = (if u = c then Some p else vn_parent m')" if "vf_node st u = Some m'" for u m'
      using that pn cn assms(2) by (auto simp: st')
    show "vfs_wf st'"
    proof (rule wfI)
      show "0 < vf_next st'" using wf by (simp add: st' vfs_wf_def)
      show "0 < u \<and> u < vf_next st' \<and> length (vn_name m) < 64 \<and> distinct (vn_children m)" if "vf_node st' u = Some m" for u m
        using old [OF that] wf_basic [OF wf, of u] notin [of u] by (auto simp: st')
      show "\<exists>k. vf_node st' d = Some k \<and> vn_parent k = Some u" if m: "vf_node st' u = Some m" "d \<in> set (vn_children m)" for u m d
      proof (cases "d = c \<and> u = p")
        case True
        thus ?thesis using assms(2) by (simp add: st')
      next
        case False
        obtain m' where m': "vf_node st u = Some m'" "d \<in> set (vn_children m')" using old [OF m(1)] m(2) False by (auto split: if_splits)
        moreover have "d \<noteq> c" using m' notin by auto
        ultimately show ?thesis using wf_child [OF wf m'] new by fastforce
      qed
    qed
  next
    show "vf_next st' = vf_next st" by (simp add: st')
    show "map_option (\<lambda>n. (vn_open_count n, vn_type n)) (vf_node st' v) = map_option (\<lambda>n. (vn_open_count n, vn_type n)) (vf_node st v)" for v
      using pn cn by (simp add: st')
  qed
qed

lemma vnode_detach_spec:
  assumes "vnode_detach v st = Some st'"
  shows "\<exists>n. vf_node st v = Some n \<and> (case vn_parent n of
       None \<Rightarrow> st' = upd_node v (vn_parent_update (\<lambda>_. None)) st
     | Some p \<Rightarrow> (\<exists>pn. vf_node (upd_node v (vn_parent_update (\<lambda>_. None)) st) p = Some pn \<and> v \<in> set (vn_children pn)
         \<and> st' = upd_node p (vn_children_update (remove1 v)) (upd_node v (vn_parent_update (\<lambda>_. None)) st)))"
proof -
  obtain n where n: "vf_node st v = Some n" using assms by (auto simp: vnode_detach_def bind_eq_Some_conv)
  show ?thesis using assms
    by (intro exI [of _ n]) (auto simp: n vnode_detach_def Let_def bind_eq_Some_conv split: option.splits if_splits)
qed

lemma vnode_detach_nodes:
  assumes "vnode_detach v st = Some st'" "vfs_wf st"
  shows "\<exists>n. vf_node st v = Some n \<and> vf_next st' = vf_next st
     \<and> (\<forall>u. vf_node st' u = map_option (\<lambda>m. m\<lparr>vn_parent := (if u = v then None else vn_parent m),
              vn_children := remove1 v (vn_children m)\<rparr>) (vf_node st u))"
proof -
  obtain n where n: "vf_node st v = Some n" and r: "case vn_parent n of
       None \<Rightarrow> st' = upd_node v (vn_parent_update (\<lambda>_. None)) st
     | Some p \<Rightarrow> (\<exists>pn. vf_node (upd_node v (vn_parent_update (\<lambda>_. None)) st) p = Some pn \<and> v \<in> set (vn_children pn)
         \<and> st' = upd_node p (vn_children_update (remove1 v)) (upd_node v (vn_parent_update (\<lambda>_. None)) st))"
    using vnode_detach_spec [OF assms(1)] by blast
  have only: "v \<notin> set (vn_children m)" if "vf_node st u = Some m" "vn_parent n \<noteq> Some u" for u m
    using wf_child [OF assms(2) that(1), of v] that(2) n by auto
  have "vf_node st' u = map_option (\<lambda>m. m\<lparr>vn_parent := (if u = v then None else vn_parent m),
              vn_children := remove1 v (vn_children m)\<rparr>) (vf_node st u)" for u
  proof (cases "vn_parent n")
    case None
    have "remove1 v (vn_children m) = vn_children m" if "vf_node st u = Some m" for m
      using only [OF that] None by (simp add: remove1_idem)
    thus ?thesis using r n None by (cases "vf_node st u") auto
  next
    case (Some p)
    have "remove1 v (vn_children m) = vn_children m" if "vf_node st u = Some m" "u \<noteq> p" for m
      using only [OF that(1)] Some that(2) by (simp add: remove1_idem)
    thus ?thesis using r n Some by (cases "vf_node st u") auto
  qed
  moreover have "vf_next st' = vf_next st" using r by (auto split: option.splits)
  ultimately show ?thesis using n by blast
qed

lemma vnode_detach_grows:
  assumes "vnode_detach v st = Some st'"
  shows "vfs_wf st \<Longrightarrow> vfs_wf st'" "vfs_wf st \<Longrightarrow> vfs_grows st st'"
proof -
  assume wf: "vfs_wf st"
  obtain n where n: "vf_node st v = Some n" and nx: "vf_next st' = vf_next st"
    and nodes: "\<And>u. vf_node st' u = map_option (\<lambda>m. m\<lparr>vn_parent := (if u = v then None else vn_parent m),
              vn_children := remove1 v (vn_children m)\<rparr>) (vf_node st u)"
    using vnode_detach_nodes [OF assms wf] by blast
  have old: "\<exists>m'. vf_node st u = Some m' \<and> vn_name m = vn_name m' \<and> vn_children m = remove1 v (vn_children m')
        \<and> vn_parent m = (if u = v then None else vn_parent m')"
    if "vf_node st' u = Some m" for u m
    using that nodes [of u] by (cases "vf_node st u") auto
  show wf': "vfs_wf st'"
  proof (rule wfI)
    show "0 < vf_next st'" using wf by (simp add: nx vfs_wf_def)
    show "0 < u \<and> u < vf_next st' \<and> length (vn_name m) < 64 \<and> distinct (vn_children m)" if "vf_node st' u = Some m" for u m
      using old [OF that] wf_basic [OF wf, of u] by (auto simp: nx)
    show "\<exists>k. vf_node st' d = Some k \<and> vn_parent k = Some u" if m: "vf_node st' u = Some m" "d \<in> set (vn_children m)" for u m d
    proof -
      obtain m' where m': "vf_node st u = Some m'" "vn_children m = remove1 v (vn_children m')" using old [OF m(1)] by blast
      hence d: "d \<noteq> v" "d \<in> set (vn_children m')" using m(2) wf_basic(4) [OF wf m'(1)] by auto
      thus ?thesis using wf_child [OF wf m'(1) d(2)] nodes [of d] by auto
    qed
  qed
  show "vfs_grows st st'"
    by (rule growsI) (simp_all add: wf' nx nodes option.map_comp comp_def)
qed

lemma vnode_destroy_wf:
  assumes "vnode_destroy v st = Some st'" "vfs_wf st" "vf_node st v = Some n" "vn_parent n = None"
  shows "vfs_wf st'" "vf_node st' = (vf_node st)(v := None)" "vf_next st' = vf_next st" "vn_open_count n = 0"
proof -
  show nodes: "vf_node st' = (vf_node st)(v := None)" "vf_next st' = vf_next st" "vn_open_count n = 0"
    using assms(1,3) by (auto simp: vnode_destroy_def bind_eq_Some_conv)
  have old: "vf_node st u = Some m \<and> u \<noteq> v" if "vf_node st' u = Some m" for u m
    using that by (auto simp: nodes split: if_splits)
  show "vfs_wf st'"
  proof (rule wfI)
    show "0 < vf_next st'" using assms(2) by (simp add: nodes vfs_wf_def)
    show "0 < u \<and> u < vf_next st' \<and> length (vn_name m) < 64 \<and> distinct (vn_children m)" if "vf_node st' u = Some m" for u m
      using wf_basic [OF assms(2), of u m] old [OF that] by (simp add: nodes)
    show "\<exists>k. vf_node st' d = Some k \<and> vn_parent k = Some u" if m: "vf_node st' u = Some m" "d \<in> set (vn_children m)" for u m d
      using wf_child [OF assms(2) _ m(2), of u] old [OF m(1)] assms(3,4) by (auto simp: nodes)
  qed
qed

end
