(* ===== verification/Vfs_Path.thy ===== *)
theory Vfs_Path
  imports Vfs_Wf
begin

text \<open>
  Path resolution, working directories and mounts (src/fs/vfs.c, src/fs/fs_class.c and
  \<open>blk_mount_auto\<close> of src/sys/block/blk.c).

  The routines \<open>vfs_find\<close>, \<open>vfs_find_internal\<close> and \<open>vfs_link_resolve\<close> call each other and follow links
  that live on storage, so their recursion depth depends on what the filesystem drivers return. The
  first argument bounds the depth of the call stack; \<^term>\<open>None\<close> with a small bound stands for an
  exhausted kernel stack. For trees that are in memory the depth needed is at most five more than the
  length of the path (lemma \<open>vfs_find_walk\<close> below).
\<close>

section \<open>Path elements\<close>

definition path_element :: "string \<Rightarrow> (string \<times> string option) kern" where
  "path_element path =
     (let e = takeWhile (\<lambda>c. c \<noteq> CHR ''/'') path;
          sep = dropWhile (\<lambda>c. c \<noteq> CHR ''/'') path
      in do {
        kassert (length e < NODE_MAXLEN);
        (if sep = [] then Some (path, None)
         else let rest = dropWhile (\<lambda>c. c = CHR ''/'') sep
              in Some (e, if rest = [] then None else Some rest))
      })"

function skip_dots :: "string \<Rightarrow> (string \<times> string option) kern" where
  "skip_dots path = do {
     (name, rest) \<leftarrow> path_element path;
     (case rest of
        None \<Rightarrow> Some (name, None)
      | Some r \<Rightarrow> if name = ''.'' then skip_dots r else Some (name, Some r))
   }"
  by pat_completeness auto

lemma path_element_shorter:
  assumes "path_element path = Some (e, Some r)"
  shows "length r < length path"
proof -
  define sep where "sep = dropWhile (\<lambda>c. c \<noteq> CHR ''/'') path"
  have "length sep \<le> length path" unfolding sep_def by (rule length_dropWhile_le)
  have s: "sep \<noteq> []" "r = dropWhile (\<lambda>c. c = CHR ''/'') sep"
    using assms unfolding path_element_def Let_def sep_def [symmetric] by (auto split: if_splits)
  have "hd sep = CHR ''/''" using s(1) hd_dropWhile [of "\<lambda>c. c \<noteq> CHR ''/''" path] unfolding sep_def by blast
  with s obtain xs where "sep = CHR ''/'' # xs" by (cases sep) auto
  hence "length r < length sep" using s(2) length_dropWhile_le [of "\<lambda>c. c = CHR ''/''" xs] by simp
  thus ?thesis using \<open>length sep \<le> length path\<close> by simp
qed

termination skip_dots
  apply (relation "measure length")
   apply (rule wf_measure)
  subgoal premises p for path x name rest r
    using path_element_shorter [of path name r] p by (simp only: in_measure)
  done

declare skip_dots.simps [simp del]

section \<open>Path resolution\<close>

definition vfs_lookup_or_load ::
  "('d, 'w) vfs_env \<Rightarrow> nat \<Rightarrow> string \<Rightarrow> ('d, 'w) vfs \<Rightarrow> ((int + nat) \<times> ('d, 'w) vfs) kern" where
  "vfs_lookup_or_load env at name st = do {
     res \<leftarrow> vnode_lookup_child at name st;
     (case res of
        Inr child \<Rightarrow> Some (Inr child, st)
      | Inl err \<Rightarrow>
          if err \<noteq> - ENOENT then Some (Inl err, st)
          else do {
            n \<leftarrow> vf_node st at;
            (if vn_flags n AND VN_MEMORY = 0 then do {
               find \<leftarrow> vn_oper env n vo_find;
               (res, st) \<leftarrow> find at name st;
               (case res of
                  Inl err \<Rightarrow> Some (Inl err, st)
                | Inr node \<Rightarrow> do {
                    st \<leftarrow> vnode_attach at node st;
                    Some (Inr node, st)
                  })
             }
             else Some (Inl (- ENOENT), st))
          })
   }"

text \<open>
  The three routines that call each other are given as bodies over an argument \<open>call\<close>, which stands
  for the nested calls; \<open>vfs_exec\<close> ties the knot.
\<close>

datatype vfs_call =
    LinkResolveInternal nat int int
  | FindInternal "nat option" "string option" int
  | Find "nat option" string int

type_synonym ('d, 'w) vfs_found = "((int + nat) \<times> ('d, 'w) vfs) kern"
type_synonym ('d, 'w) vfs_walker = "vfs_call \<Rightarrow> ('d, 'w) vfs \<Rightarrow> ('d, 'w) vfs_found"

definition link_load ::
  "('d, 'w) vfs_walker \<Rightarrow> ('d, 'w) vfs_env \<Rightarrow> nat \<Rightarrow> int \<Rightarrow> ('d, 'w) vfs \<Rightarrow> ((int + unit) \<times> ('d, 'w) vfs) kern" where
  "link_load call env lnk link_itself st = do {
     l \<leftarrow> vf_node st lnk;
     readlink \<leftarrow> vn_oper env l vo_readlink;
     parent \<leftarrow> vn_parent l;
     (res, path) \<leftarrow> readlink lnk PATH_MAX st;
     (if res \<noteq> 0 then Some (Inl res, st)
      else do {
        (found, st) \<leftarrow> call (Find (Some parent) path link_itself) st;
        (case found of
           Inl err \<Rightarrow> Some (Inl err, upd_node lnk (vn_target_update (\<lambda>_. None)) st)
         | Inr t \<Rightarrow> Some (Inr (), upd_node lnk (vn_target_update (\<lambda>_. Some t)) st))
      })
   }"

definition link_target :: "('d, 'w) vfs_env \<Rightarrow> nat \<Rightarrow> ('d, 'w) vfs \<Rightarrow> nat option kern" where
  "link_target env lnk st = do {
     l \<leftarrow> vf_node st lnk;
     (if vn_flags l AND VN_PER_PROCESS \<noteq> 0 then do {
        func \<leftarrow> vn_target l;
        Some (fst (env_link env func lnk st))
      }
      else Some (vn_target l))
   }"

definition vfs_link_resolve_internal ::
  "('d, 'w) vfs_walker \<Rightarrow> ('d, 'w) vfs_env \<Rightarrow> nat \<Rightarrow> int \<Rightarrow> int \<Rightarrow> ('d, 'w) vfs \<Rightarrow> ('d, 'w) vfs_found" where
  "vfs_link_resolve_internal call env lnk link_itself cnt st = do {
     l \<leftarrow> vf_node st lnk;
     (if vn_type l \<noteq> VN_LNK then Some (Inr lnk, st)
      else do {
        (loaded, st) \<leftarrow>
          (if vn_target l = None \<and> vn_flags l AND VN_MEMORY = 0 then link_load call env lnk link_itself st
           else Some (Inr (), st));
        (case loaded of
           Inl err \<Rightarrow> Some (Inl err, st)
         | Inr _ \<Rightarrow> do {
             target \<leftarrow> link_target env lnk st;
             (case target of
                None \<Rightarrow> Some (Inl (- ENOENT), st)
              | Some t \<Rightarrow> do {
                  tn \<leftarrow> vf_node st t;
                  (if vn_type tn = VN_LNK then
                     if cnt \<le> 1 then Some (Inl (- ELOOP), st)
                     else call (LinkResolveInternal t link_itself (cnt - 1)) st
                   else Some (Inr t, st))
                })
           })
      })
   }"

definition vfs_link_resolve :: "('d, 'w) vfs_walker \<Rightarrow> nat \<Rightarrow> int \<Rightarrow> ('d, 'w) vfs \<Rightarrow> ('d, 'w) vfs_found" where
  "vfs_link_resolve call lnk link_itself st = call (LinkResolveInternal lnk LINK_MAX link_itself) st"

definition find_final :: "('d, 'w) vfs_walker \<Rightarrow> nat \<Rightarrow> int \<Rightarrow> ('d, 'w) vfs \<Rightarrow> ('d, 'w) vfs_found" where
  "find_final call node link_itself st =
     (if link_itself = 0 then do {
        n \<leftarrow> vf_node st node;
        (res, st) \<leftarrow> (if vn_type n = VN_LNK then vfs_link_resolve call node 0 st else Some (Inr node, st));
        (case res of
           Inl err \<Rightarrow> Some (Inl err, st)
         | Inr r \<Rightarrow> do {
             rn \<leftarrow> vf_node st r;
             kassert (vn_type rn \<noteq> VN_LNK);
             Some (Inr r, st)
           })
      }
      else Some (Inr node, st))"

definition find_in_dir ::
  "('d, 'w) vfs_walker \<Rightarrow> ('d, 'w) vfs_env \<Rightarrow> nat \<Rightarrow> 'd vnode \<Rightarrow> string \<Rightarrow> int \<Rightarrow> ('d, 'w) vfs \<Rightarrow> ('d, 'w) vfs_found" where
  "find_in_dir call env at n path link_itself st = do {
     (name, rest) \<leftarrow> skip_dots (dropWhile (\<lambda>c. c = CHR ''/'') path);
     (if name = ''.'' then Some (Inr at, st)
      else if name = ''..'' then
        call (FindInternal (Some (case vn_parent n of None \<Rightarrow> at | Some p \<Rightarrow> p)) rest link_itself) st
      else do {
        (res, st) \<leftarrow> vfs_lookup_or_load env at name st;
        (case res of
           Inl err \<Rightarrow> Some (Inl err, st)
         | Inr node \<Rightarrow>
             if rest = None then find_final call node link_itself st
             else call (FindInternal (Some node) rest link_itself) st)
      })
   }"

definition vfs_find_internal ::
  "('d, 'w) vfs_walker \<Rightarrow> ('d, 'w) vfs_env \<Rightarrow> nat option \<Rightarrow> string option \<Rightarrow> int \<Rightarrow> ('d, 'w) vfs
     \<Rightarrow> ('d, 'w) vfs_found" where
  "vfs_find_internal call env at path link_itself st =
     (case at of
        None \<Rightarrow> Some (Inl (- ENOENT), st)
      | Some at \<Rightarrow>
     (case path of
        None \<Rightarrow> Some (Inr at, st)
      | Some path \<Rightarrow>
      if path = [] then Some (Inr at, st)
      else do {
        n \<leftarrow> vf_node st at;
        (res, st) \<leftarrow> (if vn_type n = VN_LNK then vfs_link_resolve call at link_itself st
                     else Some (Inr at, st));
        (case res of
           Inl err \<Rightarrow> Some (Inl err, st)
         | Inr at \<Rightarrow> do {
             n \<leftarrow> vf_node st at;
             kassert (vn_type n \<noteq> VN_LNK);
             at \<leftarrow> (if vn_type n = VN_MNT then vn_target n else Some at);
             n \<leftarrow> vf_node st at;
             (if vn_type n \<noteq> VN_DIR then Some (Inl (- ENOTDIR), st)
              else find_in_dir call env at n path link_itself st)
           })
      }))"

definition vfs_find_body ::
  "('d, 'w) vfs_walker \<Rightarrow> vfs_ioctx \<Rightarrow> nat option \<Rightarrow> string \<Rightarrow> int \<Rightarrow> ('d, 'w) vfs \<Rightarrow> ('d, 'w) vfs_found" where
  "vfs_find_body call ctx rel path link_itself st =
     (case vf_root st of
        None \<Rightarrow> Some (Inl (- ENOENT), st)
      | Some root \<Rightarrow> do {
          (res, st) \<leftarrow>
            (if path \<noteq> [] \<and> hd path = CHR ''/'' then
               call (FindInternal (Some root) (Some (dropWhile (\<lambda>c. c = CHR ''/'') path)) link_itself) st
             else
               let rel = (case rel of None \<Rightarrow> cwd_vnode ctx | Some r \<Rightarrow> Some r);
                   rel = (case rel of None \<Rightarrow> root | Some r \<Rightarrow> r)
               in call (FindInternal (Some rel) (Some path) link_itself) st);
          (case res of
             Inl err \<Rightarrow> Some (Inl err, st)
           | Inr r \<Rightarrow> do {
               rn \<leftarrow> vf_node st r;
               r \<leftarrow> (if vn_type rn = VN_MNT then vn_target rn else Some r);
               Some (Inr r, st)
             })
        })"

primrec vfs_exec :: "nat \<Rightarrow> ('d, 'w) vfs_env \<Rightarrow> vfs_ioctx \<Rightarrow> ('d, 'w) vfs_walker" where
  "vfs_exec 0 env ctx = (\<lambda>c st. None)"
| "vfs_exec (Suc k) env ctx = (\<lambda>c st.
     (case c of
        LinkResolveInternal lnk link_itself cnt \<Rightarrow>
          vfs_link_resolve_internal (vfs_exec k env ctx) env lnk link_itself cnt st
      | FindInternal at path link_itself \<Rightarrow>
          vfs_find_internal (vfs_exec k env ctx) env at path link_itself st
      | Find rel path link_itself \<Rightarrow> vfs_find_body (vfs_exec k env ctx) ctx rel path link_itself st))"

definition vfs_find ::
  "nat \<Rightarrow> ('d, 'w) vfs_env \<Rightarrow> vfs_ioctx \<Rightarrow> nat option \<Rightarrow> string \<Rightarrow> int \<Rightarrow> ('d, 'w) vfs \<Rightarrow> ('d, 'w) vfs_found" where
  "vfs_find k env ctx rel path link_itself st = vfs_exec k env ctx (Find rel path link_itself) st"

section \<open>Working directory\<close>

fun vfs_vnode_to_mode :: "vnode_type \<Rightarrow> 32 word" where
  "vfs_vnode_to_mode VN_MNT = S_IFDIR"
| "vfs_vnode_to_mode VN_DIR = S_IFDIR"
| "vfs_vnode_to_mode VN_LNK = S_IFLNK"
| "vfs_vnode_to_mode VN_BLK = S_IFBLK"
| "vfs_vnode_to_mode VN_CHR = S_IFCHR"
| "vfs_vnode_to_mode _ = S_IFREG"

definition setcwd_to ::
  "nat \<Rightarrow> ('d, 'w) vfs_env \<Rightarrow> vfs_ioctx \<Rightarrow> nat \<Rightarrow> ('d, 'w) vfs \<Rightarrow> (int \<times> vfs_ioctx \<times> ('d, 'w) vfs) kern" where
  "setcwd_to k env ctx node st = do {
     (res, st) \<leftarrow> vfs_link_resolve (vfs_exec k env ctx) node 0 st;
     (case res of
        Inl err \<Rightarrow> Some (err, ctx, st)
      | Inr dst \<Rightarrow> do {
          d \<leftarrow> vf_node st dst;
          dst \<leftarrow> (if vn_type d = VN_MNT then vn_target d else Some dst);
          d \<leftarrow> vf_node st dst;
          (if vn_type d \<noteq> VN_DIR then Some (- ENOTDIR, ctx, st)
           else do {
             res \<leftarrow> vfs_access_node ctx dst X_OK st;
             (if res \<noteq> 0 then Some (res, ctx, st)
              else Some (0, ctx\<lparr>cwd_vnode := Some dst\<rparr>, st))
           })
        })
   }"

definition vfs_setcwd ::
  "nat \<Rightarrow> ('d, 'w) vfs_env \<Rightarrow> vfs_ioctx \<Rightarrow> string \<Rightarrow> ('d, 'w) vfs \<Rightarrow> (int \<times> vfs_ioctx \<times> ('d, 'w) vfs) kern" where
  "vfs_setcwd k env ctx path st =
     (if path \<noteq> [] \<and> hd path = CHR ''/'' then
        if tl path = [] then Some (0, ctx\<lparr>cwd_vnode := None\<rparr>, st)
        else (case vf_root st of
                None \<Rightarrow> Some (0, ctx\<lparr>cwd_vnode := None\<rparr>, st)
              | Some root \<Rightarrow> do {
                  (res, st) \<leftarrow> vfs_exec k env ctx (FindInternal (Some root) (Some path) 0) st;
                  (case res of Inl err \<Rightarrow> Some (err, ctx, st) | Inr node \<Rightarrow> setcwd_to k env ctx node st)
                })
      else do {
        (res, st) \<leftarrow> vfs_find k env ctx (cwd_vnode ctx) path 0 st;
        (case res of Inl err \<Rightarrow> Some (err, ctx, st) | Inr node \<Rightarrow> setcwd_to k env ctx node st)
      })"

text \<open>
  \<open>path_backstack room st v\<close> collects \<open>v\<close> and its ancestors below the root, the deepest last;
  \<open>room\<close> is what is left of the sixteen entries of the array \<open>backstack\<close>.
\<close>

fun path_backstack :: "nat \<Rightarrow> ('d, 'w) vfs \<Rightarrow> nat \<Rightarrow> nat list \<Rightarrow> nat list kern" where
  "path_backstack room st v acc = do {
     n \<leftarrow> vf_node st v;
     (case vn_parent n of
        None \<Rightarrow> Some acc
      | Some p \<Rightarrow> (case room of 0 \<Rightarrow> None | Suc r \<Rightarrow> path_backstack r st p (v # acc)))
   }"

declare path_backstack.simps [simp del]

definition path_item_name :: "('d, 'w) vfs \<Rightarrow> nat \<Rightarrow> string kern" where
  "path_item_name st v = do {
     n \<leftarrow> vf_node st v;
     (case vn_target n of
        Some t \<Rightarrow> if vn_type n = VN_DIR then map_option vn_name (vf_node st t) else Some (vn_name n)
      | None \<Rightarrow> Some (vn_name n))
   }"

fun path_items :: "('d, 'w) vfs \<Rightarrow> nat list \<Rightarrow> string kern" where
  "path_items st [] = Some []"
| "path_items st (v # vs) = do {
     name \<leftarrow> path_item_name st v;
     rest \<leftarrow> path_items st vs;
     Some (CHR ''/'' # name @ rest)
   }"

definition vfs_vnode_path :: "('d, 'w) vfs \<Rightarrow> nat option \<Rightarrow> string kern" where
  "vfs_vnode_path st node =
     (case node of
        None \<Rightarrow> Some ''/''
      | Some v \<Rightarrow> do {
          n \<leftarrow> vf_node st v;
          (if vn_parent n = None then Some ''/''
           else path_backstack 16 st v [] \<bind> path_items st)
        })"

section \<open>Mounting\<close>

fun fs_class_by_name :: "('d, 'w) vfs_env \<Rightarrow> nat list \<Rightarrow> string \<Rightarrow> nat option" where
  "fs_class_by_name env [] name = None"
| "fs_class_by_name env (c # cs) name =
     (if fc_name (env_cls env c) = name then Some c else fs_class_by_name env cs name)"

definition fs_class_register :: "('d, 'w) vfs_env \<Rightarrow> nat \<Rightarrow> ('d, 'w) vfs \<Rightarrow> int \<times> ('d, 'w) vfs" where
  "fs_class_register env c st =
     (if fs_class_by_name env (vf_classes st) (fc_name (env_cls env c)) \<noteq> None then (- EEXIST, st)
      else (0, st\<lparr>vf_classes := c # vf_classes st\<rparr>))"

definition fs_create ::
  "('d, 'w) vfs_env \<Rightarrow> nat \<Rightarrow> nat option \<Rightarrow> 32 word \<Rightarrow> string option \<Rightarrow> ('d, 'w) vfs
     \<Rightarrow> (nat option \<times> ('d, 'w) vfs) kern" where
  "fs_create env cls blk flags opt st = do {
     let fs = vf_fs_next st;
     let st = st\<lparr>vf_fs := (vf_fs st)(fs \<mapsto> \<lparr>fs_blk = blk, fs_flags = flags, fs_cls = Some cls\<rparr>),
                 vf_fs_next := Suc fs\<rparr>;
     (res, st) \<leftarrow> (case fc_init (env_cls env cls) of None \<Rightarrow> Some (0, st) | Some init \<Rightarrow> init fs opt st);
     (if res \<noteq> 0 then Some (None, st\<lparr>vf_fs := (vf_fs st)(fs := None)\<rparr>)
      else Some (Some fs, st\<lparr>vf_mounts := fs # vf_mounts st\<rparr>))
   }"

definition mount_busy :: "nat option \<Rightarrow> nat option \<Rightarrow> ('d, 'w) vfs \<Rightarrow> int kern" where
  "mount_busy at blk st =
     (if (case blk of None \<Rightarrow> False | Some b \<Rightarrow> vf_busy st b) then Some (- EBUSY)
      else (case at of
              None \<Rightarrow> Some 0
            | Some a \<Rightarrow> do {
                n \<leftarrow> vf_node st a;
                Some (if vn_target n \<noteq> None then - EBUSY
                      else if vn_type n \<noteq> VN_DIR then - ENOTDIR else 0)
              }))"

definition mount_root :: "nat option \<Rightarrow> nat \<Rightarrow> ('d, 'w) vfs \<Rightarrow> ('d, 'w) vfs kern" where
  "mount_root at fs_root st =
     (case at of
        None \<Rightarrow> Some (st\<lparr>vf_root := Some fs_root\<rparr>)
      | Some a \<Rightarrow> do {
          n \<leftarrow> vf_node st a;
          r \<leftarrow> vf_node st fs_root;
          let st = upd_node a (\<lambda>n. n\<lparr>vn_type := VN_MNT, vn_target := Some fs_root\<rparr>) st;
          Some (upd_node fs_root (\<lambda>r. r\<lparr>vn_target := Some a, vn_parent := vn_parent n\<rparr>) st)
        })"

definition vfs_mount_internal ::
  "('d, 'w) vfs_env \<Rightarrow> nat option \<Rightarrow> nat option \<Rightarrow> nat \<Rightarrow> 32 word \<Rightarrow> string option \<Rightarrow> ('d, 'w) vfs
     \<Rightarrow> (int \<times> ('d, 'w) vfs) kern" where
  "vfs_mount_internal env at blk cls flags opt st = do {
     res \<leftarrow> mount_busy at blk st;
     (if res \<noteq> 0 then Some (res, st)
      else do {
        (fs, st) \<leftarrow> fs_create env cls blk flags opt st;
        (case fs of
           None \<Rightarrow> Some (- EINVAL, st)
         | Some fs \<Rightarrow> do {
             get_root \<leftarrow> fc_get_root (env_cls env cls);
             (case get_root fs st of
                None \<Rightarrow> Some (- EINVAL, st)
              | Some fs_root \<Rightarrow> do {
                  st \<leftarrow> mount_root at fs_root st;
                  Some (0, case blk of None \<Rightarrow> st | Some b \<Rightarrow> st\<lparr>vf_busy := (vf_busy st)(b := True)\<rparr>)
                })
           })
      })
   }"

definition blk_mount_auto ::
  "('d, 'w) vfs_env \<Rightarrow> nat option \<Rightarrow> nat \<Rightarrow> 32 word \<Rightarrow> string option \<Rightarrow> ('d, 'w) vfs \<Rightarrow> (int \<times> ('d, 'w) vfs) kern" where
  "blk_mount_auto env at blk flags opt st =
     (case fs_class_by_name env (vf_classes st) ''ext2'' of
        None \<Rightarrow> Some (- EINVAL, st)
      | Some cls \<Rightarrow> do {
          (res, st) \<leftarrow> vfs_mount_internal env at (Some blk) cls flags opt st;
          Some (if res = 0 then 0 else - EINVAL, st)
        })"

definition mount_at ::
  "('d, 'w) vfs_env \<Rightarrow> nat option \<Rightarrow> nat option \<Rightarrow> nat option \<Rightarrow> 32 word \<Rightarrow> string option \<Rightarrow> ('d, 'w) vfs
     \<Rightarrow> (int \<times> ('d, 'w) vfs) kern" where
  "mount_at env mountpoint blk cls flags opt st =
     (case cls of
        Some c \<Rightarrow> vfs_mount_internal env mountpoint blk c flags opt st
      | None \<Rightarrow> (case blk of
                   None \<Rightarrow> Some (- EINVAL, st)
                 | Some b \<Rightarrow> blk_mount_auto env mountpoint b flags opt st))"

definition vfs_mount ::
  "nat \<Rightarrow> ('d, 'w) vfs_env \<Rightarrow> vfs_ioctx \<Rightarrow> string \<Rightarrow> nat option \<Rightarrow> string option \<Rightarrow> 32 word \<Rightarrow> string option
     \<Rightarrow> ('d, 'w) vfs \<Rightarrow> (int \<times> ('d, 'w) vfs) kern" where
  "vfs_mount k env ctx at blk fs flags opt st =
     (if at = [] \<or> hd at \<noteq> CHR ''/'' then Some (- EINVAL, st)
      else
        let auto = (case fs of None \<Rightarrow> True | Some s \<Rightarrow> s = ''auto'');
            cls = (case fs of None \<Rightarrow> None
                   | Some s \<Rightarrow> if auto then None else fs_class_by_name env (vf_classes st) s)
        in if \<not> auto \<and> cls = None then Some (- EINVAL, st)
           else if at = ''/'' then mount_at env None blk cls flags opt st
           else do {
             (res, st) \<leftarrow> vfs_find k env ctx (cwd_vnode ctx) at 0 st;
             (case res of
                Inl err \<Rightarrow> Some (err, st)
              | Inr mountpoint \<Rightarrow> mount_at env (Some mountpoint) blk cls flags opt st)
           })"

definition vfs_umount ::
  "nat \<Rightarrow> ('d, 'w) vfs_env \<Rightarrow> vfs_ioctx \<Rightarrow> string \<Rightarrow> ('d, 'w) vfs \<Rightarrow> (int \<times> ('d, 'w) vfs) kern" where
  "vfs_umount k env ctx dir_name st = do {
     (res, st) \<leftarrow> vfs_find k env ctx (cwd_vnode ctx) dir_name 0 st;
     (case res of
        Inl err \<Rightarrow> Some (err, st)
      | Inr node \<Rightarrow> do {
          n \<leftarrow> vf_node st node;
          (if vn_parent n = None then Some (- EBUSY, st)
           else if vn_type n \<noteq> VN_DIR then Some (- ENOTDIR, st)
           else (case vn_target n of
                   None \<Rightarrow> Some (- EINVAL, st)
                 | Some mountpoint \<Rightarrow> do {
                     m \<leftarrow> vf_node st mountpoint;
                     let st = upd_node mountpoint (\<lambda>m. m\<lparr>vn_type := VN_DIR, vn_target := None\<rparr>) st;
                     fs \<leftarrow> vn_fs n;
                     f \<leftarrow> vf_fs st fs;
                     blk \<leftarrow> fs_blk f;
                     cls \<leftarrow> fs_cls f;
                     st \<leftarrow> (case fc_destroy (env_cls env cls) of None \<Rightarrow> Some st | Some destroy \<Rightarrow> destroy fs st);
                     let st = st\<lparr>vf_fs := (vf_fs st)(fs \<mapsto> \<lparr>fs_blk = None, fs_flags = 0, fs_cls = None\<rparr>)\<rparr>;
                     Some (0, st\<lparr>vf_busy := (vf_busy st)(blk := False)\<rparr>)
                   }))
        })
   }"

section \<open>Paths as component lists\<close>

abbreviation (input) slash :: char where "slash \<equiv> CHR ''/''"

function comps :: "string \<Rightarrow> string list" where
  "comps path =
     (let p = dropWhile (\<lambda>c. c = slash) path
      in if p = [] then [] else takeWhile (\<lambda>c. c \<noteq> slash) p # comps (dropWhile (\<lambda>c. c \<noteq> slash) p))"
  by pat_completeness auto

lemma dropWhile_shorter: "xs \<noteq> [] \<Longrightarrow> P (hd xs) \<Longrightarrow> length (dropWhile P xs) < length xs"
  using length_dropWhile_le [of P "tl xs"] by (cases xs) auto

lemma hd_dropWhile_slash: "dropWhile (\<lambda>c. c = slash) path \<noteq> [] \<Longrightarrow> hd (dropWhile (\<lambda>c. c = slash) path) \<noteq> slash"
  using hd_dropWhile [of "\<lambda>c. c = slash" path] by blast

termination comps
proof (relation "measure length", rule wf_measure)
  fix path p :: string
  assume p: "p = dropWhile (\<lambda>c. c = slash) path" "p \<noteq> []"
  hence "hd p \<noteq> slash" using hd_dropWhile_slash [of path] by simp
  hence "length (dropWhile (\<lambda>c. c \<noteq> slash) p) < length p" by (rule dropWhile_shorter [OF p(2)])
  also have "length p \<le> length path" unfolding p(1) by (rule length_dropWhile_le)
  finally show "(dropWhile (\<lambda>c. c \<noteq> slash) p, path) \<in> measure length" by simp
qed

declare comps.simps [simp del]

lemma comps_Nil [simp]: "comps [] = []"
  by (simp add: comps.simps)

lemma comps_slashes: "comps (dropWhile (\<lambda>c. c = slash) path) = comps path"
  by (subst (1 2) comps.simps) simp

lemma comps_Cons:
  assumes "path \<noteq> []" "hd path \<noteq> slash"
  shows "comps path = takeWhile (\<lambda>c. c \<noteq> slash) path # comps (dropWhile (\<lambda>c. c = slash) (dropWhile (\<lambda>c. c \<noteq> slash) path))"
proof -
  have "dropWhile (\<lambda>c. c = slash) path = path" using assms by (cases path) auto
  thus ?thesis using assms(1) by (subst comps.simps) (simp add: comps_slashes)
qed

lemma path_element_comps:
  assumes "path \<noteq> []" "hd path \<noteq> slash" "\<forall>c \<in> set (comps path). length c < NODE_MAXLEN"
  shows "\<exists>c cs rest. comps path = c # cs \<and> path_element path = Some (c, rest)
    \<and> (case rest of None \<Rightarrow> cs = [] | Some r \<Rightarrow> comps r = cs \<and> r \<noteq> [] \<and> hd r \<noteq> slash)"
proof -
  define sep where "sep = dropWhile (\<lambda>c. c \<noteq> slash) path"
  define e where "e = takeWhile (\<lambda>c. c \<noteq> slash) path"
  define rest where "rest = dropWhile (\<lambda>c. c = slash) sep"
  have c: "comps path = e # comps rest" using comps_Cons [OF assms(1,2)] unfolding sep_def e_def rest_def .
  have len: "length e < 64" using assms(3) c by simp
  have "e @ sep = path" unfolding sep_def e_def by simp
  hence "sep = [] \<Longrightarrow> path = e" by simp
  hence pe: "path_element path = Some (e, if rest = [] then None else Some rest)"
    unfolding path_element_def Let_def sep_def [symmetric] e_def [symmetric] rest_def [symmetric]
    using len by (auto simp: rest_def)
  have "rest \<noteq> [] \<Longrightarrow> hd rest \<noteq> slash" unfolding rest_def by (rule hd_dropWhile_slash)
  thus ?thesis using c pe by (cases "rest = []") auto
qed

lemma skip_dots_comps:
  assumes "path \<noteq> []" "hd path \<noteq> slash" "\<forall>c \<in> set (comps path). length c < NODE_MAXLEN"
  shows "\<exists>ds c cs rest. comps path = ds @ c # cs \<and> set ds \<subseteq> {''.''} \<and> skip_dots path = Some (c, rest)
    \<and> (case rest of None \<Rightarrow> cs = [] | Some r \<Rightarrow> comps r = cs \<and> r \<noteq> [] \<and> hd r \<noteq> slash \<and> c \<noteq> ''.'')"
  using assms
proof (induction path rule: skip_dots.induct)
  case (1 path)
  obtain c cs rest where c: "comps path = c # cs" "path_element path = Some (c, rest)"
    and r: "case rest of None \<Rightarrow> cs = [] | Some r \<Rightarrow> comps r = cs \<and> r \<noteq> [] \<and> hd r \<noteq> slash"
    using path_element_comps [OF 1(2,3,4)] by blast
  show ?case
  proof (cases rest)
    case None
    thus ?thesis using c r by (subst skip_dots.simps) (auto intro: exI [of _ "[]"])
  next
    case (Some r')
    show ?thesis
    proof (cases "c = ''.''")
      case False
      thus ?thesis using c r Some by (subst skip_dots.simps) (auto intro: exI [of _ "[]"])
    next
      case True
      have "\<forall>c \<in> set (comps r'). length c < 64" using 1(4) c r Some by simp
      then obtain ds c2 cs2 rest2 where i: "comps r' = ds @ c2 # cs2" "set ds \<subseteq> {''.''}" "skip_dots r' = Some (c2, rest2)"
          "case rest2 of None \<Rightarrow> cs2 = [] | Some r \<Rightarrow> comps r = cs2 \<and> r \<noteq> [] \<and> hd r \<noteq> slash \<and> c2 \<noteq> ''.''"
        using 1(1) [OF c(2) refl Some True] r Some by auto
      have "skip_dots path = Some (c2, rest2)" by (subst skip_dots.simps) (simp add: c Some True i(3))
      moreover have "comps path = (c # ds) @ c2 # cs2" using c r Some i(1) by simp
      ultimately show ?thesis using i(2,4) True by (intro exI [of _ "c # ds"]) auto
    qed
  qed
qed

section \<open>Resolution of paths in memory\<close>

definition live :: "('d, 'w) vfs \<Rightarrow> nat \<Rightarrow> bool" where
  "live st v \<longleftrightarrow> vf_node st v \<noteq> None"

definition nd :: "('d, 'w) vfs \<Rightarrow> nat \<Rightarrow> 'd vnode" where
  "nd st v = the (vf_node st v)"

text \<open>
  What a lookup needs to stay in memory: directories are memory directories, links know their
  targets, and parents, mounted roots and link targets exist.
\<close>

definition resident :: "('d, 'w) vfs \<Rightarrow> bool" where
  "resident st \<longleftrightarrow> (\<forall>v n. vf_node st v = Some n \<longrightarrow>
     (vn_type n = VN_DIR \<longrightarrow> vn_flags n AND VN_MEMORY \<noteq> 0)
     \<and> (vn_type n = VN_LNK \<longrightarrow> vn_flags n AND VN_PER_PROCESS = 0 \<and> (vn_target n = None \<longrightarrow> vn_flags n AND VN_MEMORY \<noteq> 0))
     \<and> (vn_type n = VN_MNT \<longrightarrow> vn_target n \<noteq> None)
     \<and> (\<forall>p. vn_parent n = Some p \<longrightarrow> live st p) \<and> (\<forall>t. vn_target n = Some t \<longrightarrow> live st t))"

definition follow :: "('d, 'w) vfs \<Rightarrow> nat \<Rightarrow> int + nat" where
  "follow st v =
     (if vn_type (nd st v) \<noteq> VN_LNK then Inr v
      else (case vn_target (nd st v) of
              None \<Rightarrow> Inl (- ENOENT)
            | Some t \<Rightarrow> if vn_type (nd st t) = VN_LNK then Inl (- ELOOP) else Inr t))"

definition cross_mount :: "('d, 'w) vfs \<Rightarrow> nat \<Rightarrow> nat" where
  "cross_mount st v = (if vn_type (nd st v) = VN_MNT then the (vn_target (nd st v)) else v)"

definition child_named :: "('d, 'w) vfs \<Rightarrow> nat \<Rightarrow> string \<Rightarrow> nat option" where
  "child_named st d name = find (\<lambda>c. vn_name (nd st c) = name) (vn_children (nd st d))"

fun walk :: "('d, 'w) vfs \<Rightarrow> bool \<Rightarrow> nat \<Rightarrow> string list \<Rightarrow> int + nat" where
  "walk st nofollow v [] = Inr v"
| "walk st nofollow v (c # cs) =
     (case follow st v of
        Inl err \<Rightarrow> Inl err
      | Inr t \<Rightarrow>
          let d = cross_mount st t
          in if vn_type (nd st d) \<noteq> VN_DIR then Inl (- ENOTDIR)
             else if c = ''.'' then walk st nofollow d cs
             else if c = ''..'' then walk st nofollow (case vn_parent (nd st d) of None \<Rightarrow> d | Some p \<Rightarrow> p) cs
             else (case child_named st d c of
                     None \<Rightarrow> Inl (- ENOENT)
                   | Some w \<Rightarrow> if cs = [] \<and> \<not> nofollow then follow st w else walk st nofollow w cs))"

lemma walk_dots:
  assumes "vn_type (nd st d) = VN_DIR" "set ds \<subseteq> {''.''}"
  shows "walk st nf d (ds @ cs) = walk st nf d cs"
  using assms(2)
proof (induction ds)
  case (Cons x ds)
  have "follow st d = Inr d" "cross_mount st d = d" using assms(1) by (simp_all add: follow_def cross_mount_def)
  thus ?case using Cons assms(1) by simp
qed simp

lemma find_child_named:
  assumes "\<forall>c \<in> set cs. live st c"
  shows "find_child st name cs = Some (find (\<lambda>c. vn_name (nd st c) = name) cs)"
  using assms by (induction cs) (auto simp: live_def nd_def)

lemma liveD: "live st v \<Longrightarrow> vf_node st v = Some (nd st v)"
  by (auto simp: live_def nd_def)

lemma nd_eq: "vf_node st v = Some n \<Longrightarrow> nd st v = n"
  by (simp add: nd_def)

lemma wf_children_live: "vfs_wf st \<Longrightarrow> live st v \<Longrightarrow> c \<in> set (vn_children (nd st v)) \<Longrightarrow> live st c"
  using wf_child [of st v "nd st v" c] by (auto simp: live_def nd_def)

lemma resident_memory: "resident st \<Longrightarrow> live st v \<Longrightarrow> vn_type (nd st v) = VN_DIR \<Longrightarrow> vn_flags (nd st v) AND VN_MEMORY \<noteq> 0"
  by (auto simp: resident_def live_def nd_def)

lemma resident_link:
  "resident st \<Longrightarrow> live st v \<Longrightarrow> vn_type (nd st v) = VN_LNK \<Longrightarrow> vn_flags (nd st v) AND VN_PER_PROCESS = 0
    \<and> (vn_target (nd st v) = None \<longrightarrow> vn_flags (nd st v) AND VN_MEMORY \<noteq> 0)"
  by (auto simp: resident_def live_def nd_def)

lemma resident_mnt: "resident st \<Longrightarrow> live st v \<Longrightarrow> vn_type (nd st v) = VN_MNT \<Longrightarrow> vn_target (nd st v) \<noteq> None"
  by (auto simp: resident_def live_def nd_def)

lemma resident_parent: "resident st \<Longrightarrow> live st v \<Longrightarrow> vn_parent (nd st v) = Some p \<Longrightarrow> live st p"
  by (auto simp: resident_def live_def nd_def)

lemma resident_target: "resident st \<Longrightarrow> live st v \<Longrightarrow> vn_target (nd st v) = Some t \<Longrightarrow> live st t"
  by (auto simp: resident_def live_def nd_def)

lemma follow_live: "resident st \<Longrightarrow> live st v \<Longrightarrow> follow st v = Inr t \<Longrightarrow> live st t \<and> vn_type (nd st t) \<noteq> VN_LNK"
  by (auto simp: follow_def resident_target split: if_splits option.splits)

lemma cross_mount_live: "resident st \<Longrightarrow> live st v \<Longrightarrow> live st (cross_mount st v)"
  using resident_mnt [of st v] by (auto simp: cross_mount_def resident_target)

lemma child_named_live: "vfs_wf st \<Longrightarrow> live st d \<Longrightarrow> child_named st d name = Some w \<Longrightarrow> live st w"
  unfolding child_named_def by (auto simp: find_Some_iff intro: wf_children_live)

lemma link_resolve_follow:
  assumes "resident st" "live st v" "cnt \<le> 1"
  shows "vfs_exec (Suc k) env ctx (LinkResolveInternal v li cnt) st = Some (follow st v, st)"
proof -
  have "vf_node st v = Some (nd st v)" by (rule liveD [OF assms(2)])
  moreover have "vf_node st t = Some (nd st t)" if "vn_target (nd st v) = Some t" for t
    using resident_target [OF assms(1,2) that] by (rule liveD)
  moreover note resident_link [OF assms(1,2)]
  ultimately show ?thesis using assms(3)
    by (auto simp: vfs_link_resolve_internal_def link_target_def follow_def split: option.splits)
qed

lemma lookup_or_load_named:
  assumes "vfs_wf st" "resident st" "live st d" "vn_type (nd st d) = VN_DIR" "length name < NODE_MAXLEN"
  shows "vfs_lookup_or_load env d name st = Some (case child_named st d name of None \<Rightarrow> Inl (- ENOENT) | Some w \<Rightarrow> Inr w, st)"
proof -
  have "find_child st name (vn_children (nd st d)) = Some (child_named st d name)"
    unfolding child_named_def using wf_children_live [OF assms(1,3)] by (simp add: find_child_named)
  hence "vnode_lookup_child d name st = Some (case child_named st d name of None \<Rightarrow> Inl (- ENOENT) | Some w \<Rightarrow> Inr w)"
    using assms(5) by (simp add: vnode_lookup_child_def liveD [OF assms(3)] split: option.splits)
  thus ?thesis using resident_memory [OF assms(2,3,4)]
    by (simp add: vfs_lookup_or_load_def liveD [OF assms(3)] split: option.splits)
qed

lemma find_internal_walk:
  assumes "vfs_wf st" "resident st" "li = 0 \<or> li = 1"
  shows "live st v \<Longrightarrow> path = [] \<or> hd path \<noteq> slash \<Longrightarrow> \<forall>c \<in> set (comps path). length c < NODE_MAXLEN
    \<Longrightarrow> length (comps path) < k
    \<Longrightarrow> vfs_exec k env ctx (FindInternal (Some v) (Some path) li) st = Some (walk st (li = 1) v (comps path), st)"
proof (induction k arbitrary: v path)
  case (Suc k)
  show ?case
  proof (cases "path = []")
    case True
    thus ?thesis by (simp add: vfs_find_internal_def)
  next
    case False
    hence hd: "hd path \<noteq> slash" using Suc.prems(2) by simp
    hence strip: "dropWhile (\<lambda>c. c = slash) path = path" using False by (cases path) auto
    obtain ds c cs rest where p: "comps path = ds @ c # cs" "set ds \<subseteq> {''.''}" "skip_dots path = Some (c, rest)"
      and r: "case rest of None \<Rightarrow> cs = [] | Some r \<Rightarrow> comps r = cs \<and> r \<noteq> [] \<and> hd r \<noteq> slash \<and> c \<noteq> ''.''"
      using skip_dots_comps [OF False hd Suc.prems(3)] by blast
    have k: "length cs < k" "\<exists>k'. k = Suc k'" using Suc.prems(4) p(1) by (cases k; simp)+
    have len: "length c < 64" "\<forall>c \<in> set cs. length c < 64" using Suc.prems(3) p(1) by auto
    have IH: "vfs_exec k env ctx (FindInternal (Some u) rest li) st = Some (walk st (li = 1) u cs, st)" if "live st u" for u
    proof (cases rest)
      case None
      thus ?thesis using k r by (auto simp: vfs_find_internal_def)
    next
      case (Some r')
      thus ?thesis using Suc.IH [OF that, of r'] r k(1) len(2) by simp
    qed
    have link: "vfs_link_resolve (vfs_exec k env ctx) u li' st = Some (follow st u, st)" if "live st u" "li' \<le> 1" for u li'
      using k(2) link_resolve_follow [OF assms(2) that] by (auto simp: vfs_link_resolve_def)
    have final: "find_final (vfs_exec k env ctx) w li st = Some (if li = 1 then Inr w else follow st w, st)" if "live st w" for w
    proof -
      have "vf_node st x = Some (nd st x) \<and> vn_type (nd st x) \<noteq> VN_LNK" if "follow st w = Inr x" for x
        using follow_live [OF assms(2) \<open>live st w\<close> that] by (simp add: liveD)
      moreover have "(if vn_type (nd st w) = VN_LNK then vfs_link_resolve (vfs_exec k env ctx) w 0 st else Some (Inr w, st))
          = Some (follow st w, st)"
        using link [OF that, of 0] by (cases "vn_type (nd st w) = VN_LNK") (simp_all add: follow_def)
      ultimately show ?thesis using assms(3) by (cases "follow st w") (auto simp: find_final_def liveD [OF that])
    qed
    have dir: "find_in_dir (vfs_exec k env ctx) env d (nd st d) path li st = Some (walk st (li = 1) d (comps path), st)"
      if d: "live st d" "vn_type (nd st d) = VN_DIR" for d
    proof -
      have f: "follow st d = Inr d" "cross_mount st d = d" using d(2) by (simp_all add: follow_def cross_mount_def)
      have w: "walk st (li = 1) d (comps path) = walk st (li = 1) d (c # cs)"
        unfolding p(1) by (rule walk_dots [OF d(2) p(2)])
      have up: "live st (case vn_parent (nd st d) of None \<Rightarrow> d | Some p \<Rightarrow> p)"
        using d(1) resident_parent [OF assms(2) d(1)] by (auto split: option.splits)
      have dot: "c = ''.'' \<Longrightarrow> cs = []" using r by (auto split: option.splits)
      have nil: "(rest = None) = (cs = [])" using r comps_Cons by (auto split: option.splits)
      show ?thesis
        using lookup_or_load_named [OF assms(1,2) d len(1), of env] IH [OF up] dot nil
          child_named_live [OF assms(1) d(1), of c] final IH assms(3)
        by (auto simp: find_in_dir_def strip p(3) w f d(2) split: option.splits)
    qed
    show ?thesis
    proof (cases "follow st v")
      case (Inl err)
      hence "vn_type (nd st v) = VN_LNK" by (auto simp: follow_def split: if_splits)
      thus ?thesis using link [OF Suc.prems(1), of li] Inl False assms(3) p(1)
        by (cases ds) (auto simp: vfs_find_internal_def liveD [OF Suc.prems(1)])
    next
      case (Inr t)
      note t = follow_live [OF assms(2) Suc.prems(1) Inr]
      have cm: "(if vn_type (nd st t) = VN_MNT then vn_target (nd st t) else Some t) = Some (cross_mount st t)"
        using resident_mnt [OF assms(2)] t by (auto simp: cross_mount_def)
      have cl: "live st (cross_mount st t)" using cross_mount_live [OF assms(2)] t by simp
      have start: "(if vn_type (nd st v) = VN_LNK then vfs_link_resolve (vfs_exec k env ctx) v li st else Some (Inr v, st))
          = Some (Inr t, st)"
        using link [OF Suc.prems(1), of li] Inr assms(3) by (auto simp: follow_def)
      have body: "vfs_exec (Suc k) env ctx (FindInternal (Some v) (Some path) li) st =
          (if vn_type (nd st (cross_mount st t)) \<noteq> VN_DIR then Some (Inl (- ENOTDIR), st)
           else find_in_dir (vfs_exec k env ctx) env (cross_mount st t) (nd st (cross_mount st t)) path li st)"
        using False t by (simp add: vfs_find_internal_def liveD [OF Suc.prems(1)] start liveD cm liveD [OF cl])
      have walk: "walk st (li = 1) v (comps path) =
          (if vn_type (nd st (cross_mount st t)) \<noteq> VN_DIR then Inl (- ENOTDIR) else walk st (li = 1) (cross_mount st t) (comps path))"
      proof -
        obtain x xs where x: "comps path = x # xs" using p(1) by (cases ds) auto
        have "follow st (cross_mount st t) = Inr (cross_mount st t)" "cross_mount st (cross_mount st t) = cross_mount st t"
          if "vn_type (nd st (cross_mount st t)) = VN_DIR"
          using that by (simp_all add: follow_def cross_mount_def [of st "cross_mount st t"])
        thus ?thesis unfolding x by (simp add: Inr)
      qed
      show ?thesis using body walk dir [OF cl] by simp
    qed
  qed
qed simp

lemma walk_live:
  assumes "vfs_wf st" "resident st"
  shows "live st v \<Longrightarrow> walk st nf v cs = Inr r \<Longrightarrow> live st r"
proof (induction cs arbitrary: v)
  case (Cons c cs)
  obtain t where t: "follow st v = Inr t" using Cons.prems(2) by (cases "follow st v") auto
  define d where "d = cross_mount st t"
  have d: "live st d" unfolding d_def
    using cross_mount_live [OF assms(2)] follow_live [OF assms(2) Cons.prems(1) t] by blast
  have up: "live st (case vn_parent (nd st d) of None \<Rightarrow> d | Some p \<Rightarrow> p)"
    using d resident_parent [OF assms(2) d] by (auto split: option.splits)
  have ch: "live st w" if "child_named st d c = Some w" for w by (rule child_named_live [OF assms(1) d that])
  have fl: "live st r" if "live st w" "follow st w = Inr r" for w using follow_live [OF assms(2) that] by blast
  show ?case using Cons.prems(2) Cons.IH [OF d] Cons.IH [OF up] Cons.IH [OF ch] fl [OF ch]
    by (auto simp: t d_def [symmetric] Let_def split: if_splits option.splits)
qed simp

definition path_start :: "('d, 'w) vfs \<Rightarrow> vfs_ioctx \<Rightarrow> nat option \<Rightarrow> string \<Rightarrow> nat" where
  "path_start st ctx rel path =
     (if path \<noteq> [] \<and> hd path = slash then the (vf_root st)
      else (case rel of Some r \<Rightarrow> r | None \<Rightarrow> (case cwd_vnode ctx of Some r \<Rightarrow> r | None \<Rightarrow> the (vf_root st))))"

definition resolve_path :: "('d, 'w) vfs \<Rightarrow> vfs_ioctx \<Rightarrow> nat option \<Rightarrow> string \<Rightarrow> bool \<Rightarrow> int + nat" where
  "resolve_path st ctx rel path nofollow =
     (case walk st nofollow (path_start st ctx rel path) (comps path) of
        Inl err \<Rightarrow> Inl err | Inr r \<Rightarrow> Inr (cross_mount st r))"

definition lookup_ready :: "('d, 'w) vfs \<Rightarrow> vfs_ioctx \<Rightarrow> nat option \<Rightarrow> string \<Rightarrow> bool" where
  "lookup_ready st ctx rel path \<longleftrightarrow> vfs_wf st \<and> resident st \<and> vf_root st \<noteq> None
     \<and> live st (path_start st ctx rel path) \<and> (\<forall>c \<in> set (comps path). length c < NODE_MAXLEN)"

lemma vfs_find_walk:
  assumes "lookup_ready st ctx rel path" "li = 0 \<or> li = 1" "length (comps path) + 2 \<le> k"
  shows "vfs_find k env ctx rel path li st = Some (resolve_path st ctx rel path (li = 1), st)"
proof -
  obtain k' where k: "k = Suc k'" "length (comps path) < k'" using assms(3) by (cases k) auto
  obtain root where root: "vf_root st = Some root" using assms(1) by (auto simp: lookup_ready_def)
  have wf: "vfs_wf st" "resident st" using assms(1) by (simp_all add: lookup_ready_def)
  let ?s = "path_start st ctx rel path"
  let ?p = "if path \<noteq> [] \<and> hd path = slash then dropWhile (\<lambda>c. c = slash) path else path"
  have p: "comps ?p = comps path" "?p = [] \<or> hd ?p \<noteq> slash"
    using hd_dropWhile_slash [of path] by (auto simp: comps_slashes)
  have ls: "live st ?s" "\<forall>c \<in> set (comps ?p). length c < 64" using assms(1) p(1) by (simp_all add: lookup_ready_def)
  have w: "vfs_exec k' env ctx (FindInternal (Some ?s) (Some ?p) li) st = Some (walk st (li = 1) ?s (comps path), st)"
    using find_internal_walk [OF wf assms(2) ls(1) p(2) ls(2)] k(2) unfolding p(1) by blast
  have call: "vfs_find k env ctx rel path li st = do {
      (res, st) \<leftarrow> vfs_exec k' env ctx (FindInternal (Some ?s) (Some ?p) li) st;
      (case res of
             Inl err \<Rightarrow> Some (Inl err, st)
           | Inr r \<Rightarrow> do {
               rn \<leftarrow> vf_node st r;
               r \<leftarrow> (if vn_type rn = VN_MNT then vn_target rn else Some r);
               Some (Inr r, st)
             })
    }"
    by (simp add: vfs_find_def k(1) vfs_find_body_def root path_start_def Let_def split: option.splits)
  show ?thesis
  proof (cases "walk st (li = 1) ?s (comps path)")
    case (Inl e)
    thus ?thesis by (simp add: call w resolve_path_def)
  next
    case (Inr r)
    have r: "live st r" by (rule walk_live [OF wf ls(1) Inr])
    have "(if vn_type (nd st r) = VN_MNT then vn_target (nd st r) else Some r) = Some (cross_mount st r)"
      using resident_mnt [OF wf(2) r] by (auto simp: cross_mount_def)
    thus ?thesis using Inr by (simp add: call w resolve_path_def liveD [OF r])
  qed
qed

section \<open>Paths of vnodes\<close>

definition plain_name :: "string \<Rightarrow> bool" where
  "plain_name s \<longleftrightarrow> s \<noteq> [] \<and> slash \<notin> set s \<and> s \<noteq> ''.'' \<and> s \<noteq> ''..''"

definition mount_root_node :: "'d vnode \<Rightarrow> bool" where
  "mount_root_node n \<longleftrightarrow> vn_type n = VN_DIR \<and> vn_target n \<noteq> None"

text \<open>The directory entry of a vnode: itself, or the mount point if it is the root of a mounted filesystem.\<close>

definition entry_of :: "('d, 'w) vfs \<Rightarrow> nat \<Rightarrow> nat" where
  "entry_of st v = (if mount_root_node (nd st v) then the (vn_target (nd st v)) else v)"

definition path_tree :: "('d, 'w) vfs \<Rightarrow> bool" where
  "path_tree st \<longleftrightarrow> (\<forall>v n p. vf_node st v = Some n \<longrightarrow> vn_parent n = Some p \<longrightarrow> vn_type n \<notin> {VN_LNK, VN_MNT} \<longrightarrow>
     (let e = entry_of st v; name = vn_name (nd st e)
      in live st e \<and> vn_type (nd st p) = VN_DIR \<and> plain_name name \<and> child_named st p name = Some e
         \<and> cross_mount st e = v \<and> vn_type (nd st e) \<noteq> VN_LNK))"

fun descends :: "('d, 'w) vfs \<Rightarrow> nat \<Rightarrow> nat list \<Rightarrow> nat \<Rightarrow> bool" where
  "descends st d [] v = (v = d)"
| "descends st d (u # us) v = (live st u \<and> vn_parent (nd st u) = Some d \<and> vn_type (nd st u) \<notin> {VN_LNK, VN_MNT} \<and> descends st u us v)"

lemma descends_snoc:
  "descends st d (us @ [u]) v = (\<exists>w. descends st d us w \<and> u = v \<and> live st v \<and> vn_parent (nd st v) = Some w \<and> vn_type (nd st v) \<notin> {VN_LNK, VN_MNT})"
  by (induction us arbitrary: d) auto

lemma path_treeD:
  assumes "path_tree st" "live st v" "vn_parent (nd st v) = Some p" "vn_type (nd st v) \<notin> {VN_LNK, VN_MNT}"
  shows "live st (entry_of st v)" "vn_type (nd st p) = VN_DIR" "plain_name (vn_name (nd st (entry_of st v)))"
    "child_named st p (vn_name (nd st (entry_of st v))) = Some (entry_of st v)" "cross_mount st (entry_of st v) = v"
    "vn_type (nd st (entry_of st v)) \<noteq> VN_LNK"
  using assms(1) [unfolded path_tree_def, rule_format, OF liveD [OF assms(2)] assms(3,4)] by (simp_all add: Let_def)

abbreviation entry_names :: "('d, 'w) vfs \<Rightarrow> nat list \<Rightarrow> string list" where
  "entry_names st us \<equiv> map (\<lambda>u. vn_name (nd st (entry_of st u))) us"

lemma backstack_descends:
  assumes "live st root" "vn_parent (nd st root) = None"
  shows "descends st root us v \<Longrightarrow> length us \<le> room \<Longrightarrow> path_backstack room st v acc = Some (us @ acc)"
proof (induction us arbitrary: v room acc rule: rev_induct)
  case Nil
  thus ?case using assms by (subst path_backstack.simps) (simp add: liveD)
next
  case (snoc u us)
  obtain w where w: "descends st root us w" "u = v" "live st v" "vn_parent (nd st v) = Some w"
    using snoc.prems(1) by (auto simp: descends_snoc)
  obtain r where r: "room = Suc r" "length us \<le> r" using snoc.prems(2) by (cases room) auto
  show ?case using snoc.IH [OF w(1) r(2)] w r
    by (subst path_backstack.simps) (simp add: liveD)
qed

lemma path_items_names:
  assumes "path_tree st" "descends st d us v"
  shows "path_items st us = Some (concat (map (\<lambda>s. slash # s) (entry_names st us)))"
  using assms(2)
proof (induction us arbitrary: d)
  case (Cons u us)
  have u: "live st u" "vn_parent (nd st u) = Some d" "vn_type (nd st u) \<notin> {VN_LNK, VN_MNT}" using Cons.prems by simp_all
  have "path_item_name st u = Some (vn_name (nd st (entry_of st u)))"
    using liveD [OF path_treeD(1) [OF assms(1) u]] liveD [OF u(1)]
    by (auto simp: path_item_name_def entry_of_def mount_root_node_def split: option.splits if_splits)
  thus ?case using Cons.IH [of u] Cons.prems by simp
qed simp

lemma comps_names:
  "\<forall>s \<in> set ss. plain_name s \<Longrightarrow> comps (concat (map (\<lambda>s. slash # s) ss)) = ss"
proof (induction ss)
  case (Cons s ss)
  define tail where "tail = concat (map (\<lambda>s. slash # s) ss)"
  have s: "s \<noteq> []" "slash \<notin> set s" using Cons.prems by (simp_all add: plain_name_def)
  have hd: "hd s \<noteq> slash" using s by (cases s) auto
  have t: "tail = [] \<or> hd tail = slash" unfolding tail_def by (cases ss) auto
  have all: "\<And>c. c \<in> set s \<Longrightarrow> c \<noteq> slash" using s(2) by blast
  have tw: "takeWhile (\<lambda>c. c \<noteq> slash) (s @ tail) = s"
    using all t by (cases tail) (simp_all add: takeWhile_append2)
  have dw: "dropWhile (\<lambda>c. c \<noteq> slash) (s @ tail) = tail"
    using all t by (cases tail) (simp_all add: dropWhile_append2)
  have "comps (slash # s @ tail) = comps (s @ tail)"
    using comps_slashes [of "slash # s @ tail"] comps_slashes [of "s @ tail"] by simp
  also have "\<dots> = s # comps tail"
    using comps_Cons [of "s @ tail"] s(1) hd tw dw by (simp add: comps_slashes)
  finally show ?case using Cons by (simp add: tail_def)
qed simp

lemma walk_descends:
  assumes "path_tree st"
  shows "us \<noteq> [] \<Longrightarrow> descends st d us v \<Longrightarrow> cross_mount st e = d \<Longrightarrow> vn_type (nd st e) \<noteq> VN_LNK
    \<Longrightarrow> walk st False e (entry_names st us) = Inr (entry_of st v)"
proof (induction us arbitrary: d e)
  case (Cons u us)
  have u: "live st u" "vn_parent (nd st u) = Some d" "vn_type (nd st u) \<notin> {VN_LNK, VN_MNT}" "descends st u us v"
    using Cons.prems by simp_all
  note t = path_treeD [OF assms u(1-3)]
  have f: "follow st e = Inr e" "follow st (entry_of st u) = Inr (entry_of st u)"
    using Cons.prems(4) t(6) by (simp_all add: follow_def)
  show ?case
  proof (cases "us = []")
    case True
    thus ?thesis using u t f Cons.prems(3) by (simp add: plain_name_def)
  next
    case False
    thus ?thesis using Cons.IH [OF False u(4) t(5,6)] t f Cons.prems(3) by (simp add: plain_name_def)
  qed
qed simp

section \<open>Properties\<close>

text \<open>A small tree for examples: \<open>/mnt\<close> holds a mounted filesystem with a file \<open>a\<close>, \<open>/l\<close> is a link to \<open>/mnt\<close>.\<close>

definition sample_node :: "vnode_type \<Rightarrow> string \<Rightarrow> nat option \<Rightarrow> nat list \<Rightarrow> nat option \<Rightarrow> unit vnode" where
  "sample_node t name parent children target =
     \<lparr>vn_type = t, vn_name = name, vn_flags = VN_MEMORY, vn_children = children, vn_parent = parent,
      vn_target = target, vn_open_count = 0, vn_ino = 0, vn_gid = 0, vn_uid = 0, vn_mode = 0x1ED,
      vn_fs = None, vn_data = None, vn_dev = None, vn_op = None\<rparr>"

definition sample_nodes :: "nat \<Rightarrow> unit vnode option" where
  "sample_nodes =
     [1 \<mapsto> sample_node VN_DIR [] None [2, 5] None,
      2 \<mapsto> sample_node VN_MNT ''mnt'' (Some 1) [] (Some 3),
      3 \<mapsto> sample_node VN_DIR [] (Some 1) [4] (Some 2),
      4 \<mapsto> sample_node VN_REG ''a'' (Some 3) [] None,
      5 \<mapsto> sample_node VN_LNK ''l'' (Some 1) [] (Some 3)]"

definition sample_vfs :: "(unit, unit) vfs" where
  "sample_vfs = \<lparr>vf_node = sample_nodes, vf_next = 6, vf_root = Some 1, vf_fs = Map.empty, vf_fs_next = 0,
     vf_classes = [], vf_mounts = [], vf_busy = (\<lambda>_. False), vf_world = ()\<rparr>"

definition root_ctx :: vfs_ioctx where
  "root_ctx = \<lparr>cwd_vnode = None, io_umask = 0x12, io_uid = 0, io_gid = 0\<rparr>"

lemmas sample_defs = sample_vfs_def sample_nodes_def sample_node_def

lemma sample_node_cases:
  assumes "vf_node sample_vfs v = Some n"
  shows "v = 1 \<and> n = sample_node VN_DIR [] None [2, 5] None
    \<or> v = 2 \<and> n = sample_node VN_MNT ''mnt'' (Some 1) [] (Some 3)
    \<or> v = 3 \<and> n = sample_node VN_DIR [] (Some 1) [4] (Some 2)
    \<or> v = 4 \<and> n = sample_node VN_REG ''a'' (Some 3) [] None
    \<or> v = 5 \<and> n = sample_node VN_LNK ''l'' (Some 1) [] (Some 3)"
  using assms by (auto simp: sample_vfs_def sample_nodes_def split: if_splits)

lemma sample_at [simp]:
  "vf_node sample_vfs 1 = Some (sample_node VN_DIR [] None [2, 5] None)"
  "vf_node sample_vfs (Suc 0) = Some (sample_node VN_DIR [] None [2, 5] None)"
  "vf_node sample_vfs 2 = Some (sample_node VN_MNT ''mnt'' (Some 1) [] (Some 3))"
  "vf_node sample_vfs 3 = Some (sample_node VN_DIR [] (Some 1) [4] (Some 2))"
  "vf_node sample_vfs 4 = Some (sample_node VN_REG ''a'' (Some 3) [] None)"
  "vf_node sample_vfs 5 = Some (sample_node VN_LNK ''l'' (Some 1) [] (Some 3))"
  "vf_next sample_vfs = 6" "vf_root sample_vfs = Some 1"
  by (simp_all add: sample_vfs_def sample_nodes_def)

lemma sample_node_simps [simp]:
  "vn_type (sample_node t s p c g) = t" "vn_name (sample_node t s p c g) = s"
  "vn_parent (sample_node t s p c g) = p" "vn_children (sample_node t s p c g) = c"
  "vn_target (sample_node t s p c g) = g" "vn_flags (sample_node t s p c g) = VN_MEMORY"
  by (simp_all add: sample_node_def)

lemma sample_live [simp]: "live sample_vfs 1" "live sample_vfs (Suc 0)" "live sample_vfs 2" "live sample_vfs 3" "live sample_vfs 4" "live sample_vfs 5"
  by (simp_all add: live_def)

lemma sample_nd [simp]:
  "nd sample_vfs 1 = sample_node VN_DIR [] None [2, 5] None"
  "nd sample_vfs (Suc 0) = sample_node VN_DIR [] None [2, 5] None"
  "nd sample_vfs 2 = sample_node VN_MNT ''mnt'' (Some 1) [] (Some 3)"
  "nd sample_vfs 3 = sample_node VN_DIR [] (Some 1) [4] (Some 2)"
  "nd sample_vfs 4 = sample_node VN_REG ''a'' (Some 3) [] None"
  "nd sample_vfs 5 = sample_node VN_LNK ''l'' (Some 1) [] (Some 3)"
  by (simp_all add: nd_def)

lemma sample_wf: "vfs_wf sample_vfs"
  by (rule wfI) (auto dest!: sample_node_cases)

lemma sample_resident: "resident sample_vfs"
  unfolding resident_def by (auto dest!: sample_node_cases simp: flag_simps)

lemma sample_tree: "path_tree sample_vfs"
  unfolding path_tree_def
  by (auto dest!: sample_node_cases simp: Let_def entry_of_def mount_root_node_def plain_name_def child_named_def cross_mount_def)




lemma entry_names_plain:
  assumes "vfs_wf st" "path_tree st" "descends st root us v"
  shows "\<forall>s \<in> set (entry_names st us). plain_name s \<and> length s < 64"
  using assms(3)
proof (induction us arbitrary: root)
  case (Cons u us)
  thus ?case using Cons.IH [of u] path_treeD(1,3) [OF assms(2), of u root] wf_basic(3) [OF assms(1) liveD] by simp
qed simp

text \<open>
  C27: A vnode's path leads back to it. For a vnode at most sixteen levels below the root that is not a link
  and is not reached through one, also across mounted filesystems, \<open>vfs_vnode_path\<close> returns a path, and looking that path up finds the vnode,
  provided names are proper file names that are unique in their directory.
\<close>

theorem vnode_path_roundtrip:
  assumes "vfs_wf st" "resident st" "path_tree st"
    and "vf_root st = Some root" "live st root" "vn_type (nd st root) = VN_DIR" "vn_parent (nd st root) = None"
    and "descends st root us v" "length us \<le> 16" "18 \<le> k"
  shows "\<exists>path. vfs_vnode_path st (Some v) = Some path \<and> vfs_find k env ctx rel path 0 st = Some (Inr v, st)"
proof (cases "us = []")
  case True
  hence v: "v = root" using assms(8) by simp
  have c: "comps ''/'' = []" by (simp add: comps.simps)
  have "lookup_ready st ctx rel ''/''" using assms(1,2,4,5) by (simp add: lookup_ready_def c path_start_def)
  hence "vfs_find k env ctx rel ''/'' 0 st = Some (resolve_path st ctx rel ''/'' False, st)"
    using vfs_find_walk [of st ctx rel "''/''" 0 k env] c assms(10) by simp
  moreover have "resolve_path st ctx rel ''/'' False = Inr v"
    by (simp add: resolve_path_def c path_start_def assms(4,6) v cross_mount_def)
  ultimately show ?thesis using assms(5,7) by (simp add: vfs_vnode_path_def v liveD)
next
  case False
  define path where "path = concat (map (\<lambda>s. slash # s) (entry_names st us))"
  have "live st v \<and> vn_parent (nd st v) \<noteq> None"
    using assms(8) False by (cases us rule: rev_cases) (auto simp: descends_snoc)
  hence vp: "vfs_vnode_path st (Some v) = Some path"
    using backstack_descends [OF assms(5,7,8), of 16 "[]"] assms(9) path_items_names [OF assms(3,8)]
    by (auto simp: vfs_vnode_path_def liveD path_def)
  have names: "\<forall>s \<in> set (entry_names st us). plain_name s \<and> length s < 64"
    by (rule entry_names_plain [OF assms(1,3,8)])
  have c: "comps path = entry_names st us" unfolding path_def using names by (intro comps_names) blast
  have h: "path \<noteq> []" "hd path = slash" using False by (cases us; simp add: path_def)+
  have s: "path_start st ctx rel path = root" using h assms(4) by (simp add: path_start_def)
  have "lookup_ready st ctx rel path" using assms(1,2,4,5) names by (simp add: lookup_ready_def c s)
  hence "vfs_find k env ctx rel path 0 st = Some (resolve_path st ctx rel path False, st)"
    using vfs_find_walk [of st ctx rel path 0 k env] c assms(9,10) by simp
  moreover have "resolve_path st ctx rel path False = Inr v"
  proof -
    have "cross_mount st root = root" using assms(6) by (simp add: cross_mount_def)
    hence "walk st False root (entry_names st us) = Inr (entry_of st v)"
      using walk_descends [OF assms(3) False assms(8)] assms(6) by simp
    moreover have "cross_mount st (entry_of st v) = v"
      using assms(8) False path_treeD(5) [OF assms(3)] by (cases us rule: rev_cases) (auto simp: descends_snoc)
    ultimately show ?thesis by (simp add: resolve_path_def c s)
  qed
  ultimately show ?thesis using vp by simp
qed

theorem vnode_path_roundtrip_witness:
  "vfs_vnode_path sample_vfs (Some 4) = Some ''/mnt/a''
   \<and> (\<forall>env. vfs_find 18 env root_ctx None ''/mnt/a'' 0 sample_vfs = Some (Inr 4, sample_vfs))"
proof -
  have "vfs_vnode_path sample_vfs (Some 4) = Some ''/mnt/a''"
    by (simp add: vfs_vnode_path_def path_item_name_def path_backstack.simps)
  thus ?thesis
    using vnode_path_roundtrip [OF sample_wf sample_resident sample_tree, of 1 "[3, 4]" 4 18 _ root_ctx None] by simp
qed

end
