(* ===== verification/Vfs_Ops.thy ===== *)
theory Vfs_Ops
  imports Vfs_Path
begin

text \<open>
  The file operations behind the system calls (src/fs/vfs_ops.c) and the reference counts of open
  files (src/fs/ofile.c). Every routine takes the open file and the vnode store and returns both,
  with the code the C function returns. The first argument of the routines that resolve a path is
  the depth bound of \<open>vfs_find\<close>.
\<close>

abbreviation O_EXEC :: "32 word" where "O_EXEC \<equiv> BIT 2"
abbreviation (input) O_ACCMODE :: "32 word" where "O_ACCMODE \<equiv> 3"
abbreviation (input) O_RDONLY :: "32 word" where "O_RDONLY \<equiv> 0"
abbreviation (input) O_WRONLY :: "32 word" where "O_WRONLY \<equiv> 1"
abbreviation (input) O_RDWR :: "32 word" where "O_RDWR \<equiv> 2"
abbreviation O_CREAT :: "32 word" where "O_CREAT \<equiv> BIT 6"
abbreviation O_TRUNC :: "32 word" where "O_TRUNC \<equiv> BIT 9"
abbreviation O_DIRECTORY :: "32 word" where "O_DIRECTORY \<equiv> BIT 16"
abbreviation O_CLOEXEC :: "32 word" where "O_CLOEXEC \<equiv> BIT 19"
abbreviation AT_SYMLINK_NOFOLLOW :: "32 word" where "AT_SYMLINK_NOFOLLOW \<equiv> BIT 0"
abbreviation AT_EMPTY_PATH :: "32 word" where "AT_EMPTY_PATH \<equiv> BIT 1"
abbreviation AT_REMOVEDIR :: "32 word" where "AT_REMOVEDIR \<equiv> BIT 2"

abbreviation (input) DT_UNKNOWN :: nat where "DT_UNKNOWN \<equiv> 0"
abbreviation (input) DT_DIR :: nat where "DT_DIR \<equiv> 4"
abbreviation (input) DT_REG :: nat where "DT_REG \<equiv> 8"
abbreviation (input) DIRENT_SIZE :: nat where "DIRENT_SIZE \<equiv> 12"

definition ofile_is_socket :: "ofile \<Rightarrow> bool" where
  "ofile_is_socket fd = (of_flags fd AND OF_SOCKET \<noteq> 0)"

definition vfs_open_mode :: "32 word \<Rightarrow> 32 word" where
  "vfs_open_mode opt =
     (let r = (if opt AND O_EXEC \<noteq> 0 then X_OK else 0);
          acc = opt AND O_ACCMODE
      in if acc = O_WRONLY then r OR W_OK
         else if acc = O_RDONLY then r OR R_OK
         else if acc = O_RDWR then r OR (W_OK OR R_OK)
         else r)"

definition vfs_path_parent :: "string \<Rightarrow> (string \<times> string) kern" where
  "vfs_path_parent input =
     (if CHR ''/'' \<notin> set input then Some (''.'', input)
      else let name = rev (takeWhile (\<lambda>c. c \<noteq> CHR ''/'') (rev input));
               p = length input - Suc (length name)
           in if p = 0 then Some (''/'', name)
              else do {
                kassert (p < PATH_MAX);
                Some (take p input, name)
              })"

section \<open>Directories\<close>

definition vfs_opendir :: "('d, 'w) vfs_env \<Rightarrow> ofile \<Rightarrow> ('d, 'w) vfs \<Rightarrow> (int \<times> ofile \<times> ('d, 'w) vfs) kern" where
  "vfs_opendir env fd st = do {
     kassert (\<not> ofile_is_socket fd);
     node \<leftarrow> of_vnode fd;
     n \<leftarrow> vf_node st node;
     (if vn_type n \<noteq> VN_DIR then Some (- ENOTDIR, fd, st)
      else if vn_flags n AND VN_MEMORY \<noteq> 0 then
        Some (0, fd\<lparr>of_flags := of_flags fd OR (OF_MEMDIR OR OF_MEMDIR_DOT),
                    of_pos := (case vn_children n of [] \<Rightarrow> 0 | c # _ \<Rightarrow> c)\<rparr>,
              upd_node node (vn_open_count_update (\<lambda>c. c + 1)) st)
      else (case vn_oper env n vo_opendir of
              None \<Rightarrow> Some (- EINVAL, fd, st)
            | Some opendir \<Rightarrow> do {
                (res, fd, st) \<leftarrow> opendir fd st;
                (if res \<noteq> 0 then Some (res, fd, st)
                 else do {
                   n \<leftarrow> vf_node st node;
                   Some (0, fd, upd_node node (vn_open_count_update (\<lambda>c. c + 1)) st)
                 })
              }))
   }"

definition next_child :: "('d, 'w) vfs \<Rightarrow> nat \<Rightarrow> nat" where
  "next_child st item =
     (case vf_node st item of
        None \<Rightarrow> 0
      | Some n \<Rightarrow>
     (case vn_parent n of
        None \<Rightarrow> 0
      | Some p \<Rightarrow>
     (case vf_node st p of
        None \<Rightarrow> 0
      | Some pn \<Rightarrow>
     (case tl (dropWhile (\<lambda>c. c \<noteq> item) (vn_children pn)) of [] \<Rightarrow> 0 | c # _ \<Rightarrow> c))))"

definition dirent_type :: "vnode_type \<Rightarrow> nat" where
  "dirent_type t = (case t of VN_REG \<Rightarrow> DT_REG | VN_DIR \<Rightarrow> DT_DIR | VN_MNT \<Rightarrow> DT_DIR | _ \<Rightarrow> DT_UNKNOWN)"

definition vfs_readdir ::
  "('d, 'w) vfs_env \<Rightarrow> ofile \<Rightarrow> ('d, 'w) vfs \<Rightarrow> (int \<times> dirent option \<times> ofile \<times> ('d, 'w) vfs) kern" where
  "vfs_readdir env fd st = do {
     kassert (\<not> ofile_is_socket fd);
     (if of_flags fd AND OF_DIRECTORY = 0 then Some (- ENOTDIR, None, fd, st)
      else if of_flags fd AND OF_MEMDIR \<noteq> 0 then
        if of_flags fd AND OF_MEMDIR_DOT \<noteq> 0 then do {
          node \<leftarrow> of_vnode fd;
          n \<leftarrow> vf_node st node;
          Some (int DIRENT_SIZE + 1,
                Some \<lparr>d_ino = vn_ino n, d_off = 0, d_reclen = DIRENT_SIZE + 1, d_type = DT_DIR, d_name = ''.''\<rparr>,
                fd\<lparr>of_flags := (of_flags fd AND NOT OF_MEMDIR_DOT) OR OF_MEMDIR_DOTDOT\<rparr>, st)
        }
        else if of_flags fd AND OF_MEMDIR_DOTDOT \<noteq> 0 then do {
          node \<leftarrow> of_vnode fd;
          n \<leftarrow> vf_node st node;
          n \<leftarrow> (case vn_parent n of None \<Rightarrow> Some n | Some p \<Rightarrow> vf_node st p);
          Some (int DIRENT_SIZE + 2,
                Some \<lparr>d_ino = vn_ino n, d_off = 0, d_reclen = DIRENT_SIZE + 2, d_type = DT_DIR, d_name = ''..''\<rparr>,
                fd\<lparr>of_flags := of_flags fd AND NOT OF_MEMDIR_DOTDOT\<rparr>, st)
        }
        else if of_pos fd = 0 then Some (- 1, None, fd, st)
        else do {
          item \<leftarrow> vf_node st (of_pos fd);
          let reclen = DIRENT_SIZE + length (vn_name item);
          Some (int reclen,
                Some \<lparr>d_ino = vn_ino item, d_off = 0, d_reclen = reclen, d_type = dirent_type (vn_type item),
                      d_name = vn_name item\<rparr>,
                fd\<lparr>of_pos := next_child st (of_pos fd)\<rparr>, st)
        }
      else do {
        node \<leftarrow> of_vnode fd;
        n \<leftarrow> vf_node st node;
        readdir \<leftarrow> vn_oper env n vo_readdir;
        readdir fd st
      })
   }"

section \<open>Opening and closing\<close>

definition open_flags :: "32 word \<Rightarrow> 32 word" where
  "open_flags opt =
     (let acc = opt AND O_ACCMODE;
          f = (if acc = O_RDONLY then OF_READABLE
               else if acc = O_WRONLY then OF_WRITABLE
               else if acc = O_RDWR then OF_READABLE OR OF_WRITABLE
               else 0)
      in if opt AND O_CLOEXEC \<noteq> 0 then f OR OF_CLOEXEC else f)"

definition open_truncate :: "('d, 'w) vfs_env \<Rightarrow> nat \<Rightarrow> 32 word \<Rightarrow> ('d, 'w) vfs \<Rightarrow> (int \<times> ('d, 'w) vfs) kern" where
  "open_truncate env node opt st =
     (if opt AND O_TRUNC = 0 then Some (0, st)
      else do {
        n \<leftarrow> vf_node st node;
        (case vn_oper env n vo_truncate of
           None \<Rightarrow> Some (- EINVAL, st)
         | Some trunc \<Rightarrow> trunc node 0 st)
      })"

definition open_finish ::
  "('d, 'w) vfs_env \<Rightarrow> ofile \<Rightarrow> nat \<Rightarrow> 32 word \<Rightarrow> ('d, 'w) vfs \<Rightarrow> (int \<times> ofile \<times> ('d, 'w) vfs) kern" where
  "open_finish env fd node opt st = do {
     kassert ((opt AND NOT O_ACCMODE) AND NOT (O_CLOEXEC OR O_CREAT OR O_TRUNC) = 0);
     let fd = fd\<lparr>of_pos := 0, of_vnode := Some node, of_flags := open_flags opt\<rparr>;
     n \<leftarrow> vf_node st node;
     (res, fd, st) \<leftarrow> (case vn_oper env n vo_open of None \<Rightarrow> Some (0, fd, st) | Some open \<Rightarrow> open fd opt st);
     (if res \<noteq> 0 then Some (res, fd, st)
      else do {
        v \<leftarrow> of_vnode fd;
        vn \<leftarrow> vf_node st v;
        Some (0, fd, upd_node v (vn_open_count_update (\<lambda>c. c + 1)) st)
      })
   }"

definition vfs_open_vnode ::
  "('d, 'w) vfs_env \<Rightarrow> vfs_ioctx \<Rightarrow> ofile \<Rightarrow> nat \<Rightarrow> 32 word \<Rightarrow> ('d, 'w) vfs \<Rightarrow> (int \<times> ofile \<times> ('d, 'w) vfs) kern" where
  "vfs_open_vnode env ctx fd node opt st = do {
     n \<leftarrow> vf_node st node;
     let fd = fd\<lparr>of_flags := of_flags fd AND NOT OF_SOCKET\<rparr>;
     (if vn_type n = VN_SOCK then Some (- ENODEV, fd, st)
      else if opt AND O_DIRECTORY \<noteq> 0 then
        if vn_type n \<noteq> VN_DIR then Some (- ENOTDIR, fd, st)
        else if opt AND O_ACCMODE \<noteq> O_RDONLY then Some (- EACCES, fd, st)
        else vfs_opendir env
               (fd\<lparr>of_pos := 0, of_vnode := Some node, of_flags := OF_DIRECTORY OR OF_READABLE\<rparr>) st
      else if vn_type n = VN_DIR \<or> vn_type n = VN_MNT then Some (- EISDIR, fd, st)
      else do {
        res \<leftarrow> vfs_access_node ctx node (vfs_open_mode opt) st;
        (if res \<noteq> 0 then Some (res, fd, st)
         else do {
           (res, st) \<leftarrow> open_truncate env node opt st;
           (if res \<noteq> 0 then Some (res, fd, st) else open_finish env fd node opt st)
         })
      })
   }"

text \<open>
  The routines that create an entry share their first half: split the path, find the parent
  directory, check that it may be written.
\<close>

definition create_parent ::
  "nat \<Rightarrow> ('d, 'w) vfs_env \<Rightarrow> vfs_ioctx \<Rightarrow> nat option \<Rightarrow> string \<Rightarrow> ('d, 'w) vfs
     \<Rightarrow> ((int + nat \<times> string) \<times> ('d, 'w) vfs) kern" where
  "create_parent k env ctx rel path st = do {
     (parent_path, filename) \<leftarrow> vfs_path_parent path;
     (if filename = [] then Some (Inl (- ENOENT), st)
      else do {
        (res, st) \<leftarrow> vfs_find k env ctx rel parent_path 0 st;
        (case res of
           Inl err \<Rightarrow> Some (Inl err, st)
         | Inr at \<Rightarrow> do {
             res \<leftarrow> vfs_access_node ctx at W_OK st;
             Some (if res \<noteq> 0 then Inl res else Inr (at, filename), st)
           })
      })
   }"

definition vfs_mkdirat ::
  "nat \<Rightarrow> ('d, 'w) vfs_env \<Rightarrow> vfs_ioctx \<Rightarrow> nat option \<Rightarrow> string \<Rightarrow> 32 word \<Rightarrow> ('d, 'w) vfs
     \<Rightarrow> (int \<times> ('d, 'w) vfs) kern" where
  "vfs_mkdirat k env ctx rel path mode st = do {
     let rel = (case rel of None \<Rightarrow> cwd_vnode ctx | Some r \<Rightarrow> Some r);
     (res, st) \<leftarrow> create_parent k env ctx rel path st;
     (case res of
        Inl err \<Rightarrow> Some (err, st)
      | Inr (at, filename) \<Rightarrow> do {
          n \<leftarrow> vf_node st at;
          (case vn_oper env n vo_mkdir of
             None \<Rightarrow> Some (- EROFS, st)
           | Some mkdir \<Rightarrow> mkdir at filename (io_uid ctx) (io_gid ctx) (mode AND NOT (io_umask ctx)) st)
        })
   }"

definition vfs_unlinkat ::
  "nat \<Rightarrow> ('d, 'w) vfs_env \<Rightarrow> vfs_ioctx \<Rightarrow> nat option \<Rightarrow> string \<Rightarrow> 32 word \<Rightarrow> ('d, 'w) vfs
     \<Rightarrow> (int \<times> ('d, 'w) vfs) kern" where
  "vfs_unlinkat k env ctx at pathname flags st = do {
     let at = (case at of None \<Rightarrow> cwd_vnode ctx | Some a \<Rightarrow> Some a);
     (res, st) \<leftarrow> vfs_find k env ctx at pathname 1 st;
     (case res of
        Inl err \<Rightarrow> Some (err, st)
      | Inr node \<Rightarrow> do {
          n \<leftarrow> vf_node st node;
          (if vn_type n = VN_MNT then Some (- EBUSY, st)
           else (case vn_oper env n vo_unlink of
                   None \<Rightarrow> Some (- EROFS, st)
                 | Some unlink \<Rightarrow>
                     if vn_open_count n \<noteq> 0 then Some (- EBUSY, st)
                     else if flags AND AT_REMOVEDIR \<noteq> 0 \<and> vn_type n \<noteq> VN_DIR then Some (- ENOTDIR, st)
                     else if flags AND AT_REMOVEDIR = 0 \<and> vn_type n = VN_DIR then Some (- EISDIR, st)
                     else do {
                       (res, st) \<leftarrow> unlink node st;
                       (if res \<noteq> 0 then Some (res, st)
                        else do {
                          st \<leftarrow> vnode_detach node st;
                          st \<leftarrow> vnode_destroy node st;
                          Some (0, st)
                        })
                     }))
        })
   }"

definition mknod_type :: "32 word \<Rightarrow> vnode_type kern" where
  "mknod_type mode =
     (if mode AND S_IFMT = S_IFIFO then Some VN_FIFO
      else if mode AND S_IFMT = S_IFSOCK then Some VN_SOCK
      else None)"

definition vfs_mknod ::
  "nat \<Rightarrow> ('d, 'w) vfs_env \<Rightarrow> vfs_ioctx \<Rightarrow> string \<Rightarrow> 32 word \<Rightarrow> ('d, 'w) vfs
     \<Rightarrow> ((int + nat) \<times> ('d, 'w) vfs) kern" where
  "vfs_mknod k env ctx path mode st = do {
     (res, st) \<leftarrow> create_parent k env ctx (cwd_vnode ctx) path st;
     (case res of
        Inl err \<Rightarrow> Some (Inl err, st)
      | Inr (at, filename) \<Rightarrow> do {
          n \<leftarrow> vf_node st at;
          (case vn_oper env n vo_mknod of
             None \<Rightarrow> Some (Inl (- EROFS), st)
           | Some mknod \<Rightarrow> do {
               type \<leftarrow> mknod_type mode;
               (nod, st) \<leftarrow> vnode_create type (Some filename) st;
               let st = upd_node nod (\<lambda>n. n\<lparr>vn_mode := mode AND VFS_MODE_MASK AND NOT (io_umask ctx),
                                           vn_uid := io_uid ctx, vn_gid := io_gid ctx\<rparr>) st;
               (res, st) \<leftarrow> mknod at nod st;
               (if res \<noteq> 0 then do {
                  st \<leftarrow> vnode_destroy nod st;
                  Some (Inl res, st)
                }
                else Some (Inr nod, st))
             })
        })
   }"

definition vfs_creatat ::
  "nat \<Rightarrow> ('d, 'w) vfs_env \<Rightarrow> vfs_ioctx \<Rightarrow> nat option \<Rightarrow> string \<Rightarrow> 32 word \<Rightarrow> ('d, 'w) vfs
     \<Rightarrow> (int \<times> ('d, 'w) vfs) kern" where
  "vfs_creatat k env ctx vn_at path mode st = do {
     (res, st) \<leftarrow> create_parent k env ctx vn_at path st;
     (case res of
        Inl err \<Rightarrow> Some (err, st)
      | Inr (at, filename) \<Rightarrow> do {
          n \<leftarrow> vf_node st at;
          (case vn_oper env n vo_creat of
             None \<Rightarrow> Some (- EROFS, st)
           | Some creat \<Rightarrow> creat at filename (io_uid ctx) (io_gid ctx) (mode AND NOT (io_umask ctx)) st)
        })
   }"

definition vfs_openat ::
  "nat \<Rightarrow> ('d, 'w) vfs_env \<Rightarrow> vfs_ioctx \<Rightarrow> ofile \<Rightarrow> nat option \<Rightarrow> string \<Rightarrow> 32 word \<Rightarrow> 32 word \<Rightarrow> ('d, 'w) vfs
     \<Rightarrow> (int \<times> ofile \<times> ('d, 'w) vfs) kern" where
  "vfs_openat k env ctx fd at path opt mode st = do {
     let at = (case at of None \<Rightarrow> cwd_vnode ctx | Some a \<Rightarrow> Some a);
     (res, st) \<leftarrow> vfs_find k env ctx at path 0 st;
     (case res of
        Inr node \<Rightarrow> vfs_open_vnode env ctx fd node opt st
      | Inl err \<Rightarrow>
          if opt AND O_CREAT = 0 then Some (err, fd, st)
          else if opt AND O_DIRECTORY \<noteq> 0 then Some (- EINVAL, fd, st)
          else do {
            (res, st) \<leftarrow> vfs_creatat k env ctx at path mode st;
            (if res \<noteq> 0 then Some (res, fd, st)
             else do {
               (res, st) \<leftarrow> vfs_find k env ctx at path 0 st;
               (case res of
                  Inl err \<Rightarrow> Some (err, fd, st)
                | Inr node \<Rightarrow> vfs_open_vnode env ctx fd node opt st)
             })
          })
   }"

definition vfs_close :: "('d, 'w) vfs_env \<Rightarrow> ofile \<Rightarrow> ('d, 'w) vfs \<Rightarrow> ('d, 'w) vfs kern" where
  "vfs_close env fd st = do {
     kassert (\<not> ofile_is_socket fd);
     kassert (of_refcount fd = 0);
     v \<leftarrow> of_vnode fd;
     n \<leftarrow> vf_node st v;
     let st = upd_node v (vn_open_count_update (\<lambda>c. c - 1)) st;
     (case vn_oper env n vo_close of None \<Rightarrow> Some st | Some close \<Rightarrow> close fd st)
   }"

definition ofile_create :: ofile where
  "ofile_create = \<lparr>of_flags = 0, of_refcount = 0, of_vnode = None, of_pos = 0\<rparr>"

definition ofile_dup :: "ofile \<Rightarrow> ofile kern" where
  "ofile_dup fd = do {
     kassert (0 \<le> of_refcount fd);
     Some (fd\<lparr>of_refcount := of_refcount fd + 1\<rparr>)
   }"

definition ofile_destroy :: "ofile \<Rightarrow> unit kern" where
  "ofile_destroy fd = kassert (of_refcount fd = 0)"

text \<open>\<open>ofile_close\<close> returns the open file if references remain.\<close>

definition ofile_close ::
  "('d, 'w) vfs_env \<Rightarrow> ofile \<Rightarrow> ('d, 'w) vfs \<Rightarrow> (ofile option \<times> ('d, 'w) vfs) kern" where
  "ofile_close env fd st = do {
     kassert (0 < of_refcount fd);
     let fd = fd\<lparr>of_refcount := of_refcount fd - 1\<rparr>;
     (if of_refcount fd = 0 then do {
        st \<leftarrow> (if of_flags fd AND OF_SOCKET \<noteq> 0 then env_net_close env fd st else vfs_close env fd st);
        _ \<leftarrow> ofile_destroy fd;
        Some (None, st)
      }
      else Some (Some fd, st))
   }"

section \<open>Status, attributes and data\<close>

definition link_flag :: "32 word \<Rightarrow> int" where
  "link_flag flags = uint (flags AND AT_SYMLINK_NOFOLLOW)"

definition vfs_faccessat ::
  "nat \<Rightarrow> ('d, 'w) vfs_env \<Rightarrow> vfs_ioctx \<Rightarrow> nat option \<Rightarrow> string \<Rightarrow> 32 word \<Rightarrow> 32 word \<Rightarrow> ('d, 'w) vfs
     \<Rightarrow> (int \<times> ('d, 'w) vfs) kern" where
  "vfs_faccessat k env ctx at path mode flags st = do {
     (res, st) \<leftarrow> vfs_find k env ctx at path (link_flag flags) st;
     (case res of
        Inl err \<Rightarrow> Some (err, st)
      | Inr node \<Rightarrow>
          if mode = F_OK then Some (0, st)
          else do {
            r \<leftarrow> vfs_access_node ctx node mode st;
            Some (r, st)
          })
   }"

definition vfs_fstatat ::
  "nat \<Rightarrow> ('d, 'w) vfs_env \<Rightarrow> vfs_ioctx \<Rightarrow> nat option \<Rightarrow> string \<Rightarrow> 32 word \<Rightarrow> ('d, 'w) vfs
     \<Rightarrow> (int \<times> stat_buf option \<times> ('d, 'w) vfs) kern" where
  "vfs_fstatat k env ctx at path flags st = do {
     let at = (case at of None \<Rightarrow> cwd_vnode ctx | Some a \<Rightarrow> Some a);
     (res, st) \<leftarrow> (if flags AND AT_EMPTY_PATH \<noteq> 0 then do {
                     node \<leftarrow> at;
                     Some (Inr node, st)
                   }
                   else vfs_find k env ctx at path (link_flag flags) st);
     (case res of
        Inl err \<Rightarrow> Some (err, None, st)
      | Inr node \<Rightarrow> do {
          n \<leftarrow> vf_node st node;
          (case vn_oper env n vo_stat of
             None \<Rightarrow> Some (- EINVAL, None, st)
           | Some stat \<Rightarrow> do {
               (r, buf) \<leftarrow> stat node st;
               Some (r, Some buf, st)
             })
        })
   }"

definition vfs_readlinkat ::
  "nat \<Rightarrow> ('d, 'w) vfs_env \<Rightarrow> vfs_ioctx \<Rightarrow> nat option \<Rightarrow> string \<Rightarrow> nat \<Rightarrow> ('d, 'w) vfs
     \<Rightarrow> (int \<times> string \<times> ('d, 'w) vfs) kern" where
  "vfs_readlinkat k env ctx at pathname lim st = do {
     let at = (case at of None \<Rightarrow> cwd_vnode ctx | Some a \<Rightarrow> Some a);
     (res, st) \<leftarrow> vfs_find k env ctx at pathname 1 st;
     (case res of
        Inl err \<Rightarrow> Some (err, [], st)
      | Inr node \<Rightarrow> do {
          n \<leftarrow> vf_node st node;
          (if vn_type n \<noteq> VN_LNK then Some (- EINVAL, [], st)
           else (case vn_oper env n vo_readlink of
                   Some readlink \<Rightarrow> do {
                     (r, buf) \<leftarrow> readlink node lim st;
                     Some (r, buf, st)
                   }
                 | None \<Rightarrow>
                     (case vn_target n of
                        Some func \<Rightarrow>
                          if vn_flags n AND VN_PER_PROCESS \<noteq> 0 then
                            let (t, buf) = env_link env func node st
                            in Some (if t \<noteq> None then 0 else - EINVAL, buf, st)
                          else Some (- EINVAL, [], st)
                      | None \<Rightarrow> Some (- EINVAL, [], st))))
        })
   }"

definition vfs_ftruncate :: "('d, 'w) vfs_env \<Rightarrow> nat \<Rightarrow> int \<Rightarrow> ('d, 'w) vfs \<Rightarrow> (int \<times> ('d, 'w) vfs) kern" where
  "vfs_ftruncate env node len st = do {
     n \<leftarrow> vf_node st node;
     (if vn_type n \<noteq> VN_REG then Some (- EPERM, st)
      else (case vn_oper env n vo_truncate of
              Some trunc \<Rightarrow> trunc node (nat (len mod 2 ^ 64)) st
            | None \<Rightarrow> Some (- ENOSYS, st)))
   }"

definition vfs_write ::
  "('d, 'w) vfs_env \<Rightarrow> ofile \<Rightarrow> byte list \<Rightarrow> ('d, 'w) vfs \<Rightarrow> (int \<times> ofile \<times> ('d, 'w) vfs) kern" where
  "vfs_write env fd buf st = do {
     kassert (\<not> ofile_is_socket fd);
     (if of_flags fd AND OF_WRITABLE = 0 \<or> of_flags fd AND OF_DIRECTORY \<noteq> 0 then Some (- EINVAL, fd, st)
      else do {
        node \<leftarrow> of_vnode fd;
        n \<leftarrow> vf_node st node;
        (if vn_type n = VN_REG \<or> vn_type n = VN_FIFO then do {
           write \<leftarrow> vn_oper env n vo_write;
           write fd buf st
         }
         else if vn_type n = VN_CHR then do {
           dev \<leftarrow> vn_dev n;
           kassert (ch_write (env_chr env dev) \<noteq> None);
           (r, st) \<leftarrow> chr_write (Some (env_chr env dev)) buf (of_pos fd) st;
           Some (r, fd, st)
         }
         else Some (- EINVAL, fd, st))
      })
   }"

definition vfs_read ::
  "('d, 'w) vfs_env \<Rightarrow> ofile \<Rightarrow> nat \<Rightarrow> ('d, 'w) vfs \<Rightarrow> (int \<times> byte list \<times> ofile \<times> ('d, 'w) vfs) kern" where
  "vfs_read env fd count st =
     (if of_flags fd AND OF_READABLE = 0 then Some (- EINVAL, [], fd, st)
      else do {
        kassert (\<not> ofile_is_socket fd);
        node \<leftarrow> of_vnode fd;
        n \<leftarrow> vf_node st node;
        (if vn_type n = VN_REG \<or> vn_type n = VN_FIFO then do {
           read \<leftarrow> vn_oper env n vo_read;
           read fd count st
         }
         else if vn_type n = VN_CHR then do {
           dev \<leftarrow> vn_dev n;
           kassert (ch_read (env_chr env dev) \<noteq> None);
           (r, buf, st) \<leftarrow> chr_read (Some (env_chr env dev)) (of_pos fd) count st;
           Some (r, buf, fd, st)
         }
         else if vn_type n = VN_BLK then do {
           dev \<leftarrow> vn_dev n;
           (b, buf, st) \<leftarrow> env_blk_read env dev (of_pos fd) count st;
           Some (b, buf, if 0 < b then fd\<lparr>of_pos := of_pos fd + nat b\<rparr> else fd, st)
         }
         else Some (- EINVAL, [], fd, st))
      })"

definition vfs_lseek ::
  "('d, 'w) vfs_env \<Rightarrow> ofile \<Rightarrow> int \<Rightarrow> int \<Rightarrow> ('d, 'w) vfs \<Rightarrow> (int \<times> ofile \<times> ('d, 'w) vfs) kern" where
  "vfs_lseek env fd offset whence st = do {
     kassert (\<not> ofile_is_socket fd);
     node \<leftarrow> of_vnode fd;
     n \<leftarrow> vf_node st node;
     (if vn_type n \<noteq> VN_REG then Some (- ESPIPE, fd, st)
      else (case vn_oper env n vo_lseek of
              None \<Rightarrow> Some (- EINVAL, fd, st)
            | Some lseek \<Rightarrow> lseek fd offset whence st))
   }"

definition vfs_chmod ::
  "nat \<Rightarrow> ('d, 'w) vfs_env \<Rightarrow> vfs_ioctx \<Rightarrow> string \<Rightarrow> 32 word \<Rightarrow> ('d, 'w) vfs \<Rightarrow> (int \<times> ('d, 'w) vfs) kern" where
  "vfs_chmod k env ctx path mode st = do {
     let mode = mode AND VFS_MODE_MASK;
     (res, st) \<leftarrow> vfs_find k env ctx (cwd_vnode ctx) path 1 st;
     (case res of
        Inl err \<Rightarrow> Some (err, st)
      | Inr node \<Rightarrow> do {
          n \<leftarrow> vf_node st node;
          (if vn_type n = VN_LNK then Some (- EINVAL, st)
           else if io_uid ctx \<noteq> 0 \<and> io_uid ctx \<noteq> vn_uid n then Some (- EACCES, st)
           else (case vn_oper env n vo_chmod of
                   None \<Rightarrow>
                     if vn_flags n AND VN_MEMORY \<noteq> 0 then
                       Some (0, upd_node node (\<lambda>n. n\<lparr>vn_mode := (vn_mode n AND NOT VFS_MODE_MASK)
                                                                OR (mode AND VFS_MODE_MASK)\<rparr>) st)
                     else Some (- EINVAL, st)
                 | Some chmod \<Rightarrow> do {
                     (res, st) \<leftarrow> chmod node mode st;
                     (if res \<noteq> 0 then Some (res, st)
                      else Some (0, upd_node node (vn_mode_update (\<lambda>_. mode)) st))
                   }))
        })
   }"

definition vfs_chown ::
  "nat \<Rightarrow> ('d, 'w) vfs_env \<Rightarrow> vfs_ioctx \<Rightarrow> string \<Rightarrow> 32 word \<Rightarrow> 32 word \<Rightarrow> ('d, 'w) vfs
     \<Rightarrow> (int \<times> ('d, 'w) vfs) kern" where
  "vfs_chown k env ctx path uid gid st = do {
     (res, st) \<leftarrow> vfs_find k env ctx (cwd_vnode ctx) path 0 st;
     (case res of
        Inl err \<Rightarrow> Some (err, st)
      | Inr node \<Rightarrow> do {
          n \<leftarrow> vf_node st node;
          (if io_uid ctx \<noteq> 0 then Some (- EACCES, st)
           else do {
             (res, st) \<leftarrow> (case vn_oper env n vo_chown of
                             None \<Rightarrow> Some (if vn_flags n AND VN_MEMORY = 0 then - EINVAL else 0, st)
                           | Some chown \<Rightarrow> chown node uid gid st);
             (if res \<noteq> 0 then Some (res, st)
              else Some (0, upd_node node (\<lambda>n. n\<lparr>vn_uid := uid, vn_gid := gid\<rparr>) st))
           })
        })
   }"

definition vfs_ioctl ::
  "('d, 'w) vfs_env \<Rightarrow> ofile \<Rightarrow> nat \<Rightarrow> nat \<Rightarrow> ('d, 'w) vfs \<Rightarrow> (int \<times> ('d, 'w) vfs) kern" where
  "vfs_ioctl env fd cmd arg st = do {
     kassert (\<not> ofile_is_socket fd);
     node \<leftarrow> of_vnode fd;
     n \<leftarrow> vf_node st node;
     (if vn_type n = VN_CHR then chr_ioctl (map_option (env_chr env) (vn_dev n)) cmd arg st
      else if vn_type n = VN_BLK then env_blk_ioctl env (vn_dev n) cmd arg st
      else Some (- EINVAL, st))
   }"

end
