(* ===== verification/Vfs_Driver.thy ===== *)
theory Vfs_Driver
  imports Vfs_Ops
begin

text \<open>
  The contract between the VFS core and the filesystems and devices below it, as a locale, and what
  the core keeps on top of any driver that obeys it: no operation but \<open>unlink\<close> destroys a vnode, the
  vnode tree stays well formed, and open counts change by opening and closing only.
\<close>

text \<open>A driver may move the position and change the flags of an open file, not what it refers to.\<close>

definition same_file :: "ofile \<Rightarrow> ofile \<Rightarrow> bool" where
  "same_file fd fd' \<longleftrightarrow> of_vnode fd' = of_vnode fd \<and> of_refcount fd' = of_refcount fd
     \<and> ofile_is_socket fd' = ofile_is_socket fd"

lemma same_file_refl [simp]: "same_file fd fd"
  by (simp add: same_file_def)

lemma same_file_upd [simp]:
  "same_file fd (fd\<lparr>of_pos := p\<rparr>)"
  "same_file fd (fd\<lparr>of_flags := (of_flags fd AND NOT OF_MEMDIR_DOT) OR OF_MEMDIR_DOTDOT\<rparr>)"
  "same_file fd (fd\<lparr>of_flags := of_flags fd AND NOT OF_MEMDIR_DOTDOT\<rparr>)"
  "same_file fd (fd\<lparr>of_flags := of_flags fd OR (OF_MEMDIR OR OF_MEMDIR_DOT), of_pos := p\<rparr>)"
  by (simp_all add: same_file_def ofile_is_socket_def flag_simps)

text \<open>A lookup keeps the store and does not report success as an error.\<close>

definition found :: "('d, 'w) vfs \<Rightarrow> int + nat \<Rightarrow> ('d, 'w) vfs \<Rightarrow> bool" where
  "found st r st' \<longleftrightarrow> vfs_grows st st' \<and> r \<noteq> Inl 0"

lemma found_pre: "vfs_grows a b \<Longrightarrow> found b r c \<Longrightarrow> found a r c"
  unfolding found_def using vfs_grows_trans by blast

lemma found_simps [simp]:
  "found st (Inr v) st' = vfs_grows st st'" "found st (Inl e) st' = (vfs_grows st st' \<and> e \<noteq> 0)"
  by (auto simp: found_def)

definition vfs_opens :: "ofile \<Rightarrow> ('d, 'w) vfs \<Rightarrow> ('d, 'w) vfs \<Rightarrow> bool" where
  "vfs_opens fd st st' \<longleftrightarrow> (\<exists>v n st1. of_vnode fd = Some v \<and> vfs_grows st st1 \<and> vf_node st1 v = Some n
     \<and> st' = upd_node v (vn_open_count_update (\<lambda>c. c + 1)) st1)"

lemma vfs_opensI:
  "of_vnode fd = Some v \<Longrightarrow> vfs_grows st st1 \<Longrightarrow> vf_node st1 v = Some n
     \<Longrightarrow> vfs_opens fd st (upd_node v (vn_open_count_update (\<lambda>c. c + 1)) st1)"
  unfolding vfs_opens_def by blast

lemma vfs_opens_pre: "vfs_grows a b \<Longrightarrow> vfs_opens fd b c \<Longrightarrow> vfs_opens fd a c"
  unfolding vfs_opens_def using vfs_grows_trans by blast

text \<open>The result of an attempt to open: an error that leaves open counts alone, or a reference.\<close>

definition opened :: "int \<Rightarrow> ofile \<Rightarrow> ofile \<Rightarrow> ('d, 'w) vfs \<Rightarrow> ('d, 'w) vfs \<Rightarrow> bool" where
  "opened e fd fd' st st' \<longleftrightarrow>
     of_refcount fd' = of_refcount fd
     \<and> (if e = 0 then \<not> ofile_is_socket fd' \<and> vfs_opens fd' st st' else vfs_grows st st')"

lemma opened_pre: "vfs_grows a b \<Longrightarrow> opened e fd fd' b c \<Longrightarrow> opened e fd fd' a c"
  using vfs_grows_trans [of a b c] vfs_opens_pre [of a b fd' c] by (simp add: opened_def split: if_splits)

lemma opened_ref: "opened e fd1 fd' st st' \<Longrightarrow> of_refcount fd1 = of_refcount fd \<Longrightarrow> opened e fd fd' st st'"
  by (simp add: opened_def)

text \<open>Unlinking: the driver's changes, then one vnode that is not open disappears.\<close>

definition vfs_removes :: "('d, 'w) vfs \<Rightarrow> ('d, 'w) vfs \<Rightarrow> bool" where
  "vfs_removes st st' \<longleftrightarrow> (vfs_wf st \<longrightarrow> vfs_wf st' \<and> (\<exists>v n st1. vfs_grows st st1 \<and> vf_node st1 v = Some n
     \<and> vn_open_count n = 0 \<and> vf_node st' = (vf_node st1)(v := None) \<and> vf_next st' = vf_next st1))"

definition vfs_closes :: "ofile \<Rightarrow> ('d, 'w) vfs \<Rightarrow> ('d, 'w) vfs \<Rightarrow> bool" where
  "vfs_closes fd st st' \<longleftrightarrow> (\<exists>v n. of_vnode fd = Some v \<and> vf_node st v = Some n
     \<and> vfs_grows (upd_node v (vn_open_count_update (\<lambda>c. c - 1)) st) st')"

lemma grows_drop:
  assumes g: "vfs_grows a b" and d: "vnode_destroy v b = Some c" and n: "vf_node b v = Some n" "vn_parent n = None"
    and new: "vf_next a \<le> v"
  shows "vfs_grows a c"
proof (unfold vfs_grows_def, rule impI)
  assume wf: "vfs_wf a"
  note wb = vfs_grows_wf [OF g wf]
  note c = vnode_destroy_wf [OF d wb n]
  have "vf_node a v = None" using wf_basic(2) [OF wf, of v] new by (cases "vf_node a v") auto
  moreover have "vf_node a u = None \<Longrightarrow> vf_node b u = Some m \<Longrightarrow> vf_next a \<le> u \<and> vn_open_count m = 0" for u m
    using vfs_grows_new [OF g wf] by blast
  ultimately show "vfs_wf c \<and> vf_next a \<le> vf_next c
     \<and> (\<forall>v n. vf_node a v = Some n \<longrightarrow> (\<exists>n'. vf_node c v = Some n' \<and> kept n n'))
     \<and> (\<forall>v n'. vf_node a v = None \<longrightarrow> vf_node c v = Some n' \<longrightarrow> vf_next a \<le> v \<and> vn_open_count n' = 0)"
    using c(1) vfs_grows_next [OF g wf] vfs_grows_live [OF g wf] by (auto simp: c(2,3) split: if_splits)
qed

locale vfs_driver =
  fixes env :: "('d, 'w) vfs_env"
  assumes find_law: "vo_find (env_ops env k) = Some f \<Longrightarrow> f at name st = Some (r, st') \<Longrightarrow>
        found st r st' \<and> r \<noteq> Inr at"
    and opendir_law: "vo_opendir (env_ops env k) = Some f1 \<Longrightarrow> f1 fd st = Some (e, fd', st') \<Longrightarrow>
        vfs_grows st st' \<and> same_file fd fd'"
    and readdir_law: "vo_readdir (env_ops env k) = Some f2 \<Longrightarrow> f2 fd st = Some (e, ent, fd', st') \<Longrightarrow>
        vfs_grows st st' \<and> same_file fd fd'"
    and open_law: "vo_open (env_ops env k) = Some f3 \<Longrightarrow> f3 fd opt st = Some (e, fd', st') \<Longrightarrow>
        vfs_grows st st' \<and> same_file fd fd'"
    and close_law: "vo_close (env_ops env k) = Some f4 \<Longrightarrow> f4 fd st = Some st' \<Longrightarrow> vfs_grows st st'"
    and mknod_law: "vo_mknod (env_ops env k) = Some f5 \<Longrightarrow> at \<noteq> nod \<Longrightarrow> f5 at nod st = Some (e, st') \<Longrightarrow>
        vfs_grows st st' \<and> (e \<noteq> 0 \<longrightarrow> vf_node st' nod = vf_node st nod)"
    and creat_law: "vo_creat (env_ops env k) = Some f6 \<Longrightarrow> f6 at name uid gid mode st = Some (e, st') \<Longrightarrow> vfs_grows st st'"
    and mkdir_law: "vo_mkdir (env_ops env k) = Some f6 \<Longrightarrow> f6 at name uid gid mode st = Some (e, st') \<Longrightarrow> vfs_grows st st'"
    and truncate_law: "vo_truncate (env_ops env k) = Some f7 \<Longrightarrow> f7 v n st = Some (e, st') \<Longrightarrow> vfs_grows st st'"
    and unlink_law: "vo_unlink (env_ops env k) = Some f8 \<Longrightarrow> f8 v st = Some (e, st') \<Longrightarrow>
        vfs_grows st st'"
    and lseek_law: "vo_lseek (env_ops env k) = Some f9 \<Longrightarrow> f9 fd off wh st = Some (pos, fd', st') \<Longrightarrow>
        vfs_grows st st' \<and> same_file fd fd'"
    and chmod_law: "vo_chmod (env_ops env k) = Some f10 \<Longrightarrow> f10 v mode st = Some (e, st') \<Longrightarrow> vfs_grows st st'"
    and chown_law: "vo_chown (env_ops env k) = Some f11 \<Longrightarrow> f11 v uid gid st = Some (e, st') \<Longrightarrow> vfs_grows st st'"
    and read_law: "vo_read (env_ops env k) = Some f12 \<Longrightarrow> f12 fd n st = Some (b, buf, fd', st') \<Longrightarrow>
        vfs_grows st st' \<and> same_file fd fd'"
    and write_law: "vo_write (env_ops env k) = Some f13 \<Longrightarrow> f13 fd buf st = Some (b, fd', st') \<Longrightarrow>
        vfs_grows st st' \<and> same_file fd fd'"
    and ch_write_law: "ch_write (env_chr env c) = Some f14 \<Longrightarrow> f14 buf off' st = Some (b, st') \<Longrightarrow> vfs_grows st st'"
    and ch_read_law: "ch_read (env_chr env c) = Some f15 \<Longrightarrow> f15 off' n st = Some (b, buf, st') \<Longrightarrow> vfs_grows st st'"
    and ch_ioctl_law: "ch_ioctl (env_chr env c) = Some f16 \<Longrightarrow> f16 cmd arg st = Some (b, st') \<Longrightarrow> vfs_grows st st'"
    and blk_read_law: "env_blk_read env c off' n st = Some (b, buf, st') \<Longrightarrow> vfs_grows st st'"
    and fifo_law: "env_fifo_create env v st = Some (e, st') \<Longrightarrow> vfs_grows st st'"
    and blk_ioctl_law: "env_blk_ioctl env dev cmd arg st = Some (b, st') \<Longrightarrow> vfs_grows st st'"
begin

lemma oper_cases:
  "vn_oper env n sel = Some f \<Longrightarrow> \<exists>k. sel (env_ops env k) = Some f"
  by (auto simp: vn_oper_def split: option.splits)

lemma lookup_or_load_found:
  assumes "vfs_lookup_or_load env at name st = Some (r, st')"
  shows "found st r st'"
proof -
  have load: "vfs_grows st st'"
    if o: "vn_oper env n vo_find = Some f" "f at name st = Some (Inr v, st1)" "vnode_attach at v st1 = Some st'" for n f v st1
  proof -
    obtain k where k: "vo_find (env_ops env k) = Some f" using oper_cases [OF o(1)] by blast
    have "found st (Inr v) st1 \<and> Inr v \<noteq> (Inr at :: int + nat)" by (rule find_law [OF k o(2)])
    thus ?thesis using vnode_attach_grows [OF o(3)] vfs_grows_trans [of st st1 st'] by simp
  qed
  have miss: "found st (Inl e) st1" if "vn_oper env n vo_find = Some f" "f at name st = Some (Inl e, st1)" for n f e st1
    using oper_cases [OF that(1)] find_law that(2) by blast
  show ?thesis using assms load miss
    by (auto simp: vfs_lookup_or_load_def split: Option.bind_splits sum.splits if_splits)
       (auto simp: vnode_lookup_child_def split: Option.bind_splits option.splits)
qed

lemma target_grows: "vfs_grows st (upd_node v (vn_target_update (\<lambda>_. t)) st)"
  by (rule upd_attr_grows) (simp add: same_place_def kept_def)

lemma link_load_grows:
  assumes "link_load call env lnk li st = Some (r, st')"
    and "\<And>c st r st'. call c st = Some (r, st') \<Longrightarrow> found st r st'"
  shows "vfs_grows st st' \<and> r \<noteq> Inl 0"
proof -
  have up: "vfs_grows st (upd_node lnk (vn_target_update (\<lambda>_. t)) st1)" if "call c st = Some (r1, st1)" for c r1 st1 t
    using assms(2) [OF that] target_grows vfs_grows_trans unfolding found_def by blast
  show ?thesis using assms(1) up assms(2)
    by (auto simp: link_load_def split: Option.bind_splits sum.splits if_splits) fastforce
qed

lemma link_resolve_internal_found:
  assumes "vfs_link_resolve_internal call env lnk li cnt st = Some (r, st')"
    and call: "\<And>c st r st'. call c st = Some (r, st') \<Longrightarrow> found st r st'"
  shows "found st r st'"
proof -
  have l: "vfs_grows st st1 \<and> x \<noteq> Inl 0" if "link_load call env lnk li st = Some (x, st1)" for x st1
    by (rule link_load_grows [OF that call])
  hence ld: "vfs_grows st st1" if "link_load call env lnk li st = Some (x, st1)" for x st1 using that by blast
  have ldn: "e \<noteq> 0" if "link_load call env lnk li st = Some (Inl e, st1)" for e st1 using l [OF that] by simp
  have nx: "found st x st2" if "vfs_grows st st1" "call c st1 = Some (x, st2)" for c st1 x st2
    using that(1) call [OF that(2)] by (rule found_pre)
  show ?thesis using assms(1) ld ldn nx [OF ld] nx [OF vfs_grows_refl]
    by (auto simp: vfs_link_resolve_internal_def split: Option.bind_splits sum.splits if_splits option.splits)
qed

lemma find_final_found:
  assumes "find_final call node li st = Some (r, st')"
    and call: "\<And>c st r st'. call c st = Some (r, st') \<Longrightarrow> found st r st'"
  shows "found st r st'"
proof -
  have nz: "e \<noteq> 0" if "call c st = Some (Inl e, st1)" for c e st1 using call [OF that] by simp
  have g: "vfs_grows st st1" if "call c st = Some (x, st1)" for c x st1 using call [OF that] by (simp add: found_def)
  show ?thesis using assms(1) nz g
    by (auto simp: find_final_def vfs_link_resolve_def split: Option.bind_splits sum.splits if_splits)
qed

lemma find_in_dir_found:
  assumes "find_in_dir call env at n path li st = Some (r, st')"
    and call: "\<And>c st r st'. call c st = Some (r, st') \<Longrightarrow> found st r st'"
  shows "found st r st'"
proof -
  have ld: "vfs_grows st st1" if "vfs_lookup_or_load env at name st = Some (x, st1)" for name x st1
    using lookup_or_load_found [OF that] by (simp add: found_def)
  have ldn: "e \<noteq> 0" if "vfs_lookup_or_load env at name st = Some (Inl e, st1)" for name e st1
    using lookup_or_load_found [OF that] by simp
  have fin: "found st x st2" if "vfs_grows st st1" "find_final call v li st1 = Some (x, st2)" for st1 v x st2
    using that(1) find_final_found [OF that(2) call] by (rule found_pre)
  have nx: "found st x st2" if "vfs_grows st st1" "call c st1 = Some (x, st2)" for c st1 x st2
    using that(1) call [OF that(2)] by (rule found_pre)
  show ?thesis using assms(1) ld ldn fin [OF ld] nx [OF ld] call
    by (auto simp: find_in_dir_def split: Option.bind_splits sum.splits if_splits)
qed

lemma find_internal_found:
  assumes "vfs_find_internal call env at path li st = Some (r, st')"
    and call: "\<And>c st r st'. call c st = Some (r, st') \<Longrightarrow> found st r st'"
  shows "found st r st'"
proof -
  have nz: "e \<noteq> 0" if "call c st = Some (Inl e, st1)" for c e st1 using call [OF that] by simp
  have g: "vfs_grows st st1" if "call c st = Some (x, st1)" for c x st1 using call [OF that] by (simp add: found_def)
  have dir: "found st x st2" if "vfs_grows st st1" "find_in_dir call env d n p li st1 = Some (x, st2)" for st1 d n p x st2
    using that(1) find_in_dir_found [OF that(2) call] by (rule found_pre)
  show ?thesis using assms(1) dir [OF vfs_grows_refl] dir [OF g] nz g
    by (auto simp: vfs_find_internal_def vfs_link_resolve_def
          split: Option.bind_splits sum.splits if_splits option.splits)
qed

lemma find_body_found:
  assumes "vfs_find_body call ctx rel path li st = Some (r, st')"
    and call: "\<And>c st r st'. call c st = Some (r, st') \<Longrightarrow> found st r st'"
  shows "found st r st'"
proof -
  have nz: "e \<noteq> 0" if "call c st = Some (Inl e, st1)" for c e st1 using call [OF that] by simp
  have g: "vfs_grows st st1" if "call c st = Some (x, st1)" for c x st1 using call [OF that] by (simp add: found_def)
  show ?thesis using assms(1) nz g
    by (auto simp: vfs_find_body_def Let_def split: Option.bind_splits sum.splits if_splits option.splits)
qed

lemma exec_found: "vfs_exec k env ctx c st = Some (r, st') \<Longrightarrow> found st r st'"
proof (induction k arbitrary: c st r st')
  case (Suc k)
  have call: "\<And>c st r st'. vfs_exec k env ctx c st = Some (r, st') \<Longrightarrow> found st r st'" by (rule Suc.IH)
  show ?case using Suc.prems
      link_resolve_internal_found [OF _ call] find_internal_found [OF _ call] find_body_found [OF _ call]
    by (cases c) simp_all
qed simp

lemma find_grows: "vfs_find k env ctx rel path li st = Some (r, st') \<Longrightarrow> vfs_grows st st'"
  unfolding vfs_find_def using exec_found found_def by blast

lemma find_error: "vfs_find k env ctx rel path li st = Some (Inl e, st') \<Longrightarrow> e \<noteq> 0"
  unfolding vfs_find_def using exec_found by fastforce

text \<open>Opening: the driver's changes, then one more reference on the vnode opened.\<close>

lemma opendir_opens:
  assumes "vfs_opendir env fd st = Some (e, fd', st')"
  shows "opened e fd fd' st st'"
proof -
  have op: "vfs_grows st st1 \<and> same_file fd fd1"
    if "vn_oper env n vo_opendir = Some f" "f fd st = Some (e1, fd1, st1)" for n f e1 fd1 st1
    using oper_cases [OF that(1)] opendir_law that(2) by blast
  have fin: "opened 0 fd fd1 st (upd_node v (vn_open_count_update (\<lambda>c. c + 1)) st1)"
    if "vfs_grows st st1 \<and> same_file fd fd1" "of_vnode fd = Some v" "vf_node st1 v = Some n" "\<not> ofile_is_socket fd" for st1 fd1 v n
    using that vfs_opensI by (auto simp: opened_def same_file_def)
  have err: "opened e1 fd fd1 st st1" if "vfs_grows st st1 \<and> same_file fd fd1" "e1 \<noteq> 0" for st1 fd1 e1
    using that by (simp add: opened_def same_file_def)
  have mem: "opened 0 fd (fd\<lparr>of_flags := of_flags fd OR (OF_MEMDIR OR OF_MEMDIR_DOT), of_pos := q\<rparr>) st
      (upd_node v (vn_open_count_update (\<lambda>c. c + 1)) st)"
    if "of_vnode fd = Some v" "vf_node st v = Some n" "\<not> ofile_is_socket fd" for v n q
    by (rule fin) (use that in simp_all)
  show ?thesis using assms fin [OF op] err [OF op] mem err [of st fd]
    unfolding vfs_opendir_def by (auto split: Option.bind_splits if_splits option.splits)
qed

lemma truncate_grows: "open_truncate env node opt st = Some (e, st') \<Longrightarrow> vfs_grows st st'"
  using oper_cases [of _ vo_truncate] truncate_law
  by (fastforce simp: open_truncate_def split: Option.bind_splits if_splits option.splits)

lemma open_finish_opens:
  assumes "open_finish env fd node opt st = Some (e, fd', st')"
  shows "opened e fd fd' st st'"
proof -
  define fd0 where "fd0 = fd\<lparr>of_pos := 0, of_vnode := Some node, of_flags := open_flags opt\<rparr>"
  have op: "vfs_grows st st1 \<and> same_file fd0 fd1"
    if "vn_oper env n vo_open = Some f" "f fd0 opt st = Some (e1, fd1, st1)" for n f e1 fd1 st1
    using oper_cases [OF that(1)] open_law that(2) by blast
  have r: "of_refcount fd0 = of_refcount fd" "of_vnode fd0 = Some node" "\<not> ofile_is_socket fd0"
    by (simp_all add: fd0_def ofile_is_socket_def open_flags_def Let_def flag_simps)
  have fin: "opened 0 fd fd1 st (upd_node v (vn_open_count_update (\<lambda>c. c + 1)) st1)"
    if "vfs_grows st st1 \<and> same_file fd0 fd1" "of_vnode fd1 = Some v" "vf_node st1 v = Some n" for st1 fd1 v n
    using that r vfs_opensI by (auto simp: opened_def same_file_def)
  have err: "opened e1 fd fd1 st st1" if "vfs_grows st st1 \<and> same_file fd0 fd1" "e1 \<noteq> 0" for st1 fd1 e1
    using that r by (simp add: opened_def same_file_def)
  show ?thesis using assms op fin [OF op] err [OF op] fin [of st fd0]
    unfolding open_finish_def Let_def fd0_def [symmetric]
    by (auto split: Option.bind_splits if_splits option.splits)
qed

lemma open_vnode_opens:
  assumes "vfs_open_vnode env ctx fd node opt st = Some (e, fd', st')"
  shows "opened e fd fd' st st'"
proof -
  have fin: "opened e fd fd' st st'"
    if "open_truncate env node opt st = Some (0, st1)" "open_finish env fd1 node opt st1 = Some (e, fd', st')"
      "of_refcount fd1 = of_refcount fd" for st1 fd1
    by (rule opened_pre [OF truncate_grows [OF that(1)] opened_ref [OF open_finish_opens [OF that(2)] that(3)]])
  have dir: "opened e fd fd' st st'"
    if "vfs_opendir env fd1 st = Some (e, fd', st')" "of_refcount fd1 = of_refcount fd" for fd1
    by (rule opened_ref [OF opendir_opens [OF that(1)] that(2)])
  have err: "opened e1 fd fd1 st st1" if "vfs_grows st st1" "e1 \<noteq> 0" "of_refcount fd1 = of_refcount fd" for e1 fd1 st1
    using that by (simp add: opened_def)
  have err0: "opened e1 fd fd1 st st" if "e1 \<noteq> 0" "of_refcount fd1 = of_refcount fd" for e1 fd1
    using that by (simp add: opened_def)
  show ?thesis using assms fin dir err [OF truncate_grows] err0
    unfolding vfs_open_vnode_def Let_def
    by (auto split: Option.bind_splits if_splits)
qed

lemma create_parent_grows: "create_parent k env ctx rel path st = Some (r, st') \<Longrightarrow> vfs_grows st st'"
  using find_grows [of k ctx rel] by (auto simp: create_parent_def split: Option.bind_splits if_splits sum.splits)

lemma creatat_grows:
  assumes "vfs_creatat k env ctx at path mode st = Some (e, st')"
  shows "vfs_grows st st'"
proof -
  have c: "vfs_grows st st'"
    if "create_parent k env ctx at path st = Some (r, st1)" "vn_oper env n vo_creat = Some f"
      "f d name (io_uid ctx) (io_gid ctx) (mode AND NOT (io_umask ctx)) st1 = Some (e, st')" for r st1 n f d name
    using create_parent_grows [OF that(1)] oper_cases [OF that(2)] creat_law that(3) vfs_grows_trans by blast
  show ?thesis using assms c create_parent_grows
    by (auto simp: vfs_creatat_def split: Option.bind_splits if_splits sum.splits option.splits)
qed

lemma mkdirat_grows:
  assumes "vfs_mkdirat k env ctx at path mode st = Some (e, st')"
  shows "vfs_grows st st'"
proof -
  have c: "vfs_grows st st'"
    if "create_parent k env ctx rel path st = Some (r, st1)" "vn_oper env n vo_mkdir = Some f"
      "f d name (io_uid ctx) (io_gid ctx) (mode AND NOT (io_umask ctx)) st1 = Some (e, st')" for rel r st1 n f d name
    using create_parent_grows [OF that(1)] oper_cases [OF that(2)] mkdir_law that(3) vfs_grows_trans by blast
  show ?thesis using assms c create_parent_grows
    unfolding vfs_mkdirat_def Let_def
    by (auto split: Option.bind_splits if_splits sum.splits option.splits)
qed

lemma openat_opens:
  assumes "vfs_openat k env ctx fd at path opt mode st = Some (e, fd', st')"
  shows "opened e fd fd' st st'"
proof -
  have op: "opened e fd fd' st st'"
    if "vfs_grows st st1" "vfs_open_vnode env ctx fd v opt st1 = Some (e, fd', st')" for st1 v
    by (rule opened_pre [OF that(1) open_vnode_opens [OF that(2)]])
  have err: "opened e1 fd fd st st1" if "vfs_grows st st1" "e1 \<noteq> 0" for e1 st1
    using that by (simp add: opened_def)
  have cr: "vfs_grows st st2" if "vfs_find k env ctx rel path 0 st = Some (x, st1)" "vfs_creatat k env ctx rel path mode st1 = Some (y, st2)"
    for rel x st1 y st2
    using find_grows [OF that(1)] creatat_grows [OF that(2)] by (rule vfs_grows_trans)
  have fi: "vfs_grows st st2" if "vfs_grows st st1" "vfs_find k env ctx rel path 0 st1 = Some (x, st2)" for rel x st1 st2
    using that(1) find_grows [OF that(2)] by (rule vfs_grows_trans)
  show ?thesis using assms err [OF find_grows] err [OF cr] err [OF fi [OF cr]] op [OF find_grows] op [OF fi [OF cr]] find_error
    unfolding vfs_openat_def Let_def
    by (auto split: Option.bind_splits if_splits sum.splits)
qed

lemma close_closes:
  assumes "vfs_close env fd st = Some st'"
  shows "vfs_closes fd st st'"
proof -
  have cl: "vfs_grows st1 st'" if "vn_oper env n vo_close = Some f" "f fd st1 = Some st'" for n f st1
    using oper_cases [OF that(1)] close_law that(2) by blast
  show ?thesis using assms cl
    by (auto simp: vfs_close_def vfs_closes_def Let_def bind_eq_Some_conv split: option.splits)
qed

lemma chr_grows:
  "chr_write (Some (env_chr env c)) buf off st = Some (b, st') \<Longrightarrow> vfs_grows st st'"
  "chr_read (Some (env_chr env c)) off n st = Some (b, buf, st') \<Longrightarrow> vfs_grows st st'"
  "chr_ioctl (map_option (env_chr env) dev) cmd arg st = Some (b, st') \<Longrightarrow> vfs_grows st st'"
  using ch_write_law ch_read_law ch_ioctl_law
  by (auto simp: chr_write_def chr_read_def chr_ioctl_def split: option.splits)

lemma write_grows:
  assumes "vfs_write env fd buf st = Some (b, fd', st')"
  shows "vfs_grows st st' \<and> same_file fd fd'"
proof -
  have op: "vfs_grows st st' \<and> same_file fd fd'" if "vn_oper env n vo_write = Some f" "f fd buf st = Some (b, fd', st')" for n f
    using oper_cases [OF that(1)] write_law that(2) by blast
  show ?thesis using assms op chr_grows(1)
    unfolding vfs_write_def by (auto split: Option.bind_splits if_splits)
qed

lemma read_grows:
  assumes "vfs_read env fd n st = Some (b, buf, fd', st')"
  shows "vfs_grows st st' \<and> same_file fd fd'"
proof -
  have op: "vfs_grows st st' \<and> same_file fd fd'" if "vn_oper env m vo_read = Some f" "f fd n st = Some (b, buf, fd', st')" for m f
    using oper_cases [OF that(1)] read_law that(2) by blast
  show ?thesis using assms op chr_grows(2) blk_read_law
    unfolding vfs_read_def by (auto split: Option.bind_splits if_splits)
qed

lemma lseek_grows:
  assumes "vfs_lseek env fd off wh st = Some (b, fd', st')"
  shows "vfs_grows st st' \<and> same_file fd fd'"
proof -
  have op: "vfs_grows st st' \<and> same_file fd fd'" if "vn_oper env m vo_lseek = Some f" "f fd off wh st = Some (b, fd', st')" for m f
    using oper_cases [OF that(1)] lseek_law that(2) by blast
  show ?thesis using assms op unfolding vfs_lseek_def by (auto split: Option.bind_splits if_splits option.splits)
qed

lemma readdir_grows:
  assumes "vfs_readdir env fd st = Some (b, ent, fd', st')"
  shows "vfs_grows st st' \<and> same_file fd fd'"
proof -
  have op: "vfs_grows st st' \<and> same_file fd fd'" if "vn_oper env m vo_readdir = Some f" "f fd st = Some (b, ent, fd', st')" for m f
    using oper_cases [OF that(1)] readdir_law that(2) by blast
  show ?thesis using assms op unfolding vfs_readdir_def Let_def by (auto split: Option.bind_splits if_splits option.splits)
qed

lemma ioctl_grows: "vfs_ioctl env fd cmd arg st = Some (b, st') \<Longrightarrow> vfs_grows st st'"
  using chr_grows(3) blk_ioctl_law unfolding vfs_ioctl_def by (auto split: Option.bind_splits if_splits)

lemma ftruncate_grows:
  assumes "vfs_ftruncate env node len st = Some (e, st')"
  shows "vfs_grows st st'"
proof -
  have op: "vfs_grows st st'" if "vn_oper env m vo_truncate = Some f" "f node l st = Some (e, st')" for m f l
    using oper_cases [OF that(1)] truncate_law that(2) by blast
  show ?thesis using assms op unfolding vfs_ftruncate_def by (auto split: Option.bind_splits if_splits option.splits)
qed

lemma attr_grows:
  "vfs_grows st (upd_node v (\<lambda>n. n\<lparr>vn_mode := f n\<rparr>) st)"
  "vfs_grows st (upd_node v (vn_mode_update (\<lambda>_. m)) st)"
  "vfs_grows st (upd_node v (\<lambda>n. n\<lparr>vn_uid := u, vn_gid := g\<rparr>) st)"
  "vfs_grows st (upd_node v (\<lambda>n. n\<lparr>vn_mode := m, vn_uid := u, vn_gid := g\<rparr>) st)"
  by (rule upd_attr_grows; simp add: same_place_def kept_def)+

lemma chmod_grows:
  assumes "vfs_chmod k env ctx path mode st = Some (e, st')"
  shows "vfs_grows st st'"
proof -
  have op: "vfs_grows st st2" if "vfs_find k env ctx rel path li st = Some (x, st1)" "vn_oper env m vo_chmod = Some f"
      "f node md st1 = Some (y, st2)" for rel li x st1 m f node md y st2
    using find_grows [OF that(1)] oper_cases [OF that(2)] chmod_law that(3) vfs_grows_trans by blast
  have at: "vfs_grows st (upd_node v (\<lambda>n. n\<lparr>vn_mode := f n\<rparr>) st1)"
      "vfs_grows st (upd_node v (vn_mode_update (\<lambda>_. m)) st1)" if "vfs_grows st st1" for st1 v f m
    using that attr_grows vfs_grows_trans by blast+
  show ?thesis using assms op find_grows at [OF find_grows] at [OF op]
    unfolding vfs_chmod_def Let_def by (auto split: Option.bind_splits if_splits option.splits sum.splits)
qed

lemma chown_grows:
  assumes "vfs_chown k env ctx path uid gid st = Some (e, st')"
  shows "vfs_grows st st'"
proof -
  have op: "vfs_grows st st2" if "vfs_find k env ctx rel path li st = Some (x, st1)" "vn_oper env m vo_chown = Some f"
      "f node u g st1 = Some (y, st2)" for rel li x st1 m f node u g y st2
    using find_grows [OF that(1)] oper_cases [OF that(2)] chown_law that(3) vfs_grows_trans by blast
  have at: "vfs_grows st (upd_node v (\<lambda>n. n\<lparr>vn_uid := u, vn_gid := g\<rparr>) st1)" if "vfs_grows st st1" for st1 v u g
    using that attr_grows vfs_grows_trans by blast
  show ?thesis using assms op find_grows at [OF find_grows] at [OF op]
    unfolding vfs_chown_def by (auto split: Option.bind_splits if_splits option.splits sum.splits)
qed

lemma mknod_grows:
  assumes "vfs_mknod k env ctx path mode st = Some (r, st')"
  shows "vfs_grows st st'"
proof (cases "vfs_wf st")
  case wf: True
  have mk: "vfs_grows st st3 \<and> (e \<noteq> 0 \<longrightarrow> vnode_destroy nod st3 = Some st4 \<longrightarrow> vfs_grows st st4)"
    if p: "create_parent k env ctx rel path st = Some (x, st1)" and d: "vf_node st1 d = Some n" and o: "vn_oper env n vo_mknod = Some f"
      and c: "vnode_create t (Some name) st1 = Some (nod, st2)"
      and e: "f d nod (upd_node nod (\<lambda>n. n\<lparr>vn_mode := m, vn_uid := u, vn_gid := g\<rparr>) st2) = Some (e, st3)"
    for rel x st1 d n f t name nod st2 m u g e st3 st4
  proof -
    let ?st = "upd_node nod (\<lambda>n. n\<lparr>vn_mode := m, vn_uid := u, vn_gid := g\<rparr>) st2"
    note g1 = create_parent_grows [OF p]
    note wf1 = vfs_grows_wf [OF g1 wf]
    obtain cn where cn: "st2 = st1\<lparr>vf_node := (vf_node st1)(nod \<mapsto> cn), vf_next := Suc nod\<rparr>" "nod = vf_next st1" "vn_parent cn = None"
      using vnode_create_spec [OF c] by blast
    have "d \<noteq> nod" using wf_basic(2) [OF wf1 d] cn(2) by simp
    moreover obtain k' where "vo_mknod (env_ops env k') = Some f" using oper_cases [OF o] by blast
    ultimately have f: "vfs_grows ?st st3" "e \<noteq> 0 \<Longrightarrow> vf_node st3 nod = vf_node ?st nod"
      using mknod_law e by blast+
    have g2: "vfs_grows st st3"
      using vfs_grows_trans [OF g1 vfs_grows_trans [OF vnode_create_grows [OF c] vfs_grows_trans [OF attr_grows(4) f(1)]]] .
    have "vfs_grows st st4" if "e \<noteq> 0" "vnode_destroy nod st3 = Some st4"
    proof (rule grows_drop [OF g2 that(2)])
      show "vf_node st3 nod = Some (cn\<lparr>vn_mode := m, vn_uid := u, vn_gid := g\<rparr>)" using f(2) [OF that(1)] by (simp add: cn(1))
      show "vf_next st \<le> nod" using vfs_grows_next [OF g1 wf] cn(2) by simp
    qed (simp add: cn(3))
    thus ?thesis using g2 by blast
  qed
  have pg: "vfs_grows st st1" if "create_parent k env ctx rel path st = Some (x, st1)" for rel x st1
    by (rule create_parent_grows [OF that])
  show ?thesis using assms pg mk
    unfolding vfs_mknod_def Let_def
    by (auto split: Option.bind_splits if_splits option.splits sum.splits)
qed (simp add: vfs_grows_def)

lemma unlinkat_removes:
  assumes "vfs_unlinkat k env ctx at path flags st = Some (e, st')"
  shows "vfs_grows st st' \<or> e = 0 \<and> vfs_removes st st'"
proof -
  have op: "vfs_grows st st2" if "vfs_find k env ctx rel path li st = Some (x, st1)" "vn_oper env n vo_unlink = Some f"
    "f v st1 = Some (y, st2)" for rel li x st1 n f v y st2
    using find_grows [OF that(1)] oper_cases [OF that(2)] unlink_law that(3) vfs_grows_trans by blast
  have rm: "vfs_removes st st4"
    if g: "vfs_grows st st2" and d: "vnode_detach v st2 = Some st3" "vnode_destroy v st3 = Some st4" for v st2 st3 st4
  proof (unfold vfs_removes_def, rule impI)
    assume wf: "vfs_wf st"
    have wf2: "vfs_wf st2" by (rule vfs_grows_wf [OF g wf])
    have g3: "vfs_grows st st3" using g vnode_detach_grows(2) [OF d(1) wf2] by (rule vfs_grows_trans)
    obtain n where n: "vf_node st2 v = Some n" "vf_node st3 v = map_option (\<lambda>m. m\<lparr>vn_parent := None,
              vn_children := remove1 v (vn_children m)\<rparr>) (vf_node st2 v)"
      using vnode_detach_nodes [OF d(1) wf2] by auto
    let ?n = "n\<lparr>vn_parent := None, vn_children := remove1 v (vn_children n)\<rparr>"
    have "vf_node st3 v = Some ?n" using n by simp
    from vnode_destroy_wf [OF d(2) vnode_detach_grows(1) [OF d(1) wf2] this]
    show "vfs_wf st4 \<and> (\<exists>v n st1. vfs_grows st st1 \<and> vf_node st1 v = Some n
     \<and> vn_open_count n = 0 \<and> vf_node st4 = (vf_node st1)(v := None) \<and> vf_next st4 = vf_next st1)"
      using g3 \<open>vf_node st3 v = Some ?n\<close> by (intro conjI exI [of _ v] exI [of _ ?n] exI [of _ st3]) simp_all
  qed
  show ?thesis using assms find_grows op rm [OF op]
    unfolding vfs_unlinkat_def Let_def
    by (auto split: Option.bind_splits if_splits option.splits sum.splits)
qed

lemma setcwd_grows:
  assumes "vfs_setcwd k env ctx path st = Some (e, ctx', st')"
  shows "vfs_grows st st'"
proof -
  have ex: "vfs_grows st1 st2" if "vfs_exec k env ctx c st1 = Some (x, st2)" for c x st1 st2
    using exec_found [OF that] by (simp add: found_def)
  have to: "vfs_grows st1 st2" if "setcwd_to k env ctx v st1 = Some (y, c, st2)" for v y c st1 st2
    using that ex unfolding setcwd_to_def vfs_link_resolve_def
    by (auto split: Option.bind_splits if_splits sum.splits)
  have ef: "vfs_grows st st2" if "vfs_exec k env ctx c st = Some (x, st1)" "setcwd_to k env ctx v st1 = Some (y, c', st2)"
    for c x st1 v y c' st2
    using ex [OF that(1)] to [OF that(2)] by (rule vfs_grows_trans)
  have ff: "vfs_grows st st2" if "vfs_find k env ctx rel path 0 st = Some (x, st1)" "setcwd_to k env ctx v st1 = Some (y, c', st2)"
    for rel x st1 v y c' st2
    using find_grows [OF that(1)] to [OF that(2)] by (rule vfs_grows_trans)
  show ?thesis using assms ex find_grows ef ff unfolding vfs_setcwd_def
    by (auto split: Option.bind_splits if_splits option.splits sum.splits)
qed

end

end
