(* ===== verification/Sys_File.thy ===== *)
theory Sys_File
  imports Vfs_Driver
begin

text \<open>
  The file system calls (src/sys/sys_file.c), what processes do with their descriptor tables
  (\<open>process_ioctx_fork\<close>, \<open>sys_setuid\<close>, \<open>sys_setgid\<close> and \<open>sys_setsid\<close> of src/sys/process.c, the loops of
  \<open>sys_exit\<close> in src/sys/thread.c and of \<open>sys_execve\<close> in src/sys/execve.c that close descriptors), and the
  accounting of references that ties descriptors, open files and vnodes together.

  Open files live in a store; \<open>fy_fd (p, i)\<close> is \<open>fds[i]\<close> of process \<open>p\<close>. Every call takes the calling
  process first. User pointers are not modelled: a call takes the string or bytes the pointer leads to.
\<close>

abbreviation (input) THREAD_MAX_FDS :: nat where "THREAD_MAX_FDS \<equiv> 16"
abbreviation (input) AT_FDCWD :: int where "AT_FDCWD \<equiv> - 100"

record proc_io =
  pi_ioctx :: vfs_ioctx
  pi_ctty :: "nat option"

record ('d, 'w) fsys =
  fy_vfs :: "('d, 'w) vfs"
  fy_files :: "nat \<Rightarrow> ofile option"
  fy_next :: nat
  fy_fd :: "nat \<times> nat \<Rightarrow> nat option"
  fy_procs :: "nat \<Rightarrow> proc_io option"

section \<open>Calls on descriptors\<close>

definition get_fd :: "nat \<Rightarrow> int \<Rightarrow> ('d, 'w) fsys \<Rightarrow> nat option" where
  "get_fd p fd s = (if fd < 0 \<or> int THREAD_MAX_FDS \<le> fd then None else fy_fd s (p, nat fd))"

definition get_ioctx :: "nat \<Rightarrow> ('d, 'w) fsys \<Rightarrow> vfs_ioctx kern" where
  "get_ioctx p s = map_option pi_ioctx (fy_procs s p)"

definition get_at_vnode :: "nat \<Rightarrow> int \<Rightarrow> 32 word \<Rightarrow> ('d, 'w) fsys \<Rightarrow> (int + nat option) kern" where
  "get_at_vnode p dfd flags s =
     (if dfd = AT_FDCWD then do {
        ctx \<leftarrow> get_ioctx p s;
        Some (Inr (cwd_vnode ctx))
      }
      else (case get_fd p dfd s of
              None \<Rightarrow> Some (Inl (- EBADF))
            | Some i \<Rightarrow> do {
                fd \<leftarrow> fy_files s i;
                Some (if flags AND AT_EMPTY_PATH = 0 \<and> of_flags fd AND OF_DIRECTORY = 0 then Inl (- ENOTDIR)
                      else Inr (of_vnode fd))
              }))"

text \<open>
  Calls on a descriptor look it up, refuse sockets and pass the open file on; \<open>with_file\<close> is that
  common frame, with the result for refused calls and the operation on the open file as arguments.
\<close>

definition put_file :: "nat \<Rightarrow> ofile \<Rightarrow> ('d, 'w) vfs \<Rightarrow> ('d, 'w) fsys \<Rightarrow> ('d, 'w) fsys" where
  "put_file i fd st s = s\<lparr>fy_vfs := st, fy_files := (fy_files s)(i \<mapsto> fd)\<rparr>"

definition with_file ::
  "nat \<Rightarrow> int \<Rightarrow> (int \<Rightarrow> 'r) \<Rightarrow> (ofile \<Rightarrow> ('d, 'w) vfs \<Rightarrow> ('r \<times> ofile \<times> ('d, 'w) vfs) kern) \<Rightarrow> ('d, 'w) fsys
     \<Rightarrow> ('r \<times> ('d, 'w) fsys) kern" where
  "with_file p fd refuse f s =
     (case get_fd p fd s of
        None \<Rightarrow> Some (refuse (- EBADF), s)
      | Some i \<Rightarrow> do {
          file \<leftarrow> fy_files s i;
          (if ofile_is_socket file then Some (refuse (- EINVAL), s)
           else do {
             (r, file, st) \<leftarrow> f file (fy_vfs s);
             Some (r, put_file i file st s)
           })
        })"

definition sys_read :: "('d, 'w) vfs_env \<Rightarrow> nat \<Rightarrow> int \<Rightarrow> nat \<Rightarrow> ('d, 'w) fsys \<Rightarrow> ((int \<times> byte list) \<times> ('d, 'w) fsys) kern" where
  "sys_read env p fd lim = with_file p fd (\<lambda>e. (e, [])) (\<lambda>file st. do {
     (r, buf, file, st) \<leftarrow> vfs_read env file lim st;
     Some ((r, buf), file, st)
   })"

definition sys_write :: "('d, 'w) vfs_env \<Rightarrow> nat \<Rightarrow> int \<Rightarrow> byte list \<Rightarrow> ('d, 'w) fsys \<Rightarrow> (int \<times> ('d, 'w) fsys) kern" where
  "sys_write env p fd buf = with_file p fd (\<lambda>e. e) (\<lambda>file st. vfs_write env file buf st)"

definition sys_ftruncate :: "('d, 'w) vfs_env \<Rightarrow> nat \<Rightarrow> int \<Rightarrow> int \<Rightarrow> ('d, 'w) fsys \<Rightarrow> (int \<times> ('d, 'w) fsys) kern" where
  "sys_ftruncate env p fd len = with_file p fd (\<lambda>e. e) (\<lambda>file st. do {
     node \<leftarrow> of_vnode file;
     (r, st) \<leftarrow> vfs_ftruncate env node len st;
     Some (r, file, st)
   })"

definition sys_lseek :: "('d, 'w) vfs_env \<Rightarrow> nat \<Rightarrow> int \<Rightarrow> int \<Rightarrow> int \<Rightarrow> ('d, 'w) fsys \<Rightarrow> (int \<times> ('d, 'w) fsys) kern" where
  "sys_lseek env p fd offset whence = with_file p fd (\<lambda>e. e) (\<lambda>file st. vfs_lseek env file offset whence st)"

definition sys_ioctl :: "('d, 'w) vfs_env \<Rightarrow> nat \<Rightarrow> int \<Rightarrow> nat \<Rightarrow> nat \<Rightarrow> ('d, 'w) fsys \<Rightarrow> (int \<times> ('d, 'w) fsys) kern" where
  "sys_ioctl env p fd cmd arg = with_file p fd (\<lambda>e. e) (\<lambda>file st. do {
     (r, st) \<leftarrow> vfs_ioctl env file cmd arg st;
     Some (r, file, st)
   })"

definition sys_readdir ::
  "('d, 'w) vfs_env \<Rightarrow> nat \<Rightarrow> int \<Rightarrow> ('d, 'w) fsys \<Rightarrow> ((int \<times> dirent option) \<times> ('d, 'w) fsys) kern" where
  "sys_readdir env p fd = with_file p fd (\<lambda>e. (e, None)) (\<lambda>file st. do {
     (r, ent, file, st) \<leftarrow> vfs_readdir env file st;
     Some ((r, ent), file, st)
   })"

section \<open>Calls on paths\<close>

definition sys_creat :: "string \<Rightarrow> 32 word \<Rightarrow> int" where
  "sys_creat path mode = - EINVAL"

definition sys_mkdirat ::
  "nat \<Rightarrow> ('d, 'w) vfs_env \<Rightarrow> nat \<Rightarrow> int \<Rightarrow> string \<Rightarrow> 32 word \<Rightarrow> ('d, 'w) fsys \<Rightarrow> (int \<times> ('d, 'w) fsys) kern" where
  "sys_mkdirat k env p dfd path mode s = do {
     at \<leftarrow> get_at_vnode p dfd 0 s;
     (case at of
        Inl e \<Rightarrow> Some (e, s)
      | Inr at \<Rightarrow> do {
          ctx \<leftarrow> get_ioctx p s;
          (r, st) \<leftarrow> vfs_mkdirat k env ctx at path mode (fy_vfs s);
          Some (r, s\<lparr>fy_vfs := st\<rparr>)
        })
   }"

definition sys_unlinkat ::
  "nat \<Rightarrow> ('d, 'w) vfs_env \<Rightarrow> nat \<Rightarrow> int \<Rightarrow> string \<Rightarrow> 32 word \<Rightarrow> ('d, 'w) fsys \<Rightarrow> (int \<times> ('d, 'w) fsys) kern" where
  "sys_unlinkat k env p dfd path flags s = do {
     at \<leftarrow> get_at_vnode p dfd 0 s;
     (case at of
        Inl e \<Rightarrow> Some (e, s)
      | Inr at \<Rightarrow> do {
          ctx \<leftarrow> get_ioctx p s;
          (r, st) \<leftarrow> vfs_unlinkat k env ctx at path flags (fy_vfs s);
          Some (r, s\<lparr>fy_vfs := st\<rparr>)
        })
   }"

definition sys_truncate ::
  "nat \<Rightarrow> ('d, 'w) vfs_env \<Rightarrow> nat \<Rightarrow> string \<Rightarrow> int \<Rightarrow> ('d, 'w) fsys \<Rightarrow> (int \<times> ('d, 'w) fsys) kern" where
  "sys_truncate k env p path len s = do {
     ctx \<leftarrow> get_ioctx p s;
     (res, st) \<leftarrow> vfs_find k env ctx (cwd_vnode ctx) path 0 (fy_vfs s);
     (case res of
        Inl e \<Rightarrow> Some (e, s\<lparr>fy_vfs := st\<rparr>)
      | Inr node \<Rightarrow> do {
          (r, st) \<leftarrow> vfs_ftruncate env node len st;
          Some (r, s\<lparr>fy_vfs := st\<rparr>)
        })
   }"

definition sys_chdir ::
  "nat \<Rightarrow> ('d, 'w) vfs_env \<Rightarrow> nat \<Rightarrow> string \<Rightarrow> ('d, 'w) fsys \<Rightarrow> (int \<times> ('d, 'w) fsys) kern" where
  "sys_chdir k env p path s = do {
     pr \<leftarrow> fy_procs s p;
     (r, ctx, st) \<leftarrow> vfs_setcwd k env (pi_ioctx pr) path (fy_vfs s);
     Some (r, s\<lparr>fy_vfs := st, fy_procs := (fy_procs s)(p \<mapsto> pr\<lparr>pi_ioctx := ctx\<rparr>)\<rparr>)
   }"

definition sys_getcwd :: "nat \<Rightarrow> nat \<Rightarrow> ('d, 'w) fsys \<Rightarrow> (int \<times> string) kern" where
  "sys_getcwd p lim s = do {
     ctx \<leftarrow> get_ioctx p s;
     (case cwd_vnode ctx of
        None \<Rightarrow> Some (if lim < 2 then (- 1, []) else (0, ''/''))
      | Some v \<Rightarrow> do {
          path \<leftarrow> vfs_vnode_path (fy_vfs s) (Some v);
          kassert (length path < PATH_MAX);
          Some (if lim \<le> length path then (- 1, []) else (0, path))
        })
   }"

text \<open>The first free descriptor, searched from zero.\<close>

definition free_fd :: "nat \<Rightarrow> ('d, 'w) fsys \<Rightarrow> nat option" where
  "free_fd p s = find (\<lambda>i. fy_fd s (p, i) = None) [0..<THREAD_MAX_FDS]"

definition set_ctty :: "('d, 'w) vfs_env \<Rightarrow> nat \<Rightarrow> ofile \<Rightarrow> ('d, 'w) fsys \<Rightarrow> ('d, 'w) fsys kern" where
  "set_ctty env p file s = do {
     pr \<leftarrow> fy_procs s p;
     (if pi_ctty pr = None \<and> \<not> ofile_is_socket file then do {
        v \<leftarrow> of_vnode file;
        n \<leftarrow> vf_node (fy_vfs s) v;
        (if vn_type n = VN_CHR then do {
           dev \<leftarrow> vn_dev n;
           Some (if ch_tty (env_chr env dev) then s\<lparr>fy_procs := (fy_procs s)(p \<mapsto> pr\<lparr>pi_ctty := Some v\<rparr>)\<rparr> else s)
         }
         else Some s)
      }
      else Some s)
   }"

definition sys_openat ::
  "nat \<Rightarrow> ('d, 'w) vfs_env \<Rightarrow> nat \<Rightarrow> int \<Rightarrow> string \<Rightarrow> 32 word \<Rightarrow> 32 word \<Rightarrow> ('d, 'w) fsys
     \<Rightarrow> (int \<times> ('d, 'w) fsys) kern" where
  "sys_openat k env p dfd path flags mode s = do {
     at \<leftarrow> get_at_vnode p dfd 0 s;
     (case at of
        Inl e \<Rightarrow> Some (e, s)
      | Inr at \<Rightarrow>
          (case free_fd p s of
             None \<Rightarrow> Some (- EMFILE, s)
           | Some fd \<Rightarrow> do {
               ctx \<leftarrow> get_ioctx p s;
               (r, file, st) \<leftarrow> vfs_openat k env ctx ofile_create at path flags mode (fy_vfs s);
               (if r \<noteq> 0 then do {
                  _ \<leftarrow> ofile_destroy file;
                  Some (r, s\<lparr>fy_vfs := st\<rparr>)
                }
                else do {
                  file \<leftarrow> ofile_dup file;
                  kassert (of_refcount file = 1);
                  let i = fy_next s;
                  let s = s\<lparr>fy_vfs := st, fy_files := (fy_files s)(i \<mapsto> file), fy_next := Suc i,
                            fy_fd := (fy_fd s)((p, fd) \<mapsto> i)\<rparr>;
                  s \<leftarrow> set_ctty env p file s;
                  Some (int fd, s)
                })
             }))
   }"

text \<open>\<open>close_slot\<close> is what \<open>sys_close\<close> and the closing loops do with one descriptor that is in use.\<close>

definition close_slot :: "('d, 'w) vfs_env \<Rightarrow> nat \<Rightarrow> nat \<Rightarrow> ('d, 'w) fsys \<Rightarrow> ('d, 'w) fsys kern" where
  "close_slot env p fd s =
     (case fy_fd s (p, fd) of
        None \<Rightarrow> Some s
      | Some i \<Rightarrow> do {
          file \<leftarrow> fy_files s i;
          (rest, st) \<leftarrow> ofile_close env file (fy_vfs s);
          Some (s\<lparr>fy_vfs := st, fy_files := (fy_files s)(i := rest), fy_fd := (fy_fd s)((p, fd) := None)\<rparr>)
        })"

definition sys_close :: "('d, 'w) vfs_env \<Rightarrow> nat \<Rightarrow> int \<Rightarrow> ('d, 'w) fsys \<Rightarrow> ('d, 'w) fsys kern" where
  "sys_close env p fd s = (if fd < 0 \<or> int THREAD_MAX_FDS \<le> fd then Some s else close_slot env p (nat fd) s)"

definition sys_dup2 ::
  "('d, 'w) vfs_env \<Rightarrow> nat \<Rightarrow> int \<Rightarrow> int \<Rightarrow> ('d, 'w) fsys \<Rightarrow> (int \<times> ('d, 'w) fsys) kern" where
  "sys_dup2 env p from to s =
     (if from < 0 \<or> to < 0 \<or> int THREAD_MAX_FDS \<le> from \<or> int THREAD_MAX_FDS \<le> to then Some (- EBADF, s)
      else if to = from then Some (to, s)
      else (case fy_fd s (p, nat from) of
              None \<Rightarrow> Some (- EBADF, s)
            | Some i \<Rightarrow> do {
                s \<leftarrow> sys_close env p to s;
                kassert (fy_fd s (p, nat to) = None);
                file \<leftarrow> fy_files s i;
                file \<leftarrow> ofile_dup file;
                Some (to, s\<lparr>fy_files := (fy_files s)(i \<mapsto> file), fy_fd := (fy_fd s)((p, nat to) \<mapsto> i)\<rparr>)
              }))"

definition sys_dup :: "('d, 'w) vfs_env \<Rightarrow> nat \<Rightarrow> int \<Rightarrow> ('d, 'w) fsys \<Rightarrow> (int \<times> ('d, 'w) fsys) kern" where
  "sys_dup env p from s = sys_dup2 env p from (case free_fd p s of None \<Rightarrow> - 1 | Some i \<Rightarrow> int i) s"

definition sys_fstatat ::
  "nat \<Rightarrow> ('d, 'w) vfs_env \<Rightarrow> nat \<Rightarrow> int \<Rightarrow> string \<Rightarrow> 32 word \<Rightarrow> ('d, 'w) fsys
     \<Rightarrow> ((int \<times> stat_buf option) \<times> ('d, 'w) fsys) kern" where
  "sys_fstatat k env p dfd path flags s = do {
     at \<leftarrow> get_at_vnode p dfd flags s;
     (case at of
        Inl e \<Rightarrow> Some ((e, None), s)
      | Inr at \<Rightarrow> do {
          ctx \<leftarrow> get_ioctx p s;
          (r, buf, st) \<leftarrow> vfs_fstatat k env ctx at path flags (fy_vfs s);
          Some ((r, buf), s\<lparr>fy_vfs := st\<rparr>)
        })
   }"

definition sys_faccessat ::
  "nat \<Rightarrow> ('d, 'w) vfs_env \<Rightarrow> nat \<Rightarrow> int \<Rightarrow> string \<Rightarrow> 32 word \<Rightarrow> 32 word \<Rightarrow> ('d, 'w) fsys
     \<Rightarrow> (int \<times> ('d, 'w) fsys) kern" where
  "sys_faccessat k env p dfd path mode flags s = do {
     at \<leftarrow> get_at_vnode p dfd flags s;
     (case at of
        Inl e \<Rightarrow> Some (e, s)
      | Inr at \<Rightarrow> do {
          ctx \<leftarrow> get_ioctx p s;
          (r, st) \<leftarrow> vfs_faccessat k env ctx at path mode flags (fy_vfs s);
          Some (r, s\<lparr>fy_vfs := st\<rparr>)
        })
   }"

definition sys_readlinkat ::
  "nat \<Rightarrow> ('d, 'w) vfs_env \<Rightarrow> nat \<Rightarrow> int \<Rightarrow> string \<Rightarrow> nat \<Rightarrow> ('d, 'w) fsys
     \<Rightarrow> ((int \<times> string) \<times> ('d, 'w) fsys) kern" where
  "sys_readlinkat k env p dfd path lim s = do {
     at \<leftarrow> get_at_vnode p dfd 0 s;
     (case at of
        Inl e \<Rightarrow> Some ((e, []), s)
      | Inr at \<Rightarrow> do {
          ctx \<leftarrow> get_ioctx p s;
          (r, buf, st) \<leftarrow> vfs_readlinkat k env ctx at path lim (fy_vfs s);
          Some ((r, buf), s\<lparr>fy_vfs := st\<rparr>)
        })
   }"

definition sys_chmod ::
  "nat \<Rightarrow> ('d, 'w) vfs_env \<Rightarrow> nat \<Rightarrow> string \<Rightarrow> 32 word \<Rightarrow> ('d, 'w) fsys \<Rightarrow> (int \<times> ('d, 'w) fsys) kern" where
  "sys_chmod k env p path mode s = do {
     ctx \<leftarrow> get_ioctx p s;
     (r, st) \<leftarrow> vfs_chmod k env ctx path mode (fy_vfs s);
     Some (r, s\<lparr>fy_vfs := st\<rparr>)
   }"

definition sys_chown ::
  "nat \<Rightarrow> ('d, 'w) vfs_env \<Rightarrow> nat \<Rightarrow> string \<Rightarrow> 32 word \<Rightarrow> 32 word \<Rightarrow> ('d, 'w) fsys \<Rightarrow> (int \<times> ('d, 'w) fsys) kern" where
  "sys_chown k env p path uid gid s = do {
     ctx \<leftarrow> get_ioctx p s;
     (r, st) \<leftarrow> vfs_chown k env ctx path uid gid (fy_vfs s);
     Some (r, s\<lparr>fy_vfs := st\<rparr>)
   }"

definition sys_mknod ::
  "nat \<Rightarrow> ('d, 'w) vfs_env \<Rightarrow> nat \<Rightarrow> string \<Rightarrow> 32 word \<Rightarrow> ('d, 'w) fsys \<Rightarrow> (int \<times> ('d, 'w) fsys) kern" where
  "sys_mknod k env p path mode s = do {
     ctx \<leftarrow> get_ioctx p s;
     (res, st) \<leftarrow> vfs_mknod k env ctx path mode (fy_vfs s);
     (case res of
        Inl e \<Rightarrow> Some (e, s\<lparr>fy_vfs := st\<rparr>)
      | Inr node \<Rightarrow>
          if mode AND S_IFMT = S_IFIFO then do {
            (r, st) \<leftarrow> env_fifo_create env node st;
            Some (r, s\<lparr>fy_vfs := st\<rparr>)
          }
          else Some (- EINVAL, s\<lparr>fy_vfs := st\<rparr>))
   }"

section \<open>Descriptor tables of processes\<close>

definition process_ioctx_empty :: "vfs_ioctx" where
  "process_ioctx_empty = \<lparr>cwd_vnode = None, io_umask = 0x12, io_uid = 0, io_gid = 0\<rparr>"

fun fork_fds :: "nat \<Rightarrow> nat \<Rightarrow> nat list \<Rightarrow> ('d, 'w) fsys \<Rightarrow> ('d, 'w) fsys kern" where
  "fork_fds dst src [] s = Some s"
| "fork_fds dst src (j # js) s =
     (case fy_fd s (src, j) of
        None \<Rightarrow> fork_fds dst src js s
      | Some i \<Rightarrow> do {
          file \<leftarrow> fy_files s i;
          file \<leftarrow> ofile_dup file;
          fork_fds dst src js (s\<lparr>fy_files := (fy_files s)(i \<mapsto> file), fy_fd := (fy_fd s)((dst, j) \<mapsto> i)\<rparr>)
        })"

definition process_ioctx_fork :: "nat \<Rightarrow> nat \<Rightarrow> ('d, 'w) fsys \<Rightarrow> ('d, 'w) fsys kern" where
  "process_ioctx_fork dst src s = do {
     sp \<leftarrow> fy_procs s src;
     let ctx = process_ioctx_empty\<lparr>cwd_vnode := cwd_vnode (pi_ioctx sp), io_gid := io_gid (pi_ioctx sp),
                                   io_uid := io_uid (pi_ioctx sp), io_umask := io_umask (pi_ioctx sp)\<rparr>;
     fork_fds dst src [0..<THREAD_MAX_FDS]
       (s\<lparr>fy_fd := (\<lambda>(q, j). if q = dst then None else fy_fd s (q, j)),
          fy_procs := (fy_procs s)(dst \<mapsto> \<lparr>pi_ioctx = ctx, pi_ctty = None\<rparr>)\<rparr>)
   }"

text \<open>The part of \<open>sys_fork\<close> that concerns files: the new process shares all descriptors and the terminal.\<close>

definition fork_io :: "nat \<Rightarrow> nat \<Rightarrow> ('d, 'w) fsys \<Rightarrow> ('d, 'w) fsys kern" where
  "fork_io dst src s = do {
     s \<leftarrow> process_ioctx_fork dst src s;
     sp \<leftarrow> fy_procs s src;
     dp \<leftarrow> fy_procs s dst;
     Some (s\<lparr>fy_procs := (fy_procs s)(dst \<mapsto> dp\<lparr>pi_ctty := pi_ctty sp\<rparr>)\<rparr>)
   }"

text \<open>The loops that close all descriptors of a process that satisfy a condition.\<close>

fun close_fds ::
  "('d, 'w) vfs_env \<Rightarrow> nat \<Rightarrow> (ofile \<Rightarrow> bool) \<Rightarrow> nat list \<Rightarrow> ('d, 'w) fsys \<Rightarrow> ('d, 'w) fsys kern" where
  "close_fds env p cond [] s = Some s"
| "close_fds env p cond (j # js) s =
     (case fy_fd s (p, j) of
        None \<Rightarrow> close_fds env p cond js s
      | Some i \<Rightarrow> do {
          file \<leftarrow> fy_files s i;
          s \<leftarrow> (if cond file then close_slot env p j s else Some s);
          close_fds env p cond js s
        })"

definition exit_close_fds :: "('d, 'w) vfs_env \<Rightarrow> nat \<Rightarrow> ('d, 'w) fsys \<Rightarrow> ('d, 'w) fsys kern" where
  "exit_close_fds env p s = close_fds env p (\<lambda>_. True) [0..<THREAD_MAX_FDS] s"

definition exec_close_fds :: "('d, 'w) vfs_env \<Rightarrow> nat \<Rightarrow> ('d, 'w) fsys \<Rightarrow> ('d, 'w) fsys kern" where
  "exec_close_fds env p s = close_fds env p (\<lambda>file. of_flags file AND OF_CLOEXEC \<noteq> 0) [0..<THREAD_MAX_FDS] s"

definition sys_setsid :: "('d, 'w) vfs_env \<Rightarrow> nat \<Rightarrow> ('d, 'w) fsys \<Rightarrow> ('d, 'w) fsys kern" where
  "sys_setsid env p s = do {
     pr \<leftarrow> fy_procs s p;
     (case pi_ctty pr of
        None \<Rightarrow> Some s
      | Some tty \<Rightarrow> do {
          s \<leftarrow> close_fds env p (\<lambda>file. \<not> ofile_is_socket file \<and> of_vnode file = Some tty) [0..<THREAD_MAX_FDS] s;
          Some (s\<lparr>fy_procs := (fy_procs s)(p \<mapsto> pr\<lparr>pi_ctty := None\<rparr>)\<rparr>)
        })
   }"

definition sys_setuid :: "nat \<Rightarrow> 32 word \<Rightarrow> ('d, 'w) fsys \<Rightarrow> (int \<times> ('d, 'w) fsys) kern" where
  "sys_setuid p uid s = do {
     pr \<leftarrow> fy_procs s p;
     Some (if io_uid (pi_ioctx pr) \<noteq> 0 then (- EACCES, s)
           else (0, s\<lparr>fy_procs := (fy_procs s)(p \<mapsto> pr\<lparr>pi_ioctx := (pi_ioctx pr)\<lparr>io_uid := uid\<rparr>\<rparr>)\<rparr>))
   }"

definition sys_setgid :: "nat \<Rightarrow> 32 word \<Rightarrow> ('d, 'w) fsys \<Rightarrow> (int \<times> ('d, 'w) fsys) kern" where
  "sys_setgid p gid s = do {
     pr \<leftarrow> fy_procs s p;
     Some (if io_gid (pi_ioctx pr) \<noteq> 0 \<and> io_uid (pi_ioctx pr) \<noteq> 0 then (- EACCES, s)
           else (0, s\<lparr>fy_procs := (fy_procs s)(p \<mapsto> pr\<lparr>pi_ioctx := (pi_ioctx pr)\<lparr>io_gid := gid\<rparr>\<rparr>)\<rparr>))
   }"

end
