(* ===== verification/File_Refs.thy ===== *)
theory File_Refs
  imports Sys_File
begin

text \<open>
  Reference accounting of descriptors, open files and vnodes: the invariant, and that every file
  system call keeps it on top of any driver that obeys the \<open>vfs_driver\<close> contract.
\<close>

section \<open>The invariant\<close>

definition refs :: "('d, 'w) fsys \<Rightarrow> nat \<Rightarrow> (nat \<times> nat) set" where
  "refs s i = {x. fy_fd s x = Some i}"

definition users :: "('d, 'w) fsys \<Rightarrow> nat \<Rightarrow> nat set" where
  "users s v = {i. \<exists>fl. fy_files s i = Some fl \<and> of_vnode fl = Some v}"

text \<open>
  The number of processes is bounded (a process owns pages, and there are at most \<open>2 ^ 18\<close> of them),
  so that the 32-bit open counts cannot wrap.
\<close>

definition fds_ok :: "('d, 'w) fsys \<Rightarrow> bool" where
  "fds_ok s \<longleftrightarrow> finite (dom (fy_procs s)) \<and> THREAD_MAX_FDS * card (dom (fy_procs s)) < 2 ^ 32
     \<and> (\<forall>x i. fy_fd s x = Some i \<longrightarrow> x \<in> dom (fy_procs s) \<times> {..<THREAD_MAX_FDS} \<and> fy_files s i \<noteq> None)"

definition file_ok :: "('d, 'w) fsys \<Rightarrow> nat \<Rightarrow> ofile \<Rightarrow> bool" where
  "file_ok s i fl \<longleftrightarrow> i < fy_next s \<and> refs s i \<noteq> {} \<and> of_refcount fl = int (card (refs s i))
     \<and> \<not> ofile_is_socket fl \<and> (\<exists>v n. of_vnode fl = Some v \<and> vf_node (fy_vfs s) v = Some n)"

definition counts_ok :: "('d, 'w) fsys \<Rightarrow> bool" where
  "counts_ok s \<longleftrightarrow> (\<forall>v n. vf_node (fy_vfs s) v = Some n \<longrightarrow> vn_open_count n = of_nat (card (users s v)))"

definition files_ok :: "('d, 'w) fsys \<Rightarrow> bool" where
  "files_ok s \<longleftrightarrow> vfs_wf (fy_vfs s) \<and> fds_ok s \<and> (\<forall>i fl. fy_files s i = Some fl \<longrightarrow> file_ok s i fl) \<and> counts_ok s"

lemma files_okD:
  assumes "files_ok s"
  shows "vfs_wf (fy_vfs s)" "fds_ok s" "fy_files s i = Some fl \<Longrightarrow> file_ok s i fl" "counts_ok s"
  using assms by (simp_all add: files_ok_def)

lemma fds_finite:
  assumes "fds_ok s"
  shows "finite (dom (fy_fd s))" "card (dom (fy_fd s)) < 2 ^ 32"
proof -
  let ?B = "dom (fy_procs s) \<times> {..<16::nat}"
  have b: "finite ?B" "dom (fy_fd s) \<subseteq> ?B" using assms unfolding fds_ok_def by (blast, blast)
  show "finite (dom (fy_fd s))" by (rule finite_subset [OF b(2,1)])
  have "card (dom (fy_fd s)) \<le> card ?B" by (rule card_mono [OF b])
  also have "\<dots> = 16 * card (dom (fy_procs s))" by (simp add: card_cartesian_product)
  also have "\<dots> < 2 ^ 32" using assms by (simp add: fds_ok_def)
  finally show "card (dom (fy_fd s)) < 2 ^ 32" .
qed

lemma refs_finite: "fds_ok s \<Longrightarrow> finite (refs s i)"
  by (rule finite_subset [OF _ fds_finite(1)]) (auto simp: refs_def)

lemma users_bound:
  assumes "files_ok s"
  shows "finite (users s v)" "card (users s v) < 2 ^ 32"
proof -
  have f: "finite (dom (fy_fd s))" "card (dom (fy_fd s)) < 2 ^ 32" by (rule fds_finite [OF files_okD(2) [OF assms]])+
  have "users s v \<subseteq> ran (fy_fd s)"
    using files_okD(3) [OF assms] by (fastforce simp: users_def file_ok_def refs_def ran_def)
  hence sub: "users s v \<subseteq> (the \<circ> fy_fd s) ` dom (fy_fd s)" by (force simp: ran_def dom_def)
  show "finite (users s v)" by (rule finite_subset [OF sub]) (simp add: f(1))
  have "card (users s v) \<le> card ((the \<circ> fy_fd s) ` dom (fy_fd s))" by (rule card_mono [OF _ sub]) (simp add: f(1))
  also have "\<dots> \<le> card (dom (fy_fd s))" by (rule card_image_le [OF f(1)])
  finally show "card (users s v) < 2 ^ 32" using f(2) by simp
qed

lemma unused_vnode:
  assumes "files_ok s" "vf_node (fy_vfs s) v = None"
  shows "users s v = {}"
  using files_okD(3) [OF assms(1)] assms(2) by (fastforce simp: users_def file_ok_def)

lemma count_zero_unused:
  assumes "files_ok s" "vf_node (fy_vfs s) v = Some n" "vn_open_count n = 0"
  shows "users s v = {}"
proof -
  have "of_nat (card (users s v)) = (0 :: 32 word)"
    using files_okD(4) [OF assms(1)] assms(2,3) by (simp add: counts_ok_def)
  hence "card (users s v) = 0" using users_bound(2) [OF assms(1), of v]
    by (auto simp: word_of_nat_eq_0_iff dest: dvd_imp_le)
  thus ?thesis using users_bound(1) [OF assms(1)] by simp
qed

section \<open>Steps that keep it\<close>

lemma files_ok_grows:
  assumes "files_ok s" "vfs_grows (fy_vfs s) st"
  shows "files_ok (s\<lparr>fy_vfs := st\<rparr>)"
proof -
  note wf = files_okD(1) [OF assms(1)]
  have f: "file_ok (s\<lparr>fy_vfs := st\<rparr>) i fl" if "fy_files s i = Some fl" for i fl
    using files_okD(3) [OF assms(1) that] vfs_grows_live [OF assms(2) wf] by (fastforce simp: file_ok_def refs_def)
  have c: "vn_open_count n = of_nat (card (users s v))" if n: "vf_node st v = Some n" for v n
  proof (cases "vf_node (fy_vfs s) v")
    case None
    thus ?thesis using vfs_grows_new [OF assms(2) wf None n] unused_vnode [OF assms(1) None] by simp
  next
    case (Some m)
    thus ?thesis using vfs_grows_live [OF assms(2) wf Some] n files_okD(4) [OF assms(1)]
      by (auto simp: counts_ok_def kept_def)
  qed
  have u: "users (s\<lparr>fy_vfs := st\<rparr>) v = users s v" for v by (simp add: users_def)
  show ?thesis using vfs_grows_wf [OF assms(2) wf] files_okD(2) [OF assms(1)] f c
    by (simp add: files_ok_def counts_ok_def fds_ok_def u)
qed

lemma files_ok_same:
  assumes "files_ok s" "fy_files s i = Some fl" "same_file fl fl'"
  shows "files_ok (s\<lparr>fy_files := (fy_files s)(i \<mapsto> fl')\<rparr>)"
proof -
  have u: "users (s\<lparr>fy_files := (fy_files s)(i \<mapsto> fl')\<rparr>) v = users s v" for v
    using assms(2,3) by (auto simp: users_def same_file_def)
  have "file_ok (s\<lparr>fy_files := (fy_files s)(i \<mapsto> fl')\<rparr>) j f" if "((fy_files s)(i \<mapsto> fl')) j = Some f" for j f
  proof (cases "j = i")
    case True
    thus ?thesis using that files_okD(3) [OF assms(1,2)] assms(3) by (auto simp: file_ok_def refs_def same_file_def)
  next
    case False
    thus ?thesis using that files_okD(3) [OF assms(1), of j f] by (simp add: file_ok_def refs_def)
  qed
  thus ?thesis using files_okD(1,2,4) [OF assms(1)]
    by (auto simp: files_ok_def counts_ok_def fds_ok_def u)
qed

lemma files_ok_put:
  assumes "files_ok s" "fy_files s i = Some fl" "vfs_grows (fy_vfs s) st \<and> same_file fl fl'"
  shows "files_ok (put_file i fl' st s)"
  using files_ok_same [OF files_ok_grows [OF assms(1), of st], of i fl fl'] assms(2,3) by (simp add: put_file_def)

lemma files_okI:
  assumes "vfs_wf (fy_vfs s)" "finite (dom (fy_procs s))" "THREAD_MAX_FDS * card (dom (fy_procs s)) < 2 ^ 32"
    and "\<And>x i. fy_fd s x = Some i \<Longrightarrow> x \<in> dom (fy_procs s) \<times> {..<THREAD_MAX_FDS} \<and> fy_files s i \<noteq> None"
    and "\<And>i fl. fy_files s i = Some fl \<Longrightarrow> file_ok s i fl"
    and "\<And>v n. vf_node (fy_vfs s) v = Some n \<Longrightarrow> vn_open_count n = of_nat (card (users s v))"
  shows "files_ok s"
  using assms unfolding files_ok_def fds_ok_def counts_ok_def by blast

lemma files_ok_procs:
  assumes "files_ok s"
  shows "finite (dom (fy_procs s))" "THREAD_MAX_FDS * card (dom (fy_procs s)) < 2 ^ 32"
    "fy_fd s x = Some i \<Longrightarrow> x \<in> dom (fy_procs s) \<times> {..<THREAD_MAX_FDS}"
    "fy_fd s x = Some i \<Longrightarrow> fy_files s i \<noteq> None"
    "vf_node (fy_vfs s) v = Some n \<Longrightarrow> vn_open_count n = of_nat (card (users s v))"
  using assms unfolding files_ok_def fds_ok_def counts_ok_def by blast+

lemma file_okI:
  "i < fy_next s \<Longrightarrow> refs s i = R \<Longrightarrow> R \<noteq> {} \<Longrightarrow> of_refcount fl = int (card R) \<Longrightarrow> \<not> ofile_is_socket fl
    \<Longrightarrow> of_vnode fl = Some v \<Longrightarrow> vf_node (fy_vfs s) v = Some n \<Longrightarrow> file_ok s i fl"
  by (auto simp: file_ok_def)

lemma file_okE:
  assumes "file_ok s i fl"
  obtains v n where "i < fy_next s" "refs s i \<noteq> {}" "of_refcount fl = int (card (refs s i))" "\<not> ofile_is_socket fl"
    "of_vnode fl = Some v" "vf_node (fy_vfs s) v = Some n"
  using assms by (auto simp: file_ok_def)

lemma socket_refcount [simp]: "ofile_is_socket (fl\<lparr>of_refcount := c\<rparr>) = ofile_is_socket fl"
  by (simp add: ofile_is_socket_def)

lemma files_ok_dup:
  assumes "files_ok s" "fy_files s i = Some fl" "fy_fd s x = None" "x \<in> dom (fy_procs s) \<times> {..<16}"
  shows "files_ok (s\<lparr>fy_files := (fy_files s)(i \<mapsto> fl\<lparr>of_refcount := of_refcount fl + 1\<rparr>), fy_fd := (fy_fd s)(x \<mapsto> i)\<rparr>)"
    (is "files_ok ?s")
proof -
  define t where "t = ?s"
  note ok = files_okD [OF assms(1)]
  have t: "fy_vfs t = fy_vfs s" "fy_files t = (fy_files s)(i \<mapsto> fl\<lparr>of_refcount := of_refcount fl + 1\<rparr>)"
    "fy_next t = fy_next s" "fy_fd t = (fy_fd s)(x \<mapsto> i)" "fy_procs t = fy_procs s" by (simp_all add: t_def)
  have u: "users t v = users s v" for v using assms(2) by (auto simp: users_def t)
  have r: "refs t j = (if j = i then insert x (refs s i) else refs s j)" for j
    using assms(3) by (auto simp: refs_def t)
  have fin: "finite (refs s i)" "x \<notin> refs s i" using refs_finite [OF ok(2)] assms(3) by (auto simp: refs_def)
  show ?thesis unfolding t_def [symmetric]
  proof (rule files_okI)
    show "file_ok t j f" if f: "fy_files t j = Some f" for j f
    proof (cases "j = i")
      case True
      obtain v n where v: "i < fy_next s" "of_refcount fl = int (card (refs s i))" "\<not> ofile_is_socket fl"
        "of_vnode fl = Some v" "vf_node (fy_vfs s) v = Some n" using ok(3) [OF assms(2)] by (rule file_okE)
      show ?thesis using f True v fin by (intro file_okI [OF _ r]) (auto simp: t)
    next
      case False
      thus ?thesis using f ok(3) [of j f] by (simp add: file_ok_def r t)
    qed
    show "y \<in> dom (fy_procs t) \<times> {..<16} \<and> fy_files t k \<noteq> None" if "fy_fd t y = Some k" for y k
      using that files_ok_procs(3,4) [OF assms(1), of y k] assms(4) by (simp add: t split: if_splits)
  qed (use ok(1) files_ok_procs [OF assms(1)] u in \<open>simp_all add: t\<close>)
qed

lemma open_count_wf [simp]: "vfs_wf st \<Longrightarrow> vfs_wf (upd_node v (vn_open_count_update f) st)"
  by (rule upd_attr_wf) (simp_all add: same_place_def)

lemma files_ok_open:
  assumes "files_ok s" "vf_node (fy_vfs s) v = Some n" "of_vnode fl = Some v" "of_refcount fl = 1" "\<not> ofile_is_socket fl"
    and "fy_fd s x = None" "x \<in> dom (fy_procs s) \<times> {..<16}"
  shows "files_ok (s\<lparr>fy_vfs := upd_node v (vn_open_count_update (\<lambda>c. c + 1)) (fy_vfs s),
     fy_files := (fy_files s)(fy_next s \<mapsto> fl), fy_next := Suc (fy_next s), fy_fd := (fy_fd s)(x \<mapsto> fy_next s)\<rparr>)"
    (is "files_ok ?s")
proof -
  define t where "t = ?s"
  note ok = files_okD [OF assms(1)]
  let ?i = "fy_next s"
  have t: "fy_vfs t = upd_node v (vn_open_count_update (\<lambda>c. c + 1)) (fy_vfs s)" "fy_files t = (fy_files s)(?i \<mapsto> fl)"
    "fy_next t = Suc ?i" "fy_fd t = (fy_fd s)(x \<mapsto> ?i)" "fy_procs t = fy_procs s" by (simp_all add: t_def)
  have new: "fy_files s ?i = None" using ok(3) [of ?i] by (cases "fy_files s ?i") (auto simp: file_ok_def)
  hence noref: "fy_fd s y \<noteq> Some ?i" for y using files_ok_procs(4) [OF assms(1)] by blast
  have r: "refs t j = (if j = ?i then {x} else refs s j)" for j using noref assms(6) by (auto simp: refs_def t)
  have u: "users t w = (if w = v then insert ?i (users s v) else users s w)" for w
    using new assms(3) by (auto simp: users_def t)
  have ui: "?i \<notin> users s v" "finite (users s v)" using new users_bound(1) [OF assms(1)] by (auto simp: users_def)
  show ?thesis unfolding t_def [symmetric]
  proof (rule files_okI)
    show "file_ok t j f" if f: "fy_files t j = Some f" for j f
    proof (cases "j = ?i")
      case True
      thus ?thesis using f assms(2-5) by (intro file_okI [OF _ r]) (auto simp: t)
    next
      case False
      thus ?thesis using f ok(3) [of j f] by (auto simp: file_ok_def r t)
    qed
    show "y \<in> dom (fy_procs t) \<times> {..<16} \<and> fy_files t k \<noteq> None" if "fy_fd t y = Some k" for y k
      using that files_ok_procs(3,4) [OF assms(1), of y k] assms(7) by (simp add: t split: if_splits)
    show "vn_open_count m = of_nat (card (users t w))" if "vf_node (fy_vfs t) w = Some m" for w m
      using that files_ok_procs(5) [OF assms(1), of w] ui assms(2) by (auto simp: t u split: if_splits)
  qed (use ok(1) files_ok_procs [OF assms(1)] in \<open>simp_all add: t\<close>)
qed

lemma files_ok_undup:
  assumes "files_ok s" "fy_fd s x = Some i" "fy_files s i = Some fl" "of_refcount fl \<noteq> 1"
  shows "files_ok (s\<lparr>fy_files := (fy_files s)(i \<mapsto> fl\<lparr>of_refcount := of_refcount fl - 1\<rparr>), fy_fd := (fy_fd s)(x := None)\<rparr>)"
    (is "files_ok ?s")
proof -
  define t where "t = ?s"
  note ok = files_okD [OF assms(1)]
  have t: "fy_vfs t = fy_vfs s" "fy_files t = (fy_files s)(i \<mapsto> fl\<lparr>of_refcount := of_refcount fl - 1\<rparr>)"
    "fy_next t = fy_next s" "fy_fd t = (fy_fd s)(x := None)" "fy_procs t = fy_procs s" by (simp_all add: t_def)
  have u: "users t v = users s v" for v using assms(3) by (auto simp: users_def t)
  have r: "refs t j = (if j = i then refs s i - {x} else refs s j)" for j
    using assms(2) by (auto simp: refs_def t)
  have x: "x \<in> refs s i" "finite (refs s i)" using assms(2) refs_finite [OF ok(2)] by (auto simp: refs_def)
  obtain v n where v: "i < fy_next s" "of_refcount fl = int (card (refs s i))" "\<not> ofile_is_socket fl"
    "of_vnode fl = Some v" "vf_node (fy_vfs s) v = Some n" using ok(3) [OF assms(3)] by (rule file_okE)
  have c: "Suc (card (refs s i - {x})) = card (refs s i)" using x by (rule_tac card_Suc_Diff1) auto
  have ne: "refs s i - {x} \<noteq> {}"
  proof
    assume "refs s i - {x} = {}"
    hence "card (refs s i) = 1" using c by (metis card.empty One_nat_def)
    thus False using v(2) assms(4) by simp
  qed
  show ?thesis unfolding t_def [symmetric]
  proof (rule files_okI)
    show "file_ok t j f" if f: "fy_files t j = Some f" for j f
    proof (cases "j = i")
      case True
      have "of_refcount fl - 1 = int (card (refs s i - {x}))" using c v(2) by simp
      thus ?thesis using f True v ne by (intro file_okI [OF _ r]) (auto simp: t)
    next
      case False
      thus ?thesis using f ok(3) [of j f] by (simp add: file_ok_def r t)
    qed
    show "y \<in> dom (fy_procs t) \<times> {..<16} \<and> fy_files t k \<noteq> None" if "fy_fd t y = Some k" for y k
      using that files_ok_procs(3,4) [OF assms(1), of y k] by (simp add: t split: if_splits)
  qed (use ok(1) files_ok_procs [OF assms(1)] u in \<open>simp_all add: t\<close>)
qed

lemma files_ok_last:
  assumes "files_ok s" "fy_fd s x = Some i" "fy_files s i = Some fl" "of_refcount fl = 1" "of_vnode fl = Some v"
  shows "files_ok (s\<lparr>fy_vfs := upd_node v (vn_open_count_update (\<lambda>c. c - 1)) (fy_vfs s),
     fy_files := (fy_files s)(i := None), fy_fd := (fy_fd s)(x := None)\<rparr>)"
    (is "files_ok ?s")
proof -
  define t where "t = ?s"
  note ok = files_okD [OF assms(1)]
  have t: "fy_vfs t = upd_node v (vn_open_count_update (\<lambda>c. c - 1)) (fy_vfs s)" "fy_files t = (fy_files s)(i := None)"
    "fy_next t = fy_next s" "fy_fd t = (fy_fd s)(x := None)" "fy_procs t = fy_procs s" by (simp_all add: t_def)
  have "card (refs s i) = 1" using ok(3) [OF assms(3)] assms(4) by (simp add: file_ok_def)
  moreover have "x \<in> refs s i" using assms(2) by (simp add: refs_def)
  ultimately have only: "refs s i = {x}" by (metis card_1_singletonE singletonD)
  have r: "refs t j = (if j = i then {} else refs s j)" for j
  proof (cases "j = i")
    case True
    have "refs t i = refs s i - {x}" by (auto simp: refs_def t)
    thus ?thesis using True only by simp
  next
    case False
    thus ?thesis using assms(2) by (auto simp: refs_def t)
  qed
  have u: "users t w = users s w - {i}" for w by (auto simp: users_def t)
  have ui: "i \<in> users s v" "finite (users s v)" "w \<noteq> v \<Longrightarrow> i \<notin> users s w" for w
    using users_bound(1) [OF assms(1)] assms(3,5) by (auto simp: users_def)
  have cu: "(of_nat (card (users s v - {i})) :: 32 word) = of_nat (card (users s v)) - 1"
  proof -
    have "card (users s v) = Suc (card (users s v - {i}))" using ui(1,2) by (simp only: card_Suc_Diff1)
    thus ?thesis by (simp only: of_nat_Suc) simp
  qed
  show ?thesis unfolding t_def [symmetric]
  proof (rule files_okI)
    show "file_ok t j f" if "fy_files t j = Some f" for j f
      using that ok(3) [of j f] by (auto simp: file_ok_def r t split: if_splits)
    show "y \<in> dom (fy_procs t) \<times> {..<16} \<and> fy_files t k \<noteq> None" if k: "fy_fd t y = Some k" for y k
    proof -
      have y: "fy_fd s y = Some k" "y \<noteq> x" using k by (simp_all add: t split: if_splits)
      hence "k \<noteq> i" using only by (auto simp: refs_def)
      thus ?thesis using files_ok_procs(3,4) [OF assms(1) y(1)] by (simp add: t)
    qed
    show "vn_open_count m = of_nat (card (users t w))" if "vf_node (fy_vfs t) w = Some m" for w m
      using that files_ok_procs(5) [OF assms(1), of w] ui(3) [of w] cu by (auto simp: t u split: if_splits)
  qed (use ok(1) files_ok_procs [OF assms(1)] in \<open>simp_all add: t\<close>)
qed

lemma files_ok_removes:
  assumes "files_ok s" "vfs_removes (fy_vfs s) st"
  shows "files_ok (s\<lparr>fy_vfs := st\<rparr>)"
proof -
  note wf = files_okD(1) [OF assms(1)]
  obtain v n st1 where st: "vfs_wf st" "vfs_grows (fy_vfs s) st1" "vf_node st1 v = Some n" "vn_open_count n = 0"
      "vf_node st = (vf_node st1)(v := None)"
    using assms(2) wf unfolding vfs_removes_def by blast
  note ok1 = files_ok_grows [OF assms(1) st(2)]
  have un: "users s v = {}" using count_zero_unused [OF ok1, of v n] st(3,4) by (simp add: users_def)
  have "file_ok (s\<lparr>fy_vfs := st\<rparr>) i fl" if fi: "fy_files s i = Some fl" for i fl
  proof -
    obtain w m where w: "i < fy_next s" "refs s i \<noteq> {}" "of_refcount fl = int (card (refs s i))" "\<not> ofile_is_socket fl"
      "of_vnode fl = Some w" "vf_node st1 w = Some m"
      using files_okD(3) [OF ok1, of i fl] fi by (auto simp: file_ok_def refs_def)
    have "w \<noteq> v" using un fi w(5) by (auto simp: users_def)
    thus ?thesis using w by (simp add: file_ok_def refs_def st(5))
  qed
  moreover have "counts_ok (s\<lparr>fy_vfs := st\<rparr>)"
    using files_okD(4) [OF ok1] by (auto simp: counts_ok_def st(5) users_def)
  ultimately show ?thesis using st(1) files_okD(2) [OF ok1] by (simp add: files_ok_def fds_ok_def)
qed

lemma files_ok_proc:
  assumes "files_ok s" "fy_procs s p \<noteq> None"
  shows "files_ok (s\<lparr>fy_procs := (fy_procs s)(p \<mapsto> pr)\<rparr>)"
proof -
  have "dom ((fy_procs s)(p \<mapsto> pr)) = dom (fy_procs s)" using assms(2) by (auto simp: dom_def)
  thus ?thesis using assms(1)
    by (simp add: files_ok_def fds_ok_def file_ok_def counts_ok_def refs_def users_def)
qed

lemma files_ok_close_slot:
  assumes "files_ok s" "vfs_driver env" "close_slot env p j s = Some s'"
  shows "files_ok s'"
proof (cases "fy_fd s (p, j)")
  case None
  thus ?thesis using assms(1,3) by (simp add: close_slot_def)
next
  case (Some i)
  obtain fl where fl: "fy_files s i = Some fl" using files_ok_procs(4) [OF assms(1) Some] by blast
  obtain v where v: "\<not> ofile_is_socket fl" "of_vnode fl = Some v"
    using files_okD(3) [OF assms(1) fl] by (rule file_okE)
  obtain rest st where r: "ofile_close env fl (fy_vfs s) = Some (rest, st)"
    and s': "s' = s\<lparr>fy_vfs := st, fy_files := (fy_files s)(i := rest), fy_fd := (fy_fd s)((p, j) := None)\<rparr>"
    using assms(3) Some fl by (auto simp: close_slot_def split: Option.bind_splits)
  show ?thesis
  proof (cases "of_refcount fl = 1")
    case False
    hence "rest = Some (fl\<lparr>of_refcount := of_refcount fl - 1\<rparr>)" "st = fy_vfs s"
      using r by (auto simp: ofile_close_def Let_def)
    thus ?thesis using files_ok_undup [OF assms(1) Some fl False] by (simp add: s')
  next
    case True
    have "rest = None" "vfs_close env (fl\<lparr>of_refcount := 0\<rparr>) (fy_vfs s) = Some st"
      using r True v(1) by (auto simp: ofile_close_def Let_def ofile_is_socket_def split: Option.bind_splits if_splits)
    moreover have "vfs_closes (fl\<lparr>of_refcount := 0\<rparr>) (fy_vfs s) st"
      by (rule vfs_driver.close_closes [OF assms(2)]) fact
    ultimately have "vfs_grows (upd_node v (vn_open_count_update (\<lambda>c. c - 1)) (fy_vfs s)) st"
      using v(2) by (simp add: vfs_closes_def)
    hence "files_ok ((s\<lparr>fy_vfs := upd_node v (vn_open_count_update (\<lambda>c. c - 1)) (fy_vfs s),
        fy_files := (fy_files s)(i := None), fy_fd := (fy_fd s)((p, j) := None)\<rparr>)\<lparr>fy_vfs := st\<rparr>)" (is "files_ok ?t")
      by (intro files_ok_grows [OF files_ok_last [OF assms(1) Some fl True v(2)]]) simp
    moreover have "s' = ?t" by (cases s) (simp add: s' \<open>rest = None\<close>)
    ultimately show ?thesis by (simp only:)
  qed
qed

lemma close_slot_frame:
  assumes "close_slot env p j s = Some s'"
  shows "fy_procs s' = fy_procs s" "fy_fd s' = (fy_fd s)((p, j) := None)" "fy_next s' = fy_next s"
  using assms by (auto simp: close_slot_def fun_upd_idem_iff split: option.splits Option.bind_splits)

lemma files_ok_close_fds:
  assumes "vfs_driver env"
  shows "files_ok s \<Longrightarrow> close_fds env p cond js s = Some s' \<Longrightarrow> files_ok s' \<and> fy_procs s' = fy_procs s"
proof (induction js arbitrary: s)
  case (Cons j js)
  show ?case
  proof (cases "fy_fd s (p, j)")
    case None
    thus ?thesis using Cons by simp
  next
    case (Some i)
    obtain fl s1 where s1: "(if cond fl then close_slot env p j s else Some s) = Some s1" "close_fds env p cond js s1 = Some s'"
      using Cons.prems(2) Some by (auto split: Option.bind_splits)
    have "files_ok s1 \<and> fy_procs s1 = fy_procs s"
      using s1(1) files_ok_close_slot [OF Cons.prems(1) assms] close_slot_frame(1) Cons.prems(1) by (auto split: if_splits)
    thus ?thesis using Cons.IH [of s1] s1(2) by simp
  qed
qed simp

lemma files_ok_fork_fds:
  "files_ok s \<Longrightarrow> dst \<noteq> src \<Longrightarrow> fy_procs s dst \<noteq> None \<Longrightarrow> \<forall>j \<in> set js. fy_fd s (dst, j) = None \<and> j < 16 \<Longrightarrow> distinct js
    \<Longrightarrow> fork_fds dst src js s = Some s' \<Longrightarrow> files_ok s' \<and> fy_procs s' = fy_procs s"
proof (induction js arbitrary: s)
  case (Cons j js)
  show ?case
  proof (cases "fy_fd s (src, j)")
    case None
    thus ?thesis using Cons by simp
  next
    case (Some i)
    obtain fl where fl: "fy_files s i = Some fl" using files_ok_procs(4) [OF Cons.prems(1) Some] by blast
    let ?s = "s\<lparr>fy_files := (fy_files s)(i \<mapsto> fl\<lparr>of_refcount := of_refcount fl + 1\<rparr>), fy_fd := (fy_fd s)((dst, j) \<mapsto> i)\<rparr>"
    have "files_ok ?s"
      using files_ok_dup [OF Cons.prems(1) fl, of "(dst, j)"] Cons.prems(3,4) by auto
    moreover have "fork_fds dst src js ?s = Some s'"
      using Cons.prems(6) Some fl by (auto simp: ofile_dup_def split: Option.bind_splits)
    moreover have "\<forall>ja \<in> set js. fy_fd ?s (dst, ja) = None \<and> ja < 16" using Cons.prems(4,5) by auto
    ultimately show ?thesis using Cons.IH [of ?s] Cons.prems(2,3,5) by simp
  qed
qed simp

section \<open>The system calls as steps\<close>

text \<open>
  The calls that keep the accounting exact. \<open>sys_pipe\<close> is not one of them (\<open>File_Pipe\<close>), and sockets are not modelled.
\<close>

inductive file_step :: "('d, 'w) vfs_env \<Rightarrow> ('d, 'w) fsys \<Rightarrow> ('d, 'w) fsys \<Rightarrow> bool" for env where
  Read: "sys_read env p fd lim s = Some (r, s') \<Longrightarrow> file_step env s s'"
| Write: "sys_write env p fd buf s = Some (e, s') \<Longrightarrow> file_step env s s'"
| Ftruncate: "sys_ftruncate env p fd len s = Some (e, s') \<Longrightarrow> file_step env s s'"
| Lseek: "sys_lseek env p fd off wh s = Some (e, s') \<Longrightarrow> file_step env s s'"
| Ioctl: "sys_ioctl env p fd cmd arg s = Some (e, s') \<Longrightarrow> file_step env s s'"
| Readdir: "sys_readdir env p fd s = Some (d, s') \<Longrightarrow> file_step env s s'"
| Mkdirat: "sys_mkdirat k env p fd path mode s = Some (e, s') \<Longrightarrow> file_step env s s'"
| Unlinkat: "sys_unlinkat k env p fd path flags s = Some (e, s') \<Longrightarrow> file_step env s s'"
| Truncate: "sys_truncate k env p path len s = Some (e, s') \<Longrightarrow> file_step env s s'"
| Chdir: "sys_chdir k env p path s = Some (e, s') \<Longrightarrow> file_step env s s'"
| Openat: "sys_openat k env p fd path flags mode s = Some (e, s') \<Longrightarrow> file_step env s s'"
| Close: "sys_close env p fd s = Some s' \<Longrightarrow> file_step env s s'"
| Dup: "sys_dup env p fd s = Some (e, s') \<Longrightarrow> file_step env s s'"
| Dup2: "sys_dup2 env p fd to s = Some (e, s') \<Longrightarrow> file_step env s s'"
| Fstatat: "sys_fstatat k env p fd path flags s = Some (b, s') \<Longrightarrow> file_step env s s'"
| Faccessat: "sys_faccessat k env p fd path mode flags s = Some (e, s') \<Longrightarrow> file_step env s s'"
| Readlinkat: "sys_readlinkat k env p fd path lim s = Some (l, s') \<Longrightarrow> file_step env s s'"
| Chmod: "sys_chmod k env p path mode s = Some (e, s') \<Longrightarrow> file_step env s s'"
| Chown: "sys_chown k env p path uid gid s = Some (e, s') \<Longrightarrow> file_step env s s'"
| Mknod: "sys_mknod k env p path mode s = Some (e, s') \<Longrightarrow> file_step env s s'"
| Fork: "fork_io dst src s = Some s' \<Longrightarrow> fy_procs s dst = None
    \<Longrightarrow> THREAD_MAX_FDS * Suc (card (dom (fy_procs s))) < 2 ^ 32 \<Longrightarrow> file_step env s s'"
| Exit: "exit_close_fds env p s = Some s' \<Longrightarrow> file_step env s s'"
| Exec: "exec_close_fds env p s = Some s' \<Longrightarrow> file_step env s s'"
| Setsid: "sys_setsid env p s = Some s' \<Longrightarrow> file_step env s s'"
| Setuid: "sys_setuid p uid s = Some (e, s') \<Longrightarrow> file_step env s s'"
| Setgid: "sys_setgid p gid s = Some (e, s') \<Longrightarrow> file_step env s s'"

lemma files_ok_with_file:
  assumes "files_ok s" "with_file p fd refuse f s = Some (r, s')"
    and "\<And>fl st r fl' st'. f fl st = Some (r, fl', st') \<Longrightarrow> vfs_grows st st' \<and> same_file fl fl'"
  shows "files_ok s'"
proof -
  have "files_ok (put_file i fl' st' s)" if "fy_files s i = Some fl" "f fl (fy_vfs s) = Some (r', fl', st')" for i fl r' fl' st'
    by (rule files_ok_put [OF assms(1) that(1) assms(3) [OF that(2)]])
  thus ?thesis using assms(1,2) by (auto simp: with_file_def split: option.splits Option.bind_splits if_splits)
qed

lemma files_ok_new_proc:
  assumes "files_ok s" "fy_procs s p = None" "THREAD_MAX_FDS * Suc (card (dom (fy_procs s))) < 2 ^ 32"
  shows "files_ok (s\<lparr>fy_fd := (\<lambda>(q, j). if q = p then None else fy_fd s (q, j)), fy_procs := (fy_procs s)(p \<mapsto> pr)\<rparr>)"
    (is "files_ok ?s")
    and "(\<lambda>(q, j). if q = p then None else fy_fd s (q, j)) = fy_fd s"
proof -
  note P = files_ok_procs [OF assms(1)]
  have "fy_fd s (p, j) = None" for j using P(3) [of "(p, j)"] assms(2) by (cases "fy_fd s (p, j)") auto
  thus fd: "(\<lambda>(q, j). if q = p then None else fy_fd s (q, j)) = fy_fd s" by (auto simp: fun_eq_iff)
  show "files_ok ?s"
  proof (rule files_okI)
    have d: "dom (fy_procs ?s) = insert p (dom (fy_procs s))" by auto
    show "finite (dom (fy_procs ?s))" using P(1) by (simp add: d)
    show "16 * card (dom (fy_procs ?s)) < 2 ^ 32" using P(1) assms(2,3) by (simp add: d card_insert_if domIff)
    show "file_ok ?s i fl" if "fy_files ?s i = Some fl" for i fl
      using files_okD(3) [OF assms(1), of i fl] that by (simp add: file_ok_def refs_def fd)
    show "x \<in> dom (fy_procs ?s) \<times> {..<16} \<and> fy_files ?s i \<noteq> None" if "fy_fd ?s x = Some i" for x i
    proof -
      have "fy_fd s x = Some i" using that by (simp add: fd)
      thus ?thesis unfolding d using P(3,4) [of x i] by auto
    qed
  qed (use files_okD(1) [OF assms(1)] P(5) in \<open>simp_all add: users_def\<close>)
qed

lemma files_ok_fork:
  assumes "files_ok s" "fork_io dst src s = Some s'" "fy_procs s dst = None"
    "THREAD_MAX_FDS * Suc (card (dom (fy_procs s))) < 2 ^ 32"
  shows "files_ok s'"
proof -
  let ?t = "\<lambda>pr. s\<lparr>fy_fd := (\<lambda>(q, j). if q = dst then None else fy_fd s (q, j)), fy_procs := (fy_procs s)(dst \<mapsto> pr)\<rparr>"
  obtain s1 pr where f: "process_ioctx_fork dst src s = Some s1"
    and s': "fy_procs s1 dst \<noteq> None" "s' = s1\<lparr>fy_procs := (fy_procs s1)(dst \<mapsto> pr)\<rparr>"
    using assms(2) unfolding fork_io_def by (auto split: Option.bind_splits)
  obtain sp ctx where sp: "fy_procs s src = Some sp"
    and s1: "fork_fds dst src [0..<16] (?t \<lparr>pi_ioctx = ctx, pi_ctty = None\<rparr>) = Some s1"
    using f unfolding process_ioctx_fork_def Let_def by (auto split: Option.bind_splits)
  note new = files_ok_new_proc [OF assms(1,3,4)]
  have "dst \<noteq> src" using sp assms(3) by auto
  moreover have "\<forall>j \<in> set [0..<16]. fy_fd (?t pr) (dst, j) = None \<and> j < 16" for pr by simp
  ultimately have "files_ok s1" using files_ok_fork_fds [OF new(1) _ _ _ _ s1] by auto
  thus ?thesis unfolding s'(2) using s'(1) by (intro files_ok_proc) simp_all
qed

context vfs_driver
begin

lemma files_ok_open_call:
  assumes "files_ok s" "sys_openat k env p fd path flags mode s = Some (e, s')"
  shows "files_ok s'"
proof -
  have "files_ok s'"
    if o: "vfs_openat k env ctx ofile_create at path flags mode (fy_vfs s) = Some (0, fl, st)" "free_fd p s = Some j"
      "fy_procs s p = Some pr"
      "set_ctty env p (fl\<lparr>of_refcount := of_refcount fl + 1\<rparr>)
        (s\<lparr>fy_vfs := st, fy_files := (fy_files s)(fy_next s \<mapsto> fl\<lparr>of_refcount := of_refcount fl + 1\<rparr>),
           fy_next := Suc (fy_next s), fy_fd := (fy_fd s)((p, j) \<mapsto> fy_next s)\<rparr>) = Some s'"
    for ctx at fl st j pr
  proof -
    let ?fl = "fl\<lparr>of_refcount := of_refcount fl + 1\<rparr>"
    let ?t = "s\<lparr>fy_vfs := st, fy_files := (fy_files s)(fy_next s \<mapsto> ?fl),
           fy_next := Suc (fy_next s), fy_fd := (fy_fd s)((p, j) \<mapsto> fy_next s)\<rparr>"
    have fl: "of_refcount fl = 0" "\<not> ofile_is_socket fl" "vfs_opens fl (fy_vfs s) st"
      using openat_opens [OF o(1)] by (simp_all add: opened_def ofile_create_def)
    obtain v n st1 where v: "of_vnode fl = Some v" "vfs_grows (fy_vfs s) st1" "vf_node st1 v = Some n"
        "st = upd_node v (vn_open_count_update (\<lambda>c. c + 1)) st1"
      using fl(3) unfolding vfs_opens_def by blast
    have j: "fy_fd s (p, j) = None" "j < 16" using o(2) by (auto simp: free_fd_def find_Some_iff)
    have "files_ok ?t"
      using files_ok_open [OF files_ok_grows [OF assms(1) v(2)], of v n ?fl "(p, j)"] v j fl o(3) by auto
    moreover have "s' = ?t \<or> (\<exists>pr. s' = ?t\<lparr>fy_procs := (fy_procs ?t)(p \<mapsto> pr)\<rparr>)"
      using o(4) unfolding set_ctty_def by (auto split: Option.bind_splits if_splits)
    ultimately show ?thesis using files_ok_proc [of ?t p] o(3) by auto
  qed
  moreover have "files_ok (s\<lparr>fy_vfs := st\<rparr>)"
    if "vfs_openat k env ctx ofile_create at path flags mode (fy_vfs s) = Some (r, fl, st)" "r \<noteq> 0" for ctx at r fl st
    using openat_opens [OF that(1)] that(2) by (intro files_ok_grows [OF assms(1)]) (simp add: opened_def)
  ultimately show ?thesis using assms
    unfolding sys_openat_def get_ioctx_def ofile_dup_def Let_def
    by (auto split: option.splits sum.splits Option.bind_splits if_splits)
qed

lemma files_ok_dup2_call:
  assumes "files_ok s" "sys_dup2 env p fd to s = Some (e, s')"
  shows "files_ok s'"
proof -
  have "files_ok (s1\<lparr>fy_files := (fy_files s1)(i \<mapsto> fl\<lparr>of_refcount := of_refcount fl + 1\<rparr>), fy_fd := (fy_fd s1)((p, nat to) \<mapsto> i)\<rparr>)"
    if o: "fy_fd s (p, nat fd) = Some i" "sys_close env p to s = Some s1" "fy_fd s1 (p, nat to) = None" "fy_files s1 i = Some fl"
      "0 \<le> to" "to < 16" for i s1 fl
  proof -
    have c: "close_slot env p (nat to) s = Some s1" using o(2,5,6) by (simp add: sys_close_def)
    have "files_ok s1" by (rule files_ok_close_slot [OF assms(1) vfs_driver_axioms c])
    moreover have "p \<in> dom (fy_procs s)" using files_ok_procs(3) [OF assms(1) o(1)] by simp
    ultimately show ?thesis using o(3-6) close_slot_frame(1) [OF c] by (intro files_ok_dup) auto
  qed
  thus ?thesis using assms
    unfolding sys_dup2_def ofile_dup_def by (auto split: option.splits Option.bind_splits if_splits)
qed

lemma fstatat_grows: "vfs_fstatat k env ctx at path flags st = Some (e, b, st') \<Longrightarrow> vfs_grows st st'"
  unfolding vfs_fstatat_def Let_def
  by (auto dest: find_grows split: option.splits sum.splits Option.bind_splits if_splits)

lemma faccessat_grows: "vfs_faccessat k env ctx at path mode flags st = Some (e, st') \<Longrightarrow> vfs_grows st st'"
  unfolding vfs_faccessat_def
  by (auto dest: find_grows split: sum.splits Option.bind_splits if_splits)

lemma readlinkat_grows: "vfs_readlinkat k env ctx at path lim st = Some (e, b, st') \<Longrightarrow> vfs_grows st st'"
  unfolding vfs_readlinkat_def Let_def
  by (auto dest: find_grows split: option.splits sum.splits prod.splits Option.bind_splits if_splits)

lemma files_ok_fd_calls:
  assumes "files_ok s"
  shows "sys_read env p fd lim s = Some (r, s') \<Longrightarrow> files_ok s'"
    "sys_write env p fd buf s = Some (e, s') \<Longrightarrow> files_ok s'"
    "sys_ftruncate env p fd len s = Some (e, s') \<Longrightarrow> files_ok s'"
    "sys_lseek env p fd off wh s = Some (e, s') \<Longrightarrow> files_ok s'"
    "sys_ioctl env p fd cmd arg s = Some (e, s') \<Longrightarrow> files_ok s'"
    "sys_readdir env p fd s = Some (d, s') \<Longrightarrow> files_ok s'"
  unfolding sys_read_def sys_write_def sys_ftruncate_def sys_lseek_def sys_ioctl_def sys_readdir_def
  by (erule files_ok_with_file [OF assms];
      auto dest: read_grows write_grows ftruncate_grows lseek_grows ioctl_grows readdir_grows split: Option.bind_splits)+

lemma files_ok_path_calls:
  assumes "files_ok s"
  shows "sys_mkdirat k env p fd path mode s = Some (e, s') \<Longrightarrow> files_ok s'"
    "sys_truncate k env p path len s = Some (e, s') \<Longrightarrow> files_ok s'"
    "sys_fstatat k env p fd path flags s = Some (b, s') \<Longrightarrow> files_ok s'"
    "sys_faccessat k env p fd path mode flags s = Some (e, s') \<Longrightarrow> files_ok s'"
    "sys_readlinkat k env p fd path lim s = Some (l, s') \<Longrightarrow> files_ok s'"
    "sys_chmod k env p path mode s = Some (e, s') \<Longrightarrow> files_ok s'"
    "sys_chown k env p path uid gid s = Some (e, s') \<Longrightarrow> files_ok s'"
    "sys_mknod k env p path mode s = Some (e, s') \<Longrightarrow> files_ok s'"
    "sys_unlinkat k env p fd path flags s = Some (e, s') \<Longrightarrow> files_ok s'"
    "sys_chdir k env p path s = Some (e, s') \<Longrightarrow> files_ok s'"
proof -
  note g = files_ok_grows [OF assms]
  show "sys_mkdirat k env p fd path mode s = Some (e, s') \<Longrightarrow> files_ok s'"
    unfolding sys_mkdirat_def using assms
    by (auto dest: mkdirat_grows intro: g split: sum.splits Option.bind_splits)
  have tr: "vfs_grows (fy_vfs s) st2" if "vfs_find k env ctx rel path 0 (fy_vfs s) = Some (x, st1)"
    "vfs_ftruncate env node len st1 = Some (y, st2)" for ctx rel x st1 node y st2
    using find_grows [OF that(1)] ftruncate_grows [OF that(2)] by (rule vfs_grows_trans)
  show "sys_truncate k env p path len s = Some (e, s') \<Longrightarrow> files_ok s'"
    unfolding sys_truncate_def using g [OF find_grows] g [OF tr]
    by (auto split: sum.splits Option.bind_splits)
  show "sys_fstatat k env p fd path flags s = Some (b, s') \<Longrightarrow> files_ok s'"
    unfolding sys_fstatat_def using assms
    by (auto dest: fstatat_grows intro: g split: sum.splits Option.bind_splits)
  show "sys_faccessat k env p fd path mode flags s = Some (e, s') \<Longrightarrow> files_ok s'"
    unfolding sys_faccessat_def using assms
    by (auto dest: faccessat_grows intro: g split: sum.splits Option.bind_splits)
  show "sys_readlinkat k env p fd path lim s = Some (l, s') \<Longrightarrow> files_ok s'"
    unfolding sys_readlinkat_def using assms
    by (auto dest: readlinkat_grows intro: g split: sum.splits Option.bind_splits)
  show "sys_chmod k env p path mode s = Some (e, s') \<Longrightarrow> files_ok s'"
    unfolding sys_chmod_def by (auto dest: chmod_grows intro: g split: Option.bind_splits)
  show "sys_chown k env p path uid gid s = Some (e, s') \<Longrightarrow> files_ok s'"
    unfolding sys_chown_def by (auto dest: chown_grows intro: g split: Option.bind_splits)
  have mk: "vfs_grows (fy_vfs s) st2" if "vfs_mknod k env ctx path mode (fy_vfs s) = Some (x, st1)"
    "env_fifo_create env node st1 = Some (y, st2)" for ctx x st1 node y st2
    using mknod_grows [OF that(1)] fifo_law [OF that(2)] by (rule vfs_grows_trans)
  show "sys_mknod k env p path mode s = Some (e, s') \<Longrightarrow> files_ok s'"
    unfolding sys_mknod_def using g [OF mknod_grows] g [OF mk]
    by (auto split: sum.splits Option.bind_splits if_splits)
  show "sys_unlinkat k env p fd path flags s = Some (e, s') \<Longrightarrow> files_ok s'"
    unfolding sys_unlinkat_def using assms
    by (auto dest!: unlinkat_removes intro: g files_ok_removes [OF assms] split: sum.splits Option.bind_splits)
  show "sys_chdir k env p path s = Some (e, s') \<Longrightarrow> files_ok s'"
  proof -
    have "files_ok (s\<lparr>fy_vfs := st, fy_procs := (fy_procs s)(p \<mapsto> pr')\<rparr>)"
      if "vfs_grows (fy_vfs s) st" "fy_procs s p = Some pr" for st pr pr'
      using files_ok_proc [OF g [OF that(1)], of p pr'] that(2) by simp
    thus "sys_chdir k env p path s = Some (e, s') \<Longrightarrow> files_ok s'"
      unfolding sys_chdir_def by (auto dest: setcwd_grows split: Option.bind_splits)
  qed
qed

lemma file_step_ok:
  assumes "file_step env s s'" "files_ok s"
  shows "files_ok s'"
  using assms
proof (induction rule: file_step.induct)
  case (Setsid p s s')
  have "files_ok (s1\<lparr>fy_procs := (fy_procs s1)(p \<mapsto> pr')\<rparr>)"
    if "close_fds env p cond js s = Some s1" "fy_procs s p = Some pr" for cond js s1 pr pr'
    using files_ok_close_fds [OF vfs_driver_axioms Setsid.prems that(1)] that(2) by (intro files_ok_proc) auto
  thus ?case using Setsid unfolding sys_setsid_def by (auto split: Option.bind_splits option.splits)
next
  case (Setuid p uid s e s')
  thus ?case using files_ok_proc [of s p] unfolding sys_setuid_def by (auto split: Option.bind_splits if_splits)
next
  case (Setgid p uid s e s')
  thus ?case using files_ok_proc [of s p] unfolding sys_setgid_def by (auto split: Option.bind_splits if_splits)
next
  case (Dup p fd s e s')
  thus ?case unfolding sys_dup_def by (auto dest: files_ok_dup2_call)
next
  case (Close p fd s s')
  thus ?case unfolding sys_close_def by (auto dest: files_ok_close_slot [OF _ vfs_driver_axioms] split: if_splits)
next
  case (Exit p s s')
  thus ?case unfolding exit_close_fds_def by (auto dest: files_ok_close_fds [OF vfs_driver_axioms])
next
  case (Exec p s s')
  thus ?case unfolding exec_close_fds_def by (auto dest: files_ok_close_fds [OF vfs_driver_axioms])
qed (auto dest: files_ok_fd_calls files_ok_path_calls files_ok_open_call files_ok_dup2_call files_ok_fork)

lemma file_steps_ok: "(file_step env)\<^sup>*\<^sup>* s s' \<Longrightarrow> files_ok s \<Longrightarrow> files_ok s'"
  by (induction rule: rtranclp_induct) (auto dest: file_step_ok)

end

end
