(* ===== verification/File_Pipe.thy ===== *)
theory File_Pipe
  imports File_Refs Pipe
begin

text \<open>
  The system call \<open>sys_pipe\<close> (src/sys/sys_file.c) and \<open>pipe_create\<close> (src/sys/char/pipe.c): one vnode, one ring and two
  open files on them. This is the one call on files that does not keep the accounting of \<open>File_Refs\<close>, because
  \<open>pipe_create\<close> opens two files on a vnode without raising its open count, so it is no \<open>file_step\<close>; the
  theorem below shows what the count does instead.

  The rings of all pipes are a component of the driver state, found by their vnode (in C both open files point to the
  ring). \<open>op\<close> is the table of pipe operations, \<open>mem\<close> the buffer the kernel heap returns.
\<close>

type_synonym 'w pipe_world = "(nat \<Rightarrow> ring option) \<times> 'w"

definition pipe_create ::
  "nat \<Rightarrow> char list option \<Rightarrow> ('d, 'w pipe_world) vfs \<Rightarrow> (ofile \<times> ofile \<times> ('d, 'w pipe_world) vfs) kern" where
  "pipe_create op mem st = do {
     let read_end = ofile_create;
     let write_end = ofile_create;
     (v, st) \<leftarrow> vnode_create VN_REG None st;
     let st = st\<lparr>vf_world := apfst (\<lambda>R. R(v \<mapsto> snd (ring_init PIPE_RING_SIZE mem))) (vf_world st)\<rparr>;
     let st = upd_node v (\<lambda>n. n\<lparr>vn_op := Some op, vn_flags := vn_flags n OR VN_MEMORY\<rparr>) st;
     Some (read_end\<lparr>of_flags := OF_READABLE, of_vnode := Some v\<rparr>,
           write_end\<lparr>of_flags := OF_WRITABLE, of_vnode := Some v\<rparr>, st)
   }"

text \<open>\<open>pipe_vnode_close\<close> as the close operation of the table: it signals the ring of the file.\<close>

definition pipe_file_close :: "ofile \<Rightarrow> ('d, 'w pipe_world) vfs \<Rightarrow> ('d, 'w pipe_world) vfs kern" where
  "pipe_file_close fd st = do {
     v \<leftarrow> of_vnode fd;
     r \<leftarrow> fst (vf_world st) v;
     Some (st\<lparr>vf_world := apfst (\<lambda>R. R(v \<mapsto> pipe_vnode_close r)) (vf_world st)\<rparr>)
   }"

text \<open>
  \<open>free_fds\<close> lists the free descriptors; \<open>sys_pipe\<close> uses the first two and returns its result with them. When there are
  fewer it returns \<open>EMFILE\<close>, and the vnode, the ring and both open files stay behind unreferenced.
\<close>

definition free_fds :: "nat \<Rightarrow> ('d, 'w) fsys \<Rightarrow> nat list" where
  "free_fds p s = filter (\<lambda>i. fy_fd s (p, i) = None) [0..<THREAD_MAX_FDS]"

definition sys_pipe ::
  "nat \<Rightarrow> char list option \<Rightarrow> nat \<Rightarrow> ('d, 'w pipe_world) fsys
     \<Rightarrow> ((int \<times> (nat \<times> nat) option) \<times> ('d, 'w pipe_world) fsys) kern" where
  "sys_pipe op mem p s = do {
     (read_end, write_end, st) \<leftarrow> pipe_create op mem (fy_vfs s);
     (case free_fds p s of
        fd0 # fd1 # _ \<Rightarrow> do {
          read_end \<leftarrow> ofile_dup read_end;
          write_end \<leftarrow> ofile_dup write_end;
          let i = fy_next s;
          Some ((0, Some (fd0, fd1)),
                s\<lparr>fy_vfs := st, fy_files := (fy_files s)(i \<mapsto> read_end, Suc i \<mapsto> write_end), fy_next := i + 2,
                  fy_fd := (fy_fd s)((p, fd0) \<mapsto> i, (p, fd1) \<mapsto> Suc i)\<rparr>)
        }
      | _ \<Rightarrow> Some ((- EMFILE, None), s\<lparr>fy_vfs := st\<rparr>))
   }"

section \<open>The count of a pipe's vnode\<close>

lemma sys_pipe_cases:
  assumes "sys_pipe op mem p s = Some ((0, Some (a, b)), s1)"
  shows "a \<noteq> b" "a < THREAD_MAX_FDS" "b < THREAD_MAX_FDS"
    "\<exists>st. pipe_create op mem (fy_vfs s) = Some (ofile_create\<lparr>of_flags := OF_READABLE, of_vnode := Some (vf_next (fy_vfs s))\<rparr>,
         ofile_create\<lparr>of_flags := OF_WRITABLE, of_vnode := Some (vf_next (fy_vfs s))\<rparr>, st)
     \<and> s1 = s\<lparr>fy_vfs := st,
         fy_files := (fy_files s)(
           fy_next s \<mapsto> ofile_create\<lparr>of_flags := OF_READABLE, of_vnode := Some (vf_next (fy_vfs s)), of_refcount := 1\<rparr>,
           Suc (fy_next s) \<mapsto> ofile_create\<lparr>of_flags := OF_WRITABLE, of_vnode := Some (vf_next (fy_vfs s)), of_refcount := 1\<rparr>),
         fy_next := fy_next s + 2, fy_fd := (fy_fd s)((p, a) \<mapsto> fy_next s, (p, b) \<mapsto> Suc (fy_next s))\<rparr>"
proof -
  obtain rest where fds: "free_fds p s = a # b # rest"
    using assms by (auto simp: sys_pipe_def ofile_dup_def Let_def split: Option.bind_splits list.splits)
  have "distinct (free_fds p s)" "set (free_fds p s) \<subseteq> {..<16}" by (auto simp: free_fds_def)
  thus "a \<noteq> b" "a < THREAD_MAX_FDS" "b < THREAD_MAX_FDS" unfolding fds by auto
  show "\<exists>st. pipe_create op mem (fy_vfs s) = Some (ofile_create\<lparr>of_flags := OF_READABLE, of_vnode := Some (vf_next (fy_vfs s))\<rparr>,
         ofile_create\<lparr>of_flags := OF_WRITABLE, of_vnode := Some (vf_next (fy_vfs s))\<rparr>, st)
     \<and> s1 = s\<lparr>fy_vfs := st,
         fy_files := (fy_files s)(
           fy_next s \<mapsto> ofile_create\<lparr>of_flags := OF_READABLE, of_vnode := Some (vf_next (fy_vfs s)), of_refcount := 1\<rparr>,
           Suc (fy_next s) \<mapsto> ofile_create\<lparr>of_flags := OF_WRITABLE, of_vnode := Some (vf_next (fy_vfs s)), of_refcount := 1\<rparr>),
         fy_next := fy_next s + 2, fy_fd := (fy_fd s)((p, a) \<mapsto> fy_next s, (p, b) \<mapsto> Suc (fy_next s))\<rparr>"
    using assms fds by (auto simp: sys_pipe_def pipe_create_def vnode_create_def ofile_dup_def ofile_create_def Let_def)
qed

text \<open>
  Closing the last reference of a pipe's file lowers the count of the vnode, whatever it is, and signals the ring.
\<close>

lemma close_pipe_end:
  assumes "fy_fd s (p, a) = Some i" "a < THREAD_MAX_FDS" "fy_files s i = Some fl" "of_refcount fl = 1" "\<not> ofile_is_socket fl"
    "of_vnode fl = Some v" "vf_node (fy_vfs s) v = Some n" "vn_op n = Some op" "fst (vf_world (fy_vfs s)) v = Some r"
    "vo_close (env_ops env op) = Some pipe_file_close"
  shows "sys_close env p (int a) s = Some (s\<lparr>
     fy_vfs := (upd_node v (vn_open_count_update (\<lambda>c. c - 1)) (fy_vfs s))
       \<lparr>vf_world := apfst (\<lambda>R. R(v \<mapsto> pipe_vnode_close r)) (vf_world (fy_vfs s))\<rparr>,
     fy_files := (fy_files s)(i := None), fy_fd := (fy_fd s)((p, a) := None)\<rparr>)"
  using assms by (simp add: sys_close_def close_slot_def ofile_close_def vfs_close_def ofile_destroy_def ofile_is_socket_def
      vn_oper_def pipe_file_close_def Let_def)

lemma users_new:
  assumes "files_ok s"
  shows "users s (vf_next (fy_vfs s)) = {}" "fy_files s (fy_next s) = None" "fy_files s (Suc (fy_next s)) = None"
proof -
  have "v < vf_next (fy_vfs s) \<and> i < fy_next s" if "fy_files s i = Some fl" "of_vnode fl = Some v" for i fl v
    using files_okD(3) [OF assms that(1)] that(2) wf_basic(2) [OF files_okD(1) [OF assms]] by (auto simp: file_ok_def)
  thus "users s (vf_next (fy_vfs s)) = {}" by (fastforce simp: users_def)
  have "i < fy_next s" if "fy_files s i = Some fl" for i fl using files_okD(3) [OF assms that] by (simp add: file_ok_def)
  hence "fy_files s i = None" if "fy_next s \<le> i" for i using that by (cases "fy_files s i") fastforce+
  thus "fy_files s (fy_next s) = None" "fy_files s (Suc (fy_next s)) = None" by simp_all
qed

text \<open>
  C37: The open count of a pipe's vnode wraps. From a state with exact accounting, \<open>sys_pipe\<close> leaves two open
  files on a new vnode whose open count is zero and whose driver data is not set. Closing the read end wraps the 32-bit
  count to its greatest value while the write end is still open, and closing the write end leaves it one below that, so
  that the unused vnode can never be destroyed: \<open>vnode_destroy\<close> fails its assertion.
\<close>

theorem pipe_count_wraps:
  assumes "files_ok s" "sys_pipe op mem p s = Some ((0, Some (a, b)), s1)" "vo_close (env_ops env op) = Some pipe_file_close"
  shows "\<exists>v n i j s2 s3. i \<noteq> j \<and> users s1 v = {i, j} \<and> vf_node (fy_vfs s1) v = Some n \<and> vn_open_count n = 0 \<and> vn_data n = None
     \<and> sys_close env p (int a) s1 = Some s2 \<and> users s2 v = {j} \<and> fy_fd s2 (p, b) = Some j
     \<and> vf_node (fy_vfs s2) v = Some (n\<lparr>vn_open_count := 0xFFFFFFFF\<rparr>)
     \<and> sys_close env p (int b) s2 = Some s3 \<and> users s3 v = {}
     \<and> vf_node (fy_vfs s3) v = Some (n\<lparr>vn_open_count := 0xFFFFFFFE\<rparr>) \<and> vnode_destroy v (fy_vfs s3) = None"
proof -
  note new = users_new [OF assms(1)]
  note fds = sys_pipe_cases(1-3) [OF assms(2)]
  obtain st where st: "pipe_create op mem (fy_vfs s)
      = Some (ofile_create\<lparr>of_flags := OF_READABLE, of_vnode := Some (vf_next (fy_vfs s))\<rparr>,
         ofile_create\<lparr>of_flags := OF_WRITABLE, of_vnode := Some (vf_next (fy_vfs s))\<rparr>, st)"
    and s1: "s1 = s\<lparr>fy_vfs := st,
         fy_files := (fy_files s)(
           fy_next s \<mapsto> ofile_create\<lparr>of_flags := OF_READABLE, of_vnode := Some (vf_next (fy_vfs s)), of_refcount := 1\<rparr>,
           Suc (fy_next s) \<mapsto> ofile_create\<lparr>of_flags := OF_WRITABLE, of_vnode := Some (vf_next (fy_vfs s)), of_refcount := 1\<rparr>),
         fy_next := fy_next s + 2, fy_fd := (fy_fd s)((p, a) \<mapsto> fy_next s, (p, b) \<mapsto> Suc (fy_next s))\<rparr>"
    using sys_pipe_cases(4) [OF assms(2)] by blast
  define v where "v = vf_next (fy_vfs s)"
  obtain n r where n: "vf_node st v = Some n" "vn_op n = Some op" "vn_open_count n = 0" "vn_data n = None"
    and r: "fst (vf_world st) v = Some r"
    using st by (auto simp: pipe_create_def vnode_create_def Let_def v_def)
  have nosock: "\<not> ofile_is_socket fl" if "of_flags fl = OF_READABLE \<or> of_flags fl = OF_WRITABLE" for fl
    using that by (auto simp: ofile_is_socket_def flag_simps)
  have u1: "users s1 v = {fy_next s, Suc (fy_next s)}"
    using new(1) by (auto simp: s1 users_def v_def ofile_create_def)
  note c1 = close_pipe_end [of s1 p a "fy_next s" _ v n op r env]
  let ?s2 = "s1\<lparr>fy_vfs := (upd_node v (vn_open_count_update (\<lambda>c. c - 1)) st)
       \<lparr>vf_world := apfst (\<lambda>R. R(v \<mapsto> pipe_vnode_close r)) (vf_world st)\<rparr>,
     fy_files := (fy_files s1)(fy_next s := None), fy_fd := (fy_fd s1)((p, a) := None)\<rparr>"
  have c1: "sys_close env p (int a) s1 = Some ?s2"
    using c1 fds n r assms(3) by (simp add: s1 nosock v_def ofile_create_def)
  obtain s3 where c2: "sys_close env p (int b) ?s2 = Some s3"
    and s3: "fy_vfs s3 = (upd_node v (vn_open_count_update (\<lambda>c. c - 1)) (fy_vfs ?s2))
       \<lparr>vf_world := apfst (\<lambda>R. R(v \<mapsto> pipe_vnode_close (pipe_vnode_close r))) (vf_world (fy_vfs ?s2))\<rparr>"
      "fy_files s3 = (fy_files ?s2)(Suc (fy_next s) := None)"
    using close_pipe_end [of ?s2 p b "Suc (fy_next s)" _ v "n\<lparr>vn_open_count := - 1\<rparr>" op "pipe_vnode_close r" env] fds n r assms(3)
    by (simp add: s1 nosock v_def ofile_create_def)
  have u2: "users ?s2 v = {Suc (fy_next s)}" using u1 by (auto simp: users_def)
  have u3: "users s3 v = {}" using u2 by (auto simp: users_def s3(2))
  have n3: "vf_node (fy_vfs s3) v = Some (n\<lparr>vn_open_count := 0xFFFFFFFE\<rparr>)" using n by (simp add: s3(1))
  show ?thesis
    by (intro exI [of _ v] exI [of _ n] exI [of _ "fy_next s"] exI [of _ "Suc (fy_next s)"] exI [of _ ?s2] exI [of _ s3] conjI u1 c1 u2 c2 u3 n3)
      (use n fds n3 in \<open>auto simp: s1 vnode_destroy_def\<close>)
qed

text \<open>A process without descriptors on a file system without vnodes, and an operation table with the pipes' close operation.\<close>

definition demo_idle :: "(unit, unit pipe_world) fsys" where
  "demo_idle = \<lparr>
     fy_vfs = \<lparr>vf_node = Map.empty, vf_next = 1, vf_root = None, vf_fs = Map.empty, vf_fs_next = 0, vf_classes = [],
       vf_mounts = [], vf_busy = (\<lambda>_. False), vf_world = (Map.empty, ())\<rparr>,
     fy_files = Map.empty, fy_next = 0, fy_fd = Map.empty,
     fy_procs = [1 \<mapsto> \<lparr>pi_ioctx = \<lparr>cwd_vnode = None, io_umask = 0, io_uid = 0, io_gid = 0\<rparr>, pi_ctty = None\<rparr>]\<rparr>"

definition demo_pipe_env :: "(unit, unit pipe_world) vfs_env" where
  "demo_pipe_env = \<lparr>
     env_ops = (\<lambda>_. \<lparr>vo_find = None, vo_readdir = None, vo_opendir = None, vo_open = None, vo_close = Some pipe_file_close,
       vo_mknod = None, vo_creat = None, vo_mkdir = None, vo_truncate = None, vo_unlink = None, vo_lseek = None, vo_stat = None,
       vo_chmod = None, vo_chown = None, vo_readlink = None, vo_read = None, vo_write = None\<rparr>),
     env_link = (\<lambda>_ _ _. (None, [])), env_chr = (\<lambda>_. \<lparr>ch_tty = False, ch_write = None, ch_read = None, ch_ioctl = None\<rparr>),
     env_blk_read = (\<lambda>_ _ _ st. Some (- EINVAL, [], st)), env_blk_ioctl = (\<lambda>_ _ _ st. Some (- EINVAL, st)),
     env_cls = (\<lambda>_. \<lparr>fc_name = [], fc_get_root = None, fc_init = None, fc_destroy = None\<rparr>),
     env_fifo_create = (\<lambda>_ st. Some (- EINVAL, st)), env_net_close = (\<lambda>_ st. Some st)\<rparr>"

lemma demo_idle_ok: "files_ok demo_idle"
  by (simp add: files_ok_def fds_ok_def counts_ok_def vfs_wf_def demo_idle_def)

theorem pipe_count_wraps_witness:
  "\<exists>s1 s2 v. sys_pipe 0 None 1 demo_idle = Some ((0, Some (0, 1)), s1) \<and> sys_close demo_pipe_env 1 0 s1 = Some s2
     \<and> fy_fd s2 (1, 1) \<noteq> None \<and> map_option vn_open_count (vf_node (fy_vfs s2) v) = Some 0xFFFFFFFF"
proof -
  obtain s1 where s1: "sys_pipe 0 None 1 demo_idle = Some ((0, Some (0, 1)), s1)"
    by (simp add: sys_pipe_def pipe_create_def vnode_create_def ofile_dup_def ofile_create_def free_fds_def demo_idle_def upt_conv_Cons)
  have "vo_close (env_ops demo_pipe_env 0) = Some pipe_file_close" by (simp add: demo_pipe_env_def)
  from pipe_count_wraps [OF demo_idle_ok s1 this]
  obtain v n j s2 where "sys_close demo_pipe_env 1 0 s1 = Some s2" "fy_fd s2 (1, 1) = Some j"
      "vf_node (fy_vfs s2) v = Some (n\<lparr>vn_open_count := 0xFFFFFFFF\<rparr>)" by auto
  with s1 show ?thesis by (intro exI [of _ s1] exI [of _ s2] exI [of _ v]) simp
qed

end
