(* ===== verification/Alloc_Iface.thy ===== *)
theory Alloc_Iface
  imports Ygg_Prelude
begin

text \<open>
  What the kernel's object allocators (the heap and the slab caches) promise to their clients, as the
  interface \<open>object_allocator\<close>: a representation predicate ties a state to the set of outstanding
  objects, each an address with a length.  The client lemma is about whole histories of requests.
\<close>

datatype alloc_request = Get nat | Put nat

text \<open>
  A history of requests against an allocator.  \<open>Put i\<close> returns the \<open>i\<close>th object of the ledger of
  outstanding objects, newest first; requests the interface does not admit are skipped.
\<close>

fun alloc_history ::
  "(nat \<Rightarrow> 's \<Rightarrow> (nat option \<times> 's) kern) \<Rightarrow> (nat \<Rightarrow> 's \<Rightarrow> 's kern) \<Rightarrow> (nat \<Rightarrow> bool) \<Rightarrow>
   alloc_request list \<Rightarrow> 's \<Rightarrow> (nat \<times> nat) list \<Rightarrow> ('s \<times> (nat \<times> nat) list) kern" where
  "alloc_history get put ok [] s A = Some (s, A)"
| "alloc_history get put ok (Get n # rs) s A =
    (if ok n then
       (case get n s of
          None \<Rightarrow> None
        | Some (None, s') \<Rightarrow> alloc_history get put ok rs s' A
        | Some (Some p, s') \<Rightarrow> alloc_history get put ok rs s' ((p, n) # A))
     else alloc_history get put ok rs s A)"
| "alloc_history get put ok (Put i # rs) s A =
    (if i < length A then
       (case put (fst (A ! i)) s of
          None \<Rightarrow> None
        | Some s' \<Rightarrow> alloc_history get put ok rs s' (take i A @ drop (Suc i) A))
     else alloc_history get put ok rs s A)"

definition apart :: "nat \<times> nat \<Rightarrow> nat \<times> nat \<Rightarrow> bool" where
  "apart x y \<longleftrightarrow> fst x \<noteq> fst y \<and> (fst x + snd x \<le> fst y \<or> fst y + snd y \<le> fst x)"

text \<open>The ledger against the represented set: same objects, each at least as long as requested.\<close>

definition ledger_ok :: "(nat \<times> nat) list \<Rightarrow> (nat \<times> nat) set \<Rightarrow> bool" where
  "ledger_ok A L \<longleftrightarrow>
    distinct (map fst A) \<and> fst ` set A = fst ` L \<and> inj_on fst L
    \<and> (\<forall>(p, n) \<in> set A. \<exists>k \<ge> n. (p, k) \<in> L)
    \<and> (\<forall>x \<in> L. \<forall>y \<in> L. x \<noteq> y \<longrightarrow> apart x y)"

lemma ledger_ok_empty [simp]: "ledger_ok [] {}"
  by (simp add: ledger_ok_def)

lemma apart_sym: "apart x y = apart y x"
  by (auto simp: apart_def)

lemma ledger_ok_insert:
  assumes "ledger_ok A L" "n \<le> k" "\<forall>y \<in> L. apart (p, k) y"
  shows "ledger_ok ((p, n) # A) (insert (p, k) L)"
proof -
  have p: "p \<notin> fst ` L" using assms(3) by (auto simp: apart_def)
  have ok: "distinct (map fst A)" "fst ` set A = fst ` L" "inj_on fst L"
    "\<forall>(p, n) \<in> set A. \<exists>k \<ge> n. (p, k) \<in> L" "\<forall>x \<in> L. \<forall>y \<in> L. x \<noteq> y \<longrightarrow> apart x y"
    using assms(1) by (simp_all add: ledger_ok_def)
  show ?thesis
    unfolding ledger_ok_def
  proof (intro conjI)
    show "distinct (map fst ((p, n) # A))" using ok(1,2) p by simp
    show "fst ` set ((p, n) # A) = fst ` insert (p, k) L" using ok(2) by simp
    show "inj_on fst (insert (p, k) L)" using ok(3) p by (auto simp: inj_on_def)
    show "\<forall>(q, m) \<in> set ((p, n) # A). \<exists>l \<ge> m. (q, l) \<in> insert (p, k) L" using ok(4) assms(2) by auto
    show "\<forall>x \<in> insert (p, k) L. \<forall>y \<in> insert (p, k) L. x \<noteq> y \<longrightarrow> apart x y"
      using ok(5) assms(3) apart_sym by blast
  qed
qed

lemma ledger_ok_remove:
  assumes ok: "ledger_ok A L" and i: "i < length A"
  obtains k where "(fst (A ! i), k) \<in> L"
    "ledger_ok (take i A @ drop (Suc i) A) (L - {(fst (A ! i), k)})"
proof -
  obtain p n where a: "A ! i = (p, n)" by (cases "A ! i")
  define B C where "B = take i A" and "C = drop (Suc i) A"
  have A: "A = B @ (p, n) # C" using id_take_nth_drop [OF i] a by (simp add: B_def C_def)
  have d: "distinct (map fst (B @ (p, n) # C))" using ok unfolding ledger_ok_def A by blast
  have "(p, n) \<in> set A" using i a by (metis nth_mem)
  then obtain k where k: "(p, k) \<in> L" using ok unfolding ledger_ok_def by blast
  have inj: "inj_on fst L" using ok by (simp add: ledger_ok_def)
  let ?A = "B @ C"
  have dist: "distinct (map fst ?A)" "p \<notin> fst ` set ?A" using d by auto
  have setA: "set A = insert (p, n) (set ?A)" by (simp add: A)
  have "fst ` (L - {(p, k)}) = fst ` L - {p}" using inj_on_image_set_diff [OF inj, of L "{(p, k)}"] k by simp
  moreover have "fst ` L = fst ` set A" using ok by (simp add: ledger_ok_def)
  ultimately have img: "fst ` set ?A = fst ` (L - {(p, k)})" using dist(2) by (simp add: setA)
  have cover: "\<exists>k' \<ge> m. (q, k') \<in> L - {(p, k)}" if "(q, m) \<in> set ?A" for q m
  proof -
    have "q \<noteq> p" using that dist(2) by force
    moreover have "(q, m) \<in> set A" using that setA by blast
    hence "\<exists>k' \<ge> m. (q, k') \<in> L" using ok unfolding ledger_ok_def by blast
    ultimately show ?thesis by auto
  qed
  have "ledger_ok ?A (L - {(p, k)})"
    unfolding ledger_ok_def
  proof (intro conjI)
    show "distinct (map fst ?A)" by (rule dist(1))
    show "fst ` set ?A = fst ` (L - {(p, k)})" by (rule img)
    show "inj_on fst (L - {(p, k)})" using inj by (rule inj_on_subset) auto
    show "\<forall>(q, m) \<in> set ?A. \<exists>k' \<ge> m. (q, k') \<in> L - {(p, k)}" using cover by blast
    show "\<forall>x \<in> L - {(p, k)}. \<forall>y \<in> L - {(p, k)}. x \<noteq> y \<longrightarrow> apart x y" using ok by (simp add: ledger_ok_def)
  qed
  thus ?thesis using that [of k] k a by (simp add: B_def C_def)
qed

lemma ledger_apart:
  assumes "ledger_ok A L" "i < length A" "j < length A" "i \<noteq> j"
  shows "apart (A ! i) (A ! j)"
proof -
  obtain p n q m where a: "A ! i = (p, n)" "A ! j = (q, m)" by (cases "A ! i"; cases "A ! j")
  have mem: "(p, n) \<in> set A" "(q, m) \<in> set A" using assms a by (metis nth_mem)+
  have ok: "\<forall>(p, n) \<in> set A. \<exists>k \<ge> n. (p, k) \<in> L" "\<forall>x \<in> L. \<forall>y \<in> L. x \<noteq> y \<longrightarrow> apart x y"
    using assms(1) by (simp_all add: ledger_ok_def)
  obtain k where k: "k \<ge> n" "(p, k) \<in> L" using ok(1) mem(1) by blast
  obtain l where l: "l \<ge> m" "(q, l) \<in> L" using ok(1) mem(2) by blast
  have "distinct (map fst A)" using assms(1) by (simp add: ledger_ok_def)
  hence "map fst A ! i \<noteq> map fst A ! j" using assms(2-4) by (simp only: nth_eq_iff_index_eq length_map) simp
  hence "p \<noteq> q" using assms(2,3) a by simp
  hence "apart (p, k) (q, l)" using ok(2) k(2) l(2) by blast
  thus ?thesis using k l by (auto simp: a apart_def)
qed

locale object_allocator =
  fixes rep :: "'s \<Rightarrow> (nat \<times> nat) set \<Rightarrow> bool"
    and get :: "nat \<Rightarrow> 's \<Rightarrow> (nat option \<times> 's) kern"
    and put :: "nat \<Rightarrow> 's \<Rightarrow> 's kern"
    and ok :: "nat \<Rightarrow> bool"
  assumes get_law: "rep s L \<Longrightarrow> ok n \<Longrightarrow>
      \<exists>r s'. get n s = Some (r, s') \<and>
        (case r of None \<Rightarrow> rep s' L
         | Some p \<Rightarrow> \<exists>k \<ge> n. rep s' (insert (p, k) L) \<and> (\<forall>y \<in> L. apart (p, k) y))"
    and put_law: "rep s L \<Longrightarrow> (p, k) \<in> L \<Longrightarrow> \<exists>s'. put p s = Some s' \<and> rep s' (L - {(p, k)})"
begin

lemma history_rep:
  assumes "rep s L" "ledger_ok A L"
  shows "\<exists>s' A' L'. alloc_history get put ok rs s A = Some (s', A') \<and> rep s' L' \<and> ledger_ok A' L'"
  using assms
proof (induction rs arbitrary: s A L)
  case Nil
  thus ?case by auto
next
  case (Cons r rs)
  show ?case
  proof (cases r)
    case (Get n)
    show ?thesis
    proof (cases "ok n")
      case True
      obtain x s' where g: "get n s = Some (x, s')"
        "case x of None \<Rightarrow> rep s' L | Some p \<Rightarrow> \<exists>k \<ge> n. rep s' (insert (p, k) L) \<and> (\<forall>y \<in> L. apart (p, k) y)"
        using get_law [OF Cons.prems(1) True] by blast
      show ?thesis
      proof (cases x)
        case None
        thus ?thesis using g Cons.IH [of s' L A] Cons.prems(2) True by (simp add: Get)
      next
        case (Some p)
        then obtain k where k: "n \<le> k" "rep s' (insert (p, k) L)" "\<forall>y \<in> L. apart (p, k) y" using g(2) by auto
        thus ?thesis using Cons.IH [OF k(2) ledger_ok_insert [OF Cons.prems(2) k(1,3)]] g(1) Some True
          by (simp add: Get)
      qed
    qed (use Cons in \<open>simp add: Get\<close>)
  next
    case (Put i)
    show ?thesis
    proof (cases "i < length A")
      case True
      obtain k where k: "(fst (A ! i), k) \<in> L" "ledger_ok (take i A @ drop (Suc i) A) (L - {(fst (A ! i), k)})"
        using ledger_ok_remove [OF Cons.prems(2) True] .
      obtain s' where "put (fst (A ! i)) s = Some s'" "rep s' (L - {(fst (A ! i), k)})"
        using put_law [OF Cons.prems(1) k(1)] by blast
      thus ?thesis using Cons.IH [of s' _ "take i A @ drop (Suc i) A"] k(2) True by (simp add: Put)
    qed (use Cons in \<open>simp add: Put\<close>)
  qed
qed

text \<open>
  From a state without objects, every history runs to its end and leaves outstanding objects that do
  not overlap, at the lengths that were requested.
\<close>

lemma history_safe:
  assumes "rep s {}"
  shows "\<exists>s' A. alloc_history get put ok rs s [] = Some (s', A) \<and>
    (\<forall>i < length A. \<forall>j < length A. i \<noteq> j \<longrightarrow> apart (A ! i) (A ! j))"
  using history_rep [OF assms ledger_ok_empty, of rs] ledger_apart by blast

end

end
