(* ===== verification/Kheap.thy ===== *)
theory Kheap
  imports Alloc_Iface
begin

text \<open>
  The kernel heap (src/arch/amd64/mm/heap.c).  The block headers live in a store from addresses to
  \<open>heap_block\<close> records with the source's fields; an address that never held a header has none, and a
  routine that reads one there has the value \<^term>\<open>None\<close>, like a failed assertion or a list walk
  that does not end.  \<open>linked\<close> and \<open>tiled\<close> relate the store to the list of blocks it represents.
\<close>

definition HEAP_MAGIC :: "32 word" where "HEAP_MAGIC = 0x1BAD83A0"
definition HDR :: nat where "HDR = 24"

record heap_block =
  hb_magic :: "32 word"
  hb_size :: nat
  hb_prev :: "nat option"
  hb_next :: "nat option"

text \<open>Stores into the 32-bit size field and 64-bit address arithmetic.\<close>

definition u32 :: "nat \<Rightarrow> nat" where "u32 n = n mod 2 ^ 32"
definition u64 :: "nat \<Rightarrow> nat" where "u64 n = n mod 2 ^ 64"

type_synonym hstore = "nat \<Rightarrow> heap_block option"

record kernel_heap =
  kh_base :: nat
  kh_limit :: nat
  kh_mem :: hstore

definition hb_used :: "heap_block \<Rightarrow> bool" where
  "hb_used b \<longleftrightarrow> hb_magic b AND 1 \<noteq> 0"

definition hb_valid :: "heap_block \<Rightarrow> bool" where
  "hb_valid b \<longleftrightarrow> hb_magic b AND HEAP_MAGIC = HEAP_MAGIC"

section \<open>Operations\<close>

text \<open>The scan over all headers that panics on a broken magic number.\<close>

partial_function (option) heap_check :: "hstore \<Rightarrow> nat option \<Rightarrow> unit option" where
  "heap_check m cur =
    (case cur of
       None \<Rightarrow> Some ()
     | Some a \<Rightarrow>
         (case m a of
            None \<Rightarrow> None
          | Some b \<Rightarrow> if hb_valid b then heap_check m (hb_next b) else None))"

partial_function (option) heap_search :: "hstore \<Rightarrow> nat \<Rightarrow> nat option \<Rightarrow> nat option option" where
  "heap_search m count cur =
    (case cur of
       None \<Rightarrow> Some None
     | Some a \<Rightarrow>
         (case m a of
            None \<Rightarrow> None
          | Some b \<Rightarrow>
              if \<not> hb_used b \<and> (count = hb_size b \<or> u64 (count + HDR) \<le> hb_size b) then Some (Some a)
              else heap_search m count (hb_next b)))"

definition set_prev :: "nat option \<Rightarrow> nat option \<Rightarrow> hstore \<Rightarrow> hstore kern" where
  "set_prev tgt p m =
    (case tgt of
       None \<Rightarrow> Some m
     | Some a \<Rightarrow> do { b \<leftarrow> m a; Some (m(a \<mapsto> b\<lparr>hb_prev := p\<rparr>)) })"

definition amd64_heap_init :: "nat \<Rightarrow> nat \<Rightarrow> kernel_heap" where
  "amd64_heap_init base sz = \<lparr> kh_base = base, kh_limit = sz,
     kh_mem = [base \<mapsto> \<lparr> hb_magic = HEAP_MAGIC, hb_size = u32 (sz + 2 ^ 64 - HDR), hb_prev = None, hb_next = None \<rparr>] \<rparr>"

definition heap_round :: "nat \<Rightarrow> nat" where
  "heap_round count = u64 (count + 15) div 16 * 16"

definition heap_alloc :: "kernel_heap \<Rightarrow> nat \<Rightarrow> (nat option \<times> kernel_heap) kern" where
  "heap_alloc h cnt = do {
     let count = heap_round cnt;
     let m = kh_mem h;
     heap_check m (Some (kh_base h));
     r \<leftarrow> heap_search m count (Some (kh_base h));
     case r of
       None \<Rightarrow> Some (None, h)
     | Some a \<Rightarrow> do {
         b \<leftarrow> m a;
         if count = hb_size b
         then Some (Some (a + HDR), h\<lparr>kh_mem := m(a \<mapsto> b\<lparr>hb_magic := hb_magic b OR 1\<rparr>)\<rparr>)
         else do {
           let new_block = u64 (a + HDR + count);
           m \<leftarrow> set_prev (hb_next b) (Some new_block) m;
           let m = m(new_block \<mapsto> \<lparr> hb_magic = HEAP_MAGIC, hb_size = u32 (hb_size b + 2 ^ 65 - HDR - count),
                                    hb_prev = Some a, hb_next = hb_next b \<rparr>);
           let m = m(a \<mapsto> b\<lparr>hb_next := Some new_block, hb_size := u32 count, hb_magic := hb_magic b OR 1\<rparr>);
           Some (Some (a + HDR), h\<lparr>kh_mem := m\<rparr>)
         }
       }
   }"

text \<open>The two coalescing steps of \<open>heap_free\<close>: into the previous block, and of the next block.\<close>

definition heap_merge_prev :: "nat \<Rightarrow> heap_block \<Rightarrow> hstore \<Rightarrow> (hstore \<times> nat) kern" where
  "heap_merge_prev blk b m =
    (case hb_prev b of
       None \<Rightarrow> Some (m, blk)
     | Some p \<Rightarrow> do {
         pb \<leftarrow> m p;
         if hb_used pb then Some (m, blk)
         else do {
           m \<leftarrow> set_prev (hb_next b) (Some p) (m(p \<mapsto> pb\<lparr>hb_next := hb_next b\<rparr>));
           pb \<leftarrow> m p;
           let m = m(p \<mapsto> pb\<lparr>hb_size := u32 (hb_size pb + HDR + hb_size b)\<rparr>);
           b' \<leftarrow> m blk;
           Some (m(blk \<mapsto> b'\<lparr>hb_magic := 0\<rparr>), p)
         }
       })"

definition heap_merge_next :: "nat \<Rightarrow> nat option \<Rightarrow> hstore \<Rightarrow> hstore kern" where
  "heap_merge_next cur next m =
    (case next of
       None \<Rightarrow> Some m
     | Some n \<Rightarrow> do {
         nb \<leftarrow> m n;
         if hb_used nb then Some m
         else do {
           cb \<leftarrow> m cur;
           m \<leftarrow> set_prev (hb_next nb) (Some cur) (m(cur \<mapsto> cb\<lparr>hb_next := hb_next nb\<rparr>));
           nb \<leftarrow> m n;
           let m = m(n \<mapsto> nb\<lparr>hb_magic := 0\<rparr>);
           cb \<leftarrow> m cur;
           Some (m(cur \<mapsto> cb\<lparr>hb_size := u32 (hb_size cb + HDR + hb_size nb)\<rparr>))
         }
       })"

definition heap_free :: "kernel_heap \<Rightarrow> nat \<Rightarrow> kernel_heap kern" where
  "heap_free h ptr =
    (if ptr = 0 then Some h
     else do {
       kassert (kh_base h \<le> ptr \<and> ptr \<le> kh_base h + kh_limit h);
       let blk = ptr - HDR;
       let m = kh_mem h;
       b \<leftarrow> m blk;
       kassert (hb_valid b);
       kassert (hb_used b);
       let m = m(blk \<mapsto> b\<lparr>hb_magic := HEAP_MAGIC\<rparr>);
       heap_check m (Some (kh_base h));
       (m, cur) \<leftarrow> heap_merge_prev blk b m;
       m \<leftarrow> heap_merge_next cur (hb_next b) m;
       Some (h\<lparr>kh_mem := m\<rparr>)
     })"

text \<open>Statistics: number of used blocks, used bytes, free bytes.\<close>

partial_function (option) heap_count :: "hstore \<Rightarrow> nat option \<Rightarrow> nat \<times> nat \<times> nat \<Rightarrow> (nat \<times> nat \<times> nat) option" where
  "heap_count m cur st =
    (case cur of
       None \<Rightarrow> Some st
     | Some a \<Rightarrow>
         (case m a of
            None \<Rightarrow> None
          | Some b \<Rightarrow>
              if hb_valid b then
                heap_count m (hb_next b)
                  (case st of (cnt, used, free) \<Rightarrow>
                     if hb_used b then (Suc cnt, used + hb_size b, free) else (cnt, used, free + hb_size b))
              else None))"

definition heap_stat :: "kernel_heap \<Rightarrow> (nat \<times> nat \<times> nat \<times> nat) option" where
  "heap_stat h = map_option (\<lambda>(cnt, used, free). (cnt, used, free, kh_limit h))
     (heap_count (kh_mem h) (Some (kh_base h)) (0, 0, 0))"

partial_function (option) heap_blocks_from :: "hstore \<Rightarrow> nat option \<Rightarrow> nat \<Rightarrow> nat option" where
  "heap_blocks_from m cur c =
    (case cur of
       None \<Rightarrow> Some c
     | Some a \<Rightarrow>
         (case m a of
            None \<Rightarrow> None
          | Some b \<Rightarrow> if hb_valid b then heap_blocks_from m (hb_next b) (Suc c) else None))"

definition amd64_heap_blocks :: "kernel_heap \<Rightarrow> nat option" where
  "amd64_heap_blocks h = heap_blocks_from (kh_mem h) (Some (kh_base h)) 0"

section \<open>The store represents a list of blocks\<close>

type_synonym hblk = "nat \<times> bool \<times> nat"

definition magic_of :: "bool \<Rightarrow> 32 word" where
  "magic_of u = (if u then HEAP_MAGIC OR 1 else HEAP_MAGIC)"

definition head_addr :: "hblk list \<Rightarrow> nat option \<Rightarrow> nat option" where
  "head_addr bs n = (case bs of [] \<Rightarrow> n | b # _ \<Rightarrow> Some (fst b))"

definition last_addr :: "hblk list \<Rightarrow> nat option \<Rightarrow> nat option" where
  "last_addr bs p = (if bs = [] then p else Some (fst (last bs)))"

fun linked :: "hstore \<Rightarrow> nat option \<Rightarrow> hblk list \<Rightarrow> nat option \<Rightarrow> bool" where
  "linked m p [] n \<longleftrightarrow> True"
| "linked m p ((a, u, sz) # bs) n \<longleftrightarrow>
    m a = Some \<lparr> hb_magic = magic_of u, hb_size = sz, hb_prev = p, hb_next = head_addr bs n \<rparr>
    \<and> linked m (Some a) bs n"

fun tiled :: "nat \<Rightarrow> hblk list \<Rightarrow> nat \<Rightarrow> bool" where
  "tiled a [] e \<longleftrightarrow> a = e"
| "tiled a ((b, u, sz) # bs) e \<longleftrightarrow> b = a \<and> tiled (a + HDR + sz) bs e"

definition coalesced :: "hblk list \<Rightarrow> bool" where
  "coalesced bs \<longleftrightarrow> successively (\<lambda>(_, u, _) (_, v, _). u \<or> v) bs"

definition heap_rep :: "kernel_heap \<Rightarrow> hblk list \<Rightarrow> bool" where
  "heap_rep h bs \<longleftrightarrow>
    bs \<noteq> [] \<and> 0 < kh_base h \<and> kh_limit h < 2 ^ 32 \<and> kh_base h + kh_limit h < 2 ^ 64 \<and> linked (kh_mem h) None bs None
    \<and> tiled (kh_base h) bs (kh_base h + kh_limit h) \<and> coalesced bs"

lemma magic_simps [simp]:
  "magic_of u AND HEAP_MAGIC = HEAP_MAGIC" "(magic_of u AND 1 = 0) = (\<not> u)"
  "magic_of False = HEAP_MAGIC" "HEAP_MAGIC OR 1 = magic_of True" "HEAP_MAGIC AND 1 = 0"
  by (auto simp: magic_of_def HEAP_MAGIC_def)

lemma linked_append:
  "linked m p (xs @ ys) n \<longleftrightarrow> linked m p xs (head_addr ys n) \<and> linked m (last_addr xs p) ys n"
proof (induction xs arbitrary: p)
  case Nil
  thus ?case by (simp add: last_addr_def)
next
  case (Cons x xs)
  obtain a u sz where "x = (a, u, sz)" by (cases x)
  thus ?case using Cons by (cases xs) (auto simp: head_addr_def last_addr_def)
qed

lemma linked_frame: "(\<And>a. a \<in> fst ` set bs \<Longrightarrow> m' a = m a) \<Longrightarrow> linked m' p bs n = linked m p bs n"
proof (induction bs arbitrary: p)
  case (Cons x bs)
  obtain a u sz where "x = (a, u, sz)" by (cases x)
  thus ?case using Cons.prems Cons.IH by simp
qed simp

lemma linked_upd [simp]: "a \<notin> fst ` set bs \<Longrightarrow> linked (m(a := x)) p bs n = linked m p bs n"
  by (rule linked_frame) (metis fun_upd_other)

lemma tiled_append: "tiled a (xs @ ys) e \<longleftrightarrow> (\<exists>b. tiled a xs b \<and> tiled b ys e)"
  by (induction xs arbitrary: a) auto

lemma tiled_le: "tiled a bs e \<Longrightarrow> a \<le> e"
proof (induction bs arbitrary: a)
  case (Cons x bs)
  obtain b u sz where x: "x = (b, u, sz)" by (cases x)
  hence "a + HDR + sz \<le> e" using Cons by auto
  thus ?case by simp
qed simp

lemma tiled_mem:
  "tiled a bs e \<Longrightarrow> (b, u, sz) \<in> set bs \<Longrightarrow> a \<le> b \<and> b + HDR + sz \<le> e"
proof (induction bs arbitrary: a)
  case (Cons x bs)
  obtain c v s where x: "x = (c, v, s)" by (cases x)
  show ?case
  proof (cases "(b, u, sz) = x")
    case True
    thus ?thesis using Cons.prems x tiled_le [of "a + HDR + s" bs e] by simp
  next
    case False
    hence "a + HDR + s \<le> b \<and> b + HDR + sz \<le> e" using Cons x by (intro Cons.IH) auto
    thus ?thesis by simp
  qed
qed simp

lemma tiled_distinct: "tiled a bs e \<Longrightarrow> distinct (map fst bs)"
proof (induction bs arbitrary: a)
  case (Cons x bs)
  obtain b u sz where x: "x = (b, u, sz)" by (cases x)
  have "b \<notin> fst ` set bs"
  proof
    assume "b \<in> fst ` set bs"
    then obtain v s where "(b, v, s) \<in> set bs" by auto
    thus False using tiled_mem [of "a + HDR + sz" bs e b v s] Cons.prems x by (simp add: HDR_def)
  qed
  thus ?case using Cons x by auto
qed simp

section \<open>Walks and pointer updates on the represented list\<close>

definition hblk_rec :: "hblk \<Rightarrow> nat option \<Rightarrow> nat option \<Rightarrow> heap_block" where
  "hblk_rec b p n = \<lparr> hb_magic = magic_of (fst (snd b)), hb_size = snd (snd b), hb_prev = p, hb_next = n \<rparr>"

lemma hblk_rec_simps [simp]:
  "hb_used (hblk_rec (a, u, sz) p n) = u" "hb_valid (hblk_rec b p n)"
  "hb_size (hblk_rec (a, u, sz) p n) = sz" "hb_prev (hblk_rec b p n) = p" "hb_next (hblk_rec b p n) = n"
  "hb_magic (hblk_rec (a, u, sz) p n) = magic_of u"
  by (simp_all add: hblk_rec_def hb_used_def hb_valid_def)

lemma linked_Cons:
  "linked m p (b # bs) n \<longleftrightarrow> m (fst b) = Some (hblk_rec b p (head_addr bs n)) \<and> linked m (Some (fst b)) bs n"
  by (cases b) (simp add: hblk_rec_def)

declare linked.simps(2) [simp del]
declare linked_Cons [simp]

lemma head_addr_simps [simp]: "head_addr [] n = n" "head_addr (b # bs) n = Some (fst b)"
  by (simp_all add: head_addr_def)

lemma heap_check_linked: "linked m p bs None \<Longrightarrow> heap_check m (head_addr bs None) = Some ()"
proof (induction bs arbitrary: p)
  case (Cons b bs)
  hence "heap_check m (head_addr bs None) = Some ()" by auto
  thus ?case using Cons.prems by (simp add: heap_check.simps [of m "Some _"])
qed (simp add: heap_check.simps [of m None])

definition fits :: "nat \<Rightarrow> hblk \<Rightarrow> bool" where
  "fits c b \<longleftrightarrow> \<not> fst (snd b) \<and> (c = snd (snd b) \<or> c + HDR \<le> snd (snd b))"

lemma u32_id [simp]: "n < 2 ^ 32 \<Longrightarrow> u32 n = n"
  and u64_id [simp]: "n < 2 ^ 64 \<Longrightarrow> u64 n = n"
  by (simp_all add: u32_def u64_def)

lemma heap_search_linked:
  "c + HDR < 2 ^ 64 \<Longrightarrow> linked m p bs None \<Longrightarrow> heap_search m c (head_addr bs None) = Some (map_option fst (List.find (fits c) bs))"
proof (induction bs arbitrary: p)
  case Nil
  show ?case by (simp add: heap_search.simps [of m c None])
next
  case (Cons b bs)
  obtain a u sz where b: "b = (a, u, sz)" by (cases b)
  have IH: "heap_search m c (head_addr bs None) = Some (map_option fst (List.find (fits c) bs))"
    using Cons by auto
  have "u64 (c + HDR) = c + HDR" using Cons.prems by (intro u64_id)
  thus ?case using Cons.prems(2)
    by (simp add: heap_search.simps [of m c "Some _"] b IH) (auto simp: fits_def)
qed

lemma set_prev_linked:
  assumes "linked m p ys None" "distinct (map fst ys)"
  shows "\<exists>m'. set_prev (head_addr ys None) q m = Some m' \<and> linked m' q ys None
     \<and> (\<forall>x. x \<notin> fst ` set ys \<longrightarrow> m' x = m x)"
proof (cases ys)
  case Nil
  thus ?thesis by (simp add: set_prev_def)
next
  case (Cons y zs)
  let ?m = "m(fst y \<mapsto> hblk_rec y q (head_addr zs None))"
  have "set_prev (head_addr ys None) q m = Some ?m"
    using assms(1) by (simp add: Cons set_prev_def hblk_rec_def)
  moreover have "linked ?m (Some (fst y)) zs None"
    using assms by (simp add: Cons)
  ultimately show ?thesis by (auto simp: Cons)
qed

text \<open>Two neighbours become one: the store after a merge represents the merged list.\<close>

lemma linked_merge:
  assumes lk: "linked m p (zs @ (c, u, cs) # (n, v, ns) # ws) None"
    and dist: "distinct (map fst (zs @ (c, u, cs) # (n, v, ns) # ws))"
    and m': "m' c = Some (hblk_rec (c, u, sz) (last_addr zs p) (head_addr ws None))"
    and ws: "linked m' (Some c) ws None"
    and frame: "\<And>x. x \<in> fst ` set zs \<Longrightarrow> m' x = m x"
  shows "linked m' p (zs @ (c, u, sz) # ws) None"
proof -
  have "linked m p zs (Some c)" using lk by (simp add: linked_append)
  hence "linked m' p zs (Some c)" using linked_frame [of zs m' m p "Some c"] frame by simp
  thus ?thesis using m' ws by (simp add: linked_append)
qed

lemma heap_merge_next_linked:
  assumes lk: "linked m None (zs @ (c, False, cs) # ws) None"
    and dist: "distinct (map fst (zs @ (c, False, cs) # ws))"
    and wide: "\<And>n v ns ws'. ws = (n, v, ns) # ws' \<Longrightarrow> cs + HDR + ns < 2 ^ 32"
  shows "\<exists>m'. heap_merge_next c (head_addr ws None) m = Some m' \<and>
     (\<forall>x. x \<noteq> c \<longrightarrow> x \<notin> fst ` set ws \<longrightarrow> m' x = m x) \<and>
     (case ws of
        (n, False, ns) # ws' \<Rightarrow> linked m' None (zs @ (c, False, cs + HDR + ns) # ws') None
      | _ \<Rightarrow> m' = m)"
proof (cases "\<exists>n ns ws'. ws = (n, False, ns) # ws'")
  case False
  thus ?thesis using lk
    by (cases ws) (auto simp: heap_merge_next_def linked_append split: list.splits bool.splits prod.splits)
next
  case True
  then obtain n ns ws' where ws: "ws = (n, False, ns) # ws'" by blast
  let ?c = "hblk_rec (c, False, cs) (last_addr zs None) (Some n)"
  let ?m1 = "m(c \<mapsto> ?c\<lparr>hb_next := head_addr ws' None\<rparr>)"
  have mc: "m c = Some ?c" and mn: "m n = Some (hblk_rec (n, False, ns) (Some c) (head_addr ws' None))"
    and mw: "linked m (Some n) ws' None"
    using lk by (simp_all add: ws linked_append)
  have ne: "n \<noteq> c" "c \<notin> fst ` set ws'" "n \<notin> fst ` set ws'" "c \<notin> fst ` set zs" "n \<notin> fst ` set zs"
    "distinct (map fst ws')" "fst ` set zs \<inter> fst ` set ws' = {}"
    using dist by (auto simp: ws)
  have "linked ?m1 (Some n) ws' None" using mw ne by simp
  then obtain m2 where m2: "set_prev (head_addr ws' None) (Some c) ?m1 = Some m2" "linked m2 (Some c) ws' None"
      "\<And>x. x \<notin> fst ` set ws' \<Longrightarrow> m2 x = ?m1 x"
    using set_prev_linked [OF _ ne(6)] by blast
  have at: "m2 n = Some (hblk_rec (n, False, ns) (Some c) (head_addr ws' None))"
    "m2 c = Some (?c\<lparr>hb_next := head_addr ws' None\<rparr>)"
    using m2(3) ne mn by auto
  let ?m4 = "m2(n \<mapsto> (hblk_rec (n, False, ns) (Some c) (head_addr ws' None))\<lparr>hb_magic := 0\<rparr>,
                c \<mapsto> ?c\<lparr>hb_next := head_addr ws' None, hb_size := cs + HDR + ns\<rparr>)"
  have run: "heap_merge_next c (head_addr ws None) m = Some ?m4"
    using mc mn m2(1) at ne u32_id [OF wide [OF ws]] by (simp add: heap_merge_next_def ws)
  have "linked ?m4 None (zs @ (c, False, cs + HDR + ns) # ws') None"
  proof (rule linked_merge [OF lk [unfolded ws] dist [unfolded ws]])
    show "?m4 c = Some (hblk_rec (c, False, cs + HDR + ns) (last_addr zs None) (head_addr ws' None))"
      by (simp add: hblk_rec_def)
    show "linked ?m4 (Some c) ws' None" using m2(2) ne by simp
    show "?m4 x = m x" if x: "x \<in> fst ` set zs" for x
    proof -
      have "x \<notin> fst ` set ws'" "x \<noteq> n" "x \<noteq> c" using x ne by blast+
      thus ?thesis using m2(3) [of x] by simp
    qed
  qed
  moreover have "?m4 x = m x" if "x \<noteq> c" "x \<notin> fst ` set ws" for x
    using that m2(3) [of x] by (auto simp: ws)
  ultimately show ?thesis using run by (simp add: ws)
qed

lemma heap_merge_prev_linked:
  assumes lk: "linked m None (zs @ (p, False, ps) # (a, False, sz) # ws) None"
    and dist: "distinct (map fst (zs @ (p, False, ps) # (a, False, sz) # ws))"
    and b: "b = hblk_rec (a, True, sz) (Some p) (head_addr ws None)"
    and wide: "ps + HDR + sz < 2 ^ 32"
  shows "\<exists>m'. heap_merge_prev a b m = Some (m', p) \<and> map_option hb_magic (m' a) = Some 0 \<and> linked m' None (zs @ (p, False, ps + HDR + sz) # ws) None"
proof -
  let ?p = "hblk_rec (p, False, ps) (last_addr zs None) (Some a)"
  let ?a = "hblk_rec (a, False, sz) (Some p) (head_addr ws None)"
  let ?m1 = "m(p \<mapsto> ?p\<lparr>hb_next := head_addr ws None\<rparr>)"
  have at0: "m p = Some ?p" "m a = Some ?a" and mw: "linked m (Some a) ws None"
    using lk by (simp_all add: linked_append)
  have ne: "a \<noteq> p" "p \<notin> fst ` set ws" "a \<notin> fst ` set ws" "p \<notin> fst ` set zs" "a \<notin> fst ` set zs"
    "distinct (map fst ws)" "fst ` set zs \<inter> fst ` set ws = {}"
    using dist by auto
  have "linked ?m1 (Some a) ws None" using mw ne by simp
  then obtain m2 where m2: "set_prev (head_addr ws None) (Some p) ?m1 = Some m2" "linked m2 (Some p) ws None"
      "\<And>x. x \<notin> fst ` set ws \<Longrightarrow> m2 x = ?m1 x"
    using set_prev_linked [OF _ ne(6)] by blast
  have at: "m2 a = Some ?a" "m2 p = Some (?p\<lparr>hb_next := head_addr ws None\<rparr>)"
    using m2(3) ne at0 by auto
  let ?m4 = "m2(p \<mapsto> ?p\<lparr>hb_next := head_addr ws None, hb_size := ps + HDR + sz\<rparr>, a \<mapsto> ?a\<lparr>hb_magic := 0\<rparr>)"
  have run: "heap_merge_prev a b m = Some (?m4, p)"
    using at0 m2(1) at ne u32_id [OF wide] by (simp add: heap_merge_prev_def b)
  have "linked ?m4 None (zs @ (p, False, ps + HDR + sz) # ws) None"
  proof (rule linked_merge [OF lk dist])
    show "?m4 p = Some (hblk_rec (p, False, ps + HDR + sz) (last_addr zs None) (head_addr ws None))"
      using ne by (simp add: hblk_rec_def)
    show "linked ?m4 (Some p) ws None" using m2(2) ne by simp
    show "?m4 x = m x" if x: "x \<in> fst ` set zs" for x
    proof -
      have "x \<notin> fst ` set ws" "x \<noteq> a" "x \<noteq> p" using x ne by blast+
      thus ?thesis using m2(3) [of x] by simp
    qed
  qed
  thus ?thesis using run ne by (intro exI [of _ ?m4]) simp
qed

section \<open>Release\<close>

definition coalesce_next :: "nat \<Rightarrow> nat \<Rightarrow> hblk list \<Rightarrow> hblk list" where
  "coalesce_next c cs ws =
    (case ws of (n, False, ns) # ws' \<Rightarrow> (c, False, cs + HDR + ns) # ws' | _ \<Rightarrow> (c, False, cs) # ws)"

definition coalesce :: "hblk list \<Rightarrow> nat \<Rightarrow> nat \<Rightarrow> hblk list \<Rightarrow> hblk list" where
  "coalesce zs a sz ws =
    (if zs \<noteq> [] \<and> \<not> fst (snd (last zs))
     then butlast zs @ coalesce_next (fst (last zs)) (snd (snd (last zs)) + HDR + sz) ws
     else zs @ coalesce_next a sz ws)"

lemma coalesce_next_cases:
  obtains (merge) n ns ws' where "ws = (n, False, ns) # ws'" "\<And>c cs. coalesce_next c cs ws = (c, False, cs + HDR + ns) # ws'"
  | (keep) "\<And>c cs. coalesce_next c cs ws = (c, False, cs) # ws" "ws = [] \<or> fst (snd (hd ws))"
proof (cases "\<exists>n ns ws'. ws = (n, False, ns) # ws'")
  case True
  thus ?thesis using merge by (auto simp: coalesce_next_def)
next
  case False
  thus ?thesis using keep by (cases ws) (auto simp: coalesce_next_def split: bool.splits)
qed

lemma coalesce_next_tiled:
  "tiled a ((a, u, sz) # ws) e \<Longrightarrow> tiled a (coalesce_next a sz ws) e"
  by (rule coalesce_next_cases [of ws]) (auto simp: algebra_simps)

lemma coalesce_next_coalesced:
  assumes "coalesced ws"
  shows "coalesced (coalesce_next c cs ws)"
  using assms
  by (rule_tac coalesce_next_cases [of ws])
    (auto simp: coalesced_def successively_Cons split: prod.splits)

lemma zs_last_cases:
  obtains (empty) "zs = []" | (used) zs' p ps where "zs = zs' @ [(p, True, ps)]"
  | (free) zs' p ps where "zs = zs' @ [(p, False, ps)]"
proof (cases zs rule: rev_cases)
  case (snoc ys y)
  obtain p u ps where "y = (p, u, ps)" by (cases y)
  thus ?thesis using snoc used free by (cases u) auto
qed (use empty in simp)

lemma coalesce_tiled:
  assumes "tiled b (zs @ (a, u, sz) # ws) e"
  shows "tiled b (coalesce zs a sz ws) e"
proof (cases zs rule: zs_last_cases)
  case (free zs' p ps)
  from assms have t: "tiled b zs' p" "tiled (p + HDR + (ps + HDR + sz)) ws e"
    by (auto simp: free tiled_append algebra_simps)
  hence "tiled p (coalesce_next p (ps + HDR + sz) ws) e"
    by (intro coalesce_next_tiled [where u = False]) simp
  thus ?thesis using t by (auto simp: coalesce_def free tiled_append)
qed (use assms coalesce_next_tiled [of a u sz ws e] in \<open>auto simp: coalesce_def tiled_append\<close>)

lemma coalesced_append:
  "coalesced (xs @ ys) \<longleftrightarrow> coalesced xs \<and> coalesced ys \<and>
     (xs = [] \<or> ys = [] \<or> fst (snd (last xs)) \<or> fst (snd (hd ys)))"
  by (auto simp: coalesced_def successively_append_iff split: prod.splits)

lemma coalesce_coalesced:
  assumes "coalesced (zs @ (a, True, sz) # ws)"
  shows "coalesced (coalesce zs a sz ws)"
proof -
  have ws: "coalesced ws" and zs: "coalesced zs"
    using assms by (auto simp: coalesced_append) (auto simp: coalesced_def successively_Cons)
  note cn = coalesce_next_coalesced [OF ws]
  show ?thesis
  proof (cases zs rule: zs_last_cases)
    case (free zs' p ps)
    have "zs' = [] \<or> fst (snd (last zs'))" "coalesced zs'" using zs by (auto simp: free coalesced_append)
    thus ?thesis using cn by (auto simp: coalesce_def free coalesced_append)
  next
    case (used zs' p ps)
    thus ?thesis using cn [of a sz] zs coalesced_append [of zs "coalesce_next a sz ws"]
      by (simp add: coalesce_def)
  next
    case empty
    thus ?thesis using cn by (simp add: coalesce_def)
  qed
qed

lemma tiled_pair_wide:
  assumes "tiled b (zs @ (c, u, cs) # (n, v, ns) # ws) (b + l)" "l < L"
  shows "cs + HDR + ns < L"
proof -
  have "b \<le> c" "n = c + HDR + cs" "n + HDR + ns \<le> b + l"
    using assms(1) tiled_mem [OF assms(1), of c u cs] tiled_mem [OF assms(1), of n v ns]
    by (auto simp: tiled_append)
  thus ?thesis using assms(2) by simp
qed

text \<open>The header at the freed address no longer marks an allocation.\<close>

definition dead_header :: "hstore \<Rightarrow> nat \<Rightarrow> bool" where
  "dead_header m a \<longleftrightarrow> (\<exists>b. m a = Some b \<and> \<not> (hb_valid b \<and> hb_used b))"

lemma dead_headerI:
  "map_option hb_magic (m a) = Some 0 \<Longrightarrow> dead_header m a"
  "m a = Some (hblk_rec (a, False, sz) p n) \<Longrightarrow> dead_header m a"
  by (auto simp: dead_header_def hb_valid_def HEAP_MAGIC_def)

lemma heap_merge_prev_ok:
  assumes lk: "linked m None (zs @ (a, False, sz) # ws) None"
    and tl: "tiled b (zs @ (a, False, sz) # ws) (b + l)" "l < 2 ^ 32"
  shows "\<exists>m' cur ys cs. heap_merge_prev a (hblk_rec (a, True, sz) (last_addr zs None) (head_addr ws None)) m = Some (m', cur)
     \<and> coalesce zs a sz ws = ys @ coalesce_next cur cs ws \<and> linked m' None (ys @ (cur, False, cs) # ws) None
     \<and> tiled b (ys @ (cur, False, cs) # ws) (b + l) \<and> (cur = a \<or> map_option hb_magic (m' a) = Some 0)"
    (is "\<exists>m' cur ys cs. ?run m' cur \<and> _")
proof (cases zs rule: zs_last_cases)
  case (free zs' p ps)
  have tl': "tiled b (zs' @ (p, False, ps) # (a, False, sz) # ws) (b + l)" using tl by (simp add: free)
  obtain m' where "?run m' p" "linked m' None (zs' @ (p, False, ps + HDR + sz) # ws) None"
      "map_option hb_magic (m' a) = Some 0"
    using heap_merge_prev_linked [OF _ tiled_distinct [OF tl'] _ tiled_pair_wide [OF tl' tl(2)], of m] lk
    by (auto simp: free last_addr_def)
  moreover have "coalesce zs a sz ws = zs' @ coalesce_next p (ps + HDR + sz) ws" by (simp add: coalesce_def free)
  moreover have "tiled b (zs' @ (p, False, ps + HDR + sz) # ws) (b + l)"
    using tl' by (auto simp: tiled_append algebra_simps)
  ultimately show ?thesis by blast
next
  case (used zs' p ps)
  have "?run m a" using lk by (auto simp: heap_merge_prev_def used last_addr_def linked_append)
  moreover have "coalesce zs a sz ws = zs @ coalesce_next a sz ws" by (simp add: coalesce_def used)
  ultimately show ?thesis using lk tl by blast
next
  case empty
  have "?run m a" by (simp add: heap_merge_prev_def empty last_addr_def)
  moreover have "coalesce zs a sz ws = zs @ coalesce_next a sz ws" by (simp add: coalesce_def empty)
  ultimately show ?thesis using lk tl by blast
qed

lemma heap_merge_next_ok:
  assumes lk: "linked m None (ys @ (cur, False, cs) # ws) None"
    and tl: "tiled b (ys @ (cur, False, cs) # ws) (b + l)" "l < 2 ^ 32"
  shows "\<exists>m'. heap_merge_next cur (head_addr ws None) m = Some m' \<and> linked m' None (ys @ coalesce_next cur cs ws) None
     \<and> (\<forall>x. x \<noteq> cur \<longrightarrow> x \<notin> fst ` set ws \<longrightarrow> m' x = m x)"
proof -
  have wide: "\<And>n v ns ws'. ws = (n, v, ns) # ws' \<Longrightarrow> cs + HDR + ns < 2 ^ 32"
    using tiled_pair_wide tl by blast
  obtain m' where m': "heap_merge_next cur (head_addr ws None) m = Some m'"
      "\<forall>x. x \<noteq> cur \<longrightarrow> x \<notin> fst ` set ws \<longrightarrow> m' x = m x"
    and out: "case ws of (n, False, ns) # ws' \<Rightarrow> linked m' None (ys @ (cur, False, cs + HDR + ns) # ws') None
      | _ \<Rightarrow> m' = m"
    using heap_merge_next_linked [OF lk tiled_distinct [OF tl(1)]] wide by blast
  have "linked m' None (ys @ coalesce_next cur cs ws) None"
    using out lk by (cases ws rule: coalesce_next_cases)
      (auto simp: coalesce_next_def split: list.splits prod.splits bool.splits)
  thus ?thesis using m' by blast
qed

lemma heap_free_ok:
  assumes rep: "heap_rep h (zs @ (a, True, sz) # ws)"
  shows "\<exists>h'. heap_free h (a + HDR) = Some h' \<and> heap_rep h' (coalesce zs a sz ws)
     \<and> kh_base h' = kh_base h \<and> kh_limit h' = kh_limit h \<and> dead_header (kh_mem h') a"
proof -
  let ?b = "hblk_rec (a, True, sz) (last_addr zs None) (head_addr ws None)"
  let ?m = "(kh_mem h)(a \<mapsto> ?b\<lparr>hb_magic := HEAP_MAGIC\<rparr>)"
  have tl: "tiled (kh_base h) (zs @ (a, True, sz) # ws) (kh_base h + kh_limit h)"
    and lk0: "linked (kh_mem h) None (zs @ (a, True, sz) # ws) None"
    and co: "coalesced (zs @ (a, True, sz) # ws)"
    and base: "0 < kh_base h" "kh_limit h < 2 ^ 32" "kh_base h + kh_limit h < 2 ^ 64"
    using rep by (simp_all only: heap_rep_def)
  have tl': "tiled (kh_base h) (zs @ (a, False, sz) # ws) (kh_base h + kh_limit h)"
    using tl by (simp add: tiled_append)
  have dist: "distinct (map fst (zs @ (a, False, sz) # ws))" by (rule tiled_distinct [OF tl'])
  have at: "kh_mem h a = Some ?b" using lk0 by (simp add: linked_append)
  have rec: "?b\<lparr>hb_magic := HEAP_MAGIC\<rparr> = hblk_rec (a, False, sz) (last_addr zs None) (head_addr ws None)"
    by (simp add: hblk_rec_def)
  have lk: "linked ?m None (zs @ (a, False, sz) # ws) None"
    using lk0 dist by (auto simp: linked_append rec)
  have bounds: "kh_base h \<le> a" "a + HDR \<le> kh_base h + kh_limit h"
    using tiled_mem [OF tl, of a True sz] by auto
  have hd: "head_addr (zs @ (a, False, sz) # ws) None = Some (kh_base h)"
    using tl by (cases zs) auto
  have chk: "heap_check ?m (Some (kh_base h)) = Some ()" using heap_check_linked [OF lk] hd by simp
  obtain m' cur ys cs where m': "heap_merge_prev a ?b ?m = Some (m', cur)"
    "coalesce zs a sz ws = ys @ coalesce_next cur cs ws" "linked m' None (ys @ (cur, False, cs) # ws) None"
    "tiled (kh_base h) (ys @ (cur, False, cs) # ws) (kh_base h + kh_limit h)"
    "cur = a \<or> map_option hb_magic (m' a) = Some 0"
    using heap_merge_prev_ok [OF lk tl' base(2)] by blast
  obtain m'' where m'': "heap_merge_next cur (head_addr ws None) m' = Some m''"
    "linked m'' None (ys @ coalesce_next cur cs ws) None"
    "\<forall>x. x \<noteq> cur \<longrightarrow> x \<notin> fst ` set ws \<longrightarrow> m'' x = m' x"
    using heap_merge_next_ok [OF m'(3,4) base(2)] by blast
  have "coalesce zs a sz ws \<noteq> []" using coalesce_tiled [OF tl] bounds by (auto simp: HDR_def)
  hence "heap_rep (h\<lparr>kh_mem := m''\<rparr>) (coalesce zs a sz ws)"
    using m'(2) m''(2) base coalesce_tiled [OF tl] coalesce_coalesced [OF co] by (simp add: heap_rep_def)
  moreover have "heap_free h (a + HDR) = Some (h\<lparr>kh_mem := m''\<rparr>)"
    using bounds base at chk m'(1) m'' by (simp add: heap_free_def)
  moreover have "dead_header m'' a"
  proof (cases "cur = a")
    case True
    hence "\<exists>s p n. m'' a = Some (hblk_rec (a, False, s) p n)"
      using m''(2) by (cases ws rule: coalesce_next_cases) (auto simp: linked_append)
    thus ?thesis using dead_headerI by blast
  next
    case False
    hence "m'' a = m' a" using m''(3) dist by simp
    thus ?thesis using m'(5) False by (intro dead_headerI(1)) simp
  qed
  ultimately show ?thesis by (intro exI [of _ "h\<lparr>kh_mem := m''\<rparr>"]) simp
qed

section \<open>Allocation\<close>

definition heap_cut :: "nat \<Rightarrow> nat \<Rightarrow> nat \<Rightarrow> hblk list" where
  "heap_cut a sz c =
    (if c = sz then [(a, True, sz)] else [(a, True, c), (a + HDR + c, False, sz - HDR - c)])"

lemma heap_round_bounds:
  assumes "cnt + 64 < 2 ^ 64"
  shows "cnt \<le> heap_round cnt" "heap_round cnt < cnt + 16" "heap_round cnt + HDR < 2 ^ 64"
    "heap_round cnt mod 16 = 0"
proof -
  have r: "heap_round cnt = (cnt + 15) div 16 * 16" using assms by (simp add: heap_round_def)
  show "cnt \<le> heap_round cnt" "heap_round cnt < cnt + 16" "heap_round cnt mod 16 = 0"
    unfolding r by presburger+
  thus "heap_round cnt + HDR < 2 ^ 64" using assms by (simp add: HDR_def)
qed

lemma fits_False: "fits c (a, u, sz) \<longleftrightarrow> \<not> u \<and> (c = sz \<or> c + HDR \<le> sz)"
  by (simp add: fits_def)

lemma u32_sub:
  assumes "c + HDR \<le> sz" "sz < 2 ^ 32"
  shows "u32 (sz + 2 ^ 65 - HDR - c) = sz - HDR - c"
proof -
  have "sz + 2 ^ 65 - HDR - c = (sz - HDR - c) + 2 ^ 33 * 2 ^ 32" using assms by simp
  hence "u32 (sz + 2 ^ 65 - HDR - c) = (sz - HDR - c) mod 2 ^ 32"
    by (simp only: u32_def mod_mult_self1)
  thus ?thesis using assms by simp
qed

lemma heap_cut_tiled:
  "fits c (a, False, sz) \<Longrightarrow> tiled b (xs @ (a, False, sz) # ys) e \<Longrightarrow> tiled b (xs @ heap_cut a sz c @ ys) e"
  by (auto simp: tiled_append heap_cut_def fits_False add.assoc)

lemma heap_cut_coalesced:
  "coalesced (xs @ (a, False, sz) # ys) \<Longrightarrow> coalesced (xs @ heap_cut a sz c @ ys)"
  by (auto simp: coalesced_append heap_cut_def) (auto simp: coalesced_def successively_Cons split: prod.splits)

lemma heap_split_linked:
  assumes lk: "linked m None (xs @ (a, False, sz) # ys) None"
    and tl: "tiled b (xs @ (a, False, sz) # ys) e"
    and c: "c + HDR \<le> sz"
  shows "\<exists>m'. set_prev (head_addr ys None) (Some (a + HDR + c)) m = Some m' \<and>
    linked (m'(a + HDR + c \<mapsto> hblk_rec (a + HDR + c, False, sz - HDR - c) (Some a) (head_addr ys None),
               a \<mapsto> hblk_rec (a, True, c) (last_addr xs None) (Some (a + HDR + c))))
      None (xs @ [(a, True, c), (a + HDR + c, False, sz - HDR - c)] @ ys) None"
proof -
  let ?n = "a + HDR + c"
  have "tiled b (xs @ [(a, True, c), (?n, False, sz - HDR - c)] @ ys) e"
    using heap_cut_tiled [of c a sz b xs ys e] tl c by (simp add: fits_False heap_cut_def HDR_def)
  from tiled_distinct [OF this]
  have ne: "?n \<notin> fst ` set xs" "?n \<notin> fst ` set ys" "?n \<noteq> a" "a \<notin> fst ` set xs" "a \<notin> fst ` set ys"
    "distinct (map fst ys)" "fst ` set xs \<inter> fst ` set ys = {}"
    by auto
  have ys: "linked m (Some a) ys None" and xs: "linked m None xs (Some a)"
    using lk by (simp_all add: linked_append)
  obtain m' where m': "set_prev (head_addr ys None) (Some ?n) m = Some m'" "linked m' (Some ?n) ys None"
      "\<And>x. x \<notin> fst ` set ys \<Longrightarrow> m' x = m x"
    using set_prev_linked [OF ys ne(6)] by blast
  have "linked m' None xs (Some a)"
    using xs linked_frame [of xs m' m None "Some a"] m'(3) ne(7) by blast
  thus ?thesis using m'(1,2) ne by (auto simp: linked_append last_addr_def)
qed

lemma heap_alloc_ok:
  assumes rep: "heap_rep h (xs @ (a, False, sz) # ys)"
    and c: "c = heap_round cnt" "cnt + 64 < 2 ^ 64"
    and fit: "fits c (a, False, sz)" "\<And>b. b \<in> set xs \<Longrightarrow> \<not> fits c b"
  shows "\<exists>h'. heap_alloc h cnt = Some (Some (a + HDR), h') \<and> heap_rep h' (xs @ heap_cut a sz c @ ys)
     \<and> kh_base h' = kh_base h \<and> kh_limit h' = kh_limit h"
proof -
  let ?bs = "xs @ (a, False, sz) # ys"
  let ?b = "hblk_rec (a, False, sz) (last_addr xs None) (head_addr ys None)"
  have tl: "tiled (kh_base h) ?bs (kh_base h + kh_limit h)" and lk: "linked (kh_mem h) None ?bs None"
    and co: "coalesced ?bs"
    and base: "0 < kh_base h" "kh_limit h < 2 ^ 32" "kh_base h + kh_limit h < 2 ^ 64"
    using rep by (simp_all only: heap_rep_def)
  have hd: "head_addr ?bs None = Some (kh_base h)" using tl by (cases xs) auto
  have chk: "heap_check (kh_mem h) (Some (kh_base h)) = Some ()" using heap_check_linked [OF lk] hd by simp
  have "List.find (fits c) ?bs = Some (a, False, sz)"
    using fit by (auto simp: find_Some_iff nth_append intro!: exI [of _ "length xs"])
  hence src: "heap_search (kh_mem h) c (Some (kh_base h)) = Some (Some a)"
    using heap_search_linked [OF _ lk, of c] heap_round_bounds(3) [OF c(2)] hd c(1) by simp
  have at: "kh_mem h a = Some ?b" using lk by (simp add: linked_append)
  have sz: "a + HDR + sz \<le> kh_base h + kh_limit h" "kh_base h \<le> a" using tiled_mem [OF tl, of a False sz] by auto
  have inv: "tiled (kh_base h) (xs @ heap_cut a sz c @ ys) (kh_base h + kh_limit h)"
      "coalesced (xs @ heap_cut a sz c @ ys)" "xs @ heap_cut a sz c @ ys \<noteq> []"
    using heap_cut_tiled [OF fit(1) tl] heap_cut_coalesced [OF co] by (auto simp: heap_cut_def)
  have "\<exists>m'. heap_alloc h cnt = Some (Some (a + HDR), h\<lparr>kh_mem := m'\<rparr>) \<and> linked m' None (xs @ heap_cut a sz c @ ys) None"
  proof (cases "c = sz")
    case True
    let ?m = "(kh_mem h)(a \<mapsto> hblk_rec (a, True, sz) (last_addr xs None) (head_addr ys None))"
    have "heap_alloc h cnt = Some (Some (a + HDR), h\<lparr>kh_mem := ?m\<rparr>)"
      using chk src at True c(1) by (simp add: heap_alloc_def Let_def hblk_rec_def)
    moreover have "linked ?m None (xs @ heap_cut a sz c @ ys) None"
      using lk True tiled_distinct [OF tl] by (auto simp: heap_cut_def linked_append)
    ultimately show ?thesis by blast
  next
    case False
    hence le: "c + HDR \<le> sz" using fit(1) by (simp add: fits_False)
    let ?n = "hblk_rec (a + HDR + c, False, sz - HDR - c) (Some a) (head_addr ys None)"
    let ?b' = "hblk_rec (a, True, c) (last_addr xs None) (Some (a + HDR + c))"
    obtain m' where m': "set_prev (head_addr ys None) (Some (a + HDR + c)) (kh_mem h) = Some m'"
      "linked (m'(a + HDR + c \<mapsto> ?n, a \<mapsto> ?b')) None (xs @ [(a, True, c), (a + HDR + c, False, sz - HDR - c)] @ ys) None"
      using heap_split_linked [OF lk tl le] by blast
    have "c < 2 ^ 32" "sz < 2 ^ 32" "a + HDR + c < 2 ^ 64" using sz le base by linarith+
    hence w: "u64 (a + HDR + c) = a + HDR + c" "u32 c = c" "u32 (sz + 2 ^ 65 - HDR - c) = sz - HDR - c"
      using u32_sub [OF le] by (simp_all only: u32_id u64_id)
    have "heap_alloc h cnt = Some (Some (a + HDR), h\<lparr>kh_mem := m'(a + HDR + c \<mapsto> ?n, a \<mapsto> ?b')\<rparr>)"
      using chk src at False m'(1) unfolding heap_alloc_def Let_def c(1) [symmetric]
      by (simp add: w [simplified]) (simp add: hblk_rec_def)
    thus ?thesis using m'(2) False by (auto simp: heap_cut_def)
  qed
  then obtain m' where "heap_alloc h cnt = Some (Some (a + HDR), h\<lparr>kh_mem := m'\<rparr>)"
    "linked m' None (xs @ heap_cut a sz c @ ys) None" by blast
  thus ?thesis using inv base by (intro exI [of _ "h\<lparr>kh_mem := m'\<rparr>"]) (simp add: heap_rep_def)
qed

lemma heap_alloc_none:
  assumes "heap_rep h bs" "cnt + 64 < 2 ^ 64" "\<And>b. b \<in> set bs \<Longrightarrow> \<not> fits (heap_round cnt) b"
  shows "heap_alloc h cnt = Some (None, h)"
proof -
  have lk: "linked (kh_mem h) None bs None" using assms(1) by (simp only: heap_rep_def)
  have hd: "head_addr bs None = Some (kh_base h)"
    using assms(1) by (cases bs) (auto simp: heap_rep_def)
  have "List.find (fits (heap_round cnt)) bs = None" using assms(3) by (auto simp: find_None_iff)
  thus ?thesis using heap_check_linked [OF lk] heap_search_linked [OF heap_round_bounds(3) [OF assms(2)] lk] hd
    by (simp add: heap_alloc_def Let_def)
qed

section \<open>Outstanding allocations\<close>

fun live :: "hblk list \<Rightarrow> (nat \<times> nat) set" where
  "live [] = {}"
| "live ((a, u, n) # bs) = (if u then insert (a + HDR, n) (live bs) else live bs)"

lemma live_append [simp]: "live (xs @ ys) = live xs \<union> live ys"
  by (induction xs rule: live.induct) auto

lemma live_cut [simp]: "fits c (a, False, sz) \<Longrightarrow> live (heap_cut a sz c) = {(a + HDR, c)}"
  by (auto simp: heap_cut_def fits_False)

lemma live_coalesce: "live (coalesce zs a sz ws) = live zs \<union> live ws"
proof -
  have n: "live (coalesce_next c cs ws) = live ws" for c cs
    by (rule coalesce_next_cases [of ws]) auto
  show ?thesis by (cases zs rule: zs_last_cases) (auto simp: coalesce_def n)
qed

lemma live_iff: "(p, n) \<in> live bs \<longleftrightarrow> (\<exists>a. p = a + HDR \<and> (a, True, n) \<in> set bs)"
  by (induction bs rule: live.induct) auto

lemma live_mem: "(p, n) \<in> live bs \<Longrightarrow> \<exists>zs a ws. bs = zs @ (a, True, n) # ws \<and> p = a + HDR"
  using live_iff split_list by metis

lemma live_fst: "a \<notin> fst ` set bs \<Longrightarrow> (a + HDR, n) \<notin> live bs"
  by (force simp: live_iff)

lemma live_bounds:
  "tiled b bs e \<Longrightarrow> (p, n) \<in> live bs \<Longrightarrow> b + HDR \<le> p \<and> p + n \<le> e"
  by (auto dest!: live_mem dest: tiled_mem [of b _ e _ True n])

lemma live_disjoint:
  assumes "tiled b (xs @ (a, u, sz) # ys) e" "(q, s) \<in> live xs \<union> live ys"
  shows "q + s \<le> a \<or> a + HDR + sz + HDR \<le> q"
proof -
  have "tiled b xs a" "tiled (a + HDR + sz) ys e" using assms(1) by (auto simp: tiled_append)
  thus ?thesis using assms(2) live_bounds by fastforce
qed

lemma heap_init_rep:
  assumes "0 < base" "HDR < sz" "sz < 2 ^ 32" "base + sz < 2 ^ 64"
  shows "heap_rep (amd64_heap_init base sz) [(base, False, sz - HDR)]"
proof -
  have "sz + 2 ^ 64 - HDR = (sz - HDR) + 2 ^ 32 * 2 ^ 32" using assms by simp
  hence "u32 (sz + 2 ^ 64 - HDR) = (sz - HDR) mod 2 ^ 32" by (simp only: u32_def mod_mult_self1)
  hence "u32 (sz + 2 ^ 64 - HDR) = sz - HDR" using assms by simp
  thus ?thesis using assms
    by (simp add: heap_rep_def amd64_heap_init_def hblk_rec_def coalesced_def)
qed

lemma first_fit_cases:
  obtains (fit) xs a sz ys where "bs = xs @ (a, False, sz) # ys" "fits c (a, False, sz)" "\<And>b. b \<in> set xs \<Longrightarrow> \<not> fits c b"
  | (none) "\<And>b. b \<in> set bs \<Longrightarrow> \<not> fits c b"
proof (cases "\<exists>b \<in> set bs. fits c b")
  case True
  then obtain xs b ys where "bs = xs @ b # ys" "fits c b" "\<forall>x \<in> set xs. \<not> fits c x"
    using split_list_first_propE [of bs "fits c"] by metis
  thus ?thesis using fit [of xs "fst b" "snd (snd b)" ys] by (cases b) (auto simp: fits_False)
qed (use none in blast)

lemma coalesce_cut:
  assumes "fits c (a, False, sz)" "coalesced (xs @ (a, False, sz) # ys)"
  shows "\<exists>ws. heap_cut a sz c @ ys = (a, True, c) # ws \<and> coalesce xs a c ws = xs @ (a, False, sz) # ys"
proof -
  have nb: "xs = [] \<or> fst (snd (last xs))" "ys = [] \<or> fst (snd (hd ys))"
    using assms(2) by (auto simp: coalesced_append) (auto simp: coalesced_def successively_Cons split: prod.splits)
  show ?thesis
  proof (cases "c = sz")
    case True
    thus ?thesis using nb by (cases ys)
      (auto simp: heap_cut_def coalesce_def coalesce_next_def split: prod.splits bool.splits)
  next
    case False
    thus ?thesis using nb assms(1) by (auto simp: heap_cut_def coalesce_def coalesce_next_def fits_False)
  qed
qed

lemma heap_free_dead:
  assumes "dead_header (kh_mem h) a"
  shows "heap_free h (a + HDR) = None"
  using assms by (auto simp: heap_free_def dead_header_def HDR_def kassert_def)

lemma heap_count_linked:
  "linked m p bs None \<Longrightarrow> heap_count m (head_addr bs None) (c, u, f) =
     Some (c + length (filter (fst \<circ> snd) bs), u + sum_list (map (snd \<circ> snd) (filter (fst \<circ> snd) bs)),
           f + sum_list (map (snd \<circ> snd) (filter (Not \<circ> fst \<circ> snd) bs)))"
proof (induction bs arbitrary: p c u f)
  case Nil
  show ?case by (simp add: heap_count.simps [of m None])
next
  case (Cons b bs)
  obtain a v sz where b: "b = (a, v, sz)" by (cases b)
  note IH = Cons.IH [of "Some a"]
  show ?case using Cons.prems by (auto simp: b heap_count.simps [of m "Some _"] IH)
qed

lemma heap_blocks_linked:
  "linked m p bs None \<Longrightarrow> heap_blocks_from m (head_addr bs None) c = Some (c + length bs)"
proof (induction bs arbitrary: p c)
  case Nil
  show ?case by (simp add: heap_blocks_from.simps [of m None])
next
  case (Cons b bs)
  note IH = Cons.IH [of "Some (fst b)"]
  show ?case using Cons.prems by (auto simp: heap_blocks_from.simps [of m "Some _"] IH)
qed

lemma tiled_total:
  "tiled a bs e \<Longrightarrow> a + HDR * length bs + sum_list (map (snd \<circ> snd) bs) = e"
  by (induction bs arbitrary: a) (auto, force simp: algebra_simps)

lemma sum_filter_split:
  "sum_list (map g (filter P xs)) + sum_list (map g (filter (Not \<circ> P) xs)) = (sum_list (map g xs) :: nat)"
  by (induction xs) auto

lemma heap_alloc_fresh:
  assumes "heap_rep h bs" "cnt + 64 < 2 ^ 64"
  shows "\<exists>r h' bs'. heap_alloc h cnt = Some (r, h') \<and> heap_rep h' bs' \<and>
    (case r of
       None \<Rightarrow> h' = h \<and> (\<forall>b \<in> set bs. \<not> fits (heap_round cnt) b)
     | Some p \<Rightarrow> (\<exists>n. cnt \<le> n \<and> n < cnt + 16 \<and> live bs' = insert (p, n) (live bs)
         \<and> kh_base h + HDR \<le> p \<and> p + n \<le> kh_base h + kh_limit h
         \<and> (\<forall>(q, s) \<in> live bs. q + s + HDR \<le> p \<or> p + n + HDR \<le> q)))"
proof (cases bs rule: first_fit_cases [of _ "heap_round cnt"])
  case none
  thus ?thesis using heap_alloc_none [OF assms] assms(1) by (intro exI [of _ None] exI [of _ h]) auto
next
  case (fit xs a sz ys)
  let ?c = "heap_round cnt"
  let ?bs' = "xs @ heap_cut a sz ?c @ ys"
  obtain h' where h': "heap_alloc h cnt = Some (Some (a + HDR), h')" "heap_rep h' ?bs'"
      "kh_base h' = kh_base h" "kh_limit h' = kh_limit h"
    using heap_alloc_ok [OF assms(1) [unfolded fit(1)] refl assms(2) fit(2,3)] by blast
  have tl: "tiled (kh_base h) (xs @ (a, False, sz) # ys) (kh_base h + kh_limit h)"
    using assms(1) by (simp only: heap_rep_def fit)
  have "?c \<le> sz" "kh_base h \<le> a" "a + HDR + sz \<le> kh_base h + kh_limit h"
    using fit(2) tiled_mem [OF tl, of a False sz] by (auto simp: fits_False)
  moreover have "\<forall>(q, s) \<in> live bs. q + s + HDR \<le> a + HDR \<or> a + HDR + ?c + HDR \<le> q"
    using live_disjoint [OF tl] \<open>?c \<le> sz\<close> by (fastforce simp: fit(1))
  moreover have "live ?bs' = insert (a + HDR, ?c) (live bs)" using fit by auto
  ultimately show ?thesis using h' heap_round_bounds [OF assms(2)]
    by (intro exI [of _ "Some (a + HDR)"] exI [of _ h'] exI [of _ ?bs']) (auto intro!: exI [of _ ?c])
qed

lemma heap_free_live:
  assumes "heap_rep h bs" "(p, n) \<in> live bs"
  shows "\<exists>h' bs'. heap_free h p = Some h' \<and> heap_rep h' bs' \<and> live bs' = live bs - {(p, n)} \<and> heap_free h' p = None"
proof -
  obtain zs a ws where bs: "bs = zs @ (a, True, n) # ws" and p: "p = a + HDR" using live_mem [OF assms(2)] by blast
  obtain h' where h': "heap_free h p = Some h'" "heap_rep h' (coalesce zs a n ws)" "dead_header (kh_mem h') a"
    using heap_free_ok [OF assms(1) [unfolded bs]] p by blast
  have "tiled (kh_base h) bs (kh_base h + kh_limit h)" using assms(1) by (simp only: heap_rep_def)
  from tiled_distinct [OF this] have "(a + HDR, n) \<notin> live zs \<union> live ws"
    using live_fst [of a zs n] live_fst [of a ws n] by (simp add: bs)
  hence "live (coalesce zs a n ws) = live bs - {(p, n)}" by (auto simp: live_coalesce bs p)
  thus ?thesis using h' heap_free_dead [OF h'(3)] p by blast
qed

section \<open>The heap as an object allocator\<close>

definition heap_objects :: "kernel_heap \<Rightarrow> (nat \<times> nat) set \<Rightarrow> bool" where
  "heap_objects h L \<longleftrightarrow> (\<exists>bs. heap_rep h bs \<and> live bs = L)"

definition heap_request_ok :: "nat \<Rightarrow> bool" where
  "heap_request_ok n \<longleftrightarrow> n + 64 < 2 ^ 64"

interpretation heap_objs: object_allocator heap_objects "\<lambda>n h. heap_alloc h n" "\<lambda>p h. heap_free h p" heap_request_ok
proof
  fix h L n
  assume "heap_objects h L" "heap_request_ok n"
  then obtain bs where bs: "heap_rep h bs" "live bs = L" and n: "n + 64 < 2 ^ 64"
    by (auto simp: heap_objects_def heap_request_ok_def)
  obtain r h' bs' where run: "heap_alloc h n = Some (r, h')" "heap_rep h' bs'"
    "case r of
       None \<Rightarrow> h' = h \<and> (\<forall>b \<in> set bs. \<not> fits (heap_round n) b)
     | Some p \<Rightarrow> (\<exists>k. n \<le> k \<and> k < n + 16 \<and> live bs' = insert (p, k) (live bs)
         \<and> kh_base h + HDR \<le> p \<and> p + k \<le> kh_base h + kh_limit h
         \<and> (\<forall>(q, s) \<in> live bs. q + s + HDR \<le> p \<or> p + k + HDR \<le> q))"
    using heap_alloc_fresh [OF bs(1) n] by blast
  show "\<exists>r h'. heap_alloc h n = Some (r, h') \<and>
      (case r of None \<Rightarrow> heap_objects h' L
       | Some p \<Rightarrow> \<exists>k \<ge> n. heap_objects h' (insert (p, k) L) \<and> (\<forall>y \<in> L. apart (p, k) y))"
  proof (cases r)
    case None
    thus ?thesis using run bs by (auto simp: heap_objects_def)
  next
    case (Some p)
    then obtain k where k: "n \<le> k" "live bs' = insert (p, k) L"
        "\<forall>(q, s) \<in> L. q + s + HDR \<le> p \<or> p + k + HDR \<le> q"
      using run(3) bs(2) by auto
    have "apart (p, k) y" if "y \<in> L" for y using k(3) that by (auto simp: apart_def HDR_def)
    thus ?thesis using run(1,2) Some k(1,2) by (auto simp: heap_objects_def)
  qed
next
  fix h L p k
  assume "heap_objects h L" "(p, k) \<in> L"
  thus "\<exists>h'. heap_free h p = Some h' \<and> heap_objects h' (L - {(p, k)})"
    unfolding heap_objects_def using heap_free_live by blast
qed

section \<open>Properties of the kernel heap\<close>

text \<open>
  C14: \<open>heap_alloc\<close> on a well-formed heap never panics.  Either no free block can hold the rounded request,
  and the result is NULL with the heap unchanged, or the result is a fresh allocation of the requested size
  rounded up to 16: it lies inside the heap, it and its header are disjoint from every outstanding
  allocation, every outstanding allocation is kept, and the heap stays well formed.
\<close>

theorem heap_alloc_correct:
  assumes "heap_rep h bs" "cnt + 64 < 2 ^ 64"
  shows "\<exists>r h' bs'. heap_alloc h cnt = Some (r, h') \<and> heap_rep h' bs' \<and>
    (case r of
       None \<Rightarrow> h' = h \<and> (\<forall>b \<in> set bs. \<not> fits (heap_round cnt) b)
     | Some p \<Rightarrow> (\<exists>n. cnt \<le> n \<and> n < cnt + 16 \<and> live bs' = insert (p, n) (live bs)
         \<and> kh_base h + HDR \<le> p \<and> p + n \<le> kh_base h + kh_limit h
         \<and> (\<forall>(q, s) \<in> live bs. q + s + HDR \<le> p \<or> p + n + HDR \<le> q)))"
  by (rule heap_alloc_fresh [OF assms])

theorem heap_alloc_correct_witness:
  "\<exists>r h' bs'. heap_alloc (amd64_heap_init 4096 256) 30 = Some (r, h') \<and> heap_rep h' bs'"
proof -
  have "heap_rep (amd64_heap_init 4096 256) [(4096, False, 256 - HDR)]"
    by (rule heap_init_rep) (simp_all add: HDR_def)
  from heap_alloc_correct [OF this, of 30] show ?thesis by auto
qed

text \<open>
  C22: releasing an outstanding allocation never panics, removes exactly that allocation, keeps the heap well
  formed (neighbouring free blocks are merged again), and a second release of the same pointer is caught
  by the assertions.
\<close>

theorem heap_free_correct:
  assumes "heap_rep h bs" "(p, n) \<in> live bs"
  shows "\<exists>h' bs'. heap_free h p = Some h' \<and> heap_rep h' bs' \<and> live bs' = live bs - {(p, n)} \<and> heap_free h' p = None"
  by (rule heap_free_live [OF assms])

theorem heap_free_correct_witness:
  "\<exists>h'. heap_free (amd64_heap_init 4096 256 \<lparr>kh_mem := [4096 \<mapsto>
      \<lparr> hb_magic = magic_of True, hb_size = 232, hb_prev = None, hb_next = None \<rparr>]\<rparr>) 4120 = Some h' \<and> heap_free h' 4120 = None"
proof -
  let ?h = "amd64_heap_init 4096 256 \<lparr>kh_mem := [4096 \<mapsto>
      \<lparr> hb_magic = magic_of True, hb_size = 232, hb_prev = None, hb_next = None \<rparr>]\<rparr>"
  have "heap_rep ?h [(4096, True, 232)]"
    by (simp add: heap_rep_def amd64_heap_init_def hblk_rec_def coalesced_def HDR_def)
  from heap_free_correct [OF this, of 4120 232] show ?thesis by (auto simp: HDR_def)
qed

text \<open>
  allocation followed by release of the result restores exactly the list of blocks the heap had before:
  the remainder split off by the allocation is merged back.
\<close>

lemma heap_alloc_free_roundtrip:
  assumes "heap_rep h bs" "cnt + 64 < 2 ^ 64" "heap_alloc h cnt = Some (Some p, h1)"
  shows "\<exists>h2. heap_free h1 p = Some h2 \<and> heap_rep h2 bs"
proof (cases bs rule: first_fit_cases [of _ "heap_round cnt"])
  case none
  thus ?thesis using heap_alloc_none [OF assms(1,2)] assms(3) by auto
next
  case (fit xs a sz ys)
  have h1: "p = a + HDR" "heap_rep h1 (xs @ heap_cut a sz (heap_round cnt) @ ys)"
    using heap_alloc_ok [OF assms(1) [unfolded fit(1)] refl assms(2) fit(2,3)] assms(3) by auto
  obtain ws where ws: "heap_cut a sz (heap_round cnt) @ ys = (a, True, heap_round cnt) # ws"
      "coalesce xs a (heap_round cnt) ws = bs"
    using coalesce_cut [OF fit(2), of xs ys] assms(1) fit(1) by (auto simp: heap_rep_def)
  show ?thesis using heap_free_ok [OF h1(2) [unfolded ws(1)]] ws(2) h1(1) by auto
qed

text \<open>
  the statistics account for every byte of the heap: used bytes, free bytes and 24 bytes of header per
  block add up to the size of the heap, and the allocation count is the number of used blocks.
\<close>

lemma heap_stat_conserves:
  assumes "heap_rep h bs"
  shows "\<exists>cnt used free. heap_stat h = Some (cnt, used, free, kh_limit h)
     \<and> amd64_heap_blocks h = Some (length bs) \<and> cnt = length (filter (fst \<circ> snd) bs)
     \<and> used + free + HDR * length bs = kh_limit h"
proof -
  have lk: "linked (kh_mem h) None bs None" and tl: "tiled (kh_base h) bs (kh_base h + kh_limit h)"
    and hd: "head_addr bs None = Some (kh_base h)"
    using assms by (cases bs; auto simp: heap_rep_def)+
  show ?thesis
    using heap_count_linked [OF lk, of 0 0 0] heap_blocks_linked [OF lk, of 0] hd tiled_total [OF tl]
      sum_filter_split [of "snd \<circ> snd" "fst \<circ> snd" bs]
    by (simp add: heap_stat_def amd64_heap_blocks_def comp_assoc)
qed

text \<open>
  C18: from initialisation on, every history of allocations and of releases of outstanding pointers runs
  to its end without a panic, and the allocations outstanding at its end do not overlap.
\<close>

theorem heap_history_safe:
  assumes "0 < base" "HDR < sz" "sz < 2 ^ 32" "base + sz < 2 ^ 64"
  shows "\<exists>h A. alloc_history (\<lambda>n h. heap_alloc h n) (\<lambda>p h. heap_free h p) heap_request_ok rs
      (amd64_heap_init base sz) [] = Some (h, A) \<and>
    (\<forall>i < length A. \<forall>j < length A. i \<noteq> j \<longrightarrow> apart (A ! i) (A ! j))"
proof (rule heap_objs.history_safe)
  show "heap_objects (amd64_heap_init base sz) {}"
    unfolding heap_objects_def using heap_init_rep [OF assms] by (intro exI [of _ "[(base, False, sz - HDR)]"]) simp
qed

theorem heap_history_safe_witness:
  "\<exists>h A. alloc_history (\<lambda>n h. heap_alloc h n) (\<lambda>p h. heap_free h p) heap_request_ok [Get 30, Get 8, Put 1, Get 64]
      (amd64_heap_init 4096 256) [] = Some (h, A)"
  using heap_history_safe [of 4096 256 "[Get 30, Get 8, Put 1, Get 64]"] by (auto simp: HDR_def)

end
