(* ===== verification/Phys.thy ===== *)
theory Phys
  imports Ygg_Prelude
begin

text \<open>
  The physical page allocator (src/arch/amd64/mm/phys.c).  The state record holds the page array, the
  counters and the reserved regions; \<open>MM_NADDR\<close> is \<^term>\<open>None\<close>.  The array is a function on page
  numbers below \<open>PHYS_MAX_PAGES\<close>; an access behind its end has the value \<^term>\<open>None\<close>,
  like an assertion failure.  The interface \<open>page_allocator\<close> at the end is what the clients of the
  allocator rely on.
\<close>

datatype page_usage = PU_UNKNOWN | PU_PRIVATE | PU_SHARED | PU_DEVICE | PU_KERNEL | PU_PAGING | PU_CACHE

abbreviation PG_ALLOC :: "64 word" where "PG_ALLOC \<equiv> BIT 0"
abbreviation PG_MMAPED :: "64 word" where "PG_MMAPED \<equiv> BIT 1"

record page =
  pg_flags :: "64 word"
  pg_usage :: page_usage
  pg_refcount :: nat

record phys =
  mm_pages :: "nat \<Rightarrow> page"
  ph_total_pages :: nat
  ph_pages_free :: nat
  ph_alloc_pages :: "page_usage \<Rightarrow> nat"
  ph_reserved :: "(nat \<times> nat) list"

definition MM_PAGE_SIZE :: nat where "MM_PAGE_SIZE = 4096"
definition LOW_PAGE :: nat where "LOW_PAGE = 256"
definition PHYS_MAX_PAGES :: nat where "PHYS_MAX_PAGES = 262144"
definition REFCOUNT_RESERVED :: nat where "REFCOUNT_RESERVED = 2 ^ 64 - 1"

definition pg_alloc :: "page \<Rightarrow> bool" where
  "pg_alloc p \<longleftrightarrow> pg_flags p AND PG_ALLOC \<noteq> 0"

text \<open>
  \<open>PHYS2PAGE\<close> computes the address of an array element without comparing the index with the size of the array.
  Every caller uses the element at once, so an index behind the array is an access outside it, which has no
  value here.
\<close>

definition PHYS2PAGE :: "nat \<Rightarrow> nat kern" where
  "PHYS2PAGE addr = (let i = addr div MM_PAGE_SIZE in if i < PHYS_MAX_PAGES then Some i else None)"

section \<open>Allocation and release\<close>

function phys_find_free :: "(nat \<Rightarrow> page) \<Rightarrow> nat \<Rightarrow> nat option" where
  "phys_find_free pgs i =
    (if i < PHYS_MAX_PAGES then if \<not> pg_alloc (pgs i) then Some i else phys_find_free pgs (Suc i)
     else None)"
  by auto
termination by (relation "measure (\<lambda>(pgs, i). PHYS_MAX_PAGES - i)") auto

declare phys_find_free.simps [simp del]

definition mm_phys_alloc_page :: "page_usage \<Rightarrow> phys \<Rightarrow> (nat option \<times> phys) kern" where
  "mm_phys_alloc_page pu s = do {
     kassert (pu \<noteq> PU_UNKNOWN);
     case phys_find_free (mm_pages s) LOW_PAGE of
       None \<Rightarrow> Some (None, s)
     | Some i \<Rightarrow> do {
         let pg = mm_pages s i;
         kassert (pg_usage pg = PU_UNKNOWN);
         kassert (pg_refcount pg = 0);
         let pg = pg\<lparr>pg_usage := pu, pg_flags := pg_flags pg OR PG_ALLOC\<rparr>;
         kassert (ph_pages_free s \<noteq> 0);
         Some (Some (i * MM_PAGE_SIZE),
               s\<lparr>mm_pages := (mm_pages s)(i := pg),
                 ph_alloc_pages := (ph_alloc_pages s)(pu := Suc (ph_alloc_pages s pu)),
                 ph_pages_free := ph_pages_free s - 1\<rparr>)
       }
   }"

definition mm_phys_free_page :: "nat \<Rightarrow> phys \<Rightarrow> phys kern" where
  "mm_phys_free_page addr s = do {
     i \<leftarrow> PHYS2PAGE addr;
     let pg = mm_pages s i;
     kassert (pg_refcount pg = 0);
     kassert (pg_flags pg AND PG_ALLOC \<noteq> 0);
     let u = pg_usage pg;
     kassert (ph_alloc_pages s u \<noteq> 0);
     Some (s\<lparr>ph_alloc_pages := (ph_alloc_pages s)(u := ph_alloc_pages s u - 1),
             ph_pages_free := Suc (ph_pages_free s),
             mm_pages := (mm_pages s)(i := pg\<lparr>pg_flags := pg_flags pg AND NOT PG_ALLOC,
                                              pg_usage := PU_UNKNOWN\<rparr>)\<rparr>)
   }"

function phys_find_window :: "(nat \<Rightarrow> page) \<Rightarrow> nat \<Rightarrow> nat \<Rightarrow> nat option" where
  "phys_find_window pgs count i =
    (if i < PHYS_MAX_PAGES - count then
       (if list_all (\<lambda>j. \<not> pg_alloc (pgs (i + j))) [0..<count] then Some i
        else phys_find_window pgs count (Suc i))
     else None)"
  by auto
termination by (relation "measure (\<lambda>(pgs, count, i). PHYS_MAX_PAGES - i)") auto

declare phys_find_window.simps [simp del]

definition phys_take_one :: "page_usage \<Rightarrow> nat \<Rightarrow> phys \<Rightarrow> phys kern" where
  "phys_take_one pu i s = do {
     let pg = mm_pages s i;
     kassert (pg_refcount pg = 0);
     let pg = pg\<lparr>pg_flags := pg_flags pg OR PG_ALLOC, pg_usage := pu\<rparr>;
     kassert (ph_pages_free s \<noteq> 0);
     Some (s\<lparr>mm_pages := (mm_pages s)(i := pg),
             ph_alloc_pages := (ph_alloc_pages s)(pu := Suc (ph_alloc_pages s pu)),
             ph_pages_free := ph_pages_free s - 1\<rparr>)
   }"

fun phys_take :: "page_usage \<Rightarrow> nat \<Rightarrow> nat \<Rightarrow> phys \<Rightarrow> phys kern" where
  "phys_take pu i 0 s = Some s"
| "phys_take pu i (Suc k) s = do { s' \<leftarrow> phys_take_one pu i s; phys_take pu (Suc i) k s' }"

text \<open>A count above the array size makes the unsigned loop bound wrap; that run leaves the array.\<close>

definition mm_phys_alloc_contiguous :: "nat \<Rightarrow> page_usage \<Rightarrow> phys \<Rightarrow> (nat option \<times> phys) kern" where
  "mm_phys_alloc_contiguous count pu s = do {
     kassert (count \<le> PHYS_MAX_PAGES);
     case phys_find_window (mm_pages s) count LOW_PAGE of
       None \<Rightarrow> Some (None, s)
     | Some i \<Rightarrow> do { s' \<leftarrow> phys_take pu i count s; Some (Some (i * MM_PAGE_SIZE), s') }
   }"

definition mm_phys_stat :: "phys \<Rightarrow> nat \<times> nat \<times> nat \<times> nat \<times> nat \<times> nat \<times> nat" where
  "mm_phys_stat s =
    (ph_total_pages s, ph_pages_free s, ph_alloc_pages s PU_KERNEL, ph_alloc_pages s PU_PRIVATE,
     ph_alloc_pages s PU_SHARED, ph_alloc_pages s PU_PAGING, ph_alloc_pages s PU_CACHE)"

definition mm_phys_reserve :: "nat \<times> nat \<Rightarrow> phys \<Rightarrow> phys" where
  "mm_phys_reserve res s = s\<lparr>ph_reserved := res # ph_reserved s\<rparr>"

definition is_reserved :: "(nat \<times> nat) list \<Rightarrow> nat \<Rightarrow> bool" where
  "is_reserved rs addr = list_ex (\<lambda>(b, e). b \<le> addr \<and> addr < e) rs"

section \<open>The invariant\<close>

definition free_set :: "phys \<Rightarrow> nat set" where
  "free_set s = {i. LOW_PAGE \<le> i \<and> i < PHYS_MAX_PAGES \<and> \<not> pg_alloc (mm_pages s i)}"

definition used_set :: "phys \<Rightarrow> page_usage \<Rightarrow> nat set" where
  "used_set s u = {i. LOW_PAGE \<le> i \<and> i < PHYS_MAX_PAGES \<and> pg_alloc (mm_pages s i)
     \<and> pg_refcount (mm_pages s i) \<noteq> REFCOUNT_RESERVED \<and> pg_usage (mm_pages s i) = u}"

definition phys_inv :: "phys \<Rightarrow> bool" where
  "phys_inv s \<longleftrightarrow>
    (\<forall>i. i < PHYS_MAX_PAGES \<longrightarrow> \<not> pg_alloc (mm_pages s i)
       \<longrightarrow> LOW_PAGE \<le> i \<and> pg_usage (mm_pages s i) = PU_UNKNOWN \<and> pg_refcount (mm_pages s i) = 0)
    \<and> (\<forall>i. i < LOW_PAGE \<longrightarrow> pg_refcount (mm_pages s i) = REFCOUNT_RESERVED)
    \<and> used_set s PU_UNKNOWN = {}
    \<and> ph_pages_free s = card (free_set s)
    \<and> (\<forall>u. ph_alloc_pages s u = card (used_set s u))"

lemma finite_free_set [simp]: "finite (free_set s)"
  by (rule finite_subset [of _ "{..<PHYS_MAX_PAGES}"]) (auto simp: free_set_def)

lemma finite_used_set [simp]: "finite (used_set s u)"
  by (rule finite_subset [of _ "{..<PHYS_MAX_PAGES}"]) (auto simp: used_set_def)

lemma pg_alloc_upd [simp]:
  "pg_alloc (p\<lparr>pg_usage := u\<rparr>) = pg_alloc p"
  "pg_alloc (p\<lparr>pg_flags := f OR PG_ALLOC\<rparr>)"
  "\<not> pg_alloc (p\<lparr>pg_flags := f AND NOT PG_ALLOC\<rparr>)"
  by (simp_all add: pg_alloc_def flag_simps)

lemma page_upd_commute:
  "(p::page)\<lparr>pg_usage := u, pg_flags := f\<rparr> = p\<lparr>pg_flags := f, pg_usage := u\<rparr>"
  by simp

lemma phys_find_free_Some:
  "phys_find_free pgs i = Some k \<Longrightarrow> i \<le> k \<and> k < PHYS_MAX_PAGES \<and> \<not> pg_alloc (pgs k)"
proof (induction pgs i rule: phys_find_free.induct)
  case (1 pgs i)
  thus ?case by (subst (asm) phys_find_free.simps) (auto split: if_splits)
qed

lemma phys_find_free_None:
  "phys_find_free pgs i = None \<Longrightarrow> i \<le> k \<Longrightarrow> k < PHYS_MAX_PAGES \<Longrightarrow> pg_alloc (pgs k)"
proof (induction pgs i rule: phys_find_free.induct)
  case (1 pgs i)
  thus ?case by (subst (asm) phys_find_free.simps) (auto split: if_splits simp: le_less_Suc_eq Suc_le_eq dest: le_neq_implies_less)
qed

text \<open>
  Taking free pages: the step shared by the two allocation routines.  \<open>phys_took pu I s s'\<close> says that
  exactly the pages \<open>I\<close> changed hands, from free to used for \<open>pu\<close>.
\<close>

definition phys_took :: "page_usage \<Rightarrow> nat set \<Rightarrow> phys \<Rightarrow> phys \<Rightarrow> bool" where
  "phys_took pu I s s' \<longleftrightarrow>
    phys_inv s' \<and> I \<subseteq> free_set s \<and> free_set s' = free_set s - I
    \<and> (\<forall>u. used_set s' u = (if u = pu then used_set s u \<union> I else used_set s u))
    \<and> (\<forall>k. k \<notin> I \<longrightarrow> mm_pages s' k = mm_pages s k)
    \<and> (\<forall>k \<in> I. pg_usage (mm_pages s' k) = pu \<and> pg_refcount (mm_pages s' k) = 0)
    \<and> ph_total_pages s' = ph_total_pages s \<and> ph_reserved s' = ph_reserved s"

lemma phys_took_empty: "phys_inv s \<Longrightarrow> phys_took pu {} s s"
  by (simp add: phys_took_def)

lemma phys_took_trans:
  assumes a: "phys_took pu A s s1" and b: "phys_took pu B s1 s2"
  shows "phys_took pu (A \<union> B) s s2"
proof -
  have "A \<inter> B = {}" using a b by (auto simp: phys_took_def)
  moreover have "pg_usage (mm_pages s2 k) = pu \<and> pg_refcount (mm_pages s2 k) = 0" if "k \<in> A \<union> B" for k
  proof (cases "k \<in> B")
    case True
    thus ?thesis using b by (simp add: phys_took_def)
  next
    case False
    hence "mm_pages s2 k = mm_pages s1 k" using b by (simp add: phys_took_def)
    thus ?thesis using a that False by (simp add: phys_took_def)
  qed
  ultimately show ?thesis using a b by (auto simp: phys_took_def)
qed

lemma phys_take_one_ok:
  assumes inv: "phys_inv s" and i: "i \<in> free_set s" and pu: "pu \<noteq> PU_UNKNOWN"
  shows "\<exists>s'. phys_take_one pu i s = Some s' \<and> phys_took pu {i} s s'"
proof -
  define s' where "s' = s\<lparr>mm_pages := (mm_pages s)(i := (mm_pages s i)\<lparr>pg_flags := pg_flags (mm_pages s i) OR PG_ALLOC, pg_usage := pu\<rparr>),
             ph_alloc_pages := (ph_alloc_pages s)(pu := Suc (ph_alloc_pages s pu)),
             ph_pages_free := ph_pages_free s - 1\<rparr>"
  have ii: "i < PHYS_MAX_PAGES" "LOW_PAGE \<le> i" "\<not> pg_alloc (mm_pages s i)"
    using i by (auto simp: free_set_def)
  hence rc: "pg_refcount (mm_pages s i) = 0" using inv by (auto simp: phys_inv_def)
  have nz: "ph_pages_free s \<noteq> 0" using inv i by (auto simp: phys_inv_def card_eq_0_iff)
  have f: "free_set s' = free_set s - {i}" by (auto simp: free_set_def s'_def)
  have nres: "(0::nat) \<noteq> REFCOUNT_RESERVED" by (simp add: REFCOUNT_RESERVED_def)
  have u: "used_set s' u = (if u = pu then insert i (used_set s u) else used_set s u)" for u
    using ii rc nres by (auto simp: used_set_def s'_def)
  have notin: "i \<notin> used_set s u" for u using ii by (auto simp: used_set_def)
  have "phys_inv s'"
  proof -
    have "ph_pages_free s' = card (free_set s')"
      using inv i by (simp add: f) (simp add: s'_def phys_inv_def)
    moreover have "ph_alloc_pages s' u = card (used_set s' u)" for u
      using inv notin by (simp add: u) (simp add: s'_def phys_inv_def)
    moreover have "used_set s' PU_UNKNOWN = {}" using inv pu by (simp add: u phys_inv_def)
    moreover have "LOW_PAGE \<le> k \<and> pg_usage (mm_pages s' k) = PU_UNKNOWN \<and> pg_refcount (mm_pages s' k) = 0"
      if "k < PHYS_MAX_PAGES" "\<not> pg_alloc (mm_pages s' k)" for k
      using inv that by (cases "k = i") (auto simp: s'_def phys_inv_def)
    moreover have "pg_refcount (mm_pages s' k) = REFCOUNT_RESERVED" if "k < LOW_PAGE" for k
      using inv that ii by (auto simp: s'_def phys_inv_def)
    ultimately show ?thesis by (simp add: phys_inv_def)
  qed
  hence "phys_took pu {i} s s'" using f u i rc by (simp add: phys_took_def) (simp add: s'_def)
  moreover have "phys_take_one pu i s = Some s'"
    using nz rc by (simp add: phys_take_one_def s'_def Let_def)
  ultimately show ?thesis by blast
qed

lemma mm_phys_alloc_page_eq:
  assumes inv: "phys_inv s" and pu: "pu \<noteq> PU_UNKNOWN"
  shows "mm_phys_alloc_page pu s =
    (case phys_find_free (mm_pages s) LOW_PAGE of
       None \<Rightarrow> Some (None, s)
     | Some i \<Rightarrow> map_option (\<lambda>s'. (Some (i * MM_PAGE_SIZE), s')) (phys_take_one pu i s))"
proof (cases "phys_find_free (mm_pages s) LOW_PAGE")
  case None
  thus ?thesis using pu by (simp add: mm_phys_alloc_page_def)
next
  case (Some i)
  hence "pg_usage (mm_pages s i) = PU_UNKNOWN"
    using inv phys_find_free_Some [OF Some] by (simp add: phys_inv_def)
  thus ?thesis using Some pu
    by (simp add: mm_phys_alloc_page_def phys_take_one_def Let_def kassert_def page_upd_commute)
qed

lemma phys_find_free_in_free_set:
  "phys_find_free (mm_pages s) LOW_PAGE = Some i \<Longrightarrow> i \<in> free_set s"
  using phys_find_free_Some by (auto simp: free_set_def)

lemma phys_find_free_None_free_set:
  "phys_find_free (mm_pages s) LOW_PAGE = None \<Longrightarrow> free_set s = {}"
  using phys_find_free_None by (auto simp: free_set_def)

definition phys_gave :: "nat \<Rightarrow> phys \<Rightarrow> phys \<Rightarrow> bool" where
  "phys_gave i s s' \<longleftrightarrow>
    phys_inv s' \<and> free_set s' = insert i (free_set s) \<and> (\<forall>v. used_set s' v = used_set s v - {i})
    \<and> (\<forall>k. k \<noteq> i \<longrightarrow> mm_pages s' k = mm_pages s k) \<and> ph_total_pages s' = ph_total_pages s"

lemma mm_phys_free_page_ok:
  assumes inv: "phys_inv s" and i: "i \<in> used_set s u" and rc: "pg_refcount (mm_pages s i) = 0"
    and addr: "addr div MM_PAGE_SIZE = i"
  shows "\<exists>s'. mm_phys_free_page addr s = Some s' \<and> phys_gave i s s'"
proof -
  define pg where "pg = (mm_pages s i)\<lparr>pg_flags := pg_flags (mm_pages s i) AND NOT PG_ALLOC, pg_usage := PU_UNKNOWN\<rparr>"
  define s' where "s' = s\<lparr>ph_alloc_pages := (ph_alloc_pages s)(u := ph_alloc_pages s u - 1),
             ph_pages_free := Suc (ph_pages_free s), mm_pages := (mm_pages s)(i := pg)\<rparr>"
  have ii: "i < PHYS_MAX_PAGES" "LOW_PAGE \<le> i" "pg_alloc (mm_pages s i)" "pg_usage (mm_pages s i) = u"
    using i by (auto simp: used_set_def)
  have pg: "\<not> pg_alloc pg" "pg_usage pg = PU_UNKNOWN" "pg_refcount pg = 0"
    using rc by (auto simp: pg_def)
  have pos: "ph_alloc_pages s u \<noteq> 0" using inv i by (auto simp: phys_inv_def card_eq_0_iff)
  have f: "free_set s' = insert i (free_set s)" using ii pg by (auto simp: free_set_def s'_def)
  have us: "used_set s' v = used_set s v - {i}" for v using pg by (auto simp: used_set_def s'_def)
  have notin: "i \<notin> free_set s" using ii by (auto simp: free_set_def)
  have other: "i \<notin> used_set s v" if "v \<noteq> u" for v using ii that by (auto simp: used_set_def)
  have "phys_inv s'"
  proof -
    have "ph_pages_free s' = card (free_set s')"
      using inv notin by (simp add: f) (simp add: s'_def phys_inv_def)
    moreover have "ph_alloc_pages s' v = card (used_set s' v)" for v
      using inv i other [of v] by (cases "v = u") (simp_all add: us, simp_all add: s'_def phys_inv_def)
    moreover have "used_set s' PU_UNKNOWN = {}" using inv by (simp add: us phys_inv_def)
    moreover have "LOW_PAGE \<le> k \<and> pg_usage (mm_pages s' k) = PU_UNKNOWN \<and> pg_refcount (mm_pages s' k) = 0"
      if "k < PHYS_MAX_PAGES" "\<not> pg_alloc (mm_pages s' k)" for k
      using inv that ii pg by (cases "k = i") (auto simp: s'_def phys_inv_def)
    moreover have "pg_refcount (mm_pages s' k) = REFCOUNT_RESERVED" if "k < LOW_PAGE" for k
      using inv that ii by (auto simp: s'_def phys_inv_def)
    ultimately show ?thesis by (simp add: phys_inv_def)
  qed
  hence "phys_gave i s s'" using f us by (simp add: phys_gave_def) (simp add: s'_def)
  moreover have "mm_phys_free_page addr s = Some s'"
    using ii rc pos addr by (simp add: mm_phys_free_page_def PHYS2PAGE_def s'_def pg_def Let_def pg_alloc_def)
  ultimately show ?thesis by blast
qed

section \<open>Contiguous windows\<close>

lemma phys_find_window_Some:
  "phys_find_window pgs count i = Some k \<Longrightarrow>
     i \<le> k \<and> k + count < PHYS_MAX_PAGES \<and> (\<forall>j < count. \<not> pg_alloc (pgs (k + j)))"
proof (induction pgs count i rule: phys_find_window.induct)
  case (1 pgs count i)
  thus ?case by (subst (asm) phys_find_window.simps) (auto split: if_splits simp: list_all_iff)
qed

lemma phys_find_window_None:
  "phys_find_window pgs count i = None \<Longrightarrow> i \<le> k \<Longrightarrow> k + count < PHYS_MAX_PAGES \<Longrightarrow>
     \<exists>j < count. pg_alloc (pgs (k + j))"
proof (induction pgs count i rule: phys_find_window.induct)
  case (1 pgs count i)
  have lt: "i < PHYS_MAX_PAGES - count" using 1(3,4) by simp
  with 1(2) have ex: "\<not> list_all (\<lambda>j. \<not> pg_alloc (pgs (i + j))) [0..<count]"
    and rec: "phys_find_window pgs count (Suc i) = None"
    by (auto simp: phys_find_window.simps [of pgs count i] split: if_splits)
  show ?case
  proof (cases "k = i")
    case True
    thus ?thesis using ex by (auto simp: list_all_iff)
  next
    case False
    thus ?thesis using 1(1) [OF lt ex rec] 1(3,4) by simp
  qed
qed

lemma phys_take_ok:
  "phys_inv s \<Longrightarrow> {i..<i + k} \<subseteq> free_set s \<Longrightarrow> pu \<noteq> PU_UNKNOWN \<Longrightarrow>
     \<exists>s'. phys_take pu i k s = Some s' \<and> phys_took pu {i..<i + k} s s'"
proof (induction k arbitrary: i s)
  case 0
  thus ?case by (simp add: phys_took_empty)
next
  case (Suc k)
  have "i \<in> free_set s" using Suc.prems by auto
  then obtain s1 where s1: "phys_take_one pu i s = Some s1" "phys_took pu {i} s s1"
    using phys_take_one_ok Suc.prems by blast
  have inv1: "phys_inv s1" and free1: "{Suc i..<Suc i + k} \<subseteq> free_set s1"
    using Suc.prems(2) s1(2) by (auto simp: phys_took_def)
  from Suc.IH [OF inv1 free1 Suc.prems(3)]
  obtain s' where s': "phys_take pu (Suc i) k s1 = Some s'" "phys_took pu {Suc i..<Suc i + k} s1 s'"
    by blast
  have "{i..<i + Suc k} = {i} \<union> {Suc i..<Suc i + k}" by auto
  thus ?case using s1(1) s' phys_took_trans [OF s1(2) s'(2)] by simp
qed

section \<open>Boot: reading the memory map\<close>

text \<open>
  The two map formats, entry by entry.  \<open>~0xFFF\<close> rounds down to a page; \<open>_kernel_end\<close> and the place of the
  map in memory are arguments; the old contents of the memory behind \<open>mm_pages\<close> come with
  the initial state.
\<close>

datatype mmap_entry = YbootEntry nat nat nat | Multiboot2Entry nat nat nat
datatype mmap_kind = MMAP_KIND_RESERVED | MMAP_KIND_USABLE

definition mmap_iter_next :: "mmap_entry \<Rightarrow> (mmap_kind \<times> nat \<times> nat) kern" where
  "mmap_iter_next ent =
    (case ent of
       YbootEntry type start pages \<Rightarrow>
         (if type \<in> {1, 2, 3, 4, 5, 6, 7} then Some (MMAP_KIND_USABLE, start, pages * 0x1000)
          else if type \<in> {13, 14, 0, 8, 9, 10, 12, 11} then Some (MMAP_KIND_RESERVED, start, pages * 0x1000)
          else None)
     | Multiboot2Entry addr len type \<Rightarrow>
         Some (if type = 1 then MMAP_KIND_USABLE else MMAP_KIND_RESERVED, addr, len))"

definition page_begin :: "nat \<Rightarrow> nat" where "page_begin base = (base + 0xFFF) div 0x1000"
definition page_end :: "nat \<Rightarrow> nat \<Rightarrow> nat" where "page_end base sz = (base + sz) div 0x1000"

fun place_region :: "(nat \<times> nat) list \<Rightarrow> nat \<Rightarrow> nat \<Rightarrow> nat option \<Rightarrow> nat list \<Rightarrow> nat option" where
  "place_region rs req collected base_addr [] = None"
| "place_region rs req collected base_addr (p # ps) =
    (let addr = p * 0x1000
     in if is_reserved rs addr then place_region rs req 0 None ps
        else let b = (case base_addr of None \<Rightarrow> addr | Some b \<Rightarrow> b)
             in if collected + 1 = req then Some b else place_region rs req (collected + 1) (Some b) ps)"

fun place_mm_pages :: "(nat \<times> nat) list \<Rightarrow> nat \<Rightarrow> mmap_entry list \<Rightarrow> nat option kern" where
  "place_mm_pages rs req [] = Some None"
| "place_mm_pages rs req (e # es) = do {
     (kind, base, sz) \<leftarrow> mmap_iter_next e;
     let b = page_begin base;
     let n = page_end base sz;
     case (if kind = MMAP_KIND_USABLE \<and> b < n then place_region rs req 0 None [b..<n] else None) of
       Some a \<Rightarrow> Some (Some a)
     | None \<Rightarrow> place_mm_pages rs req es
   }"

definition boot_page :: "nat \<Rightarrow> nat \<Rightarrow> phys \<Rightarrow> phys kern" where
  "boot_page kernel_end p s =
    (let addr = p * 0x1000
     in if \<not> is_reserved (ph_reserved s) addr \<and> kernel_end + 0x1000 \<le> addr then do {
          i \<leftarrow> PHYS2PAGE addr;
          let pg = mm_pages s i;
          Some (s\<lparr>mm_pages := (mm_pages s)(i := pg\<lparr>pg_flags := pg_flags pg AND NOT PG_ALLOC,
                    pg_usage := PU_UNKNOWN, pg_refcount := 0\<rparr>),
                  ph_total_pages := Suc (ph_total_pages s)\<rparr>)
        }
        else Some s)"

fun boot_pages :: "nat \<Rightarrow> nat list \<Rightarrow> phys \<Rightarrow> phys kern" where
  "boot_pages kend [] s = Some s"
| "boot_pages kend (p # ps) s = do { s' \<leftarrow> boot_page kend p s; boot_pages kend ps s' }"

fun boot_regions :: "nat \<Rightarrow> mmap_entry list \<Rightarrow> phys \<Rightarrow> phys kern" where
  "boot_regions kend [] s = Some s"
| "boot_regions kend (e # es) s = do {
     (kind, base, sz) \<leftarrow> mmap_iter_next e;
     let b = page_begin base;
     let n = page_end base sz;
     s \<leftarrow> (if kind = MMAP_KIND_USABLE \<and> b + 1 < n then boot_pages kend [b..<n] s else Some s);
     boot_regions kend es s
   }"

text \<open>The page numbers the map offers, in order.\<close>

fun usable_pages :: "mmap_entry list \<Rightarrow> nat list kern" where
  "usable_pages [] = Some []"
| "usable_pages (e # es) = do {
     (kind, base, sz) \<leftarrow> mmap_iter_next e;
     let b = page_begin base;
     let n = page_end base sz;
     ps \<leftarrow> usable_pages es;
     Some ((if kind = MMAP_KIND_USABLE \<and> b + 1 < n then [b..<n] else []) @ ps)
   }"

definition MM_PAGES_REQ_COUNT :: nat where
  "MM_PAGES_REQ_COUNT = (PHYS_MAX_PAGES * 24 + 0xFFF) div 0x1000"

definition amd64_phys_memory_map :: "nat \<Rightarrow> nat \<Rightarrow> nat \<Rightarrow> mmap_entry list \<Rightarrow> phys \<Rightarrow> phys kern" where
  "amd64_phys_memory_map kernel_end map_addr entry_size es s = do {
     let s = mm_phys_reserve (map_addr, map_addr + length es * entry_size) s;
     place \<leftarrow> place_mm_pages (ph_reserved s) MM_PAGES_REQ_COUNT es;
     addr \<leftarrow> place;
     let s = mm_phys_reserve (addr, addr + MM_PAGES_REQ_COUNT * MM_PAGE_SIZE) s;
     let s = s\<lparr>mm_pages := (\<lambda>i. (mm_pages s i)\<lparr>pg_flags := PG_ALLOC, pg_refcount := REFCOUNT_RESERVED\<rparr>),
               ph_total_pages := 0\<rparr>;
     s \<leftarrow> boot_regions kernel_end es s;
     Some (s\<lparr>ph_pages_free := ph_total_pages s\<rparr>)
   }"

lemma boot_pages_append:
  "boot_pages kend (ps @ qs) s = boot_pages kend ps s \<bind> boot_pages kend qs"
proof (induction ps arbitrary: s)
  case (Cons p ps)
  thus ?case by (cases "boot_page kend p s") simp_all
qed simp

lemma boot_regions_eq: "usable_pages es = Some ps \<Longrightarrow> boot_regions kend es = boot_pages kend ps"
proof (induction es arbitrary: ps)
  case Nil
  thus ?case by (simp add: fun_eq_iff)
next
  case (Cons e es)
  then obtain k b z qs where e: "mmap_iter_next e = Some (k, b, z)" and qs: "usable_pages es = Some qs"
    by (auto simp: Let_def split: bind_splits)
  show ?case
    using Cons.prems Cons.IH [OF qs] e qs by (intro ext) (auto simp: boot_pages_append Let_def)
qed

lemma boot_regions_pages:
  "boot_regions kend es s = Some s' \<Longrightarrow> \<exists>ps. usable_pages es = Some ps \<and> boot_pages kend ps s = Some s'"
  by (induction es arbitrary: s)
    (auto simp: Let_def boot_pages_append split: bind_splits if_splits)

definition boot_inv :: "phys \<Rightarrow> bool" where
  "boot_inv s \<longleftrightarrow>
    (\<forall>i. \<not> pg_alloc (mm_pages s i)
       \<longrightarrow> LOW_PAGE \<le> i \<and> i < PHYS_MAX_PAGES \<and> pg_usage (mm_pages s i) = PU_UNKNOWN \<and> pg_refcount (mm_pages s i) = 0)
    \<and> (\<forall>i. pg_alloc (mm_pages s i) \<longrightarrow> pg_refcount (mm_pages s i) = REFCOUNT_RESERVED)
    \<and> ph_total_pages s = card (free_set s) \<and> (\<forall>u. ph_alloc_pages s u = 0)"

lemma boot_page_index: "PHYS2PAGE (p * 0x1000) = (if p < PHYS_MAX_PAGES then Some p else None)"
  by (simp add: PHYS2PAGE_def MM_PAGE_SIZE_def)

lemma boot_page_inv:
  assumes inv: "boot_inv s" and p: "p \<notin> free_set s" and k: "LOW_PAGE * 0x1000 \<le> kend + 0x1000"
    and run: "boot_page kend p s = Some s'"
  shows "boot_inv s' \<and> free_set s' \<subseteq> insert p (free_set s)"
proof (cases "\<not> is_reserved (ph_reserved s) (p * 0x1000) \<and> kend + 0x1000 \<le> p * 0x1000")
  case False
  thus ?thesis using run inv by (auto simp: boot_page_def Let_def)
next
  case True
  hence low: "LOW_PAGE \<le> p" using k by auto
  from True run have max: "p < PHYS_MAX_PAGES" and s': "s' = s\<lparr>mm_pages := (mm_pages s)(p := (mm_pages s p)
      \<lparr>pg_flags := pg_flags (mm_pages s p) AND NOT PG_ALLOC, pg_usage := PU_UNKNOWN, pg_refcount := 0\<rparr>),
      ph_total_pages := Suc (ph_total_pages s)\<rparr>"
    by (auto simp: boot_page_def boot_page_index Let_def split: if_splits)
  have na: "\<not> pg_alloc (pg\<lparr>pg_flags := f AND NOT PG_ALLOC, pg_usage := u, pg_refcount := c\<rparr>)" for pg f u c
    by (simp add: pg_alloc_def flag_simps)
  have f: "free_set s' = insert p (free_set s)"
    using low max by (auto simp: s' free_set_def na)
  show ?thesis using inv p low max f by (auto simp: boot_inv_def) (auto simp: s' na)
qed

lemma boot_pages_inv:
  "boot_inv s \<Longrightarrow> distinct ps \<Longrightarrow> set ps \<inter> free_set s = {} \<Longrightarrow> LOW_PAGE * 0x1000 \<le> kend + 0x1000 \<Longrightarrow>
     boot_pages kend ps s = Some s' \<Longrightarrow> boot_inv s'"
proof (induction ps arbitrary: s)
  case (Cons p ps)
  then obtain s1 where s1: "boot_page kend p s = Some s1" "boot_pages kend ps s1 = Some s'"
    by (auto split: bind_splits)
  have "boot_inv s1 \<and> free_set s1 \<subseteq> insert p (free_set s)"
    using Cons.prems s1 by (intro boot_page_inv) auto
  thus ?case using Cons.prems s1 by (intro Cons.IH) auto
qed simp

lemma boot_inv_phys_inv: "boot_inv s \<Longrightarrow> phys_inv (s\<lparr>ph_pages_free := ph_total_pages s\<rparr>)"
proof -
  assume inv: "boot_inv s"
  have "used_set (s\<lparr>ph_pages_free := ph_total_pages s\<rparr>) u = {}" for u
    using inv by (auto simp: boot_inv_def used_set_def)
  moreover have "pg_refcount (mm_pages s i) = REFCOUNT_RESERVED" if "i < LOW_PAGE" for i
    using inv that by (auto simp: boot_inv_def)
  moreover have "free_set (s\<lparr>ph_pages_free := ph_total_pages s\<rparr>) = free_set s" by (simp add: free_set_def)
  ultimately show ?thesis using inv by (simp add: phys_inv_def boot_inv_def)
qed

section \<open>The interface of the allocator\<close>

text \<open>
  What a client that takes pages for one purpose relies on: an allocation succeeds with a page nobody
  owns or reports exhaustion without a change, and an owned page can be given back.
\<close>

locale page_allocator =
  fixes pinv :: "'s \<Rightarrow> bool"
    and owned :: "'s \<Rightarrow> nat set"
    and get_page :: "'s \<Rightarrow> (nat option \<times> 's) kern"
    and put_page :: "nat \<Rightarrow> 's \<Rightarrow> 's kern"
  assumes get_total: "pinv s \<Longrightarrow> \<exists>r s'. get_page s = Some (r, s')"
    and get_some: "pinv s \<Longrightarrow> get_page s = Some (Some a, s') \<Longrightarrow>
          pinv s' \<and> a \<notin> owned s \<and> owned s' = insert a (owned s) \<and> a mod 4096 = 0"
    and get_none: "pinv s \<Longrightarrow> get_page s = Some (None, s') \<Longrightarrow> s' = s"
    and put_ok: "pinv s \<Longrightarrow> a \<in> owned s \<Longrightarrow>
          \<exists>s'. put_page a s = Some s' \<and> pinv s' \<and> owned s' = owned s - {a}"
begin

fun get_pages :: "nat \<Rightarrow> 's \<Rightarrow> (nat list \<times> 's) kern" where
  "get_pages 0 s = Some ([], s)"
| "get_pages (Suc n) s =
    (case get_page s of
       None \<Rightarrow> None
     | Some (None, s') \<Rightarrow> Some ([], s')
     | Some (Some a, s') \<Rightarrow> map_option (\<lambda>(as, s2). (a # as, s2)) (get_pages n s'))"

fun put_pages :: "nat list \<Rightarrow> 's \<Rightarrow> 's kern" where
  "put_pages [] s = Some s"
| "put_pages (a # as) s = (case put_page a s of None \<Rightarrow> None | Some s' \<Rightarrow> put_pages as s')"

lemma get_pages_ok:
  "pinv s \<Longrightarrow> \<exists>as s'. get_pages n s = Some (as, s') \<and> pinv s' \<and> distinct as
     \<and> set as \<inter> owned s = {} \<and> owned s' = owned s \<union> set as \<and> (\<forall>a \<in> set as. a mod 4096 = 0)"
proof (induction n arbitrary: s)
  case (Suc n)
  obtain r s1 where run: "get_page s = Some (r, s1)" using get_total [OF Suc.prems] by blast
  show ?case
  proof (cases r)
    case None
    thus ?thesis using run get_none [OF Suc.prems] Suc.prems by auto
  next
    case (Some a)
    hence s1: "pinv s1" "a \<notin> owned s" "owned s1 = insert a (owned s)" "a mod 4096 = 0"
      using get_some [OF Suc.prems] run by auto
    from Suc.IH [OF s1(1)] obtain as s2 where "get_pages n s1 = Some (as, s2)" "pinv s2" "distinct as"
      "set as \<inter> owned s1 = {}" "owned s2 = owned s1 \<union> set as" "\<forall>a \<in> set as. a mod 4096 = 0" by blast
    thus ?thesis using run Some s1 by auto
  qed
qed simp

lemma put_pages_ok:
  "pinv s \<Longrightarrow> distinct as \<Longrightarrow> set as \<subseteq> owned s \<Longrightarrow>
     \<exists>s'. put_pages as s = Some s' \<and> pinv s' \<and> owned s' = owned s - set as"
proof (induction as arbitrary: s)
  case (Cons a as)
  obtain s1 where s1: "put_page a s = Some s1" "pinv s1" "owned s1 = owned s - {a}"
    using put_ok [of s a] Cons.prems by auto
  hence "\<exists>s'. put_pages as s1 = Some s' \<and> pinv s' \<and> owned s' = owned s1 - set as"
    using Cons.prems by (intro Cons.IH) auto
  thus ?case using s1 by auto
qed simp

lemma get_put_pages:
  assumes "pinv s" "get_pages n s = Some (as, s1)"
  shows "\<exists>s2. put_pages as s1 = Some s2 \<and> pinv s2 \<and> owned s2 = owned s"
proof -
  have s1: "pinv s1" "distinct as" "set as \<inter> owned s = {}" "owned s1 = owned s \<union> set as"
    using get_pages_ok [OF assms(1), of n] assms(2) by auto
  thus ?thesis using put_pages_ok [of s1 as] by auto
qed

end

definition owned_pages :: "page_usage \<Rightarrow> phys \<Rightarrow> nat set" where
  "owned_pages u s = (\<lambda>i. i * MM_PAGE_SIZE) ` {i \<in> used_set s u. pg_refcount (mm_pages s i) = 0}"

lemma phys_page_allocator:
  assumes pu: "pu \<noteq> PU_UNKNOWN"
  shows "page_allocator phys_inv (owned_pages pu) (mm_phys_alloc_page pu) mm_phys_free_page"
proof
  fix s assume inv: "phys_inv s"
  note eq = mm_phys_alloc_page_eq [OF inv pu]
  show "\<exists>r s'. mm_phys_alloc_page pu s = Some (r, s')"
    using phys_take_one_ok [OF inv _ pu] phys_find_free_in_free_set [of s]
    by (fastforce simp: eq split: option.split)
  show "phys_inv s' \<and> a \<notin> owned_pages pu s \<and> owned_pages pu s' = insert a (owned_pages pu s) \<and> a mod 4096 = 0"
    if run: "mm_phys_alloc_page pu s = Some (Some a, s')" for a s'
  proof -
    from run obtain i where i: "phys_find_free (mm_pages s) LOW_PAGE = Some i"
      and a: "a = i * MM_PAGE_SIZE" and s': "phys_take_one pu i s = Some s'"
      by (auto simp: eq split: option.splits)
    have "phys_took pu {i} s s'"
      using phys_take_one_ok [OF inv phys_find_free_in_free_set [OF i] pu] s' by auto
    moreover have "i \<notin> used_set s pu"
      using phys_find_free_in_free_set [OF i] by (auto simp: used_set_def free_set_def)
    ultimately show ?thesis
      by (auto simp: phys_took_def owned_pages_def a MM_PAGE_SIZE_def)
  qed
  show "s' = s" if "mm_phys_alloc_page pu s = Some (None, s')" for s'
    using that by (auto simp: eq split: option.splits)
  show "\<exists>s'. mm_phys_free_page a s = Some s' \<and> phys_inv s' \<and> owned_pages pu s' = owned_pages pu s - {a}"
    if a: "a \<in> owned_pages pu s" for a
  proof -
    from a obtain i where i: "i \<in> used_set s pu" "pg_refcount (mm_pages s i) = 0" "a = i * MM_PAGE_SIZE"
      by (auto simp: owned_pages_def)
    have "a div MM_PAGE_SIZE = i" using i(3) by (simp add: MM_PAGE_SIZE_def)
    then obtain s' where s': "mm_phys_free_page a s = Some s'" "phys_gave i s s'"
      using mm_phys_free_page_ok [OF inv i(1,2)] by blast
    have "owned_pages pu s' = owned_pages pu s - {a}"
      using s'(2) i(3) by (auto simp: phys_gave_def owned_pages_def MM_PAGE_SIZE_def)
    thus ?thesis using s' by (simp add: phys_gave_def)
  qed
qed

interpretation kernel_pages: page_allocator phys_inv "owned_pages PU_KERNEL"
  "mm_phys_alloc_page PU_KERNEL" mm_phys_free_page
  by (rule phys_page_allocator) simp

interpretation paging_pages: page_allocator phys_inv "owned_pages PU_PAGING"
  "mm_phys_alloc_page PU_PAGING" mm_phys_free_page
  by (rule phys_page_allocator) simp

interpretation cache_pages: page_allocator phys_inv "owned_pages PU_CACHE"
  "mm_phys_alloc_page PU_CACHE" mm_phys_free_page
  by (rule phys_page_allocator) simp

section \<open>Runs of the allocator\<close>

text \<open>
  The references to a page are counted by the mapping code (src/arch/amd64/mm/map.c), outside the allocator: one more
  for each new mapping, one less for each that goes.
\<close>

definition phys_ref :: "nat \<Rightarrow> phys \<Rightarrow> phys kern" where
  "phys_ref addr s = do {
     i \<leftarrow> PHYS2PAGE addr;
     let pg = mm_pages s i;
     Some (s\<lparr>mm_pages := (mm_pages s)(i := pg\<lparr>pg_refcount := Suc (pg_refcount pg)\<rparr>)\<rparr>)
   }"

definition phys_unref :: "nat \<Rightarrow> phys \<Rightarrow> phys kern" where
  "phys_unref addr s = do {
     i \<leftarrow> PHYS2PAGE addr;
     let pg = mm_pages s i;
     kassert (pg_refcount pg \<noteq> 0);
     Some (s\<lparr>mm_pages := (mm_pages s)(i := pg\<lparr>pg_refcount := pg_refcount pg - 1\<rparr>)\<rparr>)
   }"

datatype phys_event = PhAlloc page_usage | PhContiguous nat page_usage | PhFree nat | PhRef nat | PhUnref nat

text \<open>
  What the routines leave to their callers. A contiguous allocation does not check the usage. Mapping and
  unmapping count references of any page, also of one that is free or was reserved at boot, and the count may
  wrap; the callers map pages they own, fewer than \<open>2 ^ 64\<close> times. A release has no such condition: the routine
  checks the page itself.
\<close>

fun phys_client :: "phys_event \<Rightarrow> phys \<Rightarrow> bool" where
  "phys_client (PhAlloc pu) s = True"
| "phys_client (PhContiguous n pu) s = (pu \<noteq> PU_UNKNOWN)"
| "phys_client (PhFree addr) s = True"
| "phys_client (PhRef addr) s =
    (let pg = mm_pages s (addr div MM_PAGE_SIZE)
     in pg_alloc pg \<and> pg_refcount pg \<noteq> REFCOUNT_RESERVED \<and> Suc (pg_refcount pg) \<noteq> REFCOUNT_RESERVED)"
| "phys_client (PhUnref addr) s = (pg_refcount (mm_pages s (addr div MM_PAGE_SIZE)) < REFCOUNT_RESERVED)"

fun phys_exec :: "phys_event \<Rightarrow> phys \<Rightarrow> (nat option \<times> phys) kern" where
  "phys_exec (PhAlloc pu) s = mm_phys_alloc_page pu s"
| "phys_exec (PhContiguous n pu) s = mm_phys_alloc_contiguous n pu s"
| "phys_exec (PhFree addr) s = map_option (\<lambda>s'. (None, s')) (mm_phys_free_page addr s)"
| "phys_exec (PhRef addr) s = map_option (\<lambda>s'. (None, s')) (phys_ref addr s)"
| "phys_exec (PhUnref addr) s = map_option (\<lambda>s'. (None, s')) (phys_unref addr s)"

definition usages :: "page_usage list" where
  "usages = [PU_PRIVATE, PU_SHARED, PU_DEVICE, PU_KERNEL, PU_PAGING, PU_CACHE]"

definition phys_balanced :: "phys \<Rightarrow> bool" where
  "phys_balanced s \<longleftrightarrow> ph_total_pages s = ph_pages_free s + sum_list (map (ph_alloc_pages s) usages)"

inductive phys_reach :: "phys \<Rightarrow> bool" where
  boot: "amd64_phys_memory_map kend map_addr entry_size es s0 = Some s \<Longrightarrow>
    (\<forall>u. ph_alloc_pages s0 u = 0) \<Longrightarrow> usable_pages es = Some ps \<Longrightarrow> distinct ps \<Longrightarrow>
    LOW_PAGE * 0x1000 \<le> kend + 0x1000 \<Longrightarrow> phys_reach s"
| step: "phys_reach s \<Longrightarrow> phys_client ev s \<Longrightarrow> phys_exec ev s = Some (r, s') \<Longrightarrow> phys_reach s'"

lemma boot_ok:
  assumes run: "amd64_phys_memory_map kend map_addr entry_size es s0 = Some s"
    and "\<forall>u. ph_alloc_pages s0 u = 0" "usable_pages es = Some ps" "distinct ps"
    and low: "LOW_PAGE * 0x1000 \<le> kend + 0x1000"
  shows "phys_inv s \<and> phys_balanced s"
proof -
  obtain s1 s2 where s1: "boot_regions kend es s1 = Some s2" "s = s2\<lparr>ph_pages_free := ph_total_pages s2\<rparr>"
    and init: "\<And>i. pg_alloc (mm_pages s1 i) \<and> pg_refcount (mm_pages s1 i) = REFCOUNT_RESERVED"
      "ph_total_pages s1 = 0" "\<And>u. ph_alloc_pages s1 u = 0"
    using run assms(2)
    by (auto simp: amd64_phys_memory_map_def mm_phys_reserve_def Let_def pg_alloc_def flag_simps
        split: bind_splits)
  have fs: "free_set s1 = {}" using init(1) by (auto simp: free_set_def)
  have "boot_inv s1" using init by (simp add: boot_inv_def fs)
  moreover have "boot_pages kend ps s1 = Some s2" using boot_regions_pages [OF s1(1)] assms(3) by auto
  ultimately have b: "boot_inv s2" using boot_pages_inv [of s1 ps kend s2] assms(4) low fs by simp
  hence "phys_inv s" using boot_inv_phys_inv s1(2) by simp
  moreover have "phys_balanced s" using b by (simp add: phys_balanced_def usages_def s1(2) boot_inv_def)
  ultimately show ?thesis by blast
qed

lemma phys_took_balanced:
  assumes inv: "phys_inv s" and took: "phys_took pu I s s'" and pu: "pu \<noteq> PU_UNKNOWN" and b: "phys_balanced s"
  shows "phys_balanced s'"
proof -
  have fin: "finite I" using took finite_free_set [of s] by (auto simp: phys_took_def intro: finite_subset)
  have "used_set s u \<inter> I = {}" for u using took by (auto simp: phys_took_def used_set_def free_set_def)
  hence us: "card (used_set s' u) = card (used_set s u) + (if u = pu then card I else 0)" for u
    using took fin by (simp add: phys_took_def card_Un_disjoint)
  have fr: "card (free_set s') = card (free_set s) - card I" "card I \<le> card (free_set s)"
    using took fin by (auto simp: phys_took_def card_Diff_subset card_mono)
  have "phys_inv s'" using took by (simp add: phys_took_def)
  thus ?thesis using inv b fr us pu took
    by (cases pu) (simp_all add: phys_balanced_def usages_def phys_inv_def phys_took_def)
qed

lemma phys_gave_balanced:
  assumes inv: "phys_inv s" and gave: "phys_gave i s s'" and i: "i \<in> used_set s pu" and b: "phys_balanced s"
  shows "phys_balanced s'"
proof -
  have nf: "i \<notin> free_set s" using i by (auto simp: used_set_def free_set_def)
  have other: "i \<notin> used_set s u" if "u \<noteq> pu" for u using i that by (auto simp: used_set_def)
  have us: "card (used_set s' u) = card (used_set s u) - (if u = pu then 1 else 0)" for u
    using gave i other [of u] by (auto simp: phys_gave_def)
  have fr: "card (free_set s') = Suc (card (free_set s))" using gave nf by (simp add: phys_gave_def)
  have pos: "0 < card (used_set s pu)" using i by (auto simp: card_gt_0_iff)
  have ne: "pu \<noteq> PU_UNKNOWN" using inv i by (auto simp: phys_inv_def)
  have "phys_inv s'" using gave by (simp add: phys_gave_def)
  thus ?thesis using inv b fr us pos ne gave
    by (cases pu) (simp_all add: phys_balanced_def usages_def phys_inv_def phys_gave_def)
qed

text \<open>One description of what the two allocation routines do.\<close>

lemma mm_phys_alloc_page_ok:
  assumes inv: "phys_inv s" and pu: "pu \<noteq> PU_UNKNOWN"
  shows "free_set s = {} \<and> mm_phys_alloc_page pu s = Some (None, s)
     \<or> (\<exists>i s'. mm_phys_alloc_page pu s = Some (Some (i * MM_PAGE_SIZE), s') \<and> phys_took pu {i} s s')"
proof (cases "phys_find_free (mm_pages s) LOW_PAGE")
  case None
  thus ?thesis using phys_find_free_None_free_set by (simp add: mm_phys_alloc_page_eq [OF inv pu])
next
  case (Some i)
  then obtain s' where "phys_take_one pu i s = Some s'" "phys_took pu {i} s s'"
    using phys_take_one_ok [OF inv phys_find_free_in_free_set pu] by blast
  thus ?thesis using Some by (auto simp: mm_phys_alloc_page_eq [OF inv pu])
qed

lemma phys_window_free:
  "phys_find_window (mm_pages s) n LOW_PAGE = Some i \<Longrightarrow> {i..<i + n} \<subseteq> free_set s"
proof
  fix k assume w: "phys_find_window (mm_pages s) n LOW_PAGE = Some i" and k: "k \<in> {i..<i + n}"
  obtain j where j: "k = i + j" "j < n" using k by (auto simp: le_iff_add)
  thus "k \<in> free_set s" using phys_find_window_Some [OF w] by (simp add: free_set_def)
qed

lemma mm_phys_alloc_contiguous_ok:
  assumes inv: "phys_inv s" and pu: "pu \<noteq> PU_UNKNOWN" and n: "n \<le> PHYS_MAX_PAGES"
  shows "(\<forall>k. LOW_PAGE \<le> k \<longrightarrow> k + n < PHYS_MAX_PAGES \<longrightarrow> \<not> {k..<k + n} \<subseteq> free_set s)
           \<and> mm_phys_alloc_contiguous n pu s = Some (None, s)
     \<or> (\<exists>i s'. mm_phys_alloc_contiguous n pu s = Some (Some (i * MM_PAGE_SIZE), s')
               \<and> phys_took pu {i..<i + n} s s')"
proof (cases "phys_find_window (mm_pages s) n LOW_PAGE")
  case None
  have "\<not> {k..<k + n} \<subseteq> free_set s" if lim: "LOW_PAGE \<le> k" "k + n < PHYS_MAX_PAGES" for k
  proof
    assume sub: "{k..<k + n} \<subseteq> free_set s"
    obtain j where "j < n" "pg_alloc (mm_pages s (k + j))" using phys_find_window_None [OF None lim] by blast
    moreover have "k + j \<in> free_set s" using sub \<open>j < n\<close> by auto
    ultimately show False by (simp add: free_set_def)
  qed
  thus ?thesis using None n by (simp add: mm_phys_alloc_contiguous_def)
next
  case (Some i)
  then obtain s' where "phys_take pu i n s = Some s'" "phys_took pu {i..<i + n} s s'"
    using phys_take_ok [OF inv phys_window_free pu] by blast
  thus ?thesis using Some n by (auto simp: mm_phys_alloc_contiguous_def)
qed

text \<open>A release succeeds exactly for an allocated page without references.\<close>

lemma mm_phys_free_page_iff:
  assumes inv: "phys_inv s"
  shows "mm_phys_free_page addr s \<noteq> None \<longleftrightarrow>
    (let i = addr div MM_PAGE_SIZE in i < PHYS_MAX_PAGES \<and> pg_alloc (mm_pages s i) \<and> pg_refcount (mm_pages s i) = 0)"
    (is "?run \<longleftrightarrow> ?ok")
proof
  assume ?run
  thus ?ok by (auto simp: mm_phys_free_page_def PHYS2PAGE_def Let_def pg_alloc_def kassert_def split: if_splits)
next
  assume ok: ?ok
  hence "addr div MM_PAGE_SIZE \<in> used_set s (pg_usage (mm_pages s (addr div MM_PAGE_SIZE)))"
    using inv by (auto simp: used_set_def phys_inv_def Let_def REFCOUNT_RESERVED_def not_less [symmetric])
  thus ?run using mm_phys_free_page_ok [OF inv _ _ refl] ok by (auto simp: Let_def)
qed

lemma mm_phys_free_page_gave:
  assumes inv: "phys_inv s" and run: "mm_phys_free_page addr s = Some s'"
  shows "\<exists>u. addr div MM_PAGE_SIZE \<in> used_set s u \<and> phys_gave (addr div MM_PAGE_SIZE) s s'"
proof -
  let ?i = "addr div MM_PAGE_SIZE"
  have ok: "?i < PHYS_MAX_PAGES" "pg_alloc (mm_pages s ?i)" "pg_refcount (mm_pages s ?i) = 0"
    using mm_phys_free_page_iff [OF inv, of addr] run by (auto simp: Let_def)
  hence "?i \<in> used_set s (pg_usage (mm_pages s ?i))"
    using inv by (auto simp: used_set_def phys_inv_def REFCOUNT_RESERVED_def not_less [symmetric])
  thus ?thesis using mm_phys_free_page_ok [OF inv _ ok(3) refl] run by fastforce
qed

lemma phys_recount:
  assumes inv: "phys_inv s" "phys_balanced s" and pg: "pg_alloc (mm_pages s i)"
    and n: "pg_refcount (mm_pages s i) \<noteq> REFCOUNT_RESERVED" "n \<noteq> REFCOUNT_RESERVED"
  shows "phys_inv (s\<lparr>mm_pages := (mm_pages s)(i := (mm_pages s i)\<lparr>pg_refcount := n\<rparr>)\<rparr>)" (is "phys_inv ?s")
    and "phys_balanced (s\<lparr>mm_pages := (mm_pages s)(i := (mm_pages s i)\<lparr>pg_refcount := n\<rparr>)\<rparr>)"
proof -
  have al: "pg_alloc (mm_pages ?s k) = pg_alloc (mm_pages s k)" for k by (simp add: pg_alloc_def)
  have low: "\<not> i < LOW_PAGE" using inv(1) n(1) by (auto simp: phys_inv_def)
  have f: "free_set ?s = free_set s" unfolding free_set_def al ..
  have u: "used_set ?s u = used_set s u" for u using n unfolding used_set_def al by auto
  have "k \<noteq> i" if "\<not> pg_alloc (mm_pages ?s k)" for k using pg that unfolding al by blast
  thus "phys_inv ?s" using inv(1) low unfolding phys_inv_def f u al by auto
  show "phys_balanced ?s" using inv(2) by (simp add: phys_balanced_def)
qed

lemma phys_step_ok:
  assumes inv: "phys_inv s" "phys_balanced s" and cl: "phys_client ev s" and run: "phys_exec ev s = Some (r, s')"
  shows "phys_inv s' \<and> phys_balanced s'"
proof -
  have took: "phys_inv s' \<and> phys_balanced s'" if "pu \<noteq> PU_UNKNOWN" "phys_took pu I s s'" for pu I
    using phys_took_balanced [OF inv(1) that(2,1) inv(2)] that(2) by (simp add: phys_took_def)
  show ?thesis
  proof (cases ev)
    case (PhAlloc pu)
    hence pu: "pu \<noteq> PU_UNKNOWN" using run by (auto simp: mm_phys_alloc_page_def)
    have "s' = s \<or> (\<exists>I. phys_took pu I s s')" using mm_phys_alloc_page_ok [OF inv(1) pu] run PhAlloc by auto
    thus ?thesis using took [OF pu] inv by blast
  next
    case (PhContiguous n pu)
    hence pu: "pu \<noteq> PU_UNKNOWN" "n \<le> PHYS_MAX_PAGES"
      using cl run by (auto simp: mm_phys_alloc_contiguous_def)
    have "s' = s \<or> (\<exists>I. phys_took pu I s s')" using mm_phys_alloc_contiguous_ok [OF inv(1) pu] run PhContiguous by auto
    thus ?thesis using took [OF pu(1)] inv by blast
  next
    case (PhFree addr)
    thus ?thesis using mm_phys_free_page_gave [OF inv(1), of addr s'] phys_gave_balanced [OF inv(1) _ _ inv(2)] run
      by (auto simp: phys_gave_def)
  next
    case (PhRef addr)
    thus ?thesis using phys_recount [OF inv, of "addr div MM_PAGE_SIZE"] cl run
      by (auto simp: phys_ref_def PHYS2PAGE_def Let_def split: if_splits)
  next
    case (PhUnref addr)
    let ?pg = "mm_pages s (addr div MM_PAGE_SIZE)"
    have rc: "pg_refcount ?pg \<noteq> 0" "addr div MM_PAGE_SIZE < PHYS_MAX_PAGES" "pg_refcount ?pg < REFCOUNT_RESERVED"
      and s': "s' = s\<lparr>mm_pages := (mm_pages s)(addr div MM_PAGE_SIZE := ?pg\<lparr>pg_refcount := pg_refcount ?pg - 1\<rparr>)\<rparr>"
      using PhUnref cl run by (auto simp: phys_unref_def PHYS2PAGE_def Let_def split: if_splits)
    hence "pg_alloc ?pg" using inv(1) by (auto simp: phys_inv_def)
    thus ?thesis using phys_recount [OF inv, of "addr div MM_PAGE_SIZE" "pg_refcount ?pg - 1"] rc s' by simp
  qed
qed

lemma phys_reach_inv: "phys_reach s \<Longrightarrow> phys_inv s \<and> phys_balanced s"
proof (induction rule: phys_reach.induct)
  case (boot kend map_addr entry_size es s0 s ps)
  thus ?case by (rule boot_ok)
next
  case (step s ev r s')
  thus ?case using phys_step_ok [of s ev r s'] by blast
qed

section \<open>A machine that boots\<close>

lemma place_region_ok:
  "list_all (\<lambda>p. \<not> is_reserved rs (p * 0x1000)) ps \<Longrightarrow> collected < req \<Longrightarrow> req \<le> collected + length ps \<Longrightarrow>
     place_region rs req collected base ps = Some (case base of None \<Rightarrow> hd ps * 0x1000 | Some b \<Rightarrow> b)"
proof (induction ps arbitrary: collected base)
  case (Cons p ps)
  thus ?case by (cases "collected + 1 = req") (auto simp: Let_def split: option.split)
qed simp

lemma boot_page_reserved: "boot_page kend p s = Some s' \<Longrightarrow> ph_reserved s' = ph_reserved s"
  by (auto simp: boot_page_def Let_def split: if_splits bind_splits)

lemma boot_pages_reserved: "boot_pages kend ps s = Some s' \<Longrightarrow> ph_reserved s' = ph_reserved s"
  by (induction ps arbitrary: s) (auto dest: boot_page_reserved split: bind_splits)

lemma boot_pages_total:
  "\<forall>p \<in> set ps. p < PHYS_MAX_PAGES \<or> is_reserved (ph_reserved s) (p * 0x1000) \<Longrightarrow>
     \<exists>s'. boot_pages kend ps s = Some s'"
proof (induction ps arbitrary: s)
  case (Cons p ps)
  have "boot_page kend p s \<noteq> None" using Cons.prems by (auto simp: boot_page_def boot_page_index Let_def)
  then obtain s1 where s1: "boot_page kend p s = Some s1" by blast
  thus ?case using Cons boot_page_reserved [OF s1] by simp
qed simp

lemma boot_pages_frees:
  "boot_pages kend ps s = Some s' \<Longrightarrow> p \<in> set ps \<or> \<not> pg_alloc (mm_pages s p) \<Longrightarrow>
     \<not> is_reserved (ph_reserved s) (p * 0x1000) \<Longrightarrow> kend + 0x1000 \<le> p * 0x1000 \<Longrightarrow> \<not> pg_alloc (mm_pages s' p)"
proof (induction ps arbitrary: s)
  case (Cons q ps)
  then obtain s1 where s1: "boot_page kend q s = Some s1" "boot_pages kend ps s1 = Some s'"
    by (auto split: bind_splits)
  have "p \<in> set ps \<or> \<not> pg_alloc (mm_pages s1 p)"
    using s1(1) Cons.prems(2-4)
    by (auto simp: boot_page_def boot_page_index pg_alloc_def flag_simps Let_def split: if_splits)
  thus ?case using Cons.IH [OF s1(2)] Cons.prems(3,4) boot_page_reserved [OF s1(1)] by simp
qed simp

text \<open>16 MiB of memory behind a kernel at 2 MiB, and two reserved pages at 1 GiB.\<close>

definition demo_map :: "mmap_entry list" where
  "demo_map = [Multiboot2Entry 0x400000 0x1000000 1, Multiboot2Entry 0x40000000 0x2000 1]"

definition demo_pages :: "nat list" where
  "demo_pages = [0x400..<0x1400]"

definition demo_phys0 :: phys where
  "demo_phys0 = \<lparr> mm_pages = (\<lambda>_. \<lparr> pg_flags = 0, pg_usage = PU_UNKNOWN, pg_refcount = 0 \<rparr>),
     ph_total_pages = 0, ph_pages_free = 0, ph_alloc_pages = (\<lambda>_. 0),
     ph_reserved = [(0x40000000, 0x40002000)] \<rparr>"

lemma set_demo_pages: "set demo_pages = {0x400..<0x1400}"
  unfolding demo_pages_def by (rule set_upt)

lemma two_pages: "[0x40000..<0x40002] = [0x40000, 0x40001::nat]"
  by simp

lemma demo_usable: "usable_pages demo_map = Some (demo_pages @ [0x40000, 0x40001])"
  by (simp add: demo_map_def mmap_iter_next_def page_begin_def page_end_def demo_pages_def two_pages
      del: upt_rec_numeral)

lemma demo_boots:
  "\<exists>s. amd64_phys_memory_map 0x200000 0x8000 24 demo_map demo_phys0 = Some s \<and> \<not> pg_alloc (mm_pages s 0x1000)"
proof -
  define rs :: "(nat \<times> nat) list" where "rs = [(0x8000, 0x8030), (0x40000000, 0x40002000)]"
  have nres: "list_all (\<lambda>p. \<not> is_reserved rs (p * 0x1000)) demo_pages"
    by (auto simp: list_all_iff set_demo_pages is_reserved_def rs_def)
  have cnt: "MM_PAGES_REQ_COUNT = 1536" by (simp add: MM_PAGES_REQ_COUNT_def PHYS_MAX_PAGES_def)
  have "length demo_pages = 4096" unfolding demo_pages_def by (simp only: length_upt)
  moreover have "hd demo_pages = 0x400" unfolding demo_pages_def by (subst hd_upt) simp_all
  ultimately have a: "place_region rs MM_PAGES_REQ_COUNT 0 None demo_pages = Some 0x400000"
    using place_region_ok [OF nres, of 0 MM_PAGES_REQ_COUNT None] cnt by simp
  have pl: "place_mm_pages rs MM_PAGES_REQ_COUNT demo_map = Some (Some 0x400000)"
    using a by (simp add: demo_map_def mmap_iter_next_def page_begin_def page_end_def demo_pages_def
        del: upt_rec_numeral)
  have reg: "boot_regions kend demo_map s = boot_pages kend (demo_pages @ [0x40000, 0x40001]) s" for kend s
    by (simp only: boot_regions_eq [OF demo_usable])
  have tot: "\<exists>s'. boot_pages kend (demo_pages @ [0x40000, 0x40001]) s = Some s'"
    if "(0x40000000, 0x40002000) \<in> set (ph_reserved s)" for kend s
    using that
    by (intro boot_pages_total)
      (auto simp: set_demo_pages PHYS_MAX_PAGES_def is_reserved_def list_ex_iff intro: bexI [rotated])
  have res: "ph_reserved (mm_phys_reserve (0x8000, 0x8000 + length demo_map * 24) demo_phys0) = rs"
    by (simp add: demo_map_def mm_phys_reserve_def demo_phys0_def rs_def)
  have run: "\<exists>s'. boot_pages 0x200000 (demo_pages @ [0x40000, 0x40001]) s = Some s' \<and> \<not> pg_alloc (mm_pages s' 0x1000)"
    if r: "ph_reserved s = (0x400000, 0x400000 + MM_PAGES_REQ_COUNT * MM_PAGE_SIZE) # rs" for s
  proof -
    obtain s' where s': "boot_pages 0x200000 (demo_pages @ [0x40000, 0x40001]) s = Some s'"
      using tot [of s] r by (auto simp: rs_def)
    have "\<not> pg_alloc (mm_pages s' 0x1000)"
      by (rule boot_pages_frees [OF s']) (simp_all add: set_demo_pages r rs_def is_reserved_def cnt MM_PAGE_SIZE_def)
    thus ?thesis using s' by blast
  qed
  let ?s0 = "mm_phys_reserve (0x400000, 0x400000 + MM_PAGES_REQ_COUNT * MM_PAGE_SIZE)
    (mm_phys_reserve (0x8000, 0x8000 + length demo_map * 24) demo_phys0)"
  let ?s1 = "?s0\<lparr>mm_pages := (\<lambda>i. (mm_pages ?s0 i)\<lparr>pg_flags := PG_ALLOC, pg_refcount := REFCOUNT_RESERVED\<rparr>), ph_total_pages := 0\<rparr>"
  have "ph_reserved ?s1 = (0x400000, 0x400000 + MM_PAGES_REQ_COUNT * MM_PAGE_SIZE) # rs"
    by (simp add: mm_phys_reserve_def demo_phys0_def rs_def demo_map_def)
  then obtain s' where "boot_pages 0x200000 (demo_pages @ [0x40000, 0x40001]) ?s1 = Some s'" "\<not> pg_alloc (mm_pages s' 0x1000)"
    using run by blast
  thus ?thesis unfolding amd64_phys_memory_map_def Let_def res pl reg by simp
qed

lemma demo_distinct: "distinct (demo_pages @ [0x40000, 0x40001])"
proof -
  have "distinct demo_pages" unfolding demo_pages_def by (rule distinct_upt)
  thus ?thesis by (simp add: set_demo_pages)
qed

lemma demo_reach_free: "\<exists>s. phys_reach s \<and> free_set s \<noteq> {}"
proof -
  obtain s where s: "amd64_phys_memory_map 0x200000 0x8000 24 demo_map demo_phys0 = Some s" "\<not> pg_alloc (mm_pages s 0x1000)"
    using demo_boots by blast
  have "phys_reach s"
    by (rule phys_reach.boot [OF s(1) _ demo_usable demo_distinct]) (simp_all add: demo_phys0_def LOW_PAGE_def)
  moreover have "0x1000 \<in> free_set s" using s(2) by (simp add: free_set_def LOW_PAGE_def PHYS_MAX_PAGES_def)
  ultimately show ?thesis by blast
qed

lemma demo_reach: "\<exists>s. phys_reach s"
  using demo_reach_free by blast


section \<open>Properties\<close>



text \<open>
  A page allocation hands out a page-aligned address of a page that was free, marks exactly that page as
  used and leaves every other page alone; it reports failure only when no page is free.
\<close>
lemma phys_alloc_page_correct:
  assumes "phys_inv s" "pu \<noteq> PU_UNKNOWN"
  shows "\<exists>r s'. mm_phys_alloc_page pu s = Some (r, s') \<and>
     (case r of
        None \<Rightarrow> free_set s = {} \<and> s' = s
      | Some a \<Rightarrow> a mod MM_PAGE_SIZE = 0 \<and> a div MM_PAGE_SIZE \<in> free_set s
          \<and> phys_took pu {a div MM_PAGE_SIZE} s s')"
  using mm_phys_alloc_page_ok [OF assms]
proof (elim disjE exE conjE)
  fix i s' assume "mm_phys_alloc_page pu s = Some (Some (i * MM_PAGE_SIZE), s')" "phys_took pu {i} s s'"
  thus ?thesis by (simp add: MM_PAGE_SIZE_def) (simp add: phys_took_def)
qed simp

text \<open>
  C29: A contiguous allocation returns a window of pages that were all free and takes exactly them.  It fails only if
  no such window ends strictly below the last page: the scan never tries the window that ends with the array.
\<close>
theorem phys_alloc_contiguous_correct:
  assumes "phys_inv s" "pu \<noteq> PU_UNKNOWN" "n \<le> PHYS_MAX_PAGES"
  shows "\<exists>r s'. mm_phys_alloc_contiguous n pu s = Some (r, s') \<and>
     (case r of
        None \<Rightarrow> s' = s \<and> (\<forall>k. LOW_PAGE \<le> k \<longrightarrow> k + n < PHYS_MAX_PAGES \<longrightarrow> \<not> {k..<k + n} \<subseteq> free_set s)
      | Some a \<Rightarrow> a mod MM_PAGE_SIZE = 0 \<and>
          phys_took pu {a div MM_PAGE_SIZE..<a div MM_PAGE_SIZE + n} s s')"
  using mm_phys_alloc_contiguous_ok [OF assms]
proof (elim disjE exE conjE)
  fix i s'
  assume "mm_phys_alloc_contiguous n pu s = Some (Some (i * MM_PAGE_SIZE), s')" "phys_took pu {i..<i + n} s s'"
  thus ?thesis by (simp add: MM_PAGE_SIZE_def)
qed simp

theorem phys_alloc_contiguous_correct_witness:
  "\<exists>s r s'. phys_inv s \<and> mm_phys_alloc_contiguous 4 PU_KERNEL s = Some (r, s') \<and>
     (case r of
        None \<Rightarrow> s' = s \<and> (\<forall>k. LOW_PAGE \<le> k \<longrightarrow> k + 4 < PHYS_MAX_PAGES \<longrightarrow> \<not> {k..<k + 4} \<subseteq> free_set s)
      | Some a \<Rightarrow> a mod MM_PAGE_SIZE = 0 \<and>
          phys_took PU_KERNEL {a div MM_PAGE_SIZE..<a div MM_PAGE_SIZE + 4} s s')"
proof -
  obtain s where "phys_inv s" using demo_reach phys_reach_inv by blast
  thus ?thesis using phys_alloc_contiguous_correct [of s PU_KERNEL 4]
    by (auto simp: PHYS_MAX_PAGES_def)
qed

text \<open>
  Releasing a page just allocated restores the allocator exactly: the page array, every counter and
  the reserved regions are what they were before the allocation.
\<close>
lemma phys_alloc_free_roundtrip:
  assumes inv: "phys_inv s" and run: "mm_phys_alloc_page pu s = Some (Some a, s')"
  shows "mm_phys_free_page a s' = Some s"
proof -
  have pu: "pu \<noteq> PU_UNKNOWN" using run by (auto simp: mm_phys_alloc_page_def)
  obtain i where i: "phys_find_free (mm_pages s) LOW_PAGE = Some i" "a = i * MM_PAGE_SIZE"
      "phys_take_one pu i s = Some s'"
    using run by (auto simp: mm_phys_alloc_page_eq [OF inv pu] split: option.splits)
  let ?p = "mm_pages s i"
  have p: "i < PHYS_MAX_PAGES" "\<not> pg_alloc ?p" "pg_usage ?p = PU_UNKNOWN" "pg_refcount ?p = 0"
    using phys_find_free_Some [OF i(1)] inv by (simp_all add: phys_inv_def)
  have s': "ph_pages_free s \<noteq> 0" "s' = s\<lparr>mm_pages := (mm_pages s)(i := ?p\<lparr>pg_flags := pg_flags ?p OR PG_ALLOC, pg_usage := pu\<rparr>),
      ph_alloc_pages := (ph_alloc_pages s)(pu := Suc (ph_alloc_pages s pu)), ph_pages_free := ph_pages_free s - 1\<rparr>"
    using i(3) by (auto simp: phys_take_one_def Let_def)
  have fl: "(pg_flags ?p OR PG_ALLOC) AND NOT PG_ALLOC = pg_flags ?p"
    using p(2) by (auto simp: pg_alloc_def flag_simps intro!: bit_word_eqI) (metis gr0I)
  have pg: "?p\<lparr>pg_usage := PU_UNKNOWN\<rparr> = ?p" using p(3) by (cases ?p) simp
  have idx: "a div MM_PAGE_SIZE = i" using i(2) by (simp add: MM_PAGE_SIZE_def)
  have nz: "(pg_flags ?p OR PG_ALLOC) AND PG_ALLOC \<noteq> 0" by (simp add: flag_simps)
  show ?thesis using p s'(1) nz
    by (simp add: mm_phys_free_page_def PHYS2PAGE_def idx Let_def s'(2) fl pg)
qed

end
