(* ===== verification/Slab.thy ===== *)
theory Slab
  imports Phys Alloc_Iface
begin

text \<open>
  The slab caches (src/sys/mem/slab.c).  A slab occupies one page: descriptor, free-list array
  (\<open>bufctl\<close>), objects.  Descriptors live in a store from page addresses to \<open>slab\<close> records, object
  contents in a byte memory; the three list heads of a cache are lists of slab addresses, newest first.
  Pages come from the physical page allocator through its \<open>page_allocator\<close> interface.
\<close>

definition KERNEL_OFFSET :: nat where "KERNEL_OFFSET = 0xFFFFFF0000000000"
definition MM_VIRTUALIZE :: "nat \<Rightarrow> nat" where "MM_VIRTUALIZE a = a + KERNEL_OFFSET"
definition MM_PHYS :: "nat \<Rightarrow> nat" where "MM_PHYS a = a - KERNEL_OFFSET"

definition BUFCTL_END :: nat where "BUFCTL_END = 2 ^ 32 - 1"
definition SLAB_SIZE :: nat where "SLAB_SIZE = 40"
definition PREALLOC_COUNT :: nat where "PREALLOC_COUNT = 6"

record slab_cache =
  slabs_empty :: "nat list"
  slabs_partial :: "nat list"
  slabs_full :: "nat list"
  object_size :: nat
  objects_per_slab :: nat

record slab =
  sl_inuse :: nat
  sl_base :: nat
  sl_free :: nat
  sl_bufctl :: "nat list"

record slab_world =
  sw_mem :: "nat \<Rightarrow> slab option"
  sw_data :: "nat \<Rightarrow> byte"
  sw_phys :: phys

section \<open>Operations\<close>

definition slab_init_cache :: "nat \<Rightarrow> slab_cache" where
  "slab_init_cache osize =
    (let n = (MM_PAGE_SIZE - SLAB_SIZE) div osize;
         bufctl_array_size = n * 4
     in \<lparr> slabs_empty = [], slabs_partial = [], slabs_full = [], object_size = osize,
          objects_per_slab = n - (bufctl_array_size + osize - 1) div osize \<rparr>)"

definition slab_init_caches :: "slab_cache list" where
  "slab_init_caches = map (\<lambda>i. slab_init_cache (2 ^ (i + 4))) [0..<PREALLOC_COUNT]"

fun cache_find :: "(nat \<times> nat) list \<Rightarrow> nat \<Rightarrow> nat kern" where
  "cache_find [] sz = None"
| "cache_find ((csize, i) # cs) sz = (if csize < sz then cache_find cs sz else Some i)"

definition predefined_cache_sizes :: "(nat \<times> nat) list" where
  "predefined_cache_sizes = map (\<lambda>i. (2 ^ (i + 4), i)) [0..<PREALLOC_COUNT]"

definition slab_cache_get :: "nat \<Rightarrow> nat kern" where
  "slab_cache_get sz = cache_find predefined_cache_sizes sz"

definition slab_create :: "slab_cache \<Rightarrow> slab_world \<Rightarrow> (nat option \<times> slab_cache \<times> slab_world) kern" where
  "slab_create cp w = do {
     (pg, ph) \<leftarrow> mm_phys_alloc_page PU_KERNEL (sw_phys w);
     case pg of
       None \<Rightarrow> Some (None, cp, w\<lparr>sw_phys := ph\<rparr>)
     | Some page_phys \<Rightarrow>
         (let v = MM_VIRTUALIZE page_phys;
              n = objects_per_slab cp;
              sl = \<lparr> sl_inuse = 0,
                     sl_base = (v + SLAB_SIZE + 4 * n + 7) div 8 * 8,
                     sl_free = 0,
                     sl_bufctl = map Suc [0..<n - 1] @ [BUFCTL_END] \<rparr>
          in Some (Some v, cp\<lparr>slabs_empty := v # slabs_empty cp\<rparr>,
                   w\<lparr>sw_mem := (sw_mem w)(v \<mapsto> sl), sw_phys := ph\<rparr>))
   }"

text \<open>\<open>list_del\<close> takes an entry out of whichever list holds it.\<close>

definition slab_unlink :: "nat \<Rightarrow> slab_cache \<Rightarrow> slab_cache" where
  "slab_unlink v cp = cp\<lparr>slabs_empty := remove1 v (slabs_empty cp),
     slabs_partial := remove1 v (slabs_partial cp), slabs_full := remove1 v (slabs_full cp)\<rparr>"

definition slab_destroy :: "nat \<Rightarrow> slab_world \<Rightarrow> slab_world kern" where
  "slab_destroy v w = do {
     kassert (v mod 0x1000 = 0);
     ph \<leftarrow> mm_phys_free_page (MM_PHYS v) (sw_phys w);
     Some (w\<lparr>sw_mem := (sw_mem w)(v := None), sw_phys := ph\<rparr>)
   }"

definition slab_alloc_from :: "slab_cache \<Rightarrow> nat \<Rightarrow> slab_world \<Rightarrow> (nat option \<times> slab_cache \<times> slab_world) kern" where
  "slab_alloc_from cp v w = do {
     sl \<leftarrow> sw_mem w v;
     kassert (sl_free sl < length (sl_bufctl sl));
     let objp = sl_base sl + sl_free sl * object_size cp;
     let nf = sl_bufctl sl ! sl_free sl;
     let cp = (if nf = BUFCTL_END then (slab_unlink v cp)\<lparr>slabs_full := v # slabs_full (slab_unlink v cp)\<rparr> else cp);
     Some (Some objp, cp,
           w\<lparr>sw_mem := (sw_mem w)(v \<mapsto> sl\<lparr>sl_inuse := Suc (sl_inuse sl), sl_free := nf\<rparr>),
             sw_data := (\<lambda>x. if objp \<le> x \<and> x < objp + object_size cp then 0 else sw_data w x)\<rparr>)
   }"

partial_function (option) slab_calloc_int ::
  "slab_cache \<Rightarrow> slab_world \<Rightarrow> (nat option \<times> slab_cache \<times> slab_world) option" where
  "slab_calloc_int cp w =
    (case slabs_partial cp of
       entry # _ \<Rightarrow> slab_alloc_from cp entry w
     | [] \<Rightarrow>
         (case slabs_empty cp of
            entry # es \<Rightarrow> slab_alloc_from (cp\<lparr>slabs_empty := es, slabs_partial := [entry]\<rparr>) entry w
          | [] \<Rightarrow>
              (case slab_create cp w of
                 None \<Rightarrow> None
               | Some (r, cp', w') \<Rightarrow>
                   (case r of
                      None \<Rightarrow> Some (None, cp', w')
                    | Some _ \<Rightarrow> slab_calloc_int cp' w'))))"

definition slab_free_int :: "slab_cache \<Rightarrow> nat \<Rightarrow> slab_world \<Rightarrow> (slab_cache \<times> slab_world) kern" where
  "slab_free_int cp objp w = do {
     kassert (objp mod 0x1000 \<noteq> 0);
     let v = objp div MM_PAGE_SIZE * MM_PAGE_SIZE;
     sl \<leftarrow> sw_mem w v;
     let obj_number = (objp - sl_base sl) div object_size cp;
     kassert (obj_number < length (sl_bufctl sl));
     let inuse = sl_inuse sl;
     let sl = sl\<lparr>sl_bufctl := (sl_bufctl sl)[obj_number := sl_free sl], sl_free := obj_number,
                 sl_inuse := (inuse + 2 ^ 64 - 1) mod 2 ^ 64\<rparr>;
     let w = w\<lparr>sw_mem := (sw_mem w)(v \<mapsto> sl)\<rparr>;
     if sl_inuse sl = 0 then do {
       w \<leftarrow> slab_destroy v w;
       Some (slab_unlink v cp, w)
     }
     else if inuse = objects_per_slab cp then
       Some ((slab_unlink v cp)\<lparr>slabs_partial := v # slabs_partial (slab_unlink v cp)\<rparr>, w)
     else Some (cp, w)
   }"

text \<open>Statistics: objects, bytes and pages in use.\<close>

fun slab_stat_list :: "(nat \<Rightarrow> bool) \<Rightarrow> nat \<Rightarrow> slab_world \<Rightarrow> nat list \<Rightarrow> nat \<times> nat \<times> nat \<Rightarrow> (nat \<times> nat \<times> nat) kern" where
  "slab_stat_list okp osize w [] st = Some st"
| "slab_stat_list okp osize w (v # vs) st = do {
     sl \<leftarrow> sw_mem w v;
     kassert (okp (sl_inuse sl));
     slab_stat_list okp osize w vs
       (case st of (objs, bytes, pages) \<Rightarrow> (objs + sl_inuse sl, bytes + sl_inuse sl * osize, Suc pages))
   }"

fun slab_stat :: "slab_cache list \<Rightarrow> slab_world \<Rightarrow> nat \<times> nat \<times> nat \<Rightarrow> (nat \<times> nat \<times> nat) kern" where
  "slab_stat [] w st = Some st"
| "slab_stat (cp # cps) w st = do {
     st \<leftarrow> slab_stat_list (\<lambda>u. u = objects_per_slab cp) (object_size cp) w (slabs_full cp) st;
     st \<leftarrow> slab_stat_list (\<lambda>u. u \<noteq> 0 \<and> u \<noteq> objects_per_slab cp) (object_size cp) w (slabs_partial cp) st;
     kassert (slabs_empty cp = []);
     slab_stat cps w st
   }"

section \<open>Geometry of a slab\<close>

definition slab_off :: "nat \<Rightarrow> nat" where
  "slab_off n = (SLAB_SIZE + 4 * n + 7) div 8 * 8"

definition cache_ok :: "slab_cache \<Rightarrow> bool" where
  "cache_ok cp \<longleftrightarrow> (\<exists>i < PREALLOC_COUNT. object_size cp = 2 ^ (i + 4)
      \<and> objects_per_slab cp = objects_per_slab (slab_init_cache (2 ^ (i + 4))))"

lemma prealloc_cases: "i < PREALLOC_COUNT \<longleftrightarrow> i \<in> {0, 1, 2, 3, 4, 5}"
  by (auto simp: PREALLOC_COUNT_def)

lemma slab_geometry_nums:
  assumes "cache_ok cp"
  shows "1 < objects_per_slab cp" "objects_per_slab cp < BUFCTL_END" "16 \<le> object_size cp"
    "SLAB_SIZE + 4 * objects_per_slab cp \<le> slab_off (objects_per_slab cp)"
    "slab_off (objects_per_slab cp) + objects_per_slab cp * object_size cp \<le> MM_PAGE_SIZE"
  using assms
  by (auto simp: cache_ok_def prealloc_cases slab_init_cache_def Let_def MM_PAGE_SIZE_def SLAB_SIZE_def
      slab_off_def BUFCTL_END_def)

lemma slab_base_eq:
  assumes "v mod 4096 = 0"
  shows "(v + SLAB_SIZE + 4 * n + 7) div 8 * 8 = v + slab_off n"
proof -
  obtain k where v: "v = 4096 * k" using assms by (auto simp: mod_eq_0_iff_dvd dvd_def)
  have "(8 * (512 * k) + (SLAB_SIZE + 4 * n + 7)) div 8 = 512 * k + (SLAB_SIZE + 4 * n + 7) div 8"
    by (rule div_mult_self4) simp
  thus ?thesis by (simp add: v slab_off_def algebra_simps)
qed

lemma slab_obj_page:
  assumes "cache_ok cp" "v mod 4096 = 0" "i < objects_per_slab cp"
  shows "(v + slab_off (objects_per_slab cp) + i * object_size cp) div MM_PAGE_SIZE * MM_PAGE_SIZE = v"
    and "(v + slab_off (objects_per_slab cp) + i * object_size cp) mod 0x1000 \<noteq> 0"
proof -
  note g = slab_geometry_nums [OF assms(1)]
  obtain k where v: "v = 4096 * k" using assms(2) by (auto simp: mod_eq_0_iff_dvd dvd_def)
  let ?x = "slab_off (objects_per_slab cp) + i * object_size cp"
  have "i * object_size cp + object_size cp \<le> objects_per_slab cp * object_size cp"
    using assms(3) mult_le_mono1 [of "Suc i" "objects_per_slab cp" "object_size cp"] by simp
  hence x: "0 < ?x" "?x < 4096" using g by (auto simp: MM_PAGE_SIZE_def SLAB_SIZE_def)
  show "(v + slab_off (objects_per_slab cp) + i * object_size cp) div MM_PAGE_SIZE * MM_PAGE_SIZE = v"
    and "(v + slab_off (objects_per_slab cp) + i * object_size cp) mod 0x1000 \<noteq> 0"
    using x by (simp_all add: v MM_PAGE_SIZE_def add.assoc)
qed

section \<open>The free list of a slab\<close>

fun bchain :: "nat list \<Rightarrow> nat \<Rightarrow> nat list \<Rightarrow> bool" where
  "bchain bc f [] \<longleftrightarrow> f = BUFCTL_END"
| "bchain bc f (i # is) \<longleftrightarrow> f = i \<and> i < length bc \<and> bchain bc (bc ! i) is"

lemma bchain_upd: "j \<notin> set is \<Longrightarrow> bchain (bc[j := x]) f is = bchain bc f is"
  by (induction "is" arbitrary: f) auto

lemma bchain_bound: "bchain bc f is \<Longrightarrow> i \<in> set is \<Longrightarrow> i < length bc"
  by (induction "is" arbitrary: f) auto

lemma bchain_nil: "bchain bc f is \<Longrightarrow> length bc \<le> BUFCTL_END \<Longrightarrow> (f = BUFCTL_END) = (is = [])"
  by (cases "is") auto

lemma bchain_upt:
  assumes "n \<le> length bc" "\<And>i. i < n - 1 \<Longrightarrow> bc ! i = Suc i" "0 < n \<Longrightarrow> bc ! (n - 1) = BUFCTL_END" "k < n"
  shows "bchain bc k [k..<n]"
  using assms(4)
proof (induction "n - k" arbitrary: k)
  case (Suc m)
  show ?case
  proof (cases "Suc k = n")
    case True
    hence "n - 1 = k" by simp
    thus ?thesis using assms(1,3) Suc.prems True by (simp add: upt_conv_Cons)
  next
    case False
    hence "bchain bc (Suc k) [Suc k..<n]" using Suc by simp
    thus ?thesis using False Suc.prems assms(1,2) by (simp add: upt_conv_Cons)
  qed
qed simp

definition slab_ok :: "slab_cache \<Rightarrow> nat \<Rightarrow> slab \<Rightarrow> nat list \<Rightarrow> bool" where
  "slab_ok cp v sl is \<longleftrightarrow>
    v mod 4096 = 0 \<and> sl_base sl = v + slab_off (objects_per_slab cp)
    \<and> length (sl_bufctl sl) = objects_per_slab cp \<and> bchain (sl_bufctl sl) (sl_free sl) is \<and> distinct is
    \<and> sl_inuse sl + length is = objects_per_slab cp"

lemma slab_ok_take:
  assumes "slab_ok cp v sl (i # is)"
  shows "slab_ok cp v (sl\<lparr>sl_inuse := Suc (sl_inuse sl), sl_free := sl_bufctl sl ! sl_free sl\<rparr>) is"
    and "sl_free sl = i" "i < objects_per_slab cp" "i \<notin> set is"
  using assms by (auto simp: slab_ok_def)

lemma slab_ok_put:
  assumes ok: "slab_ok cp v sl is" and i: "i < objects_per_slab cp" "i \<notin> set is"
    and u: "u + 1 = sl_inuse sl"
  shows "slab_ok cp v (sl\<lparr>sl_bufctl := (sl_bufctl sl)[i := sl_free sl], sl_free := i, sl_inuse := u\<rparr>) (i # is)"
  using assms by (auto simp: slab_ok_def bchain_upd)

lemma slab_ok_inuse:
  assumes "slab_ok cp v sl is" "i < objects_per_slab cp" "i \<notin> set is"
  shows "0 < sl_inuse sl"
proof -
  have "insert i (set is) \<subseteq> {..<objects_per_slab cp}"
    using assms(1,2) bchain_bound [of "sl_bufctl sl" "sl_free sl" "is"] by (auto simp: slab_ok_def)
  hence "card (insert i (set is)) \<le> objects_per_slab cp"
    using card_mono [of "{..<objects_per_slab cp}"] by simp
  hence "length is < objects_per_slab cp"
    using assms by (simp add: slab_ok_def distinct_card)
  thus ?thesis using assms(1) by (simp add: slab_ok_def)
qed

section \<open>The invariant of a cache\<close>

text \<open>
  \<open>F v\<close> is the free list of the slab at \<open>v\<close>.  Between calls no slab is empty, so the list of empty slabs is
  empty as well.
\<close>

definition slab_at :: "slab_cache \<Rightarrow> slab_world \<Rightarrow> (nat \<Rightarrow> nat list) \<Rightarrow> nat \<Rightarrow> bool" where
  "slab_at cp w F v \<longleftrightarrow>
    (\<exists>sl. sw_mem w v = Some sl \<and> slab_ok cp v sl (F v))
    \<and> KERNEL_OFFSET \<le> v \<and> MM_PHYS v \<in> owned_pages PU_KERNEL (sw_phys w)"

definition slab_pre :: "nat set \<Rightarrow> slab_cache \<Rightarrow> slab_world \<Rightarrow> (nat \<Rightarrow> nat list) \<Rightarrow> bool" where
  "slab_pre X cp w F \<longleftrightarrow>
    cache_ok cp \<and> slabs_empty cp = [] \<and> distinct (slabs_partial cp @ slabs_full cp) \<and> phys_inv (sw_phys w)
    \<and> (\<forall>v \<in> set (slabs_partial cp). F v \<noteq> [] \<and> (v \<in> X \<or> length (F v) < objects_per_slab cp))
    \<and> (\<forall>v \<in> set (slabs_full cp). F v = [])
    \<and> (\<forall>v \<in> set (slabs_partial cp @ slabs_full cp). slab_at cp w F v)"

definition slab_rep :: "slab_cache \<Rightarrow> slab_world \<Rightarrow> (nat \<Rightarrow> nat list) \<Rightarrow> bool" where
  "slab_rep cp w F \<longleftrightarrow> slab_pre {} cp w F"

definition slab_idx :: "slab_cache \<Rightarrow> (nat \<Rightarrow> nat list) \<Rightarrow> (nat \<times> nat) set" where
  "slab_idx cp F =
    {(v, i). v \<in> set (slabs_partial cp @ slabs_full cp) \<and> i < objects_per_slab cp \<and> i \<notin> set (F v)}"

definition slab_objs :: "slab_cache \<Rightarrow> (nat \<Rightarrow> nat list) \<Rightarrow> (nat \<times> nat) set" where
  "slab_objs cp F =
    (\<lambda>(v, i). (v + slab_off (objects_per_slab cp) + i * object_size cp, object_size cp)) ` slab_idx cp F"

lemma slab_obj_inj:
  assumes c: "cache_ok cp" and "v mod 4096 = 0" "v' mod 4096 = 0" "i < objects_per_slab cp" "j < objects_per_slab cp"
    and eq: "v + slab_off (objects_per_slab cp) + i * object_size cp = v' + slab_off (objects_per_slab cp) + j * object_size cp"
  shows "v = v' \<and> i = j"
proof -
  have "v = v'" using slab_obj_page(1) [OF c assms(2,4)] slab_obj_page(1) [OF c assms(3,5)] eq by metis
  moreover have "0 < object_size cp" using slab_geometry_nums(3) [OF c] by simp
  ultimately show ?thesis using eq by simp
qed

lemma page_gap:
  assumes "v < v'" "v mod 4096 = 0" "v' mod 4096 = 0"
  shows "v + 4096 \<le> (v'::nat)"
proof -
  obtain k k' where "v = 4096 * k" "v' = 4096 * k'" using assms(2,3) by (auto simp: mod_eq_0_iff_dvd dvd_def)
  thus ?thesis using assms(1) by simp
qed

lemma slab_obj_apart:
  assumes c: "cache_ok cp" and "v mod 4096 = 0" "v' mod 4096 = 0" "i < objects_per_slab cp" "j < objects_per_slab cp"
    and ne: "(v, i) \<noteq> (v', j)"
  shows "apart (v + slab_off (objects_per_slab cp) + i * object_size cp, object_size cp)
               (v' + slab_off (objects_per_slab cp) + j * object_size cp, object_size cp)"
proof -
  note g = slab_geometry_nums [OF c]
  have in_page: "k * object_size cp + object_size cp \<le> objects_per_slab cp * object_size cp"
    if "k < objects_per_slab cp" for k
    using that mult_le_mono1 [of "Suc k" "objects_per_slab cp" "object_size cp"]
    by (simp only: mult_Suc Suc_le_eq add.commute)
  have fit: "slab_off (objects_per_slab cp) + k * object_size cp + object_size cp \<le> 4096"
    if "k < objects_per_slab cp" for k
    using in_page [OF that] g(5) unfolding MM_PAGE_SIZE_def by linarith
  have "v = v' \<and> i < j \<or> v = v' \<and> j < i \<or> v < v' \<or> v' < v" 
    using ne by (cases v v' rule: linorder_cases; cases i j rule: linorder_cases) simp_all
  then consider "v = v'" "i < j" | "v = v'" "j < i" | "v < v'" | "v' < v" by blast
  thus ?thesis
  proof cases
    case 1
    hence "i * object_size cp + object_size cp \<le> j * object_size cp"
      using mult_le_mono1 [of "Suc i" j "object_size cp"] by (simp only: mult_Suc Suc_le_eq add.commute)
    thus ?thesis using 1 g(3) unfolding apart_def fst_conv snd_conv by linarith
  next
    case 2
    hence "j * object_size cp + object_size cp \<le> i * object_size cp"
      using mult_le_mono1 [of "Suc j" i "object_size cp"] by (simp only: mult_Suc Suc_le_eq add.commute)
    thus ?thesis using 2 g(3) unfolding apart_def fst_conv snd_conv by linarith
  next
    case 3
    have "v + 4096 \<le> v'" by (rule page_gap [OF 3 assms(2,3)])
    thus ?thesis using fit [OF assms(4)] g(3) unfolding apart_def fst_conv snd_conv by linarith
  next
    case 4
    have "v' + 4096 \<le> v" by (rule page_gap [OF 4 assms(3,2)])
    thus ?thesis using fit [OF assms(5)] g(3) unfolding apart_def fst_conv snd_conv by linarith
  qed
qed

lemma slab_ok_cong: "objects_per_slab cp' = objects_per_slab cp \<Longrightarrow> slab_ok cp' = slab_ok cp"
  by (intro ext) (simp add: slab_ok_def)

lemma slab_at_cong:
  "objects_per_slab cp' = objects_per_slab cp \<Longrightarrow> sw_mem w' v = sw_mem w v \<Longrightarrow> F' v = F v \<Longrightarrow>
   owned_pages PU_KERNEL (sw_phys w) \<subseteq> owned_pages PU_KERNEL (sw_phys w') \<or> MM_PHYS v \<in> owned_pages PU_KERNEL (sw_phys w') \<Longrightarrow>
   slab_at cp w F v \<Longrightarrow> slab_at cp' w' F' v"
  using slab_ok_cong [of cp' cp] by (auto simp: slab_at_def)

lemma cache_ok_cong:
  "object_size cp' = object_size cp \<Longrightarrow> objects_per_slab cp' = objects_per_slab cp \<Longrightarrow> cache_ok cp' = cache_ok cp"
  by (simp add: cache_ok_def)

lemma slab_unlink_simps [simp]:
  "object_size (slab_unlink v cp) = object_size cp" "objects_per_slab (slab_unlink v cp) = objects_per_slab cp"
  "slabs_empty (slab_unlink v cp) = remove1 v (slabs_empty cp)"
  "slabs_partial (slab_unlink v cp) = remove1 v (slabs_partial cp)"
  "slabs_full (slab_unlink v cp) = remove1 v (slabs_full cp)"
  by (simp_all add: slab_unlink_def)

lemma slab_objs_take:
  assumes "set (slabs_partial cp' @ slabs_full cp') = set (slabs_partial cp @ slabs_full cp)"
    and "object_size cp' = object_size cp" "objects_per_slab cp' = objects_per_slab cp"
    and "v \<in> set (slabs_partial cp @ slabs_full cp)" "F v = i # is" "i < objects_per_slab cp" "i \<notin> set is"
  shows "slab_objs cp' (F(v := is)) =
    insert (v + slab_off (objects_per_slab cp) + i * object_size cp, object_size cp) (slab_objs cp F)"
proof -
  have "slab_idx cp' (F(v := is)) = insert (v, i) (slab_idx cp F)"
    unfolding slab_idx_def assms(1-3) using assms(4-7) by (auto split: if_splits)
  thus ?thesis by (simp add: slab_objs_def assms(2,3))
qed

lemma slab_alloc_from_ok:
  assumes pre: "slab_pre {v} cp w F" and v: "v \<in> set (slabs_partial cp)" and F: "F v = i # is"
  shows "\<exists>cp' w'. slab_alloc_from cp v w = Some (Some (v + slab_off (objects_per_slab cp) + i * object_size cp), cp', w')
    \<and> slab_rep cp' w' (F(v := is)) \<and> object_size cp' = object_size cp \<and> i < objects_per_slab cp
    \<and> slab_objs cp' (F(v := is)) =
        insert (v + slab_off (objects_per_slab cp) + i * object_size cp, object_size cp) (slab_objs cp F)
    \<and> (\<forall>x. sw_data w' x = (if x \<in> {v + slab_off (objects_per_slab cp) + i * object_size cp..<
            v + slab_off (objects_per_slab cp) + i * object_size cp + object_size cp} then 0 else sw_data w x))"
proof -
  have c: "cache_ok cp" and at: "\<And>u. u \<in> set (slabs_partial cp @ slabs_full cp) \<Longrightarrow> slab_at cp w F u"
    and dist: "distinct (slabs_partial cp @ slabs_full cp)"
    using pre by (simp_all add: slab_pre_def)
  obtain sl where sl: "sw_mem w v = Some sl" "slab_ok cp v sl (i # is)" using at [of v] v F by (auto simp: slab_at_def)
  note tk = slab_ok_take [OF sl(2)]
  define sl' where "sl' = sl\<lparr>sl_inuse := Suc (sl_inuse sl), sl_free := sl_bufctl sl ! sl_free sl\<rparr>"
  define nf where "nf = sl_bufctl sl ! sl_free sl"
  define objp where "objp = v + slab_off (objects_per_slab cp) + i * object_size cp"
  define cp' where "cp' = (if nf = BUFCTL_END then (slab_unlink v cp)\<lparr>slabs_full := v # slabs_full (slab_unlink v cp)\<rparr> else cp)"
  define w' where "w' = w\<lparr>sw_mem := (sw_mem w)(v \<mapsto> sl'),
             sw_data := (\<lambda>x. if objp \<le> x \<and> x < objp + object_size cp' then 0 else sw_data w x)\<rparr>"
  have cp's: "object_size cp' = object_size cp" "objects_per_slab cp' = objects_per_slab cp" by (simp_all add: cp'_def)
  have run: "slab_alloc_from cp v w = Some (Some objp, cp', w')"
    using sl tk(2,3) unfolding slab_alloc_from_def
    by (simp add: Let_def cp'_def w'_def objp_def nf_def sl'_def slab_ok_def)
  have "nf = BUFCTL_END \<longleftrightarrow> is = []"
    using tk(1) slab_geometry_nums(2) [OF c] bchain_nil [of "sl_bufctl sl" nf "is"] by (simp add: slab_ok_def nf_def)
  hence full: "cp' = (if is = [] then (slab_unlink v cp)\<lparr>slabs_full := v # slabs_full (slab_unlink v cp)\<rparr> else cp)"
    by (simp add: cp'_def)
  have vf: "v \<notin> set (slabs_full cp)" using dist v by auto
  have sets: "set (slabs_partial cp') = (if is = [] then set (slabs_partial cp) - {v} else set (slabs_partial cp))"
    "set (slabs_full cp') = (if is = [] then insert v (set (slabs_full cp)) else set (slabs_full cp))"
    "slabs_empty cp' = []" "distinct (slabs_partial cp' @ slabs_full cp')"
    using dist vf pre by (auto simp: full remove1_idem slab_pre_def)
  have same: "set (slabs_partial cp' @ slabs_full cp') = set (slabs_partial cp @ slabs_full cp)"
    using sets v by auto
  have atv: "slab_at cp' w' (F(v := is)) v"
    using at [of v] v tk(1) slab_ok_cong [OF cp's(2)] by (simp add: slab_at_def w'_def sl'_def)
  have "slab_at cp' w' (F(v := is)) u" if u: "u \<in> set (slabs_partial cp' @ slabs_full cp')" for u
  proof (cases "u = v")
    case False
    thus ?thesis using at [of u] u same by (intro slab_at_cong [OF cp's(2), of w' u w _ F]) (auto simp: w'_def)
  qed (use atv in simp)
  moreover have "length is < objects_per_slab cp" using sl(2) by (simp add: slab_ok_def)
  ultimately have rep: "slab_rep cp' w' (F(v := is))"
    using pre sets cp's vf cache_ok_cong [OF cp's]
    by (auto simp: slab_rep_def slab_pre_def w'_def split: if_splits)
  show ?thesis
    using run rep cp's(1) tk(3) slab_objs_take [of cp' cp v F i "is"] same cp's v F tk(4)
    unfolding objp_def [symmetric]
    by (intro exI [of _ cp'] exI [of _ w']) (auto simp: w'_def objp_def)
qed

lemma slab_create_ok:
  assumes rep: "slab_rep cp w F" and e: "slabs_partial cp = []"
  shows "slab_create cp w = Some (None, cp, w) \<and> free_set (sw_phys w) = {} \<or>
    (\<exists>v w'. slab_create cp w = Some (Some v, cp\<lparr>slabs_empty := [v]\<rparr>, w')
       \<and> slab_pre {v} (cp\<lparr>slabs_empty := [], slabs_partial := [v]\<rparr>) w' (F(v := [0..<objects_per_slab cp]))
       \<and> v \<notin> set (slabs_full cp) \<and> sw_data w' = sw_data w)"
proof -
  let ?n = "objects_per_slab cp"
  have pi: "phys_inv (sw_phys w)" and c: "cache_ok cp" and em: "slabs_empty cp = []"
    and dist: "distinct (slabs_full cp)" and fe: "\<forall>v \<in> set (slabs_full cp). F v = []"
    and at: "\<And>u. u \<in> set (slabs_full cp) \<Longrightarrow> slab_at cp w F u"
    using rep by (auto simp: slab_rep_def slab_pre_def)
  obtain r ph where r: "mm_phys_alloc_page PU_KERNEL (sw_phys w) = Some (r, ph)"
    using kernel_pages.get_total [OF pi] by blast
  show ?thesis
  proof (cases r)
    case None
    hence "ph = sw_phys w" "free_set (sw_phys w) = {}"
      using mm_phys_alloc_page_ok [OF pi, of PU_KERNEL] r by auto
    thus ?thesis using r None by (simp add: slab_create_def)
  next
    case (Some a)
    hence a: "phys_inv ph" "a \<notin> owned_pages PU_KERNEL (sw_phys w)" "a mod 4096 = 0"
      "owned_pages PU_KERNEL ph = insert a (owned_pages PU_KERNEL (sw_phys w))"
      using kernel_pages.get_some [OF pi, of a ph] r by auto
    define v where "v = MM_VIRTUALIZE a"
    define sl where "sl = \<lparr> sl_inuse = 0, sl_base = (v + SLAB_SIZE + 4 * ?n + 7) div 8 * 8, sl_free = 0,
                     sl_bufctl = map Suc [0..<?n - 1] @ [BUFCTL_END] \<rparr>"
    define w' where "w' = w\<lparr>sw_mem := (sw_mem w)(v \<mapsto> sl), sw_phys := ph\<rparr>"
    have run: "slab_create cp w = Some (Some v, cp\<lparr>slabs_empty := [v]\<rparr>, w')"
      using r Some em by (simp add: slab_create_def Let_def v_def sl_def w'_def)
    have n: "1 < ?n" using slab_geometry_nums(1) [OF c] .
    have v: "v mod 4096 = 0" "KERNEL_OFFSET \<le> v" "MM_PHYS v = a"
      using a(3) by (simp_all add: v_def MM_VIRTUALIZE_def MM_PHYS_def KERNEL_OFFSET_def mod_add_eq [symmetric])
    have new: "v \<notin> set (slabs_full cp)" using at a(2) v(3) by (auto simp: slab_at_def)
    have "bchain (sl_bufctl sl) 0 [0..<?n]"
    proof (rule bchain_upt)
      show "sl_bufctl sl ! i = Suc i" if "i < ?n - 1" for i using that by (simp add: sl_def nth_append)
    qed (use n in \<open>auto simp: sl_def nth_append\<close>)
    hence "slab_ok cp v sl [0..<?n]" using n v(1) slab_base_eq [OF v(1)] by (simp add: slab_ok_def sl_def)
    hence atv: "slab_at (cp\<lparr>slabs_empty := [], slabs_partial := [v]\<rparr>) w' (F(v := [0..<?n])) v"
      using v a(4) slab_ok_cong [of "cp\<lparr>slabs_empty := [], slabs_partial := [v]\<rparr>" cp] by (simp add: slab_at_def w'_def)
    have "slab_at (cp\<lparr>slabs_empty := [], slabs_partial := [v]\<rparr>) w' (F(v := [0..<?n])) u" if u: "u \<in> set (slabs_full cp)" for u
      using u new at [OF u] a(4) by (intro slab_at_cong [of _ cp w' u w _ F]) (auto simp: w'_def)
    hence "slab_pre {v} (cp\<lparr>slabs_empty := [], slabs_partial := [v]\<rparr>) w' (F(v := [0..<?n]))"
      using atv c dist new fe a(1) n cache_ok_cong [of "cp\<lparr>slabs_empty := [], slabs_partial := [v]\<rparr>" cp]
      by (auto simp: slab_pre_def w'_def)
    thus ?thesis using run new by (auto simp: w'_def)
  qed
qed

text \<open>What \<open>slab_calloc_int\<close> does, for a cache that represents a set of objects.\<close>

definition slab_objects :: "nat \<Rightarrow> slab_cache \<times> slab_world \<Rightarrow> (nat \<times> nat) set \<Rightarrow> bool" where
  "slab_objects osize st L \<longleftrightarrow>
    (\<exists>F. slab_rep (fst st) (snd st) F \<and> slab_objs (fst st) F = L \<and> object_size (fst st) = osize)"

lemma slab_objs_apart:
  assumes c: "cache_ok cp" and pg: "\<And>u. u \<in> set (slabs_partial cp @ slabs_full cp) \<Longrightarrow> u mod 4096 = 0"
    and v: "v \<in> set (slabs_partial cp @ slabs_full cp)" "i < objects_per_slab cp" "i \<in> set (F v)"
  shows "\<forall>y \<in> slab_objs cp F. apart (v + slab_off (objects_per_slab cp) + i * object_size cp, object_size cp) y"
proof
  fix y assume "y \<in> slab_objs cp F"
  then obtain u j where u: "u \<in> set (slabs_partial cp @ slabs_full cp)" "j < objects_per_slab cp" "j \<notin> set (F u)"
    and y: "y = (u + slab_off (objects_per_slab cp) + j * object_size cp, object_size cp)"
    by (auto simp: slab_objs_def slab_idx_def)
  have "(v, i) \<noteq> (u, j)" using u(3) v(3) by auto
  thus "apart (v + slab_off (objects_per_slab cp) + i * object_size cp, object_size cp) y"
    unfolding y by (rule slab_obj_apart [OF c pg [OF v(1)] pg [OF u(1)] v(2) u(2)])
qed

lemma slab_pre_pages: "slab_pre X cp w F \<Longrightarrow> u \<in> set (slabs_partial cp @ slabs_full cp) \<Longrightarrow> u mod 4096 = 0"
  by (auto simp: slab_pre_def slab_at_def slab_ok_def simp flip: mod_eq_0_iff_dvd)

definition zeroed :: "(nat \<Rightarrow> byte) \<Rightarrow> (nat \<Rightarrow> byte) \<Rightarrow> nat \<Rightarrow> nat \<Rightarrow> bool" where
  "zeroed d d' p n \<longleftrightarrow> (\<forall>x. d' x = (if x \<in> {p..<p + n} then 0 else d x))"

lemma slab_take_objects:
  assumes pre: "slab_pre {v} cp w F" and v: "v \<in> set (slabs_partial cp)"
  shows "\<exists>p cp' w'. slab_alloc_from cp v w = Some (Some p, cp', w')
    \<and> slab_objects (object_size cp) (cp', w') (insert (p, object_size cp) (slab_objs cp F))
    \<and> (\<forall>y \<in> slab_objs cp F. apart (p, object_size cp) y) \<and> zeroed (sw_data w) (sw_data w') p (object_size cp)"
proof -
  have "F v \<noteq> []" and c: "cache_ok cp" using pre v by (auto simp: slab_pre_def)
  then obtain i "is" where F: "F v = i # is" by (cases "F v") auto
  let ?p = "v + slab_off (objects_per_slab cp) + i * object_size cp"
  obtain cp' w' where run: "slab_alloc_from cp v w = Some (Some ?p, cp', w')" "slab_rep cp' w' (F(v := is))"
    "object_size cp' = object_size cp" "i < objects_per_slab cp"
    "slab_objs cp' (F(v := is)) = insert (?p, object_size cp) (slab_objs cp F)"
    "\<forall>x. sw_data w' x = (if x \<in> {?p..<?p + object_size cp} then 0 else sw_data w x)"
    using slab_alloc_from_ok [OF pre v F] by blast
  have "\<forall>y \<in> slab_objs cp F. apart (?p, object_size cp) y"
    using slab_objs_apart [OF c slab_pre_pages [OF pre], of v i F] v run(4) F by simp
  thus ?thesis using run unfolding slab_objects_def zeroed_def by fastforce
qed

lemma slab_calloc_ok:
  assumes rep: "slab_rep cp w F"
  shows "slab_calloc_int cp w = Some (None, cp, w) \<and> slabs_partial cp = [] \<and> free_set (sw_phys w) = {} \<or>
    (\<exists>p cp' w'. slab_calloc_int cp w = Some (Some p, cp', w')
       \<and> slab_objects (object_size cp) (cp', w') (insert (p, object_size cp) (slab_objs cp F))
       \<and> (\<forall>y \<in> slab_objs cp F. apart (p, object_size cp) y) \<and> zeroed (sw_data w) (sw_data w') p (object_size cp))"
proof (cases "slabs_partial cp")
  case (Cons v vs)
  have "slab_pre {v} cp w F" using rep by (auto simp: slab_rep_def slab_pre_def)
  from slab_take_objects [OF this, of] show ?thesis
    using Cons by (simp add: slab_calloc_int.simps)
next
  case Nil
  have em: "slabs_empty cp = []" using rep by (simp add: slab_rep_def slab_pre_def)
  show ?thesis
  proof (cases "slab_create cp w = Some (None, cp, w) \<and> free_set (sw_phys w) = {}")
    case True
    thus ?thesis using Nil em by (simp add: slab_calloc_int.simps)
  next
    case False
    let ?cp = "\<lambda>v. cp\<lparr>slabs_empty := [], slabs_partial := [v]\<rparr>"
    obtain v w' where cr: "slab_create cp w = Some (Some v, cp\<lparr>slabs_empty := [v]\<rparr>, w')"
      "slab_pre {v} (?cp v) w' (F(v := [0..<objects_per_slab cp]))" "v \<notin> set (slabs_full cp)" "sw_data w' = sw_data w"
      using slab_create_ok [OF rep Nil] False by blast
    have "slab_calloc_int cp w = slab_calloc_int (cp\<lparr>slabs_empty := [v]\<rparr>) w'"
      using Nil em cr(1) by (subst slab_calloc_int.simps) simp
    also have "\<dots> = slab_alloc_from (?cp v) v w'" using Nil by (subst slab_calloc_int.simps) simp
    finally have run: "slab_calloc_int cp w = slab_alloc_from (?cp v) v w'" .
    have "slab_idx (?cp v) (F(v := [0..<objects_per_slab cp])) = slab_idx cp F"
      using Nil cr(3) by (auto simp: slab_idx_def split: if_splits)
    hence "slab_objs (?cp v) (F(v := [0..<objects_per_slab cp])) = slab_objs cp F" by (simp add: slab_objs_def)
    thus ?thesis using slab_take_objects [OF cr(2)] cr(4) run by simp
  qed
qed

section \<open>Release of an object\<close>

lemma slab_repI:
  assumes "cache_ok cp" "slabs_empty cp = []" "distinct (slabs_partial cp @ slabs_full cp)" "phys_inv (sw_phys w)"
    and "\<And>u. u \<in> set (slabs_partial cp) \<Longrightarrow> F u \<noteq> [] \<and> length (F u) < objects_per_slab cp"
    and "\<And>u. u \<in> set (slabs_full cp) \<Longrightarrow> F u = []"
    and "\<And>u. u \<in> set (slabs_partial cp) \<union> set (slabs_full cp) \<Longrightarrow> slab_at cp w F u"
  shows "slab_rep cp w F"
  using assms by (simp add: slab_rep_def slab_pre_def)

lemma slab_objs_put:
  assumes c: "cache_ok cp" and pg: "\<And>u. u \<in> set (slabs_partial cp @ slabs_full cp) \<Longrightarrow> u mod 4096 = 0"
    and sz: "object_size cp' = object_size cp" "objects_per_slab cp' = objects_per_slab cp"
    and idx: "slab_idx cp' F' = slab_idx cp F - {(v, i)}" "(v, i) \<in> slab_idx cp F"
  shows "slab_objs cp' F' = slab_objs cp F - {(v + slab_off (objects_per_slab cp) + i * object_size cp, object_size cp)}"
proof -
  let ?g = "\<lambda>(v, i). (v + slab_off (objects_per_slab cp) + i * object_size cp, object_size cp)"
  have "inj_on ?g (slab_idx cp F)"
  proof (rule inj_onI)
    fix x y assume xy: "x \<in> slab_idx cp F" "y \<in> slab_idx cp F" "?g x = ?g y"
    obtain u j u' j' where "x = (u, j)" "y = (u', j')" by (cases x; cases y)
    thus "x = y" using slab_obj_inj [OF c pg pg, of u u' j j'] xy by (simp add: slab_idx_def)
  qed
  hence "?g ` (slab_idx cp F - {(v, i)}) = ?g ` slab_idx cp F - ?g ` {(v, i)}"
    using idx(2) by (intro inj_on_image_set_diff [of ?g "slab_idx cp F"]) auto
  thus ?thesis by (simp add: slab_objs_def idx(1) sz)
qed

lemma slab_last_object:
  assumes ok: "slab_ok cp v sl is" and i: "i < objects_per_slab cp" "i \<notin> set is" and one: "sl_inuse sl = 1"
  shows "j < objects_per_slab cp \<and> j \<notin> set is \<longleftrightarrow> j = i"
proof -
  have sub: "set is \<subseteq> {..<objects_per_slab cp} - {i}"
    using ok i bchain_bound [of "sl_bufctl sl" "sl_free sl" "is"] by (auto simp: slab_ok_def)
  have "card (set is) = card ({..<objects_per_slab cp} - {i})"
    using ok one i by (auto simp: slab_ok_def distinct_card)
  hence "set is = {..<objects_per_slab cp} - {i}" using sub by (intro card_subset_eq) auto
  thus ?thesis using i by auto
qed

lemma slab_free_ok:
  assumes rep: "slab_rep cp w F" and vi: "(v, i) \<in> slab_idx cp F"
  shows "\<exists>cp' w' F'. slab_free_int cp (v + slab_off (objects_per_slab cp) + i * object_size cp) w = Some (cp', w')
    \<and> slab_rep cp' w' F' \<and> object_size cp' = object_size cp \<and> objects_per_slab cp' = objects_per_slab cp
    \<and> slab_idx cp' F' = slab_idx cp F - {(v, i)}"
proof -
  let ?p = "v + slab_off (objects_per_slab cp) + i * object_size cp"
  let ?n = "objects_per_slab cp"
  have v: "v \<in> set (slabs_partial cp @ slabs_full cp)" "i < ?n" "i \<notin> set (F v)" using vi by (auto simp: slab_idx_def)
  have c: "cache_ok cp" and at: "\<And>u. u \<in> set (slabs_partial cp @ slabs_full cp) \<Longrightarrow> slab_at cp w F u"
    and dist: "distinct (slabs_partial cp @ slabs_full cp)" and pi: "phys_inv (sw_phys w)" and em: "slabs_empty cp = []"
    and part: "\<And>u. u \<in> set (slabs_partial cp) \<Longrightarrow> F u \<noteq> [] \<and> length (F u) < ?n"
    and full: "\<And>u. u \<in> set (slabs_full cp) \<Longrightarrow> F u = []"
    using rep by (auto simp: slab_rep_def slab_pre_def)
  note g = slab_geometry_nums [OF c]
  obtain sl where sl: "sw_mem w v = Some sl" "slab_ok cp v sl (F v)" using at [OF v(1)] by (auto simp: slab_at_def)
  have vp: "KERNEL_OFFSET \<le> v" "MM_PHYS v \<in> owned_pages PU_KERNEL (sw_phys w)" using at [OF v(1)] by (auto simp: slab_at_def)
  have pg: "v mod 4096 = 0" "sl_base sl = v + slab_off ?n" "length (sl_bufctl sl) = ?n" "sl_inuse sl + length (F v) = ?n"
    using sl(2) by (simp_all add: slab_ok_def)
  have num: "(?p - sl_base sl) div object_size cp = i" using pg(2) g(3) by simp
  have pos: "0 < sl_inuse sl" by (rule slab_ok_inuse [OF sl(2) v(2,3)])
  have "?n < 2 ^ 64" using g(2) by (simp add: BUFCTL_END_def)
  hence dec: "(sl_inuse sl + 2 ^ 64 - 1) mod 2 ^ 64 = sl_inuse sl - 1"
    using pos pg(4) mod_add_self2 [of "sl_inuse sl - 1" "2 ^ 64"] by simp
  define sl' where "sl' = sl\<lparr>sl_bufctl := (sl_bufctl sl)[i := sl_free sl], sl_free := i, sl_inuse := sl_inuse sl - 1\<rparr>"
  define w1 where "w1 = w\<lparr>sw_mem := (sw_mem w)(v \<mapsto> sl')\<rparr>"
  have body: "slab_free_int cp ?p w =
    (if sl_inuse sl - 1 = 0 then do { w \<leftarrow> slab_destroy v w1; Some (slab_unlink v cp, w) }
     else if sl_inuse sl = ?n then Some ((slab_unlink v cp)\<lparr>slabs_partial := v # slabs_partial (slab_unlink v cp)\<rparr>, w1)
     else Some (cp, w1))"
    unfolding slab_free_int_def Let_def slab_obj_page(1) [OF c pg(1) v(2)] sl(1) Option.bind.simps(2) num dec w1_def sl'_def
    using slab_obj_page(2) [OF c pg(1) v(2)] v(2) pg(3) by simp
  have ok': "slab_ok cp v sl' (i # F v)"
    unfolding sl'_def by (rule slab_ok_put [OF sl(2) v(2,3)]) (use pos in simp)
  have others: "slab_at cp' w1 (F(v := x)) u"
    if "u \<in> set (slabs_partial cp @ slabs_full cp)" "u \<noteq> v" "objects_per_slab cp' = ?n" for u x cp'
    using that at by (intro slab_at_cong [of cp' cp w1 u w _ F]) (auto simp: w1_def)
  have self: "slab_at cp' w1 (F(v := i # F v)) v" if "objects_per_slab cp' = ?n" for cp'
    using vp ok' slab_ok_cong [of cp' cp] that by (simp add: slab_at_def w1_def)
  consider (last) "sl_inuse sl = 1" | (was_full) "1 < sl_inuse sl" "sl_inuse sl = ?n"
    | (partial) "1 < sl_inuse sl" "sl_inuse sl < ?n"
    using pos pg(4) by linarith
  thus ?thesis
  proof cases
    case last
    obtain ph where ph: "mm_phys_free_page (MM_PHYS v) (sw_phys w) = Some ph" "phys_inv ph"
      "owned_pages PU_KERNEL ph = owned_pages PU_KERNEL (sw_phys w) - {MM_PHYS v}"
      using kernel_pages.put_ok [OF pi vp(2)] by blast
    define w2 where "w2 = w1\<lparr>sw_mem := (sw_mem w1)(v := None), sw_phys := ph\<rparr>"
    have run: "slab_free_int cp ?p w = Some (slab_unlink v cp, w2)"
      using last body ph(1) pg(1) by (simp add: slab_destroy_def w1_def w2_def)
    have sets: "set (slabs_partial (slab_unlink v cp)) = set (slabs_partial cp) - {v}"
      "set (slabs_full (slab_unlink v cp)) = set (slabs_full cp) - {v}"
      using dist by simp_all
    have "slab_at (slab_unlink v cp) w2 F u" if u: "u \<in> set (slabs_partial cp @ slabs_full cp)" "u \<noteq> v" for u
    proof -
      have "KERNEL_OFFSET \<le> u" "MM_PHYS u \<in> owned_pages PU_KERNEL (sw_phys w)" using at [OF u(1)] by (auto simp: slab_at_def)
      hence "MM_PHYS u \<in> owned_pages PU_KERNEL ph" using u(2) vp(1) ph(3) by (auto simp: MM_PHYS_def)
      thus ?thesis using u at [OF u(1)]
        by (intro slab_at_cong [of _ cp w2 u w _ F]) (auto simp: w2_def w1_def)
    qed
    hence "slab_rep (slab_unlink v cp) w2 F"
      using c em dist part full ph(2) sets
      by (intro slab_repI) (auto simp: cache_ok_def w2_def distinct_remove1)
    moreover have "slab_idx (slab_unlink v cp) F = slab_idx cp F - {(v, i)}"
      using slab_last_object [OF sl(2) v(2,3) last] sets by (auto simp: slab_idx_def)
    ultimately show ?thesis using run by (intro exI [of _ "slab_unlink v cp"] exI [of _ w2] exI [of _ F]) simp
  next
    case was_full
    let ?cp = "(slab_unlink v cp)\<lparr>slabs_partial := v # slabs_partial (slab_unlink v cp)\<rparr>"
    have run: "slab_free_int cp ?p w = Some (?cp, w1)" using was_full body by simp
    have Fv: "F v = []" using was_full(2) pg(4) by simp
    hence vs: "v \<in> set (slabs_full cp)" "v \<notin> set (slabs_partial cp)" using v(1) part dist by auto
    have sets: "set (slabs_partial ?cp) = insert v (set (slabs_partial cp))" "set (slabs_full ?cp) = set (slabs_full cp) - {v}"
      "slabs_empty ?cp = []" "distinct (slabs_partial ?cp @ slabs_full ?cp)"
      using dist vs em by (auto simp: remove1_idem)
    have "slab_rep ?cp w1 (F(v := i # F v))"
    proof (rule slab_repI)
      show "cache_ok ?cp" using c by (simp add: cache_ok_def)
      show "phys_inv (sw_phys w1)" using pi by (simp add: w1_def)
      show "(F(v := i # F v)) u \<noteq> [] \<and> length ((F(v := i # F v)) u) < objects_per_slab ?cp"
        if "u \<in> set (slabs_partial ?cp)" for u
        using that part [of u] Fv g(1) vs(2) by (auto simp: remove1_idem)
      show "(F(v := i # F v)) u = []" if "u \<in> set (slabs_full ?cp)" for u
        using that full [of u] sets(2) by auto
      show "slab_at ?cp w1 (F(v := i # F v)) u" if u: "u \<in> set (slabs_partial ?cp) \<union> set (slabs_full ?cp)" for u
      proof (cases "u = v")
        case False
        hence "u \<in> set (slabs_partial cp @ slabs_full cp)" using u sets(1,2) by auto
        thus ?thesis using others [of u ?cp "i # F v"] False by simp
      qed (use self [of ?cp] in simp)
    qed (use sets in simp_all)
    moreover have "slab_idx ?cp (F(v := i # F v)) = slab_idx cp F - {(v, i)}"
    proof -
      have S: "set (slabs_partial ?cp @ slabs_full ?cp) = set (slabs_partial cp @ slabs_full cp)"
        using sets(1,2) vs by (simp only: set_append) blast
      show ?thesis unfolding slab_idx_def S by (auto split: if_splits)
    qed
    ultimately show ?thesis using run by (intro exI [of _ ?cp] exI [of _ w1] exI [of _ "F(v := i # F v)"]) simp
  next
    case partial
    have run: "slab_free_int cp ?p w = Some (cp, w1)" using partial body by simp
    have vs: "v \<in> set (slabs_partial cp)" "v \<notin> set (slabs_full cp)" using v(1) full partial pg(4) by auto
    have "slab_rep cp w1 (F(v := i # F v))"
    proof (rule slab_repI)
      show "phys_inv (sw_phys w1)" using pi by (simp add: w1_def)
      show "(F(v := i # F v)) u \<noteq> [] \<and> length ((F(v := i # F v)) u) < ?n" if "u \<in> set (slabs_partial cp)" for u
        using part [OF that] partial pg(4) by auto
      show "(F(v := i # F v)) u = []" if "u \<in> set (slabs_full cp)" for u using full [OF that] vs(2) that by auto
      show "slab_at cp w1 (F(v := i # F v)) u" if "u \<in> set (slabs_partial cp) \<union> set (slabs_full cp)" for u
        using others [of u cp "i # F v"] self [of cp] that by (cases "u = v") auto
    qed (use c em dist in simp_all)
    moreover have "slab_idx cp (F(v := i # F v)) = slab_idx cp F - {(v, i)}"
      by (auto simp: slab_idx_def split: if_splits)
    ultimately show ?thesis using run by (intro exI [of _ cp] exI [of _ w1] exI [of _ "F(v := i # F v)"]) simp
  qed
qed

section \<open>A cache as an object allocator\<close>

definition slab_get :: "nat \<Rightarrow> slab_cache \<times> slab_world \<Rightarrow> (nat option \<times> slab_cache \<times> slab_world) kern" where
  "slab_get n st = slab_calloc_int (fst st) (snd st)"

definition slab_put :: "nat \<Rightarrow> slab_cache \<times> slab_world \<Rightarrow> (slab_cache \<times> slab_world) kern" where
  "slab_put p st = slab_free_int (fst st) p (snd st)"

lemma slab_objects_calloc:
  assumes "slab_objects osize st L"
  shows "\<exists>r st'. slab_get n st = Some (r, st') \<and>
    (case r of None \<Rightarrow> st' = st \<and> free_set (sw_phys (snd st)) = {}
     | Some p \<Rightarrow> slab_objects osize st' (insert (p, osize) L) \<and> (\<forall>y \<in> L. apart (p, osize) y)
         \<and> zeroed (sw_data (snd st)) (sw_data (snd st')) p osize)"
proof -
  obtain F where F: "slab_rep (fst st) (snd st) F" "slab_objs (fst st) F = L" "object_size (fst st) = osize"
    using assms by (auto simp: slab_objects_def)
  show ?thesis using slab_calloc_ok [OF F(1)] F(2,3) by (cases st) (auto simp: slab_get_def)
qed

lemma slab_objects_free:
  assumes "slab_objects osize st L" "(p, k) \<in> L"
  shows "\<exists>st'. slab_put p st = Some st' \<and> slab_objects osize st' (L - {(p, k)})"
proof -
  obtain cp w where st: "st = (cp, w)" by (cases st)
  obtain F where F: "slab_rep cp w F" "slab_objs cp F = L" "object_size cp = osize"
    using assms(1) by (auto simp: slab_objects_def st)
  obtain v i where vi: "(v, i) \<in> slab_idx cp F" "p = v + slab_off (objects_per_slab cp) + i * osize" "k = osize"
    using assms(2) F(2,3) by (auto simp: slab_objs_def)
  obtain cp' w' F' where run: "slab_free_int cp p w = Some (cp', w')" "slab_rep cp' w' F'" "object_size cp' = object_size cp"
    "objects_per_slab cp' = objects_per_slab cp" "slab_idx cp' F' = slab_idx cp F - {(v, i)}"
    using slab_free_ok [OF F(1) vi(1)] vi(2) F(3) by blast
  have c: "cache_ok cp" and pre: "slab_pre {} cp w F" using F(1) by (simp_all add: slab_rep_def slab_pre_def)
  have "slab_objs cp' F' = slab_objs cp F - {(p, osize)}"
    using slab_objs_put [OF c slab_pre_pages [OF pre] run(3,4,5) vi(1)] F(3) vi(2) by simp
  thus ?thesis using run F vi(3) by (auto simp: slab_put_def st slab_objects_def)
qed

interpretation slab_alloc: object_allocator "slab_objects osize" slab_get slab_put "\<lambda>n. n \<le> osize" for osize
proof
  fix st L n
  assume "slab_objects osize st L" "n \<le> osize"
  thus "\<exists>r st'. slab_get n st = Some (r, st') \<and>
      (case r of None \<Rightarrow> slab_objects osize st' L
       | Some p \<Rightarrow> \<exists>k \<ge> n. slab_objects osize st' (insert (p, k) L) \<and> (\<forall>y \<in> L. apart (p, k) y))"
    using slab_objects_calloc [of osize st L n] by (fastforce split: option.splits)
qed (rule slab_objects_free)

lemma slab_init_objects:
  assumes "i < PREALLOC_COUNT" "phys_inv (sw_phys w)"
  shows "slab_objects (2 ^ (i + 4)) (slab_init_cache (2 ^ (i + 4)), w) {}"
proof -
  have "slab_rep (slab_init_cache (2 ^ (i + 4))) w (\<lambda>_. [])"
    using assms by (intro slab_repI) (auto simp: cache_ok_def slab_init_cache_def Let_def)
  thus ?thesis unfolding slab_objects_def
    by (intro exI [of _ "\<lambda>_. []"]) (simp add: slab_objs_def slab_idx_def slab_init_cache_def Let_def)
qed

section \<open>Statistics\<close>

lemma slab_stat_list_ok:
  assumes "\<And>v. v \<in> set vs \<Longrightarrow> sw_mem w v = Some (sl v) \<and> okp (sl_inuse (sl v))"
  shows "slab_stat_list okp osize w vs (a, b, c) =
    Some (a + (\<Sum>v \<leftarrow> vs. sl_inuse (sl v)), b + (\<Sum>v \<leftarrow> vs. sl_inuse (sl v)) * osize, c + length vs)"
  using assms by (induction vs arbitrary: a b c) (auto simp: algebra_simps)

lemma slab_used_card:
  assumes "slab_ok cp v sl is"
  shows "card {i. i < objects_per_slab cp \<and> i \<notin> set is} = sl_inuse sl"
proof -
  have "{i. i < objects_per_slab cp \<and> i \<notin> set is} = {..<objects_per_slab cp} - set is" by auto
  moreover have "set is \<subseteq> {..<objects_per_slab cp}"
    using assms bchain_bound [of "sl_bufctl sl" "sl_free sl" "is"] by (auto simp: slab_ok_def)
  ultimately have "card {i. i < objects_per_slab cp \<and> i \<notin> set is} = objects_per_slab cp - card (set is)"
    by (simp add: card_Diff_subset)
  thus ?thesis using assms by (auto simp: slab_ok_def distinct_card)
qed

lemma slab_objs_card:
  assumes "slab_rep cp w F"
  shows "card (slab_objs cp F) = (\<Sum>v \<leftarrow> slabs_partial cp @ slabs_full cp. sl_inuse (the (sw_mem w v)))"
proof -
  let ?S = "set (slabs_partial cp @ slabs_full cp)"
  have c: "cache_ok cp" and dist: "distinct (slabs_partial cp @ slabs_full cp)"
    and pg: "\<And>u. u \<in> ?S \<Longrightarrow> u mod 4096 = 0" and at: "\<And>u. u \<in> ?S \<Longrightarrow> slab_at cp w F u"
    using assms slab_pre_pages [of "{}" cp w F] by (auto simp: slab_rep_def slab_pre_def)
  have inj: "inj_on (\<lambda>(v, i). (v + slab_off (objects_per_slab cp) + i * object_size cp, object_size cp)) (slab_idx cp F)"
  proof (rule inj_onI, clarify)
    fix u j u' j'
    assume "(u, j) \<in> slab_idx cp F" "(u', j') \<in> slab_idx cp F"
      "u + slab_off (objects_per_slab cp) + j * object_size cp = u' + slab_off (objects_per_slab cp) + j' * object_size cp"
    thus "u = u' \<and> j = j'" using slab_obj_inj [OF c pg pg, of u u' j j'] by (simp add: slab_idx_def)
  qed
  have "slab_idx cp F = (SIGMA v : ?S. {i. i < objects_per_slab cp \<and> i \<notin> set (F v)})"
    by (auto simp: slab_idx_def)
  hence "card (slab_objs cp F) = (\<Sum>v \<in> ?S. card {i. i < objects_per_slab cp \<and> i \<notin> set (F v)})"
    unfolding slab_objs_def card_image [OF inj] by (simp add: card_SigmaI)
  also have "\<dots> = (\<Sum>v \<in> ?S. sl_inuse (the (sw_mem w v)))"
  proof (rule sum.cong)
    fix v assume "v \<in> ?S"
    then obtain sl where "sw_mem w v = Some sl" "slab_ok cp v sl (F v)" using at by (auto simp: slab_at_def)
    thus "card {i. i < objects_per_slab cp \<and> i \<notin> set (F v)} = sl_inuse (the (sw_mem w v))"
      by (simp add: slab_used_card)
  qed simp
  also have "\<dots> = (\<Sum>v \<leftarrow> slabs_partial cp @ slabs_full cp. sl_inuse (the (sw_mem w v)))"
    using dist by (simp only: sum_list_distinct_conv_sum_set)
  finally show ?thesis .
qed

lemma slab_stat_cache:
  assumes "slab_objects osize (cp, w) L"
  shows "slab_stat [cp] w (a, b, c) =
    Some (a + card L, b + card L * osize, c + length (slabs_partial cp) + length (slabs_full cp))"
proof -
  obtain F where F: "slab_rep cp w F" "slab_objs cp F = L" "object_size cp = osize"
    using assms by (auto simp: slab_objects_def)
  define u where "u = (\<lambda>v. sl_inuse (the (sw_mem w v)))"
  have inv: "slabs_empty cp = []" "\<And>v. v \<in> set (slabs_full cp) \<Longrightarrow> F v = []"
    "\<And>v. v \<in> set (slabs_partial cp) \<Longrightarrow> F v \<noteq> [] \<and> length (F v) < objects_per_slab cp"
    "\<And>v. v \<in> set (slabs_partial cp @ slabs_full cp) \<Longrightarrow> slab_at cp w F v"
    using F(1) by (simp_all add: slab_rep_def slab_pre_def)
  have at: "sw_mem w v = Some (the (sw_mem w v)) \<and> u v + length (F v) = objects_per_slab cp"
    if "v \<in> set (slabs_partial cp @ slabs_full cp)" for v
    using inv(4) [OF that] by (auto simp: slab_at_def slab_ok_def u_def)
  have full: "slab_stat_list (\<lambda>u. u = objects_per_slab cp) osize w (slabs_full cp) (a, b, c) =
      Some (a + sum_list (map u (slabs_full cp)), b + sum_list (map u (slabs_full cp)) * osize, c + length (slabs_full cp))"
    unfolding u_def
  proof (rule slab_stat_list_ok)
    fix v assume v: "v \<in> set (slabs_full cp)"
    thus "sw_mem w v = Some (the (sw_mem w v)) \<and> sl_inuse (the (sw_mem w v)) = objects_per_slab cp"
      using at [of v] inv(2) [OF v] by (simp add: u_def)
  qed
  have part: "slab_stat_list (\<lambda>u. u \<noteq> 0 \<and> u \<noteq> objects_per_slab cp) osize w (slabs_partial cp) (a, b, c) =
      Some (a + sum_list (map u (slabs_partial cp)), b + sum_list (map u (slabs_partial cp)) * osize, c + length (slabs_partial cp))"
    for a b c
    unfolding u_def
  proof (rule slab_stat_list_ok)
    fix v assume v: "v \<in> set (slabs_partial cp)"
    have "0 < length (F v)" using inv(3) [OF v] by simp
    moreover have "u v + length (F v) = objects_per_slab cp" using at [of v] v by simp
    ultimately have "0 < u v" "u v < objects_per_slab cp" using inv(3) [OF v] by linarith+
    thus "sw_mem w v = Some (the (sw_mem w v)) \<and> sl_inuse (the (sw_mem w v)) \<noteq> 0
        \<and> sl_inuse (the (sw_mem w v)) \<noteq> objects_per_slab cp"
      using at [of v] v by (simp add: u_def)
  qed
  have "card L = sum_list (map u (slabs_partial cp)) + sum_list (map u (slabs_full cp))"
    using slab_objs_card [OF F(1)] F(2) by (simp add: u_def)
  thus ?thesis using full part inv(1) F(3) by (simp add: algebra_simps)
qed

section \<open>Properties of the slab caches\<close>

text \<open>
  C36: for every cache of the table, a slab's descriptor, its free-list array and its objects lie inside one
  page in this order without overlap, and \<open>slab_cache_get\<close> returns the smallest cache that can hold the
  requested size, for every size up to 512 bytes; larger sizes are refused with a panic.
\<close>

theorem slab_cache_geometry:
  "(sz \<le> 512 \<longrightarrow> (\<exists>i < PREALLOC_COUNT. slab_cache_get sz = Some i \<and> sz \<le> 2 ^ (i + 4)
      \<and> (\<forall>j < i. 2 ^ (j + 4) < sz)
      \<and> (let cp = slab_init_cache (2 ^ (i + 4)); n = objects_per_slab cp
         in slab_init_caches ! i = cp \<and> SLAB_SIZE + 4 * n \<le> slab_off n \<and> slab_off n + n * object_size cp \<le> MM_PAGE_SIZE)))
   \<and> (512 < sz \<longrightarrow> slab_cache_get sz = None)"
proof -
  have tab: "predefined_cache_sizes = [(16, 0), (32, 1), (64, 2), (128, 3), (256, 4), (512, 5)]"
    by (simp add: predefined_cache_sizes_def PREALLOC_COUNT_def upt_rec)
  have geo: "let cp = slab_init_cache (2 ^ (i + 4)); n = objects_per_slab cp
         in slab_init_caches ! i = cp \<and> SLAB_SIZE + 4 * n \<le> slab_off n \<and> slab_off n + n * object_size cp \<le> MM_PAGE_SIZE"
    if "i < PREALLOC_COUNT" for i
  proof -
    have "cache_ok (slab_init_cache (2 ^ (i + 4)))"
      using that by (auto simp: cache_ok_def slab_init_cache_def Let_def)
    thus ?thesis using slab_geometry_nums(4,5) that by (simp add: Let_def slab_init_caches_def)
  qed
  have "\<exists>i < PREALLOC_COUNT. slab_cache_get sz = Some i \<and> sz \<le> 2 ^ (i + 4) \<and> (\<forall>j < i. 2 ^ (j + 4) < sz)" if "sz \<le> 512"
  proof -
    consider "sz \<le> 16" | "16 < sz" "sz \<le> 32" | "32 < sz" "sz \<le> 64" | "64 < sz" "sz \<le> 128" | "128 < sz" "sz \<le> 256"
      | "256 < sz" using that by linarith
    thus ?thesis using that
      by cases (auto simp: slab_cache_get_def tab PREALLOC_COUNT_def less_Suc_eq numeral_eq_Suc)
  qed
  moreover have "slab_cache_get sz = None" if "512 < sz" using that by (simp add: slab_cache_get_def tab)
  ultimately show ?thesis using geo by metis
qed

theorem slab_cache_geometry_witness:
  "\<exists>i < PREALLOC_COUNT. slab_cache_get 100 = Some i \<and> 100 \<le> (2::nat) ^ (i + 4)"
  using slab_cache_geometry [of 100] by auto

text \<open>
  C28: \<open>slab_calloc\<close> on a well-formed cache never panics and always returns: it yields NULL only if there
  is no free physical page, and otherwise a fresh zeroed object that overlaps no outstanding one, without
  touching any other byte of object memory.
\<close>

theorem slab_calloc_correct:
  assumes "slab_objects osize (cp, w) L"
  shows "\<exists>r cp' w'. slab_calloc_int cp w = Some (r, cp', w') \<and>
    (case r of None \<Rightarrow> (cp', w') = (cp, w) \<and> free_set (sw_phys w) = {}
     | Some p \<Rightarrow> slab_objects osize (cp', w') (insert (p, osize) L) \<and> (\<forall>y \<in> L. apart (p, osize) y)
         \<and> (\<forall>x. sw_data w' x = (if x \<in> {p..<p + osize} then 0 else sw_data w x)))"
proof -
  obtain r st' where run: "slab_get 0 (cp, w) = Some (r, st')"
    "case r of None \<Rightarrow> st' = (cp, w) \<and> free_set (sw_phys (snd (cp, w))) = {}
     | Some p \<Rightarrow> slab_objects osize st' (insert (p, osize) L) \<and> (\<forall>y \<in> L. apart (p, osize) y)
         \<and> zeroed (sw_data (snd (cp, w))) (sw_data (snd st')) p osize"
    using slab_objects_calloc [OF assms] by blast
  thus ?thesis unfolding slab_get_def zeroed_def by (cases st'; cases r) auto
qed

theorem slab_calloc_correct_witness:
  "\<exists>s r cp' w'. slab_calloc_int (slab_init_cache 64) \<lparr> sw_mem = Map.empty, sw_data = (\<lambda>_. 1), sw_phys = s \<rparr> = Some (r, cp', w')"
proof -
  obtain s where "phys_inv s" using demo_reach phys_reach_inv by blast
  hence "slab_objects (2 ^ (2 + 4)) (slab_init_cache (2 ^ (2 + 4)), \<lparr> sw_mem = Map.empty, sw_data = (\<lambda>_. 1), sw_phys = s \<rparr>) {}"
    by (intro slab_init_objects) (simp_all add: PREALLOC_COUNT_def)
  from slab_calloc_correct [OF this] show ?thesis by auto
qed

text \<open>
  C20: from a freshly initialised cache, every history of allocations and releases of outstanding objects runs
  to its end without a panic, pages taken and returned included, and the objects outstanding at its end
  do not overlap.
\<close>

theorem slab_history_safe:
  assumes "i < PREALLOC_COUNT" "phys_inv (sw_phys w)"
  shows "\<exists>st A. alloc_history slab_get slab_put (\<lambda>n. n \<le> 2 ^ (i + 4)) rs (slab_init_cache (2 ^ (i + 4)), w) [] = Some (st, A) \<and>
    (\<forall>i < length A. \<forall>j < length A. i \<noteq> j \<longrightarrow> apart (A ! i) (A ! j))"
  by (rule slab_alloc.history_safe [OF slab_init_objects [OF assms]])

theorem slab_history_safe_witness:
  "\<exists>s st A. alloc_history slab_get slab_put (\<lambda>n. n \<le> 2 ^ (2 + 4)) [Get 50, Get 64, Put 1, Get 3]
      (slab_init_cache (2 ^ (2 + 4)), \<lparr> sw_mem = Map.empty, sw_data = (\<lambda>_. 1), sw_phys = s \<rparr>) [] = Some (st, A)"
proof -
  obtain s where "phys_inv s" using demo_reach phys_reach_inv by blast
  hence "phys_inv (sw_phys \<lparr> sw_mem = Map.empty, sw_data = (\<lambda>_. 1), sw_phys = s \<rparr>)" by simp
  from slab_history_safe [OF _ this, of 2 "[Get 50, Get 64, Put 1, Get 3]"]
  show ?thesis by (auto simp: PREALLOC_COUNT_def)
qed

text \<open>
  the statistics of a cache hold exactly: the object count is the number of outstanding objects, the byte
  count is that number times the object size, the page count is the number of slabs, and none of the
  assertions of \<open>slab_stat\<close> fires.
\<close>

lemma slab_stat_correct:
  assumes "slab_objects osize (cp, w) L"
  shows "slab_stat [cp] w (0, 0, 0) = Some (card L, card L * osize, length (slabs_partial cp) + length (slabs_full cp))"
  using slab_stat_cache [OF assms, of 0 0 0] by simp

end
