(* ===== verification/Index_Map.thy ===== *)
theory Index_Map
  imports Ygg_Prelude
begin

text \<open>
  The contract of the kernel's bucketed tables (the string hash of src/sys/hash.c, the port table of
  src/net/ports.c, the page index of src/sys/block/cache.c): lookups after insertions and removals are
  those of a finite map.  The bucket lemmas below discharge the laws for all of them.
\<close>

section \<open>The contract\<close>

datatype ('k, 'v) index_op = Ins 'k 'v | Del 'k

text \<open>Insertions of a key that is present are not admitted by any of the tables.\<close>

fun map_ops :: "('k, 'v) index_op list \<Rightarrow> ('k \<rightharpoonup> 'v) \<Rightarrow> ('k \<rightharpoonup> 'v) option" where
  "map_ops [] m = Some m"
| "map_ops (Ins k v # xs) m = (if m k = None then map_ops xs (m(k \<mapsto> v)) else None)"
| "map_ops (Del k # xs) m = map_ops xs (m(k := None))"

locale index_map =
  fixes wf :: "'t \<Rightarrow> bool"
    and lookup :: "'t \<Rightarrow> 'k \<Rightarrow> 'v option"
    and key_ok :: "'k \<Rightarrow> bool"
    and ins :: "'k \<Rightarrow> 'v \<Rightarrow> 't \<Rightarrow> 't kern"
  assumes ins_ok: "wf t \<Longrightarrow> key_ok k \<Longrightarrow> lookup t k = None \<Longrightarrow>
      \<exists>t'. ins k v t = Some t' \<and> wf t' \<and> lookup t' = (lookup t)(k \<mapsto> v)"
    and ins_dup: "wf t \<Longrightarrow> key_ok k \<Longrightarrow> lookup t k \<noteq> None \<Longrightarrow> ins k v t = None"

locale index_map_del = index_map +
  fixes del :: "'b \<Rightarrow> 'a \<Rightarrow> 'a"
  assumes del_ok: "wf t \<Longrightarrow> key_ok k \<Longrightarrow> wf (del k t) \<and> lookup (del k t) = (lookup t)(k := None)"

fun table_ops :: "('k \<Rightarrow> 'v \<Rightarrow> 't \<Rightarrow> 't kern) \<Rightarrow> ('k \<Rightarrow> 't \<Rightarrow> 't) \<Rightarrow> ('k, 'v) index_op list \<Rightarrow> 't \<Rightarrow> 't kern" where
  "table_ops ins del [] t = Some t"
| "table_ops ins del (Ins k v # xs) t = (case ins k v t of None \<Rightarrow> None | Some t' \<Rightarrow> table_ops ins del xs t')"
| "table_ops ins del (Del k # xs) t = table_ops ins del xs (del k t)"

fun op_key :: "('k, 'v) index_op \<Rightarrow> 'k" where
  "op_key (Ins k v) = k"
| "op_key (Del k) = k"

context index_map
begin

lemma inserts_refine:
  assumes "wf t" "\<And>x. x \<in> set xs \<Longrightarrow> key_ok (fst x)"
  shows "map_option lookup (table_ops ins del (map (\<lambda>(k, v). Ins k v) xs) t) =
      map_ops (map (\<lambda>(k, v). Ins k v) xs) (lookup t)
    \<and> (\<forall>t'. table_ops ins del (map (\<lambda>(k, v). Ins k v) xs) t = Some t' \<longrightarrow> wf t')"
  using assms
proof (induction xs arbitrary: t)
  case (Cons x xs)
  obtain k v where x: "x = (k, v)" by (cases x)
  have k: "key_ok k" using Cons.prems(2) [of x] x by simp
  show ?case
  proof (cases "lookup t k")
    case None
    then obtain t' where t': "ins k v t = Some t'" "wf t'" "lookup t' = (lookup t)(k \<mapsto> v)"
      using ins_ok [OF Cons.prems(1) k] by blast
    have "map_option lookup (table_ops ins del (map (\<lambda>(k, v). Ins k v) xs) t') =
        map_ops (map (\<lambda>(k, v). Ins k v) xs) (lookup t')
      \<and> (\<forall>s. table_ops ins del (map (\<lambda>(k, v). Ins k v) xs) t' = Some s \<longrightarrow> wf s)"
      using Cons.IH [OF t'(2)] Cons.prems(2) by simp
    thus ?thesis using None t'(1) unfolding t'(3) by (simp add: x)
  next
    case (Some y)
    thus ?thesis using ins_dup [OF Cons.prems(1) k] by (simp add: x)
  qed
qed simp

end

context index_map_del
begin

lemma ops_refine:
  assumes "wf t" "\<And>x. x \<in> set xs \<Longrightarrow> key_ok (op_key x)"
  shows "map_option lookup (table_ops ins del xs t) = map_ops xs (lookup t)
    \<and> (\<forall>t'. table_ops ins del xs t = Some t' \<longrightarrow> wf t')"
  using assms
proof (induction xs arbitrary: t)
  case (Cons x xs)
  show ?case
  proof (cases x)
    case (Del k)
    hence d: "wf (del k t)" "lookup (del k t) = (lookup t)(k := None)"
      using del_ok [OF Cons.prems(1)] Cons.prems(2) [of x] by auto
    have "map_option lookup (table_ops ins del xs (del k t)) = map_ops xs (lookup (del k t))
      \<and> (\<forall>s. table_ops ins del xs (del k t) = Some s \<longrightarrow> wf s)"
      using Cons.IH [OF d(1)] Cons.prems(2) by simp
    thus ?thesis unfolding d(2) by (simp add: Del)
  next
    case (Ins k v)
    have k: "key_ok k" using Cons.prems(2) [of x] Ins by simp
    show ?thesis
    proof (cases "lookup t k")
      case None
      then obtain t' where t': "ins k v t = Some t'" "wf t'" "lookup t' = (lookup t)(k \<mapsto> v)"
        using ins_ok [OF Cons.prems(1) k] by blast
      have "map_option lookup (table_ops ins del xs t') = map_ops xs (lookup t')
        \<and> (\<forall>s. table_ops ins del xs t' = Some s \<longrightarrow> wf s)"
        using Cons.IH [OF t'(2)] Cons.prems(2) by simp
      thus ?thesis using None t'(1) unfolding t'(3) by (simp add: Ins)
    next
      case (Some y)
      thus ?thesis using ins_dup [OF Cons.prems(1) k] by (simp add: Ins)
    qed
  qed
qed simp

end

section \<open>Buckets\<close>

definition bucket_wf :: "('k \<Rightarrow> nat) \<Rightarrow> (nat \<Rightarrow> ('k \<times> 'v) list) \<Rightarrow> bool" where
  "bucket_wf h t \<longleftrightarrow> (\<forall>b. distinct (map fst (t b)) \<and> (\<forall>e \<in> set (t b). h (fst e) = b))"

definition bucket_map :: "('k \<Rightarrow> nat) \<Rightarrow> (nat \<Rightarrow> ('k \<times> 'v) list) \<Rightarrow> 'k \<Rightarrow> 'v option" where
  "bucket_map h t k = map_of (t (h k)) k"

lemma find_key: "List.find (\<lambda>e. fst e = k) xs = map_option (Pair k) (map_of xs k)"
  by (induction xs) auto

lemma bucket_empty [simp]: "bucket_wf h (\<lambda>_. [])" "bucket_map h (\<lambda>_. []) = Map.empty"
  by (auto simp: bucket_wf_def bucket_map_def)

lemma bucket_insert_front:
  assumes "bucket_wf h t" "bucket_map h t k = None"
  shows "bucket_wf h (t(h k := (k, v) # t (h k)))"
    and "bucket_map h (t(h k := (k, v) # t (h k))) = (bucket_map h t)(k \<mapsto> v)"
  using assms by (auto simp: bucket_wf_def bucket_map_def map_of_eq_None_iff fun_eq_iff)

lemma bucket_insert_back:
  assumes "bucket_wf h t" "bucket_map h t k = None"
  shows "bucket_wf h (t(h k := t (h k) @ [(k, v)]))"
    and "bucket_map h (t(h k := t (h k) @ [(k, v)])) = (bucket_map h t)(k \<mapsto> v)"
proof -
  show "bucket_wf h (t(h k := t (h k) @ [(k, v)]))"
    using assms by (auto simp: bucket_wf_def bucket_map_def map_of_eq_None_iff)
  show "bucket_map h (t(h k := t (h k) @ [(k, v)])) = (bucket_map h t)(k \<mapsto> v)"
    using assms by (auto simp: bucket_map_def fun_eq_iff map_add_def split: option.splits)
qed

lemma map_of_remove1:
  "distinct (map fst xs) \<Longrightarrow> map_of xs k = Some v \<Longrightarrow> map_of (remove1 (k, v) xs) = (map_of xs)(k := None)"
proof (induction xs)
  case (Cons x xs)
  obtain a b where x: "x = (a, b)" by (cases x)
  show ?case
  proof (cases "a = k")
    case True
    hence "map_of xs k = None" "b = v" using Cons.prems x by (auto simp: map_of_eq_None_iff)
    thus ?thesis using True by (auto simp: x fun_eq_iff)
  next
    case False
    hence "map_of (remove1 (k, v) xs) = (map_of xs)(k := None)" using Cons.prems x by (intro Cons.IH) auto
    thus ?thesis using False by (simp add: x) (auto simp: fun_eq_iff)
  qed
qed simp

lemma distinct_fst_remove1: "distinct (map fst xs) \<Longrightarrow> distinct (map fst (remove1 e xs))"
proof (induction xs)
  case (Cons x xs)
  have "fst ` set (remove1 e xs) \<subseteq> fst ` set xs" using set_remove1_subset by (rule image_mono)
  thus ?case using Cons by auto
qed simp

lemma bucket_remove:
  assumes wf: "bucket_wf h t" and k: "bucket_map h t k = Some v"
  shows "bucket_wf h (t(h k := remove1 (k, v) (t (h k))))"
    and "bucket_map h (t(h k := remove1 (k, v) (t (h k)))) = (bucket_map h t)(k := None)"
proof -
  have d: "distinct (map fst (t (h k)))" "map_of (t (h k)) k = Some v"
    using wf k by (auto simp: bucket_wf_def bucket_map_def)
  have "set (remove1 (k, v) (t (h k))) \<subseteq> set (t (h k))" by (rule set_remove1_subset)
  thus "bucket_wf h (t(h k := remove1 (k, v) (t (h k))))"
    using wf distinct_fst_remove1 [OF d(1)] by (auto simp: bucket_wf_def)
  show "bucket_map h (t(h k := remove1 (k, v) (t (h k)))) = (bucket_map h t)(k := None)"
    using map_of_remove1 [OF d] by (auto simp: bucket_map_def fun_eq_iff)
qed

end
