(* ===== verification/Tables.thy ===== *)
theory Tables
  imports Index_Map
begin

text \<open>
  The string-keyed hash of src/sys/hash.c and the port table of src/net/ports.c.  A bucket is the list of its
  entries in the order of the kernel list (\<open>list_add\<close> inserts at the head).  Keys of the hash are the bytes
  of a string before its terminating zero.  Whether the heap or the slab cache can provide the memory is an
  argument \<open>mem\<close> of the operations that ask for it.
\<close>

section \<open>The string hash\<close>









section \<open>The port table\<close>







section \<open>Both are maps\<close>










section \<open>Properties of the tables\<close>



end
