(* ===== verification/Bcache.thy ===== *)
theory Bcache
  imports Phys Index_Map
begin

text \<open>
  The write-back page cache of block devices (src/sys/block/cache.c) and the block layer above it
  (src/sys/block/blk.c).  The LRU queue is the list of its nodes, most recently used first; a node carries
  an identity, because the index hash points at queue nodes.  The function pointers of the driver are
  arguments of the model; the contents of pages are byte lists.  Node allocation is assumed to succeed,
  as the code does by assertion.
\<close>

record lru_node =
  ln_id :: nat
  ln_block :: nat
  ln_page :: nat

record lru_hash =
  bucket_count :: nat
  buckets :: "nat \<Rightarrow> (nat \<times> nat) list"

record block_cache =
  bc_page_size :: nat
  bc_capacity :: nat
  bc_size :: nat
  bc_queue :: "lru_node list"
  bc_index :: lru_hash
  bc_fresh :: nat

record 'd blkdev =
  bd_cached :: bool
  bd_read :: "(nat \<Rightarrow> nat \<Rightarrow> 'd \<Rightarrow> int \<times> byte list) option"
  bd_write :: "(byte list \<Rightarrow> nat \<Rightarrow> 'd \<Rightarrow> int \<times> 'd) option"

text \<open>The machine state the cache acts on: page contents, the page allocator, the medium.\<close>

record 'd cache_world =
  cw_cache :: block_cache
  cw_mem :: "nat \<Rightarrow> byte list"
  cw_phys :: phys
  cw_disk :: 'd

section \<open>Dirty pages\<close>

definition page_dirty :: "nat \<Rightarrow> bool" where "page_dirty p \<longleftrightarrow> p mod 2 = 1"
definition page_mask :: "nat \<Rightarrow> nat" where "page_mask p = p div 2 * 2"
definition page_set_dirty :: "nat \<Rightarrow> nat" where "page_set_dirty p = page_mask p + 1"

section \<open>The index hash\<close>

definition lru_hash_init :: "nat \<Rightarrow> lru_hash" where
  "lru_hash_init capacity = \<lparr> bucket_count = capacity, buckets = (\<lambda>_. []) \<rparr>"

definition lru_hash_lookup :: "lru_hash \<Rightarrow> nat \<Rightarrow> (nat \<times> nat) option" where
  "lru_hash_lookup h address = List.find (\<lambda>e. fst e = address) (buckets h (address mod bucket_count h))"

definition lru_hash_insert :: "lru_hash \<Rightarrow> nat \<Rightarrow> nat \<Rightarrow> lru_hash" where
  "lru_hash_insert h address node =
    (let b = address mod bucket_count h
     in h\<lparr>buckets := (buckets h)(b := buckets h b @ [(address, node)])\<rparr>)"

definition lru_hash_remove :: "lru_hash \<Rightarrow> nat \<Rightarrow> int \<times> lru_hash" where
  "lru_hash_remove h address =
    (let b = address mod bucket_count h
     in case lru_hash_lookup h address of
          None \<Rightarrow> (-1, h)
        | Some e \<Rightarrow> (0, h\<lparr>buckets := (buckets h)(b := remove1 e (buckets h b))\<rparr>))"

section \<open>The queue\<close>

definition block_cache_init :: "nat \<Rightarrow> nat \<Rightarrow> block_cache" where
  "block_cache_init page_size capacity = \<lparr> bc_page_size = page_size, bc_capacity = capacity, bc_size = 0,
     bc_queue = [], bc_index = lru_hash_init 32, bc_fresh = 0 \<rparr>"

text \<open>
  Releasing the cache frees the bucket arrays and zeroes the structure. An index entry a bucket still holds would
  leak; the queue is empty here and the index mirrors the queue. \<open>bc_fresh\<close>, the supply of node identities, is no field
  of the structure and stays.
\<close>

definition block_cache_release :: "block_cache \<Rightarrow> block_cache kern" where
  "block_cache_release c = do {
     kassert (bc_queue c = []);
     Some \<lparr> bc_page_size = 0, bc_capacity = 0, bc_size = 0, bc_queue = [],
       bc_index = \<lparr> bucket_count = 0, buckets = (\<lambda>_. []) \<rparr>, bc_fresh = bc_fresh c \<rparr>
   }"

definition block_cache_queue_push_node :: "lru_node \<Rightarrow> block_cache \<Rightarrow> block_cache" where
  "block_cache_queue_push_node n c = c\<lparr>bc_queue := n # bc_queue c, bc_size := Suc (bc_size c)\<rparr>"

definition block_cache_queue_push_head :: "nat \<Rightarrow> nat \<Rightarrow> block_cache \<Rightarrow> lru_node \<times> block_cache" where
  "block_cache_queue_push_head address page c =
    (let n = \<lparr> ln_id = bc_fresh c, ln_block = address, ln_page = page \<rparr>
     in (n, block_cache_queue_push_node n (c\<lparr>bc_fresh := Suc (bc_fresh c)\<rparr>)))"

definition block_cache_queue_pop_tail :: "block_cache \<Rightarrow> block_cache kern" where
  "block_cache_queue_pop_tail c = do {
     kassert (bc_queue c \<noteq> []);
     let (r, h) = lru_hash_remove (bc_index c) (ln_block (last (bc_queue c)));
     kassert (r = 0);
     kassert (butlast (bc_queue c) \<noteq> [] \<or> bc_size c = 1);
     Some (c\<lparr>bc_index := h, bc_queue := butlast (bc_queue c), bc_size := bc_size c - 1\<rparr>)
   }"

definition block_cache_queue_erase :: "lru_node \<Rightarrow> block_cache \<Rightarrow> block_cache" where
  "block_cache_queue_erase n c = c\<lparr>bc_queue := remove1 n (bc_queue c), bc_size := bc_size c - 1\<rparr>"

definition node_at :: "nat \<Rightarrow> block_cache \<Rightarrow> lru_node option" where
  "node_at i c = List.find (\<lambda>n. ln_id n = i) (bc_queue c)"

section \<open>Access to the device\<close>

definition blk_read_really :: "'d blkdev \<Rightarrow> nat \<Rightarrow> nat \<Rightarrow> 'd \<Rightarrow> int \<times> byte list" where
  "blk_read_really blk off lim d = (case bd_read blk of Some rd \<Rightarrow> rd off lim d | None \<Rightarrow> (- EINVAL, []))"

definition blk_write_really :: "'d blkdev \<Rightarrow> byte list \<Rightarrow> nat \<Rightarrow> 'd \<Rightarrow> int \<times> 'd" where
  "blk_write_really blk buf off d = (case bd_write blk of Some wr \<Rightarrow> wr buf off d | None \<Rightarrow> (- EINVAL, d))"

definition blk_page_sync :: "'d blkdev \<Rightarrow> nat \<Rightarrow> nat \<Rightarrow> 'd cache_world \<Rightarrow> int \<times> 'd cache_world" where
  "blk_page_sync blk block_address page w =
    (let (res, d) = blk_write_really blk (cw_mem w page) block_address (cw_disk w)
     in (if res < 0 then res else if res = int (bc_page_size (cw_cache w)) then 0 else - EIO, w\<lparr>cw_disk := d\<rparr>))"

definition block_cache_page_release :: "'d blkdev \<Rightarrow> nat \<Rightarrow> nat \<Rightarrow> 'd cache_world \<Rightarrow> 'd cache_world kern" where
  "block_cache_page_release blk address page w = do {
     w \<leftarrow> (if page_dirty page then do {
              let (r, w) = blk_page_sync blk (address * bc_page_size (cw_cache w)) (page_mask page) w;
              kassert (r = 0);
              Some w
            } else Some w);
     ph \<leftarrow> mm_phys_free_page (page_mask page) (cw_phys w);
     Some (w\<lparr>cw_phys := ph\<rparr>)
   }"

definition block_cache_page_alloc :: "'d cache_world \<Rightarrow> (nat option \<times> 'd cache_world) kern" where
  "block_cache_page_alloc w = do {
     kassert (bc_page_size (cw_cache w) = MM_PAGE_SIZE);
     (r, ph) \<leftarrow> mm_phys_alloc_page PU_CACHE (cw_phys w);
     Some (r, w\<lparr>cw_phys := ph\<rparr>)
   }"

definition block_cache_mark_dirty :: "nat \<Rightarrow> 'd cache_world \<Rightarrow> 'd cache_world kern" where
  "block_cache_mark_dirty address w = do {
     let c = cw_cache w;
     kassert (address mod bc_page_size c = 0);
     (_, i) \<leftarrow> lru_hash_lookup (bc_index c) (address div bc_page_size c);
     n \<leftarrow> node_at i c;
     Some (w\<lparr>cw_cache := c\<lparr>bc_queue :=
       map (\<lambda>m. if ln_id m = i then m\<lparr>ln_page := page_set_dirty (ln_page m)\<rparr> else m) (bc_queue c)\<rparr>\<rparr>)
   }"

definition block_cache_evict :: "'d blkdev \<Rightarrow> 'd cache_world \<Rightarrow> 'd cache_world kern" where
  "block_cache_evict blk w = do {
     kassert (bc_queue (cw_cache w) \<noteq> []);
     let n = last (bc_queue (cw_cache w));
     w \<leftarrow> block_cache_page_release blk (ln_block n) (ln_page n) w;
     c \<leftarrow> block_cache_queue_pop_tail (cw_cache w);
     Some (w\<lparr>cw_cache := c\<rparr>)
   }"

text \<open>The result is the return code (0 when the page was cached, -1 when it has to be filled) and the page.\<close>

definition block_cache_get :: "'d blkdev \<Rightarrow> nat \<Rightarrow> 'd cache_world \<Rightarrow> (int \<times> nat \<times> 'd cache_world) kern" where
  "block_cache_get blk addr w = do {
     kassert (addr mod bc_page_size (cw_cache w) = 0);
     let address = addr div bc_page_size (cw_cache w);
     case lru_hash_lookup (bc_index (cw_cache w)) address of
       None \<Rightarrow> do {
         w \<leftarrow> (if bc_capacity (cw_cache w) = bc_size (cw_cache w) then block_cache_evict blk w else Some w);
         (r, w) \<leftarrow> block_cache_page_alloc w;
         result \<leftarrow> r;
         let (n, c) = block_cache_queue_push_head address result (cw_cache w);
         let c = c\<lparr>bc_index := lru_hash_insert (bc_index c) address (ln_id n)\<rparr>;
         Some (-1, result, w\<lparr>cw_cache := c\<rparr>)
       }
     | Some (block, i) \<Rightarrow> do {
         n \<leftarrow> node_at i (cw_cache w);
         kassert (ln_block n = block);
         Some (0, page_mask (ln_page n),
               w\<lparr>cw_cache := block_cache_queue_push_node n (block_cache_queue_erase n (cw_cache w))\<rparr>)
       }
   }"

function block_cache_flush :: "'d blkdev \<Rightarrow> 'd cache_world \<Rightarrow> 'd cache_world kern" where
  "block_cache_flush blk w =
    (if bc_queue (cw_cache w) = [] then Some w
     else case block_cache_evict blk w of
            None \<Rightarrow> None
          | Some w' \<Rightarrow> block_cache_flush blk w')"
  by pat_completeness auto

lemma page_release_cache: "block_cache_page_release blk a p w = Some w' \<Longrightarrow> cw_cache w' = cw_cache w"
  by (auto simp: block_cache_page_release_def blk_page_sync_def Let_def bind_eq_Some_conv
      split: if_splits prod.splits)

lemma evict_queue:
  "block_cache_evict blk w = Some w' \<Longrightarrow>
     bc_queue (cw_cache w) \<noteq> [] \<and> bc_queue (cw_cache w') = butlast (bc_queue (cw_cache w))"
  by (auto simp: block_cache_evict_def block_cache_queue_pop_tail_def Let_def bind_eq_Some_conv case_prod_beta
      dest: page_release_cache)

termination block_cache_flush
  by (relation "measure (\<lambda>(_, w). length (bc_queue (cw_cache w)))") (auto dest: evict_queue)

section \<open>The block layer\<close>

text \<open>One round of the loops of \<open>blk_read\<close> and \<open>blk_write\<close>: get the page and fill it if it is new.\<close>

definition blk_fetch :: "'d blkdev \<Rightarrow> nat \<Rightarrow> 'd cache_world \<Rightarrow> (nat \<times> 'd cache_world) kern" where
  "blk_fetch blk index w = do {
     let ps = bc_page_size (cw_cache w);
     (r, page, w) \<leftarrow> block_cache_get blk (index * ps) w;
     if r \<noteq> 0 then do {
       let (err, bs) = blk_read_really blk (index * ps) ps (cw_disk w);
       kassert (\<not> err < 0);
       Some (page, w\<lparr>cw_mem := (cw_mem w)(page := bs @ drop (length bs) (cw_mem w page))\<rparr>)
     } else Some (page, w)
   }"

function blk_read_loop :: "'d blkdev \<Rightarrow> nat \<Rightarrow> nat \<Rightarrow> nat \<Rightarrow> byte list \<Rightarrow> 'd cache_world \<Rightarrow> (byte list \<times> 'd cache_world) kern" where
  "blk_read_loop blk off index rem buf w =
    (if rem = 0 then Some (buf, w)
     else
       let ps = bc_page_size (cw_cache w);
           blk_off = off mod ps;
           can = min (ps - blk_off) rem
       in if can = 0 then None
          else case blk_fetch blk index w of
                 None \<Rightarrow> None
               | Some (page, w') \<Rightarrow>
                   blk_read_loop blk off (Suc index) (rem - can) (buf @ take can (drop blk_off (cw_mem w' page))) w')"
  by pat_completeness auto
termination
  by (relation "measure (\<lambda>(_, _, _, r, _). r)") (auto simp: Let_def)

definition blk_read :: "'d blkdev \<Rightarrow> nat \<Rightarrow> nat \<Rightarrow> 'd cache_world \<Rightarrow> (int \<times> byte list \<times> 'd cache_world) kern" where
  "blk_read blk off lim w =
    (if bd_cached blk then do {
       (buf, w) \<leftarrow> blk_read_loop blk off (off div bc_page_size (cw_cache w)) lim [] w;
       Some (int lim, buf, w)
     }
     else let (r, bs) = blk_read_really blk off lim (cw_disk w) in Some (r, bs, w))"

definition overlay :: "byte list \<Rightarrow> nat \<Rightarrow> byte list \<Rightarrow> byte list" where
  "overlay dst off src = take off dst @ src @ drop (off + length src) dst"

function blk_write_loop :: "'d blkdev \<Rightarrow> nat \<Rightarrow> nat \<Rightarrow> byte list \<Rightarrow> 'd cache_world \<Rightarrow> 'd cache_world kern" where
  "blk_write_loop blk off index buf w =
    (if buf = [] then Some w
     else
       let ps = bc_page_size (cw_cache w);
           blk_off = off mod ps;
           can = min (ps - blk_off) (length buf)
       in if can = 0 then None
          else case blk_fetch blk index w of
                 None \<Rightarrow> None
               | Some (page, w') \<Rightarrow>
                   (case block_cache_mark_dirty (index * ps)
                           (w'\<lparr>cw_mem := (cw_mem w')(page := overlay (cw_mem w' page) blk_off (take can buf))\<rparr>) of
                      None \<Rightarrow> None
                    | Some w'' \<Rightarrow> blk_write_loop blk off (Suc index) (drop can buf) w''))"
  by pat_completeness auto
termination
  by (relation "measure (\<lambda>(_, _, _, b, _). length b)") (auto simp: Let_def)

definition blk_write :: "'d blkdev \<Rightarrow> byte list \<Rightarrow> nat \<Rightarrow> 'd cache_world \<Rightarrow> (int \<times> 'd cache_world) kern" where
  "blk_write blk buf off w =
    (if bd_cached blk then do {
       w \<leftarrow> blk_write_loop blk off (off div bc_page_size (cw_cache w)) buf w;
       Some (int (length buf), w)
     }
     else let (r, d) = blk_write_really blk buf off (cw_disk w) in Some (r, w\<lparr>cw_disk := d\<rparr>))"

definition blk_set_cache :: "'d blkdev \<Rightarrow> nat \<Rightarrow> 'd cache_world \<Rightarrow> ('d blkdev \<times> 'd cache_world) kern" where
  "blk_set_cache blk page_capacity w = do {
     kassert (\<not> bd_cached blk);
     Some (blk\<lparr>bd_cached := True\<rparr>, w\<lparr>cw_cache := block_cache_init MM_PAGE_SIZE page_capacity\<rparr>)
   }"

definition blk_cache_release :: "'d blkdev \<Rightarrow> 'd cache_world \<Rightarrow> ('d blkdev \<times> 'd cache_world) kern" where
  "blk_cache_release blk w = do {
     kassert (bd_cached blk);
     w \<leftarrow> block_cache_flush blk w;
     c \<leftarrow> block_cache_release (cw_cache w);
     Some (blk\<lparr>bd_cached := False\<rparr>, w\<lparr>cw_cache := c\<rparr>)
   }"

text \<open>A partition: the window \<open>lba_start\<close>, \<open>size\<close> (in 512-byte sectors) of another device.\<close>

definition blk_part_read :: "'d blkdev \<Rightarrow> nat \<Rightarrow> nat \<Rightarrow> nat \<Rightarrow> nat \<Rightarrow> 'd cache_world \<Rightarrow> (int \<times> byte list \<times> 'd cache_world) kern" where
  "blk_part_read dev lba_start psize off count w =
    (if psize * 512 \<le> off then Some (-1, [], w)
     else blk_read dev (off + lba_start * 512) (min (psize * 512 - off) count) w)"

definition blk_part_write :: "'d blkdev \<Rightarrow> nat \<Rightarrow> nat \<Rightarrow> byte list \<Rightarrow> nat \<Rightarrow> 'd cache_world \<Rightarrow> (int \<times> 'd cache_world) kern" where
  "blk_part_write dev lba_start psize buf off w =
    (if psize * 512 \<le> off then Some (-1, w)
     else blk_write dev (take (min (psize * 512 - off) (length buf)) buf) (off + lba_start * 512) w)"

section \<open>The index is a map\<close>

definition lru_wf :: "lru_hash \<Rightarrow> bool" where
  "lru_wf h \<longleftrightarrow> bucket_wf (\<lambda>a. a mod bucket_count h) (buckets h)"

definition lru_map :: "lru_hash \<Rightarrow> nat \<Rightarrow> nat option" where
  "lru_map h a = map_option snd (lru_hash_lookup h a)"

lemma lru_lookup_map: "lru_hash_lookup h a = map_option (Pair a) (lru_map h a)"
  by (simp add: lru_map_def lru_hash_lookup_def find_key option.map_comp comp_def option.map_ident)

lemma lru_map_bucket: "lru_map h = bucket_map (\<lambda>a. a mod bucket_count h) (buckets h)"
  by (auto simp: lru_map_def lru_hash_lookup_def find_key bucket_map_def option.map_comp comp_def option.map_ident fun_eq_iff)

text \<open>The cache inserts an address only after a failed lookup; the guard is the client's.\<close>

definition lru_insert_new :: "nat \<Rightarrow> nat \<Rightarrow> lru_hash \<Rightarrow> lru_hash kern" where
  "lru_insert_new a i h = (if lru_hash_lookup h a = None then Some (lru_hash_insert h a i) else None)"

interpretation lru: index_map_del lru_wf lru_map "\<lambda>_. True" lru_insert_new "\<lambda>a h. snd (lru_hash_remove h a)"
proof
  fix h a i
  assume wf: "lru_wf h"
  show "\<exists>h'. lru_insert_new a i h = Some h' \<and> lru_wf h' \<and> lru_map h' = (lru_map h)(a \<mapsto> i)" if "lru_map h a = None"
    using bucket_insert_back [OF wf [unfolded lru_wf_def], of a i] that
    by (simp add: lru_insert_new_def lru_lookup_map lru_wf_def lru_map_bucket lru_hash_insert_def Let_def)
  show "lru_insert_new a i h = None" if "lru_map h a \<noteq> None"
    using that by (simp add: lru_insert_new_def lru_lookup_map)
  show "lru_wf (snd (lru_hash_remove h a)) \<and> lru_map (snd (lru_hash_remove h a)) = (lru_map h)(a := None)"
  proof (cases "lru_map h a")
    case None
    thus ?thesis using wf by (auto simp: lru_hash_remove_def lru_lookup_map fun_eq_iff)
  next
    case (Some i)
    hence r: "snd (lru_hash_remove h a) = h\<lparr>buckets := (buckets h)(a mod bucket_count h := remove1 (a, i) (buckets h (a mod bucket_count h)))\<rparr>"
      by (simp add: lru_hash_remove_def lru_lookup_map Let_def)
    show ?thesis unfolding r
      using bucket_remove [OF wf [unfolded lru_wf_def], of a i] Some by (simp add: lru_wf_def lru_map_bucket)
  qed
qed

lemma lru_insert:
  assumes "lru_wf h" "lru_map h a = None"
  shows "lru_wf (lru_hash_insert h a i)" "lru_map (lru_hash_insert h a i) = (lru_map h)(a \<mapsto> i)"
  using lru.ins_ok [OF assms(1) TrueI assms(2), of i] assms(2) by (auto simp: lru_insert_new_def lru_lookup_map)

lemma lru_remove:
  assumes "lru_wf h" "lru_map h a = Some i"
  shows "fst (lru_hash_remove h a) = 0" "lru_wf (snd (lru_hash_remove h a))"
    "lru_map (snd (lru_hash_remove h a)) = (lru_map h)(a := None)"
  using lru.del_ok [OF assms(1) TrueI, of a] assms(2) by (auto simp: lru_hash_remove_def lru_lookup_map Let_def)

section \<open>The invariant of the cache\<close>

definition node_of :: "block_cache \<Rightarrow> nat \<Rightarrow> lru_node option" where
  "node_of c a = List.find (\<lambda>n. ln_block n = a) (bc_queue c)"

definition cache_inv :: "block_cache \<Rightarrow> bool" where
  "cache_inv c \<longleftrightarrow>
    bc_page_size c = MM_PAGE_SIZE \<and> bc_size c = length (bc_queue c) \<and> length (bc_queue c) \<le> bc_capacity c
    \<and> 0 < bc_capacity c
    \<and> distinct (map ln_id (bc_queue c)) \<and> distinct (map ln_block (bc_queue c))
    \<and> distinct (map (\<lambda>n. page_mask (ln_page n)) (bc_queue c))
    \<and> (\<forall>n \<in> set (bc_queue c). ln_id n < bc_fresh c)
    \<and> lru_wf (bc_index c) \<and> (\<forall>a. lru_map (bc_index c) a = map_option ln_id (node_of c a))"

text \<open>
  What the driver is relied on for: the transfer of an aligned page inside the medium of \<open>N\<close> bytes is complete,
  and a read returns what the medium holds. Nothing is asked of other transfers (the AHCI driver,
  src/drivers/ata/ahci.c, panics on misaligned ones): the cache issues aligned pages only.
\<close>

definition driver_ok :: "'d blkdev \<Rightarrow> ('d \<Rightarrow> nat \<Rightarrow> byte) \<Rightarrow> nat \<Rightarrow> bool" where
  "driver_ok blk medium N \<longleftrightarrow>
    (\<exists>rd wr. bd_read blk = Some rd \<and> bd_write blk = Some wr
      \<and> (\<forall>a d. a * MM_PAGE_SIZE + MM_PAGE_SIZE \<le> N \<longrightarrow>
           rd (a * MM_PAGE_SIZE) MM_PAGE_SIZE d = (int MM_PAGE_SIZE, map (medium d) [a * MM_PAGE_SIZE..<a * MM_PAGE_SIZE + MM_PAGE_SIZE]))
      \<and> (\<forall>a bs d. length bs = MM_PAGE_SIZE \<longrightarrow> a * MM_PAGE_SIZE + MM_PAGE_SIZE \<le> N \<longrightarrow>
           (\<exists>d'. wr bs (a * MM_PAGE_SIZE) d = (int MM_PAGE_SIZE, d')
              \<and> (\<forall>x. medium d' x = (if a * MM_PAGE_SIZE \<le> x \<and> x < a * MM_PAGE_SIZE + MM_PAGE_SIZE
                   then bs ! (x - a * MM_PAGE_SIZE) else medium d x)))))"

definition page_of :: "('d \<Rightarrow> nat \<Rightarrow> byte) \<Rightarrow> 'd \<Rightarrow> nat \<Rightarrow> byte list" where
  "page_of medium d a = map (medium d) [a * MM_PAGE_SIZE..<a * MM_PAGE_SIZE + MM_PAGE_SIZE]"

definition world_inv :: "('d \<Rightarrow> nat \<Rightarrow> byte) \<Rightarrow> nat \<Rightarrow> 'd cache_world \<Rightarrow> bool" where
  "world_inv medium N w \<longleftrightarrow>
    cache_inv (cw_cache w) \<and> phys_inv (cw_phys w)
    \<and> (\<forall>p. length (cw_mem w p) = MM_PAGE_SIZE)
    \<and> bc_capacity (cw_cache w) \<le> bc_size (cw_cache w) + card (free_set (cw_phys w))
    \<and> (\<forall>n \<in> set (bc_queue (cw_cache w)).
          page_mask (ln_page n) \<in> owned_pages PU_CACHE (cw_phys w)
          \<and> ln_block n * MM_PAGE_SIZE + MM_PAGE_SIZE \<le> N
          \<and> (\<not> page_dirty (ln_page n) \<longrightarrow> cw_mem w (page_mask (ln_page n)) = page_of medium (cw_disk w) (ln_block n)))"

text \<open>The contents of the device as the block layer shows them: cached pages take precedence.\<close>

definition view :: "('d \<Rightarrow> nat \<Rightarrow> byte) \<Rightarrow> 'd cache_world \<Rightarrow> nat \<Rightarrow> byte" where
  "view medium w x =
    (case node_of (cw_cache w) (x div MM_PAGE_SIZE) of
       Some n \<Rightarrow> cw_mem w (page_mask (ln_page n)) ! (x mod MM_PAGE_SIZE)
     | None \<Rightarrow> medium (cw_disk w) x)"

section \<open>Lookups in the queue\<close>

lemma find_unique: "distinct (map f xs) \<Longrightarrow> n \<in> set xs \<Longrightarrow> f n = k \<Longrightarrow> List.find (\<lambda>m. f m = k) xs = Some n"
  by (induction xs) auto

lemma node_of_Some:
  "cache_inv c \<Longrightarrow> node_of c a = Some n \<longleftrightarrow> n \<in> set (bc_queue c) \<and> ln_block n = a"
  using find_unique [of ln_block "bc_queue c" n a]
  by (auto simp: cache_inv_def node_of_def find_Some_iff)

lemma node_of_None: "node_of c a = None \<longleftrightarrow> a \<notin> ln_block ` set (bc_queue c)"
  by (auto simp: node_of_def find_None_iff)

lemma node_at_Some: "cache_inv c \<Longrightarrow> n \<in> set (bc_queue c) \<Longrightarrow> node_at (ln_id n) c = Some n"
  using find_unique [of ln_id "bc_queue c" n "ln_id n"] by (auto simp: cache_inv_def node_at_def)

lemma page_mask_even: "p mod 4096 = 0 \<Longrightarrow> page_mask p = p \<and> \<not> page_dirty p"
  by (auto simp: page_mask_def page_dirty_def mod_eq_0_iff_dvd dvd_def)

lemma page_set_dirty_simps [simp]:
  "page_mask (page_set_dirty p) = page_mask p" "page_dirty (page_set_dirty p)" "page_mask (page_mask p) = page_mask p"
proof -
  have "Suc (p div 2 * 2) mod 2 = 1" by presburger
  thus "page_mask (page_set_dirty p) = page_mask p" "page_dirty (page_set_dirty p)" "page_mask (page_mask p) = page_mask p"
    by (simp_all add: page_mask_def page_set_dirty_def page_dirty_def)
qed

lemma length_page_of [simp]: "length (page_of medium d a) = MM_PAGE_SIZE"
  by (simp add: page_of_def)

lemma nth_page_of: "i < MM_PAGE_SIZE \<Longrightarrow> page_of medium d a ! i = medium d (a * MM_PAGE_SIZE + i)"
  by (simp add: page_of_def)

lemma MM_PAGE_SIZE_pos [simp]: "0 < MM_PAGE_SIZE" by (simp add: MM_PAGE_SIZE_def)

lemma block_bytes: "x div MM_PAGE_SIZE = a \<longleftrightarrow> a * MM_PAGE_SIZE \<le> x \<and> x < a * MM_PAGE_SIZE + MM_PAGE_SIZE"
proof -
  have "x div MM_PAGE_SIZE * MM_PAGE_SIZE \<le> x" "x < x div MM_PAGE_SIZE * MM_PAGE_SIZE + MM_PAGE_SIZE"
    using div_mult_mod_eq [of x MM_PAGE_SIZE] mod_less_divisor [OF MM_PAGE_SIZE_pos, of x] by linarith+
  moreover have "x div MM_PAGE_SIZE = a" if "a * MM_PAGE_SIZE \<le> x" "x < a * MM_PAGE_SIZE + MM_PAGE_SIZE"
    using that by (intro div_nat_eqI) (simp_all add: algebra_simps)
  ultimately show ?thesis by blast
qed

section \<open>Eviction\<close>

lemma page_release_ok:
  assumes drv: "driver_ok blk medium N" and inv: "world_inv medium N w" and n: "n \<in> set (bc_queue (cw_cache w))"
  shows "\<exists>ph d. block_cache_page_release blk (ln_block n) (ln_page n) w = Some (w\<lparr>cw_disk := d, cw_phys := ph\<rparr>)
    \<and> phys_inv ph \<and> owned_pages PU_CACHE ph = owned_pages PU_CACHE (cw_phys w) - {page_mask (ln_page n)}
    \<and> card (free_set ph) = Suc (card (free_set (cw_phys w)))
    \<and> (\<forall>x. medium d x = (if x div MM_PAGE_SIZE = ln_block n then cw_mem w (page_mask (ln_page n)) ! (x mod MM_PAGE_SIZE) else medium (cw_disk w) x))"
proof -
  let ?p = "page_mask (ln_page n)"
  have ci: "cache_inv (cw_cache w)" and pi: "phys_inv (cw_phys w)" and len: "\<And>p. length (cw_mem w p) = MM_PAGE_SIZE"
    and own: "?p \<in> owned_pages PU_CACHE (cw_phys w)" and bnd: "ln_block n * MM_PAGE_SIZE + MM_PAGE_SIZE \<le> N"
    and clean: "\<not> page_dirty (ln_page n) \<Longrightarrow> cw_mem w ?p = page_of medium (cw_disk w) (ln_block n)"
    using inv n by (auto simp: world_inv_def)
  have ps: "bc_page_size (cw_cache w) = MM_PAGE_SIZE" using ci by (simp add: cache_inv_def)
  obtain i where i: "i \<in> used_set (cw_phys w) PU_CACHE" "pg_refcount (mm_pages (cw_phys w) i) = 0" "?p = i * MM_PAGE_SIZE"
    using own by (auto simp: owned_pages_def)
  have "?p div MM_PAGE_SIZE = i" using i(3) by simp
  then obtain ph where ph: "mm_phys_free_page ?p (cw_phys w) = Some ph" "phys_gave i (cw_phys w) ph"
    using mm_phys_free_page_ok [OF pi i(1,2)] by blast
  have pinv: "phys_inv ph" using ph(2) by (simp add: phys_gave_def)
  have "i \<notin> free_set (cw_phys w)" using i(1) by (auto simp: used_set_def free_set_def)
  hence card: "card (free_set ph) = Suc (card (free_set (cw_phys w)))" using ph(2) by (simp add: phys_gave_def)
  have own': "owned_pages PU_CACHE ph = owned_pages PU_CACHE (cw_phys w) - {?p}"
    using cache_pages.put_ok [OF pi own] ph(1) by auto
  have mem_byte: "medium d x = cw_mem w ?p ! (x mod MM_PAGE_SIZE)"
    if "cw_mem w ?p = page_of medium d (ln_block n)" "x div MM_PAGE_SIZE = ln_block n" for x d
    using that div_mult_mod_eq [of x MM_PAGE_SIZE] by (simp add: nth_page_of)
  show ?thesis
  proof (cases "page_dirty (ln_page n)")
    case False
    have "block_cache_page_release blk (ln_block n) (ln_page n) w = Some (w\<lparr>cw_disk := cw_disk w, cw_phys := ph\<rparr>)"
      using False ph(1) by (simp add: block_cache_page_release_def)
    thus ?thesis using own' card pinv mem_byte [OF clean [OF False]]
      by (intro exI [of _ ph] exI [of _ "cw_disk w"] conjI) auto
  next
    case True
    let ?bs = "cw_mem w ?p"
    obtain wr where wr: "bd_write blk = Some wr"
      and wr': "\<And>a bs e. length bs = MM_PAGE_SIZE \<Longrightarrow> a * MM_PAGE_SIZE + MM_PAGE_SIZE \<le> N \<Longrightarrow>
        \<exists>d'. wr bs (a * MM_PAGE_SIZE) e = (int MM_PAGE_SIZE, d')
        \<and> (\<forall>x. medium d' x = (if a * MM_PAGE_SIZE \<le> x \<and> x < a * MM_PAGE_SIZE + MM_PAGE_SIZE
             then bs ! (x - a * MM_PAGE_SIZE) else medium e x))"
      using drv unfolding driver_ok_def by blast
    obtain d where d: "bd_write blk = Some wr" "wr ?bs (ln_block n * MM_PAGE_SIZE) (cw_disk w) = (int MM_PAGE_SIZE, d)"
      "\<forall>x. medium d x = (if ln_block n * MM_PAGE_SIZE \<le> x \<and> x < ln_block n * MM_PAGE_SIZE + MM_PAGE_SIZE
         then ?bs ! (x - ln_block n * MM_PAGE_SIZE) else medium (cw_disk w) x)"
      using wr wr' [of ?bs "ln_block n" "cw_disk w"] bnd len by auto
    have "block_cache_page_release blk (ln_block n) (ln_page n) w = Some (w\<lparr>cw_disk := d, cw_phys := ph\<rparr>)"
      using True ph(1) d(1,2)
      by (simp add: block_cache_page_release_def blk_page_sync_def blk_write_really_def Let_def ps)
    moreover have "medium d x = (if x div MM_PAGE_SIZE = ln_block n then ?bs ! (x mod MM_PAGE_SIZE) else medium (cw_disk w) x)" for x
    proof -
      have "x - ln_block n * MM_PAGE_SIZE = x mod MM_PAGE_SIZE" if "x div MM_PAGE_SIZE = ln_block n"
        using that div_mult_mod_eq [of x MM_PAGE_SIZE] by (metis add_diff_cancel_left')
      thus ?thesis using d(3) block_bytes [of x "ln_block n"] by auto
    qed
    ultimately show ?thesis using own' card pinv by (intro exI [of _ ph] exI [of _ d] conjI) auto
  qed
qed

lemma pop_tail_ok:
  assumes inv: "cache_inv c" and q: "bc_queue c = q @ [n]"
  shows "\<exists>c'. block_cache_queue_pop_tail c = Some c' \<and> cache_inv c' \<and> bc_queue c' = q \<and> bc_capacity c' = bc_capacity c
    \<and> (\<forall>a. node_of c' a = (if a = ln_block n then None else node_of c a))"
proof -
  have n: "n \<in> set (bc_queue c)" using q by simp
  have "lru_map (bc_index c) (ln_block n) = Some (ln_id n)"
    using inv node_of_Some [OF inv, of "ln_block n" n] n by (auto simp: cache_inv_def)
  note rm = lru_remove [OF _ this]
  have wf: "lru_wf (bc_index c)" using inv by (simp add: cache_inv_def)
  let ?c = "c\<lparr>bc_index := snd (lru_hash_remove (bc_index c) (ln_block n)), bc_queue := q, bc_size := bc_size c - 1\<rparr>"
  have run: "block_cache_queue_pop_tail c = Some ?c"
    using q rm(1) [OF wf] inv by (simp add: block_cache_queue_pop_tail_def cache_inv_def case_prod_beta)
  have nd: "node_of ?c a = (if a = ln_block n then None else node_of c a)" for a
  proof (cases "a = ln_block n")
    case True
    have "ln_block n \<notin> ln_block ` set q" using inv q by (auto simp: cache_inv_def)
    thus ?thesis using True by (simp add: node_of_None)
  next
    case False
    have "List.find (\<lambda>m. ln_block m = a) (q @ [n]) = List.find (\<lambda>m. ln_block m = a) q"
      using False by (induction q) auto
    thus ?thesis using False q by (simp add: node_of_def)
  qed
  have "cache_inv ?c"
    using inv q rm(2,3) [OF wf] nd by (auto simp: cache_inv_def)
  thus ?thesis using run nd by (intro exI [of _ ?c]) simp
qed

lemma world_inv_cache: "world_inv medium N w \<Longrightarrow> cache_inv (cw_cache w)"
  by (simp add: world_inv_def)

lemma evict_ok:
  assumes drv: "driver_ok blk medium N" and inv: "world_inv medium N w" and q: "bc_queue (cw_cache w) = q @ [n]"
  shows "\<exists>w'. block_cache_evict blk w = Some w' \<and> world_inv medium N w' \<and> view medium w' = view medium w
    \<and> bc_queue (cw_cache w') = q \<and> bc_capacity (cw_cache w') = bc_capacity (cw_cache w)
    \<and> (\<forall>a. node_of (cw_cache w') a = (if a = ln_block n then None else node_of (cw_cache w) a))"
proof -
  let ?p = "page_mask (ln_page n)"
  have n: "n \<in> set (bc_queue (cw_cache w))" using q by simp
  note ci = world_inv_cache [OF inv]
  obtain ph d where rel: "block_cache_page_release blk (ln_block n) (ln_page n) w = Some (w\<lparr>cw_disk := d, cw_phys := ph\<rparr>)"
    "phys_inv ph" "owned_pages PU_CACHE ph = owned_pages PU_CACHE (cw_phys w) - {?p}"
    "card (free_set ph) = Suc (card (free_set (cw_phys w)))"
    and med: "\<And>x. medium d x = (if x div MM_PAGE_SIZE = ln_block n then cw_mem w ?p ! (x mod MM_PAGE_SIZE) else medium (cw_disk w) x)"
    using page_release_ok [OF drv inv n] by blast
  obtain c' where c': "block_cache_queue_pop_tail (cw_cache w) = Some c'" "cache_inv c'" "bc_queue c' = q"
    "bc_capacity c' = bc_capacity (cw_cache w)"
    and nd: "\<And>a. node_of c' a = (if a = ln_block n then None else node_of (cw_cache w) a)"
    using pop_tail_ok [OF ci q] by blast
  define w' where "w' = w\<lparr>cw_disk := d, cw_phys := ph, cw_cache := c'\<rparr>"
  have run: "block_cache_evict blk w = Some w'"
    using q rel(1) c'(1) by (simp add: block_cache_evict_def w'_def)
  have vw: "view medium w' x = view medium w x" for x
  proof (cases "x div MM_PAGE_SIZE = ln_block n")
    case True
    hence "node_of (cw_cache w) (x div MM_PAGE_SIZE) = Some n" using n node_of_Some [OF ci] by simp
    thus ?thesis using True nd med by (simp add: view_def w'_def)
  next
    case False
    thus ?thesis using nd med by (auto simp: view_def w'_def split: option.split)
  qed
  have "world_inv medium N w'"
    unfolding world_inv_def
  proof (intro conjI ballI impI allI)
    fix m assume m: "m \<in> set (bc_queue (cw_cache w'))"
    hence mq: "m \<in> set q" "m \<in> set (bc_queue (cw_cache w))" using c'(3) q by (auto simp: w'_def)
    have ne: "page_mask (ln_page m) \<noteq> ?p" "ln_block m \<noteq> ln_block n"
    proof -
      have "page_mask (ln_page n) \<notin> (\<lambda>n. page_mask (ln_page n)) ` set q" "ln_block n \<notin> ln_block ` set q"
        using ci unfolding cache_inv_def q by simp_all
      thus "page_mask (ln_page m) \<noteq> ?p" "ln_block m \<noteq> ln_block n" using mq(1) by (metis image_eqI)+
    qed
    show "page_mask (ln_page m) \<in> owned_pages PU_CACHE (cw_phys w')"
      using inv mq(2) ne(1) rel(3) by (simp add: world_inv_def w'_def)
    show "ln_block m * MM_PAGE_SIZE + MM_PAGE_SIZE \<le> N" using inv mq(2) by (simp add: world_inv_def)
    assume "\<not> page_dirty (ln_page m)"
    hence "cw_mem w (page_mask (ln_page m)) = page_of medium (cw_disk w) (ln_block m)"
      using inv mq(2) by (simp add: world_inv_def)
    moreover have "page_of medium d (ln_block m) = page_of medium (cw_disk w) (ln_block m)"
      unfolding page_of_def
    proof (intro map_cong refl)
      fix x assume "x \<in> set [ln_block m * MM_PAGE_SIZE..<ln_block m * MM_PAGE_SIZE + MM_PAGE_SIZE]"
      hence "x div MM_PAGE_SIZE = ln_block m" using block_bytes [of x "ln_block m"] by simp
      thus "medium d x = medium (cw_disk w) x" using med ne(2) by simp
    qed
    ultimately show "cw_mem w' (page_mask (ln_page m)) = page_of medium (cw_disk w') (ln_block m)"
      by (simp add: w'_def)
  next
    have "bc_size (cw_cache w) = Suc (bc_size c')" using ci c'(2,3) q by (simp add: cache_inv_def)
    thus "bc_capacity (cw_cache w') \<le> bc_size (cw_cache w') + card (free_set (cw_phys w'))"
      using inv rel(4) c'(4) by (simp add: world_inv_def w'_def)
  next
    show "length (cw_mem w' p) = MM_PAGE_SIZE" for p using inv by (simp add: world_inv_def w'_def)
  qed (use c'(2) rel(2) in \<open>simp_all add: w'_def\<close>)
  thus ?thesis using run vw nd c'(3,4) by (intro exI [of _ w']) (auto simp: w'_def)
qed

lemma flush_ok:
  assumes "driver_ok blk medium N" "world_inv medium N w"
  shows "\<exists>w'. block_cache_flush blk w = Some w' \<and> world_inv medium N w' \<and> view medium w' = view medium w
    \<and> bc_queue (cw_cache w') = [] \<and> (\<forall>x. medium (cw_disk w') x = view medium w x)"
  using assms
proof (induction "length (bc_queue (cw_cache w))" arbitrary: w)
  case 0
  hence "bc_queue (cw_cache w) = []" by simp
  thus ?case using 0 by (simp add: block_cache_flush.simps view_def node_of_def)
next
  case (Suc k)
  then obtain q n where q: "bc_queue (cw_cache w) = q @ [n]" by (cases "bc_queue (cw_cache w)" rule: rev_cases) auto
  obtain w1 where w1: "block_cache_evict blk w = Some w1" "world_inv medium N w1" "view medium w1 = view medium w"
    "bc_queue (cw_cache w1) = q"
    using evict_ok [OF Suc.prems q] by blast
  have "k = length (bc_queue (cw_cache w1))" using Suc.hyps(2) q w1(4) by simp
  from Suc.hyps(1) [OF this Suc.prems(1) w1(2)] show ?case
    using w1 q by (simp add: block_cache_flush.simps [of blk w])
qed

section \<open>Getting a page\<close>

lemma node_of_perm:
  assumes "distinct (map ln_block q)" "set q' = set q" "distinct (map ln_block q')"
  shows "List.find (\<lambda>m. ln_block m = a) q' = List.find (\<lambda>m. ln_block m = a) q"
proof (cases "a \<in> ln_block ` set q")
  case True
  then obtain n where n: "n \<in> set q" "ln_block n = a" by auto
  show ?thesis using find_unique [OF assms(1) n] find_unique [OF assms(3) _ n(2)] n(1) assms(2) by simp
next
  case False
  hence "List.find (\<lambda>m. ln_block m = a) q = None" "List.find (\<lambda>m. ln_block m = a) q' = None"
    using assms(2) by (auto simp: find_None_iff)
  thus ?thesis by simp
qed

text \<open>Moving a node to the head keeps everything but the order.\<close>

lemma cache_promote:
  assumes inv: "cache_inv c" and n: "n \<in> set (bc_queue c)"
    and c': "c' = block_cache_queue_push_node n (block_cache_queue_erase n c)"
  shows "cache_inv c'" "set (bc_queue c') = set (bc_queue c)" "node_of c' = node_of c" "bc_capacity c' = bc_capacity c"
    "bc_size c' = bc_size c" "bc_queue c' = n # remove1 n (bc_queue c)"
proof -
  obtain xs ys where q: "bc_queue c = xs @ n # ys" "n \<notin> set xs" using split_list_first [OF n] by blast
  have q': "bc_queue c' = n # xs @ ys" using q by (simp add: c' block_cache_queue_push_node_def block_cache_queue_erase_def remove1_append)
  show set: "set (bc_queue c') = set (bc_queue c)" using q q' by auto
  have d: "distinct (map ln_id (bc_queue c'))" "distinct (map ln_block (bc_queue c'))"
    "distinct (map (\<lambda>n. page_mask (ln_page n)) (bc_queue c'))"
    using inv by (auto simp: cache_inv_def q q')
  show nd: "node_of c' = node_of c"
    using node_of_perm [OF _ set d(2)] inv by (auto simp: node_of_def cache_inv_def fun_eq_iff)
  show "bc_capacity c' = bc_capacity c" and size: "bc_size c' = bc_size c"
    using inv q by (simp_all add: c' block_cache_queue_push_node_def block_cache_queue_erase_def cache_inv_def)
  show "bc_queue c' = n # remove1 n (bc_queue c)"
    by (simp add: c' block_cache_queue_push_node_def block_cache_queue_erase_def)
  show "cache_inv c'"
    using inv d set nd size q q' unfolding cache_inv_def
    by (simp add: c' block_cache_queue_push_node_def block_cache_queue_erase_def)
qed

lemma get_hit:
  assumes inv: "world_inv medium N w" and n: "node_of (cw_cache w) a = Some n"
  shows "\<exists>w'. block_cache_get blk (a * MM_PAGE_SIZE) w = Some (0, page_mask (ln_page n), w')
    \<and> world_inv medium N w' \<and> view medium w' = view medium w \<and> cw_mem w' = cw_mem w
    \<and> bc_queue (cw_cache w') = n # remove1 n (bc_queue (cw_cache w)) \<and> node_of (cw_cache w') = node_of (cw_cache w)
    \<and> bc_capacity (cw_cache w') = bc_capacity (cw_cache w)"
proof -
  note ci = world_inv_cache [OF inv]
  have nq: "n \<in> set (bc_queue (cw_cache w))" "ln_block n = a" using node_of_Some [OF ci] n by auto
  define c' where "c' = block_cache_queue_push_node n (block_cache_queue_erase n (cw_cache w))"
  note pr = cache_promote [OF ci nq(1) c'_def]
  have "lru_hash_lookup (bc_index (cw_cache w)) a = Some (a, ln_id n)"
    using ci n by (simp add: lru_lookup_map cache_inv_def)
  moreover have "bc_page_size (cw_cache w) = MM_PAGE_SIZE" using ci by (simp add: cache_inv_def)
  ultimately have run: "block_cache_get blk (a * MM_PAGE_SIZE) w = Some (0, page_mask (ln_page n), w\<lparr>cw_cache := c'\<rparr>)"
    using node_at_Some [OF ci nq(1)] nq(2) by (simp add: block_cache_get_def Let_def c'_def)
  have "world_inv medium N (w\<lparr>cw_cache := c'\<rparr>)"
    using inv pr(1,2,4,5) unfolding world_inv_def by simp
  moreover have "view medium (w\<lparr>cw_cache := c'\<rparr>) = view medium w"
    by (auto simp: view_def pr(3) fun_eq_iff split: option.split)
  ultimately show ?thesis using run pr by (intro exI [of _ "w\<lparr>cw_cache := c'\<rparr>"]) simp
qed

lemma cache_push_new:
  assumes inv: "cache_inv c" and new: "node_of c a = None" and room: "length (bc_queue c) < bc_capacity c"
    and pg: "page_mask p \<notin> (\<lambda>n. page_mask (ln_page n)) ` set (bc_queue c)"
    and n: "(n, c1) = block_cache_queue_push_head a p c"
    and c': "c' = c1\<lparr>bc_index := lru_hash_insert (bc_index c1) a (ln_id n)\<rparr>"
  shows "cache_inv c'" "bc_queue c' = n # bc_queue c" "ln_block n = a" "ln_page n = p"
    "node_of c' = (node_of c)(a \<mapsto> n)" "bc_capacity c' = bc_capacity c" "bc_size c' = Suc (bc_size c)"
proof -
  show n': "ln_block n = a" "ln_page n = p" and q: "bc_queue c' = n # bc_queue c"
    and "bc_capacity c' = bc_capacity c" "bc_size c' = Suc (bc_size c)"
    using n by (simp_all add: block_cache_queue_push_head_def block_cache_queue_push_node_def Let_def c')
  have id: "ln_id n = bc_fresh c" "bc_fresh c' = Suc (bc_fresh c)" "bc_page_size c' = bc_page_size c"
    "bc_index c' = lru_hash_insert (bc_index c) a (ln_id n)" "bc_size c' = Suc (bc_size c)" "bc_capacity c' = bc_capacity c"
    using n by (simp_all add: block_cache_queue_push_head_def block_cache_queue_push_node_def Let_def c')
  show nd: "node_of c' = (node_of c)(a \<mapsto> n)" using n'(1) q by (auto simp: node_of_def fun_eq_iff)
  have wf: "lru_wf (bc_index c)" and im: "\<And>b. lru_map (bc_index c) b = map_option ln_id (node_of c b)"
    using inv by (simp_all add: cache_inv_def)
  have "lru_map (bc_index c) a = None" using im new by simp
  note li = lru_insert [OF wf this, of "ln_id n"]
  have "a \<notin> ln_block ` set (bc_queue c)" using new by (simp add: node_of_None)
  moreover have "ln_id n \<notin> ln_id ` set (bc_queue c)" using inv id(1) by (auto simp: cache_inv_def)
  ultimately show "cache_inv c'"
    using inv room pg li id nd n' im by (auto simp: cache_inv_def q)
qed

lemma make_room:
  assumes drv: "driver_ok blk medium N" and inv: "world_inv medium N w" and new: "node_of (cw_cache w) a = None"
  shows "\<exists>w1. (if bc_capacity (cw_cache w) = bc_size (cw_cache w) then block_cache_evict blk w else Some w) = Some w1
    \<and> world_inv medium N w1 \<and> view medium w1 = view medium w \<and> node_of (cw_cache w1) a = None
    \<and> length (bc_queue (cw_cache w1)) < bc_capacity (cw_cache w1) \<and> bc_capacity (cw_cache w1) = bc_capacity (cw_cache w)
    \<and> bc_queue (cw_cache w1) = (if bc_capacity (cw_cache w) = bc_size (cw_cache w) then butlast (bc_queue (cw_cache w)) else bc_queue (cw_cache w))"
proof (cases "bc_capacity (cw_cache w) = bc_size (cw_cache w)")
  case True
  note ci = world_inv_cache [OF inv]
  have "bc_queue (cw_cache w) \<noteq> []" using ci True by (auto simp: cache_inv_def)
  then obtain q n where q: "bc_queue (cw_cache w) = q @ [n]" by (cases "bc_queue (cw_cache w)" rule: rev_cases) auto
  show ?thesis using evict_ok [OF drv inv q] True new ci q by (force simp: cache_inv_def)
next
  case False
  thus ?thesis using inv new world_inv_cache [OF inv] by (auto simp: cache_inv_def)
qed

lemma fill_page:
  assumes drv: "driver_ok blk medium N" and b: "a * MM_PAGE_SIZE + MM_PAGE_SIZE \<le> N"
  shows "blk_read_really blk (a * MM_PAGE_SIZE) MM_PAGE_SIZE d = (int MM_PAGE_SIZE, page_of medium d a)"
proof -
  obtain rd where "bd_read blk = Some rd"
      "\<And>a d. a * MM_PAGE_SIZE + MM_PAGE_SIZE \<le> N \<Longrightarrow>
        rd (a * MM_PAGE_SIZE) MM_PAGE_SIZE d = (int MM_PAGE_SIZE, map (medium d) [a * MM_PAGE_SIZE..<a * MM_PAGE_SIZE + MM_PAGE_SIZE])"
    using drv unfolding driver_ok_def by blast
  thus ?thesis using b by (simp add: blk_read_really_def page_of_def)
qed

lemma push_filled:
  assumes inv: "world_inv medium N w" and new: "node_of (cw_cache w) a = None"
    and room: "length (bc_queue (cw_cache w)) < bc_capacity (cw_cache w)" and b: "a * MM_PAGE_SIZE + MM_PAGE_SIZE \<le> N"
    and al: "mm_phys_alloc_page PU_CACHE (cw_phys w) = Some (Some p, ph)" "phys_took PU_CACHE {i} (cw_phys w) ph"
    and n: "(n, c1) = block_cache_queue_push_head a p (cw_cache w)"
    and w': "w' = w\<lparr>cw_phys := ph, cw_cache := c1\<lparr>bc_index := lru_hash_insert (bc_index c1) a (ln_id n)\<rparr>,
        cw_mem := (cw_mem w)(p := page_of medium (cw_disk w) a)\<rparr>"
  shows "world_inv medium N w'" "view medium w' = view medium w" "node_of (cw_cache w') = (node_of (cw_cache w))(a \<mapsto> n)"
    "page_mask (ln_page n) = p" "bc_queue (cw_cache w') = n # bc_queue (cw_cache w)"
    "bc_capacity (cw_cache w') = bc_capacity (cw_cache w)"
proof -
  note ci = world_inv_cache [OF inv]
  have pi: "phys_inv (cw_phys w)" using inv by (simp add: world_inv_def)
  have p: "phys_inv ph" "p \<notin> owned_pages PU_CACHE (cw_phys w)"
      "owned_pages PU_CACHE ph = insert p (owned_pages PU_CACHE (cw_phys w))" "p mod 4096 = 0"
    using cache_pages.get_some [OF pi al(1)] by auto
  note pm = page_mask_even [OF p(4)]
  have fresh: "page_mask (ln_page m) \<noteq> p" if "m \<in> set (bc_queue (cw_cache w))" for m
    using inv that p(2) by (auto simp: world_inv_def)
  hence "page_mask p \<notin> (\<lambda>n. page_mask (ln_page n)) ` set (bc_queue (cw_cache w))" using pm by auto
  note cp = cache_push_new [OF ci new room this n refl]
  define c' where "c' = c1\<lparr>bc_index := lru_hash_insert (bc_index c1) a (ln_id n)\<rparr>"
  note cp = cp [folded c'_def]
  have w's: "cw_cache w' = c'" "cw_disk w' = cw_disk w" "cw_phys w' = ph" "cw_mem w' = (cw_mem w)(p := page_of medium (cw_disk w) a)"
    by (simp_all add: w' c'_def)
  show "node_of (cw_cache w') = (node_of (cw_cache w))(a \<mapsto> n)" "bc_queue (cw_cache w') = n # bc_queue (cw_cache w)"
    "bc_capacity (cw_cache w') = bc_capacity (cw_cache w)"
    using cp w's by simp_all
  show mp: "page_mask (ln_page n) = p" using cp(4) pm by simp
  have "i \<in> free_set (cw_phys w)" "free_set ph = free_set (cw_phys w) - {i}" using al(2) by (auto simp: phys_took_def)
  hence card: "card (free_set (cw_phys w)) = Suc (card (free_set ph))" by (metis card_Suc_Diff1 finite_free_set)
  show "world_inv medium N w'"
    unfolding world_inv_def
  proof (intro conjI ballI impI allI)
    fix m assume "m \<in> set (bc_queue (cw_cache w'))"
    then consider "m = n" | "m \<in> set (bc_queue (cw_cache w))" using cp(2) w's(1) by auto
    thus "page_mask (ln_page m) \<in> owned_pages PU_CACHE (cw_phys w')"
      "ln_block m * MM_PAGE_SIZE + MM_PAGE_SIZE \<le> N"
      "\<not> page_dirty (ln_page m) \<Longrightarrow> cw_mem w' (page_mask (ln_page m)) = page_of medium (cw_disk w') (ln_block m)"
      using inv fresh [of m] mp p(3) b cp(3) by (cases; simp add: w's world_inv_def)+
  next
    show "bc_capacity (cw_cache w') \<le> bc_size (cw_cache w') + card (free_set (cw_phys w'))"
      using inv card cp(6,7) by (simp add: w's world_inv_def)
    show "length (cw_mem w' q) = MM_PAGE_SIZE" for q using inv by (simp add: w's world_inv_def)
  qed (use cp(1) p(1) w's in simp_all)
  show "view medium w' = view medium w"
  proof
    fix x
    show "view medium w' x = view medium w x"
    proof (cases "x div MM_PAGE_SIZE = a")
      case True
      hence "a * MM_PAGE_SIZE + x mod MM_PAGE_SIZE = x" using div_mult_mod_eq [of x MM_PAGE_SIZE] by simp
      thus ?thesis using True new mp cp(5) by (simp add: view_def w's nth_page_of)
    next
      case False
      have "m \<in> set (bc_queue (cw_cache w))" if "node_of (cw_cache w) (x div MM_PAGE_SIZE) = Some m" for m
        using that node_of_Some [OF ci] by blast
      thus ?thesis using False cp(5) fresh by (auto simp: view_def w's split: option.split)
    qed
  qed
qed

text \<open>One round of the loops: the page is cached afterwards and shows the contents of its block.\<close>

definition fetched :: "('d \<Rightarrow> nat \<Rightarrow> byte) \<Rightarrow> nat \<Rightarrow> nat \<Rightarrow> nat \<Rightarrow> 'd cache_world \<Rightarrow> 'd cache_world \<Rightarrow> bool" where
  "fetched medium N a page w w' \<longleftrightarrow>
    world_inv medium N w' \<and> view medium w' = view medium w \<and> bc_capacity (cw_cache w') = bc_capacity (cw_cache w)
    \<and> (\<exists>n. node_of (cw_cache w') a = Some n \<and> page_mask (ln_page n) = page \<and> hd (bc_queue (cw_cache w')) = n)"

lemma fetch_ok:
  assumes drv: "driver_ok blk medium N" and inv: "world_inv medium N w" and b: "a * MM_PAGE_SIZE + MM_PAGE_SIZE \<le> N"
  shows "\<exists>page w'. blk_fetch blk a w = Some (page, w') \<and> fetched medium N a page w w'"
proof -
  note ci = world_inv_cache [OF inv]
  have ps: "bc_page_size (cw_cache w) = MM_PAGE_SIZE" using ci by (simp add: cache_inv_def)
  show ?thesis
  proof (cases "node_of (cw_cache w) a")
    case (Some n)
    obtain w' where w': "block_cache_get blk (a * MM_PAGE_SIZE) w = Some (0, page_mask (ln_page n), w')"
      "world_inv medium N w'" "view medium w' = view medium w" "bc_queue (cw_cache w') = n # remove1 n (bc_queue (cw_cache w))"
      "node_of (cw_cache w') = node_of (cw_cache w)" "bc_capacity (cw_cache w') = bc_capacity (cw_cache w)"
      using get_hit [OF inv Some] by blast
    hence "blk_fetch blk a w = Some (page_mask (ln_page n), w')" by (simp add: blk_fetch_def ps Let_def)
    thus ?thesis using w' Some by (auto simp: fetched_def)
  next
    case None
    obtain w1 where room: "(if bc_capacity (cw_cache w) = bc_size (cw_cache w) then block_cache_evict blk w else Some w) = Some w1"
      and w1: "world_inv medium N w1" "view medium w1 = view medium w" "node_of (cw_cache w1) a = None"
        "length (bc_queue (cw_cache w1)) < bc_capacity (cw_cache w1)" "bc_capacity (cw_cache w1) = bc_capacity (cw_cache w)"
      using make_room [OF drv inv None] by blast
    note ci1 = world_inv_cache [OF w1(1)]
    have pi: "phys_inv (cw_phys w1)" using w1(1) by (simp add: world_inv_def)
    have "free_set (cw_phys w1) \<noteq> {}"
      using w1(1,4) ci1 by (auto simp: world_inv_def cache_inv_def)
    then obtain i ph where al: "mm_phys_alloc_page PU_CACHE (cw_phys w1) = Some (Some (i * MM_PAGE_SIZE), ph)"
        "phys_took PU_CACHE {i} (cw_phys w1) ph"
      using mm_phys_alloc_page_ok [OF pi, of PU_CACHE] by auto
    let ?p = "i * MM_PAGE_SIZE"
    obtain n c1 where n: "(n, c1) = block_cache_queue_push_head a ?p (cw_cache w1)"
      by (cases "block_cache_queue_push_head a ?p (cw_cache w1)") auto
    define w2 where "w2 = w1\<lparr>cw_phys := ph, cw_cache := c1\<lparr>bc_index := lru_hash_insert (bc_index c1) a (ln_id n)\<rparr>\<rparr>"
    define w' where "w' = w1\<lparr>cw_phys := ph, cw_cache := c1\<lparr>bc_index := lru_hash_insert (bc_index c1) a (ln_id n)\<rparr>,
        cw_mem := (cw_mem w1)(?p := page_of medium (cw_disk w1) a)\<rparr>"
    note pf = push_filled [OF w1(1,3,4) b al n w'_def]
    have "lru_hash_lookup (bc_index (cw_cache w)) a = None" using ci None by (simp add: lru_lookup_map cache_inv_def)
    moreover have "bc_page_size (cw_cache w1) = MM_PAGE_SIZE" using ci1 by (simp add: cache_inv_def)
    moreover have "block_cache_queue_push_head a ?p (cw_cache (w1\<lparr>cw_phys := ph\<rparr>)) = (n, c1)" using n by simp
    ultimately have get: "block_cache_get blk (a * MM_PAGE_SIZE) w = Some (-1, ?p, w2)"
      using room al(1) by (simp add: block_cache_get_def block_cache_page_alloc_def ps w2_def)
    have "length (cw_mem w1 ?p) = MM_PAGE_SIZE" using w1(1) by (simp add: world_inv_def)
    hence "blk_fetch blk a w = Some (?p, w')"
      using get fill_page [OF drv b, of "cw_disk w1"] by (simp add: blk_fetch_def ps w2_def w'_def)
    thus ?thesis using pf w1(2,5) by (auto simp: fetched_def)
  qed
qed

section \<open>Reading and writing through the cache\<close>

lemma fetched_byte:
  assumes "fetched medium N a page w w'" "j < MM_PAGE_SIZE"
  shows "cw_mem w' page ! j = view medium w (a * MM_PAGE_SIZE + j)"
proof -
  obtain n where n: "node_of (cw_cache w') a = Some n" "page_mask (ln_page n) = page" and v: "view medium w' = view medium w"
    using assms(1) by (auto simp: fetched_def)
  have "view medium w' (a * MM_PAGE_SIZE + j) = cw_mem w' page ! j"
    using assms(2) n by (simp add: view_def)
  thus ?thesis using v by simp
qed

lemma fetched_bytes:
  assumes f: "fetched medium N a page w w'" and o: "off + can \<le> MM_PAGE_SIZE"
  shows "take can (drop off (cw_mem w' page)) =
    map (view medium w) [a * MM_PAGE_SIZE + off..<a * MM_PAGE_SIZE + off + can]"
proof (rule nth_equalityI)
  have len: "length (cw_mem w' page) = MM_PAGE_SIZE" using f by (simp add: fetched_def world_inv_def)
  thus "length (take can (drop off (cw_mem w' page))) =
      length (map (view medium w) [a * MM_PAGE_SIZE + off..<a * MM_PAGE_SIZE + off + can])"
    using o by simp
  fix i assume i: "i < length (take can (drop off (cw_mem w' page)))"
  thus "take can (drop off (cw_mem w' page)) ! i =
      map (view medium w) [a * MM_PAGE_SIZE + off..<a * MM_PAGE_SIZE + off + can] ! i"
    using o len fetched_byte [OF f, of "off + i"] by (simp add: add.assoc)
qed

lemma mark_dirty_inv:
  assumes inv: "cache_inv c" and n: "n \<in> set (bc_queue c)"
    and c': "c' = c\<lparr>bc_queue := map (\<lambda>m. if ln_id m = ln_id n then m\<lparr>ln_page := page_set_dirty (ln_page m)\<rparr> else m) (bc_queue c)\<rparr>"
  shows "cache_inv c'" "\<And>a. node_of c' a = map_option (\<lambda>m. if m = n then n\<lparr>ln_page := page_set_dirty (ln_page n)\<rparr> else m) (node_of c a)"
    "set (bc_queue c') = insert (n\<lparr>ln_page := page_set_dirty (ln_page n)\<rparr>) (set (bc_queue c) - {n})"
    "bc_capacity c' = bc_capacity c" "bc_size c' = bc_size c"
proof -
  let ?n = "n\<lparr>ln_page := page_set_dirty (ln_page n)\<rparr>"
  have id: "ln_id m = ln_id n \<longleftrightarrow> m = n" if "m \<in> set (bc_queue c)" for m
    using inv that n by (auto simp: cache_inv_def distinct_map inj_on_def)
  hence q: "bc_queue c' = map (\<lambda>m. if m = n then ?n else m) (bc_queue c)" by (auto simp: c')
  have maps: "map ln_id (bc_queue c') = map ln_id (bc_queue c)" "map ln_block (bc_queue c') = map ln_block (bc_queue c)"
    "map (\<lambda>m. page_mask (ln_page m)) (bc_queue c') = map (\<lambda>m. page_mask (ln_page m)) (bc_queue c)"
    by (auto simp: q)
  show nd: "node_of c' a = map_option (\<lambda>m. if m = n then ?n else m) (node_of c a)" for a
  proof -
    have "List.find (\<lambda>m. ln_block m = a) (map (\<lambda>m. if m = n then ?n else m) xs) =
        map_option (\<lambda>m. if m = n then ?n else m) (List.find (\<lambda>m. ln_block m = a) xs)" for xs
      by (induction xs) auto
    thus ?thesis by (simp add: node_of_def q)
  qed
  show "set (bc_queue c') = insert ?n (set (bc_queue c) - {n})" using n by (auto simp: q)
  show "bc_capacity c' = bc_capacity c" "bc_size c' = bc_size c" by (simp_all add: c')
  have "map_option ln_id (node_of c' a) = map_option ln_id (node_of c a)" for a
    by (cases "node_of c a") (auto simp: nd)
  moreover have "\<forall>m \<in> set (bc_queue c'). ln_id m < bc_fresh c'" using inv n by (auto simp: cache_inv_def q c')
  moreover have "length (bc_queue c') = length (bc_queue c)" by (simp add: q)
  ultimately show "cache_inv c'"
    using inv unfolding cache_inv_def maps by (simp add: c')
qed

lemma overlay_nth:
  assumes "length dst = MM_PAGE_SIZE" "off + length src \<le> MM_PAGE_SIZE" "i < MM_PAGE_SIZE"
  shows "overlay dst off src ! i = (if off \<le> i \<and> i < off + length src then src ! (i - off) else dst ! i)"
    and "length (overlay dst off src) = MM_PAGE_SIZE"
  using assms by (auto simp: overlay_def nth_append)

definition stored :: "(nat \<Rightarrow> byte) \<Rightarrow> nat \<Rightarrow> byte list \<Rightarrow> nat \<Rightarrow> byte" where
  "stored v off bs x = (if off \<le> x \<and> x < off + length bs then bs ! (x - off) else v x)"

lemma write_step:
  assumes f: "fetched medium N a page w w'" and o: "off + length bs \<le> MM_PAGE_SIZE"
  shows "\<exists>w''. block_cache_mark_dirty (a * MM_PAGE_SIZE)
      (w'\<lparr>cw_mem := (cw_mem w')(page := overlay (cw_mem w' page) off bs)\<rparr>) = Some w''
    \<and> world_inv medium N w'' \<and> view medium w'' = stored (view medium w) (a * MM_PAGE_SIZE + off) bs"
proof -
  have inv: "world_inv medium N w'" and v: "view medium w' = view medium w" using f by (simp_all add: fetched_def)
  obtain n where n: "node_of (cw_cache w') a = Some n" "page_mask (ln_page n) = page" using f by (auto simp: fetched_def)
  note ci = world_inv_cache [OF inv]
  have nq: "n \<in> set (bc_queue (cw_cache w'))" "ln_block n = a" using node_of_Some [OF ci] n(1) by auto
  have len: "length (cw_mem w' page) = MM_PAGE_SIZE" using inv by (simp add: world_inv_def)
  define c' where "c' = (cw_cache w')\<lparr>bc_queue := map (\<lambda>m. if ln_id m = ln_id n then m\<lparr>ln_page := page_set_dirty (ln_page m)\<rparr> else m) (bc_queue (cw_cache w'))\<rparr>"
  note md = mark_dirty_inv [OF ci nq(1) c'_def]
  let ?n = "n\<lparr>ln_page := page_set_dirty (ln_page n)\<rparr>"
  define w'' where "w'' = w'\<lparr>cw_mem := (cw_mem w')(page := overlay (cw_mem w' page) off bs), cw_cache := c'\<rparr>"
  have "lru_hash_lookup (bc_index (cw_cache w')) a = Some (a, ln_id n)" "bc_page_size (cw_cache w') = MM_PAGE_SIZE"
    using ci n(1) by (simp_all add: lru_lookup_map cache_inv_def)
  hence run: "block_cache_mark_dirty (a * MM_PAGE_SIZE)
      (w'\<lparr>cw_mem := (cw_mem w')(page := overlay (cw_mem w' page) off bs)\<rparr>) = Some w''"
    using node_at_Some [OF ci nq(1)] by (simp add: block_cache_mark_dirty_def w''_def c'_def Let_def)
  have w's: "cw_cache w'' = c'" "cw_disk w'' = cw_disk w'" "cw_phys w'' = cw_phys w'"
    "cw_mem w'' = (cw_mem w')(page := overlay (cw_mem w' page) off bs)"
    by (simp_all add: w''_def)
  have other: "page_mask (ln_page m) \<noteq> page" if "m \<in> set (bc_queue (cw_cache w'))" "m \<noteq> n" for m
  proof -
    have "inj_on (\<lambda>m. page_mask (ln_page m)) (set (bc_queue (cw_cache w')))" using ci by (simp add: cache_inv_def distinct_map)
    thus ?thesis using that nq(1) n(2) by (auto simp: inj_on_def)
  qed
  have "world_inv medium N w''"
    unfolding world_inv_def
  proof (intro conjI ballI impI allI)
    fix m assume "m \<in> set (bc_queue (cw_cache w''))"
    then consider "m = ?n" | "m \<in> set (bc_queue (cw_cache w'))" "m \<noteq> n" using md(3) w's(1) by auto
    thus "page_mask (ln_page m) \<in> owned_pages PU_CACHE (cw_phys w'')"
      "ln_block m * MM_PAGE_SIZE + MM_PAGE_SIZE \<le> N"
      "\<not> page_dirty (ln_page m) \<Longrightarrow> cw_mem w'' (page_mask (ln_page m)) = page_of medium (cw_disk w'') (ln_block m)"
      using inv other [of m] nq(1) by (cases; simp add: w's world_inv_def)+
  next
    show "bc_capacity (cw_cache w'') \<le> bc_size (cw_cache w'') + card (free_set (cw_phys w''))"
      using inv md(4,5) by (simp add: w's world_inv_def)
    show "length (cw_mem w'' q) = MM_PAGE_SIZE" for q
      using inv overlay_nth(2) [OF len o MM_PAGE_SIZE_pos] by (simp add: w's world_inv_def)
    show "phys_inv (cw_phys w'')" using inv by (simp add: w's world_inv_def)
  qed (use md(1) w's in simp)
  moreover have "view medium w'' x = stored (view medium w) (a * MM_PAGE_SIZE + off) bs x" for x
  proof (cases "x div MM_PAGE_SIZE = a")
    case True
    define j where "j = x mod MM_PAGE_SIZE"
    have x: "x = a * MM_PAGE_SIZE + j" "j < MM_PAGE_SIZE"
      using True div_mult_mod_eq [of x MM_PAGE_SIZE] by (simp_all add: j_def)
    have "view medium w'' x = overlay (cw_mem w' page) off bs ! j"
      using True n md(2) [of a] by (simp add: view_def w's j_def)
    also have "\<dots> = stored (view medium w) (a * MM_PAGE_SIZE + off) bs x"
      using overlay_nth(1) [OF len o x(2)] fetched_byte [OF f x(2)] x(1) by (auto simp: stored_def)
    finally show ?thesis .
  next
    case False
    have "\<not> (a * MM_PAGE_SIZE + off \<le> x \<and> x < a * MM_PAGE_SIZE + off + length bs)"
      using False block_bytes [of x a] o by linarith
    moreover have "view medium w'' x = view medium w' x"
    proof (cases "node_of (cw_cache w') (x div MM_PAGE_SIZE)")
      case None
      thus ?thesis using md(2) [of "x div MM_PAGE_SIZE"] by (simp add: view_def w's)
    next
      case (Some m)
      hence "m \<in> set (bc_queue (cw_cache w'))" "m \<noteq> n" using node_of_Some [OF ci] False nq(2) by auto
      thus ?thesis using Some md(2) [of "x div MM_PAGE_SIZE"] other [of m] by (simp add: view_def w's)
    qed
    ultimately show ?thesis using v by (auto simp: stored_def)
  qed
  ultimately show ?thesis using run by (intro exI [of _ w'']) auto
qed

declare blk_read_loop.simps [simp del] blk_write_loop.simps [simp del] block_cache_flush.simps [simp del]

lemma page_bound:
  assumes "x < N" "N mod MM_PAGE_SIZE = 0"
  shows "x div MM_PAGE_SIZE * MM_PAGE_SIZE + MM_PAGE_SIZE \<le> N"
proof -
  obtain k where k: "N = MM_PAGE_SIZE * k" using assms(2) by (auto simp: mod_eq_0_iff_dvd dvd_def)
  hence "x div MM_PAGE_SIZE < k" using assms(1) by (metis less_mult_imp_div_less mult.commute)
  hence "Suc (x div MM_PAGE_SIZE) * MM_PAGE_SIZE \<le> k * MM_PAGE_SIZE" by (intro mult_le_mono1) simp
  thus ?thesis by (simp add: k algebra_simps)
qed

lemma read_loop_ok:
  assumes drv: "driver_ok blk medium N" and N: "N mod MM_PAGE_SIZE = 0"
  shows "world_inv medium N w \<Longrightarrow> index * MM_PAGE_SIZE + off mod MM_PAGE_SIZE + rem \<le> N \<Longrightarrow>
    off mod MM_PAGE_SIZE = 0 \<or> off mod MM_PAGE_SIZE + rem \<le> MM_PAGE_SIZE \<Longrightarrow>
    \<exists>w'. blk_read_loop blk off index rem buf w =
        Some (buf @ map (view medium w) [index * MM_PAGE_SIZE + off mod MM_PAGE_SIZE..<index * MM_PAGE_SIZE + off mod MM_PAGE_SIZE + rem], w')
      \<and> world_inv medium N w' \<and> view medium w' = view medium w"
proof (induction rem arbitrary: index buf w rule: less_induct)
  case (less rem)
  let ?o = "off mod MM_PAGE_SIZE"
  let ?x = "index * MM_PAGE_SIZE + ?o"
  define can where "can = min (MM_PAGE_SIZE - ?o) rem"
  have ps: "bc_page_size (cw_cache w) = MM_PAGE_SIZE" using world_inv_cache [OF less.prems(1)] by (simp add: cache_inv_def)
  have o: "?o < MM_PAGE_SIZE" by simp
  show ?case
  proof (cases "rem = 0")
    case False
    have "?x < N" using less.prems(2) False by simp
    hence "index * MM_PAGE_SIZE + MM_PAGE_SIZE \<le> N" using page_bound [OF _ N, of ?x] o by simp
    then obtain page w1 where w1: "blk_fetch blk index w = Some (page, w1)" "fetched medium N index page w w1"
      using fetch_ok [OF drv less.prems(1)] by blast
    have inv1: "world_inv medium N w1" "view medium w1 = view medium w" using w1(2) by (simp_all add: fetched_def)
    have can: "0 < can" "?o + can \<le> MM_PAGE_SIZE" "can \<le> rem" "can = rem \<or> can = MM_PAGE_SIZE - ?o"
      using False o unfolding can_def min_def by (auto split: if_splits)
    have chunk: "take can (drop ?o (cw_mem w1 page)) = map (view medium w) [?x..<?x + can]"
      using fetched_bytes [OF w1(2) can(2)] by (simp add: add.assoc)
    have step: "blk_read_loop blk off index rem buf w =
        blk_read_loop blk off (Suc index) (rem - can) (buf @ map (view medium w) [?x..<?x + can]) w1"
      using False can(1) w1(1) chunk 
      unfolding blk_read_loop.simps [of blk off index rem buf w] Let_def ps can_def [symmetric] by simp
    show ?thesis
    proof (cases "rem - can = 0")
      case True
      hence "can = rem" using can(3) by simp
      thus ?thesis using step inv1 by (simp add: blk_read_loop.simps)
    next
      case f: False
      hence "can \<noteq> rem" by simp
      hence al: "?o = 0" "can = MM_PAGE_SIZE" using less.prems(3) can by linarith+
      have "\<exists>w'. blk_read_loop blk off (Suc index) (rem - can) (buf @ map (view medium w) [?x..<?x + can]) w1 =
          Some ((buf @ map (view medium w) [?x..<?x + can]) @ map (view medium w1) [Suc index * MM_PAGE_SIZE + ?o..<Suc index * MM_PAGE_SIZE + ?o + (rem - can)], w')
        \<and> world_inv medium N w' \<and> view medium w' = view medium w1"
        using less.prems(2) al can(1,3) False by (intro less.IH inv1(1)) (simp_all add: algebra_simps)
      moreover have "[?x..<?x + rem] = [?x..<?x + can] @ [Suc index * MM_PAGE_SIZE + ?o..<Suc index * MM_PAGE_SIZE + ?o + (rem - can)]"
      proof -
        have e: "Suc index * MM_PAGE_SIZE + ?o = ?x + can" "?x + can + (rem - can) = ?x + rem" using al can(3) by simp_all
        show ?thesis unfolding e using upt_add_eq_append [of ?x "?x + can" "rem - can"] e(2) by simp
      qed
      ultimately show ?thesis using step inv1(2) by (simp only: map_append append_assoc)
    qed
  qed (use less.prems in \<open>auto simp: blk_read_loop.simps\<close>)
qed

lemma stored_append:
  "stored (stored v off xs) (off + length xs) ys = stored v off (xs @ ys)"
  by (auto simp: stored_def fun_eq_iff nth_append)

lemma write_loop_ok:
  assumes drv: "driver_ok blk medium N" and N: "N mod MM_PAGE_SIZE = 0"
  shows "world_inv medium N w \<Longrightarrow> index * MM_PAGE_SIZE + off mod MM_PAGE_SIZE + length buf \<le> N \<Longrightarrow>
    off mod MM_PAGE_SIZE = 0 \<or> off mod MM_PAGE_SIZE + length buf \<le> MM_PAGE_SIZE \<Longrightarrow>
    \<exists>w'. blk_write_loop blk off index buf w = Some w' \<and> world_inv medium N w'
      \<and> view medium w' = stored (view medium w) (index * MM_PAGE_SIZE + off mod MM_PAGE_SIZE) buf"
proof (induction "length buf" arbitrary: index buf w rule: less_induct)
  case (less buf)
  let ?o = "off mod MM_PAGE_SIZE"
  let ?x = "index * MM_PAGE_SIZE + ?o"
  define can where "can = min (MM_PAGE_SIZE - ?o) (length buf)"
  have ps: "bc_page_size (cw_cache w) = MM_PAGE_SIZE" using world_inv_cache [OF less.prems(1)] by (simp add: cache_inv_def)
  have o: "?o < MM_PAGE_SIZE" by simp
  show ?case
  proof (cases "buf = []")
    case False
    have "?x < N" using less.prems(2) False by (cases buf) auto
    hence "index * MM_PAGE_SIZE + MM_PAGE_SIZE \<le> N" using page_bound [OF _ N, of ?x] o by simp
    then obtain page w1 where w1: "blk_fetch blk index w = Some (page, w1)" "fetched medium N index page w w1"
      using fetch_ok [OF drv less.prems(1)] by blast
    have can: "0 < can" "?o + length (take can buf) \<le> MM_PAGE_SIZE" "can \<le> length buf"
        "can = length buf \<or> can = MM_PAGE_SIZE - ?o"
      using False o unfolding can_def min_def by (auto split: if_splits)
    obtain w2 where w2: "block_cache_mark_dirty (index * MM_PAGE_SIZE)
        (w1\<lparr>cw_mem := (cw_mem w1)(page := overlay (cw_mem w1 page) ?o (take can buf))\<rparr>) = Some w2"
      "world_inv medium N w2" "view medium w2 = stored (view medium w) ?x (take can buf)"
      using write_step [OF w1(2) can(2)] by blast
    have step: "blk_write_loop blk off index buf w = blk_write_loop blk off (Suc index) (drop can buf) w2"
      using False can(1) w1(1) w2(1) 
      unfolding blk_write_loop.simps [of blk off index buf w] Let_def ps can_def [symmetric] by simp
    show ?thesis
    proof (cases "drop can buf = []")
      case True
      hence "take can buf = buf" by simp
      thus ?thesis using step True w2(2,3) by (simp add: blk_write_loop.simps)
    next
      case f: False
      hence "can < length buf" by simp
      hence al: "?o = 0" "can = MM_PAGE_SIZE" "MM_PAGE_SIZE < length buf" using less.prems(3) can by linarith+
      have "\<exists>w'. blk_write_loop blk off (Suc index) (drop can buf) w2 = Some w' \<and> world_inv medium N w'
        \<and> view medium w' = stored (view medium w2) (Suc index * MM_PAGE_SIZE + ?o) (drop can buf)"
      proof (rule less.hyps [OF _ w2(2)])
        show "length (drop can buf) < length buf" using can(1,3) by simp
      qed (use less.prems(2) al in \<open>simp_all add: algebra_simps\<close>)
      moreover have "Suc index * MM_PAGE_SIZE + ?o = ?x + length (take can buf)" using al by simp
      ultimately show ?thesis using step w2(3) stored_append [of "view medium w" ?x "take can buf" "drop can buf"]
        by (simp only: append_take_drop_id)
    qed
  qed (use less.prems in \<open>auto simp: blk_write_loop.simps stored_def fun_eq_iff\<close>)
qed

section \<open>Properties of the block layer\<close>

text \<open>A driver over a plain byte medium, and an empty cache on it; both are used to instantiate the hypotheses.\<close>

definition mem_driver :: "nat \<Rightarrow> (nat \<Rightarrow> byte) blkdev" where
  "mem_driver N = \<lparr> bd_cached = True, bd_read = Some (\<lambda>off n d. (int n, map d [off..<off + n])),
     bd_write = Some (\<lambda>bs off d. (int (length bs), stored d off bs)) \<rparr>"

lemma mem_driver_cached: "bd_cached (mem_driver N)"
  by (simp add: mem_driver_def)

lemma mem_driver_ok: "driver_ok (mem_driver N) (\<lambda>d. d) N"
  by (auto simp: driver_ok_def mem_driver_def stored_def)

definition fresh_world :: "nat \<Rightarrow> phys \<Rightarrow> 'd \<Rightarrow> 'd cache_world" where
  "fresh_world cap ph d = \<lparr> cw_cache = block_cache_init MM_PAGE_SIZE cap, cw_mem = (\<lambda>_. replicate MM_PAGE_SIZE 0), cw_phys = ph, cw_disk = d \<rparr>"

lemma fresh_world_inv:
  assumes "phys_inv ph" "0 < cap" "cap \<le> card (free_set ph)"
  shows "world_inv medium N (fresh_world cap ph d)"
  using assms by (simp add: world_inv_def fresh_world_def cache_inv_def block_cache_init_def lru_wf_def lru_hash_init_def
      lru_map_bucket node_of_def)

text \<open>A machine with three free pages.\<close>

definition small_phys :: phys where
  "small_phys = \<lparr> mm_pages = (\<lambda>i. if i \<in> {300, 301, 302} then \<lparr> pg_flags = 0, pg_usage = PU_UNKNOWN, pg_refcount = 0 \<rparr>
       else \<lparr> pg_flags = PG_ALLOC, pg_usage = PU_UNKNOWN, pg_refcount = REFCOUNT_RESERVED \<rparr>),
     ph_total_pages = 3, ph_pages_free = 3, ph_alloc_pages = (\<lambda>_. 0), ph_reserved = [] \<rparr>"

lemma small_phys_ok: "phys_inv small_phys" "card (free_set small_phys) = 3"
proof -
  have al: "pg_alloc (mm_pages small_phys i) \<longleftrightarrow> i \<notin> {300, 301, 302}" for i
    by (simp add: small_phys_def pg_alloc_def BIT_eq_0)
  have free: "free_set small_phys = {300, 301, 302}"
    by (auto simp: free_set_def al LOW_PAGE_def PHYS_MAX_PAGES_def)
  have used: "used_set small_phys u = {}" for u
    by (auto simp: used_set_def al) (simp_all add: small_phys_def)
  show "card (free_set small_phys) = 3" by (simp add: free)
  show "phys_inv small_phys"
    unfolding phys_inv_def al used free
    by (auto simp: small_phys_def LOW_PAGE_def)
qed

lemma small_world_inv: "world_inv medium N (fresh_world 2 small_phys d)"
  by (rule fresh_world_inv) (simp_all add: small_phys_ok)

text \<open>
  C19: reading through the cache returns exactly what the device shows (its medium overlaid with the dirty
  pages), for page-aligned requests of any length and for requests inside one page; hits, misses,
  evictions and write-backs on the way do not change what the device shows and fire no assertion.
\<close>

theorem blk_read_correct:
  assumes "driver_ok blk medium N" "N mod MM_PAGE_SIZE = 0" "bd_cached blk" "world_inv medium N w" "off + lim \<le> N"
    and "off mod MM_PAGE_SIZE = 0 \<or> off mod MM_PAGE_SIZE + lim \<le> MM_PAGE_SIZE"
  shows "\<exists>w'. blk_read blk off lim w = Some (int lim, map (view medium w) [off..<off + lim], w')
    \<and> world_inv medium N w' \<and> view medium w' = view medium w"
proof -
  have ps: "bc_page_size (cw_cache w) = MM_PAGE_SIZE" using world_inv_cache [OF assms(4)] by (simp add: cache_inv_def)
  show ?thesis
    using read_loop_ok [OF assms(1,2,4), of "off div MM_PAGE_SIZE" off lim "[]"] assms(3,5,6)
    by (auto simp: blk_read_def ps)
qed

theorem blk_read_correct_witness:
  "\<exists>w'. blk_read (mem_driver 8192) 0 5000 (fresh_world 2 small_phys (\<lambda>_. 7)) =
      Some (5000, map (view (\<lambda>d. d) (fresh_world 2 small_phys (\<lambda>_. 7))) [0..<0 + 5000], w')"
  using blk_read_correct [OF mem_driver_ok _ mem_driver_cached small_world_inv, of 8192 0 5000 "\<lambda>_. 7"]
  by (auto simp: MM_PAGE_SIZE_def simp del: upt_rec_numeral)

text \<open>
  C21: writing through the cache changes what the device shows at exactly the bytes written, for page-aligned
  requests of any length and for requests inside one page.
\<close>

theorem blk_write_correct:
  assumes "driver_ok blk medium N" "N mod MM_PAGE_SIZE = 0" "bd_cached blk" "world_inv medium N w" "off + length buf \<le> N"
    and "off mod MM_PAGE_SIZE = 0 \<or> off mod MM_PAGE_SIZE + length buf \<le> MM_PAGE_SIZE"
  shows "\<exists>w'. blk_write blk buf off w = Some (int (length buf), w') \<and> world_inv medium N w'
    \<and> (\<forall>x. view medium w' x = (if off \<le> x \<and> x < off + length buf then buf ! (x - off) else view medium w x))"
proof -
  have ps: "bc_page_size (cw_cache w) = MM_PAGE_SIZE" using world_inv_cache [OF assms(4)] by (simp add: cache_inv_def)
  show ?thesis
    using write_loop_ok [OF assms(1,2,4), of "off div MM_PAGE_SIZE" off buf] assms(3,5,6)
    by (auto simp: blk_write_def ps stored_def)
qed

theorem blk_write_correct_witness:
  "\<exists>w'. blk_write (mem_driver 8192) [1, 2, 3] 4090 (fresh_world 2 small_phys (\<lambda>_. 7)) = Some (3, w')
     \<and> view (\<lambda>d. d) w' 4091 = 2"
  using blk_write_correct [OF mem_driver_ok _ mem_driver_cached small_world_inv, of 8192 4090 "[1, 2, 3]" "\<lambda>_. 7"]
  by (auto simp: MM_PAGE_SIZE_def)

text \<open>
  C23: flushing the cache terminates and brings the medium up to date: afterwards no page is cached, the device
  shows what it showed before, and the medium itself holds it; releasing the cache is then safe.
\<close>

theorem block_cache_flush_correct:
  assumes "driver_ok blk medium N" "bd_cached blk" "world_inv medium N w"
  shows "\<exists>blk' w'. blk_cache_release blk w = Some (blk', w') \<and> \<not> bd_cached blk' \<and> bc_queue (cw_cache w') = []
    \<and> (\<forall>x. medium (cw_disk w') x = view medium w x)"
proof -
  obtain w' where "block_cache_flush blk w = Some w'" "bc_queue (cw_cache w') = []"
      "\<forall>x. medium (cw_disk w') x = view medium w x"
    using flush_ok [OF assms(1,3)] by blast
  thus ?thesis using assms(2) by (simp add: blk_cache_release_def block_cache_release_def)
qed

theorem block_cache_flush_correct_witness:
  "\<exists>blk' w'. blk_cache_release (mem_driver 8192) (fresh_world 2 small_phys (\<lambda>_. 7)) = Some (blk', w')"
  using block_cache_flush_correct [OF mem_driver_ok mem_driver_cached small_world_inv] by blast

end
