(* ===== verification/Ramfs.thy ===== *)
theory Ramfs
  imports File_Refs Slab
begin

text \<open>
  The in-memory filesystem (src/fs/ram.c): files as tables of 512-byte blocks, each block in a page of
  its own, the first 32 block pointers in the vnode's private data and the others in pages of 512
  pointers. The operations form the operation table \<open>ramfs_ops\<close>, which is shown to obey the contract
  \<open>vfs_driver\<close>.

  A block pointer is a 64-bit word whose low bits are flags. The private data of a vnode holds the
  second-level pages together with their contents; the data bytes are in the memory \<open>rw_mem\<close>, indexed by
  virtual address. Sizes
  are 64-bit: \<open>blocks_of\<close> keeps the wrap-around of the code's rounding.
\<close>

section \<open>Block tables\<close>

abbreviation (input) RAM_BLOCKS_L0 :: nat where "RAM_BLOCKS_L0 \<equiv> 32"
abbreviation (input) RAM_BLOCKS_L1 :: nat where "RAM_BLOCKS_L1 \<equiv> 24"
abbreviation (input) RAM_BLOCKS_PER_Ln :: nat where "RAM_BLOCKS_PER_Ln \<equiv> 512"
abbreviation (input) SEEK_SET :: int where "SEEK_SET \<equiv> 0"
abbreviation (input) SEEK_CUR :: int where "SEEK_CUR \<equiv> 1"
abbreviation RAM_BSET_AVAIL :: "64 word" where "RAM_BSET_AVAIL \<equiv> BIT 0"
abbreviation RAM_BSET_ALLOC :: "64 word" where "RAM_BSET_ALLOC \<equiv> BIT 1"

definition RAM_BLOCKS :: nat where
  "RAM_BLOCKS = RAM_BLOCKS_L0 + RAM_BLOCKS_L1 * RAM_BLOCKS_PER_Ln"

record ram_vnode_private =
  rp_size :: nat
  rp_cap :: nat
  rp_l0 :: "64 word list"
  rp_l1 :: "(nat \<times> 64 word list) option list"

record ram_world =
  rw_phys :: phys
  rw_mem :: "nat \<Rightarrow> byte"
  rw_begin :: "64 word"
  rw_lim :: nat
  rw_root :: "nat \<Rightarrow> nat option"

type_synonym ramfs = "(ram_vnode_private, ram_world) vfs"

definition new_private :: ram_vnode_private where
  "new_private = \<lparr>rp_size = 0, rp_cap = 0, rp_l0 = replicate RAM_BLOCKS_L0 0, rp_l1 = replicate RAM_BLOCKS_L1 None\<rparr>"

definition blocks_of :: "nat \<Rightarrow> nat" where
  "blocks_of sz = (sz + 511) mod 2 ^ 64 div 512"

definition l1_index :: "nat \<Rightarrow> nat" where "l1_index i = (i - RAM_BLOCKS_L0) div RAM_BLOCKS_PER_Ln"
definition l0_index :: "nat \<Rightarrow> nat" where "l0_index i = (i - RAM_BLOCKS_L0) mod RAM_BLOCKS_PER_Ln"

text \<open>The entry an index leads to, and writing it; \<^term>\<open>None\<close> where the code asserts or panics.\<close>

definition bset_slot :: "ram_vnode_private \<Rightarrow> nat \<Rightarrow> 64 word kern" where
  "bset_slot priv i =
     (if i < RAM_BLOCKS_L0 then Some (rp_l0 priv ! i)
      else if i < RAM_BLOCKS then map_option (\<lambda>(pg, es). es ! l0_index i) (rp_l1 priv ! l1_index i)
      else None)"

definition bset_put :: "nat \<Rightarrow> 64 word \<Rightarrow> ram_vnode_private \<Rightarrow> ram_vnode_private" where
  "bset_put i e priv =
     (if i < RAM_BLOCKS_L0 then priv\<lparr>rp_l0 := (rp_l0 priv)[i := e]\<rparr>
      else priv\<lparr>rp_l1 := (rp_l1 priv)[l1_index i :=
                  map_option (\<lambda>(pg, es). (pg, es[l0_index i := e])) (rp_l1 priv ! l1_index i)]\<rparr>)"

definition ram_vnode_bset_get :: "ram_vnode_private \<Rightarrow> nat \<Rightarrow> 64 word kern" where
  "ram_vnode_bset_get priv index = do {
     e \<leftarrow> bset_slot priv index;
     kassert (e AND RAM_BSET_AVAIL \<noteq> 0);
     Some e
   }"

definition ram_vnode_bset_set :: "nat \<Rightarrow> 64 word \<Rightarrow> ram_vnode_private \<Rightarrow> ram_vnode_private kern" where
  "ram_vnode_bset_set index block priv = do {
     kassert (block AND 511 = 0 \<or> block AND RAM_BSET_ALLOC \<noteq> 0);
     e \<leftarrow> bset_slot priv index;
     kassert (e = RAM_BSET_AVAIL);
     Some (bset_put index (block OR RAM_BSET_AVAIL) priv)
   }"

definition bset_grow_one :: "nat \<Rightarrow> ram_vnode_private \<times> phys \<Rightarrow> (ram_vnode_private \<times> phys) kern" where
  "bset_grow_one i = (\<lambda>(priv, ph).
     if i < RAM_BLOCKS_L0 then do {
       kassert (rp_l0 priv ! i = 0);
       Some (bset_put i RAM_BSET_AVAIL priv, ph)
     }
     else if i < RAM_BLOCKS then
       (case rp_l1 priv ! l1_index i of
          Some _ \<Rightarrow> Some (bset_put i RAM_BSET_AVAIL priv, ph)
        | None \<Rightarrow> do {
            (pg, ph) \<leftarrow> mm_phys_alloc_page PU_KERNEL ph;
            blk \<leftarrow> pg;
            let priv = priv\<lparr>rp_l1 := (rp_l1 priv)[l1_index i := Some (blk, replicate RAM_BLOCKS_PER_Ln 0)]\<rparr>;
            Some (bset_put i RAM_BSET_AVAIL priv, ph)
          })
     else None)"

fun bset_grow :: "nat list \<Rightarrow> ram_vnode_private \<times> phys \<Rightarrow> (ram_vnode_private \<times> phys) kern" where
  "bset_grow [] s = Some s"
| "bset_grow (i # is) s = do { s \<leftarrow> bset_grow_one i s; bset_grow is s }"

definition bset_free_one :: "nat \<Rightarrow> ram_vnode_private \<times> phys \<Rightarrow> (ram_vnode_private \<times> phys) kern" where
  "bset_free_one i = (\<lambda>(priv, ph). do {
     blk \<leftarrow> bset_slot priv i;
     let priv = (if i < RAM_BLOCKS_L0 then bset_put i 0 priv else priv);
     kassert (blk AND RAM_BSET_AVAIL \<noteq> 0);
     ph \<leftarrow> (if blk AND RAM_BSET_ALLOC \<noteq> 0 then mm_phys_free_page (MM_PHYS (unat (blk AND NOT 511))) ph
            else Some ph);
     Some (priv, ph)
   })"

fun bset_free :: "nat list \<Rightarrow> ram_vnode_private \<times> phys \<Rightarrow> (ram_vnode_private \<times> phys) kern" where
  "bset_free [] s = Some s"
| "bset_free (i # is) s = do { s \<leftarrow> bset_free_one i s; bset_free is s }"

definition bset_free_l1_one :: "nat \<Rightarrow> ram_vnode_private \<times> phys \<Rightarrow> (ram_vnode_private \<times> phys) kern" where
  "bset_free_l1_one i = (\<lambda>(priv, ph). do {
     (pg, es) \<leftarrow> rp_l1 priv ! i;
     ph \<leftarrow> mm_phys_free_page pg ph;
     Some (priv\<lparr>rp_l1 := (rp_l1 priv)[i := None]\<rparr>, ph)
   })"

fun bset_free_l1 :: "nat list \<Rightarrow> ram_vnode_private \<times> phys \<Rightarrow> (ram_vnode_private \<times> phys) kern" where
  "bset_free_l1 [] s = Some s"
| "bset_free_l1 (i # is) s = do { s \<leftarrow> bset_free_l1_one i s; bset_free_l1 is s }"

definition ram_vnode_bset_resize :: "nat \<Rightarrow> ram_vnode_private \<times> phys \<Rightarrow> (ram_vnode_private \<times> phys) kern" where
  "ram_vnode_bset_resize sz = (\<lambda>(priv, ph). do {
     let count = blocks_of sz;
     let cap = rp_cap priv;
     (priv, ph) \<leftarrow>
       (if count < cap then do {
          s \<leftarrow> bset_free [count..<cap] (priv, ph);
          (if RAM_BLOCKS_L0 < cap \<and> count \<le> RAM_BLOCKS then do {
             let block_index = min ((cap - RAM_BLOCKS_L0 + RAM_BLOCKS_PER_Ln - 1) div RAM_BLOCKS_PER_Ln) RAM_BLOCKS_L1;
             let block_start = (count + RAM_BLOCKS_PER_Ln - RAM_BLOCKS_L0 - 1) div RAM_BLOCKS_PER_Ln;
             kassert (block_start \<le> block_index);
             bset_free_l1 [block_start..<block_index] s
           }
           else Some s)
        }
        else bset_grow [cap..<count] (priv, ph));
     Some (priv\<lparr>rp_size := sz, rp_cap := count\<rparr>, ph)
   })"

text \<open>The loop that gives every new block a page, the same in \<open>write\<close> and \<open>truncate\<close>.\<close>

definition bset_alloc_one :: "nat \<Rightarrow> ram_vnode_private \<times> phys \<Rightarrow> (ram_vnode_private \<times> phys) kern" where
  "bset_alloc_one i = (\<lambda>(priv, ph). do {
     (pg, ph) \<leftarrow> mm_phys_alloc_page PU_KERNEL ph;
     blk \<leftarrow> pg;
     priv \<leftarrow> ram_vnode_bset_set i (of_nat (MM_VIRTUALIZE blk) OR RAM_BSET_ALLOC) priv;
     Some (priv, ph)
   })"

fun bset_alloc :: "nat list \<Rightarrow> ram_vnode_private \<times> phys \<Rightarrow> (ram_vnode_private \<times> phys) kern" where
  "bset_alloc [] s = Some s"
| "bset_alloc (i # is) s = do { s \<leftarrow> bset_alloc_one i s; bset_alloc is s }"

definition bset_extend :: "nat \<Rightarrow> ram_vnode_private \<times> phys \<Rightarrow> (ram_vnode_private \<times> phys) kern" where
  "bset_extend sz s = do {
     let cap = rp_cap (fst s);
     s \<leftarrow> ram_vnode_bset_resize sz s;
     bset_alloc [cap..<blocks_of sz] s
   }"

section \<open>Operations on files\<close>

definition truncate_priv :: "nat \<Rightarrow> ram_vnode_private \<times> phys \<Rightarrow> (ram_vnode_private \<times> phys) kern" where
  "truncate_priv sz s =
     (if rp_size (fst s) < sz then bset_extend sz s
      else if sz < rp_size (fst s) then ram_vnode_bset_resize sz s
      else Some s)"

definition bytes_at :: "(nat \<Rightarrow> byte) \<Rightarrow> nat \<Rightarrow> nat \<Rightarrow> byte list" where
  "bytes_at mem a n = map (\<lambda>k. mem (a + k)) [0..<n]"

definition put_bytes :: "nat \<Rightarrow> byte list \<Rightarrow> (nat \<Rightarrow> byte) \<Rightarrow> nat \<Rightarrow> byte" where
  "put_bytes a bs mem = (\<lambda>x. if a \<le> x \<and> x < a + length bs then bs ! (x - a) else mem x)"

definition block_addr :: "ram_vnode_private \<Rightarrow> nat \<Rightarrow> nat kern" where
  "block_addr priv index = do {
     blk \<leftarrow> ram_vnode_bset_get priv index;
     kassert (blk AND NOT 511 \<noteq> 0);
     Some (unat (blk AND NOT 511))
   }"

function ram_read_loop :: "ram_vnode_private \<Rightarrow> (nat \<Rightarrow> byte) \<Rightarrow> nat \<Rightarrow> nat \<Rightarrow> byte list kern" where
  "ram_read_loop priv mem pos rem =
     (if rem = 0 then Some []
      else do {
        let can = min rem (512 - pos mod 512);
        a \<leftarrow> block_addr priv (pos div 512);
        rest \<leftarrow> ram_read_loop priv mem (pos + can) (rem - can);
        Some (bytes_at mem (a + pos mod 512) can @ rest)
      })"
  by pat_completeness auto

termination ram_read_loop
proof (relation "measure (\<lambda>(priv, mem, pos, rem). rem)", goal_cases)
  case (2 priv mem pos rem can a)
  have "pos mod 512 < 512" by simp
  thus ?case using 2 by simp
qed simp

declare ram_read_loop.simps [simp del]

function ram_write_loop :: "ram_vnode_private \<Rightarrow> nat \<Rightarrow> byte list \<Rightarrow> (nat \<Rightarrow> byte) \<Rightarrow> (nat \<Rightarrow> byte) kern" where
  "ram_write_loop priv pos buf mem =
     (if buf = [] then Some mem
      else do {
        let can = min (length buf) (512 - pos mod 512);
        a \<leftarrow> block_addr priv (pos div 512);
        ram_write_loop priv (pos + can) (drop can buf) (put_bytes (a + pos mod 512) (take can buf) mem)
      })"
  by pat_completeness auto

termination ram_write_loop
proof (relation "measure (\<lambda>(priv, pos, buf, mem). length buf)", goal_cases)
  case (2 priv pos buf mem can a)
  have "pos mod 512 < 512" by simp
  thus ?case using 2 by (cases buf) simp_all
qed simp

declare ram_write_loop.simps [simp del]

text \<open>Access to a vnode's private data and the page allocator.\<close>

definition set_priv :: "nat \<Rightarrow> ram_vnode_private \<Rightarrow> ramfs \<Rightarrow> ramfs" where
  "set_priv v priv st = upd_node v (vn_data_update (\<lambda>_. Some priv)) st"

definition set_phys :: "phys \<Rightarrow> ramfs \<Rightarrow> ramfs" where
  "set_phys ph st = st\<lparr>vf_world := (vf_world st)\<lparr>rw_phys := ph\<rparr>\<rparr>"

definition ramfs_vnode_truncate :: "nat \<Rightarrow> nat \<Rightarrow> ramfs \<Rightarrow> (int \<times> ramfs) kern" where
  "ramfs_vnode_truncate v sz st = do {
     n \<leftarrow> vf_node st v;
     priv \<leftarrow> vn_data n;
     (priv, ph) \<leftarrow> truncate_priv sz (priv, rw_phys (vf_world st));
     Some (0, set_priv v priv (set_phys ph st))
   }"

definition ramfs_vnode_open :: "ofile \<Rightarrow> 32 word \<Rightarrow> ramfs \<Rightarrow> (int \<times> ofile \<times> ramfs) kern" where
  "ramfs_vnode_open fd opt st = Some (0, fd, st)"

definition ramfs_vnode_stat :: "nat \<Rightarrow> ramfs \<Rightarrow> (int \<times> stat_buf) kern" where
  "ramfs_vnode_stat v st = do {
     n \<leftarrow> vf_node st v;
     ty \<leftarrow> (case vn_type n of VN_REG \<Rightarrow> Some S_IFREG | VN_LNK \<Rightarrow> Some S_IFLNK | VN_DIR \<Rightarrow> Some S_IFDIR
            | VN_SOCK \<Rightarrow> Some S_IFSOCK | _ \<Rightarrow> None);
     (sz, blocks) \<leftarrow> (if vn_type n = VN_REG then map_option (\<lambda>priv. (rp_size priv, rp_cap priv)) (vn_data n)
                        else Some (512, 1));
     Some (0, \<lparr>st_mode = vn_mode n OR ty, st_uid = vn_uid n, st_gid = vn_gid n, st_size = sz,
               st_blksize = 512, st_blocks = blocks\<rparr>)
   }"

definition ramfs_vnode_read :: "ofile \<Rightarrow> nat \<Rightarrow> ramfs \<Rightarrow> (int \<times> byte list \<times> ofile \<times> ramfs) kern" where
  "ramfs_vnode_read fd count st = do {
     v \<leftarrow> of_vnode fd;
     n \<leftarrow> vf_node st v;
     priv \<leftarrow> vn_data n;
     (if rp_size priv \<le> of_pos fd then Some (0, [], fd\<lparr>of_pos := rp_size priv\<rparr>, st)
      else do {
        let rem = min count (rp_size priv - of_pos fd);
        buf \<leftarrow> ram_read_loop priv (rw_mem (vf_world st)) (of_pos fd) rem;
        Some (int rem, buf, fd\<lparr>of_pos := of_pos fd + rem\<rparr>, st)
      })
   }"

definition ramfs_vnode_write :: "ofile \<Rightarrow> byte list \<Rightarrow> ramfs \<Rightarrow> (int \<times> ofile \<times> ramfs) kern" where
  "ramfs_vnode_write fd buf st = do {
     v \<leftarrow> of_vnode fd;
     n \<leftarrow> vf_node st v;
     priv \<leftarrow> vn_data n;
     kassert (of_pos fd \<le> rp_size priv);
     let last = (of_pos fd + length buf) mod 2 ^ 64;
     (priv, ph) \<leftarrow> (if rp_size priv < last then bset_extend last (priv, rw_phys (vf_world st))
                    else Some (priv, rw_phys (vf_world st)));
     mem \<leftarrow> ram_write_loop priv (of_pos fd) buf (rw_mem (vf_world st));
     Some (int (length buf), fd\<lparr>of_pos := of_pos fd + length buf\<rparr>,
           set_priv v priv (st\<lparr>vf_world := (vf_world st)\<lparr>rw_phys := ph, rw_mem := mem\<rparr>\<rparr>))
   }"

definition off_of :: "nat \<Rightarrow> int" where
  "off_of n = (if n < 2 ^ 63 then int n else int n - 2 ^ 64)"

definition ramfs_vnode_lseek :: "ofile \<Rightarrow> int \<Rightarrow> int \<Rightarrow> ramfs \<Rightarrow> (int \<times> ofile \<times> ramfs) kern" where
  "ramfs_vnode_lseek fd off whence st = do {
     v \<leftarrow> of_vnode fd;
     n \<leftarrow> vf_node st v;
     priv \<leftarrow> vn_data n;
     (if whence = SEEK_SET then do {
        let uoff = nat (off mod 2 ^ 64);
        (res, st) \<leftarrow> (if rp_size priv < uoff then ramfs_vnode_truncate v uoff st else Some (0, st));
        (if res < 0 then Some (res, fd, st) else Some (off_of uoff, fd\<lparr>of_pos := uoff\<rparr>, st))
      }
      else if whence = SEEK_CUR then do {
        let pos = nat ((off + int (of_pos fd)) mod 2 ^ 64);
        (if off + off_of (of_pos fd) < 0 \<or> rp_size priv < pos then Some (- ESPIPE, fd, st)
         else Some (off_of pos, fd\<lparr>of_pos := pos\<rparr>, st))
      }
      else Some (off_of (of_pos fd), fd, st))
   }"

section \<open>Operations on the tree\<close>

definition RAMFS_OP :: nat where "RAMFS_OP = 0"

definition ram_vnode_create :: "vnode_type \<Rightarrow> string option \<Rightarrow> ramfs \<Rightarrow> (nat \<times> ramfs) kern" where
  "ram_vnode_create t filename st = do {
     (v, st) \<leftarrow> vnode_create t filename st;
     let priv = (if t = VN_REG \<or> t = VN_LNK then Some new_private else None);
     Some (v, upd_node v (\<lambda>n. n\<lparr>vn_flags := vn_flags n OR VN_MEMORY, vn_fs := None, vn_data := priv, vn_op := Some RAMFS_OP\<rparr>) st)
   }"

text \<open>The body \<open>creat\<close> and \<open>mkdir\<close> share; \<open>at\<close> has to be a live vnode from the start.\<close>

definition ramfs_create_at ::
  "vnode_type \<Rightarrow> nat \<Rightarrow> string \<Rightarrow> 32 word \<Rightarrow> 32 word \<Rightarrow> 32 word \<Rightarrow> ramfs \<Rightarrow> (int \<times> ramfs) kern" where
  "ramfs_create_at t at filename uid gid mode st = do {
     _ \<leftarrow> vf_node st at;
     (v, st) \<leftarrow> ram_vnode_create t (Some filename) st;
     let st = upd_node v (\<lambda>n. n\<lparr>vn_gid := gid, vn_uid := uid, vn_mode := mode AND VFS_MODE_MASK\<rparr>) st;
     st \<leftarrow> vnode_attach at v st;
     Some (0, st)
   }"

definition ramfs_vnode_creat ::
  "nat \<Rightarrow> string \<Rightarrow> 32 word \<Rightarrow> 32 word \<Rightarrow> 32 word \<Rightarrow> ramfs \<Rightarrow> (int \<times> ramfs) kern" where
  "ramfs_vnode_creat = ramfs_create_at VN_REG"

definition ramfs_vnode_mkdir ::
  "nat \<Rightarrow> string \<Rightarrow> 32 word \<Rightarrow> 32 word \<Rightarrow> 32 word \<Rightarrow> ramfs \<Rightarrow> (int \<times> ramfs) kern" where
  "ramfs_vnode_mkdir = ramfs_create_at VN_DIR"

definition ramfs_vnode_mknod :: "nat \<Rightarrow> nat \<Rightarrow> ramfs \<Rightarrow> (int \<times> ramfs) kern" where
  "ramfs_vnode_mknod at node st = do {
     n \<leftarrow> vf_node st at;
     kassert (vn_type n = VN_DIR);
     st \<leftarrow> vnode_attach at node (upd_node node (vn_op_update (\<lambda>_. Some RAMFS_OP)) st);
     Some (0, st)
   }"

definition ramfs_vnode_unlink :: "nat \<Rightarrow> ramfs \<Rightarrow> (int \<times> ramfs) kern" where
  "ramfs_vnode_unlink v st = do {
     n \<leftarrow> vf_node st v;
     (if vn_type n = VN_DIR \<and> vn_children n \<noteq> [] then Some (- EEXIST, st)
      else do {
        kassert (vn_data n \<noteq> None \<longrightarrow> vn_type n = VN_REG \<or> vn_type n = VN_LNK);
        Some (0, upd_node v (vn_data_update (\<lambda>_. None)) st)
      })
   }"

definition ramfs_ops :: "(ram_vnode_private, ram_world) vnode_operations" where
  "ramfs_ops = \<lparr>vo_find = None, vo_readdir = None, vo_opendir = None, vo_open = Some ramfs_vnode_open, vo_close = None,
     vo_mknod = Some ramfs_vnode_mknod, vo_creat = Some ramfs_vnode_creat, vo_mkdir = Some ramfs_vnode_mkdir,
     vo_truncate = Some ramfs_vnode_truncate, vo_unlink = Some ramfs_vnode_unlink, vo_lseek = Some ramfs_vnode_lseek,
     vo_stat = Some ramfs_vnode_stat, vo_chmod = None, vo_chown = None, vo_readlink = None,
     vo_read = Some ramfs_vnode_read, vo_write = Some ramfs_vnode_write\<rparr>"

section \<open>Block devices\<close>

text \<open>The RAM disk and the pseudo devices, by the number a block node refers to.\<close>

definition DEV_ZERO :: nat where "DEV_ZERO = 0"
definition DEV_NULL :: nat where "DEV_NULL = 1"
definition DEV_RAM :: nat where "DEV_RAM = 2"
definition RAM_IOC_GETBASE :: nat where "RAM_IOC_GETBASE = 1"

definition ramblk_read :: "nat \<Rightarrow> nat \<Rightarrow> ram_world \<Rightarrow> int \<times> byte list" where
  "ramblk_read off len w =
     (if rw_lim w < off then (- 1, [])
      else let r = min len (rw_lim w - off) in (int r, bytes_at (rw_mem w) (unat (rw_begin w) + off) r))"

definition ramblk_ioctl :: "nat \<Rightarrow> ram_world \<Rightarrow> int + 64 word" where
  "ramblk_ioctl req w = (if req = RAM_IOC_GETBASE then Inr (rw_begin w) else Inl (- EINVAL))"

definition pseudo_read :: "nat \<Rightarrow> nat \<Rightarrow> (int \<times> byte list) kern" where
  "pseudo_read dev lim =
     (if dev = DEV_ZERO then Some (int lim, replicate lim 0)
      else if dev = DEV_NULL then Some (0, [])
      else None)"

definition ram_blk_read :: "nat \<Rightarrow> nat \<Rightarrow> nat \<Rightarrow> ramfs \<Rightarrow> (int \<times> byte list \<times> ramfs) kern" where
  "ram_blk_read dev off lim st = do {
     (r, buf) \<leftarrow> (if dev = DEV_RAM then Some (ramblk_read off lim (vf_world st)) else pseudo_read dev lim);
     Some (r, buf, st)
   }"

text \<open>The value an ioctl returns through its pointer argument is \<open>Inr\<close>.\<close>

definition ram_blk_ioctl :: "nat \<Rightarrow> nat \<Rightarrow> ram_world \<Rightarrow> (int + 64 word) kern" where
  "ram_blk_ioctl dev req w = Some (if dev = DEV_RAM then ramblk_ioctl req w else Inl (- EINVAL))"

end
