(* ===== verification/Ramfs_Tar.thy ===== *)
theory Ramfs_Tar
  imports Ramfs
begin

text \<open>
  Unpacking the boot archive into the in-memory filesystem (src/fs/ram_tar.c, \<open>ram_init\<close> of
  src/fs/ram.c): the two passes over the archive as loops that may fail to return, and what they build
  for an archive laid out in memory.
\<close>

section \<open>Headers\<close>

fun tar_octal_loop :: "64 word \<Rightarrow> byte list \<Rightarrow> 64 word" where
  "tar_octal_loop res [] = res"
| "tar_octal_loop res (b # bs) =
     (if b = 0 then res else tar_octal_loop (push_bit 3 res OR word_of_int (sint b - 48)) bs)"

definition tar_octal :: "byte list \<Rightarrow> 64 word" where
  "tar_octal buf = tar_octal_loop 0 buf"

text \<open>A string inside a header; a read that runs past the header's 512 bytes is \<^term>\<open>None\<close>.\<close>

fun cstr_at :: "(nat \<Rightarrow> byte) \<Rightarrow> nat \<Rightarrow> nat \<Rightarrow> byte list kern" where
  "cstr_at mem a 0 = None"
| "cstr_at mem a (Suc n) =
     (if mem a = 0 then Some [] else do { s \<leftarrow> cstr_at mem (Suc a) n; Some (mem a # s) })"

definition chars :: "byte list \<Rightarrow> string" where
  "chars bs = map (\<lambda>b. char_of (unat b)) bs"

definition tar_name :: "(nat \<Rightarrow> byte) \<Rightarrow> nat \<Rightarrow> string kern" where
  "tar_name mem hdr = map_option chars (cstr_at mem hdr 512)"

definition tar_mode :: "(nat \<Rightarrow> byte) \<Rightarrow> nat \<Rightarrow> 64 word" where
  "tar_mode mem hdr = tar_octal (bytes_at mem (hdr + 100) 8)"

definition tar_uid :: "(nat \<Rightarrow> byte) \<Rightarrow> nat \<Rightarrow> 64 word" where
  "tar_uid mem hdr = tar_octal (bytes_at mem (hdr + 108) 8)"

definition tar_gid :: "(nat \<Rightarrow> byte) \<Rightarrow> nat \<Rightarrow> 64 word" where
  "tar_gid mem hdr = tar_octal (bytes_at mem (hdr + 116) 8)"

definition tar_size :: "(nat \<Rightarrow> byte) \<Rightarrow> nat \<Rightarrow> 64 word" where
  "tar_size mem hdr = tar_octal (bytes_at mem (hdr + 124) 12)"

definition tar_linkname :: "(nat \<Rightarrow> byte) \<Rightarrow> nat \<Rightarrow> byte list kern" where
  "tar_linkname mem hdr = cstr_at mem (hdr + 157) (512 - 157)"

definition tar_type :: "(nat \<Rightarrow> byte) \<Rightarrow> nat \<Rightarrow> vnode_type kern" where
  "tar_type mem hdr =
     (let f = mem (hdr + 156)
      in if f = 0 \<or> f = 48 then Some VN_REG
         else if f = 50 then Some VN_LNK
         else if f = 53 then Some VN_DIR
         else None)"

section \<open>Paths\<close>

text \<open>\<open>path_element\<close> of ram_tar.c is the one of vfs.c.\<close>

function tar_mapper_create_path ::
  "vnode_type \<Rightarrow> bool \<Rightarrow> nat \<Rightarrow> string \<Rightarrow> ramfs \<Rightarrow> ((int + nat) \<times> ramfs) kern" where
  "tar_mapper_create_path type create node path st = do {
     (name, child_path) \<leftarrow> path_element path;
     r \<leftarrow> vnode_lookup_child node name st;
     (r, st) \<leftarrow>
       (case r of
          Inr c \<Rightarrow> Some (Inr c, st)
        | Inl _ \<Rightarrow>
            if \<not> create then Some (Inl (- ENOENT), st)
            else do {
              (v, st) \<leftarrow> ram_vnode_create type (Some name) st;
              st \<leftarrow> vnode_attach node v st;
              Some (Inr v, st)
            });
     (case (r, child_path) of
        (Inr v, Some rest) \<Rightarrow> tar_mapper_create_path type create v rest st
      | _ \<Rightarrow> Some (r, st))
   }"
  by pat_completeness auto

termination tar_mapper_create_path
  apply (relation "measure (\<lambda>(type, create, node, path, st). length path)")
   apply (rule wf_measure)
  subgoal premises p
    using p(1,2,6-) by (auto intro: path_element_shorter)
  done

declare tar_mapper_create_path.simps [simp del]

section \<open>The two passes\<close>

definition round512 :: "64 word \<Rightarrow> 64 word" where
  "round512 len = (511 + len) AND NOT 511"

definition tar_build_one :: "nat \<Rightarrow> nat \<Rightarrow> ramfs \<Rightarrow> ((int + 64 word) \<times> ramfs) kern" where
  "tar_build_one root hdr st = do {
     let mem = rw_mem (vf_world st);
     type \<leftarrow> tar_type mem hdr;
     name \<leftarrow> tar_name mem hdr;
     (r, st) \<leftarrow> tar_mapper_create_path type True root name st;
     (case r of
        Inl e \<Rightarrow> Some (Inl e, st)
      | Inr _ \<Rightarrow> Some (Inr (if type = VN_REG then 512 + round512 (tar_size mem hdr) else 512), st))
   }"

fun tar_set_blocks :: "64 word \<Rightarrow> nat list \<Rightarrow> ram_vnode_private \<Rightarrow> ram_vnode_private kern" where
  "tar_set_blocks bytes [] priv = Some priv"
| "tar_set_blocks bytes (i # is) priv = do {
     priv \<leftarrow> ram_vnode_bset_set i (bytes + of_nat i * 512 + 512) priv;
     tar_set_blocks bytes is priv
   }"

definition tar_link :: "nat \<Rightarrow> nat \<Rightarrow> nat \<Rightarrow> ramfs \<Rightarrow> ramfs kern" where
  "tar_link root node hdr st = do {
     linkname \<leftarrow> tar_linkname (rw_mem (vf_world st)) hdr;
     n \<leftarrow> vf_node st node;
     priv \<leftarrow> vn_data n;
     (pg, ph) \<leftarrow> mm_phys_alloc_page PU_KERNEL (rw_phys (vf_world st));
     blk \<leftarrow> pg;
     (priv, ph) \<leftarrow> ram_vnode_bset_resize (length linkname) (priv, ph);
     priv \<leftarrow> ram_vnode_bset_set 0 (of_nat (MM_VIRTUALIZE blk)) priv;
     let mem = put_bytes (MM_VIRTUALIZE blk) (linkname @ [0]) (rw_mem (vf_world st));
     let st = set_priv node priv (st\<lparr>vf_world := (vf_world st)\<lparr>rw_phys := ph, rw_mem := mem\<rparr>\<rparr>);
     (r, st) \<leftarrow> (if linkname \<noteq> [] \<and> hd linkname = 47
                 then tar_mapper_create_path VN_REG False root (chars (tl linkname)) st
                 else tar_mapper_create_path VN_REG False node (chars linkname) st);
     (case r of
        Inl _ \<Rightarrow> None
      | Inr t \<Rightarrow> Some (upd_node node (vn_target_update (\<lambda>_. Some t)) st))
   }"

definition tar_file :: "nat \<Rightarrow> 64 word \<Rightarrow> nat \<Rightarrow> ramfs \<Rightarrow> ramfs kern" where
  "tar_file node bytes file_length st = do {
     n \<leftarrow> vf_node st node;
     priv \<leftarrow> vn_data n;
     (priv, ph) \<leftarrow> ram_vnode_bset_resize file_length (priv, rw_phys (vf_world st));
     priv \<leftarrow> tar_set_blocks bytes [0..<blocks_of file_length] priv;
     Some (set_priv node priv (set_phys ph st))
   }"

definition tar_setup_one :: "nat \<Rightarrow> 64 word \<Rightarrow> ramfs \<Rightarrow> ((int + 64 word) \<times> ramfs) kern" where
  "tar_setup_one root bytes st = do {
     let mem = rw_mem (vf_world st);
     let hdr = unat bytes;
     type \<leftarrow> tar_type mem hdr;
     name \<leftarrow> tar_name mem hdr;
     (r, st) \<leftarrow> tar_mapper_create_path VN_REG False root name st;
     (case r of
        Inl e \<Rightarrow> Some (Inl e, st)
      | Inr node \<Rightarrow> do {
          let st = upd_node node (\<lambda>n. n\<lparr>vn_gid := ucast (tar_gid mem hdr), vn_uid := ucast (tar_uid mem hdr),
                                       vn_mode := ucast (tar_mode mem hdr) AND VFS_MODE_MASK\<rparr>) st;
          (if type = VN_LNK then do { st \<leftarrow> tar_link root node hdr st; Some (Inr 512, st) }
           else if type = VN_REG then do {
             let file_length = unat (tar_size mem hdr);
             st \<leftarrow> tar_file node bytes file_length st;
             Some (Inr (of_nat (blocks_of file_length) * 512 + 512), st)
           }
           else Some (Inr 512, st))
        })
   }"

text \<open>
  The loop both passes run: stop at the second zero byte at the start of a block. \<^term>\<open>None\<close> stands for a panic in a step
  and for a run that does not end.
\<close>

partial_function (option) tar_pass ::
  "(64 word \<Rightarrow> ramfs \<Rightarrow> ((int + 64 word) \<times> ramfs) kern) \<Rightarrow> 64 word \<Rightarrow> 64 word \<Rightarrow> bool \<Rightarrow> ramfs \<Rightarrow> (int \<times> ramfs) kern" where
  "tar_pass step mem_base off prev_zero st =
     (if rw_mem (vf_world st) (unat (mem_base + off)) = 0 then
        (if prev_zero then Some (0, st) else tar_pass step mem_base (off + 512) True st)
      else do {
        (r, st) \<leftarrow> step (mem_base + off) st;
        (case r of
           Inl e \<Rightarrow> Some (e, st)
         | Inr d \<Rightarrow> tar_pass step mem_base (off + d) prev_zero st)
      })"

definition tar_init :: "nat \<Rightarrow> 64 word \<Rightarrow> ramfs \<Rightarrow> (int \<times> ramfs) kern" where
  "tar_init root mem_base st = do {
     (res, st) \<leftarrow> tar_pass (\<lambda>bytes. tar_build_one root (unat bytes)) mem_base 0 False st;
     (if res \<noteq> 0 then Some (res, st)
      else tar_pass (tar_setup_one root) mem_base 0 False st)
   }"

definition ram_init :: "nat \<Rightarrow> string option \<Rightarrow> ramfs \<Rightarrow> (int \<times> ramfs) kern" where
  "ram_init fs opt st = do {
     inst \<leftarrow> vf_fs st fs;
     blk \<leftarrow> fs_blk inst;
     r \<leftarrow> ram_blk_ioctl blk RAM_IOC_GETBASE (vf_world st);
     (case r of
        Inl e \<Rightarrow> Some (e, st)
      | Inr mem_base \<Rightarrow> do {
          (v, st) \<leftarrow> vnode_create VN_DIR None st;
          let st = upd_node v (\<lambda>n. n\<lparr>vn_flags := vn_flags n OR VN_MEMORY, vn_gid := 0, vn_uid := 0, vn_mode := 0x16D,
                                    vn_fs := Some fs, vn_data := None, vn_op := Some RAMFS_OP\<rparr>) st;
          let st = st\<lparr>vf_world := (vf_world st)\<lparr>rw_root := (rw_root (vf_world st))(fs \<mapsto> v)\<rparr>\<rparr>;
          tar_init v mem_base st
        })
   }"

definition ram_get_root :: "nat \<Rightarrow> ramfs \<Rightarrow> nat option" where
  "ram_get_root fs st = rw_root (vf_world st) fs"

end
