(* ===== verification/Ramfs_Driver.thy ===== *)
theory Ramfs_Driver
  imports Ramfs_Tar
begin

text \<open>
  The in-memory filesystem as a driver below the VFS: a configuration of the kernel with the ramfs
  operation table, the RAM disk (src/sys/block/ram.c) and the pseudo devices (src/sys/block/pseudo.c),
  the proof that it obeys the contract \<open>vfs_driver\<close>, and what the file system calls guarantee on it.
\<close>

section \<open>The configuration\<close>

definition no_ops :: "('d, 'w) vnode_operations" where
  "no_ops = \<lparr>vo_find = None, vo_readdir = None, vo_opendir = None, vo_open = None, vo_close = None,
     vo_mknod = None, vo_creat = None, vo_mkdir = None, vo_truncate = None, vo_unlink = None, vo_lseek = None,
     vo_stat = None, vo_chmod = None, vo_chown = None, vo_readlink = None, vo_read = None, vo_write = None\<rparr>"

definition ramfs_class :: "(ram_vnode_private, ram_world) fs_class" where
  "ramfs_class = \<lparr>fc_name = ''ramfs'', fc_get_root = Some ram_get_root, fc_init = Some ram_init, fc_destroy = None\<rparr>"

definition le_bytes :: "64 word \<Rightarrow> byte list" where
  "le_bytes x = map (\<lambda>i. ucast (drop_bit (8 * i) x)) [0..<8]"

definition ram_env_ioctl :: "nat option \<Rightarrow> nat \<Rightarrow> nat \<Rightarrow> ramfs \<Rightarrow> (int \<times> ramfs) kern" where
  "ram_env_ioctl dev req arg st = do {
     blk \<leftarrow> dev;
     r \<leftarrow> ram_blk_ioctl blk req (vf_world st);
     (case r of
        Inl e \<Rightarrow> Some (e, st)
      | Inr base \<Rightarrow> do {
          kassert (arg \<noteq> 0);
          Some (0, st\<lparr>vf_world := (vf_world st)\<lparr>rw_mem := put_bytes arg (le_bytes base) (rw_mem (vf_world st))\<rparr>\<rparr>)
        })
   }"

text \<open>
  A kernel with one filesystem class and the block devices above. No character device is registered;
  FIFOs cannot be created (\<open>pipe_fifo_create\<close> keeps its ring outside the vnode store).
\<close>

definition ramfs_env :: "(ram_vnode_private, ram_world) vfs_env" where
  "ramfs_env = \<lparr>
     env_ops = (\<lambda>k. if k = RAMFS_OP then ramfs_ops else no_ops),
     env_link = (\<lambda>_ _ _. (None, [])),
     env_chr = (\<lambda>_. \<lparr>ch_tty = False, ch_write = None, ch_read = None, ch_ioctl = None\<rparr>),
     env_blk_read = ram_blk_read,
     env_blk_ioctl = ram_env_ioctl,
     env_cls = (\<lambda>_. ramfs_class),
     env_fifo_create = (\<lambda>_ st. Some (- EINVAL, st)),
     env_net_close = (\<lambda>_ st. Some st)\<rparr>"

section \<open>The driver contract\<close>

lemma world_grows [simp]: "vfs_grows st (st\<lparr>vf_world := w\<rparr>)"
  by (rule growsI) (simp_all add: vfs_wf_def node_ok_def)

lemma world_upd_grows [simp]: "vfs_grows st (upd_node v f (st\<lparr>vf_world := w\<rparr>)) \<longleftrightarrow> vfs_grows st (upd_node v f st)"
proof -
  have "vfs_wf (upd_node v f (st\<lparr>vf_world := w\<rparr>)) = vfs_wf (upd_node v f st)" by (simp add: vfs_wf_def node_ok_def)
  thus ?thesis by (simp add: vfs_grows_def)
qed

lemma priv_grows [simp]: "vfs_grows st (set_priv v priv st)"
  unfolding set_priv_def by (rule upd_attr_grows) (simp add: same_place_def kept_def)

lemma priv_world_grows [simp]: "vfs_grows st (set_priv v priv (st\<lparr>vf_world := w\<rparr>))"
  using priv_grows [of st v priv] by (simp add: set_priv_def)

lemma priv_phys_grows [simp]: "vfs_grows st (set_priv v priv (set_phys ph st))"
  by (simp add: set_phys_def)

lemma ram_vnode_create_grows:
  assumes "ram_vnode_create t name st = Some (v, st')"
  shows "vfs_grows st st' \<and> v = vf_next st"
proof -
  obtain st1 f where c: "vnode_create t name st = Some (v, st1)" and st': "st' = upd_node v f st1"
    and f: "\<And>n. same_place n (f n) \<and> kept n (f n)"
    using assms by (auto simp: ram_vnode_create_def same_place_def kept_def split: Option.bind_splits)
  have "vfs_grows st1 st'" unfolding st' by (rule upd_attr_grows) (rule f)
  thus ?thesis using vfs_grows_trans [OF vnode_create_grows [OF c]] vnode_create_spec [OF c] by blast
qed

lemma ramfs_create_at_grows:
  assumes "ramfs_create_at t at name uid gid mode st = Some (e, st')"
  shows "vfs_grows st st'"
proof (cases "vfs_wf st")
  case False
  thus ?thesis by (simp add: vfs_grows_def)
next
  case True
  obtain n v st1 f where n: "vf_node st at = Some n" and c: "ram_vnode_create t (Some name) st = Some (v, st1)"
    and a: "vnode_attach at v (upd_node v f st1) = Some st'" and f: "\<And>n. same_place n (f n) \<and> kept n (f n)"
    using assms by (auto simp: ramfs_create_at_def same_place_def kept_def Let_def split: Option.bind_splits)
  note g = ram_vnode_create_grows [OF c]
  have "at \<noteq> v" using g n wf_fresh [OF True] by auto
  from vnode_attach_grows [OF a this] have "vfs_grows (upd_node v f st1) st'" .
  moreover have "vfs_grows st1 (upd_node v f st1)" by (rule upd_attr_grows) (rule f)
  ultimately show ?thesis using g vfs_grows_trans by blast
qed

lemma ramfs_mknod_grows:
  assumes "ramfs_vnode_mknod at nod st = Some (e, st')" "at \<noteq> nod"
  shows "vfs_grows st st' \<and> e = 0"
proof -
  have a: "vnode_attach at nod (upd_node nod (vn_op_update (\<lambda>_. Some RAMFS_OP)) st) = Some st'" "e = 0"
    using assms(1) by (auto simp: ramfs_vnode_mknod_def split: Option.bind_splits)
  have "vfs_grows st (upd_node nod (vn_op_update (\<lambda>_. Some RAMFS_OP)) st)"
    by (rule upd_attr_grows) (simp add: same_place_def kept_def)
  thus ?thesis using vnode_attach_grows [OF a(1) assms(2)] a(2) vfs_grows_trans by blast
qed

lemma ramfs_truncate_grows: "ramfs_vnode_truncate v sz st = Some (e, st') \<Longrightarrow> vfs_grows st st'"
  by (auto simp: ramfs_vnode_truncate_def split: Option.bind_splits)

lemma ramfs_unlink_grows: "ramfs_vnode_unlink v st = Some (e, st') \<Longrightarrow> vfs_grows st st'"
  by (auto simp: ramfs_vnode_unlink_def same_place_def kept_def split: Option.bind_splits if_splits intro!: upd_attr_grows)

lemma ramfs_lseek_grows: "ramfs_vnode_lseek fd off wh st = Some (pos, fd', st') \<Longrightarrow> vfs_grows st st' \<and> same_file fd fd'"
  by (auto simp: ramfs_vnode_lseek_def Let_def split: Option.bind_splits if_splits dest: ramfs_truncate_grows)

lemma ramfs_read_grows: "ramfs_vnode_read fd n st = Some (b, buf, fd', st') \<Longrightarrow> vfs_grows st st' \<and> same_file fd fd'"
  by (auto simp: ramfs_vnode_read_def Let_def split: Option.bind_splits if_splits)

lemma ramfs_write_grows: "ramfs_vnode_write fd buf st = Some (b, fd', st') \<Longrightarrow> vfs_grows st st' \<and> same_file fd fd'"
  by (auto simp: ramfs_vnode_write_def Let_def split: Option.bind_splits if_splits)

lemmas ramfs_op_simps = ramfs_env_def ramfs_ops_def no_ops_def ramfs_vnode_creat_def ramfs_vnode_mkdir_def
  ramfs_vnode_open_def

interpretation ram: vfs_driver ramfs_env
proof (unfold_locales, goal_cases)
  case (6 k f5 at nod st e st')
  thus ?case using ramfs_mknod_grows by (auto simp: ramfs_op_simps split: if_splits)
next
  case (19 c off n st b buf st')
  thus ?case by (auto simp: ramfs_op_simps ram_blk_read_def split: Option.bind_splits if_splits)
next
  case (21 dev cmd arg st b st')
  thus ?case by (auto simp: ramfs_op_simps ram_env_ioctl_def split: Option.bind_splits sum.splits)
qed (auto simp: ramfs_op_simps split: if_splits
     dest: ramfs_create_at_grows ramfs_truncate_grows ramfs_unlink_grows ramfs_lseek_grows ramfs_read_grows ramfs_write_grows)

section \<open>Closing\<close>

lemma ramfs_close_total:
  assumes ok: "files_ok s"
  shows "\<exists>s'. close_slot ramfs_env p j s = Some s'"
proof (cases "fy_fd s (p, j)")
  case (Some i)
  obtain fl where fl: "fy_files s i = Some fl" using files_ok_procs(4) [OF ok Some] by blast
  obtain v n where v: "\<not> ofile_is_socket fl" "of_vnode fl = Some v" "vf_node (fy_vfs s) v = Some n"
    and r: "of_refcount fl = int (card (refs s i))" "refs s i \<noteq> {}"
    using files_okD(3) [OF ok fl] by (auto simp: file_ok_def)
  have "0 < of_refcount fl" using r refs_finite [OF files_okD(2) [OF ok]] by (simp add: card_gt_0_iff)
  moreover have "vn_oper ramfs_env n vo_close = None"
    by (simp add: vn_oper_def ramfs_op_simps split: option.splits)
  ultimately show ?thesis using Some fl v
    by (auto simp: close_slot_def ofile_close_def vfs_close_def ofile_destroy_def ofile_is_socket_def Let_def)
qed (simp add: close_slot_def)

lemma ramfs_close_fds_total:
  "files_ok s \<Longrightarrow> \<exists>s'. close_fds ramfs_env p (\<lambda>_. True) js s = Some s' \<and> files_ok s' \<and> fy_procs s' = fy_procs s
     \<and> fy_fd s' = (\<lambda>x. if fst x = p \<and> snd x \<in> set js then None else fy_fd s x)"
proof (induction js arbitrary: s)
  case (Cons j js)
  show ?case
  proof (cases "fy_fd s (p, j)")
    case None
    then obtain s' where "close_fds ramfs_env p (\<lambda>_. True) js s = Some s' \<and> files_ok s' \<and> fy_procs s' = fy_procs s
       \<and> fy_fd s' = (\<lambda>x. if fst x = p \<and> snd x \<in> set js then None else fy_fd s x)"
      using Cons.IH [OF Cons.prems] by blast
    thus ?thesis using None by (auto simp: fun_eq_iff)
  next
    case (Some i)
    obtain fl where fl: "fy_files s i = Some fl" using files_ok_procs(4) [OF Cons.prems Some] by blast
    obtain s1 where s1: "close_slot ramfs_env p j s = Some s1" using ramfs_close_total [OF Cons.prems] by blast
    note ok1 = files_ok_close_slot [OF Cons.prems ram.vfs_driver_axioms s1]
    note fr = close_slot_frame [OF s1]
    obtain s' where "close_fds ramfs_env p (\<lambda>_. True) js s1 = Some s' \<and> files_ok s' \<and> fy_procs s' = fy_procs s1
       \<and> fy_fd s' = (\<lambda>x. if fst x = p \<and> snd x \<in> set js then None else fy_fd s1 x)"
      using Cons.IH [OF ok1] by blast
    thus ?thesis using Some fl s1 fr by (auto simp: fun_eq_iff)
  qed
qed simp

section \<open>A sample system\<close>

text \<open>A root directory with one file, open in process 1.\<close>

definition demo_node :: "vnode_type \<Rightarrow> string \<Rightarrow> nat list \<Rightarrow> nat option \<Rightarrow> 32 word \<Rightarrow> ram_vnode_private option \<Rightarrow> ram_vnode_private vnode" where
  "demo_node t name cs par cnt d = \<lparr>vn_type = t, vn_name = name, vn_flags = VN_MEMORY, vn_children = cs, vn_parent = par,
     vn_target = None, vn_open_count = cnt, vn_ino = 0, vn_gid = 0, vn_uid = 0, vn_mode = 0x1FF, vn_fs = None, vn_data = d,
     vn_dev = None, vn_op = Some RAMFS_OP\<rparr>"

definition demo_ram :: "phys \<Rightarrow> ramfs" where
  "demo_ram ph = \<lparr>vf_node = [1 \<mapsto> demo_node VN_DIR [] [2] None 0 None, 2 \<mapsto> demo_node VN_REG ''a'' [] (Some 1) 1 (Some new_private)],
     vf_next = 3, vf_root = Some 1, vf_fs = Map.empty, vf_fs_next = 0, vf_classes = [], vf_mounts = [], vf_busy = (\<lambda>_. False),
     vf_world = \<lparr>rw_phys = ph, rw_mem = (\<lambda>_. 0), rw_begin = 0, rw_lim = 0, rw_root = Map.empty\<rparr>\<rparr>"

definition demo_file :: ofile where
  "demo_file = \<lparr>of_flags = OF_READABLE OR OF_WRITABLE, of_refcount = 1, of_vnode = Some 2, of_pos = 0\<rparr>"

definition demo_sys :: "phys \<Rightarrow> (ram_vnode_private, ram_world) fsys" where
  "demo_sys ph = \<lparr>fy_vfs = demo_ram ph, fy_files = [0 \<mapsto> demo_file], fy_next = 1, fy_fd = [(1, 0) \<mapsto> 0],
     fy_procs = [1 \<mapsto> \<lparr>pi_ioctx = root_ctx, pi_ctty = None\<rparr>]\<rparr>"

lemma demo_sys_simps [simp]:
  "fy_vfs (demo_sys ph) = demo_ram ph" "fy_files (demo_sys ph) = [0 \<mapsto> demo_file]" "fy_next (demo_sys ph) = 1"
  "fy_fd (demo_sys ph) = [(1, 0) \<mapsto> 0]" "fy_procs (demo_sys ph) = [1 \<mapsto> \<lparr>pi_ioctx = root_ctx, pi_ctty = None\<rparr>]"
  by (simp_all add: demo_sys_def)

lemma demo_ram_node:
  "vf_node (demo_ram ph) v = Some n \<Longrightarrow> v = 1 \<and> n = demo_node VN_DIR [] [2] None 0 None
     \<or> v = 2 \<and> n = demo_node VN_REG ''a'' [] (Some 1) 1 (Some new_private)"
  by (auto simp: demo_ram_def split: if_splits)

lemma demo_files_ok: "files_ok (demo_sys ph)"
proof -
  have r: "refs (demo_sys ph) 0 = {(1, 0)}" by (auto simp: refs_def split: if_splits)
  have u: "users (demo_sys ph) 1 = {}" "users (demo_sys ph) 2 = {0}"
    by (auto simp: users_def demo_file_def split: if_splits)
  have "vfs_wf (demo_ram ph)"
    by (rule wfI) (auto simp: demo_ram_def demo_node_def split: if_splits)
  moreover have "fds_ok (demo_sys ph)" by (simp add: fds_ok_def)
  moreover have "file_ok (demo_sys ph) i fl" if "fy_files (demo_sys ph) i = Some fl" for i fl
  proof -
    have fl: "i = 0" "fl = demo_file" using that by (auto split: if_splits)
    have "\<not> ofile_is_socket demo_file" by (simp add: ofile_is_socket_def demo_file_def flag_simps)
    thus ?thesis unfolding file_ok_def fl using r by (simp add: demo_file_def) (simp add: demo_ram_def)
  qed
  moreover have "counts_ok (demo_sys ph)"
    using u by (auto simp: counts_ok_def demo_node_def dest!: demo_ram_node)
  ultimately show ?thesis by (simp add: files_ok_def)
qed

text \<open>A step from it: the descriptor is duplicated.\<close>

definition demo_dup :: "phys \<Rightarrow> (ram_vnode_private, ram_world) fsys" where
  "demo_dup ph = (demo_sys ph)\<lparr>fy_files := [0 \<mapsto> demo_file\<lparr>of_refcount := 2\<rparr>], fy_fd := [(1, 0) \<mapsto> 0, (1, 1) \<mapsto> 0]\<rparr>"

lemma demo_dup_step: "file_step ramfs_env (demo_sys ph) (demo_dup ph)"
proof -
  have "sys_dup ramfs_env 1 0 (demo_sys ph) = Some (1, demo_dup ph)"
    by (simp add: sys_dup_def sys_dup2_def free_fd_def get_fd_def ofile_dup_def sys_close_def close_slot_def demo_file_def demo_dup_def
        upt_conv_Cons)
  thus ?thesis by (rule file_step.Dup)
qed

lemma demo_run: "(file_step ramfs_env)\<^sup>*\<^sup>* (demo_sys ph) (demo_dup ph)"
  by (rule r_into_rtranclp) (rule demo_dup_step)

section \<open>What the system calls guarantee\<close>

text \<open>
  C1: No descriptor dangles, whatever the processes do with files. Above any driver that obeys the contract of the
  VFS, after any interleaved sequence of file system calls of any processes (opening, closing,
  duplicating, reading, writing, seeking, truncating, unlinking, creating nodes and directories, forking,
  executing, exiting), every descriptor in use refers to an allocated open file whose reference count is
  the number of descriptors that refer to it, and that file's vnode has not been destroyed and counts
  exactly the open files that use it. The sequence contains no \<open>sys_pipe\<close>, which leaves a vnode with two open files
  and the count zero, and no call on sockets.
\<close>

theorem descriptors_never_dangle:
  assumes "vfs_driver env" "(file_step env)\<^sup>*\<^sup>* s s'" "files_ok s" "fy_fd s' x = Some i"
  shows "\<exists>fl v n. fy_files s' i = Some fl \<and> of_refcount fl = int (card {x. fy_fd s' x = Some i})
     \<and> of_vnode fl = Some v \<and> vf_node (fy_vfs s') v = Some n
     \<and> unat (vn_open_count n) = card {i. \<exists>fl. fy_files s' i = Some fl \<and> of_vnode fl = Some v}"
proof -
  have ok: "files_ok s'" by (rule vfs_driver.file_steps_ok [OF assms(1-3)])
  obtain fl where fl: "fy_files s' i = Some fl" using files_ok_procs(4) [OF ok assms(4)] by blast
  obtain v n where v: "of_refcount fl = int (card (refs s' i))" "of_vnode fl = Some v" "vf_node (fy_vfs s') v = Some n"
    using files_okD(3) [OF ok fl] by (auto simp: file_ok_def)
  have "unat (vn_open_count n) = card (users s' v)"
    using files_okD(4) [OF ok] v(3) users_bound [OF ok, of v] by (auto simp: counts_ok_def unat_of_nat)
  thus ?thesis using fl v by (auto simp: refs_def users_def)
qed

theorem descriptors_never_dangle_witness:
  "\<forall>ph. \<exists>fl v n. fy_files (demo_dup ph) 0 = Some fl \<and> of_refcount fl = int (card {x. fy_fd (demo_dup ph) x = Some 0})
     \<and> of_vnode fl = Some v \<and> vf_node (fy_vfs (demo_dup ph)) v = Some n
     \<and> unat (vn_open_count n) = card {i. \<exists>fl. fy_files (demo_dup ph) i = Some fl \<and> of_vnode fl = Some v}"
proof
  fix ph
  have "fy_fd (demo_dup ph) (1, 1) = Some 0" by (simp add: demo_dup_def)
  from descriptors_never_dangle [OF ram.vfs_driver_axioms demo_run demo_files_ok this]
  show "\<exists>fl v n. fy_files (demo_dup ph) 0 = Some fl \<and> of_refcount fl = int (card {x. fy_fd (demo_dup ph) x = Some 0})
     \<and> of_vnode fl = Some v \<and> vf_node (fy_vfs (demo_dup ph)) v = Some n
     \<and> unat (vn_open_count n) = card {i. \<exists>fl. fy_files (demo_dup ph) i = Some fl \<and> of_vnode fl = Some v}" .
qed

text \<open>
  C9: The vnode tree stays well formed. Above any driver that obeys the contract, after any sequence of
  file system calls every vnode in memory has a name that fits its buffer, no child appears twice in a
  directory, every child is a vnode in memory, and its parent pointer leads back to the directory.
\<close>

theorem vnode_tree_typed:
  assumes "vfs_driver env" "(file_step env)\<^sup>*\<^sup>* s s'" "files_ok s" "vf_node (fy_vfs s') v = Some n"
  shows "length (vn_name n) < NODE_MAXLEN \<and> distinct (vn_children n)
     \<and> (\<forall>c \<in> set (vn_children n). \<exists>cn. vf_node (fy_vfs s') c = Some cn \<and> vn_parent cn = Some v)"
proof -
  have "vfs_wf (fy_vfs s')" by (rule files_okD(1)) (rule vfs_driver.file_steps_ok [OF assms(1-3)])
  from wf_node [OF this assms(4)] show ?thesis by (simp add: node_ok_def)
qed

theorem vnode_tree_typed_witness:
  "\<forall>ph. \<exists>cn. vf_node (fy_vfs (demo_dup ph)) 2 = Some cn \<and> vn_parent cn = Some 1"
proof
  fix ph
  have "vf_node (fy_vfs (demo_dup ph)) 1 = Some (demo_node VN_DIR [] [2] None 0 None)"
    by (simp add: demo_dup_def demo_ram_def)
  from vnode_tree_typed [OF ram.vfs_driver_axioms demo_run demo_files_ok this]
  show "\<exists>cn. vf_node (fy_vfs (demo_dup ph)) 2 = Some cn \<and> vn_parent cn = Some 1" by (simp add: demo_node_def)
qed

text \<open>
  An exiting process releases its descriptors. On the in-memory filesystem the closing loop of
  process exit always finishes, the process has no descriptor afterwards, the descriptors of the others
  are untouched, the accounting still holds, and every open file that is left is referred to by a
  descriptor of another process.
\<close>

lemma exit_releases_files:
  assumes "files_ok s"
  shows "\<exists>s'. exit_close_fds ramfs_env p s = Some s' \<and> files_ok s'
     \<and> (\<forall>j. fy_fd s' (p, j) = None) \<and> (\<forall>q j. q \<noteq> p \<longrightarrow> fy_fd s' (q, j) = fy_fd s (q, j))
     \<and> (\<forall>i. fy_files s' i \<noteq> None \<longrightarrow> (\<exists>q j. q \<noteq> p \<and> fy_fd s' (q, j) = Some i))"
proof -
  obtain s' where s': "close_fds ramfs_env p (\<lambda>_. True) [0..<16] s = Some s'" "files_ok s'"
    and fd: "fy_fd s' = (\<lambda>x. if fst x = p \<and> snd x \<in> set [0..<16] then None else fy_fd s x)"
    using ramfs_close_fds_total [OF assms] by blast
  have high: "fy_fd s (p, j) = None" if "16 \<le> j" for j
    using files_ok_procs(3) [OF assms, of "(p, j)"] that by (cases "fy_fd s (p, j)") auto
  have own: "fy_fd s' (p, j) = None" for j using high [of j] by (auto simp: fd)
  have oth: "fy_fd s' (q, j) = fy_fd s (q, j)" if "q \<noteq> p" for q j using that by (simp add: fd)
  have "\<exists>q j. q \<noteq> p \<and> fy_fd s' (q, j) = Some i" if i: "fy_files s' i = Some fl" for i fl
  proof -
    obtain q j where "fy_fd s' (q, j) = Some i" using files_okD(3) [OF s'(2) i] by (auto simp: file_ok_def refs_def)
    thus ?thesis using own by (metis option.distinct(1))
  qed
  thus ?thesis using s' own oth unfolding exit_close_fds_def by blast
qed

end
