(* ===== verification/Ramfs_Data.thy ===== *)
theory Ramfs_Data
  imports Ramfs_Driver
begin

text \<open>
  Contents of ramfs files: the block table as a sequence of block addresses, reading and writing as
  operations on the sequence of the file's bytes, growing and shrinking with the pages they take and
  give back.
\<close>

section \<open>Entries of the block table\<close>

definition entry :: "ram_vnode_private \<Rightarrow> nat \<Rightarrow> 64 word" where
  "entry priv i = the (bset_slot priv i)"

definition blk_addr :: "64 word \<Rightarrow> nat" where
  "blk_addr e = unat (e AND NOT 511)"

definition blk :: "ram_vnode_private \<Rightarrow> nat \<Rightarrow> nat" where
  "blk priv i = blk_addr (entry priv i)"

text \<open>
  The shape of a table with \<open>n\<close> usable entries: unused direct entries are zero, and a second-level
  table is present exactly where a usable entry needs it.
\<close>

definition bset_shape :: "nat \<Rightarrow> ram_vnode_private \<Rightarrow> bool" where
  "bset_shape n priv \<longleftrightarrow> n \<le> RAM_BLOCKS \<and> length (rp_l0 priv) = RAM_BLOCKS_L0 \<and> length (rp_l1 priv) = RAM_BLOCKS_L1
     \<and> (\<forall>i. n \<le> i \<longrightarrow> i < RAM_BLOCKS_L0 \<longrightarrow> rp_l0 priv ! i = 0)
     \<and> (\<forall>k < RAM_BLOCKS_L1. case rp_l1 priv ! k of
           None \<Rightarrow> n \<le> RAM_BLOCKS_L0 + RAM_BLOCKS_PER_Ln * k
         | Some (pg, es) \<Rightarrow> RAM_BLOCKS_L0 + RAM_BLOCKS_PER_Ln * k < n \<and> length es = RAM_BLOCKS_PER_Ln)"

lemma shapeD:
  assumes "bset_shape n priv"
  shows "n \<le> 12320" "length (rp_l0 priv) = 32" "length (rp_l1 priv) = 24"
    and "n \<le> i \<Longrightarrow> i < 32 \<Longrightarrow> rp_l0 priv ! i = 0"
    and "k < 24 \<Longrightarrow> rp_l1 priv ! k = None \<Longrightarrow> n \<le> 32 + 512 * k"
    and "k < 24 \<Longrightarrow> rp_l1 priv ! k = Some (pg, es) \<Longrightarrow> 32 + 512 * k < n \<and> length es = 512"
  using assms by (auto simp: bset_shape_def RAM_BLOCKS_def split: option.splits)

lemma index_bounds:
  assumes "32 \<le> i" "i < 12320"
  shows "l1_index i < 24" "l0_index i < 512" "i = 32 + 512 * l1_index i + l0_index i"
  using assms by (auto simp: l1_index_def l0_index_def)

lemma index_inj:
  assumes "32 \<le> i" "32 \<le> j" "l1_index i = l1_index j" "l0_index i = l0_index j"
  shows "i = j"
proof -
  have "i - 32 = j - 32"
    using assms(3,4) unfolding l1_index_def l0_index_def by (metis mult_div_mod_eq)
  thus ?thesis using assms(1,2) by simp
qed

lemma shape_table:
  assumes "bset_shape n priv" "32 \<le> i" "i < n"
  shows "\<exists>pg es. rp_l1 priv ! l1_index i = Some (pg, es) \<and> length es = 512"
proof -
  have i: "i < 12320" using assms(3) shapeD(1) [OF assms(1)] by simp
  note b = index_bounds [OF assms(2) i]
  have "rp_l1 priv ! l1_index i \<noteq> None" using shapeD(5) [OF assms(1) b(1)] b(3) assms(3) by linarith
  then obtain pg es where "rp_l1 priv ! l1_index i = Some (pg, es)" by auto
  thus ?thesis using shapeD(6) [OF assms(1) b(1)] by blast
qed

lemma shape_slot: "bset_shape n priv \<Longrightarrow> i < n \<Longrightarrow> bset_slot priv i = Some (entry priv i)"
  using shape_table [of n priv i] shapeD(1) [of n priv]
  by (cases "i < 32") (auto simp: entry_def bset_slot_def RAM_BLOCKS_def)

lemma put_slot:
  assumes "bset_shape n priv" "i < n" "j < n"
  shows "bset_slot (bset_put i e priv) j = Some (if j = i then e else entry priv j)"
proof (cases "32 \<le> i")
  case False
  thus ?thesis using shape_slot [OF assms(1,3)] shapeD(2) [OF assms(1)]
    by (auto simp: bset_slot_def bset_put_def split: if_splits)
next
  case True
  have lim: "i < 12320" "j < 12320" using assms shapeD(1) [OF assms(1)] by simp_all
  note bi = index_bounds [OF True lim(1)]
  obtain pg es where t: "rp_l1 priv ! l1_index i = Some (pg, es)" "length es = 512"
    using shape_table [OF assms(1) True assms(2)] by blast
  have p: "bset_put i e priv = priv\<lparr>rp_l1 := (rp_l1 priv)[l1_index i := Some (pg, es[l0_index i := e])]\<rparr>"
    using True t by (simp add: bset_put_def)
  show ?thesis
  proof (cases "32 \<le> j \<and> l1_index j = l1_index i")
    case False
    thus ?thesis using shape_slot [OF assms(1,3)] True lim by (auto simp: p bset_slot_def RAM_BLOCKS_def)
  next
    case j: True
    have "j = i \<longleftrightarrow> l0_index j = l0_index i" using index_inj [of j i] j True by auto
    thus ?thesis using shape_slot [OF assms(1,3)] j t bi lim shapeD(3) [OF assms(1)]
      by (auto simp: p bset_slot_def RAM_BLOCKS_def nth_list_update)
  qed
qed

lemma put_entry:
  "bset_shape n priv \<Longrightarrow> i < n \<Longrightarrow> j < n \<Longrightarrow> entry (bset_put i e priv) j = (if j = i then e else entry priv j)"
  using put_slot [of n priv i j e] by (simp add: entry_def)

lemma put_frame [simp]:
  "rp_size (bset_put i e priv) = rp_size priv" "rp_cap (bset_put i e priv) = rp_cap priv"
  by (simp_all add: bset_put_def)

lemma put_shape:
  assumes "bset_shape n priv" "i < n"
  shows "bset_shape n (bset_put i e priv)"
proof (cases "32 \<le> i")
  case False
  thus ?thesis using assms by (auto simp: bset_shape_def bset_put_def nth_list_update split: option.splits)
next
  case True
  obtain pg es where t: "rp_l1 priv ! l1_index i = Some (pg, es)" "length es = 512"
    using shape_table [OF assms(1) True assms(2)] by blast
  have p: "bset_put i e priv = priv\<lparr>rp_l1 := (rp_l1 priv)[l1_index i := Some (pg, es[l0_index i := e])]\<rparr>"
    using True t by (simp add: bset_put_def)
  have l: "l1_index i < 24"
    using index_bounds(1) [OF True] assms(2) shapeD(1) [OF assms(1)] by simp
  show ?thesis using assms(1) t l
    by (auto simp: p bset_shape_def nth_list_update split: option.splits)
qed

text \<open>The second-level pages of a table.\<close>

definition l1_page :: "ram_vnode_private \<Rightarrow> nat \<Rightarrow> nat option" where
  "l1_page priv k = (if k < RAM_BLOCKS_L1 then map_option fst (rp_l1 priv ! k) else None)"

lemma put_l1_page [simp]:
  assumes "bset_shape n priv"
  shows "l1_page (bset_put i e priv) = l1_page priv"
proof
  fix k
  have "map_option fst (map_option (\<lambda>(pg, es). (pg, es[l0_index i := e])) x) = map_option fst x" for x :: "(nat \<times> 64 word list) option"
    by (cases x) auto
  thus "l1_page (bset_put i e priv) k = l1_page priv k"
    using shapeD(3) [OF assms] by (cases "l1_index i = k") (auto simp: l1_page_def bset_put_def)
qed

section \<open>Pages\<close>

text \<open>
  The pages a table owns: those of its second-level tables and those of the blocks that were allocated
  for it, each for one purpose.
\<close>

definition objs :: "nat \<Rightarrow> ram_vnode_private \<Rightarrow> ((nat + nat) \<times> nat) set" where
  "objs n priv = {(Inl k, pg) |k pg. l1_page priv k = Some pg}
     \<union> {(Inr i, MM_PHYS (blk priv i)) |i. i < n \<and> bit (entry priv i) 1}"

definition owns :: "((nat + nat) \<times> nat) set \<Rightarrow> phys \<Rightarrow> bool" where
  "owns R ph \<longleftrightarrow> phys_inv ph \<and> (\<forall>x p. (x, p) \<in> R \<longrightarrow> p \<in> owned_pages PU_KERNEL ph)
     \<and> (\<forall>x y p. (x, p) \<in> R \<longrightarrow> (y, p) \<in> R \<longrightarrow> x = y)"

lemma ownsD:
  assumes "owns R ph"
  shows "phys_inv ph" "(x, p) \<in> R \<Longrightarrow> p \<in> owned_pages PU_KERNEL ph" "(x, p) \<in> R \<Longrightarrow> (y, p) \<in> R \<Longrightarrow> x = y"
  using assms unfolding owns_def by blast+

lemma owns_sub: "owns R ph \<Longrightarrow> R' \<subseteq> R \<Longrightarrow> owns R' ph"
  unfolding owns_def by blast

lemma took_owned:
  assumes "phys_took PU_KERNEL {j} ph ph'"
  shows "owned_pages PU_KERNEL ph' = insert (j * 4096) (owned_pages PU_KERNEL ph)" "j * 4096 \<notin> owned_pages PU_KERNEL ph"
proof -
  have j: "j \<notin> used_set ph PU_KERNEL" using assms by (auto simp: phys_took_def used_set_def free_set_def)
  thus "j * 4096 \<notin> owned_pages PU_KERNEL ph" by (auto simp: owned_pages_def MM_PAGE_SIZE_def)
  show "owned_pages PU_KERNEL ph' = insert (j * 4096) (owned_pages PU_KERNEL ph)"
    using assms j by (auto simp: phys_took_def owned_pages_def MM_PAGE_SIZE_def)
qed

lemma owns_add:
  assumes "owns R ph" "phys_took PU_KERNEL {j} ph ph'" "R' \<subseteq> insert (z, j * 4096) R"
  shows "owns R' ph'"
proof -
  note o = took_owned [OF assms(2)]
  have fresh: "(x, j * 4096) \<notin> R" for x using ownsD(2) [OF assms(1)] o(2) by blast
  have "phys_inv ph'" using assms(2) by (simp add: phys_took_def)
  moreover have "p \<in> owned_pages PU_KERNEL ph'" if "(x, p) \<in> R'" for x p
    using that assms(3) ownsD(2) [OF assms(1), of x p] o(1) by auto
  moreover have "x = y" if "(x, p) \<in> R'" "(y, p) \<in> R'" for x y p
    using that assms(3) ownsD(3) [OF assms(1), of x p y] fresh by auto
  ultimately show ?thesis unfolding owns_def by blast
qed

text \<open>
  An entry may stay in a table while pages come and go: its block is not in a free page, and a block
  that was not allocated for the table is not in a page of the kernel's.
\<close>

definition entry_safe :: "phys \<Rightarrow> 64 word \<Rightarrow> bool" where
  "entry_safe ph e \<longleftrightarrow> MM_PHYS (blk_addr e) div 4096 \<notin> free_set ph
     \<and> (bit e 1 \<or> MM_PHYS (blk_addr e) div 4096 \<notin> used_set ph PU_KERNEL)"

lemma safe_took: "phys_took PU_KERNEL {j} ph ph' \<Longrightarrow> entry_safe ph e \<Longrightarrow> entry_safe ph' e"
  by (auto simp: entry_safe_def phys_took_def)

lemma owns_del:
  assumes "owns R ph" "(z, p) \<in> R" "R' \<subseteq> R - {(z, p)}"
  shows "\<exists>ph'. mm_phys_free_page p ph = Some ph' \<and> owns R' ph' \<and> card (free_set ph') = Suc (card (free_set ph))
     \<and> (\<forall>e. entry_safe ph e \<longrightarrow> (bit e 1 \<longrightarrow> (\<exists>x. (x, MM_PHYS (blk_addr e)) \<in> R')) \<longrightarrow> entry_safe ph' e)"
proof -
  obtain i where i: "i \<in> used_set ph PU_KERNEL" "pg_refcount (mm_pages ph i) = 0" "p = i * 4096"
    using ownsD(2) [OF assms(1,2)] by (auto simp: owned_pages_def MM_PAGE_SIZE_def)
  obtain ph' where ph': "mm_phys_free_page p ph = Some ph'" and g: "phys_gave i ph ph'"
    using mm_phys_free_page_ok [OF ownsD(1) [OF assms(1)] i(1,2), of p] i(3) by (auto simp: MM_PAGE_SIZE_def)
  have o: "owned_pages PU_KERNEL ph' = owned_pages PU_KERNEL ph - {p}"
    using g i(3) by (auto simp: phys_gave_def owned_pages_def MM_PAGE_SIZE_def)
  have other: "q \<in> owned_pages PU_KERNEL ph' \<and> q \<noteq> p" if q: "(x, q) \<in> R'" for x q
  proof -
    have "(x, q) \<in> R" "(x, q) \<noteq> (z, p)" using q assms(3) by auto
    thus ?thesis using ownsD(2) [OF assms(1), of x q] ownsD(3) [OF assms(1,2), of x] by (auto simp: o)
  qed
  have "x = y" if "(x, q) \<in> R'" "(y, q) \<in> R'" for x y q
    using that assms(3) by (intro ownsD(3) [OF assms(1)]) auto
  hence "owns R' ph'" using other g unfolding owns_def phys_gave_def by blast
  moreover have "i \<notin> free_set ph" using i(1) by (auto simp: used_set_def free_set_def)
  moreover have "entry_safe ph' e" if s: "entry_safe ph e" and e: "bit e 1 \<longrightarrow> (\<exists>x. (x, MM_PHYS (blk_addr e)) \<in> R')" for e
  proof -
    have "MM_PHYS (blk_addr e) div 4096 \<noteq> i"
    proof (cases "bit e 1")
      case True
      then obtain x where "(x, MM_PHYS (blk_addr e)) \<in> R'" using e by blast
      from other [OF this] show ?thesis using i(3) by (auto simp: owned_pages_def MM_PAGE_SIZE_def)
    next
      case False
      thus ?thesis using s i(1) by (auto simp: entry_safe_def)
    qed
    thus ?thesis using s g by (auto simp: entry_safe_def phys_gave_def)
  qed
  ultimately show ?thesis using ph' g by (auto simp: phys_gave_def)
qed

text \<open>An allocation takes a free page when there is one.\<close>

lemma alloc_takes:
  assumes "phys_inv ph" "free_set ph \<noteq> {}"
  shows "\<exists>j ph'. mm_phys_alloc_page PU_KERNEL ph = Some (Some (j * 4096), ph') \<and> phys_took PU_KERNEL {j} ph ph'
     \<and> j \<in> free_set ph \<and> card (free_set ph) = Suc (card (free_set ph'))"
proof -
  obtain j ph' where r: "mm_phys_alloc_page PU_KERNEL ph = Some (Some (j * MM_PAGE_SIZE), ph')" and t: "phys_took PU_KERNEL {j} ph ph'"
    using mm_phys_alloc_page_ok [OF assms(1), of PU_KERNEL] assms(2) by auto
  have "j \<in> free_set ph" "free_set ph' = free_set ph - {j}" using t by (auto simp: phys_took_def)
  hence "card (free_set ph) = Suc (card (free_set ph'))" using card_Suc_Diff1 [of "free_set ph" j] by simp
  thus ?thesis using r t \<open>j \<in> free_set ph\<close> by (auto simp: MM_PAGE_SIZE_def)
qed

lemma free_page_bound: "j \<in> free_set ph \<Longrightarrow> j < 262144 \<and> 256 \<le> j"
  by (auto simp: free_set_def PHYS_MAX_PAGES_def LOW_PAGE_def)

section \<open>Addresses in entries\<close>

lemma bit_511: "bit (511 :: 64 word) k = (k < 9)"
proof -
  have m: "(511 :: 64 word) = mask 9" by (simp add: mask_eq_exp_minus_1)
  show ?thesis unfolding m bit_mask_iff by auto
qed

lemma bit_strip: "bit (e AND NOT 511 :: 64 word) k = (bit e k \<and> 9 \<le> k)"
  unfolding bit_and_iff bit_not_iff bit_511 by (auto simp: possible_bit_def dest: bit_imp_le_length)

lemma blk_addr_aligned: "blk_addr e mod 512 = 0"
proof -
  have "take_bit 9 (e AND NOT 511) = 0"
    by (rule bit_eqI) (simp only: bit_take_bit_iff bit_strip bit_0_eq bot_apply bot_bool_def, simp)
  hence "take_bit 9 (unat (e AND NOT 511)) = 0" by (metis unsigned_0 unsigned_take_bit_eq)
  thus ?thesis by (simp add: blk_addr_def take_bit_eq_mod)
qed

definition page_entry :: "nat \<Rightarrow> 64 word" where
  "page_entry j = of_nat (MM_VIRTUALIZE (j * 4096)) OR RAM_BSET_ALLOC OR RAM_BSET_AVAIL"

lemma virtual_word:
  assumes "j < 262144"
  shows "unat (of_nat (MM_VIRTUALIZE (j * 4096)) :: 64 word) = MM_VIRTUALIZE (j * 4096)"
    and "k < 12 \<Longrightarrow> \<not> bit (of_nat (MM_VIRTUALIZE (j * 4096)) :: 64 word) k"
proof -
  let ?a = "MM_VIRTUALIZE (j * 4096)"
  have a: "?a < 2 ^ 64" "?a mod 2 ^ 12 = 0"
    using assms by (simp_all add: MM_VIRTUALIZE_def KERNEL_OFFSET_def mod_add_eq [symmetric])
  show "unat (of_nat ?a :: 64 word) = ?a" using a(1) by (simp add: unat_of_nat)
  show "\<not> bit (of_nat ?a :: 64 word) k" if "k < 12"
  proof -
    have "take_bit 12 ?a = 0" using a(2) by (simp only: take_bit_eq_mod)
    hence "\<not> bit ?a k" using that by (metis bit_0_eq bit_take_bit_iff bot_apply bot_bool_def)
    thus ?thesis by (simp add: bit_of_nat_iff)
  qed
qed

lemma page_entry_simps:
  assumes "j < 262144"
  shows "blk_addr (page_entry j) = MM_VIRTUALIZE (j * 4096)" "bit (page_entry j) 0" "bit (page_entry j) 1"
proof -
  let ?w = "of_nat (MM_VIRTUALIZE (j * 4096)) :: 64 word"
  have "page_entry j AND NOT 511 = ?w"
  proof (rule bit_eqI)
    fix k
    show "bit (page_entry j AND NOT 511) k = bit ?w k"
      unfolding bit_strip page_entry_def using virtual_word(2) [OF assms, of k] by (cases "k < 12") (auto simp: flag_simps)
  qed
  thus "blk_addr (page_entry j) = MM_VIRTUALIZE (j * 4096)" by (simp only: blk_addr_def virtual_word(1) [OF assms])
  show "bit (page_entry j) 0" "bit (page_entry j) 1" by (simp_all add: page_entry_def flag_simps)
qed

lemma avail_entry [simp]: "blk_addr RAM_BSET_AVAIL = 0"
proof -
  have "RAM_BSET_AVAIL AND NOT 511 = (0 :: 64 word)" by (rule bit_eqI) (simp only: bit_strip bit_BIT, auto)
  thus ?thesis by (simp add: blk_addr_def)
qed

section \<open>Growing a table\<close>

text \<open>Blocks are pairwise different, and safe from the page allocator.\<close>

definition blks_ok :: "nat \<Rightarrow> ram_vnode_private \<Rightarrow> phys \<Rightarrow> bool" where
  "blks_ok n priv ph \<longleftrightarrow> (\<forall>i < n. entry_safe ph (entry priv i))
     \<and> (\<forall>i < n. \<forall>j < n. i \<noteq> j \<longrightarrow> blk priv i = blk priv j \<longrightarrow> blk priv i = 0)"

definition bset_ok :: "nat \<Rightarrow> ram_vnode_private \<Rightarrow> phys \<Rightarrow> bool" where
  "bset_ok n priv ph \<longleftrightarrow> bset_shape n priv \<and> owns (objs n priv) ph \<and> blks_ok n priv ph"

lemma bset_okD:
  assumes "bset_ok n priv ph"
  shows "bset_shape n priv" "owns (objs n priv) ph" "blks_ok n priv ph" "phys_inv ph"
  using assms ownsD(1) by (auto simp: bset_ok_def)

definition l1_tables :: "nat \<Rightarrow> nat" where
  "l1_tables n = (n - 32 + 511) div 512"

lemma l1_tables_Suc:
  "n < 32 \<Longrightarrow> l1_tables (Suc n) = l1_tables n"
  "32 \<le> n \<Longrightarrow> l1_tables (Suc n) = (if n = 32 + 512 * l1_index n then Suc (l1_tables n) else l1_tables n)"
proof -
  show "l1_tables (Suc n) = l1_tables n" if "n < 32" using that by (simp add: l1_tables_def)
  assume n: "32 \<le> n"
  define q r where "q = (n - 32) div 512" and "r = (n - 32) mod 512"
  have m: "n - 32 = 512 * q + r" "r < 512" by (simp_all add: q_def r_def)
  have "l1_tables (Suc n) = q + (r + 512) div 512" "l1_tables n = q + (r + 511) div 512"
    using m(1) n by (simp_all add: l1_tables_def Suc_diff_le)
  moreover have "(r + 512) div 512 = 1" using m(2) by simp
  moreover have "(r + 511) div 512 = (if r = 0 then 0 else 1)" using m(2) by auto
  moreover have "n = 32 + 512 * l1_index n \<longleftrightarrow> r = 0" using m n by (auto simp: l1_index_def q_def [symmetric])
  ultimately show "l1_tables (Suc n) = (if n = 32 + 512 * l1_index n then Suc (l1_tables n) else l1_tables n)" by simp
qed

lemma shape_next:
  assumes "bset_shape n priv" "n < 12320" "32 \<le> n"
  shows "rp_l1 priv ! l1_index n = None \<longleftrightarrow> n = 32 + 512 * l1_index n"
proof -
  note b = index_bounds [OF assms(3,2)]
  show ?thesis
  proof (cases "rp_l1 priv ! l1_index n")
    case None
    thus ?thesis using shapeD(5) [OF assms(1) b(1) None] b(3) by simp
  next
    case (Some t)
    obtain pg es where "t = (pg, es)" by (cases t)
    thus ?thesis using shapeD(6) [OF assms(1) b(1), of pg es] Some by simp
  qed
qed

text \<open>A new second-level table extends the shape by the entry that needs it.\<close>

lemma shape_Suc:
  assumes "bset_shape n priv" "n < 12320" "n < 32 \<or> rp_l1 priv ! l1_index n \<noteq> None"
  shows "bset_shape (Suc n) (bset_put n e priv)" "entry (bset_put n e priv) n = e"
    "i < n \<Longrightarrow> entry (bset_put n e priv) i = entry priv i"
proof -
  have "bset_shape (Suc n) (bset_put n e priv) \<and> entry (bset_put n e priv) n = e
      \<and> (i < n \<longrightarrow> entry (bset_put n e priv) i = entry priv i)" for i
  proof (cases "n < 32")
    case True
    have "bset_shape (Suc n) (bset_put n e priv)"
      using assms(1) True by (auto simp: bset_shape_def bset_put_def RAM_BLOCKS_def nth_list_update split: option.splits)
    thus ?thesis using True shapeD(2) [OF assms(1)] by (auto simp: entry_def bset_slot_def bset_put_def)
  next
    case False
    hence n: "32 \<le> n" by simp
    note b = index_bounds [OF n assms(2)]
    obtain pg es where t: "rp_l1 priv ! l1_index n = Some (pg, es)" using assms(3) False by auto
    have es: "length es = 512" using shapeD(6) [OF assms(1) b(1) t] by simp
    have "n \<noteq> 32 + 512 * l1_index n" using shape_next [OF assms(1,2) n] t by simp
    have s: "bset_shape (Suc n) priv"
      unfolding bset_shape_def
    proof (intro conjI allI impI)
      show "Suc n \<le> RAM_BLOCKS" using assms(2) by (simp add: RAM_BLOCKS_def)
      show "length (rp_l0 priv) = 32" "length (rp_l1 priv) = 24" by (rule shapeD [OF assms(1)])+
      show "rp_l0 priv ! j = 0" if "Suc n \<le> j" "j < 32" for j using that shapeD(4) [OF assms(1), of j] by simp
      fix k :: nat assume k: "k < 24"
      have "n = 32 + 512 * k \<longrightarrow> k = l1_index n" by (auto simp: l1_index_def)
      hence "n \<noteq> 32 + 512 * k \<or> rp_l1 priv ! k \<noteq> None" using t by auto
      thus "case rp_l1 priv ! k of None \<Rightarrow> Suc n \<le> 32 + 512 * k
           | Some (pg, es) \<Rightarrow> 32 + 512 * k < Suc n \<and> length es = 512"
        using shapeD(5,6) [OF assms(1) k] by (fastforce split: option.splits)
    qed
    show ?thesis using put_shape [OF s, of n e] put_entry [OF s, of n _ e] by auto
  qed
  thus "bset_shape (Suc n) (bset_put n e priv)" "entry (bset_put n e priv) n = e"
    "i < n \<Longrightarrow> entry (bset_put n e priv) i = entry priv i" by auto
qed

lemma table_shape:
  fixes pg :: nat
  assumes "bset_shape n priv" "n < 12320" "32 \<le> n" "rp_l1 priv ! l1_index n = None"
  defines "priv1 \<equiv> priv\<lparr>rp_l1 := (rp_l1 priv)[l1_index n := Some (pg, replicate 512 0)]\<rparr>"
  shows "bset_shape (Suc n) priv1" "i < n \<Longrightarrow> entry priv1 i = entry priv i"
    "l1_page priv1 = (l1_page priv)(l1_index n := Some pg)"
proof -
  note b = index_bounds [OF assms(3,2)]
  have n: "n = 32 + 512 * l1_index n" using shape_next [OF assms(1-3)] assms(4) by simp
  have len: "length (rp_l1 priv) = 24" by (rule shapeD [OF assms(1)])
  show s: "bset_shape (Suc n) priv1"
    unfolding bset_shape_def
  proof (intro conjI allI impI)
    show "Suc n \<le> RAM_BLOCKS" using assms(2) by (simp add: RAM_BLOCKS_def)
    show "length (rp_l0 priv1) = 32" "length (rp_l1 priv1) = 24" using shapeD [OF assms(1)] by (simp_all add: priv1_def)
    show "rp_l0 priv1 ! j = 0" if "Suc n \<le> j" "j < 32" for j using that assms(3) by simp
    fix k :: nat assume k: "k < 24"
    show "case rp_l1 priv1 ! k of None \<Rightarrow> Suc n \<le> 32 + 512 * k
         | Some (pg, es) \<Rightarrow> 32 + 512 * k < Suc n \<and> length es = 512"
    proof (cases "k = l1_index n")
      case True
      thus ?thesis using n k len by (simp add: priv1_def)
    next
      case False
      hence "n \<noteq> 32 + 512 * k" by (auto simp: l1_index_def)
      thus ?thesis using False shapeD(5,6) [OF assms(1) k] by (fastforce simp: priv1_def split: option.splits)
    qed
  qed
  show "entry priv1 i = entry priv i" if "i < n"
  proof (cases "i < 32")
    case False
    have "l1_index i \<noteq> l1_index n" using index_bounds(3) [of i] that n False assms(2) by auto
    thus ?thesis by (simp add: entry_def bset_slot_def priv1_def)
  qed (simp add: entry_def bset_slot_def priv1_def)
  show "l1_page priv1 = (l1_page priv)(l1_index n := Some pg)"
    using b(1) len by (auto simp: l1_page_def priv1_def fun_eq_iff nth_list_update)
qed

lemma blk_cong: "entry p i = entry q i \<Longrightarrow> blk p i = blk q i"
  by (simp add: blk_def)

lemma zero_not_free [simp]: "0 \<notin> free_set ph"
  by (simp add: free_set_def LOW_PAGE_def)

lemma MM_PHYS_simps [simp]: "MM_PHYS 0 = 0" "MM_PHYS (MM_VIRTUALIZE a) = a"
  by (simp_all add: MM_PHYS_def MM_VIRTUALIZE_def)

lemma avail_safe [simp]: "entry_safe ph RAM_BSET_AVAIL"
  by (simp add: entry_safe_def used_set_def LOW_PAGE_def)

text \<open>A table with one more entry, marked available, in which nothing else changed.\<close>

lemma bset_ok_avail:
  assumes "bset_ok n priv ph" "bset_shape (Suc n) priv'" "entry priv' n = RAM_BSET_AVAIL"
    and "\<And>i. i < n \<Longrightarrow> entry priv' i = entry priv i" and "owns (objs (Suc n) priv') ph'" and "\<And>e. entry_safe ph e \<Longrightarrow> entry_safe ph' e"
  shows "bset_ok (Suc n) priv' ph'"
proof -
  have b: "blk priv' i = (if i = n then 0 else blk priv i)" if "i < Suc n" for i
    using that assms(3,4) by (auto simp: blk_def less_Suc_eq)
  have "blks_ok (Suc n) priv' ph'"
    using bset_okD(3) [OF assms(1)] assms(3,4,6) unfolding blks_ok_def
    by (auto simp: b less_Suc_eq)
  thus ?thesis using assms(2,5) by (simp add: bset_ok_def)
qed

lemma objs_avail:
  assumes "entry priv' n = RAM_BSET_AVAIL" "\<And>i. i < n \<Longrightarrow> entry priv' i = entry priv i"
    and "\<And>k pg. l1_page priv' k = Some pg \<Longrightarrow> (Inl k, pg) \<in> X" "objs n priv \<subseteq> X"
  shows "objs (Suc n) priv' \<subseteq> X"
proof
  fix x assume "x \<in> objs (Suc n) priv'"
  then consider k pg where "x = (Inl k, pg)" "l1_page priv' k = Some pg"
    | i where "x = (Inr i, MM_PHYS (blk priv' i))" "i < Suc n" "bit (entry priv' i) 1"
    by (auto simp: objs_def)
  thus "x \<in> X"
  proof cases
    case 1
    thus ?thesis using assms(3) by simp
  next
    case 2
    hence "i \<noteq> n" using assms(1) by (auto simp: flag_simps)
    hence "x \<in> objs n priv" using 2 assms(2) [of i] by (auto simp: objs_def blk_def)
    thus ?thesis using assms(4) by blast
  qed
qed

lemma bset_grow_one_ok:
  assumes ok: "bset_ok n priv ph" and n: "n < 12320" and free: "l1_tables (Suc n) \<noteq> l1_tables n \<Longrightarrow> free_set ph \<noteq> {}"
  shows "\<exists>priv' ph'. bset_grow_one n (priv, ph) = Some (priv', ph') \<and> bset_ok (Suc n) priv' ph'
     \<and> entry priv' n = RAM_BSET_AVAIL \<and> (\<forall>i < n. entry priv' i = entry priv i)
     \<and> rp_size priv' = rp_size priv \<and> rp_cap priv' = rp_cap priv
     \<and> free_set ph' \<subseteq> free_set ph \<and> card (free_set ph') + l1_tables (Suc n) = card (free_set ph) + l1_tables n
     \<and> (\<forall>e. entry_safe ph e \<longrightarrow> entry_safe ph' e)"
proof (cases "n < 32 \<or> rp_l1 priv ! l1_index n \<noteq> None")
  case True
  note s = bset_okD(1) [OF ok]
  note p = shape_Suc [OF s n True, where e = RAM_BSET_AVAIL]
  have z: "n < 32 \<Longrightarrow> rp_l0 priv ! n = 0" using shapeD(4) [OF s, of n] by simp
  have "bset_grow_one n (priv, ph) = Some (bset_put n RAM_BSET_AVAIL priv, ph)"
    using True n z by (auto simp: bset_grow_one_def RAM_BLOCKS_def split: option.splits)
  moreover have "objs (Suc n) (bset_put n RAM_BSET_AVAIL priv) \<subseteq> objs n priv"
    by (rule objs_avail [OF p(2,3)]) (simp_all add: put_l1_page [OF s] objs_def)
  then have "bset_ok (Suc n) (bset_put n RAM_BSET_AVAIL priv) ph"
    by (intro bset_ok_avail [OF ok p(1,2,3)] owns_sub [OF bset_okD(2) [OF ok]]) auto
  moreover have "l1_tables (Suc n) = l1_tables n"
    using True shape_next [OF s n] l1_tables_Suc [of n] by (cases "n < 32") auto
  ultimately show ?thesis using p by simp
next
  case False
  hence n32: "32 \<le> n" and none: "rp_l1 priv ! l1_index n = None" by (simp, blast)
  note s = bset_okD(1) [OF ok]
  have more: "l1_tables (Suc n) = Suc (l1_tables n)"
    using shape_next [OF s n n32] none l1_tables_Suc(2) [OF n32] by simp
  then obtain j ph' where a: "mm_phys_alloc_page PU_KERNEL ph = Some (Some (j * 4096), ph')" "phys_took PU_KERNEL {j} ph ph'"
    and c: "card (free_set ph) = Suc (card (free_set ph'))"
    using alloc_takes [OF bset_okD(4) [OF ok] free] by auto
  define priv1 where "priv1 = priv\<lparr>rp_l1 := (rp_l1 priv)[l1_index n := Some (j * 4096, replicate 512 0)]\<rparr>"
  note t = table_shape [OF s n n32 none, where pg = "j * 4096", folded priv1_def]
  define priv' where "priv' = bset_put n RAM_BSET_AVAIL priv1"
  have e: "entry priv' n = RAM_BSET_AVAIL" "i < n \<Longrightarrow> entry priv' i = entry priv i" for i
    using put_entry [OF t(1), of n _ RAM_BSET_AVAIL] t(2) by (auto simp: priv'_def)
  have "bset_grow_one n (priv, ph) = Some (priv', ph')"
    using n32 n none a(1) by (simp add: bset_grow_one_def RAM_BLOCKS_def priv'_def priv1_def Let_def)
  moreover have "objs (Suc n) priv' \<subseteq> insert (Inl (l1_index n), j * 4096) (objs n priv)"
  proof (rule objs_avail [OF e(1,2)])
    fix k pg assume "l1_page priv' k = Some pg"
    hence "((l1_page priv)(l1_index n := Some (j * 4096))) k = Some pg" by (simp only: priv'_def put_l1_page [OF t(1)] t(3))
    thus "(Inl k, pg) \<in> insert (Inl (l1_index n), j * 4096) (objs n priv)" by (auto simp: objs_def split: if_splits)
  qed auto
  then have "owns (objs (Suc n) priv') ph'" by (rule owns_add [OF bset_okD(2) [OF ok] a(2)])
  moreover have "free_set ph' \<subseteq> free_set ph" using a(2) by (auto simp: phys_took_def)
  moreover have "bset_shape (Suc n) priv'" unfolding priv'_def by (rule put_shape [OF t(1)]) simp
  ultimately show ?thesis using bset_ok_avail [OF ok _ e(1,2) _ safe_took [OF a(2)]] e c more safe_took [OF a(2)]
    by (auto simp: priv'_def priv1_def)
qed

lemma l1_tables_mono: "n \<le> m \<Longrightarrow> l1_tables n \<le> l1_tables m"
  unfolding l1_tables_def by (intro div_le_mono) simp

lemma bset_grow_ok:
  "bset_ok n priv ph \<Longrightarrow> n + d \<le> 12320 \<Longrightarrow> l1_tables (n + d) \<le> card (free_set ph) + l1_tables n \<Longrightarrow>
   \<exists>priv' ph'. bset_grow [n..<n + d] (priv, ph) = Some (priv', ph') \<and> bset_ok (n + d) priv' ph'
     \<and> (\<forall>i < n. entry priv' i = entry priv i) \<and> (\<forall>i. n \<le> i \<longrightarrow> i < n + d \<longrightarrow> entry priv' i = RAM_BSET_AVAIL)
     \<and> rp_size priv' = rp_size priv \<and> rp_cap priv' = rp_cap priv
     \<and> free_set ph' \<subseteq> free_set ph \<and> card (free_set ph') + l1_tables (n + d) = card (free_set ph) + l1_tables n
     \<and> (\<forall>e. entry_safe ph e \<longrightarrow> entry_safe ph' e)"
proof (induction d arbitrary: n priv ph)
  case (Suc d)
  have mono: "l1_tables (Suc n) \<le> l1_tables (n + Suc d)" "l1_tables n \<le> l1_tables (Suc n)" by (simp_all add: l1_tables_mono)
  have "free_set ph \<noteq> {}" if "l1_tables (Suc n) \<noteq> l1_tables n" using that Suc.prems(3) mono by auto
  from bset_grow_one_ok [OF Suc.prems(1) _ this] Suc.prems(2)
  obtain priv1 ph1 where 1: "bset_grow_one n (priv, ph) = Some (priv1, ph1)" "bset_ok (Suc n) priv1 ph1"
    "entry priv1 n = RAM_BSET_AVAIL" "\<forall>i < n. entry priv1 i = entry priv i" "rp_size priv1 = rp_size priv" "rp_cap priv1 = rp_cap priv"
    "free_set ph1 \<subseteq> free_set ph" "card (free_set ph1) + l1_tables (Suc n) = card (free_set ph) + l1_tables n"
    "\<forall>e. entry_safe ph e \<longrightarrow> entry_safe ph1 e"
    by auto
  have "\<exists>priv' ph'. bset_grow [Suc n..<Suc n + d] (priv1, ph1) = Some (priv', ph') \<and> bset_ok (Suc n + d) priv' ph'
     \<and> (\<forall>i < Suc n. entry priv' i = entry priv1 i) \<and> (\<forall>i. Suc n \<le> i \<longrightarrow> i < Suc n + d \<longrightarrow> entry priv' i = RAM_BSET_AVAIL)
     \<and> rp_size priv' = rp_size priv1 \<and> rp_cap priv' = rp_cap priv1
     \<and> free_set ph' \<subseteq> free_set ph1 \<and> card (free_set ph') + l1_tables (Suc n + d) = card (free_set ph1) + l1_tables (Suc n)
     \<and> (\<forall>e. entry_safe ph1 e \<longrightarrow> entry_safe ph' e)"
    using Suc.prems(2,3) 1(8) by (intro Suc.IH [OF 1(2)]) simp_all
  then obtain priv' ph' where 2: "bset_grow [Suc n..<Suc n + d] (priv1, ph1) = Some (priv', ph')" "bset_ok (Suc n + d) priv' ph'"
     "\<forall>i < Suc n. entry priv' i = entry priv1 i" "\<forall>i. Suc n \<le> i \<longrightarrow> i < Suc n + d \<longrightarrow> entry priv' i = RAM_BSET_AVAIL"
     "rp_size priv' = rp_size priv1" "rp_cap priv' = rp_cap priv1"
     "free_set ph' \<subseteq> free_set ph1" "card (free_set ph') + l1_tables (Suc n + d) = card (free_set ph1) + l1_tables (Suc n)"
     "\<forall>e. entry_safe ph1 e \<longrightarrow> entry_safe ph' e" by blast
  have "[n..<n + Suc d] = n # [Suc n..<Suc n + d]" by (simp add: upt_conv_Cons)
  hence "bset_grow [n..<n + Suc d] (priv, ph) = Some (priv', ph')" using 1(1) 2(1) by simp
  moreover have "entry priv' i = RAM_BSET_AVAIL" if "n \<le> i" "i < n + Suc d" for i
    using that 1(3) 2(3,4) by (cases "i = n") auto
  ultimately show ?case using 1 2 by auto
qed simp

text \<open>Giving an entry a page.\<close>

lemma bset_alloc_one_ok:
  assumes ok: "bset_ok n priv ph" and i: "i < n" "entry priv i = RAM_BSET_AVAIL" and free: "free_set ph \<noteq> {}"
  shows "\<exists>j priv' ph'. bset_alloc_one i (priv, ph) = Some (priv', ph') \<and> bset_ok n priv' ph' \<and> j \<in> free_set ph
     \<and> (\<forall>k < n. entry priv' k = (if k = i then page_entry j else entry priv k))
     \<and> rp_size priv' = rp_size priv \<and> rp_cap priv' = rp_cap priv
     \<and> free_set ph' \<subseteq> free_set ph \<and> card (free_set ph) = Suc (card (free_set ph'))"
proof -
  note s = bset_okD(1) [OF ok]
  obtain j ph' where a: "mm_phys_alloc_page PU_KERNEL ph = Some (Some (j * 4096), ph')" "phys_took PU_KERNEL {j} ph ph'"
    and j: "j \<in> free_set ph" and c: "card (free_set ph) = Suc (card (free_set ph'))"
    using alloc_takes [OF bset_okD(4) [OF ok] free] by blast
  note pe = page_entry_simps [OF conjunct1 [OF free_page_bound [OF j]]]
  define priv' where "priv' = bset_put i (page_entry j) priv"
  have e: "entry priv' k = (if k = i then page_entry j else entry priv k)" if "k < n" for k
    using put_entry [OF s i(1) that] by (simp add: priv'_def)
  have b: "blk priv' k = (if k = i then MM_VIRTUALIZE (j * 4096) else blk priv k)" if "k < n" for k
    using e [OF that] pe(1) by (simp add: blk_def)
  have run: "bset_alloc_one i (priv, ph) = Some (priv', ph')"
    using a(1) shape_slot [OF s i(1)] i(2)
    by (simp add: bset_alloc_one_def ram_vnode_bset_set_def priv'_def page_entry_def or.assoc flag_simps)
  have "objs n priv' \<subseteq> insert (Inr i, j * 4096) (objs n priv)"
    using e b by (auto simp: objs_def priv'_def put_l1_page [OF s] split: if_splits)
  hence p: "owns (objs n priv') ph'" by (rule owns_add [OF bset_okD(2) [OF ok] a(2)])
  have f: "free_set ph' = free_set ph - {j}" using a(2) by (simp add: phys_took_def)
  have old: "MM_PHYS (blk priv k) div 4096 \<notin> free_set ph" if "k < n" for k
    using bset_okD(3) [OF ok] that by (simp add: blks_ok_def entry_safe_def blk_def)
  hence new: "blk priv k \<noteq> MM_VIRTUALIZE (j * 4096)" if "k < n" for k using that j by force
  have sf: "entry_safe ph' (page_entry j)" using f pe by (simp add: entry_safe_def)
  have "blks_ok n priv' ph'"
    using bset_okD(3) [OF ok] new new [symmetric] safe_took [OF a(2)] sf unfolding blks_ok_def by (auto simp: b e)
  thus ?thesis using run p put_shape [OF s i(1), of "page_entry j"] e j c f
    by (auto simp: bset_ok_def priv'_def)
qed

lemma bset_alloc_ok:
  "bset_ok n priv ph \<Longrightarrow> m \<le> n \<Longrightarrow> \<forall>i. m \<le> i \<longrightarrow> i < n \<longrightarrow> entry priv i = RAM_BSET_AVAIL \<Longrightarrow> n - m \<le> card (free_set ph) \<Longrightarrow>
   \<exists>priv' ph'. bset_alloc [m..<n] (priv, ph) = Some (priv', ph') \<and> bset_ok n priv' ph'
     \<and> (\<forall>i < m. entry priv' i = entry priv i)
     \<and> (\<forall>i. m \<le> i \<longrightarrow> i < n \<longrightarrow> (\<exists>j \<in> free_set ph. entry priv' i = page_entry j))
     \<and> rp_size priv' = rp_size priv \<and> rp_cap priv' = rp_cap priv
     \<and> free_set ph' \<subseteq> free_set ph \<and> card (free_set ph) = card (free_set ph') + (n - m)"
proof (induction "n - m" arbitrary: m priv ph)
  case 0
  thus ?case by simp
next
  case (Suc d)
  have m: "m < n" "d = n - Suc m" using Suc.hyps(2) by simp_all
  have "free_set ph \<noteq> {}" using Suc.prems(4) m(1) by auto
  from bset_alloc_one_ok [OF Suc.prems(1) m(1) _ this] Suc.prems(3) m(1)
  obtain j priv1 ph1 where 1: "bset_alloc_one m (priv, ph) = Some (priv1, ph1)" "bset_ok n priv1 ph1" "j \<in> free_set ph"
     "\<forall>k < n. entry priv1 k = (if k = m then page_entry j else entry priv k)"
     "rp_size priv1 = rp_size priv" "rp_cap priv1 = rp_cap priv"
     "free_set ph1 \<subseteq> free_set ph" "card (free_set ph) = Suc (card (free_set ph1))"
    by auto
  have "\<exists>priv' ph'. bset_alloc [Suc m..<n] (priv1, ph1) = Some (priv', ph') \<and> bset_ok n priv' ph'
     \<and> (\<forall>i < Suc m. entry priv' i = entry priv1 i)
     \<and> (\<forall>i. Suc m \<le> i \<longrightarrow> i < n \<longrightarrow> (\<exists>j \<in> free_set ph1. entry priv' i = page_entry j))
     \<and> rp_size priv' = rp_size priv1 \<and> rp_cap priv' = rp_cap priv1
     \<and> free_set ph' \<subseteq> free_set ph1 \<and> card (free_set ph1) = card (free_set ph') + (n - Suc m)"
    using Suc.prems(3,4) 1(4,8) m by (intro Suc.hyps(1) [OF m(2) 1(2)]) auto
  then obtain priv' ph' where 2: "bset_alloc [Suc m..<n] (priv1, ph1) = Some (priv', ph')" "bset_ok n priv' ph'"
     "\<forall>i < Suc m. entry priv' i = entry priv1 i"
     "\<forall>i. Suc m \<le> i \<longrightarrow> i < n \<longrightarrow> (\<exists>j \<in> free_set ph1. entry priv' i = page_entry j)"
     "rp_size priv' = rp_size priv1" "rp_cap priv' = rp_cap priv1"
     "free_set ph' \<subseteq> free_set ph1" "card (free_set ph1) = card (free_set ph') + (n - Suc m)" by blast
  have "[m..<n] = m # [Suc m..<n]" using m(1) by (simp add: upt_conv_Cons)
  hence "bset_alloc [m..<n] (priv, ph) = Some (priv', ph')" using 1(1) 2(1) by simp
  moreover have "\<exists>j \<in> free_set ph. entry priv' i = page_entry j" if "m \<le> i" "i < n" for i
  proof (cases "i = m")
    case False
    hence "Suc m \<le> i" using that(1) by simp
    thus ?thesis using 2(4) that(2) 1(7) by blast
  qed (use 1(3,4) 2(3) m in auto)
  ultimately show ?case using 1 2 m by auto
qed

text \<open>The files: every block has an address, the table is as long as the size asks for.\<close>

definition ram_file :: "ram_vnode_private \<Rightarrow> phys \<Rightarrow> bool" where
  "ram_file priv ph \<longleftrightarrow> bset_ok (rp_cap priv) priv ph \<and> rp_cap priv = (rp_size priv + 511) div 512
     \<and> (\<forall>i < rp_cap priv. bit (entry priv i) 0 \<and> blk priv i \<noteq> 0)"

lemma ram_fileD:
  assumes "ram_file priv ph"
  shows "bset_ok (rp_cap priv) priv ph" "rp_cap priv = (rp_size priv + 511) div 512" "rp_cap priv \<le> 12320"
    "i < rp_cap priv \<Longrightarrow> bit (entry priv i) 0" "i < rp_cap priv \<Longrightarrow> blk priv i \<noteq> 0"
  using assms shapeD(1) [OF bset_okD(1)] by (auto simp: ram_file_def)

lemma frame_simps [simp]:
  "entry (priv\<lparr>rp_size := x, rp_cap := y\<rparr>) = entry priv" "blk (priv\<lparr>rp_size := x, rp_cap := y\<rparr>) = blk priv"
  "bset_ok n (priv\<lparr>rp_size := x, rp_cap := y\<rparr>) ph = bset_ok n priv ph"
proof -
  have s: "bset_slot (priv\<lparr>rp_size := x, rp_cap := y\<rparr>) = bset_slot priv" by (auto simp: bset_slot_def fun_eq_iff)
  thus e: "entry (priv\<lparr>rp_size := x, rp_cap := y\<rparr>) = entry priv" by (simp add: entry_def fun_eq_iff)
  thus b: "blk (priv\<lparr>rp_size := x, rp_cap := y\<rparr>) = blk priv" by (simp add: blk_def fun_eq_iff)
  have "l1_page (priv\<lparr>rp_size := x, rp_cap := y\<rparr>) = l1_page priv" by (simp add: l1_page_def fun_eq_iff)
  thus "bset_ok n (priv\<lparr>rp_size := x, rp_cap := y\<rparr>) ph = bset_ok n priv ph"
    using e b by (simp add: bset_ok_def bset_shape_def blks_ok_def objs_def)
qed

text \<open>The pages growing a file from \<open>n\<close> to \<open>m\<close> blocks takes: one per block, and the second-level tables.\<close>

definition pages_needed :: "nat \<Rightarrow> nat \<Rightarrow> nat" where
  "pages_needed n m = (m - n) + (l1_tables m - l1_tables n)"

lemma bset_extend_ok:
  assumes f: "ram_file priv ph" and sz: "rp_size priv < sz" "sz \<le> 12320 * 512"
    and need: "pages_needed (rp_cap priv) ((sz + 511) div 512) \<le> card (free_set ph)"
  shows "\<exists>priv' ph'. bset_extend sz (priv, ph) = Some (priv', ph') \<and> ram_file priv' ph' \<and> rp_size priv' = sz
     \<and> (\<forall>i < rp_cap priv. blk priv' i = blk priv i)
     \<and> (\<forall>i. rp_cap priv \<le> i \<longrightarrow> i < rp_cap priv' \<longrightarrow> MM_PHYS (blk priv' i) div 4096 \<in> free_set ph)
     \<and> card (free_set ph) = card (free_set ph') + pages_needed (rp_cap priv) (rp_cap priv')"
proof -
  define n m where "n = rp_cap priv" and "m = (sz + 511) div 512"
  have bo: "blocks_of sz = m" using sz(2) by (simp add: blocks_of_def m_def)
  have nm: "n \<le> m" using ram_fileD(2) [OF f] sz(1) unfolding n_def m_def by (simp add: div_le_mono)
  have m: "m \<le> 12320" using sz(2) by (simp add: m_def)
  note mono = l1_tables_mono [OF nm]
  note need' = need [folded n_def m_def]
  obtain priv1 ph1 where g: "bset_grow [n..<m] (priv, ph) = Some (priv1, ph1)" "bset_ok m priv1 ph1"
     "\<forall>i < n. entry priv1 i = entry priv i" "\<forall>i. n \<le> i \<longrightarrow> i < m \<longrightarrow> entry priv1 i = RAM_BSET_AVAIL"
     "free_set ph1 \<subseteq> free_set ph" "card (free_set ph1) + l1_tables m = card (free_set ph) + l1_tables n"
  proof -
    have "l1_tables m \<le> card (free_set ph) + l1_tables n" using need' mono unfolding pages_needed_def by linarith
    thus ?thesis using bset_grow_ok [OF ram_fileD(1) [OF f, folded n_def], of "m - n"] nm m that by auto
  qed
  define priv2 where "priv2 = priv1\<lparr>rp_size := sz, rp_cap := m\<rparr>"
  have r: "ram_vnode_bset_resize sz (priv, ph) = Some (priv2, ph1)"
    using g(1) nm by (simp add: ram_vnode_bset_resize_def bo Let_def n_def [symmetric] priv2_def)
  have p2: "bset_ok m priv2 ph1" "entry priv2 = entry priv1" "rp_size priv2 = sz" "rp_cap priv2 = m"
    using g(2) by (simp_all add: priv2_def)
  have "m - n \<le> card (free_set ph1)" using g(6) need' mono by (simp add: pages_needed_def)
  then obtain priv' ph' where a: "bset_alloc [n..<m] (priv2, ph1) = Some (priv', ph')" "bset_ok m priv' ph'"
     "\<forall>i < n. entry priv' i = entry priv2 i"
     "\<forall>i. n \<le> i \<longrightarrow> i < m \<longrightarrow> (\<exists>j \<in> free_set ph1. entry priv' i = page_entry j)"
     "rp_size priv' = rp_size priv2" "rp_cap priv' = rp_cap priv2"
     "card (free_set ph1) = card (free_set ph') + (m - n)"
    using bset_alloc_ok [OF p2(1) nm] g(4) p2(2) by auto
  have old: "entry priv' i = entry priv i" if "i < n" for i using a(3) g(3) p2(2) that by simp
  have new: "\<exists>j \<in> free_set ph. bit (entry priv' i) 0 \<and> blk priv' i = MM_VIRTUALIZE (j * 4096)" if i: "n \<le> i" "i < m" for i
  proof -
    obtain j where j: "j \<in> free_set ph1" "entry priv' i = page_entry j" using a(4) i by blast
    thus ?thesis using page_entry_simps [OF conjunct1 [OF free_page_bound [OF j(1)]]] g(5) by (auto simp: blk_def)
  qed
  have "bit (entry priv' i) 0 \<and> blk priv' i \<noteq> 0" if "i < m" for i
  proof (cases "i < n")
    case True
    thus ?thesis using ram_fileD(4,5) [OF f, of i] old [OF True] by (simp add: blk_def n_def)
  next
    case False
    thus ?thesis using new [of i] that by (auto simp: MM_VIRTUALIZE_def KERNEL_OFFSET_def)
  qed
  hence "ram_file priv' ph'" using a(2,5,6) p2(3,4) by (simp add: ram_file_def m_def)
  moreover have "bset_extend sz (priv, ph) = Some (priv', ph')"
    using r a(1) by (simp add: bset_extend_def bo Let_def n_def [symmetric])
  moreover have "MM_PHYS (blk priv' i) div 4096 \<in> free_set ph" if "n \<le> i" "i < m" for i using new [OF that] by auto
  moreover have "card (free_set ph) = card (free_set ph') + pages_needed n m"
    using g(6) a(7) mono nm by (simp add: pages_needed_def)
  ultimately show ?thesis using old a(5,6) p2(3,4) by (auto simp: blk_def n_def [symmetric])
qed

section \<open>Reading and writing\<close>

definition loc :: "ram_vnode_private \<Rightarrow> nat \<Rightarrow> nat" where
  "loc priv k = blk priv (k div 512) + k mod 512"

definition contents :: "ram_vnode_private \<Rightarrow> (nat \<Rightarrow> byte) \<Rightarrow> byte list" where
  "contents priv mem = map (\<lambda>k. mem (loc priv k)) [0..<rp_size priv]"

lemma contents_simps [simp]:
  "length (contents priv mem) = rp_size priv" "k < rp_size priv \<Longrightarrow> contents priv mem ! k = mem (loc priv k)"
  by (simp_all add: contents_def)

lemma file_index: "ram_file priv ph \<Longrightarrow> k < rp_size priv \<Longrightarrow> k div 512 < rp_cap priv"
  unfolding ram_fileD(2) by (simp add: less_eq_div_iff_mult_less_eq Suc_le_eq [symmetric] div_le_mono)

lemma file_block:
  assumes "ram_file priv ph" "i < rp_cap priv"
  shows "block_addr priv i = Some (blk priv i)"
proof -
  have "blk_addr (entry priv i) \<noteq> 0" using ram_fileD(5) [OF assms] by (simp add: blk_def)
  hence "entry priv i AND NOT 511 \<noteq> 0" unfolding blk_addr_def by auto
  thus ?thesis using ram_fileD(4) [OF assms] shape_slot [OF bset_okD(1) [OF ram_fileD(1) [OF assms(1)]] assms(2)]
    by (simp add: block_addr_def ram_vnode_bset_get_def blk_def blk_addr_def flag_simps)
qed

lemma loc_block:
  assumes "j < 512 - pos mod 512"
  shows "loc priv (pos + j) = blk priv (pos div 512) + pos mod 512 + j"
proof -
  define q r where "q = pos div 512" and "r = pos mod 512"
  have p: "pos + j = 512 * q + (r + j)" "r + j < 512"
    using assms div_mult_mod_eq [of pos 512] by (simp_all add: q_def r_def)
  have "(pos + j) div 512 = q" "(pos + j) mod 512 = r + j" unfolding p(1) using p(2) by simp_all
  thus ?thesis by (simp add: loc_def q_def r_def)
qed

lemma loc_inj:
  assumes f: "ram_file priv ph" and k: "k < rp_size priv" "l < rp_size priv" "loc priv k = loc priv l"
  shows "k = l"
proof -
  have al: "blk priv i mod 512 = 0" for i by (simp add: blk_def blk_addr_aligned)
  have m: "loc priv i mod 512 = i mod 512" for i
    using mod_add_left_eq [of "blk priv (i div 512)" 512 "i mod 512"] by (simp add: loc_def al)
  have "k mod 512 = l mod 512" using k(3) m [of k] m [of l] by simp
  hence "blk priv (k div 512) = blk priv (l div 512)" using k(3) by (simp add: loc_def)
  moreover have "\<forall>i < rp_cap priv. \<forall>j < rp_cap priv. i \<noteq> j \<longrightarrow> blk priv i = blk priv j \<longrightarrow> blk priv i = 0"
    using bset_okD(3) [OF ram_fileD(1) [OF f]] unfolding blks_ok_def by (rule conjunct2)
  ultimately have "k div 512 = l div 512" using file_index [OF f] k(1,2) ram_fileD(5) [OF f] by blast
  hence "k = 512 * (l div 512) + l mod 512" using \<open>k mod 512 = l mod 512\<close> mult_div_mod_eq [of 512 k] by (simp only:)
  also have "\<dots> = l" by (rule mult_div_mod_eq)
  finally show ?thesis .
qed

lemma can_bounds:
  fixes pos rem :: nat
  assumes "can = min rem (512 - pos mod 512)" "rem \<noteq> 0"
  shows "can \<noteq> 0" "can \<le> rem" "j < can \<Longrightarrow> j < 512 - pos mod 512"
proof -
  have "pos mod 512 < 512" by simp
  thus "can \<noteq> 0" "can \<le> rem" "j < can \<Longrightarrow> j < 512 - pos mod 512" using assms by simp_all
qed

lemma ram_read_loop_ok:
  assumes f: "ram_file priv ph"
  shows "pos + rem \<le> rp_size priv \<Longrightarrow> ram_read_loop priv mem pos rem = Some (map (\<lambda>k. mem (loc priv k)) [pos..<pos + rem])"
proof (induction rem arbitrary: pos rule: less_induct)
  case (less rem)
  show ?case
  proof (cases "rem = 0")
    case True
    thus ?thesis by (simp add: ram_read_loop.simps)
  next
    case False
    define can where "can = min rem (512 - pos mod 512)"
    note c = can_bounds [OF can_def False]
    have b: "block_addr priv (pos div 512) = Some (blk priv (pos div 512))"
      using file_block [OF f file_index [OF f]] less.prems False by simp
    have rest: "ram_read_loop priv mem (pos + can) (rem - can) = Some (map (\<lambda>k. mem (loc priv k)) [pos + can..<pos + rem])"
      using less.IH [of "rem - can" "pos + can"] less.prems False c(1,2) by simp
    have "bytes_at mem (blk priv (pos div 512) + pos mod 512) can = map (\<lambda>k. mem (loc priv k)) [pos..<pos + can]"
      by (rule nth_equalityI) (simp_all add: bytes_at_def loc_block [OF c(3)])
    moreover have "[pos..<pos + rem] = [pos..<pos + can] @ [pos + can..<pos + rem]"
      using c(2) upt_add_eq_append [of pos "pos + can" "rem - can"] by simp
    ultimately show ?thesis
      using False b rest by (subst ram_read_loop.simps) (simp add: can_def [symmetric] Let_def)
  qed
qed

lemma ram_write_loop_ok:
  assumes f: "ram_file priv ph"
  shows "pos + length buf \<le> rp_size priv \<Longrightarrow> \<exists>mem'. ram_write_loop priv pos buf mem = Some mem'
     \<and> (\<forall>k < rp_size priv. mem' (loc priv k) = (if pos \<le> k \<and> k < pos + length buf then buf ! (k - pos) else mem (loc priv k)))
     \<and> (\<forall>x. x \<notin> loc priv ` {pos..<pos + length buf} \<longrightarrow> mem' x = mem x)"
proof (induction "length buf" arbitrary: pos buf mem rule: less_induct)
  case less
  show ?case
  proof (cases "buf = []")
    case True
    thus ?thesis by (intro exI [of _ mem]) (simp add: ram_write_loop.simps, linarith)
  next
    case False
    define can where "can = min (length buf) (512 - pos mod 512)"
    have "length buf \<noteq> 0" using False by simp
    note c = can_bounds [OF can_def this]
    define a where "a = blk priv (pos div 512) + pos mod 512"
    have b: "block_addr priv (pos div 512) = Some (blk priv (pos div 512))"
      using file_block [OF f file_index [OF f, of pos]] less.prems False by (cases buf) simp_all
    define mem1 where "mem1 = put_bytes a (take can buf) mem"
    have at: "loc priv (pos + j) = a + j" if "j < can" for j using loc_block [OF c(3) [OF that]] by (simp add: a_def)
    have m1: "mem1 x = (if x \<in> loc priv ` {pos..<pos + can} then buf ! (x - a) else mem x)" for x
    proof -
      have "loc priv ` {pos..<pos + can} = {a..<a + can}"
      proof (intro equalityI subsetI)
        fix y assume "y \<in> loc priv ` {pos..<pos + can}"
        then obtain k where "y = loc priv k" "pos \<le> k" "k < pos + can" by auto
        moreover from \<open>pos \<le> k\<close> obtain j where "k = pos + j" using le_Suc_ex by blast
        ultimately show "y \<in> {a..<a + can}" using at [of j] by simp
      next
        fix y assume "y \<in> {a..<a + can}"
        hence "y = loc priv (pos + (y - a))" "pos + (y - a) \<in> {pos..<pos + can}" using at [of "y - a"] by auto
        thus "y \<in> loc priv ` {pos..<pos + can}" by blast
      qed
      moreover have "take can buf ! (x - a) = buf ! (x - a)" if "x \<in> {a..<a + can}" using that c(2) by auto
      ultimately show ?thesis using c(2) by (simp add: mem1_def put_bytes_def)
    qed
    have lt: "length (drop can buf) < length buf" using c(1) False by simp
    have pr: "pos + can + length (drop can buf) \<le> rp_size priv" using less.prems c(2) by simp
    obtain mem' where r: "ram_write_loop priv (pos + can) (drop can buf) mem1 = Some mem'"
      and in': "\<And>k. k < rp_size priv \<Longrightarrow> mem' (loc priv k) =
         (if pos + can \<le> k \<and> k < pos + can + length (drop can buf) then drop can buf ! (k - (pos + can)) else mem1 (loc priv k))"
      and out: "\<And>x. x \<notin> loc priv ` {pos + can..<pos + can + length (drop can buf)} \<Longrightarrow> mem' x = mem1 x"
      using less.hyps [OF lt pr, of mem1] by blast
    have end': "pos + can + length (drop can buf) = pos + length buf" using c(2) by simp
    have "mem' (loc priv k) = (if pos \<le> k \<and> k < pos + length buf then buf ! (k - pos) else mem (loc priv k))"
      if k: "k < rp_size priv" for k
    proof (cases "pos + can \<le> k \<and> k < pos + length buf")
      case True
      thus ?thesis using in' [OF k] end' by (simp add: c(2))
    next
      case no: False
      have "pos \<le> k \<and> k < pos + can" if m: "loc priv k \<in> loc priv ` {pos..<pos + can}"
      proof -
        obtain l where "l \<in> {pos..<pos + can}" "loc priv k = loc priv l" using m by blast
        thus ?thesis using loc_inj [OF f k, of l] less.prems c(2) by simp
      qed
      hence "loc priv k \<in> loc priv ` {pos..<pos + can} \<longleftrightarrow> pos \<le> k \<and> k < pos + can"
        by (intro iffI) (assumption | rule imageI | simp)+
      moreover have "loc priv k - a = k - pos" if "pos \<le> k" "k < pos + can" using at [of "k - pos"] that by simp
      ultimately show ?thesis using in' [OF k] end' no m1 [of "loc priv k"] c(2) by auto
    qed
    moreover have "mem' x = mem x" if "x \<notin> loc priv ` {pos..<pos + length buf}" for x
    proof -
      have "x \<notin> loc priv ` {pos + can..<pos + can + length (drop can buf)}" "x \<notin> loc priv ` {pos..<pos + can}"
        using that c(2) unfolding end' by auto
      thus ?thesis using out [of x] m1 [of x] by simp
    qed
    moreover have "ram_write_loop priv pos buf mem = Some mem'"
      using False b r by (subst ram_write_loop.simps) (simp add: can_def [symmetric] a_def mem1_def Let_def)
    ultimately show ?thesis by blast
  qed
qed

definition overwrite :: "nat \<Rightarrow> byte list \<Rightarrow> byte list \<Rightarrow> byte list" where
  "overwrite pos buf old = take pos old @ buf @ drop (pos + length buf) old"

lemma overwrite_nth:
  "pos \<le> length old \<Longrightarrow> k < max (length old) (pos + length buf) \<Longrightarrow>
     overwrite pos buf old ! k = (if pos \<le> k \<and> k < pos + length buf then buf ! (k - pos) else old ! k)"
  by (auto simp: overwrite_def nth_append)

lemma overwrite_length: "pos \<le> length old \<Longrightarrow> length (overwrite pos buf old) = max (length old) (pos + length buf)"
  by (simp add: overwrite_def)

text \<open>Another file that shares no block with a file shares none with the grown file either.\<close>

lemma contents_frame:
  assumes q: "ram_file q ph"
    and old: "\<And>i j. i < rp_cap priv \<Longrightarrow> j < rp_cap q \<Longrightarrow> blk priv i \<noteq> blk q j"
    and kept: "\<And>i. i < rp_cap priv \<Longrightarrow> blk priv' i = blk priv i"
    and new: "\<And>i. rp_cap priv \<le> i \<Longrightarrow> i < rp_cap priv' \<Longrightarrow> MM_PHYS (blk priv' i) div 4096 \<in> free_set ph"
    and f: "ram_file priv' ph'" and lim: "A \<subseteq> {..<rp_size priv'}" and out: "\<And>x. x \<notin> loc priv' ` A \<Longrightarrow> mem' x = mem x"
  shows "contents q mem' = contents q mem"
proof -
  have "loc q k \<notin> loc priv' ` A" if k: "k < rp_size q" for k
  proof
    assume "loc q k \<in> loc priv' ` A"
    then obtain l where l: "l < rp_size priv'" "loc q k = loc priv' l" using lim by auto
    have al: "blk p i mod 512 = 0" for p i by (simp add: blk_def blk_addr_aligned)
    have m: "loc p i mod 512 = i mod 512" for p i
      using mod_add_left_eq [of "blk p (i div 512)" 512 "i mod 512"] by (simp add: loc_def al)
    have "k mod 512 = l mod 512" using m [of q k] m [of priv' l] l(2) by simp
    hence e: "blk q (k div 512) = blk priv' (l div 512)" using l(2) by (simp add: loc_def)
    have i: "k div 512 < rp_cap q" "l div 512 < rp_cap priv'" by (rule file_index [OF q k], rule file_index [OF f l(1)])
    have "MM_PHYS (blk q (k div 512)) div 4096 \<notin> free_set ph"
      using bset_okD(3) [OF ram_fileD(1) [OF q]] i(1) by (simp add: blks_ok_def entry_safe_def blk_def)
    thus False using e old [OF _ i(1)] kept new [OF _ i(2)] by (cases "l div 512 < rp_cap priv") auto
  qed
  thus ?thesis using out by (simp add: contents_def)
qed

section \<open>A sample file\<close>

text \<open>A file of three bytes in the boot archive, with 44 free pages in the machine.\<close>

definition demo_phys :: phys where
  "demo_phys = \<lparr>mm_pages = (\<lambda>i. if 256 \<le> i \<and> i < 300 then \<lparr>pg_flags = 0, pg_usage = PU_UNKNOWN, pg_refcount = 0\<rparr>
       else \<lparr>pg_flags = PG_ALLOC, pg_usage = PU_UNKNOWN, pg_refcount = REFCOUNT_RESERVED\<rparr>),
     ph_total_pages = 44, ph_pages_free = 44, ph_alloc_pages = (\<lambda>_. 0), ph_reserved = []\<rparr>"

definition demo_priv :: ram_vnode_private where
  "demo_priv = \<lparr>rp_size = 3, rp_cap = 1, rp_l0 = 0xFFFFFF0000001001 # replicate 31 0, rp_l1 = replicate 24 None\<rparr>"

definition demo_st :: ramfs where
  "demo_st = set_priv 2 demo_priv ((demo_ram demo_phys)\<lparr>vf_world :=
     \<lparr>rw_phys = demo_phys, rw_mem = put_bytes 0xFFFFFF0000001000 [7, 8, 9] (\<lambda>_. 0), rw_begin = 0, rw_lim = 0, rw_root = Map.empty\<rparr>\<rparr>)"

lemma demo_phys_sets: "free_set demo_phys = {256..<300}" "used_set demo_phys u = {}"
  by (auto simp: free_set_def used_set_def demo_phys_def pg_alloc_def flag_simps LOW_PAGE_def PHYS_MAX_PAGES_def split: if_splits)

lemma demo_phys_inv: "phys_inv demo_phys"
  unfolding phys_inv_def demo_phys_sets
  by (auto simp: demo_phys_def pg_alloc_def flag_simps LOW_PAGE_def split: if_splits)

lemma demo_entry: "entry demo_priv 0 = 0xFFFFFF0000001001" "blk demo_priv 0 = 0xFFFFFF0000001000"
  by (simp_all add: blk_def blk_addr_def entry_def bset_slot_def demo_priv_def)

lemma demo_file_ok: "ram_file demo_priv demo_phys"
proof -
  have "bset_shape 1 demo_priv"
    by (auto simp: bset_shape_def demo_priv_def RAM_BLOCKS_def nth_Cons split: nat.splits)
  moreover have "objs 1 demo_priv = {}" by (auto simp: objs_def demo_entry l1_page_def) (simp add: demo_priv_def)
  hence "owns (objs 1 demo_priv) demo_phys" by (simp add: owns_def demo_phys_inv)
  moreover have "blks_ok 1 demo_priv demo_phys"
    using demo_entry by (simp add: blks_ok_def entry_safe_def demo_phys_sets blk_def MM_PHYS_def KERNEL_OFFSET_def)
  moreover have "rp_cap demo_priv = 1" "rp_size demo_priv = 3" by (simp_all add: demo_priv_def)
  ultimately show ?thesis by (simp add: ram_file_def bset_ok_def demo_entry)
qed

lemma demo_st_simps:
  "vf_node demo_st 2 = Some (demo_node VN_REG ''a'' [] (Some 1) 1 (Some demo_priv))" "rw_phys (vf_world demo_st) = demo_phys"
  "rw_mem (vf_world demo_st) = put_bytes 0xFFFFFF0000001000 [7, 8, 9] (\<lambda>_. 0)"
  "of_vnode demo_file = Some 2" "of_pos demo_file = 0" "rp_size demo_priv = 3" "rp_cap demo_priv = 1"
  by (simp_all add: demo_st_def set_priv_def demo_ram_def demo_node_def demo_file_def demo_priv_def)

lemma demo_contents: "contents demo_priv (rw_mem (vf_world demo_st)) = [7, 8, 9]"
  by (simp add: contents_def loc_def demo_st_simps demo_entry put_bytes_def upt_conv_Cons)

lemma demo_facts:
  "ram_file demo_priv (rw_phys (vf_world demo_st))" "vn_data (demo_node VN_REG ''a'' [] (Some 1) 1 (Some demo_priv)) = Some demo_priv"
  by (simp_all add: demo_st_simps demo_file_ok demo_node_def)

section \<open>Properties\<close>

text \<open>
  C16: Reading a ramfs file returns its contents. For a file whose block table is in order, \<open>read\<close>
  succeeds, returns the bytes of the file from the position on, as many as asked for or as there are,
  and moves the position behind them; nothing else changes.
\<close>

theorem ramfs_read_correct:
  assumes "ram_file priv (rw_phys (vf_world st))" "of_vnode fd = Some v" "vf_node st v = Some n" "vn_data n = Some priv"
  shows "ramfs_vnode_read fd count st =
     (let data = take count (drop (of_pos fd) (contents priv (rw_mem (vf_world st))))
      in Some (int (length data), data, fd\<lparr>of_pos := min (of_pos fd) (rp_size priv) + length data\<rparr>, st))"
proof (cases "rp_size priv \<le> of_pos fd")
  case True
  thus ?thesis using assms(2-4) by (simp add: ramfs_vnode_read_def)
next
  case False
  define data where "data = take count (drop (of_pos fd) (contents priv (rw_mem (vf_world st))))"
  define rem where "rem = min count (rp_size priv - of_pos fd)"
  have "of_pos fd + rem \<le> rp_size priv" using False by (simp add: rem_def)
  note r = ram_read_loop_ok [OF assms(1) this, of "rw_mem (vf_world st)"]
  have len: "length data = rem" using False by (simp add: data_def rem_def)
  have "data = map (\<lambda>k. rw_mem (vf_world st) (loc priv k)) [of_pos fd..<of_pos fd + rem]"
  proof (rule nth_equalityI)
    fix i assume "i < length data"
    hence "i < rem" "i < count" "of_pos fd + i < rp_size priv" using len by (auto simp: rem_def)
    thus "data ! i = map (\<lambda>k. rw_mem (vf_world st) (loc priv k)) [of_pos fd..<of_pos fd + rem] ! i"
      by (simp add: data_def)
  qed (simp add: len)
  thus ?thesis using False assms(2-4) r len
    by (simp add: ramfs_vnode_read_def rem_def [symmetric] data_def [symmetric] Let_def)
qed

theorem ramfs_read_correct_witness:
  "ramfs_vnode_read demo_file 2 demo_st = Some (2, [7, 8], demo_file\<lparr>of_pos := 2\<rparr>, demo_st)"
  using ramfs_read_correct [OF demo_facts(1) demo_st_simps(4,1) demo_facts(2), of 2]
  by (simp add: demo_contents demo_st_simps(5-))

lemma write_extends:
  assumes f: "ram_file priv ph" and e: "end' \<le> 12320 * 512" and need: "pages_needed (rp_cap priv) ((end' + 511) div 512) \<le> card (free_set ph)"
  shows "\<exists>priv1 ph1. (if rp_size priv < end' then bset_extend end' (priv, ph) else Some (priv, ph)) = Some (priv1, ph1)
     \<and> ram_file priv1 ph1 \<and> rp_size priv1 = max (rp_size priv) end' \<and> (\<forall>i < rp_cap priv. blk priv1 i = blk priv i)
     \<and> (\<forall>i. rp_cap priv \<le> i \<longrightarrow> i < rp_cap priv1 \<longrightarrow> MM_PHYS (blk priv1 i) div 4096 \<in> free_set ph)
     \<and> card (free_set ph) = card (free_set ph1) + pages_needed (rp_cap priv) (rp_cap priv1)"
proof (cases "rp_size priv < end'")
  case True
  thus ?thesis using bset_extend_ok [OF f True e] need by (fastforce simp: max_def)
next
  case False
  thus ?thesis using f by (simp add: pages_needed_def max_def)
qed

lemma write_contents:
  assumes pos: "pos \<le> rp_size priv" and size: "rp_size priv1 = max (rp_size priv) (pos + length buf)"
    and same: "\<And>k. k < rp_size priv \<Longrightarrow> loc priv1 k = loc priv k"
    and mem': "\<And>k. k < rp_size priv1 \<Longrightarrow> mem' (loc priv1 k) = (if pos \<le> k \<and> k < pos + length buf then buf ! (k - pos) else mem (loc priv1 k))"
  shows "contents priv1 mem' = overwrite pos buf (contents priv mem)"
proof (rule nth_equalityI)
  show "length (contents priv1 mem') = length (overwrite pos buf (contents priv mem))"
    using pos size by (simp add: overwrite_length)
  fix k assume "k < length (contents priv1 mem')"
  thus "contents priv1 mem' ! k = overwrite pos buf (contents priv mem) ! k"
    using pos size mem' [of k] same [of k] by (auto simp: overwrite_nth)
qed

text \<open>
  C15: Writing a ramfs file overwrites its contents. For a file in order, a position inside it, an end
  below the largest size a table can hold and enough free pages, \<open>write\<close> succeeds, writes everything
  and moves the position behind it; afterwards the file is in order again, its contents are the old ones
  with the written bytes laid over them (growing it if needed), the free pages went down by exactly one
  for each new block and each new second-level table, and no other file that shared no block with this
  one changed.
\<close>

theorem ramfs_write_correct:
  assumes f: "ram_file priv (rw_phys (vf_world st))" and fd: "of_vnode fd = Some v" "vf_node st v = Some n" "vn_data n = Some priv"
    and pos: "of_pos fd \<le> rp_size priv" and lim: "of_pos fd + length buf \<le> 512 * RAM_BLOCKS"
    and need: "pages_needed (rp_cap priv) ((of_pos fd + length buf + 511) div 512) \<le> card (free_set (rw_phys (vf_world st)))"
  shows "\<exists>priv' st'. ramfs_vnode_write fd buf st = Some (int (length buf), fd\<lparr>of_pos := of_pos fd + length buf\<rparr>, st')
     \<and> vf_node st' = (vf_node st)(v \<mapsto> n\<lparr>vn_data := Some priv'\<rparr>) \<and> ram_file priv' (rw_phys (vf_world st'))
     \<and> contents priv' (rw_mem (vf_world st')) = overwrite (of_pos fd) buf (contents priv (rw_mem (vf_world st)))
     \<and> card (free_set (rw_phys (vf_world st)))
         = card (free_set (rw_phys (vf_world st'))) + pages_needed (rp_cap priv) (rp_cap priv')
     \<and> (\<forall>q. ram_file q (rw_phys (vf_world st)) \<longrightarrow> (\<forall>i < rp_cap priv. \<forall>j < rp_cap q. blk priv i \<noteq> blk q j)
          \<longrightarrow> contents q (rw_mem (vf_world st')) = contents q (rw_mem (vf_world st)))"
proof -
  define ph mem where "ph = rw_phys (vf_world st)" and "mem = rw_mem (vf_world st)"
  define end' where "end' = of_pos fd + length buf"
  have e: "end' \<le> 12320 * 512" using lim by (simp add: end'_def RAM_BLOCKS_def)
  hence w: "(of_pos fd + length buf) mod 2 ^ 64 = end'" by (simp add: end'_def)
  have "pages_needed (rp_cap priv) ((end' + 511) div 512) \<le> card (free_set ph)" using need by (simp add: ph_def end'_def)
  from write_extends [OF f [folded ph_def] e this] obtain priv1 ph1 where g: "(if rp_size priv < end' then bset_extend end' (priv, ph) else Some (priv, ph)) = Some (priv1, ph1)"
     "ram_file priv1 ph1" "rp_size priv1 = max (rp_size priv) end'" "\<And>i. i < rp_cap priv \<Longrightarrow> blk priv1 i = blk priv i"
     "\<And>i. rp_cap priv \<le> i \<Longrightarrow> i < rp_cap priv1 \<Longrightarrow> MM_PHYS (blk priv1 i) div 4096 \<in> free_set ph"
     "card (free_set ph) = card (free_set ph1) + pages_needed (rp_cap priv) (rp_cap priv1)" by blast
  have "of_pos fd + length buf \<le> rp_size priv1" using g(3) by (simp add: end'_def)
  from ram_write_loop_ok [OF g(2) this, of mem] obtain mem'
    where m: "ram_write_loop priv1 (of_pos fd) buf mem = Some mem'"
      "\<And>k. k < rp_size priv1 \<Longrightarrow> mem' (loc priv1 k) = (if of_pos fd \<le> k \<and> k < of_pos fd + length buf then buf ! (k - of_pos fd) else mem (loc priv1 k))"
      "\<And>x. x \<notin> loc priv1 ` {of_pos fd..<of_pos fd + length buf} \<Longrightarrow> mem' x = mem x" by blast
  define st' where "st' = set_priv v priv1 (st\<lparr>vf_world := (vf_world st)\<lparr>rw_phys := ph1, rw_mem := mem'\<rparr>\<rparr>)"
  have st': "vf_node st' = (vf_node st)(v \<mapsto> n\<lparr>vn_data := Some priv1\<rparr>)" "rw_phys (vf_world st') = ph1" "rw_mem (vf_world st') = mem'"
    using fd(2) by (simp_all add: st'_def set_priv_def)
  have same: "loc priv1 k = loc priv k" if "k < rp_size priv" for k
    using g(4) [OF file_index [OF f that]] by (simp add: loc_def)
  have "contents priv1 mem' = overwrite (of_pos fd) buf (contents priv mem)"
    by (rule write_contents [OF pos _ same m(2)]) (use g(3) in \<open>simp_all add: end'_def\<close>)
  moreover have "contents q mem' = contents q mem"
    if "ram_file q ph" "\<forall>i < rp_cap priv. \<forall>j < rp_cap q. blk priv i \<noteq> blk q j" for q
    by (rule contents_frame [OF that(1) _ g(4,5,2) _ m(3)]) (use that(2) g(3) in \<open>auto simp: end'_def\<close>)
  moreover have "ramfs_vnode_write fd buf st = Some (int (length buf), fd\<lparr>of_pos := of_pos fd + length buf\<rparr>, st')"
    using fd pos g(1) m(1) w unfolding ramfs_vnode_write_def Let_def 
    by (cases "rp_size priv < end'") (simp_all add: ph_def [symmetric] mem_def [symmetric] st'_def)
  ultimately show ?thesis using st' g(2,6) unfolding ph_def mem_def by (intro exI [of _ priv1] exI [of _ st']) simp
qed

theorem ramfs_write_correct_witness:
  "\<exists>priv' st'. ramfs_vnode_write demo_file (replicate 600 1) demo_st = Some (600, demo_file\<lparr>of_pos := 600\<rparr>, st')
     \<and> contents priv' (rw_mem (vf_world st')) = overwrite 0 (replicate 600 1) [7, 8, 9]"
proof -
  have "pages_needed (rp_cap demo_priv) ((of_pos demo_file + length (replicate 600 (1 :: byte)) + 511) div 512)
      \<le> card (free_set (rw_phys (vf_world demo_st)))"
    by (simp add: pages_needed_def l1_tables_def demo_phys_sets demo_st_simps)
  from ramfs_write_correct [OF demo_facts(1) demo_st_simps(4,1) demo_facts(2) _ _ this]
  obtain priv' st' where
    "ramfs_vnode_write demo_file (replicate 600 1) demo_st = Some (int (length (replicate 600 (1 :: byte))),
        demo_file\<lparr>of_pos := of_pos demo_file + length (replicate 600 (1 :: byte))\<rparr>, st')"
    "contents priv' (rw_mem (vf_world st')) = overwrite (of_pos demo_file) (replicate 600 1) (contents demo_priv (rw_mem (vf_world demo_st)))"
    by (auto simp: demo_st_simps(5-) RAM_BLOCKS_def)
  thus ?thesis by (auto simp: demo_st_simps(5) demo_contents)
qed

end
