(* ===== verification/Ramfs_Shrink.thy ===== *)
theory Ramfs_Shrink
  imports Ramfs_Data
begin

text \<open>
  Shrinking ramfs files: the two freeing loops of \<open>ram_vnode_bset_resize\<close> give back exactly the pages
  of the blocks and tables that go, and keep the rest.
\<close>

section \<open>Freeing blocks\<close>

fun cleared :: "nat list \<Rightarrow> ram_vnode_private \<Rightarrow> ram_vnode_private" where
  "cleared [] priv = priv"
| "cleared (i # is) priv = cleared is (if i < RAM_BLOCKS_L0 then bset_put i 0 priv else priv)"

definition safe_after :: "phys \<Rightarrow> ((nat + nat) \<times> nat) set \<Rightarrow> phys \<Rightarrow> bool" where
  "safe_after ph R ph' \<longleftrightarrow>
     (\<forall>e. entry_safe ph e \<longrightarrow> (bit e 1 \<longrightarrow> (\<exists>x. (x, MM_PHYS (blk_addr e)) \<in> R)) \<longrightarrow> entry_safe ph' e)"

lemma safe_after_refl [simp]: "safe_after ph R ph"
  by (simp add: safe_after_def)

lemma safe_after_trans: "safe_after a R b \<Longrightarrow> safe_after b S c \<Longrightarrow> S \<subseteq> R \<Longrightarrow> safe_after a S c"
  unfolding safe_after_def by blast

definition without :: "((nat + nat) \<times> nat) set \<Rightarrow> (nat + nat) set \<Rightarrow> ((nat + nat) \<times> nat) set" where
  "without R X = {x \<in> R. fst x \<notin> X}"

lemma without_simps [simp]:
  "without R {} = R" "without (without R X) Y = without R (X \<union> Y)" "without R X \<subseteq> R"
  "(x, p) \<in> without R X \<longleftrightarrow> (x, p) \<in> R \<and> x \<notin> X"
  by (auto simp: without_def)

lemma owns_free:
  assumes "owns R ph" "(z, p) \<in> R"
  shows "\<exists>ph'. mm_phys_free_page p ph = Some ph' \<and> owns (without R {z}) ph'
     \<and> card (free_set ph') = Suc (card (free_set ph)) \<and> safe_after ph (without R {z}) ph'"
proof -
  have "without R {z} \<subseteq> R - {(z, p)}" by (auto simp: without_def)
  from owns_del [OF assms this] show ?thesis unfolding safe_after_def .
qed

lemma bset_free_one_ok:
  assumes slot: "bset_slot priv i = Some (entry priv i)" "bit (entry priv i) 0" and R: "owns R ph"
    and i: "bit (entry priv i) 1 \<Longrightarrow> (Inr i, MM_PHYS (blk priv i)) \<in> R"
  shows "\<exists>ph'. bset_free_one i (priv, ph) = Some (cleared [i] priv, ph') \<and> owns (without R {Inr i}) ph'
     \<and> card (free_set ph') = card (free_set ph) + (if bit (entry priv i) 1 then 1 else 0)
     \<and> safe_after ph (without R {Inr i}) ph'"
proof (cases "bit (entry priv i) 1")
  case True
  from owns_free [OF R i [OF True]] show ?thesis using slot True
    by (auto simp: bset_free_one_def flag_simps blk_def blk_addr_def Let_def)
next
  case False
  thus ?thesis using slot owns_sub [OF R without_simps(3)]
    by (auto simp: bset_free_one_def flag_simps Let_def)
qed

lemma clear_slot:
  assumes "i \<noteq> j"
  shows "bset_slot (cleared [i] priv) j = bset_slot priv j"
  using assms by (auto simp: bset_slot_def bset_put_def)

lemma clear_entry: "i \<noteq> j \<Longrightarrow> entry (cleared [i] priv) j = entry priv j"
  unfolding entry_def by (subst clear_slot) auto

lemma bset_free_ok:
  "distinct is \<Longrightarrow> \<forall>i \<in> set is. bset_slot priv i = Some (entry priv i) \<and> bit (entry priv i) 0 \<Longrightarrow> owns R ph \<Longrightarrow>
   \<forall>i \<in> set is. bit (entry priv i) 1 \<longrightarrow> (Inr i, MM_PHYS (blk priv i)) \<in> R \<Longrightarrow>
   \<exists>ph'. bset_free is (priv, ph) = Some (cleared is priv, ph') \<and> owns (without R (Inr ` set is)) ph'
     \<and> card (free_set ph') = card (free_set ph) + length (filter (\<lambda>i. bit (entry priv i) 1) is)
     \<and> safe_after ph (without R (Inr ` set is)) ph'"
proof (induction "is" arbitrary: priv ph R)
  case (Cons i "is")
  define priv1 where "priv1 = cleared [i] priv"
  obtain ph1 where 1: "bset_free_one i (priv, ph) = Some (priv1, ph1)" "owns (without R {Inr i}) ph1"
     "card (free_set ph1) = card (free_set ph) + (if bit (entry priv i) 1 then 1 else 0)"
     "safe_after ph (without R {Inr i}) ph1"
    using bset_free_one_ok [of priv i R ph] Cons.prems(2-4) unfolding priv1_def by auto
  have same: "bset_slot priv1 j = bset_slot priv j" "entry priv1 j = entry priv j" "blk priv1 j = blk priv j" if "j \<in> set is" for j
  proof -
    have n: "i \<noteq> j" using Cons.prems(1) that by auto
    show "bset_slot priv1 j = bset_slot priv j" unfolding priv1_def by (rule clear_slot [OF n])
    show "entry priv1 j = entry priv j" unfolding priv1_def by (rule clear_entry [OF n])
    thus "blk priv1 j = blk priv j" by (simp add: blk_def)
  qed
  have "\<exists>ph'. bset_free is (priv1, ph1) = Some (cleared is priv1, ph') \<and> owns (without (without R {Inr i}) (Inr ` set is)) ph'
     \<and> card (free_set ph') = card (free_set ph1) + length (filter (\<lambda>i. bit (entry priv1 i) 1) is)
     \<and> safe_after ph1 (without (without R {Inr i}) (Inr ` set is)) ph'"
    using Cons.prems 1(2) same by (intro Cons.IH) auto
  then obtain ph' where 2: "bset_free is (priv1, ph1) = Some (cleared is priv1, ph')" "owns (without R (Inr ` set (i # is))) ph'"
     "card (free_set ph') = card (free_set ph1) + length (filter (\<lambda>i. bit (entry priv1 i) 1) is)"
     "safe_after ph1 (without R (Inr ` set (i # is))) ph'" by auto
  have "length (filter (\<lambda>i. bit (entry priv1 i) 1) is) = length (filter (\<lambda>i. bit (entry priv i) 1) is)"
    using same(2) by (metis (mono_tags, lifting) filter_cong)
  moreover have "safe_after ph (without R (Inr ` set (i # is))) ph'"
    by (rule safe_after_trans [OF 1(4) 2(4)]) (auto simp: without_def)
  ultimately show ?case using 1 2 by (simp add: priv1_def)
qed simp

lemma cleared_frame:
  "rp_l1 (cleared is priv) = rp_l1 priv" "rp_size (cleared is priv) = rp_size priv" "rp_cap (cleared is priv) = rp_cap priv"
  "length (rp_l0 (cleared is priv)) = length (rp_l0 priv)"
  by (induction "is" arbitrary: priv) (simp_all add: bset_put_def)

lemma cleared_l0:
  "length (rp_l0 priv) = 32 \<Longrightarrow> i < 32 \<Longrightarrow> rp_l0 (cleared is priv) ! i = (if i \<in> set is then 0 else rp_l0 priv ! i)"
  by (induction "is" arbitrary: priv) (auto simp: bset_put_def nth_list_update)

lemma cleared_slot: "j \<notin> set is \<Longrightarrow> bset_slot (cleared is priv) j = bset_slot priv j"
proof (induction "is" arbitrary: priv)
  case (Cons i "is")
  have "bset_slot (cleared (i # is) priv) j = bset_slot (cleared is (cleared [i] priv)) j" by simp
  also have "\<dots> = bset_slot (cleared [i] priv) j" using Cons.prems by (intro Cons.IH) simp
  also have "\<dots> = bset_slot priv j" using Cons.prems by (intro clear_slot) auto
  finally show ?case .
qed simp

section \<open>Freeing second-level tables\<close>

fun dropped :: "nat list \<Rightarrow> ram_vnode_private \<Rightarrow> ram_vnode_private" where
  "dropped [] priv = priv"
| "dropped (k # ks) priv = dropped ks (priv\<lparr>rp_l1 := (rp_l1 priv)[k := None]\<rparr>)"

lemma dropped_frame:
  "rp_l0 (dropped ks priv) = rp_l0 priv" "rp_size (dropped ks priv) = rp_size priv" "rp_cap (dropped ks priv) = rp_cap priv"
  "length (rp_l1 (dropped ks priv)) = length (rp_l1 priv)"
  by (induction ks arbitrary: priv) simp_all

lemma dropped_l1:
  "k < length (rp_l1 priv) \<Longrightarrow> rp_l1 (dropped ks priv) ! k = (if k \<in> set ks then None else rp_l1 priv ! k)"
  by (induction ks arbitrary: priv) (auto simp: nth_list_update)

lemma bset_free_l1_ok:
  "distinct ks \<Longrightarrow> owns R ph \<Longrightarrow>
   \<forall>k \<in> set ks. k < length (rp_l1 priv) \<and> (\<exists>pg es. rp_l1 priv ! k = Some (pg, es) \<and> (Inl k, pg) \<in> R) \<Longrightarrow>
   \<exists>ph'. bset_free_l1 ks (priv, ph) = Some (dropped ks priv, ph') \<and> owns (without R (Inl ` set ks)) ph'
     \<and> card (free_set ph') = card (free_set ph) + length ks \<and> safe_after ph (without R (Inl ` set ks)) ph'"
proof (induction ks arbitrary: priv ph R)
  case (Cons k ks)
  then obtain pg es where k: "rp_l1 priv ! k = Some (pg, es)" "(Inl k, pg) \<in> R" by auto
  define priv1 where "priv1 = priv\<lparr>rp_l1 := (rp_l1 priv)[k := None]\<rparr>"
  obtain ph1 where 1: "mm_phys_free_page pg ph = Some ph1" "owns (without R {Inl k}) ph1"
     "card (free_set ph1) = Suc (card (free_set ph))" "safe_after ph (without R {Inl k}) ph1"
    using owns_free [OF Cons.prems(2) k(2)] by blast
  have "\<exists>ph'. bset_free_l1 ks (priv1, ph1) = Some (dropped ks priv1, ph') \<and> owns (without (without R {Inl k}) (Inl ` set ks)) ph'
     \<and> card (free_set ph') = card (free_set ph1) + length ks \<and> safe_after ph1 (without (without R {Inl k}) (Inl ` set ks)) ph'"
    using Cons.prems 1(2) by (intro Cons.IH) (auto simp: priv1_def nth_list_update)
  then obtain ph' where 2: "bset_free_l1 ks (priv1, ph1) = Some (dropped ks priv1, ph')" "owns (without R (Inl ` set (k # ks))) ph'"
     "card (free_set ph') = card (free_set ph1) + length ks" "safe_after ph1 (without R (Inl ` set (k # ks))) ph'" by auto
  have "safe_after ph (without R (Inl ` set (k # ks))) ph'"
    by (rule safe_after_trans [OF 1(4) 2(4)]) (auto simp: without_def)
  thus ?case using 1 2 k by (simp add: bset_free_l1_one_def priv1_def)
qed simp

section \<open>Shrinking\<close>

lemma l1_tables_less: "k < l1_tables n \<longleftrightarrow> 32 + 512 * k < n"
proof -
  have "k < l1_tables n \<longleftrightarrow> Suc k \<le> (n - 32 + 511) div 512" by (simp add: l1_tables_def Suc_le_eq)
  also have "\<dots> \<longleftrightarrow> Suc k * 512 \<le> n - 32 + 511" by (rule less_eq_div_iff_mult_less_eq) simp
  also have "\<dots> \<longleftrightarrow> 32 + 512 * k < n" by auto
  finally show ?thesis .
qed

lemma l1_tables_bound: "n \<le> 12320 \<Longrightarrow> l1_tables n \<le> 24"
  using l1_tables_less [of 24 n] by (simp add: not_less [symmetric])

lemma l1_tables_start: "(m + 512 - 32 - 1) div 512 = l1_tables m"
  by (cases "m < 32") (simp_all add: l1_tables_def)

lemma shape_tables:
  assumes "bset_shape n priv" "k < 24"
  shows "k < l1_tables n \<longleftrightarrow> rp_l1 priv ! k \<noteq> None"
  using shapeD(5) [OF assms] shapeD(6) [OF assms] unfolding l1_tables_less by fastforce

text \<open>What is left of a table when the entries from \<open>m\<close> on are cleared and their tables dropped.\<close>

definition trimmed :: "nat \<Rightarrow> nat \<Rightarrow> ram_vnode_private \<Rightarrow> ram_vnode_private" where
  "trimmed m n priv = dropped [l1_tables m..<l1_tables n] (cleared [m..<n] priv)"

lemma trimmed_l1:
  assumes "bset_shape n priv" "k < 24"
  shows "rp_l1 (trimmed m n priv) ! k = (if k < l1_tables m then rp_l1 priv ! k else None)"
proof -
  have "rp_l1 (trimmed m n priv) ! k = (if k \<in> set [l1_tables m..<l1_tables n] then None else rp_l1 priv ! k)"
    unfolding trimmed_def using shapeD(3) [OF assms(1)] assms(2) by (subst dropped_l1) (simp_all add: cleared_frame)
  thus ?thesis using shape_tables [OF assms] by auto
qed

lemma trimmed_l0:
  assumes "bset_shape n priv" "i < 32"
  shows "rp_l0 (trimmed m n priv) ! i = (if i < m then rp_l0 priv ! i else 0)"
proof -
  have "rp_l0 (trimmed m n priv) ! i = (if i \<in> set [m..<n] then 0 else rp_l0 priv ! i)"
    unfolding trimmed_def dropped_frame by (rule cleared_l0 [OF shapeD(2) [OF assms(1)] assms(2)])
  thus ?thesis using shapeD(4) [OF assms(1), of i] assms(2) by auto
qed

lemma trimmed_slot:
  assumes "bset_shape n priv" "m \<le> n" "i < m"
  shows "bset_slot (trimmed m n priv) i = bset_slot priv i"
proof (cases "i < 32")
  case True
  thus ?thesis using trimmed_l0 [OF assms(1) True, of m] assms(3) by (simp add: bset_slot_def)
next
  case False
  have b: "i < 12320" using assms shapeD(1) [OF assms(1)] by simp
  note ib = index_bounds [of i] False b
  have "l1_index i < l1_tables m" unfolding l1_tables_less using ib assms(3) by simp
  thus ?thesis using trimmed_l1 [OF assms(1), of "l1_index i" m] ib by (simp add: bset_slot_def)
qed

lemma trimmed_shape:
  assumes "bset_shape n priv" "m \<le> n"
  shows "bset_shape m (trimmed m n priv)"
  unfolding bset_shape_def
proof (intro conjI allI impI)
  show "m \<le> RAM_BLOCKS" using assms shapeD(1) [OF assms(1)] by (simp add: RAM_BLOCKS_def)
  show "length (rp_l0 (trimmed m n priv)) = 32" "length (rp_l1 (trimmed m n priv)) = 24"
    using shapeD(2,3) [OF assms(1)] by (simp_all add: trimmed_def dropped_frame cleared_frame)
  show "rp_l0 (trimmed m n priv) ! i = 0" if "m \<le> i" "i < 32" for i using trimmed_l0 [OF assms(1) that(2), of m] that by simp
  fix k :: nat assume k: "k < 24"
  show "case rp_l1 (trimmed m n priv) ! k of None \<Rightarrow> m \<le> 32 + 512 * k
         | Some (pg, es) \<Rightarrow> 32 + 512 * k < m \<and> length es = 512"
    using trimmed_l1 [OF assms(1) k, of m] shapeD(5,6) [OF assms(1) k] assms(2) l1_tables_less [of k m]
    by (fastforce split: option.splits if_splits)
qed

lemma trimmed_objs:
  assumes "bset_shape n priv" "m \<le> n"
  shows "objs m (trimmed m n priv) \<subseteq> without (objs n priv) (Inr ` {m..<n} \<union> Inl ` {l1_tables m..<l1_tables n})"
proof -
  have e: "entry (trimmed m n priv) i = entry priv i" "blk (trimmed m n priv) i = blk priv i" if "i < m" for i
    using trimmed_slot [OF assms that] by (simp_all add: entry_def blk_def)
  have "l1_page (trimmed m n priv) k = Some pg \<Longrightarrow> l1_page priv k = Some pg \<and> \<not> l1_tables m \<le> k" for k pg
    using trimmed_l1 [OF assms(1), of k m] by (auto simp: l1_page_def split: if_splits)
  thus ?thesis using e assms(2) by (auto simp: objs_def without_def)
qed

lemma bset_cut_ok:
  assumes f: "ram_file priv ph" and m: "m \<le> rp_cap priv"
  defines "n \<equiv> rp_cap priv"
  shows "\<exists>ph1 ph'. bset_free [m..<n] (priv, ph) = Some (cleared [m..<n] priv, ph1)
     \<and> bset_free_l1 [l1_tables m..<l1_tables n] (cleared [m..<n] priv, ph1) = Some (trimmed m n priv, ph') \<and> bset_ok m (trimmed m n priv) ph'
     \<and> card (free_set ph') = card (free_set ph) + length (filter (\<lambda>i. bit (entry priv i) 1) [m..<n]) + (l1_tables n - l1_tables m)"
proof -
  note ok = ram_fileD(1) [OF f, folded n_def]
  note s = bset_okD(1) [OF ok]
  have mn: "m \<le> n" using m by (simp add: n_def)
  let ?R = "objs n priv"
  have "\<exists>ph'. bset_free [m..<n] (priv, ph) = Some (cleared [m..<n] priv, ph') \<and> owns (without ?R (Inr ` set [m..<n])) ph'
     \<and> card (free_set ph') = card (free_set ph) + length (filter (\<lambda>i. bit (entry priv i) 1) [m..<n])
     \<and> safe_after ph (without ?R (Inr ` set [m..<n])) ph'"
    using shape_slot [OF s] ram_fileD(4) [OF f, folded n_def]
    by (intro bset_free_ok [OF _ _ bset_okD(2) [OF ok]]) (auto simp: objs_def)
  then obtain ph1 where 1: "bset_free [m..<n] (priv, ph) = Some (cleared [m..<n] priv, ph1)" "owns (without ?R (Inr ` {m..<n})) ph1"
     "card (free_set ph1) = card (free_set ph) + length (filter (\<lambda>i. bit (entry priv i) 1) [m..<n])"
     "safe_after ph (without ?R (Inr ` {m..<n})) ph1" by auto
  have tab: "k < length (rp_l1 (cleared [m..<n] priv)) \<and>
      (\<exists>pg es. rp_l1 (cleared [m..<n] priv) ! k = Some (pg, es) \<and> (Inl k, pg) \<in> without ?R (Inr ` {m..<n}))"
    if k: "k \<in> set [l1_tables m..<l1_tables n]" for k
  proof -
    have k24: "k < 24" using k l1_tables_bound [OF shapeD(1) [OF s]] by simp
    then obtain t where t: "rp_l1 priv ! k = Some t" using shape_tables [OF s k24] k by auto
    moreover have "(Inl k, fst t) \<in> ?R" using t k24 by (simp add: objs_def l1_page_def)
    ultimately show ?thesis using k24 shapeD(3) [OF s] by (cases t) (auto simp: cleared_frame)
  qed
  let ?S = "without ?R (Inr ` {m..<n} \<union> Inl ` {l1_tables m..<l1_tables n})"
  obtain ph' where 2: "bset_free_l1 [l1_tables m..<l1_tables n] (cleared [m..<n] priv, ph1) = Some (trimmed m n priv, ph')"
     "owns ?S ph'" "card (free_set ph') = card (free_set ph1) + (l1_tables n - l1_tables m)" "safe_after ph1 ?S ph'"
    using bset_free_l1_ok [OF distinct_upt 1(2) ballI [OF tab]] by (auto simp: trimmed_def)
  have e: "entry (trimmed m n priv) i = entry priv i" "blk (trimmed m n priv) i = blk priv i" if "i < m" for i
    using trimmed_slot [OF s mn that] by (simp_all add: entry_def blk_def)
  have sa: "safe_after ph ?S ph'" by (rule safe_after_trans [OF 1(4) 2(4)]) (auto simp: without_def)
  have "entry_safe ph' (entry priv i)" if i: "i < m" for i
  proof -
    have "entry_safe ph (entry priv i)" using bset_okD(3) [OF ok] i mn by (simp add: blks_ok_def)
    moreover have "(Inr i, MM_PHYS (blk_addr (entry priv i))) \<in> ?S" if "bit (entry priv i) 1"
      using that i mn by (auto simp: objs_def blk_def)
    ultimately show ?thesis using sa unfolding safe_after_def by blast
  qed
  moreover have "blk priv i = 0" if "i < m" "j < m" "i \<noteq> j" "blk priv i = blk priv j" for i j
    using bset_okD(3) [OF ok] that less_le_trans [OF _ mn] unfolding blks_ok_def by blast
  ultimately have "blks_ok m (trimmed m n priv) ph'" using e unfolding blks_ok_def by simp
  hence "bset_ok m (trimmed m n priv) ph'"
    using trimmed_shape [OF s mn] owns_sub [OF 2(2) trimmed_objs [OF s mn]] by (simp add: bset_ok_def)
  thus ?thesis using 1(1,3) 2(1,3) by auto
qed

lemma trimmed_frame:
  assumes "ram_file priv ph" "m \<le> rp_cap priv" "i < m"
  shows "entry (trimmed m (rp_cap priv) priv) i = entry priv i"
  using trimmed_slot [OF bset_okD(1) [OF ram_fileD(1) [OF assms(1)]] assms(2,3)] by (simp add: entry_def)

lemma trimmed_same: "ram_file priv ph \<Longrightarrow> trimmed (rp_cap priv) (rp_cap priv) priv = priv"
  by (simp add: trimmed_def)

lemma bset_shrink_ok:
  assumes f: "ram_file priv ph" and sz: "sz < rp_size priv"
  defines "n \<equiv> rp_cap priv" and "m \<equiv> (sz + 511) div 512"
  shows "\<exists>ph'. ram_vnode_bset_resize sz (priv, ph) = Some ((trimmed m n priv)\<lparr>rp_size := sz, rp_cap := m\<rparr>, ph') \<and> m \<le> n
     \<and> bset_ok m (trimmed m n priv) ph'
     \<and> card (free_set ph') = card (free_set ph) + length (filter (\<lambda>i. bit (entry priv i) 1) [m..<n]) + (l1_tables n - l1_tables m)"
proof -
  have mn: "m \<le> n" using ram_fileD(2) [OF f] sz unfolding n_def m_def by (simp add: div_le_mono)
  have n: "n \<le> 12320" using ram_fileD(3) [OF f] by (simp add: n_def)
  have "sz + 511 < 512 * 12320 + 512" using n sz ram_fileD(2) [OF f, folded n_def] by simp
  hence bo: "blocks_of sz = m" by (simp add: blocks_of_def m_def)
  obtain ph1 ph' where c: "bset_free [m..<n] (priv, ph) = Some (cleared [m..<n] priv, ph1)"
     "bset_free_l1 [l1_tables m..<l1_tables n] (cleared [m..<n] priv, ph1) = Some (trimmed m n priv, ph')"
     "bset_ok m (trimmed m n priv) ph'"
     "card (free_set ph') = card (free_set ph) + length (filter (\<lambda>i. bit (entry priv i) 1) [m..<n]) + (l1_tables n - l1_tables m)"
    using bset_cut_ok [OF f, of m] mn unfolding n_def by blast
  have idx: "min ((n - 32 + 512 - 1) div 512) 24 = l1_tables n"
    using l1_tables_bound [OF n] by (simp add: l1_tables_def)
  have none: "l1_tables n = 0" if "\<not> 32 < n" using that by (simp add: l1_tables_def)
  have "ram_vnode_bset_resize sz (priv, ph) = Some ((trimmed m n priv)\<lparr>rp_size := sz, rp_cap := m\<rparr>, ph')"
  proof (cases "m < n")
    case True
    thus ?thesis using c(1,2) n none l1_tables_mono [OF mn] idx l1_tables_start [of m]
      by (cases "32 < n") (simp_all add: ram_vnode_bset_resize_def bo Let_def n_def [symmetric] RAM_BLOCKS_def)
  next
    case False
    hence "m = n" using mn by simp
    thus ?thesis using c(1,2) by (simp add: ram_vnode_bset_resize_def bo Let_def n_def [symmetric])
  qed
  thus ?thesis using c(3,4) mn by blast
qed

text \<open>
  C17: Truncating a ramfs file keeps its beginning and gives the rest back. Making a file in order shorter
  always succeeds; afterwards the file is in order, its contents are the first bytes of the old ones, and
  the page allocator has gained exactly the pages of the blocks that were allocated for the part cut off
  and of the second-level tables that are no longer needed: none is lost and none is freed twice.
\<close>

theorem ramfs_truncate_correct:
  assumes f: "ram_file priv (rw_phys (vf_world st))" and v: "vf_node st v = Some n" "vn_data n = Some priv" and sz: "sz < rp_size priv"
  shows "\<exists>priv' st'. ramfs_vnode_truncate v sz st = Some (0, st') \<and> vf_node st' = (vf_node st)(v \<mapsto> n\<lparr>vn_data := Some priv'\<rparr>)
     \<and> ram_file priv' (rw_phys (vf_world st')) \<and> rw_mem (vf_world st') = rw_mem (vf_world st)
     \<and> contents priv' (rw_mem (vf_world st')) = take sz (contents priv (rw_mem (vf_world st)))
     \<and> card (free_set (rw_phys (vf_world st'))) = card (free_set (rw_phys (vf_world st)))
         + length (filter (\<lambda>i. bit (entry priv i) 1) [rp_cap priv'..<rp_cap priv]) + (l1_tables (rp_cap priv) - l1_tables (rp_cap priv'))"
proof -
  define ph k m where "ph = rw_phys (vf_world st)" and "k = rp_cap priv" and "m = (sz + 511) div 512"
  note sh = bset_shrink_ok [OF f sz, folded ph_def k_def m_def]
  define priv' where "priv' = (trimmed m k priv)\<lparr>rp_size := sz, rp_cap := m\<rparr>"
  obtain ph' where r: "ram_vnode_bset_resize sz (priv, ph) = Some (priv', ph')" "m \<le> k" "bset_ok m (trimmed m k priv) ph'"
     "card (free_set ph') = card (free_set ph) + length (filter (\<lambda>i. bit (entry priv i) 1) [m..<k]) + (l1_tables k - l1_tables m)"
    using sh unfolding priv'_def by blast
  have p: "rp_size priv' = sz" "rp_cap priv' = m" by (simp_all add: priv'_def)
  have e: "entry priv' i = entry priv i" if "i < m" for i
    using trimmed_frame [OF f _ that] r(2) by (simp add: priv'_def k_def)
  have file': "ram_file priv' ph'"
    using r(2,3) ram_fileD(4,5) [OF f] e by (auto simp: ram_file_def p k_def blk_def priv'_def m_def)
  define st' where "st' = set_priv v priv' (set_phys ph' st)"
  have run: "ramfs_vnode_truncate v sz st = Some (0, st')"
    using v sz r(1) by (simp add: ramfs_vnode_truncate_def truncate_priv_def ph_def st'_def)
  have st': "vf_node st' = (vf_node st)(v \<mapsto> n\<lparr>vn_data := Some priv'\<rparr>)" "rw_phys (vf_world st') = ph'"
    "rw_mem (vf_world st') = rw_mem (vf_world st)"
    using v(1) by (simp_all add: st'_def set_priv_def set_phys_def)
  have "loc priv' j = loc priv j" if "j < sz" for j
    using e [of "j div 512"] file_index [OF file', of j] that by (simp add: loc_def blk_def p)
  hence "contents priv' (rw_mem (vf_world st)) = take sz (contents priv (rw_mem (vf_world st)))"
    using sz by (intro nth_equalityI) (simp_all add: p)
  thus ?thesis using run st' file' r(4) p
    by (intro exI [of _ priv'] exI [of _ st']) (simp add: ph_def k_def)
qed

theorem ramfs_truncate_correct_witness:
  "\<exists>priv' st'. ramfs_vnode_truncate 2 1 demo_st = Some (0, st') \<and> contents priv' (rw_mem (vf_world st')) = [7]"
proof -
  have "1 < rp_size demo_priv" by (simp add: demo_st_simps)
  from ramfs_truncate_correct [OF demo_facts(1) demo_st_simps(1) demo_facts(2) this]
  obtain priv' st' where "ramfs_vnode_truncate 2 1 demo_st = Some (0, st')"
    "contents priv' (rw_mem (vf_world st')) = take 1 (contents demo_priv (rw_mem (vf_world demo_st)))" by blast
  thus ?thesis by (auto simp: demo_contents)
qed

end
