(* ===== verification/Ramfs_Archive.thy ===== *)
theory Ramfs_Archive
  imports Ramfs_Data
begin

text \<open>
  The boot archive: number fields are read back as printed, and a regular file of the archive has the
  archive's bytes as contents.
\<close>

section \<open>Number fields\<close>

text \<open>An octal number of \<open>w\<close> digits as \<open>tar\<close> prints it, and a field that holds it.\<close>

fun octal_digits :: "nat \<Rightarrow> nat \<Rightarrow> byte list" where
  "octal_digits 0 n = []"
| "octal_digits (Suc w) n = octal_digits w (n div 8) @ [of_nat (48 + n mod 8)]"

definition octal_field :: "nat \<Rightarrow> nat \<Rightarrow> byte list" where
  "octal_field w n = octal_digits w n @ [0]"

lemma octal_digits_length [simp]: "length (octal_digits w n) = w"
  by (induction w arbitrary: n) simp_all

lemma octal_loop_append:
  "0 \<notin> set xs \<Longrightarrow> tar_octal_loop r (xs @ ys) = tar_octal_loop (tar_octal_loop r xs) ys"
  by (induction xs arbitrary: r) auto

lemma digit_byte:
  assumes "d < 8"
  shows "(of_nat (48 + d) :: byte) \<noteq> 0" "sint (of_nat (48 + d) :: byte) - 48 = int d"
proof -
  have "d = 0 \<or> d = 1 \<or> d = 2 \<or> d = 3 \<or> d = 4 \<or> d = 5 \<or> d = 6 \<or> d = 7" using assms by auto
  thus "(of_nat (48 + d) :: byte) \<noteq> 0" "sint (of_nat (48 + d) :: byte) - 48 = int d" by (elim disjE; simp)+
qed

lemma octal_digits_nonzero: "0 \<notin> set (octal_digits w n)"
proof (induction w arbitrary: n)
  case (Suc w)
  have "(of_nat (48 + n mod 8) :: byte) \<noteq> 0" by (rule digit_byte) simp
  thus ?case using Suc by auto
qed simp

lemma shift_or:
  fixes r :: "64 word"
  assumes "d < 8"
  shows "push_bit 3 r OR of_nat d = r * 8 + of_nat d"
proof -
  have "of_nat d AND (push_bit 3 r) = 0"
  proof (rule bit_eqI)
    fix k
    have "\<not> bit d k" if "3 \<le> k"
    proof -
      have "take_bit 3 d = d" using assms by (simp add: take_bit_nat_eq_self)
      thus ?thesis using that by (metis bit_take_bit_iff not_less)
    qed
    thus "bit (of_nat d AND push_bit 3 r) k = bit (0 :: 64 word) k"
      by (auto simp: bit_and_iff bit_push_bit_iff bit_of_nat_iff)
  qed
  hence "push_bit 3 r OR of_nat d = push_bit 3 r + of_nat d"
    using disjunctive_add_eq_or [of "push_bit 3 r" "of_nat d"] by (simp add: and.commute)
  thus ?thesis by (simp add: push_bit_eq_mult)
qed

lemma octal_digits_value: "tar_octal_loop 0 (octal_digits w n) = of_nat (n mod 8 ^ w)"
proof (induction w arbitrary: n)
  case (Suc w)
  define d where "d = n mod 8"
  have d: "d < 8" by (simp add: d_def)
  have "tar_octal_loop 0 (octal_digits (Suc w) n) = push_bit 3 (of_nat (n div 8 mod 8 ^ w)) OR word_of_int (int d)"
    using digit_byte [OF d] by (simp add: octal_loop_append octal_digits_nonzero Suc.IH d_def [symmetric])
  also have "\<dots> = of_nat (n div 8 mod 8 ^ w) * 8 + of_nat d" using shift_or [OF d] by simp
  also have "\<dots> = of_nat ((n div 8 mod 8 ^ w) * 8 + d)" by simp
  also have "(n div 8 mod 8 ^ w) * 8 + d = n mod 8 ^ Suc w"
    by (simp add: d_def mod_mult2_eq mult.commute)
  finally show ?case .
qed simp

lemma octal_field_value:
  assumes "n < 8 ^ w"
  shows "tar_octal (octal_field w n) = of_nat n"
  using assms by (simp add: tar_octal_def octal_field_def octal_loop_append octal_digits_nonzero octal_digits_value)

section \<open>Paths leave the world alone\<close>

lemma world_create [simp]: "ram_vnode_create t name st = Some (v, st') \<Longrightarrow> vf_world st' = vf_world st"
  by (auto simp: ram_vnode_create_def dest!: vnode_create_spec split: Option.bind_splits)

lemma world_attach: "vnode_attach p c st = Some st' \<Longrightarrow> vf_world st' = vf_world st"
  by (auto simp: vnode_attach_def Let_def split: Option.bind_splits)

lemma world_create_path: "tar_mapper_create_path t c node path st = Some (r, st') \<Longrightarrow> vf_world st' = vf_world st"
proof (induction "length path" arbitrary: node path st r st' rule: less_induct)
  case less
  define mid where "mid r0 name = (case r0 of Inr v \<Rightarrow> Some (Inr v, st)
     | Inl _ \<Rightarrow> if \<not> c then Some (Inl (- ENOENT), st)
        else do { (v, st) \<leftarrow> ram_vnode_create t (Some name) st; st \<leftarrow> vnode_attach node v st; Some (Inr v, st) })"
    for r0 :: "int + nat" and name
  obtain name cp r0 r1 st1 where pe: "path_element path = Some (name, cp)" and m: "mid r0 name = Some (r1, st1)"
    and fin: "(case (r1, cp) of (Inr v, Some rest) \<Rightarrow> tar_mapper_create_path t c v rest st1 | _ \<Rightarrow> Some (r1, st1)) = Some (r, st')"
    using less.prems unfolding tar_mapper_create_path.simps [of t c node path st] mid_def
    by (auto simp: bind_eq_Some_conv)
  have w: "vf_world st1 = vf_world st"
    using m world_create world_attach unfolding mid_def by (fastforce simp: bind_eq_Some_conv split: sum.splits if_splits)
  show ?case
  proof (cases "(r1, cp)" rule: prod.exhaust)
    case (Pair a b)
    show ?thesis
    proof (cases "isl a \<or> b = None")
      case True
      hence "st' = st1" using fin Pair by (auto split: sum.splits option.splits)
      thus ?thesis using w by simp
    next
      case False
      then obtain v rest where v: "r1 = Inr v" "cp = Some rest" using Pair by (cases a; cases b) auto
      have "length rest < length path" using path_element_shorter pe v(2) by blast
      from less.hyps [OF this, of v st1 r st'] show ?thesis using fin v w by simp
    qed
  qed
qed

section \<open>Regular files\<close>

text \<open>
  Where the data of a file of \<open>n\<close> bytes behind a header lies: on block boundaries, without wrapping
  around, in pages the page allocator neither hands out nor has handed out to the kernel.
\<close>

definition archive_data :: "64 word \<Rightarrow> nat \<Rightarrow> phys \<Rightarrow> bool" where
  "archive_data bytes n ph \<longleftrightarrow> bytes AND 511 = 0 \<and> unat bytes + 512 + (n + 511) div 512 * 512 \<le> 2 ^ 64
     \<and> (\<forall>i < (n + 511) div 512. let p = MM_PHYS (unat bytes + 512 + i * 512) div 4096
          in p \<notin> free_set ph \<and> p \<notin> used_set ph PU_KERNEL)"

lemma new_private_ok: "phys_inv ph \<Longrightarrow> bset_ok 0 new_private ph"
  by (auto simp: bset_ok_def bset_shape_def new_private_def owns_def objs_def l1_page_def blks_ok_def RAM_BLOCKS_def)

lemma archive_entry:
  assumes "archive_data bytes n ph" "i < (n + 511) div 512"
  defines "e \<equiv> (bytes + of_nat i * 512 + 512) OR RAM_BSET_AVAIL"
  shows "(bytes + of_nat i * 512 + 512) AND 511 = 0" "blk_addr e = unat bytes + 512 + i * 512" "bit e 0" "\<not> bit e 1"
proof -
  let ?w = "bytes + of_nat i * 512 + 512"
  have lim: "unat bytes + 512 + Suc i * 512 \<le> 2 ^ 64"
  proof -
    have "Suc i * 512 \<le> (n + 511) div 512 * 512" using assms(2) by (intro mult_le_mono1) simp
    thus ?thesis using assms(1) by (simp add: archive_data_def)
  qed
  have w: "?w = of_nat (unat bytes + 512 + i * 512)" by simp
  have uw: "unat ?w = unat bytes + 512 + i * 512" unfolding w unat_of_nat using lim by simp
  have "unat bytes mod 512 = 0"
  proof -
    have "(511 :: 64 word) = mask 9" by (simp add: mask_eq_exp_minus_1)
    hence "take_bit 9 bytes = 0" using assms(1) by (simp add: archive_data_def take_bit_eq_mask)
    hence "take_bit 9 (unat bytes) = 0" by (metis unsigned_0 unsigned_take_bit_eq)
    thus ?thesis by (simp add: take_bit_eq_mod)
  qed
  hence al: "unat ?w mod 512 = 0" unfolding uw by presburger
  have low: "\<not> bit ?w k" if "k < 9" for k
  proof -
    have "take_bit 9 (unat ?w) = 0" using al by (simp add: take_bit_eq_mod)
    hence "\<not> bit (unat ?w) k" using that by (metis bit_0_eq bit_take_bit_iff bot_apply bot_bool_def)
    thus ?thesis by (simp add: bit_unsigned_iff)
  qed
  show "?w AND 511 = 0" by (rule bit_eqI) (use low in \<open>auto simp only: bit_and_iff bit_511 bit_0_eq bot_apply bot_bool_def\<close>)
  show "bit e 0" "\<not> bit e 1" using low [of 1] by (simp_all add: e_def flag_simps)
  have "e AND NOT 511 = ?w"
  proof (rule bit_eqI)
    fix k show "bit (e AND NOT 511) k = bit ?w k"
      unfolding bit_strip e_def using low [of k] by (cases "k < 9") (auto simp: flag_simps)
  qed
  thus "blk_addr e = unat bytes + 512 + i * 512" using uw by (simp only: blk_addr_def)
qed

lemma tar_set_blocks_ok:
  "distinct is \<Longrightarrow> bset_shape m priv \<Longrightarrow>
   \<forall>i \<in> set is. i < m \<and> entry priv i = RAM_BSET_AVAIL \<and> (bytes + of_nat i * 512 + 512) AND 511 = 0 \<Longrightarrow>
   \<exists>priv'. tar_set_blocks bytes is priv = Some priv' \<and> bset_shape m priv' \<and> l1_page priv' = l1_page priv
     \<and> rp_size priv' = rp_size priv \<and> rp_cap priv' = rp_cap priv
     \<and> (\<forall>k < m. entry priv' k = (if k \<in> set is then (bytes + of_nat k * 512 + 512) OR RAM_BSET_AVAIL else entry priv k))"
proof (induction "is" arbitrary: priv)
  case (Cons i "is")
  let ?e = "(bytes + of_nat i * 512 + 512) OR RAM_BSET_AVAIL"
  define priv1 where "priv1 = bset_put i ?e priv"
  have i: "i < m" "entry priv i = RAM_BSET_AVAIL" "(bytes + of_nat i * 512 + 512) AND 511 = 0" using Cons.prems(3) by auto
  have run: "ram_vnode_bset_set i (bytes + of_nat i * 512 + 512) priv = Some priv1"
    using i(2,3) shape_slot [OF Cons.prems(2) i(1)] by (simp add: ram_vnode_bset_set_def priv1_def)
  have s1: "bset_shape m priv1" unfolding priv1_def by (rule put_shape [OF Cons.prems(2) i(1)])
  have e1: "entry priv1 k = (if k = i then ?e else entry priv k)" if "k < m" for k
    unfolding priv1_def by (rule put_entry [OF Cons.prems(2) i(1) that])
  have "\<forall>k \<in> set is. k < m \<and> entry priv1 k = RAM_BSET_AVAIL \<and> (bytes + of_nat k * 512 + 512) AND 511 = 0"
    using Cons.prems(1,3) e1 by auto
  from Cons.IH [OF _ s1 this] Cons.prems(1) obtain priv' where p: "tar_set_blocks bytes is priv1 = Some priv'" "bset_shape m priv'"
     "l1_page priv' = l1_page priv1" "rp_size priv' = rp_size priv1" "rp_cap priv' = rp_cap priv1"
     "\<forall>k < m. entry priv' k = (if k \<in> set is then (bytes + of_nat k * 512 + 512) OR RAM_BSET_AVAIL else entry priv1 k)"
    by auto
  moreover have "l1_page priv1 = l1_page priv" unfolding priv1_def by (rule put_l1_page [OF Cons.prems(2)])
  ultimately show ?case using run e1 by (auto simp: priv1_def)
qed simp

lemma tar_file_priv:
  assumes inv: "phys_inv ph" and d: "archive_data bytes n ph" and lim: "n \<le> 512 * 12320"
    and need: "l1_tables ((n + 511) div 512) \<le> card (free_set ph)"
  shows "\<exists>priv1 ph' priv'. ram_vnode_bset_resize n (new_private, ph) = Some (priv1, ph')
     \<and> tar_set_blocks bytes [0..<blocks_of n] priv1 = Some priv' \<and> ram_file priv' ph' \<and> rp_size priv' = n
     \<and> (\<forall>i < rp_cap priv'. blk priv' i = unat bytes + 512 + i * 512)"
proof -
  define m where "m = (n + 511) div 512"
  have m: "m \<le> 12320" using lim by (simp add: m_def)
  have bo: "blocks_of n = m" using lim by (simp add: blocks_of_def m_def)
  obtain p0 ph' where g: "bset_grow [0..<m] (new_private, ph) = Some (p0, ph')" "bset_ok m p0 ph'"
    "\<forall>i < m. entry p0 i = RAM_BSET_AVAIL" "\<forall>e. entry_safe ph e \<longrightarrow> entry_safe ph' e"
    using bset_grow_ok [OF new_private_ok [OF inv], of m] m need by (auto simp: m_def l1_tables_def [of 0])
  define priv1 where "priv1 = p0\<lparr>rp_size := n, rp_cap := m\<rparr>"
  have r: "ram_vnode_bset_resize n (new_private, ph) = Some (priv1, ph')"
    using g(1) by (simp add: ram_vnode_bset_resize_def bo Let_def priv1_def new_private_def)
  have ok1: "bset_ok m priv1 ph'" "entry priv1 = entry p0" "rp_size priv1 = n" "rp_cap priv1 = m"
    using g(2) by (simp_all add: priv1_def)
  note ae = archive_entry [OF d, folded m_def]
  have "\<forall>i \<in> set [0..<m]. i < m \<and> entry priv1 i = RAM_BSET_AVAIL \<and> (bytes + of_nat i * 512 + 512) AND 511 = 0"
    using g(3) ok1(2) ae(1) by simp
  from tar_set_blocks_ok [OF distinct_upt bset_okD(1) [OF ok1(1)] this]
  obtain priv' where p: "tar_set_blocks bytes [0..<m] priv1 = Some priv'" "bset_shape m priv'" "l1_page priv' = l1_page priv1"
     "rp_size priv' = n" "rp_cap priv' = m" "\<forall>k < m. entry priv' k = (bytes + of_nat k * 512 + 512) OR RAM_BSET_AVAIL"
    using ok1(3,4) by auto
  have b: "blk priv' i = unat bytes + 512 + i * 512" "bit (entry priv' i) 0" "\<not> bit (entry priv' i) 1" if "i < m" for i
    using ae(2-4) [OF that] p(6) that by (simp_all add: blk_def)
  have "objs m priv' \<subseteq> objs m priv1" using b(3) p(3) by (auto simp: objs_def)
  hence o: "owns (objs m priv') ph'" by (rule owns_sub [OF bset_okD(2) [OF ok1(1)]])
  have "entry_safe ph (entry priv' i)" if "i < m" for i
    using d b [OF that] that by (simp add: archive_data_def entry_safe_def blk_def m_def Let_def)
  hence "blks_ok m priv' ph'" using g(4) b(1) unfolding blks_ok_def by simp
  hence "ram_file priv' ph'" using o p(2,4,5) b by (simp add: ram_file_def bset_ok_def m_def)
  thus ?thesis using r p(1,4,5) b(1) bo by auto
qed

section \<open>Properties\<close>

text \<open>
  C30: The files of the boot archive read as archived. When the data behind a header lies on block
  boundaries in memory the page allocator does not manage, and there are enough pages for the
  second-level tables, setting up a new file of the archive succeeds, leaves a file in order, and its
  contents are the bytes that follow the header.
\<close>

theorem tar_file_contents:
  assumes v: "vf_node st v = Some n" "vn_data n = Some new_private" and inv: "phys_inv (rw_phys (vf_world st))"
    and d: "archive_data bytes len (rw_phys (vf_world st))" and lim: "len \<le> 512 * RAM_BLOCKS"
    and need: "l1_tables ((len + 511) div 512) \<le> card (free_set (rw_phys (vf_world st)))"
  shows "\<exists>st' priv'. tar_file v bytes len st = Some st' \<and> vf_node st' = (vf_node st)(v \<mapsto> n\<lparr>vn_data := Some priv'\<rparr>)
     \<and> ram_file priv' (rw_phys (vf_world st')) \<and> rw_mem (vf_world st') = rw_mem (vf_world st)
     \<and> contents priv' (rw_mem (vf_world st')) = bytes_at (rw_mem (vf_world st)) (unat bytes + 512) len"
proof -
  obtain priv1 ph' priv' where r: "ram_vnode_bset_resize len (new_private, rw_phys (vf_world st)) = Some (priv1, ph')"
     "tar_set_blocks bytes [0..<blocks_of len] priv1 = Some priv'" "ram_file priv' ph'" "rp_size priv' = len"
     "\<forall>i < rp_cap priv'. blk priv' i = unat bytes + 512 + i * 512"
    using tar_file_priv [OF inv d _ need] lim by (auto simp: RAM_BLOCKS_def)
  define st' where "st' = set_priv v priv' (set_phys ph' st)"
  have run: "tar_file v bytes len st = Some st'" using v r(1,2) by (simp add: tar_file_def st'_def)
  have st': "vf_node st' = (vf_node st)(v \<mapsto> n\<lparr>vn_data := Some priv'\<rparr>)" "rw_phys (vf_world st') = ph'"
    "rw_mem (vf_world st') = rw_mem (vf_world st)"
    using v(1) by (simp_all add: st'_def set_priv_def set_phys_def)
  have "loc priv' k = unat bytes + 512 + k" if "k < len" for k
    using file_index [OF r(3), of k] r(4,5) that by (simp add: loc_def)
  hence "contents priv' (rw_mem (vf_world st)) = bytes_at (rw_mem (vf_world st)) (unat bytes + 512) len"
    by (simp add: contents_def bytes_at_def r(4))
  thus ?thesis using run st' r(3) by auto
qed

theorem tar_file_contents_witness:
  "\<exists>st' priv'. tar_file 2 0xFFFFFF0000001000 3 (demo_ram demo_phys) = Some st' \<and> ram_file priv' (rw_phys (vf_world st'))"
proof -
  have v: "vf_node (demo_ram demo_phys) 2 = Some (demo_node VN_REG ''a'' [] (Some 1) 1 (Some new_private))"
    "vn_data (demo_node VN_REG ''a'' [] (Some 1) 1 (Some new_private)) = Some new_private" "rw_phys (vf_world (demo_ram demo_phys)) = demo_phys"
    by (simp_all add: demo_ram_def demo_node_def)
  have "archive_data 0xFFFFFF0000001000 3 demo_phys"
    by (simp add: archive_data_def demo_phys_sets MM_PHYS_def KERNEL_OFFSET_def Let_def)
  hence d: "archive_data 0xFFFFFF0000001000 3 (rw_phys (vf_world (demo_ram demo_phys)))" by (simp add: v(3))
  show ?thesis
    using tar_file_contents [OF v(1,2) _ d] demo_phys_inv by (auto simp: v(3) RAM_BLOCKS_def l1_tables_def)
qed

text \<open>
  Number fields of archive headers are read as they were printed. A size field holding eleven octal
  digits and a terminator, and identifier and mode fields holding seven, are read back as the numbers
  printed into them.
\<close>

lemma tar_numbers_roundtrip:
  assumes "n < 8 ^ 11" "bytes_at mem (hdr + 124) 12 = octal_field 11 n"
    and "u < 8 ^ 7" "bytes_at mem (hdr + 108) 8 = octal_field 7 u"
    and "g < 8 ^ 7" "bytes_at mem (hdr + 116) 8 = octal_field 7 g"
    and "p < 8 ^ 7" "bytes_at mem (hdr + 100) 8 = octal_field 7 p"
  shows "unat (tar_size mem hdr) = n \<and> unat (tar_uid mem hdr) = u \<and> unat (tar_gid mem hdr) = g \<and> unat (tar_mode mem hdr) = p"
proof -
  have "unat (of_nat k :: 64 word) = k" if "k < 8 ^ 11" for k
    unfolding unat_of_nat using that by simp
  thus ?thesis using assms octal_field_value [OF assms(1)] octal_field_value [OF assms(3)] octal_field_value [OF assms(5)]
      octal_field_value [OF assms(7)]
    by (simp add: tar_size_def tar_uid_def tar_gid_def tar_mode_def)
qed

lemma bytes_put_same: "bytes_at (put_bytes a bs mem) a (length bs) = bs"
  by (rule nth_equalityI) (simp_all add: bytes_at_def put_bytes_def)

lemma octal_field_length [simp]: "length (octal_field w n) = Suc w"
  by (simp add: octal_field_def)

end
