(* ===== verification/Ramfs_Unpack.thy ===== *)
theory Ramfs_Unpack
  imports Ramfs_Archive
begin

text \<open>
  The first pass over the boot archive. An archive is built here byte by byte, independently of the code that reads
  it: a header block and the padded data of each entry, perhaps one empty block between two entries, and two empty blocks at
  the end. The pass over such an archive visits every header, returns, and leaves a tree in which every archived
  path is found.
\<close>

section \<open>Archives\<close>

text \<open>An entry is its header block and its data, which is filled up with zero bytes to whole blocks.\<close>

definition tar_padded :: "byte list \<Rightarrow> byte list" where
  "tar_padded data = data @ replicate ((512 - length data mod 512) mod 512) 0"

fun tar_entry_bytes :: "byte list \<times> byte list \<Rightarrow> byte list" where
  "tar_entry_bytes (hdr, data) = hdr @ tar_padded data"

text \<open>No run of characters between slashes is as long as a vnode name may be.\<close>

definition short_names :: "string \<Rightarrow> bool" where
  "short_names path \<longleftrightarrow> (\<forall>a b c. path = a @ b @ c \<longrightarrow> CHR ''/'' \<notin> set b \<longrightarrow> length b < NODE_MAXLEN)"

definition tar_entry_name :: "byte list \<times> byte list \<Rightarrow> string" where
  "tar_entry_name e = chars (takeWhile (\<lambda>b. b \<noteq> 0) (fst e))"

definition tar_entry_ok :: "byte list \<times> byte list \<Rightarrow> bool" where
  "tar_entry_ok e \<longleftrightarrow> (case e of (hdr, data) \<Rightarrow>
     length hdr = 512 \<and> hdr ! 0 \<noteq> 0 \<and> 0 \<in> set (take 100 hdr) \<and> short_names (tar_entry_name e)
     \<and> (if hdr ! 156 \<in> {0, 48} then length data < 8 ^ 11 \<and> take 12 (drop 124 hdr) = octal_field 11 (length data)
        else hdr ! 156 \<in> {50, 53} \<and> data = []))"

definition tar_archive :: "(byte list \<times> byte list) list \<Rightarrow> bool \<Rightarrow> (byte list \<times> byte list) list \<Rightarrow> byte list" where
  "tar_archive before gap after = concat (map tar_entry_bytes before) @ (if gap then replicate 512 0 else [])
     @ concat (map tar_entry_bytes after) @ replicate 1024 0"

text \<open>Where the headers of consecutive entries are.\<close>

fun tar_headers :: "nat \<Rightarrow> (byte list \<times> byte list) list \<Rightarrow> nat list" where
  "tar_headers off [] = []"
| "tar_headers off (e # es) = off # tar_headers (off + length (tar_entry_bytes e)) es"

text \<open>Processing a list of headers one after the other, stopping at the first error.\<close>

fun tar_fold :: "(nat \<Rightarrow> ramfs \<Rightarrow> ((int + 64 word) \<times> ramfs) kern) \<Rightarrow> nat list \<Rightarrow> ramfs \<Rightarrow> (int \<times> ramfs) kern" where
  "tar_fold step [] st = Some (0, st)"
| "tar_fold step (h # hs) st = do {
     (r, st) \<leftarrow> step h st;
     (case r of Inl e \<Rightarrow> Some (e, st) | Inr _ \<Rightarrow> tar_fold step hs st)
   }"

lemma tar_padded_length: "length (tar_padded data) = (length data + 511) div 512 * 512"
proof -
  define q r where "q = length data div 512" and "r = length data mod 512"
  have n: "length data = 512 * q + r" "r < 512" by (simp_all add: q_def r_def)
  have "length data + (512 - r) mod 512 = (length data + 511) div 512 * 512"
  proof (cases "r = 0")
    case True
    thus ?thesis using n by simp
  next
    case False
    hence "(length data + 511) div 512 = Suc q" "(512 - r) mod 512 = 512 - r" using n by auto
    thus ?thesis using n by simp
  qed
  thus ?thesis by (simp add: tar_padded_def r_def)
qed

section \<open>Reading a header\<close>

lemma bytes_at_Suc: "bytes_at mem a (Suc n) = mem a # bytes_at mem (Suc a) n"
  by (simp add: bytes_at_def upt_conv_Cons map_Suc_upt [symmetric] del: upt_Suc)

lemma bytes_at_append:
  "bytes_at mem a (length xs + n) = xs @ ys \<longleftrightarrow> bytes_at mem a (length xs) = xs \<and> bytes_at mem (a + length xs) n = ys"
proof -
  have "bytes_at mem a (length xs + n) = bytes_at mem a (length xs) @ bytes_at mem (a + length xs) n"
    by (rule nth_equalityI) (auto simp: bytes_at_def nth_append)
  thus ?thesis by (auto simp: append_eq_append_conv bytes_at_def)
qed

lemma bytes_at_nth: "bytes_at mem a n = xs \<Longrightarrow> i < n \<Longrightarrow> mem (a + i) = xs ! i"
  by (auto simp: bytes_at_def)

lemma bytes_at_slice: "bytes_at mem a n = xs \<Longrightarrow> i + k \<le> n \<Longrightarrow> bytes_at mem (a + i) k = take k (drop i xs)"
  by (rule nth_equalityI) (auto simp: bytes_at_def add.assoc)

lemma cstr_at_eq:
  "cstr_at mem a n = (if 0 \<in> set (bytes_at mem a n) then Some (takeWhile (\<lambda>b. b \<noteq> 0) (bytes_at mem a n)) else None)"
  by (induction n arbitrary: a) (auto simp: bytes_at_Suc bytes_at_def [of mem _ 0])

lemma round512_of_nat:
  assumes "n < 8 ^ 11"
  shows "round512 (of_nat n) = of_nat ((n + 511) div 512 * 512)"
proof -
  have m: "(511 :: 64 word) = mask 9" by (simp add: mask_eq_exp_minus_1)
  let ?w = "of_nat (n + 511) :: 64 word"
  have u: "unat ?w = n + 511" unfolding unat_of_nat using assms by simp
  have "?w AND NOT 511 = push_bit 9 (drop_bit 9 ?w)"
    by (rule bit_eqI) (auto simp only: bit_strip bit_push_bit_iff bit_drop_bit_eq comp_def le_add_diff_inverse possible_bit_def
        dest: bit_imp_le_length)
  also have "drop_bit 9 ?w = of_nat ((n + 511) div 512)"
  proof (rule word_unat_eq_iff [THEN iffD2])
    have "unat (drop_bit 9 ?w) = (n + 511) div 512" unfolding unat_drop_bit_eq u by (simp add: drop_bit_eq_div)
    thus "unat (drop_bit 9 ?w) = unat (of_nat ((n + 511) div 512) :: 64 word)" unfolding unat_of_nat using assms by simp
  qed
  also have "push_bit 9 (of_nat ((n + 511) div 512) :: 64 word) = of_nat ((n + 511) div 512 * 512)"
    by (simp add: push_bit_eq_mult)
  finally show ?thesis by (simp add: round512_def add.commute)
qed

text \<open>What a pass needs of a header: where the next one is.\<close>

lemma tar_entry_reads:
  assumes ok: "tar_entry_ok e" and mem: "bytes_at mem a (length (tar_entry_bytes e)) = tar_entry_bytes e"
  shows "mem a \<noteq> 0" "tar_name mem a = Some (tar_entry_name e)"
    "\<exists>t. tar_type mem a = Some t
       \<and> (if t = VN_REG then 512 + round512 (tar_size mem a) else 512) = (of_nat (length (tar_entry_bytes e)) :: 64 word)"
proof -
  obtain hdr data where e: "e = (hdr, data)" by (cases e)
  have len: "length hdr = 512" using ok e by (simp add: tar_entry_ok_def)
  have h: "bytes_at mem a 512 = hdr"
    using mem bytes_at_append [of mem a hdr "length (tar_padded data)" "tar_padded data"] len e by simp
  show "mem a \<noteq> 0" using ok e bytes_at_nth [OF h, of 0] by (simp add: tar_entry_ok_def)
  have "0 \<in> set hdr" using ok e by (auto simp: tar_entry_ok_def dest: in_set_takeD)
  thus "tar_name mem a = Some (tar_entry_name e)" by (simp add: tar_name_def cstr_at_eq h tar_entry_name_def e)
  have ty: "mem (a + 156) = hdr ! 156" by (rule bytes_at_nth [OF h]) simp
  have "tar_size mem a = tar_octal (take 12 (drop 124 hdr))"
    using bytes_at_slice [OF h, of 124 12] by (simp add: tar_size_def)
  hence sz: "tar_size mem a = of_nat (length data)" if "hdr ! 156 \<in> {0, 48}"
    using ok e that by (simp add: tar_entry_ok_def octal_field_value)
  show "\<exists>t. tar_type mem a = Some t
       \<and> (if t = VN_REG then 512 + round512 (tar_size mem a) else 512) = (of_nat (length (tar_entry_bytes e)) :: 64 word)"
  proof (cases "hdr ! 156 \<in> {0, 48}")
    case True
    hence "length data < 8 ^ 11" using ok e by (simp add: tar_entry_ok_def)
    thus ?thesis using True sz len e by (auto simp: tar_type_def ty round512_of_nat tar_padded_length)
  next
    case False
    hence d: "data = []" "hdr ! 156 = 50 \<or> hdr ! 156 = 53" using ok e by (simp_all add: tar_entry_ok_def)
    have "length (tar_entry_bytes e) = 512" using d(1) e len by (simp add: tar_padded_def)
    thus ?thesis using d(2) by (elim disjE) (simp_all add: tar_type_def ty)
  qed
qed

section \<open>Creating paths\<close>

text \<open>A step that keeps every name a lookup finds.\<close>

definition names_kept :: "ramfs \<Rightarrow> ramfs \<Rightarrow> bool" where
  "names_kept st st' \<longleftrightarrow> (\<forall>v name c. vnode_lookup_child v name st = Some (Inr c) \<longrightarrow> vnode_lookup_child v name st' = Some (Inr c))"

lemma names_kept_refl [simp]: "names_kept st st"
  by (simp add: names_kept_def)

lemma names_kept_trans: "names_kept a b \<Longrightarrow> names_kept b c \<Longrightarrow> names_kept a c"
  by (simp add: names_kept_def)

lemma find_child_cong:
  "(\<And>c. c \<in> set cs \<Longrightarrow> map_option vn_name (vf_node st' c) = map_option vn_name (vf_node st c)) \<Longrightarrow>
     find_child st' name cs = find_child st name cs"
proof (induction cs)
  case (Cons c cs)
  have "map_option vn_name (vf_node st' c) = map_option vn_name (vf_node st c)" by (rule Cons.prems) simp
  thus ?case using Cons by (cases "vf_node st c"; cases "vf_node st' c") auto
qed simp

lemma find_child_live:
  "(\<And>c. c \<in> set cs \<Longrightarrow> vf_node st c \<noteq> None) \<Longrightarrow>
     \<exists>r. find_child st name cs = Some r \<and> (\<forall>c. r = Some c \<longrightarrow> c \<in> set cs)"
proof (induction cs)
  case (Cons c cs)
  obtain n where "vf_node st c = Some n" using Cons.prems [of c] by auto
  thus ?case using Cons by auto
qed simp

lemma lookup_total:
  assumes wf: "vfs_wf st" and v: "vf_node st v \<noteq> None" and l: "length name < NODE_MAXLEN"
  shows "\<exists>r. vnode_lookup_child v name st = Some r \<and> (\<forall>c. r = Inr c \<longrightarrow> vf_node st c \<noteq> None)"
proof -
  obtain n where n: "vf_node st v = Some n" using v by auto
  have "vf_node st c \<noteq> None" if "c \<in> set (vn_children n)" for c using wf_child [OF wf n that] by auto
  thus ?thesis using find_child_live [of "vn_children n" st name] n l
    by (auto simp: vnode_lookup_child_def split: option.split)
qed

text \<open>A missing component: a new vnode is attached, found under its name, and hides nothing.\<close>

lemma new_child:
  assumes wf: "vfs_wf st" and node: "vf_node st node \<noteq> None" and l: "length name < NODE_MAXLEN"
    and none: "vnode_lookup_child node name st = Some (Inl e)"
  shows "\<exists>v st1 st2. ram_vnode_create t (Some name) st = Some (v, st1) \<and> vnode_attach node v st1 = Some st2
    \<and> vfs_grows st st2 \<and> names_kept st st2 \<and> vf_node st2 v \<noteq> None \<and> vnode_lookup_child node name st2 = Some (Inr v)"
proof -
  obtain p where p: "vf_node st node = Some p" using node by auto
  define v where "v = vf_next st"
  have fresh: "vf_node st v = None" using wf_fresh [OF wf] by (simp add: v_def)
  hence ne: "node \<noteq> v" using p by auto
  obtain n0 st1 where c: "ram_vnode_create t (Some name) st = Some (v, st1)" "vf_node st1 = (vf_node st)(v \<mapsto> n0)"
      "vn_name n0 = name" "vn_parent n0 = None"
    using l by (auto simp: ram_vnode_create_def vnode_create_def v_def Let_def)
  obtain st2 where a: "vnode_attach node v st1 = Some st2"
      "vf_node st2 = (vf_node st)(v \<mapsto> n0\<lparr>vn_parent := Some node\<rparr>, node \<mapsto> vn_children_update ((#) v) p)"
    using c p ne by (auto simp: vnode_attach_def Let_def)
  have g: "vfs_grows st st2"
    using ram_vnode_create_grows [OF c(1)] vnode_attach_grows [OF a(1) ne] vfs_grows_trans by blast
  have same: "find_child st2 m (vn_children n) = find_child st m (vn_children n)" if "vf_node st u = Some n" for u n m
  proof (rule find_child_cong)
    fix k assume "k \<in> set (vn_children n)"
    hence "k \<noteq> v" using wf_child [OF wf that, of k] fresh by auto
    thus "map_option vn_name (vf_node st2 k) = map_option vn_name (vf_node st k)" using p by (auto simp: a(2))
  qed
  have kept: "vnode_lookup_child u m st2 = Some (Inr k)" if look: "vnode_lookup_child u m st = Some (Inr k)" for u m k
  proof (cases "u = node")
    case True
    hence "m \<noteq> name" using look none by auto
    thus ?thesis using look True p ne same [OF p, of m] c(3) by (auto simp: vnode_lookup_child_def a(2) split: Option.bind_splits)
  next
    case False
    moreover have "u \<noteq> v" using look fresh by (auto simp: vnode_lookup_child_def)
    ultimately show ?thesis using look same by (auto simp: vnode_lookup_child_def a(2) split: Option.bind_splits)
  qed
  have "vnode_lookup_child node name st2 = Some (Inr v)" using l ne c(3) by (simp add: vnode_lookup_child_def a(2))
  thus ?thesis using c(1) a(1) g kept ne by (auto simp: names_kept_def a(2))
qed

lemma short_names_suffix:
  assumes "short_names (xs @ ys)"
  shows "short_names ys"
  unfolding short_names_def
proof (intro allI impI)
  fix a b c assume ys: "ys = a @ b @ c" and b: "CHR ''/'' \<notin> set b"
  have "xs @ ys = (xs @ a) @ b @ c" by (simp add: ys)
  thus "length b < NODE_MAXLEN" using assms b unfolding short_names_def by blast
qed

lemma short_names_prefix: "short_names (xs @ ys) \<Longrightarrow> CHR ''/'' \<notin> set xs \<Longrightarrow> length xs < NODE_MAXLEN"
  unfolding short_names_def by (metis append_Nil)

lemma path_element_short:
  assumes "short_names path"
  shows "\<exists>name cp. path_element path = Some (name, cp) \<and> length name < NODE_MAXLEN
    \<and> (\<forall>rest. cp = Some rest \<longrightarrow> short_names rest \<and> length rest < length path)"
proof -
  define e sep where "e = takeWhile (\<lambda>c. c \<noteq> CHR ''/'') path" and "sep = dropWhile (\<lambda>c. c \<noteq> CHR ''/'') path"
  define rs where "rs = dropWhile (\<lambda>c. c = CHR ''/'') sep"
  obtain pre where pre: "sep = pre @ rs" unfolding rs_def by (metis takeWhile_dropWhile_id)
  have path: "path = e @ sep" by (simp add: e_def sep_def)
  have "CHR ''/'' \<notin> set e" by (auto simp: e_def dest: set_takeWhileD)
  hence e: "length e < NODE_MAXLEN" using short_names_prefix assms path by blast
  have rs: "short_names rs" using short_names_suffix [of "e @ pre" rs] assms path pre by simp
  have pe: "path_element path = Some (if sep = [] then (path, None) else (e, if rs = [] then None else Some rs))"
    unfolding path_element_def Let_def e_def [symmetric] sep_def [symmetric] rs_def [symmetric] using e by simp
  have "length path < NODE_MAXLEN" if "sep = []" using e path that by simp
  thus ?thesis using pe e rs path_element_shorter [of path e rs] by (cases "sep = []"; cases "rs = []") auto
qed

lemma create_path_ok:
  "vfs_wf st \<Longrightarrow> vf_node st node \<noteq> None \<Longrightarrow> short_names path \<Longrightarrow>
   \<exists>v st'. tar_mapper_create_path t True node path st = Some (Inr v, st') \<and> vfs_grows st st' \<and> names_kept st st'
     \<and> (\<forall>t' st2. names_kept st' st2 \<longrightarrow> tar_mapper_create_path t' False node path st2 = Some (Inr v, st2))"
proof (induction "length path" arbitrary: node path st rule: less_induct)
  case less
  obtain name cp where pe: "path_element path = Some (name, cp)" "length name < NODE_MAXLEN"
      and rest: "\<And>rest. cp = Some rest \<Longrightarrow> short_names rest \<and> length rest < length path"
    using path_element_short [OF less.prems(3)] by blast
  obtain r where r: "vnode_lookup_child node name st = Some r" "\<And>c. r = Inr c \<Longrightarrow> vf_node st c \<noteq> None"
    using lookup_total [OF less.prems(1,2) pe(2)] by blast
  have "\<exists>c st1. vfs_grows st st1 \<and> names_kept st st1 \<and> vf_node st1 c \<noteq> None \<and> vnode_lookup_child node name st1 = Some (Inr c)
      \<and> tar_mapper_create_path t True node path st =
        (case cp of None \<Rightarrow> Some (Inr c, st1) | Some rest \<Rightarrow> tar_mapper_create_path t True c rest st1)"
  proof (cases r)
    case (Inr c)
    thus ?thesis using r pe(1) by (intro exI [of _ c] exI [of _ st]) (simp add: tar_mapper_create_path.simps [of t True node path st] split: option.split)
  next
    case (Inl e)
    obtain v st1 st2 where n: "ram_vnode_create t (Some name) st = Some (v, st1)" "vnode_attach node v st1 = Some st2"
        "vfs_grows st st2" "names_kept st st2" "vf_node st2 v \<noteq> None" "vnode_lookup_child node name st2 = Some (Inr v)"
      using new_child [OF less.prems(1,2) pe(2), of e t] r(1) Inl by auto
    thus ?thesis using r(1) Inl pe(1)
      by (intro exI [of _ v] exI [of _ st2]) (simp add: tar_mapper_create_path.simps [of t True node path st] split: option.split)
  qed
  then obtain c st1 where g: "vfs_grows st st1" "names_kept st st1" "vf_node st1 c \<noteq> None" "vnode_lookup_child node name st1 = Some (Inr c)"
    and run: "tar_mapper_create_path t True node path st =
        (case cp of None \<Rightarrow> Some (Inr c, st1) | Some rest \<Rightarrow> tar_mapper_create_path t True c rest st1)" by blast
  have wf1: "vfs_wf st1" using g(1) less.prems(1) by (simp add: vfs_grows_def)
  have again: "tar_mapper_create_path t' False node path st2 =
      (case cp of None \<Rightarrow> Some (Inr c, st2) | Some rest \<Rightarrow> tar_mapper_create_path t' False c rest st2)"
    if "names_kept st1 st2" for t' st2
    using that g(4) pe(1) by (simp add: names_kept_def tar_mapper_create_path.simps [of t' False node path st2] split: option.split)
  show ?case
  proof (cases cp)
    case None
    thus ?thesis using run g again by auto
  next
    case (Some rs)
    obtain v st' where "tar_mapper_create_path t True c rs st1 = Some (Inr v, st')" "vfs_grows st1 st'" "names_kept st1 st'"
        "\<forall>t' st2. names_kept st' st2 \<longrightarrow> tar_mapper_create_path t' False c rs st2 = Some (Inr v, st2)"
      using less.hyps [OF _ wf1 g(3), of rs] rest [OF Some] by blast
    moreover from this(3) have "tar_mapper_create_path t' False node path st2 = tar_mapper_create_path t' False c rs st2"
      if "names_kept st' st2" for t' st2
      using again [OF names_kept_trans [OF _ that]] Some by simp
    ultimately show ?thesis using run Some vfs_grows_trans [OF g(1)] names_kept_trans [OF g(2)]
      by (intro exI [of _ v] exI [of _ st']) simp
  qed
qed

section \<open>The pass\<close>

lemma grows_root: "vfs_grows st st' \<Longrightarrow> vfs_wf st \<Longrightarrow> vf_node st v \<noteq> None \<Longrightarrow> vfs_wf st' \<and> vf_node st' v \<noteq> None"
  unfolding vfs_grows_def by blast

lemma tar_build_entry:
  assumes wf: "vfs_wf st" "vf_node st root \<noteq> None" and ok: "tar_entry_ok e"
    and mem: "bytes_at (rw_mem (vf_world st)) a (length (tar_entry_bytes e)) = tar_entry_bytes e"
  shows "\<exists>st'. tar_build_one root a st = Some (Inr (of_nat (length (tar_entry_bytes e))), st')
    \<and> vfs_grows st st' \<and> names_kept st st' \<and> vf_world st' = vf_world st
    \<and> (\<forall>t st2. names_kept st' st2 \<longrightarrow> (\<exists>v. tar_mapper_create_path t False root (tar_entry_name e) st2 = Some (Inr v, st2)))"
proof -
  note rd = tar_entry_reads [OF ok mem]
  obtain t where t: "tar_type (rw_mem (vf_world st)) a = Some t"
      "(if t = VN_REG then 512 + round512 (tar_size (rw_mem (vf_world st)) a) else 512) = (of_nat (length (tar_entry_bytes e)) :: 64 word)"
    using rd(3) by blast
  have "short_names (tar_entry_name e)" using ok by (cases e) (simp add: tar_entry_ok_def)
  from create_path_ok [OF wf this, of t]
  obtain v st' where v: "tar_mapper_create_path t True root (tar_entry_name e) st = Some (Inr v, st')" "vfs_grows st st'" "names_kept st st'"
      "\<forall>t' st2. names_kept st' st2 \<longrightarrow> tar_mapper_create_path t' False root (tar_entry_name e) st2 = Some (Inr v, st2)"
    by blast
  have "tar_build_one root a st = Some (Inr (of_nat (length (tar_entry_bytes e))), st')"
    using t v(1) rd(2) by (simp add: tar_build_one_def Let_def)
  thus ?thesis using v world_create_path [OF v(1)] by blast
qed

lemma unat_offset: "unat base + off < 2 ^ 64 \<Longrightarrow> unat (base + of_nat off :: 64 word) = unat base + off"
  by (simp add: unat_word_ariths unat_of_nat)

lemma tar_pass_zero:
  assumes "unat base + off < 2 ^ 64" "rw_mem (vf_world st) (unat base + off) = 0"
  shows "tar_pass step base (of_nat off) True st = Some (0, st)"
    and "tar_pass step base (of_nat off) False st = tar_pass step base (of_nat (off + 512)) True st"
  using assms unat_offset [OF assms(1)] by (simp_all add: tar_pass.simps [of step base "of_nat off"])

text \<open>Consecutive entries, whatever follows them.\<close>

lemma tar_pass_entries:
  fixes base :: "64 word"
  defines "S \<equiv> \<lambda>root bytes. tar_build_one root (unat (bytes :: 64 word))"
  assumes "vfs_wf st" "vf_node st root \<noteq> None" "\<forall>e \<in> set es. tar_entry_ok e"
    and "bytes_at (rw_mem (vf_world st)) (unat base + off) (length (concat (map tar_entry_bytes es))) = concat (map tar_entry_bytes es)"
    and "unat base + off + length (concat (map tar_entry_bytes es)) \<le> 2 ^ 64"
  shows "\<exists>st'. tar_pass (S root) base (of_nat off) z st
        = tar_pass (S root) base (of_nat (off + length (concat (map tar_entry_bytes es)))) z st'
    \<and> (\<forall>hs. tar_fold (\<lambda>k. tar_build_one root (unat base + k)) (tar_headers off es @ hs) st
        = tar_fold (\<lambda>k. tar_build_one root (unat base + k)) hs st')
    \<and> vfs_grows st st' \<and> names_kept st st' \<and> vf_world st' = vf_world st
    \<and> (\<forall>e \<in> set es. \<forall>t st2. names_kept st' st2 \<longrightarrow>
        (\<exists>v. tar_mapper_create_path t False root (tar_entry_name e) st2 = Some (Inr v, st2)))"
  using assms(2-)
proof (induction es arbitrary: st off)
  case (Cons e es)
  let ?mem = "rw_mem (vf_world st)" and ?n = "length (tar_entry_bytes e)"
  have ok: "tar_entry_ok e" using Cons.prems(3) by simp
  have "0 < ?n" using ok by (cases e) (auto simp: tar_entry_ok_def)
  moreover have "unat base + off + ?n \<le> 2 ^ 64" using Cons.prems(5) by simp
  ultimately have lt: "unat base + off < 2 ^ 64" by linarith
  have mem: "bytes_at ?mem (unat base + off) ?n = tar_entry_bytes e"
    "bytes_at ?mem (unat base + (off + ?n)) (length (concat (map tar_entry_bytes es))) = concat (map tar_entry_bytes es)"
    using Cons.prems(4) by (simp_all add: bytes_at_append add.assoc)
  obtain st1 where s1: "tar_build_one root (unat base + off) st = Some (Inr (of_nat ?n), st1)" "vfs_grows st st1" "names_kept st st1"
      "vf_world st1 = vf_world st"
      "\<forall>t st2. names_kept st1 st2 \<longrightarrow> (\<exists>v. tar_mapper_create_path t False root (tar_entry_name e) st2 = Some (Inr v, st2))"
    using tar_build_entry [OF Cons.prems(1,2) ok mem(1)] by blast
  have wf1: "vfs_wf st1" "vf_node st1 root \<noteq> None"
    using grows_root [OF s1(2)] Cons.prems(1,2) by auto
  from Cons.IH [OF wf1, of "off + ?n"] Cons.prems(3,5) mem(2) s1(4)
  obtain st' where st': "tar_pass (S root) base (of_nat (off + ?n)) z st1
        = tar_pass (S root) base (of_nat (off + ?n + length (concat (map tar_entry_bytes es)))) z st'"
      "\<forall>hs. tar_fold (\<lambda>k. tar_build_one root (unat base + k)) (tar_headers (off + ?n) es @ hs) st1
        = tar_fold (\<lambda>k. tar_build_one root (unat base + k)) hs st'"
      "vfs_grows st1 st'" "names_kept st1 st'" "vf_world st' = vf_world st1"
      "\<forall>e \<in> set es. \<forall>t st2. names_kept st' st2 \<longrightarrow> (\<exists>v. tar_mapper_create_path t False root (tar_entry_name e) st2 = Some (Inr v, st2))"
    by (auto simp: add.assoc)
  have "tar_pass (S root) base (of_nat off) z st = tar_pass (S root) base (of_nat (off + ?n)) z st1"
    using tar_entry_reads(1) [OF ok mem(1)] s1(1) unat_offset [OF lt]
    by (simp add: S_def tar_pass.simps [of _ base "of_nat off"])
  moreover have "\<forall>t st2. names_kept st' st2 \<longrightarrow> (\<exists>v. tar_mapper_create_path t False root (tar_entry_name e) st2 = Some (Inr v, st2))"
    using s1(5) names_kept_trans [OF st'(4)] by blast
  ultimately show ?case using st' s1 vfs_grows_trans [OF s1(2) st'(3)] names_kept_trans [OF s1(3) st'(4)]
    by (intro exI [of _ st']) (simp add: add.assoc)
qed (auto intro: exI [of _ st])

section \<open>A sample archive\<close>

text \<open>A header with the fields the kernel reads, as an archiver writes it.\<close>

definition tar_header :: "byte list \<Rightarrow> byte \<Rightarrow> nat \<Rightarrow> byte list" where
  "tar_header name flag len = name @ replicate (100 - length name) 0 @ octal_field 7 0 @ octal_field 7 0 @ octal_field 7 0
     @ octal_field 11 len @ octal_field 11 0 @ octal_field 7 0 @ [flag] @ replicate 355 0"

lemma short_names_len: "length path < NODE_MAXLEN \<Longrightarrow> short_names path"
  by (auto simp: short_names_def)

lemma tar_header_ok:
  assumes name: "name \<noteq> []" "0 \<notin> set name" "length name < NODE_MAXLEN"
    and flag: "flag = 48 \<and> length data < 8 ^ 11 \<or> flag = 53 \<and> data = []"
  shows "tar_entry_ok (tar_header name flag (length data), data)"
    and "tar_entry_name (tar_header name flag (length data), data) = chars name"
proof -
  define front where "front = name @ replicate (100 - length name) 0"
  have front: "length front = 100" using name(3) by (simp add: front_def)
  have h: "tar_header name flag (length data) = front @ (octal_field 7 0 @ octal_field 7 0 @ octal_field 7 0)
      @ octal_field 11 (length data) @ (octal_field 11 0 @ octal_field 7 0) @ [flag] @ replicate 355 0"
    by (simp add: tar_header_def front_def)
  have tw: "takeWhile (\<lambda>b. b \<noteq> 0) (front @ rest) = name" for rest
  proof -
    obtain k where "100 - length name = Suc k" using name(3) by (cases "100 - length name") auto
    moreover have "takeWhile (\<lambda>b. b \<noteq> 0) (name @ 0 # rest) = name" for rest using name(2) by (induction name) auto
    ultimately show ?thesis by (simp add: front_def)
  qed
  show nm: "tar_entry_name (tar_header name flag (length data), data) = chars name"
    by (simp add: tar_entry_name_def h tw)
  have len: "length (tar_header name flag (length data)) = 512" by (simp add: h front)
  have "tar_header name flag (length data) ! 0 = name ! 0" using name(1) by (simp add: tar_header_def nth_append)
  moreover have "name ! 0 \<noteq> 0" using name(1,2) by (metis length_greater_0_conv nth_mem)
  moreover have "0 \<in> set (take 100 (tar_header name flag (length data)))" using name(3) by (simp add: h front) (simp add: front_def)
  moreover have "tar_header name flag (length data) ! 156 = flag" by (simp add: h nth_append front)
  moreover have "take 12 (drop 124 (tar_header name flag (length data))) = octal_field 11 (length data)"
    by (simp add: h front)
  moreover have "short_names (chars name)" using name(3) by (intro short_names_len) (simp add: chars_def)
  ultimately show "tar_entry_ok (tar_header name flag (length data), data)"
    using flag len by (auto simp: tar_entry_ok_def nm)
qed

text \<open>The directory \<open>d\<close>, an empty block, the file \<open>d/f\<close> of three bytes.\<close>

definition demo_dir :: "byte list \<times> byte list" where "demo_dir = (tar_header [100] 53 0, [])"
definition demo_entry :: "byte list \<times> byte list" where "demo_entry = (tar_header [100, 47, 102] 48 3, [1, 2, 3])"

definition demo_archive :: ramfs where
  "demo_archive = (demo_ram demo_phys)\<lparr>vf_world := (vf_world (demo_ram demo_phys))
     \<lparr>rw_mem := put_bytes 4096 (tar_archive [demo_dir] True [demo_entry]) (\<lambda>_. 0)\<rparr>\<rparr>"

lemma demo_entries_ok: "tar_entry_ok demo_dir" "tar_entry_ok demo_entry" "tar_entry_name demo_entry = ''d/f''"
proof -
  have f: "''d/f'' = chars [100, 47, 102]" by (simp add: chars_def) code_simp
  show "tar_entry_ok demo_dir" using tar_header_ok(1) [of "[100]" 53 "[]"] by (simp add: demo_dir_def)
  show "tar_entry_ok demo_entry" "tar_entry_name demo_entry = ''d/f''"
    using tar_header_ok [of "[100, 47, 102]" 48 "[1, 2, 3]"] unfolding f
    by (simp_all add: demo_entry_def numeral_3_eq_3)
qed

section \<open>Properties\<close>

text \<open>
  C39: The first pass over the boot archive returns and builds its tree. For every archive of well-formed entries with at
  most one empty block among them, closed by two empty blocks and lying in memory without wrapping around,
  the loop, unbounded in the code, visits exactly the headers of the entries, in order, and returns 0 without a panic.
  The tree only grows, and afterwards every archived path is found, as the second pass needs. A well-formed entry has a header with a
  name whose components are shorter than a vnode name may be, a type the kernel knows, and for a regular file the
  size of the data that follows it.
\<close>

theorem tar_first_pass_ends:
  assumes wf: "vfs_wf st" "vf_node st root \<noteq> None" and ok: "\<forall>e \<in> set (before @ after). tar_entry_ok e"
    and mem: "bytes_at (rw_mem (vf_world st)) (unat base) (length (tar_archive before gap after)) = tar_archive before gap after"
    and lim: "unat base + length (tar_archive before gap after) \<le> 2 ^ 64"
  shows "\<exists>st'. tar_pass (\<lambda>bytes. tar_build_one root (unat bytes)) base 0 False st = Some (0, st')
    \<and> tar_fold (\<lambda>k. tar_build_one root (unat base + k))
        (tar_headers 0 before @ tar_headers (length (concat (map tar_entry_bytes before)) + (if gap then 512 else 0)) after) st = Some (0, st')
    \<and> vfs_grows st st'
    \<and> (\<forall>e \<in> set (before @ after). \<exists>v. tar_mapper_create_path VN_REG False root (tar_entry_name e) st' = Some (Inr v, st'))"
proof -
  let ?A = "concat (map tar_entry_bytes before)" and ?B = "concat (map tar_entry_bytes after)"
  define g where "g = (if gap then 512 else 0 :: nat)"
  let ?b = "length ?A + g" and ?S = "\<lambda>bytes. tar_build_one root (unat (bytes :: 64 word))"
  let ?mem = "rw_mem (vf_world st)"
  have ar: "tar_archive before gap after = ?A @ replicate g 0 @ ?B @ replicate 1024 0"
    by (simp add: tar_archive_def g_def)
  have m: "bytes_at ?mem (unat base + 0) (length ?A) = ?A" "bytes_at ?mem (unat base + length ?A) g = replicate g 0"
    "bytes_at ?mem (unat base + ?b) (length ?B) = ?B" "bytes_at ?mem (unat base + (?b + length ?B)) 1024 = replicate 1024 0"
    using mem unfolding ar length_append length_replicate
    using bytes_at_append [of ?mem _ "replicate g 0"] by (auto simp: bytes_at_append add.assoc)
  have l: "unat base + ?b + length ?B + 1024 \<le> 2 ^ 64" using lim unfolding ar length_append length_replicate by linarith
  have zero: "?mem (unat base + (?b + length ?B)) = 0" "?mem (unat base + (?b + length ?B + 512)) = 0"
    using bytes_at_nth [OF m(4), of 0] bytes_at_nth [OF m(4), of 512] by (simp_all add: add.assoc)
  obtain st1 where s1: "tar_pass ?S base 0 False st = tar_pass ?S base (of_nat (length ?A)) False st1"
    "\<And>hs. tar_fold (\<lambda>k. tar_build_one root (unat base + k)) (tar_headers 0 before @ hs) st
        = tar_fold (\<lambda>k. tar_build_one root (unat base + k)) hs st1"
    "vfs_grows st st1" "vf_world st1 = vf_world st"
    "\<forall>e \<in> set before. \<forall>t st2. names_kept st1 st2 \<longrightarrow> (\<exists>v. tar_mapper_create_path t False root (tar_entry_name e) st2 = Some (Inr v, st2))"
    using tar_pass_entries [OF wf, of before base 0 False] ok m(1) l by auto
  have wf1: "vfs_wf st1" "vf_node st1 root \<noteq> None" using grows_root [OF s1(3) wf] by auto
  have gap: "tar_pass ?S base (of_nat (length ?A)) False st1 = tar_pass ?S base (of_nat ?b) gap st1"
  proof (cases gap)
    case True
    hence "?mem (unat base + length ?A) = 0" using bytes_at_nth [OF m(2), of 0] by (simp add: g_def)
    thus ?thesis using tar_pass_zero(2) [of base "length ?A" st1 ?S] l True s1(4) by (simp add: g_def)
  qed (simp add: g_def)
  obtain st2 where s2: "tar_pass ?S base (of_nat ?b) gap st1 = tar_pass ?S base (of_nat (?b + length ?B)) gap st2"
    "\<And>hs. tar_fold (\<lambda>k. tar_build_one root (unat base + k)) (tar_headers ?b after @ hs) st1
        = tar_fold (\<lambda>k. tar_build_one root (unat base + k)) hs st2"
    "vfs_grows st1 st2" "names_kept st1 st2" "vf_world st2 = vf_world st1"
    "\<forall>e \<in> set after. \<forall>t st3. names_kept st2 st3 \<longrightarrow> (\<exists>v. tar_mapper_create_path t False root (tar_entry_name e) st3 = Some (Inr v, st3))"
    using tar_pass_entries [OF wf1, of after base ?b gap] ok m(3) l s1(4) by auto
  have "tar_pass ?S base (of_nat (?b + length ?B)) gap st2 = Some (0, st2)"
    using tar_pass_zero [of base "?b + length ?B" st2 ?S] tar_pass_zero(1) [of base "?b + length ?B + 512" st2 ?S] l zero s1(4) s2(5)
    by (cases gap) simp_all
  moreover have "\<exists>v. tar_mapper_create_path VN_REG False root (tar_entry_name e) st2 = Some (Inr v, st2)" if "e \<in> set (before @ after)" for e
    using that s1(5) s2(4,6) by auto
  moreover have "tar_fold (\<lambda>k. tar_build_one root (unat base + k)) (tar_headers 0 before @ tar_headers ?b after) st = Some (0, st2)"
    using s1(2) s2(2) [of "[]"] by simp
  ultimately show ?thesis using s1(1) gap s2(1) vfs_grows_trans [OF s1(3) s2(3)] unfolding g_def by (intro exI [of _ st2]) auto
qed

theorem tar_first_pass_ends_witness:
  "\<exists>st' v. tar_pass (\<lambda>bytes. tar_build_one 1 (unat bytes)) 4096 0 False demo_archive = Some (0, st')
     \<and> tar_mapper_create_path VN_REG False 1 ''d/f'' st' = Some (Inr v, st')"
proof -
  let ?ar = "tar_archive [demo_dir] True [demo_entry]"
  have wf: "vfs_wf demo_archive" "vf_node demo_archive 1 \<noteq> None"
    by (rule wfI) (auto simp: demo_archive_def demo_ram_def demo_node_def split: if_splits)
  have ok: "\<forall>e \<in> set ([demo_dir] @ [demo_entry]). tar_entry_ok e" using demo_entries_ok by simp
  have mem: "bytes_at (rw_mem (vf_world demo_archive)) (unat (4096 :: 64 word)) (length ?ar) = ?ar"
    using bytes_put_same [of 4096 ?ar] by (simp add: demo_archive_def)
  have "length ?ar = 3072"
    by (simp add: tar_archive_def demo_dir_def demo_entry_def tar_header_def tar_padded_def)
  hence "unat (4096 :: 64 word) + length ?ar \<le> 2 ^ 64" by simp
  from tar_first_pass_ends [OF wf ok mem this] show ?thesis using demo_entries_ok(3) by auto
qed

end
