(* ===== verification/Paging.thy ===== *)
theory Paging
  imports Phys
begin

text \<open>
  Address spaces (src/arch/amd64/mm/map.c, vmalloc.c, mm.c, the table pool of phys.c) and the page
  fault handler \<open>do_pfault\<close> of src/arch/amd64/hw/exc.c.

  Physical memory is reached through the direct mapping (\<open>MM_VIRTUALIZE\<close>), so a table pointer is the
  physical address of its page. \<open>vm_tab a\<close> holds the 512 entries of the page at \<open>a\<close> when it is used as
  a table and \<open>vm_mem a\<close> its bytes when it is used as data; which of the two it is follows from the usage
  of the page. An address space is the physical address of its PML4. The translation caches are not
  part of the model: every store to a user entry is followed by \<open>invlpg\<close> in the code. \<open>MM_NADDR\<close> is
  \<^term>\<open>None\<close> inside the result, a panic or a failed assertion \<^term>\<open>None\<close> outside.
\<close>

abbreviation MM_PAGE_PRESENT :: "64 word" where "MM_PAGE_PRESENT \<equiv> BIT 0"
abbreviation MM_PAGE_WRITE :: "64 word" where "MM_PAGE_WRITE \<equiv> BIT 1"
abbreviation MM_PAGE_USER :: "64 word" where "MM_PAGE_USER \<equiv> BIT 2"
abbreviation MM_PAGE_HUGE :: "64 word" where "MM_PAGE_HUGE \<equiv> BIT 7"
abbreviation MM_PAGE_NOEXEC :: "64 word" where "MM_PAGE_NOEXEC \<equiv> BIT 63"
abbreviation MM_CLONE_FLG_KERNEL :: "32 word" where "MM_CLONE_FLG_KERNEL \<equiv> BIT 0"
abbreviation MM_CLONE_FLG_USER :: "32 word" where "MM_CLONE_FLG_USER \<equiv> BIT 1"
abbreviation X86_PF_WRITE :: "64 word" where "X86_PF_WRITE \<equiv> BIT 1"

definition MM_PTE_FLAGS_MASK :: "64 word" where "MM_PTE_FLAGS_MASK = mask 12 OR MM_PAGE_NOEXEC"
definition MM_PTE_MASK :: "64 word" where "MM_PTE_MASK = NOT MM_PTE_FLAGS_MASK"
definition MM_PAGE_MASK :: "64 word" where "MM_PAGE_MASK = NOT (mask 12)"
definition KERNEL_VIRT_BASE :: "64 word" where "KERNEL_VIRT_BASE = 0xFFFFFF0000000000"
definition AMD64_PML4I_USER_END :: nat where "AMD64_PML4I_USER_END = 255"

record vm =
  vm_phys :: phys
  vm_tab :: "nat \<Rightarrow> nat \<Rightarrow> 64 word"
  vm_mem :: "nat \<Rightarrow> nat \<Rightarrow> byte"
  vm_kernel :: nat

definition pte_phys :: "64 word \<Rightarrow> nat" where
  "pte_phys e = unat (e AND MM_PTE_MASK)"

definition AMD64_MM_STRIPSX :: "64 word \<Rightarrow> 64 word" where
  "AMD64_MM_STRIPSX v = v AND mask 48"

definition pte_index :: "nat \<Rightarrow> 64 word \<Rightarrow> nat" where
  "pte_index shift v = unat (drop_bit shift (AMD64_MM_STRIPSX v) AND mask 9)"

definition pml4i :: "64 word \<Rightarrow> nat" where "pml4i = pte_index 39"
definition pdpti :: "64 word \<Rightarrow> nat" where "pdpti = pte_index 30"
definition pdi :: "64 word \<Rightarrow> nat" where "pdi = pte_index 21"
definition pti :: "64 word \<Rightarrow> nat" where "pti = pte_index 12"

definition set_entry :: "nat \<Rightarrow> nat \<Rightarrow> 64 word \<Rightarrow> vm \<Rightarrow> vm" where
  "set_entry t i e vm = vm\<lparr>vm_tab := (vm_tab vm)(t := (vm_tab vm t)(i := e))\<rparr>"

text \<open>\<open>PHYS2PAGE\<close> is array access; an address behind the array has no value.\<close>

definition get_page :: "nat \<Rightarrow> vm \<Rightarrow> page kern" where
  "get_page pa vm = (let k = pa div MM_PAGE_SIZE in
     if k < PHYS_MAX_PAGES then Some (mm_pages (vm_phys vm) k) else None)"

definition put_page :: "nat \<Rightarrow> page \<Rightarrow> vm \<Rightarrow> vm" where
  "put_page pa pg vm = vm\<lparr>vm_phys := (vm_phys vm)\<lparr>mm_pages := (mm_pages (vm_phys vm))(pa div MM_PAGE_SIZE := pg)\<rparr>\<rparr>"

definition page_ref :: "nat \<Rightarrow> vm \<Rightarrow> vm kern" where
  "page_ref pa vm = do {
     pg \<leftarrow> get_page pa vm;
     Some (put_page pa (pg\<lparr>pg_refcount := Suc (pg_refcount pg)\<rparr>) vm)
   }"

definition page_unref :: "nat \<Rightarrow> vm \<Rightarrow> vm kern" where
  "page_unref pa vm = do {
     pg \<leftarrow> get_page pa vm;
     kassert (pg_refcount pg \<noteq> 0);
     Some (put_page pa (pg\<lparr>pg_refcount := pg_refcount pg - 1\<rparr>) vm)
   }"

definition free_frame :: "nat \<Rightarrow> vm \<Rightarrow> vm kern" where
  "free_frame pa vm = do {
     ph \<leftarrow> mm_phys_free_page pa (vm_phys vm);
     Some (vm\<lparr>vm_phys := ph\<rparr>)
   }"

definition alloc_frame :: "page_usage \<Rightarrow> vm \<Rightarrow> (nat \<times> vm) kern" where
  "alloc_frame pu vm = do {
     (r, ph) \<leftarrow> mm_phys_alloc_page pu (vm_phys vm);
     pa \<leftarrow> r;
     Some (pa, vm\<lparr>vm_phys := ph\<rparr>)
   }"

section \<open>The pool of tables\<close>

definition amd64_mm_pool_alloc :: "vm \<Rightarrow> (nat \<times> vm) kern" where
  "amd64_mm_pool_alloc vm = do {
     (a, vm) \<leftarrow> alloc_frame PU_PAGING vm;
     Some (a, vm\<lparr>vm_tab := (vm_tab vm)(a := (\<lambda>_. 0))\<rparr>)
   }"

definition amd64_mm_pool_free :: "nat \<Rightarrow> vm \<Rightarrow> vm kern" where
  "amd64_mm_pool_free a vm = free_frame a (vm\<lparr>vm_tab := (vm_tab vm)(a := (\<lambda>_. NOT 0))\<rparr>)"

section \<open>Lookup, mapping and unmapping of one page\<close>

text \<open>The result is the physical address, or \<^term>\<open>None\<close> for \<open>MM_NADDR\<close>, and what is stored to \<open>*flags\<close>.\<close>

definition mm_map_get :: "nat \<Rightarrow> 64 word \<Rightarrow> vm \<Rightarrow> (nat option \<times> 64 word option) kern" where
  "mm_map_get pml4 vaddr vm = (let T = vm_tab vm; v = AMD64_MM_STRIPSX vaddr; e4 = T pml4 (pml4i v) in
     if e4 AND MM_PAGE_PRESENT = 0 then Some (None, None)
     else if e4 AND MM_PAGE_HUGE \<noteq> 0 then None
     else let e3 = T (pte_phys e4) (pdpti v) in
     if e3 AND MM_PAGE_PRESENT = 0 then Some (None, None)
     else if e3 AND MM_PAGE_HUGE \<noteq> 0 then Some (Some (unat ((e3 AND MM_PTE_MASK) OR (v AND mask 30))), None)
     else let pd = pte_phys e3; e2 = T pd (pdi v) in
     if e2 AND MM_PAGE_PRESENT = 0 then Some (None, None)
     else if e2 AND MM_PAGE_HUGE \<noteq> 0 then Some (Some (unat ((T pd (pti v) AND MM_PTE_MASK) OR (v AND mask 21))), None)
     else let e1 = T (pte_phys e2) (pti v) in
     if e1 AND MM_PAGE_PRESENT = 0 then Some (None, None)
     else Some (Some (unat ((e1 AND MM_PTE_MASK) OR (v AND mask 12))), Some (e1 AND MM_PTE_FLAGS_MASK)))"

definition mm_umap_single :: "nat \<Rightarrow> 64 word \<Rightarrow> vm \<Rightarrow> (nat option \<times> vm) kern" where
  "mm_umap_single pml4 vaddr vm = (let T = vm_tab vm; v = AMD64_MM_STRIPSX vaddr; e4 = T pml4 (pml4i v) in
     if e4 AND MM_PAGE_PRESENT = 0 then Some (None, vm)
     else if e4 AND MM_PAGE_HUGE \<noteq> 0 then None
     else let e3 = T (pte_phys e4) (pdpti v) in
     if e3 AND MM_PAGE_PRESENT = 0 then Some (None, vm)
     else if e3 AND MM_PAGE_HUGE \<noteq> 0 then None
     else let e2 = T (pte_phys e3) (pdi v) in
     if e2 AND MM_PAGE_PRESENT = 0 then Some (None, vm)
     else if e2 AND MM_PAGE_HUGE \<noteq> 0 then None
     else let pt = pte_phys e2; e1 = T pt (pti v) in
     if e1 AND MM_PAGE_PRESENT = 0 then Some (None, vm)
     else do {
       let old = pte_phys e1;
       vm \<leftarrow> page_unref old (set_entry pt (pti v) 0 vm);
       Some (Some old, vm)
     })"

text \<open>\<open>next_table\<close> is the step that \<open>mm_map_single\<close> makes three times: follow an entry or allocate a table for it.\<close>

definition next_table :: "nat \<Rightarrow> nat \<Rightarrow> vm \<Rightarrow> (nat \<times> vm) kern" where
  "next_table t i vm =
     (if vm_tab vm t i AND MM_PAGE_PRESENT = 0 then do {
        (a, vm) \<leftarrow> amd64_mm_pool_alloc vm;
        Some (a, set_entry t i (of_nat a OR MM_PAGE_PRESENT OR MM_PAGE_USER OR MM_PAGE_WRITE) vm)
      }
      else Some (pte_phys (vm_tab vm t i), vm))"

definition mm_map_single :: "nat \<Rightarrow> 64 word \<Rightarrow> nat \<Rightarrow> 64 word \<Rightarrow> vm \<Rightarrow> vm kern" where
  "mm_map_single pml4 virt_addr pa flags vm = (let v = AMD64_MM_STRIPSX virt_addr in do {
     (pdpt, vm) \<leftarrow> next_table pml4 (pml4i v) vm;
     (pd, vm) \<leftarrow> next_table pdpt (pdpti v) vm;
     (pt, vm) \<leftarrow> next_table pd (pdi v) vm;
     kassert (vm_tab vm pt (pti v) AND MM_PAGE_PRESENT = 0);
     vm \<leftarrow> page_ref pa vm;
     Some (set_entry pt (pti v)
             ((of_nat pa AND MM_PAGE_MASK) OR (flags AND MM_PTE_FLAGS_MASK) OR MM_PAGE_PRESENT) vm)
   })"

section \<open>Fork, release\<close>

fun kfold :: "(nat \<Rightarrow> vm \<Rightarrow> vm kern) \<Rightarrow> nat list \<Rightarrow> vm \<Rightarrow> vm kern" where
  "kfold f [] vm = Some vm"
| "kfold f (i # is) vm = do { vm \<leftarrow> f i vm; kfold f is vm }"

definition mm_space_clone :: "nat \<Rightarrow> nat \<Rightarrow> 32 word \<Rightarrow> vm \<Rightarrow> vm kern" where
  "mm_space_clone dst src flags vm = do {
     kassert (flags AND MM_CLONE_FLG_USER = 0);
     (if flags AND MM_CLONE_FLG_KERNEL \<noteq> 0
      then kfold (\<lambda>i vm. Some (set_entry dst i (vm_tab vm src i) vm)) [AMD64_PML4I_USER_END..<512] vm
      else Some vm)
   }"

definition fork_page :: "nat \<Rightarrow> nat \<Rightarrow> nat \<Rightarrow> vm \<Rightarrow> vm kern" where
  "fork_page src_pt dst_pt i vm = (let e = vm_tab vm src_pt i in
     if e AND MM_PAGE_PRESENT = 0 then Some vm
     else do {
       let pa = pte_phys e;
       pg \<leftarrow> get_page pa vm;
       kassert (pg_refcount pg \<noteq> 0);
       (if e AND MM_PAGE_WRITE \<noteq> 0 \<and> pg_usage pg = PU_PRIVATE
        then do {
          let vm = set_entry dst_pt i (of_nat pa OR (e AND (MM_PTE_FLAGS_MASK AND NOT MM_PAGE_WRITE))) vm;
          let vm = set_entry src_pt i (vm_tab vm src_pt i AND NOT MM_PAGE_WRITE) vm;
          page_ref pa vm
        }
        else page_ref pa (set_entry dst_pt i (of_nat pa OR (e AND MM_PTE_FLAGS_MASK)) vm))
     })"

definition fork_pt :: "nat \<Rightarrow> nat \<Rightarrow> vm \<Rightarrow> vm kern" where
  "fork_pt src_pt dst_pt = kfold (fork_page src_pt dst_pt) [0..<512]"

text \<open>
  The three outer loops have one body: skip an absent entry, refuse a large page, allocate the table
  of the child, enter it with the access bits of the parent and descend.
\<close>

definition fork_entry :: "(nat \<Rightarrow> nat \<Rightarrow> vm \<Rightarrow> vm kern) \<Rightarrow> nat \<Rightarrow> nat \<Rightarrow> nat \<Rightarrow> vm \<Rightarrow> vm kern" where
  "fork_entry sub src dst i vm = (let e = vm_tab vm src i in
     if e AND MM_PAGE_PRESENT = 0 then Some vm
     else do {
       kassert (e AND MM_PAGE_HUGE = 0);
       (a, vm) \<leftarrow> amd64_mm_pool_alloc vm;
       sub (pte_phys e) a (set_entry dst i (of_nat a OR (vm_tab vm src i AND MM_PTE_FLAGS_MASK)) vm)
     })"

definition fork_pd :: "nat \<Rightarrow> nat \<Rightarrow> vm \<Rightarrow> vm kern" where
  "fork_pd src_pd dst_pd = kfold (fork_entry fork_pt src_pd dst_pd) [0..<512]"

definition fork_pdpt :: "nat \<Rightarrow> nat \<Rightarrow> vm \<Rightarrow> vm kern" where
  "fork_pdpt src_pdpt dst_pdpt = kfold (fork_entry fork_pd src_pdpt dst_pdpt) [0..<512]"

text \<open>Only the outermost loop asserts that the entry of the child is unused.\<close>

definition fork_pml4_entry :: "nat \<Rightarrow> nat \<Rightarrow> nat \<Rightarrow> vm \<Rightarrow> vm kern" where
  "fork_pml4_entry src dst i vm = do {
     kassert (vm_tab vm src i AND MM_PAGE_PRESENT = 0 \<or> vm_tab vm src i AND MM_PAGE_HUGE \<noteq> 0
              \<or> vm_tab vm dst i AND MM_PAGE_PRESENT = 0);
     fork_entry fork_pdpt src dst i vm
   }"

definition mm_space_fork :: "nat \<Rightarrow> nat \<Rightarrow> 32 word \<Rightarrow> vm \<Rightarrow> vm kern" where
  "mm_space_fork dst src flags vm = do {
     vm \<leftarrow> (if flags AND MM_CLONE_FLG_USER \<noteq> 0
            then kfold (fork_pml4_entry src dst) [0..<AMD64_PML4I_USER_END] vm
            else Some vm);
     mm_space_clone dst src (MM_CLONE_FLG_KERNEL AND flags) vm
   }"

definition release_page :: "nat \<Rightarrow> nat \<Rightarrow> vm \<Rightarrow> vm kern" where
  "release_page pt i vm =
     (if vm_tab vm pt i AND MM_PAGE_PRESENT = 0 then Some vm
      else do {
        let pa = pte_phys (vm_tab vm pt i);
        vm \<leftarrow> page_unref pa vm;
        pg \<leftarrow> get_page pa vm;
        (if pg_refcount pg = 0 then free_frame pa vm else Some vm)
      })"

definition release_pt :: "nat \<Rightarrow> vm \<Rightarrow> vm kern" where
  "release_pt pt = kfold (release_page pt) [0..<512]"

definition release_entry :: "(nat \<Rightarrow> vm \<Rightarrow> vm kern) \<Rightarrow> nat \<Rightarrow> nat \<Rightarrow> vm \<Rightarrow> vm kern" where
  "release_entry sub t i vm =
     (if vm_tab vm t i AND MM_PAGE_PRESENT = 0 then Some vm
      else do {
        let t' = pte_phys (vm_tab vm t i);
        vm \<leftarrow> sub t' vm;
        amd64_mm_pool_free t' vm
      })"

definition release_pd :: "nat \<Rightarrow> vm \<Rightarrow> vm kern" where
  "release_pd pd = kfold (release_entry release_pt pd) [0..<512]"

definition release_pdpt :: "nat \<Rightarrow> vm \<Rightarrow> vm kern" where
  "release_pdpt pdpt = kfold (release_entry release_pd pdpt) [0..<512]"

definition release_pml4_entry :: "nat \<Rightarrow> nat \<Rightarrow> vm \<Rightarrow> vm kern" where
  "release_pml4_entry pml4 i vm =
     (if vm_tab vm pml4 i AND MM_PAGE_PRESENT = 0 then Some vm
      else do {
        vm \<leftarrow> release_entry release_pdpt pml4 i vm;
        Some (set_entry pml4 i 0 vm)
      })"

definition mm_space_release :: "nat \<Rightarrow> vm \<Rightarrow> vm kern" where
  "mm_space_release pml4 vm = do {
     kassert (pml4 \<noteq> vm_kernel vm);
     kfold (release_pml4_entry pml4) [0..<AMD64_PML4I_USER_END] vm
   }"

definition mm_space_free :: "nat \<Rightarrow> vm \<Rightarrow> vm kern" where
  "mm_space_free pml4 vm = do {
     vm \<leftarrow> mm_space_release pml4 vm;
     amd64_mm_pool_free pml4 vm
   }"

section \<open>Page faults\<close>

text \<open>
  \<open>flags\<close> is only initialised when \<open>mm_map_get\<close> stores to it; reading it otherwise has no value. The
  space is the one in \<open>cr3\<close>.
\<close>

definition do_pfault :: "64 word \<Rightarrow> 64 word \<Rightarrow> nat \<Rightarrow> vm \<Rightarrow> (int \<times> vm) kern" where
  "do_pfault exc_no cr2 space vm =
     (if cr2 = 0 then Some (- 1, vm)
      else if cr2 < KERNEL_VIRT_BASE then do {
        let page_addr = cr2 AND MM_PAGE_MASK;
        (r, fl) \<leftarrow> mm_map_get space page_addr vm;
        case r of
          None \<Rightarrow> Some (- 1, vm)
        | Some pa \<Rightarrow>
            if exc_no AND X86_PF_WRITE = 0 then Some (- 1, vm)
            else do {
              flags \<leftarrow> fl;
              (if flags AND MM_PAGE_USER \<noteq> 0 \<and> flags AND MM_PAGE_WRITE = 0 then do {
                 pg \<leftarrow> get_page pa vm;
                 kassert (pg_refcount pg \<noteq> 0);
                 kassert (pg_usage pg = PU_PRIVATE);
                 (if 2 \<le> pg_refcount pg then do {
                    (new_phys, vm) \<leftarrow> alloc_frame PU_PRIVATE vm;
                    let vm = vm\<lparr>vm_mem := (vm_mem vm)(new_phys := vm_mem vm pa)\<rparr>;
                    (old, vm) \<leftarrow> mm_umap_single space page_addr vm;
                    kassert (old = Some pa);
                    vm \<leftarrow> mm_map_single space page_addr new_phys (MM_PAGE_USER OR MM_PAGE_WRITE) vm;
                    Some (0, vm)
                  }
                  else do {
                    (old, vm) \<leftarrow> mm_umap_single space page_addr vm;
                    kassert (old = Some pa);
                    vm \<leftarrow> mm_map_single space page_addr pa (MM_PAGE_USER OR MM_PAGE_WRITE) vm;
                    Some (0, vm)
                  })
               }
               else Some (- 1, vm))
            }
      }
      else Some (- 1, vm))"

definition userptr_check :: "64 word \<Rightarrow> nat \<Rightarrow> vm \<Rightarrow> unit kern" where
  "userptr_check ptr space vm = do {
     kassert (ptr \<noteq> 0);
     kassert (ptr < KERNEL_VIRT_BASE);
     (r, _) \<leftarrow> mm_map_get space ptr vm;
     kassert (r \<noteq> None)
   }"

section \<open>Ranges of virtual pages\<close>

fun range_unmapped :: "nat \<Rightarrow> 64 word list \<Rightarrow> vm \<Rightarrow> bool kern" where
  "range_unmapped pml4 [] vm = Some True"
| "range_unmapped pml4 (v # vs) vm = do {
     (r, _) \<leftarrow> mm_map_get pml4 v vm;
     (if r \<noteq> None then Some False else range_unmapped pml4 vs vm)
   }"

definition page_range :: "64 word \<Rightarrow> nat \<Rightarrow> 64 word list" where
  "page_range base n = map (\<lambda>i. base + of_nat (i * MM_PAGE_SIZE)) [0..<n]"

function vmfind_from :: "nat \<Rightarrow> nat \<Rightarrow> nat \<Rightarrow> nat \<Rightarrow> vm \<Rightarrow> 64 word option kern" where
  "vmfind_from pml4 lim npages page_index vm =
     (if page_index + npages \<le> lim then do {
        ok \<leftarrow> range_unmapped pml4 (page_range (of_nat (page_index * MM_PAGE_SIZE)) npages) vm;
        (if ok then Some (Some (of_nat (page_index * MM_PAGE_SIZE)))
         else vmfind_from pml4 lim npages (Suc page_index) vm)
      }
      else Some None)"
  by auto
termination by (relation "measure (\<lambda>(_, lim, _, page_index, _). Suc lim - page_index)") auto

declare vmfind_from.simps [simp del]

definition vmfind :: "nat \<Rightarrow> nat \<Rightarrow> nat \<Rightarrow> nat \<Rightarrow> vm \<Rightarrow> 64 word option kern" where
  "vmfind pml4 from_addr to_addr npages vm =
     vmfind_from pml4 (to_addr div MM_PAGE_SIZE) npages (from_addr div MM_PAGE_SIZE) vm"

fun vmfree :: "nat \<Rightarrow> 64 word list \<Rightarrow> vm \<Rightarrow> vm kern" where
  "vmfree pml4 [] vm = Some vm"
| "vmfree pml4 (v # vs) vm = do {
     (r, vm) \<leftarrow> mm_umap_single pml4 v vm;
     pa \<leftarrow> r;
     vm \<leftarrow> free_frame pa vm;
     vmfree pml4 vs vm
   }"

end
