(* ===== verification/Paging_Walk.thy ===== *)
theory Paging_Walk
  imports Paging
begin

text \<open>
  Walks through the table trees. \<open>walk T s p\<close> is the table that the indices \<open>p\<close> lead to from the PML4 \<open>s\<close>;
  \<open>view S T\<close> is the partial map from user pages of the spaces \<open>S\<close> to their entries, the abstraction that
  the operations of map.c are compared with. The trees of all spaces are disjoint (\<open>trees_ok\<close>); therefore
  a store to one entry of one table moves exactly the walks through it.
\<close>

section \<open>Entries\<close>

lemma present_iff [simp]: "(e AND MM_PAGE_PRESENT = 0) = (\<not> bit e 0)"
  by (simp add: flag_simps)

definition frame :: "64 word \<Rightarrow> nat" where "frame e = pte_phys e div MM_PAGE_SIZE"

lemma bit_page_addr:
  assumes "k < PHYS_MAX_PAGES" "bit (of_nat (k * MM_PAGE_SIZE) :: 64 word) n"
  shows "12 \<le> n \<and> n < 30"
proof -
  have *: "(of_nat (k * MM_PAGE_SIZE) :: 64 word) = push_bit 12 (of_nat k)"
    by (simp add: push_bit_eq_mult MM_PAGE_SIZE_def mult.commute)
  have "12 \<le> n" "bit k (n - 12)"
    using assms(2) unfolding * by (auto simp: bit_push_bit_iff bit_of_nat_iff)
  moreover have "n - 12 < 18"
  proof (rule ccontr)
    assume "\<not> n - 12 < 18"
    hence "k < 2 ^ (n - 12)"
      using assms(1) power_increasing [of 18 "n - 12" "2::nat"] by (simp add: PHYS_MAX_PAGES_def)
    thus False using \<open>bit k (n - 12)\<close> by (simp add: bit_iff_odd)
  qed
  ultimately show ?thesis by simp
qed

lemma bit_flags_mask: "bit MM_PTE_FLAGS_MASK n = (n < 12 \<or> n = 63)"
  by (auto simp: MM_PTE_FLAGS_MASK_def flag_simps bit_mask_iff)

lemma bit_pte_mask: "bit MM_PTE_MASK n = (12 \<le> n \<and> n < 63)"
  by (auto simp: MM_PTE_MASK_def bit_not_iff bit_flags_mask)

lemma unat_page_addr: "k < PHYS_MAX_PAGES \<Longrightarrow> unat (of_nat (k * MM_PAGE_SIZE) :: 64 word) = k * MM_PAGE_SIZE"
  by (subst unat_of_nat) (simp add: PHYS_MAX_PAGES_def MM_PAGE_SIZE_def)

lemma pte_phys_make:
  assumes k: "k < PHYS_MAX_PAGES" and f: "\<And>n. bit f n \<Longrightarrow> n < 12 \<or> n = 63"
  shows "pte_phys (of_nat (k * MM_PAGE_SIZE) OR f) = k * MM_PAGE_SIZE"
proof -
  have "(of_nat (k * MM_PAGE_SIZE) OR f) AND MM_PTE_MASK = (of_nat (k * MM_PAGE_SIZE) :: 64 word)"
    by (rule bit_eqI) (use bit_page_addr [OF k] f in \<open>force simp: bit_and_iff bit_or_iff bit_pte_mask\<close>)
  thus ?thesis using unat_page_addr [OF k] by (simp only: pte_phys_def)
qed

lemma bit_make:
  assumes "k < PHYS_MAX_PAGES" "n < 12"
  shows "bit (of_nat (k * MM_PAGE_SIZE) OR f :: 64 word) n = bit f n"
  using bit_page_addr [OF assms(1), of n] assms(2) by (auto simp: bit_or_iff)

lemma page_mask_addr: "k < PHYS_MAX_PAGES \<Longrightarrow> of_nat (k * MM_PAGE_SIZE) AND MM_PAGE_MASK = (of_nat (k * MM_PAGE_SIZE) :: 64 word)"
  by (rule bit_eqI)
    (use bit_page_addr [of k] in \<open>force simp: bit_and_iff bit_not_iff MM_PAGE_MASK_def bit_mask_iff\<close>)

lemma frame_make: "pte_phys e = k * MM_PAGE_SIZE \<Longrightarrow> frame e = k"
  by (simp add: frame_def MM_PAGE_SIZE_def)

lemma pte_phys_frame: "pte_phys e = frame e * MM_PAGE_SIZE"
proof -
  have "e AND MM_PTE_MASK = push_bit 12 (drop_bit 12 (e AND MM_PTE_MASK))"
    by (rule bit_eqI) (auto simp: bit_and_iff bit_pte_mask bit_push_bit_iff bit_drop_bit_eq)
  hence "pte_phys e = unat (push_bit 12 (drop_bit 12 (e AND MM_PTE_MASK)))" by (simp only: pte_phys_def)
  also have "\<dots> = (unat (drop_bit 12 (e AND MM_PTE_MASK)) * 4096) mod 2 ^ 64"
    by (simp add: push_bit_eq_mult unat_word_ariths mult.commute)
  finally have "4096 dvd pte_phys e" by (simp add: dvd_mod_iff)
  thus ?thesis by (simp add: frame_def MM_PAGE_SIZE_def)
qed

section \<open>Paths and walks\<close>

definition upath :: "nat list \<Rightarrow> bool" where
  "upath p \<longleftrightarrow> (p \<noteq> [] \<longrightarrow> hd p < AMD64_PML4I_USER_END) \<and> list_all (\<lambda>i. i < 512) p"

lemma upath_Nil [simp]: "upath []" by (simp add: upath_def)

lemma upath_append: "upath (p @ q) \<Longrightarrow> upath p"
  by (cases p) (auto simp: upath_def)

lemma upath_snoc: "upath (p @ [i]) \<longleftrightarrow> upath p \<and> i < (if p = [] then AMD64_PML4I_USER_END else 512)"
  by (cases p) (auto simp: upath_def AMD64_PML4I_USER_END_def)

lemma finite_upaths: "finite {p. upath p \<and> length p = n}"
proof (rule finite_subset)
  show "{p. upath p \<and> length p = n} \<subseteq> {p. set p \<subseteq> {..<512} \<and> length p = n}"
    by (auto simp: upath_def list_all_iff)
qed (simp add: finite_lists_length_eq)

lemma card_upaths: "card {p. upath p \<and> length p = n} \<le> 512 ^ n"
proof -
  have "card {p. upath p \<and> length p = n} \<le> card {p. set p \<subseteq> {..<512::nat} \<and> length p = n}"
    by (rule card_mono) (auto simp: upath_def list_all_iff finite_lists_length_eq)
  thus ?thesis by (simp add: card_lists_length_eq)
qed

type_synonym table_map = "nat \<Rightarrow> nat \<Rightarrow> 64 word"

fun walk :: "table_map \<Rightarrow> nat \<Rightarrow> nat list \<Rightarrow> nat option" where
  "walk T t [] = Some t"
| "walk T t (i # p) = (if bit (T t i) 0 then walk T (pte_phys (T t i)) p else None)"

lemma walk_append: "walk T s (p @ q) = (case walk T s p of None \<Rightarrow> None | Some t \<Rightarrow> walk T t q)"
  by (induction p arbitrary: s) auto

lemma walk_snoc:
  "walk T s (p @ [i]) =
    (case walk T s p of None \<Rightarrow> None | Some t \<Rightarrow> if bit (T t i) 0 then Some (pte_phys (T t i)) else None)"
  by (simp add: walk_append split: option.split)

definition view :: "nat set \<Rightarrow> table_map \<Rightarrow> nat \<times> nat list \<Rightarrow> 64 word option" where
  "view S T = (\<lambda>(s, p). if s \<in> S \<and> upath p \<and> length p = 4
     then case walk T s (butlast p) of
            None \<Rightarrow> None
          | Some t \<Rightarrow> if bit (T t (last p)) 0 then Some (T t (last p)) else None
     else None)"

lemma view_SomeD: "view S T (s, p) = Some e \<Longrightarrow> s \<in> S \<and> upath p \<and> length p = 4 \<and> bit e 0"
  by (auto simp: view_def split: if_splits option.splits)

lemma view_snoc:
  "s \<in> S \<Longrightarrow> upath (p @ [i]) \<Longrightarrow> length p = 3 \<Longrightarrow> walk T s p = Some t \<Longrightarrow>
     view S T (s, p @ [i]) = (if bit (T t i) 0 then Some (T t i) else None)"
  by (simp add: view_def)

text \<open>\<open>trees_ok S T P\<close>: the tables of the spaces \<open>S\<close> are pages of \<open>P\<close>, distinct, with small user pages only.\<close>

definition at :: "nat set \<Rightarrow> table_map \<Rightarrow> nat \<Rightarrow> nat list \<Rightarrow> nat \<Rightarrow> bool" where
  "at S T s p t \<longleftrightarrow> s \<in> S \<and> upath p \<and> length p \<le> 3 \<and> walk T s p = Some t"

definition trees_ok :: "nat set \<Rightarrow> table_map \<Rightarrow> nat set \<Rightarrow> bool" where
  "trees_ok S T P \<longleftrightarrow>
    (\<forall>s p t. at S T s p t \<longrightarrow> t \<in> P)
    \<and> (\<forall>s p s' p' t. at S T s p t \<longrightarrow> at S T s' p' t \<longrightarrow> s = s' \<and> p = p')
    \<and> (\<forall>s p t i. at S T s p t \<longrightarrow> length p < 3 \<longrightarrow> upath (p @ [i]) \<longrightarrow> bit (T t i) 0 \<longrightarrow> \<not> bit (T t i) 7)"

lemma trees_okD:
  assumes "trees_ok S T P"
  shows "at S T s p t \<Longrightarrow> t \<in> P" "at S T s p t \<Longrightarrow> at S T s' p' t \<Longrightarrow> s = s' \<and> p = p'"
    "at S T s p t \<Longrightarrow> length p < 3 \<Longrightarrow> upath (p @ [i]) \<Longrightarrow> bit (T t i) 0 \<Longrightarrow> \<not> bit (T t i) 7"
proof -
  show "at S T s p t \<Longrightarrow> t \<in> P" using assms by (simp add: trees_ok_def)
  show "at S T s p t \<Longrightarrow> at S T s' p' t \<Longrightarrow> s = s' \<and> p = p'" using assms unfolding trees_ok_def by blast
  show "at S T s p t \<Longrightarrow> length p < 3 \<Longrightarrow> upath (p @ [i]) \<Longrightarrow> bit (T t i) 0 \<Longrightarrow> \<not> bit (T t i) 7"
    using assms unfolding trees_ok_def by blast
qed

lemma at_root: "s \<in> S \<Longrightarrow> at S T s [] s" by (simp add: at_def)

lemma at_snoc: "at S T s p t \<Longrightarrow> length p < 3 \<Longrightarrow> upath (p @ [i]) \<Longrightarrow> bit (T t i) 0 \<Longrightarrow> at S T s (p @ [i]) (pte_phys (T t i))"
  by (simp add: at_def walk_snoc)

lemma at_snocD:
  "at S T s (p @ [i]) t' \<Longrightarrow> \<exists>t. at S T s p t \<and> length p < 3 \<and> upath (p @ [i]) \<and> bit (T t i) 0 \<and> t' = pte_phys (T t i)"
  by (auto simp: at_def walk_snoc upath_snoc split: option.splits if_splits)

lemma trees_roots: "trees_ok S T P \<Longrightarrow> S \<subseteq> P"
  using trees_okD(1) at_root by blast

lemma trees_ok_mono: "trees_ok S T P \<Longrightarrow> P \<subseteq> P' \<Longrightarrow> trees_ok S T P'"
  by (fastforce simp: trees_ok_def)

section \<open>Stores to tables\<close>

definition store :: "nat \<Rightarrow> nat \<Rightarrow> 64 word \<Rightarrow> table_map \<Rightarrow> table_map" where
  "store t i e T = T(t := (T t)(i := e))"

lemma set_entry_sel [simp]:
  "vm_tab (set_entry t i e vm) = store t i e (vm_tab vm)" "vm_phys (set_entry t i e vm) = vm_phys vm"
  "vm_mem (set_entry t i e vm) = vm_mem vm" "vm_kernel (set_entry t i e vm) = vm_kernel vm"
  by (simp_all add: set_entry_def store_def)

lemma store_same [simp]: "store t i e T t i = e"
  by (simp add: store_def)

lemma store_other: "\<not> (u = t \<and> j = i) \<Longrightarrow> store t i e T u j = T u j"
  by (auto simp: store_def)

text \<open>Walks to tables off the changed entry stay.\<close>

lemma walk_store_other:
  assumes ok: "trees_ok S T P" and t: "at S T s p t"
    and q: "s' \<in> S" "upath q" "length q \<le> 3" and off: "\<not> (s' = s \<and> (\<exists>r. q = p @ i # r))"
  shows "walk (store t i e T) s' q = walk T s' q"
  using q off
proof (induction q rule: rev_induct)
  case (snoc j q)
  have IH: "walk (store t i e T) s' q = walk T s' q"
    using snoc.prems by (intro snoc.IH) (auto simp: upath_snoc)
  show ?case
  proof (cases "walk T s' q")
    case (Some u)
    have "at S T s' q u" using snoc.prems Some by (auto simp: at_def upath_snoc)
    hence "\<not> (u = t \<and> j = i)" using trees_okD(2) [OF ok t] snoc.prems by blast
    thus ?thesis using Some IH by (simp add: walk_snoc store_other)
  qed (simp add: walk_snoc IH)
qed simp

text \<open>A store to a last-level entry moves no table and changes one point of the view.\<close>

lemma walk_store_leaf:
  assumes ok: "trees_ok S T P" and t: "at S T s p t" "length p = 3"
    and q: "s' \<in> S" "upath q" "length q \<le> 3"
  shows "walk (store t i e T) s' q = walk T s' q"
  using q t(2) by (intro walk_store_other [OF ok t(1)]) auto

lemma at_store_leaf:
  assumes "trees_ok S T P" "at S T s p t" "length p = 3"
  shows "at S (store t i e T) s' q u = at S T s' q u"
  using walk_store_leaf [OF assms] by (auto simp: at_def)

lemma trees_store_leaf:
  assumes ok: "trees_ok S T P" and t: "at S T s p t" "length p = 3"
  shows "trees_ok S (store t i e T) P"
proof -
  note at = at_store_leaf [OF ok t]
  have "\<not> bit (store t i e T u j) 7"
    if u: "at S T s' q u" "length q < 3" "upath (q @ [j])" "bit (store t i e T u j) 0" for s' q u j
  proof -
    have "u \<noteq> t" using trees_okD(2) [OF ok t(1), of s' q] u(1,2) t(2) by auto
    thus ?thesis using u(4) trees_okD(3) [OF ok u(1-3)] by (simp add: store_other)
  qed
  thus ?thesis using trees_okD(1,2) [OF ok] by (auto simp: trees_ok_def at)
qed

lemma view_store_leaf:
  assumes ok: "trees_ok S T P" and t: "at S T s p t" "length p = 3" and i: "i < 512"
  shows "view S (store t i e T) = (view S T)((s, p @ [i]) := (if bit e 0 then Some e else None))"
proof (rule ext, clarify)
  fix s' q
  have up: "upath (p @ [i])" using t i by (auto simp: at_def upath_snoc)
  show "view S (store t i e T) (s', q) = ((view S T)((s, p @ [i]) := (if bit e 0 then Some e else None))) (s', q)"
  proof (cases "s' \<in> S \<and> upath q \<and> length q = 4")
    case True
    then obtain r j where q: "q = r @ [j]" "length r = 3" by (cases q rule: rev_cases) auto
    have r: "walk (store t i e T) s' r = walk T s' r"
      using True q by (intro walk_store_leaf [OF ok t]) (auto simp: upath_snoc)
    show ?thesis
    proof (cases "walk T s' r")
      case None
      hence "(s', q) \<noteq> (s, p @ [i])" using q t(1) by (auto simp: at_def)
      thus ?thesis using None r q True by (auto simp: view_def)
    next
      case (Some u)
      have u: "at S T s' r u" using Some True q by (auto simp: at_def upath_snoc)
      have v: "view S T0 (s', q) = (if bit (T0 u j) 0 then Some (T0 u j) else None)"
        if "walk T0 s' r = Some u" for T0
        using that True q by (simp add: view_def)
      show ?thesis
      proof (cases "(s', q) = (s, p @ [i])")
        case same: True
        hence "u = t" "j = i" using Some t(1) q by (simp_all add: at_def)
        thus ?thesis using same v [of "store t i e T"] Some r by simp
      next
        case other: False
        have "\<not> (u = t \<and> j = i)" using trees_okD(2) [OF ok t(1), of s' r] u other q(1) by blast
        hence "store t i e T u j = T u j" by (rule store_other)
        thus ?thesis using other v [of "store t i e T"] v [of T] Some r by auto
      qed
    qed
  next
    case False
    hence "(s', q) \<noteq> (s, p @ [i])" using t up by (auto simp: at_def)
    thus ?thesis using False by (auto simp: view_def)
  qed
qed

text \<open>The contents of a page that is no table do not matter.\<close>

definition fill :: "nat \<Rightarrow> (nat \<Rightarrow> 64 word) \<Rightarrow> table_map \<Rightarrow> table_map" where
  "fill a f T = T(a := f)"

lemma fill_same [simp]: "fill a f T a = f"
  by (simp add: fill_def)

lemma fill_other: "t \<noteq> a \<Longrightarrow> fill a f T t = T t"
  by (simp add: fill_def)

lemma walk_fresh:
  assumes ok: "trees_ok S T P" and a: "a \<notin> P" and q: "s \<in> S" "upath q" "length q \<le> 3"
  shows "walk (fill a f T) s q = walk T s q"
  using q
proof (induction q rule: rev_induct)
  case (snoc j q)
  have IH: "walk (fill a f T) s q = walk T s q" using snoc.prems by (intro snoc.IH) (auto simp: upath_snoc)
  show ?case
  proof (cases "walk T s q")
    case (Some u)
    have "at S T s q u" using snoc.prems Some by (auto simp: at_def upath_snoc)
    hence "u \<noteq> a" using trees_okD(1) [OF ok] a by blast
    thus ?thesis using Some IH by (simp add: walk_snoc fill_other)
  qed (simp add: walk_snoc IH)
qed simp

lemma at_fresh: "trees_ok S T P \<Longrightarrow> a \<notin> P \<Longrightarrow> at S (fill a f T) s q u = at S T s q u"
  by (auto simp: at_def walk_fresh)

lemma trees_fresh:
  assumes ok: "trees_ok S T P" and a: "a \<notin> P"
  shows "trees_ok S (fill a f T) P"
proof -
  have "u \<noteq> a" if "at S T s p u" for s p u using trees_okD(1) [OF ok that] a by blast
  hence "(fill a f T) t i = T t i" if "at S T s p t" for s p t i using that by (simp add: fill_other)
  thus ?thesis using ok unfolding trees_ok_def at_fresh [OF ok a] by metis
qed

lemma view_cong_at:
  assumes "\<And>s q. s \<in> S \<Longrightarrow> upath q \<Longrightarrow> length q = 3 \<Longrightarrow> walk T' s q = walk T s q"
    and "\<And>s q u i. at S T s q u \<Longrightarrow> length q = 3 \<Longrightarrow> i < 512 \<Longrightarrow> T' u i = T u i"
  shows "view S T' = view S T"
proof (rule ext, clarify)
  fix s q
  show "view S T' (s, q) = view S T (s, q)"
  proof (cases "s \<in> S \<and> upath q \<and> length q = 4")
    case True
    then obtain r j where q: "q = r @ [j]" "length r = 3" by (cases q rule: rev_cases) auto
    have r: "upath r" "j < 512" using True q by (auto simp: upath_snoc split: if_splits)
    have "walk T' s r = walk T s r" using True q r by (intro assms(1)) auto
    moreover have "T' u j = T u j" if "walk T s r = Some u" for u
      using that True q r by (intro assms(2) [of s r]) (auto simp: at_def)
    ultimately show ?thesis using q True by (auto simp: view_def split: option.splits)
  qed (auto simp: view_def)
qed

lemma view_fresh: "trees_ok S T P \<Longrightarrow> a \<notin> P \<Longrightarrow> view S (fill a f T) = view S T"
  by (rule view_cong_at) (metis walk_fresh order_refl, metis fill_other trees_okD(1))

text \<open>The kernel half of a PML4 is on no user path.\<close>

lemma kernel_half:
  assumes ok: "trees_ok S T P" and d: "d \<in> S" and f: "\<forall>i < AMD64_PML4I_USER_END. f i = T d i"
  shows "trees_ok S (fill d f T) P" "view S (fill d f T) = view S T" "at S (fill d f T) s q u = at S T s q u"
proof -
  have step: "fill d f T u j = T u j" if u: "at S T s' q u" "upath (q @ [j])" for s' q u j
  proof (cases "u = d")
    case True
    hence "q = []" using trees_okD(2) [OF ok u(1), of d "[]"] at_root [OF d] by blast
    thus ?thesis using u(2) f True by (simp add: upath_def)
  qed (simp add: fill_other)
  have walk: "walk (fill d f T) s' q = walk T s' q" if "s' \<in> S" "upath q" "length q \<le> 3" for s' q
    using that
  proof (induction q rule: rev_induct)
    case (snoc j q)
    have up: "upath q" using snoc.prems by (simp add: upath_snoc)
    hence IH: "walk (fill d f T) s' q = walk T s' q" using snoc by simp
    show ?case
    proof (cases "walk T s' q")
      case (Some u)
      hence "at S T s' q u" using snoc.prems up by (simp add: at_def)
      hence "fill d f T u j = T u j" by (rule step) (use snoc.prems in simp)
      thus ?thesis using Some IH by (simp add: walk_snoc)
    qed (simp add: walk_snoc IH)
  qed simp
  show at: "at S (fill d f T) s q u = at S T s q u" for s q u using walk by (auto simp: at_def)
  show "trees_ok S (fill d f T) P"
    using ok step unfolding trees_ok_def at by metis
  show "view S (fill d f T) = view S T"
  proof (rule view_cong_at)
    show "walk (fill d f T) s q = walk T s q" if "s \<in> S" "upath q" "length q = 3" for s q using walk that by simp
    show "fill d f T u i = T u i" if "at S T s q u" "length q = 3" "i < 512" for s q u i
      using that by (intro step) (auto simp: upath_snoc at_def)
  qed
qed

section \<open>New and cut tables\<close>

lemma walk_through:
  assumes ok: "trees_ok S T P" and t: "at S T s p t"
  shows "walk (store t i e T) s (p @ i # r) = (if bit e 0 then walk (store t i e T) (pte_phys e) r else None)"
proof -
  have "walk (store t i e T) s p = Some t"
    using walk_store_other [OF ok t, of s p i e] t by (simp add: at_def)
  thus ?thesis by (simp add: walk_append)
qed

lemma walk_zero: "\<forall>i < 512. \<not> bit (T a i) 0 \<Longrightarrow> list_all (\<lambda>i. i < 512) r \<Longrightarrow> walk T a r = (if r = [] then Some a else None)"
  by (cases r) auto

lemma at_add:
  assumes ok: "trees_ok S T P" and t: "at S T s p t" "length p < 3" "upath (p @ [i])" "\<not> bit (T t i) 0"
    and e: "bit e 0" "pte_phys e = a" and a: "a \<notin> P" "\<forall>i < 512. \<not> bit (T a i) 0"
  shows "at S (store t i e T) s' q u \<longleftrightarrow> at S T s' q u \<or> s' = s \<and> q = p @ [i] \<and> u = a"
proof (cases "s' = s \<and> (\<exists>r. q = p @ i # r)")
  case True
  then obtain r where q: "s' = s" "q = p @ i # r" by blast
  have none: "\<not> at S T s' q u"
    using q t by (auto simp: at_def walk_append)
  show ?thesis
  proof (cases "upath q \<and> length q \<le> 3")
    case up: True
    have "list_all (\<lambda>i. i < 512) r" using up q by (simp add: upath_def)
    moreover have "\<forall>j < 512. \<not> bit (store t i e T a j) 0"
    proof -
      have "t \<noteq> a" using trees_okD(1) [OF ok t(1)] a(1) by blast
      thus ?thesis using a(2) by (simp add: store_other)
    qed
    ultimately have "walk (store t i e T) s' q = (if r = [] then Some a else None)"
      using e walk_through [OF ok t(1)] q by (simp add: walk_zero)
    thus ?thesis using none up q t(1) by (auto simp: at_def)
  next
    case False
    thus ?thesis using none t q by (auto simp: at_def)
  qed
next
  case False
  hence "at S (store t i e T) s' q u = at S T s' q u"
    using walk_store_other [OF ok t(1) _ _ _ False] by (auto simp: at_def)
  thus ?thesis using False by auto
qed

lemma trees_add:
  assumes ok: "trees_ok S T P" and t: "at S T s p t" "length p < 3" "upath (p @ [i])" "\<not> bit (T t i) 0"
    and e: "bit e 0" "\<not> bit e 7" "pte_phys e = a" and a: "a \<notin> P" "\<forall>i < 512. \<not> bit (T a i) 0"
  shows "trees_ok S (store t i e T) (insert a P)"
proof -
  note at = at_add [OF ok t e(1,3) a]
  have ta: "t \<noteq> a" using trees_okD(1) [OF ok t(1)] a(1) by blast
  have "\<not> bit (store t i e T u j) 7"
    if u: "at S (store t i e T) s' q u" "length q < 3" "upath (q @ [j])" "bit (store t i e T u j) 0" for s' q u j
  proof (cases "u = t \<and> j = i")
    case False
    have j: "j < 512" using u(3) by (simp add: upath_def)
    have "store t i e T u j = T u j" using False by (rule store_other)
    moreover have "u \<noteq> a" using calculation u(4) a(2) j by auto
    hence "at S T s' q u" using u(1) at by blast
    ultimately show ?thesis using u(2-4) trees_okD(3) [OF ok, of s' q u j] by simp
  qed (use e in auto)
  moreover have "s1 = s2 \<and> p1 = p2" if one: "at S (store t i e T) s1 p1 u" and two: "at S (store t i e T) s2 p2 u" for s1 p1 s2 p2 u
  proof (cases "u = a")
    case True
    hence "\<not> at S T s1 p1 u" "\<not> at S T s2 p2 u" using trees_okD(1) [OF ok] a(1) by blast+
    thus ?thesis using one two at by blast
  next
    case False
    hence "at S T s1 p1 u" "at S T s2 p2 u" using one two at by blast+
    thus ?thesis by (rule trees_okD(2) [OF ok])
  qed
  moreover have "u \<in> insert a P" if "at S (store t i e T) s' q u" for s' q u
    using that at trees_okD(1) [OF ok] by blast
  ultimately show ?thesis unfolding trees_ok_def by blast
qed

lemma view_add:
  assumes ok: "trees_ok S T P" and t: "at S T s p t" "length p < 3" "upath (p @ [i])" "\<not> bit (T t i) 0"
    and e: "bit e 0" "pte_phys e = a" and a: "a \<notin> P" "\<forall>i < 512. \<not> bit (T a i) 0"
  shows "view S (store t i e T) = view S T"
proof (rule ext, clarify)
  fix s' q
  have ta: "t \<noteq> a" using trees_okD(1) [OF ok t(1)] a(1) by blast
  show "view S (store t i e T) (s', q) = view S T (s', q)"
  proof (cases "s' \<in> S \<and> upath q \<and> length q = 4")
    case True
    then obtain r j where q: "q = r @ [j]" "length r = 3" by (cases q rule: rev_cases) auto
    have r: "upath r" "j < 512" using True q by (auto simp: upath_snoc split: if_splits)
    have at: "at S (store t i e T) s' r u \<longleftrightarrow> at S T s' r u \<or> s' = s \<and> r = p @ [i] \<and> u = a" for u
      by (rule at_add [OF ok t e a])
    have w: "walk T0 s' r = Some u \<longleftrightarrow> at S T0 s' r u" for T0 u using True q r by (auto simp: at_def)
    show ?thesis
    proof (cases "s' = s \<and> r = p @ [i]")
      case same: True
      hence "walk T s' r = None" using t by (simp add: at_def walk_snoc)
      moreover have "walk (store t i e T) s' r = Some a" using at [of a] same w by auto
      moreover have "\<not> bit (store t i e T a j) 0" using a(2) r ta by (simp add: store_other)
      ultimately show ?thesis using q True by (simp add: view_def)
    next
      case False
      hence "walk (store t i e T) s' r = walk T s' r" using at w by (metis option.exhaust)
      moreover have "store t i e T u j = T u j" if "walk T s' r = Some u" for u
      proof -
        have "at S T s' r u" using that w by blast
        hence "u \<noteq> t" using trees_okD(2) [OF ok t(1), of s' r] t(2) q by auto
        thus ?thesis by (simp add: store_other)
      qed
      ultimately show ?thesis using q True by (auto simp: view_def split: option.splits)
    qed
  qed (auto simp: view_def)
qed

text \<open>Cutting off a table without entries.\<close>

lemma at_cut:
  assumes ok: "trees_ok S T P" and t: "at S T s p t" "length p < 3" "upath (p @ [i])"
    and a: "at S T s (p @ [i]) a" "\<forall>i < 512. \<not> bit (T a i) 0"
  shows "at S (store t i 0 T) s' q u \<longleftrightarrow> at S T s' q u \<and> u \<noteq> a"
proof (cases "s' = s \<and> (\<exists>r. q = p @ i # r)")
  case True
  then obtain r where q: "s' = s" "q = (p @ [i]) @ r" by auto
  have "\<not> at S (store t i 0 T) s' q u" using q walk_through [OF ok t(1), of i 0 r] by (simp add: at_def)
  moreover have "u = a" if u: "at S T s' q u"
  proof -
    have "list_all (\<lambda>i. i < 512) r" using u q by (simp add: at_def upath_def)
    moreover have "walk T s q = walk T a r" using a(1) q(2) by (simp only: at_def walk_append [of T s "p @ [i]"] option.case)
    ultimately show ?thesis using u a(2) q(1) by (auto simp: at_def walk_zero split: if_splits)
  qed
  ultimately show ?thesis by blast
next
  case False
  have "at S (store t i 0 T) s' q u = at S T s' q u"
    using walk_store_other [OF ok t(1) _ _ _ False] by (auto simp: at_def)
  moreover have "u \<noteq> a" if "at S T s' q u"
    using trees_okD(2) [OF ok a(1), of s' q] that False by auto
  ultimately show ?thesis by blast
qed

lemma trees_cut:
  assumes ok: "trees_ok S T P" and t: "at S T s p t" "length p < 3" "upath (p @ [i])"
    and a: "at S T s (p @ [i]) a" "\<forall>i < 512. \<not> bit (T a i) 0"
  shows "trees_ok S (store t i 0 T) (P - {a})"
proof -
  note at = at_cut [OF ok t a]
  have "\<not> bit (store t i 0 T u j) 7"
    if u: "at S T s' q u" "length q < 3" "upath (q @ [j])" "bit (store t i 0 T u j) 0" for s' q u j
  proof (cases "u = t \<and> j = i")
    case False
    hence "store t i 0 T u j = T u j" by (rule store_other)
    thus ?thesis using u trees_okD(3) [OF ok u(1-3)] by simp
  qed auto
  thus ?thesis using trees_okD(1,2) [OF ok] unfolding trees_ok_def at by blast
qed

lemma view_cut:
  assumes ok: "trees_ok S T P" and t: "at S T s p t" "length p < 3" "upath (p @ [i])"
    and a: "at S T s (p @ [i]) a" "\<forall>i < 512. \<not> bit (T a i) 0"
  shows "view S (store t i 0 T) = view S T"
proof (rule ext, clarify)
  fix s' q
  show "view S (store t i 0 T) (s', q) = view S T (s', q)"
  proof (cases "s' \<in> S \<and> upath q \<and> length q = 4")
    case True
    then obtain r j where q: "q = r @ [j]" "length r = 3" by (cases q rule: rev_cases) auto
    have r: "upath r" "j < 512" using True q by (auto simp: upath_snoc split: if_splits)
    have w: "walk T0 s' r = Some u \<longleftrightarrow> at S T0 s' r u" for T0 u using True q r by (auto simp: at_def)
    have at: "at S (store t i 0 T) s' r u \<longleftrightarrow> at S T s' r u \<and> u \<noteq> a" for u by (rule at_cut [OF ok t a])
    show ?thesis
    proof (cases "walk T s' r")
      case None
      hence "walk (store t i 0 T) s' r = None" using at w by (metis option.exhaust option.distinct(1))
      thus ?thesis using None q True by (simp add: view_def)
    next
      case (Some u)
      have u: "at S T s' r u" using Some w by blast
      have "u \<noteq> t" using trees_okD(2) [OF ok t(1), of s' r] u t(2) q by auto
      hence same: "store t i 0 T u j = T u j" by (simp add: store_other)
      show ?thesis
      proof (cases "u = a")
        case True
        hence "\<not> bit (T u j) 0" using a(2) r by simp
        hence "view S T (s', q) = None" using Some q by (simp add: view_def)
        moreover have "view S (store t i 0 T) (s', q) = None"
        proof -
          have "walk (store t i 0 T) s' r = None"
            using at w Some \<open>u = a\<close> by (metis option.exhaust option.inject)
          thus ?thesis using q by (simp add: view_def)
        qed
        ultimately show ?thesis by simp
      next
        case False
        hence "walk (store t i 0 T) s' r = Some u" using at u w by blast
        thus ?thesis using Some same q by (simp add: view_def)
      qed
    qed
  qed (auto simp: view_def)
qed

end
