(* ===== verification/Paging_Maps.thy ===== *)
theory Paging_Maps
  imports Paging_Walk
begin

text \<open>
  The invariant of the address spaces (\<open>vm_inv\<close>): the trees are disjoint and made of table pages, user
  entries point to pages of user data, and the reference count of such a page is the number of entries
  that point to it. \<open>mm_map_get\<close>, \<open>mm_map_single\<close> and \<open>mm_umap_single\<close> then are lookup, update and
  removal on the partial map \<open>view\<close>.
\<close>

section \<open>Reference counts\<close>

definition data_set :: "phys \<Rightarrow> nat set" where
  "data_set ph = used_set ph PU_PRIVATE \<union> used_set ph PU_SHARED"

definition mapped :: "('x \<Rightarrow> 64 word option) \<Rightarrow> nat \<Rightarrow> 'x set" where
  "mapped V k = {x. \<exists>e. V x = Some e \<and> frame e = k}"

abbreviation refcount :: "phys \<Rightarrow> nat \<Rightarrow> nat" where
  "refcount ph k \<equiv> pg_refcount (mm_pages ph k)"

definition refs_ok :: "('x \<Rightarrow> 64 word option) \<Rightarrow> phys \<Rightarrow> bool" where
  "refs_ok V ph \<longleftrightarrow> (\<forall>x e. V x = Some e \<longrightarrow> frame e \<in> data_set ph)
     \<and> (\<forall>k \<in> data_set ph. refcount ph k = card (mapped V k))"

definition vm_inv :: "nat set \<Rightarrow> table_map \<Rightarrow> phys \<Rightarrow> bool" where
  "vm_inv S T ph \<longleftrightarrow> phys_inv ph \<and> trees_ok S T (owned_pages PU_PAGING ph) \<and> refs_ok (view S T) ph"

lemma vm_invD:
  "vm_inv S T ph \<Longrightarrow> phys_inv ph" "vm_inv S T ph \<Longrightarrow> trees_ok S T (owned_pages PU_PAGING ph)"
  "vm_inv S T ph \<Longrightarrow> refs_ok (view S T) ph"
  by (simp_all add: vm_inv_def)

lemma mapped_upd_Some: "V x = None \<Longrightarrow> mapped (V(x \<mapsto> e)) k = (if frame e = k then insert x (mapped V k) else mapped V k)"
  by (auto simp: mapped_def)

lemma mapped_upd_None: "mapped (V(x := None)) k = mapped V k - {x}"
  by (auto simp: mapped_def)

lemma mapped_retag: "V x = Some e \<Longrightarrow> frame e' = frame e \<Longrightarrow> mapped (V(x \<mapsto> e')) k = mapped V k"
  by (auto simp: mapped_def)

lemma data_setD: "k \<in> data_set ph \<Longrightarrow> k < PHYS_MAX_PAGES \<and> LOW_PAGE \<le> k \<and> pg_alloc (mm_pages ph k)"
  by (auto simp: data_set_def used_set_def)

lemma owned_pages_bound: "owned_pages u ph \<subseteq> (\<lambda>i. i * MM_PAGE_SIZE) ` {..<PHYS_MAX_PAGES}"
  by (auto simp: owned_pages_def used_set_def)

lemma card_owned_pages: "finite (owned_pages u ph) \<and> card (owned_pages u ph) \<le> PHYS_MAX_PAGES"
proof -
  have "card (owned_pages u ph) \<le> card ((\<lambda>i. i * MM_PAGE_SIZE) ` {..<PHYS_MAX_PAGES})"
    by (rule card_mono [OF _ owned_pages_bound]) simp
  also have "\<dots> \<le> PHYS_MAX_PAGES" using card_image_le [of "{..<PHYS_MAX_PAGES}"] by simp
  finally show ?thesis using finite_subset [OF owned_pages_bound] by simp
qed

text \<open>The counts stay far below the value that marks reserved pages.\<close>

lemma mapped_view_bound:
  assumes "trees_ok S T (owned_pages u ph)"
  shows "finite (mapped (view S T) k)" "Suc (card (mapped (view S T) k)) < REFCOUNT_RESERVED"
proof -
  let ?D = "S \<times> {p. upath p \<and> length p = 4}"
  have sub: "mapped (view S T) k \<subseteq> ?D" by (auto simp: mapped_def dest: view_SomeD)
  have S: "finite S" "card S \<le> PHYS_MAX_PAGES"
    using trees_roots [OF assms] card_owned_pages [of u ph] card_mono [of "owned_pages u ph" S]
    by (auto intro: finite_subset)
  hence fin: "finite ?D" by (simp add: finite_upaths)
  show "finite (mapped (view S T) k)" by (rule finite_subset [OF sub fin])
  have "card (mapped (view S T) k) \<le> card S * card {p. upath p \<and> length p = 4}"
    using card_mono [OF fin sub] by (simp add: card_cartesian_product)
  also have "\<dots> \<le> PHYS_MAX_PAGES * 512 ^ 4" using S(2) card_upaths [of 4] by (rule mult_le_mono)
  finally have "card (mapped (view S T) k) \<le> PHYS_MAX_PAGES * 512 ^ 4" .
  moreover have "Suc (PHYS_MAX_PAGES * 512 ^ 4) < REFCOUNT_RESERVED"
    by (simp add: PHYS_MAX_PAGES_def REFCOUNT_RESERVED_def)
  ultimately show "Suc (card (mapped (view S T) k)) < REFCOUNT_RESERVED" by linarith
qed

definition set_refs :: "nat \<Rightarrow> nat \<Rightarrow> phys \<Rightarrow> phys" where
  "set_refs k n ph = ph\<lparr>mm_pages := (mm_pages ph)(k := (mm_pages ph k)\<lparr>pg_refcount := n\<rparr>)\<rparr>"

lemma mm_pages_set_refs [simp]:
  "mm_pages (set_refs k n ph) k = (mm_pages ph k)\<lparr>pg_refcount := n\<rparr>"
  "k' \<noteq> k \<Longrightarrow> mm_pages (set_refs k n ph) k' = mm_pages ph k'"
  "ph_pages_free (set_refs k n ph) = ph_pages_free ph"
  by (simp_all add: set_refs_def)

lemma used_set_set_refs:
  assumes "k \<in> data_set ph" "n \<noteq> REFCOUNT_RESERVED"
  shows "used_set (set_refs k n ph) u = used_set ph u" "free_set (set_refs k n ph) = free_set ph"
  using assms by (auto simp: used_set_def free_set_def set_refs_def data_set_def pg_alloc_def)

lemma phys_inv_set_refs:
  assumes inv: "phys_inv ph" and k: "k \<in> data_set ph" "n \<noteq> REFCOUNT_RESERVED"
  shows "phys_inv (set_refs k n ph)"
proof -
  note sets = used_set_set_refs [OF k]
  have kk: "LOW_PAGE \<le> k" "pg_alloc (mm_pages ph k)" using data_setD [OF k(1)] by auto
  have "pg_alloc (mm_pages (set_refs k n ph) j) = pg_alloc (mm_pages ph j)" for j
    by (simp add: set_refs_def pg_alloc_def)
  thus ?thesis using inv kk unfolding phys_inv_def sets by (auto simp: set_refs_def)
qed

lemma owned_set_refs:
  assumes k: "k \<in> data_set ph" "n \<noteq> REFCOUNT_RESERVED"
  shows "owned_pages PU_PAGING (set_refs k n ph) = owned_pages PU_PAGING ph"
proof -
  have "k \<notin> used_set ph PU_PAGING" using k by (auto simp: data_set_def used_set_def)
  hence "{i \<in> used_set ph PU_PAGING. refcount (set_refs k n ph) i = 0} = {i \<in> used_set ph PU_PAGING. refcount ph i = 0}"
    by (auto simp: set_refs_def)
  thus ?thesis by (simp only: owned_pages_def used_set_set_refs [OF k])
qed

lemma data_set_set_refs: "k \<in> data_set ph \<Longrightarrow> n \<noteq> REFCOUNT_RESERVED \<Longrightarrow> data_set (set_refs k n ph) = data_set ph"
  by (simp add: data_set_def used_set_set_refs)

lemma refs_map:
  assumes ok: "refs_ok V ph" and x: "V x = None" and k: "frame e \<in> data_set ph" "finite (mapped V (frame e))"
    and n: "n = Suc (refcount ph (frame e))" "n \<noteq> REFCOUNT_RESERVED"
  shows "refs_ok (V(x \<mapsto> e)) (set_refs (frame e) n ph)"
proof -
  note d = data_set_set_refs [OF k(1) n(2)]
  have "x \<notin> mapped V (frame e)" using x by (auto simp: mapped_def)
  hence "refcount (set_refs (frame e) n ph) j = card (mapped (V(x \<mapsto> e)) j)" if "j \<in> data_set ph" for j
    using that ok k(2) n(1) by (cases "j = frame e") (auto simp: refs_ok_def mapped_upd_Some [where V = V and x = x, OF x])
  thus ?thesis using ok k(1) by (auto simp: refs_ok_def d)
qed

lemma refs_unmap:
  assumes ok: "refs_ok V ph" and x: "V x = Some e" and fin: "finite (mapped V (frame e))"
    and n: "n = refcount ph (frame e) - 1" "n \<noteq> REFCOUNT_RESERVED"
  shows "refs_ok (V(x := None)) (set_refs (frame e) n ph)"
proof -
  have k: "frame e \<in> data_set ph" using ok x by (auto simp: refs_ok_def)
  note d = data_set_set_refs [OF k n(2)]
  have x': "x \<in> mapped V (frame e)" "\<And>j. j \<noteq> frame e \<Longrightarrow> x \<notin> mapped V j" using x by (auto simp: mapped_def)
  hence "refcount (set_refs (frame e) n ph) j = card (mapped (V(x := None)) j)" if "j \<in> data_set ph" for j
    using that ok n(1) fin by (cases "j = frame e") (auto simp: refs_ok_def mapped_upd_None)
  thus ?thesis using ok by (auto simp: refs_ok_def d)
qed

lemma refs_retag: "refs_ok V ph \<Longrightarrow> V x = Some e \<Longrightarrow> frame e' = frame e \<Longrightarrow> refs_ok (V(x \<mapsto> e')) ph"
  by (auto simp: refs_ok_def mapped_retag)

lemma refs_pos:
  assumes "refs_ok V ph" "V x = Some e" "finite (mapped V (frame e))"
  shows "refcount ph (frame e) \<noteq> 0"
  using assms by (auto simp: refs_ok_def mapped_def card_eq_0_iff)

section \<open>Stores that keep the invariant\<close>

text \<open>Entering a page, removing one, changing the access bits of one.\<close>

lemma vm_inv_map:
  assumes inv: "vm_inv S T ph" and t: "at S T s p t" "length p = 3" "i < 512" "\<not> bit (T t i) 0"
    and e: "bit e 0" "frame e \<in> data_set ph"
  shows "vm_inv S (store t i e T) (set_refs (frame e) (Suc (refcount ph (frame e))) ph)"
    and "view S (store t i e T) = (view S T)((s, p @ [i]) \<mapsto> e)"
    and "view S T (s, p @ [i]) = None"
    and "Suc (refcount ph (frame e)) \<noteq> REFCOUNT_RESERVED"
proof -
  note ok = vm_invD(2) [OF inv]
  have up: "upath (p @ [i])" "s \<in> S" "walk T s p = Some t" using t by (auto simp: at_def upath_snoc)
  show none: "view S T (s, p @ [i]) = None" using t up by (simp add: view_snoc)
  have rc: "refcount ph (frame e) = card (mapped (view S T) (frame e))"
    using vm_invD(3) [OF inv] e(2) by (simp add: refs_ok_def)
  show n: "Suc (refcount ph (frame e)) \<noteq> REFCOUNT_RESERVED"
    using mapped_view_bound(2) [OF ok, of "frame e"] rc by simp
  show v: "view S (store t i e T) = (view S T)((s, p @ [i]) \<mapsto> e)"
    using view_store_leaf [OF ok t(1-3), of e] e(1) by simp
  have "trees_ok S (store t i e T) (owned_pages PU_PAGING (set_refs (frame e) (Suc (refcount ph (frame e))) ph))"
    using trees_store_leaf [OF ok t(1,2)] by (simp add: owned_set_refs [OF e(2) n])
  thus "vm_inv S (store t i e T) (set_refs (frame e) (Suc (refcount ph (frame e))) ph)"
    using refs_map [OF vm_invD(3) [OF inv] none e(2) mapped_view_bound(1) [OF ok] refl n]
      phys_inv_set_refs [OF vm_invD(1) [OF inv] e(2) n] by (simp add: vm_inv_def v)
qed

lemma vm_inv_unmap:
  assumes inv: "vm_inv S T ph" and t: "at S T s p t" "length p = 3" "i < 512" "bit (T t i) 0"
  shows "vm_inv S (store t i 0 T) (set_refs (frame (T t i)) (refcount ph (frame (T t i)) - 1) ph)"
    and "view S (store t i 0 T) = (view S T)((s, p @ [i]) := None)"
    and "view S T (s, p @ [i]) = Some (T t i)"
    and "frame (T t i) \<in> data_set ph" "refcount ph (frame (T t i)) \<noteq> 0"
    and "refcount ph (frame (T t i)) - 1 \<noteq> REFCOUNT_RESERVED"
proof -
  note ok = vm_invD(2) [OF inv]
  let ?e = "T t i"
  have up: "upath (p @ [i])" "s \<in> S" "walk T s p = Some t" using t by (auto simp: at_def upath_snoc)
  show some: "view S T (s, p @ [i]) = Some ?e" using t up by (simp add: view_snoc)
  show k: "frame ?e \<in> data_set ph" using vm_invD(3) [OF inv] some by (auto simp: refs_ok_def)
  show "refcount ph (frame ?e) \<noteq> 0" by (rule refs_pos [OF vm_invD(3) [OF inv] some mapped_view_bound(1) [OF ok]])
  have rc: "refcount ph (frame ?e) = card (mapped (view S T) (frame ?e))"
    using vm_invD(3) [OF inv] k by (simp add: refs_ok_def)
  show n: "refcount ph (frame ?e) - 1 \<noteq> REFCOUNT_RESERVED"
    using mapped_view_bound(2) [OF ok, of "frame ?e"] rc by simp
  show v: "view S (store t i 0 T) = (view S T)((s, p @ [i]) := None)"
    using view_store_leaf [OF ok t(1-3), of 0] by simp
  have "trees_ok S (store t i 0 T) (owned_pages PU_PAGING (set_refs (frame ?e) (refcount ph (frame ?e) - 1) ph))"
    using trees_store_leaf [OF ok t(1,2)] by (simp only: owned_set_refs [OF k n])
  thus "vm_inv S (store t i 0 T) (set_refs (frame ?e) (refcount ph (frame ?e) - 1) ph)"
    using refs_unmap [OF vm_invD(3) [OF inv] some mapped_view_bound(1) [OF ok] refl n]
      phys_inv_set_refs [OF vm_invD(1) [OF inv] k n] by (simp add: vm_inv_def v)
qed

lemma vm_inv_retag:
  assumes inv: "vm_inv S T ph" and t: "at S T s p t" "length p = 3" "i < 512" "bit (T t i) 0"
    and e: "bit e 0" "frame e = frame (T t i)"
  shows "vm_inv S (store t i e T) ph" "view S (store t i e T) = (view S T)((s, p @ [i]) \<mapsto> e)"
proof -
  note ok = vm_invD(2) [OF inv]
  have up: "upath (p @ [i])" "s \<in> S" "walk T s p = Some t" using t by (auto simp: at_def upath_snoc)
  have some: "view S T (s, p @ [i]) = Some (T t i)" using t up by (simp add: view_snoc)
  show v: "view S (store t i e T) = (view S T)((s, p @ [i]) \<mapsto> e)"
    using view_store_leaf [OF ok t(1-3), of e] e(1) by simp
  show "vm_inv S (store t i e T) ph"
    using refs_retag [OF vm_invD(3) [OF inv] some e(2)] trees_store_leaf [OF ok t(1,2)] vm_invD(1) [OF inv]
    by (simp add: vm_inv_def v)
qed

text \<open>Taking a page for a table or for data.\<close>

definition kern_same :: "phys \<Rightarrow> phys \<Rightarrow> bool" where
  "kern_same ph ph' \<longleftrightarrow> used_set ph' PU_KERNEL = used_set ph PU_KERNEL
     \<and> (\<forall>k \<in> used_set ph PU_KERNEL. mm_pages ph' k = mm_pages ph k)"

lemma kern_same_refl [simp]: "kern_same ph ph" by (simp add: kern_same_def)

lemma kern_same_trans: "kern_same ph ph1 \<Longrightarrow> kern_same ph1 ph2 \<Longrightarrow> kern_same ph ph2"
  by (simp add: kern_same_def)

lemma kern_same_refs: "k \<in> data_set ph \<Longrightarrow> kern_same ph (set_refs k n ph)"
  by (auto simp: kern_same_def set_refs_def data_set_def used_set_def)

definition data_same :: "phys \<Rightarrow> phys \<Rightarrow> bool" where
  "data_same ph ph' \<longleftrightarrow> (\<forall>u \<in> {PU_PRIVATE, PU_SHARED}. used_set ph' u = used_set ph u)
     \<and> (\<forall>k \<in> data_set ph. mm_pages ph' k = mm_pages ph k) \<and> kern_same ph ph'"

lemma data_same_refl [simp]: "data_same ph ph" by (simp add: data_same_def)

lemma data_sameD: "data_same ph ph' \<Longrightarrow> data_set ph' = data_set ph"
  by (simp add: data_same_def data_set_def)

lemma data_same_trans: "data_same ph ph1 \<Longrightarrow> data_same ph1 ph2 \<Longrightarrow> data_same ph ph2"
  using data_sameD [of ph ph1] kern_same_trans [of ph ph1 ph2] by (simp add: data_same_def)

lemma refs_data_same: "refs_ok V ph \<Longrightarrow> data_same ph ph' \<Longrightarrow> refs_ok V ph'"
  using data_sameD [of ph ph'] by (simp add: refs_ok_def data_same_def)

lemma took_paging:
  assumes took: "phys_took PU_PAGING {k} ph ph'"
  shows "data_same ph ph'" "owned_pages PU_PAGING ph' = insert (k * MM_PAGE_SIZE) (owned_pages PU_PAGING ph)"
    "k * MM_PAGE_SIZE \<notin> owned_pages PU_PAGING ph" "k < PHYS_MAX_PAGES"
proof -
  have k: "k \<in> free_set ph" using took by (simp add: phys_took_def)
  hence nk: "k \<notin> used_set ph u" for u by (auto simp: free_set_def used_set_def)
  show "k < PHYS_MAX_PAGES" using k by (simp add: free_set_def)
  have same: "mm_pages ph' j = mm_pages ph j" if "j \<in> used_set ph u" for j u
    using took nk [of u] that by (cases "j = k") (auto simp: phys_took_def)
  have used: "used_set ph' u = (if u = PU_PAGING then insert k (used_set ph u) else used_set ph u)" for u
    using took by (simp add: phys_took_def)
  show "data_same ph ph'" using same by (auto simp: data_same_def data_set_def kern_same_def used)
  have "{i \<in> used_set ph' PU_PAGING. refcount ph' i = 0} = insert k {i \<in> used_set ph PU_PAGING. refcount ph i = 0}"
    using took same by (auto simp: used phys_took_def)
  thus "owned_pages PU_PAGING ph' = insert (k * MM_PAGE_SIZE) (owned_pages PU_PAGING ph)"
    by (simp add: owned_pages_def)
  show "k * MM_PAGE_SIZE \<notin> owned_pages PU_PAGING ph" using nk by (auto simp: owned_pages_def MM_PAGE_SIZE_def)
qed

lemma vm_inv_add:
  fixes e f :: "64 word"
  assumes inv: "vm_inv S T ph" and took: "phys_took PU_PAGING {k} ph ph'"
    and t: "at S T s p t" "length p < 3" "upath (p @ [i])" "\<not> bit (T t i) 0"
    and f: "\<And>n. bit f n \<Longrightarrow> n < 12 \<or> n = 63" "bit f 0" "\<not> bit f 7"
    and e: "e = of_nat (k * MM_PAGE_SIZE) OR f" and T': "T' = store t i e (fill (k * MM_PAGE_SIZE) (\<lambda>_. 0) T)"
  shows "vm_inv S T' ph'" "view S T' = view S T" "at S T' s (p @ [i]) (k * MM_PAGE_SIZE)"
    "T' (k * MM_PAGE_SIZE) = (\<lambda>_. 0)" "at S T' s' q u \<longleftrightarrow> at S T s' q u \<or> s' = s \<and> q = p @ [i] \<and> u = k * MM_PAGE_SIZE"
proof -
  note new = took_paging [OF took]
  note ok = vm_invD(2) [OF inv]
  let ?a = "k * MM_PAGE_SIZE" and ?T = "fill (k * MM_PAGE_SIZE) (\<lambda>_. 0) T"
  have e': "bit e 0" "\<not> bit e 7" "pte_phys e = ?a"
    using bit_make [OF new(4), of 0 f] bit_make [OF new(4), of 7 f] f pte_phys_make [OF new(4) f(1)] by (simp_all only: e) simp
  have ta: "t \<noteq> ?a" using trees_okD(1) [OF ok t(1)] new(3) by blast
  note ok1 = trees_fresh [OF ok new(3), of "\<lambda>_. 0"]
  have at1: "at S ?T s p t" "\<not> bit (?T t i) 0" using t ta by (simp_all add: at_fresh [OF ok new(3)] fill_other)
  have zero: "\<forall>i < 512. \<not> bit (?T ?a i) 0" by simp
  note add = at_add [OF ok1 at1(1) t(2,3) at1(2) e'(1,3) new(3) zero]
  show at': "at S T' s (p @ [i]) ?a" using add by (simp add: T')
  show "T' ?a = (\<lambda>_. 0)" using ta by (auto simp: T' store_other)
  show "at S T' s' q u \<longleftrightarrow> at S T s' q u \<or> s' = s \<and> q = p @ [i] \<and> u = ?a" by (simp add: T' add at_fresh [OF ok new(3)])
  show v: "view S T' = view S T"
    using view_add [OF ok1 at1(1) t(2,3) at1(2) e'(1,3) new(3) zero] view_fresh [OF ok new(3)] by (simp add: T')
  have "trees_ok S T' (owned_pages PU_PAGING ph')"
    using trees_add [OF ok1 at1(1) t(2,3) at1(2) e' new(3) zero] by (simp add: T' new(2))
  moreover have "phys_inv ph'" using took by (simp add: phys_took_def)
  ultimately show "vm_inv S T' ph'"
    using refs_data_same [OF vm_invD(3) [OF inv] new(1)] by (simp add: vm_inv_def v)
qed

section \<open>Virtual addresses\<close>

definition user_addr :: "64 word \<Rightarrow> bool" where
  "user_addr v \<longleftrightarrow> pml4i v < AMD64_PML4I_USER_END"

definition vpath :: "64 word \<Rightarrow> nat list" where
  "vpath v = [pml4i v, pdpti v, pdi v, pti v]"

lemma pte_index_bound: "pte_index n v < 512"
  using take_bit_nat_less_exp [of 9 "unat (drop_bit n (AMD64_MM_STRIPSX v))"]
  by (simp add: pte_index_def take_bit_eq_mask [symmetric] unsigned_take_bit_eq)

lemma stripsx_idem [simp]: "AMD64_MM_STRIPSX (AMD64_MM_STRIPSX v) = AMD64_MM_STRIPSX v"
  by (simp add: AMD64_MM_STRIPSX_def and.assoc)

lemma index_stripsx [simp]:
  "pml4i (AMD64_MM_STRIPSX v) = pml4i v" "pdpti (AMD64_MM_STRIPSX v) = pdpti v"
  "pdi (AMD64_MM_STRIPSX v) = pdi v" "pti (AMD64_MM_STRIPSX v) = pti v"
  by (simp_all add: pml4i_def pdpti_def pdi_def pti_def pte_index_def)

lemma vpath_ok [simp]: "user_addr v \<Longrightarrow> upath (vpath v)" "length (vpath v) = 4"
  by (simp_all add: vpath_def upath_def user_addr_def pml4i_def pdpti_def pdi_def pti_def pte_index_bound)

lemma upath_vpath_prefix:
  assumes "user_addr v"
  shows "upath [pml4i v]" "upath [pml4i v, pdpti v]" "upath [pml4i v, pdpti v, pdi v]" "pti v < 512"
  using vpath_ok(1) [OF assms] by (simp_all add: vpath_def upath_def)

definition page_offset :: "64 word \<Rightarrow> nat" where "page_offset v = unat (v AND mask 12)"

lemma frame_offset: "unat ((e AND MM_PTE_MASK) OR (AMD64_MM_STRIPSX v AND mask 12)) = pte_phys e + page_offset v"
proof -
  have v: "AMD64_MM_STRIPSX v AND mask 12 = v AND mask 12"
    by (rule bit_eqI) (auto simp: AMD64_MM_STRIPSX_def bit_and_iff bit_mask_iff)
  have "(e AND MM_PTE_MASK) AND (v AND mask 12) = 0"
    by (rule bit_eqI) (auto simp: bit_and_iff bit_mask_iff bit_pte_mask)
  hence "unat (e AND MM_PTE_MASK) AND unat (v AND mask 12) = 0"
    by (simp only: unsigned_and_eq [symmetric] unsigned_0)
  thus ?thesis unfolding v pte_phys_def page_offset_def unsigned_or_eq by (rule disjunctive_add_eq_or [symmetric])
qed

lemma page_offset_bound: "page_offset v < MM_PAGE_SIZE"
  using take_bit_nat_less_exp [of 12 "unat v"]
  by (simp add: page_offset_def take_bit_eq_mask [symmetric] unsigned_take_bit_eq MM_PAGE_SIZE_def)

section \<open>The operations on the map\<close>

lemma view_vpath:
  assumes "s \<in> S" "user_addr v"
  shows "view S T (s, vpath v) = (let e4 = T s (pml4i v); e3 = T (pte_phys e4) (pdpti v);
     e2 = T (pte_phys e3) (pdi v); e1 = T (pte_phys e2) (pti v) in
     if bit e4 0 \<and> bit e3 0 \<and> bit e2 0 \<and> bit e1 0 then Some e1 else None)"
  using assms(1) vpath_ok(1) [OF assms(2)] by (simp add: view_def Let_def vpath_def)

lemma no_huge:
  assumes ok: "trees_ok S T P" and s: "s \<in> S" and v: "user_addr v"
  defines "e4 \<equiv> T s (pml4i v)"
  defines "e3 \<equiv> T (pte_phys e4) (pdpti v)"
  defines "e2 \<equiv> T (pte_phys e3) (pdi v)"
  shows "bit e4 0 \<Longrightarrow> \<not> bit e4 7" "bit e4 0 \<Longrightarrow> bit e3 0 \<Longrightarrow> \<not> bit e3 7"
    "bit e4 0 \<Longrightarrow> bit e3 0 \<Longrightarrow> bit e2 0 \<Longrightarrow> \<not> bit e2 7"
    "bit e4 0 \<Longrightarrow> bit e3 0 \<Longrightarrow> bit e2 0 \<Longrightarrow> at S T s [pml4i v, pdpti v, pdi v] (pte_phys e2)"
proof -
  note up = upath_vpath_prefix [OF v]
  note a0 = at_root [OF s, of T]
  show "bit e4 0 \<Longrightarrow> \<not> bit e4 7" using trees_okD(3) [OF ok a0, of "pml4i v"] up by (simp add: e4_def)
  have a1: "at S T s [pml4i v] (pte_phys e4)" if "bit e4 0"
    using at_snoc [OF a0, of "pml4i v"] up that by (simp add: e4_def)
  show "bit e4 0 \<Longrightarrow> bit e3 0 \<Longrightarrow> \<not> bit e3 7" using trees_okD(3) [OF ok a1, of "pdpti v"] up by (simp add: e3_def)
  have a2: "at S T s [pml4i v, pdpti v] (pte_phys e3)" if "bit e4 0" "bit e3 0"
    using at_snoc [OF a1, of "pdpti v"] up that by (simp add: e3_def)
  show "bit e4 0 \<Longrightarrow> bit e3 0 \<Longrightarrow> bit e2 0 \<Longrightarrow> \<not> bit e2 7"
    using trees_okD(3) [OF ok a2, of "pdi v"] up by (simp add: e2_def)
  show "bit e4 0 \<Longrightarrow> bit e3 0 \<Longrightarrow> bit e2 0 \<Longrightarrow> at S T s [pml4i v, pdpti v, pdi v] (pte_phys e2)"
    using at_snoc [OF a2, of "pdi v"] up by (simp add: e2_def)
qed

abbreviation vm_ok :: "nat set \<Rightarrow> vm \<Rightarrow> bool" where
  "vm_ok S vm \<equiv> vm_inv S (vm_tab vm) (vm_phys vm)"

abbreviation vm_view :: "nat set \<Rightarrow> vm \<Rightarrow> nat \<times> nat list \<Rightarrow> 64 word option" where
  "vm_view S vm \<equiv> view S (vm_tab vm)"

lemma mm_map_get_view:
  assumes "vm_ok S vm" "s \<in> S" "user_addr v"
  shows "mm_map_get s v vm = Some (case vm_view S vm (s, vpath v) of
           None \<Rightarrow> (None, None)
         | Some e \<Rightarrow> (Some (pte_phys e + page_offset v), Some (e AND MM_PTE_FLAGS_MASK)))"
proof -
  note huge = no_huge [OF vm_invD(2) [OF assms(1)] assms(2,3)]
  define e4 e3 e2 e1 where "e4 = vm_tab vm s (pml4i v)" and "e3 = vm_tab vm (pte_phys e4) (pdpti v)"
    and "e2 = vm_tab vm (pte_phys e3) (pdi v)" and "e1 = vm_tab vm (pte_phys e2) (pti v)"
  note es = e4_def [symmetric] e3_def [symmetric] e2_def [symmetric] e1_def [symmetric]
  have v: "vm_view S vm (s, vpath v) = (if bit e4 0 \<and> bit e3 0 \<and> bit e2 0 \<and> bit e1 0 then Some e1 else None)"
    by (simp add: view_vpath [OF assms(2,3)] Let_def es)
  have huge: "bit e4 0 \<Longrightarrow> \<not> bit e4 7" "bit e4 0 \<Longrightarrow> bit e3 0 \<Longrightarrow> \<not> bit e3 7"
    "bit e4 0 \<Longrightarrow> bit e3 0 \<Longrightarrow> bit e2 0 \<Longrightarrow> \<not> bit e2 7" using huge(1-3) by (simp_all add: es)
  show ?thesis using huge by (simp add: mm_map_get_def v Let_def frame_offset and_BIT_eq_0 es)
qed

lemma page_div [simp]: "k * MM_PAGE_SIZE div MM_PAGE_SIZE = k"
  by (simp add: MM_PAGE_SIZE_def)

lemma get_page_data: "k < PHYS_MAX_PAGES \<Longrightarrow> get_page (k * MM_PAGE_SIZE) vm = Some (mm_pages (vm_phys vm) k)"
  by (simp add: get_page_def)

lemma page_ref_eq:
  "k < PHYS_MAX_PAGES \<Longrightarrow> page_ref (k * MM_PAGE_SIZE) vm
     = Some (vm\<lparr>vm_phys := set_refs k (Suc (refcount (vm_phys vm) k)) (vm_phys vm)\<rparr>)"
  by (simp add: page_ref_def get_page_data put_page_def set_refs_def)

lemma page_unref_eq:
  "k < PHYS_MAX_PAGES \<Longrightarrow> refcount (vm_phys vm) k \<noteq> 0 \<Longrightarrow> page_unref (k * MM_PAGE_SIZE) vm
     = Some (vm\<lparr>vm_phys := set_refs k (refcount (vm_phys vm) k - 1) (vm_phys vm)\<rparr>)"
  by (simp add: page_unref_def get_page_data put_page_def set_refs_def)

lemma mm_umap_single_view:
  assumes inv: "vm_ok S vm" and s: "s \<in> S" "user_addr v"
  shows "case vm_view S vm (s, vpath v) of
      None \<Rightarrow> mm_umap_single s v vm = Some (None, vm)
    | Some e \<Rightarrow> \<exists>vm'. mm_umap_single s v vm = Some (Some (pte_phys e), vm') \<and> vm_ok S vm'
        \<and> vm_view S vm' = (vm_view S vm)((s, vpath v) := None)
        \<and> vm_phys vm' = set_refs (frame e) (refcount (vm_phys vm) (frame e) - 1) (vm_phys vm)
        \<and> vm_mem vm' = vm_mem vm \<and> vm_kernel vm' = vm_kernel vm"
proof -
  note huge = no_huge [OF vm_invD(2) [OF inv] s]
  define e4 e3 e2 e1 where "e4 = vm_tab vm s (pml4i v)" and "e3 = vm_tab vm (pte_phys e4) (pdpti v)"
    and "e2 = vm_tab vm (pte_phys e3) (pdi v)" and "e1 = vm_tab vm (pte_phys e2) (pti v)"
  note es = e4_def [symmetric] e3_def [symmetric] e2_def [symmetric] e1_def [symmetric]
  have v: "vm_view S vm (s, vpath v) = (if bit e4 0 \<and> bit e3 0 \<and> bit e2 0 \<and> bit e1 0 then Some e1 else None)"
    by (simp add: view_vpath [OF s] Let_def es)
  have small: "bit e4 0 \<Longrightarrow> \<not> bit e4 7" "bit e4 0 \<Longrightarrow> bit e3 0 \<Longrightarrow> \<not> bit e3 7"
    "bit e4 0 \<Longrightarrow> bit e3 0 \<Longrightarrow> bit e2 0 \<Longrightarrow> \<not> bit e2 7" using huge(1-3) by (simp_all add: es)
  show ?thesis
  proof (cases "bit e4 0 \<and> bit e3 0 \<and> bit e2 0 \<and> bit e1 0")
    case False
    have "mm_umap_single s v vm = Some (None, vm)"
      using False small by (simp add: mm_umap_single_def Let_def es and_BIT_eq_0)
    moreover have "vm_view S vm (s, vpath v) = None" unfolding v using False by (simp only: if_False)
    ultimately show ?thesis by simp
  next
    case True
    let ?vm = "set_entry (pte_phys e2) (pti v) 0 vm"
    have at: "at S (vm_tab vm) s [pml4i v, pdpti v, pdi v] (pte_phys e2)" using huge(4) True by (simp add: es)
    have p: "[pml4i v, pdpti v, pdi v] @ [pti v] = vpath v" by (simp add: vpath_def)
    note un = vm_inv_unmap [OF inv at _ upath_vpath_prefix(4) [OF s(2)], unfolded es p]
    have k: "frame e1 \<in> data_set (vm_phys vm)" "refcount (vm_phys vm) (frame e1) \<noteq> 0" using un(4,5) True by auto
    have "page_unref (pte_phys e1) ?vm
        = Some (?vm\<lparr>vm_phys := set_refs (frame e1) (refcount (vm_phys vm) (frame e1) - 1) (vm_phys vm)\<rparr>)"
      using page_unref_eq [of "frame e1" ?vm] k data_setD [OF k(1)] by (simp add: pte_phys_frame [of e1])
    hence "mm_umap_single s v vm = Some (Some (pte_phys e1),
        ?vm\<lparr>vm_phys := set_refs (frame e1) (refcount (vm_phys vm) (frame e1) - 1) (vm_phys vm)\<rparr>)"
      using True small by (simp add: mm_umap_single_def Let_def es and_BIT_eq_0)
    thus ?thesis using v True un(1,2) by simp
  qed
qed

end
