(* ===== verification/Paging_Ops.thy ===== *)
theory Paging_Ops
  imports Paging_Maps
begin

text \<open>
  \<open>mm_map_single\<close> enters one page into the map and takes only the tables that are missing on the way;
  \<open>do_pfault\<close> on a shared copy-on-write page gives the faulting space a page of its own with the same
  contents.
\<close>

section \<open>Allocation\<close>

lemma alloc_frame_ok:
  assumes inv: "phys_inv (vm_phys vm)" and pu: "pu \<noteq> PU_UNKNOWN" and free: "ph_pages_free (vm_phys vm) \<noteq> 0"
  shows "\<exists>k ph. alloc_frame pu vm = Some (k * MM_PAGE_SIZE, vm\<lparr>vm_phys := ph\<rparr>) \<and> phys_took pu {k} (vm_phys vm) ph
     \<and> ph_pages_free (vm_phys vm) = Suc (ph_pages_free ph)"
proof -
  have "free_set (vm_phys vm) \<noteq> {}" using inv free by (auto simp: phys_inv_def)
  then obtain k ph where run: "mm_phys_alloc_page pu (vm_phys vm) = Some (Some (k * MM_PAGE_SIZE), ph)"
    and took: "phys_took pu {k} (vm_phys vm) ph"
    using mm_phys_alloc_page_ok [OF inv pu] by blast
  have "ph_pages_free (vm_phys vm) = Suc (ph_pages_free ph)"
  proof -
    have f: "k \<in> free_set (vm_phys vm)" "free_set ph = free_set (vm_phys vm) - {k}" "phys_inv ph"
      using took by (auto simp: phys_took_def)
    hence "ph_pages_free ph = card (free_set (vm_phys vm)) - 1" by (simp add: phys_inv_def)
    moreover have "ph_pages_free (vm_phys vm) = card (free_set (vm_phys vm))" using inv by (simp add: phys_inv_def)
    ultimately show ?thesis using free by linarith
  qed
  thus ?thesis using run took by (auto simp: alloc_frame_def)
qed

lemma pool_alloc_ok:
  assumes "phys_inv (vm_phys vm)" "ph_pages_free (vm_phys vm) \<noteq> 0"
  shows "\<exists>k ph. amd64_mm_pool_alloc vm
       = Some (k * MM_PAGE_SIZE, vm\<lparr>vm_phys := ph, vm_tab := fill (k * MM_PAGE_SIZE) (\<lambda>_. 0) (vm_tab vm)\<rparr>)
     \<and> phys_took PU_PAGING {k} (vm_phys vm) ph \<and> ph_pages_free (vm_phys vm) = Suc (ph_pages_free ph)"
proof -
  obtain k ph where "alloc_frame PU_PAGING vm = Some (k * MM_PAGE_SIZE, vm\<lparr>vm_phys := ph\<rparr>)"
    "phys_took PU_PAGING {k} (vm_phys vm) ph" "ph_pages_free (vm_phys vm) = Suc (ph_pages_free ph)"
    using alloc_frame_ok [OF assms(1) _ assms(2), of PU_PAGING] by blast
  thus ?thesis by (intro exI [of _ k] exI [of _ ph]) (simp add: amd64_mm_pool_alloc_def fill_def)
qed

section \<open>Entering a page\<close>

text \<open>The tables that are missing on the way down.\<close>

fun missing :: "table_map \<Rightarrow> nat \<Rightarrow> nat list \<Rightarrow> nat" where
  "missing T t [] = 0"
| "missing T t (i # is) = (if bit (T t i) 0 then missing T (pte_phys (T t i)) is else length (i # is))"

lemma missing_zero: "T t = (\<lambda>_. 0) \<Longrightarrow> missing T t is = length is"
  by (cases "is") auto

definition grown :: "nat set \<Rightarrow> vm \<Rightarrow> vm \<Rightarrow> bool" where
  "grown S vm vm' \<longleftrightarrow> vm_ok S vm' \<and> vm_view S vm' = vm_view S vm \<and> data_same (vm_phys vm) (vm_phys vm')
     \<and> vm_mem vm' = vm_mem vm \<and> vm_kernel vm' = vm_kernel vm"

lemma grown_trans: "grown S vm vm1 \<Longrightarrow> grown S vm1 vm2 \<Longrightarrow> grown S vm vm2"
  by (auto simp: grown_def intro: data_same_trans)

lemma user_table_flags:
  "bit (MM_PAGE_PRESENT OR MM_PAGE_USER OR MM_PAGE_WRITE) n \<Longrightarrow> n < 12 \<or> n = 63"
  "bit (MM_PAGE_PRESENT OR MM_PAGE_USER OR MM_PAGE_WRITE) 0" "\<not> bit (MM_PAGE_PRESENT OR MM_PAGE_USER OR MM_PAGE_WRITE) 7"
  by (auto simp: flag_simps)

lemma next_table_ok:
  assumes inv: "vm_ok S vm" and t: "at S (vm_tab vm) s p t" "length p < 3" "upath (p @ [i])"
    and free: "missing (vm_tab vm) t (i # is) \<le> ph_pages_free (vm_phys vm)"
  shows "\<exists>a vm'. next_table t i vm = Some (a, vm') \<and> grown S vm vm' \<and> at S (vm_tab vm') s (p @ [i]) a
     \<and> ph_pages_free (vm_phys vm) + missing (vm_tab vm') a is = ph_pages_free (vm_phys vm') + missing (vm_tab vm) t (i # is)"
proof (cases "bit (vm_tab vm t i) 0")
  case True
  thus ?thesis using inv at_snoc [OF t True] free by (simp add: next_table_def grown_def)
next
  case False
  let ?f = "MM_PAGE_PRESENT OR MM_PAGE_USER OR MM_PAGE_WRITE"
  have "ph_pages_free (vm_phys vm) \<noteq> 0" using free False by simp
  then obtain k ph where run: "amd64_mm_pool_alloc vm
       = Some (k * MM_PAGE_SIZE, vm\<lparr>vm_phys := ph, vm_tab := fill (k * MM_PAGE_SIZE) (\<lambda>_. 0) (vm_tab vm)\<rparr>)"
    and took: "phys_took PU_PAGING {k} (vm_phys vm) ph" "ph_pages_free (vm_phys vm) = Suc (ph_pages_free ph)"
    using pool_alloc_ok [OF vm_invD(1) [OF inv]] by blast
  let ?vm = "set_entry t i (of_nat (k * MM_PAGE_SIZE) OR ?f) (vm\<lparr>vm_phys := ph, vm_tab := fill (k * MM_PAGE_SIZE) (\<lambda>_. 0) (vm_tab vm)\<rparr>)"
  note add = vm_inv_add [OF inv took(1) t False user_table_flags refl refl]
  have "next_table t i vm = Some (k * MM_PAGE_SIZE, ?vm)"
    using False run by (simp add: next_table_def or.assoc)
  moreover have "grown S vm ?vm" using add(1,2) took_paging(1) [OF took(1)] by (simp add: grown_def)
  moreover have "ph_pages_free (vm_phys vm) + missing (vm_tab ?vm) (k * MM_PAGE_SIZE) is
       = ph_pages_free (vm_phys ?vm) + missing (vm_tab vm) t (i # is)"
  proof -
    have "vm_tab ?vm (k * MM_PAGE_SIZE) = (\<lambda>_. 0)" using add(4) by simp
    thus ?thesis using missing_zero [of "vm_tab ?vm" "k * MM_PAGE_SIZE" "is"] free False took(2)
      by (simp del: of_nat_mult)
  qed
  ultimately show ?thesis using add(3) by auto
qed

definition mk_pte :: "nat \<Rightarrow> 64 word \<Rightarrow> 64 word" where
  "mk_pte k flags = of_nat (k * MM_PAGE_SIZE) OR (flags AND MM_PTE_FLAGS_MASK) OR MM_PAGE_PRESENT"

lemma mk_pte:
  assumes k: "k < PHYS_MAX_PAGES"
  shows "pte_phys (mk_pte k flags) = k * MM_PAGE_SIZE" "frame (mk_pte k flags) = k" "bit (mk_pte k flags) 0"
    "0 < n \<Longrightarrow> n < 12 \<Longrightarrow> bit (mk_pte k flags) n = bit flags n"
proof -
  let ?f = "(flags AND MM_PTE_FLAGS_MASK) OR MM_PAGE_PRESENT"
  have e: "mk_pte k flags = of_nat (k * MM_PAGE_SIZE) OR ?f" by (simp add: mk_pte_def or.assoc)
  show p: "pte_phys (mk_pte k flags) = k * MM_PAGE_SIZE"
    unfolding e by (rule pte_phys_make [OF k]) (auto simp: flag_simps bit_flags_mask)
  show "frame (mk_pte k flags) = k" by (rule frame_make [OF p])
  show "bit (mk_pte k flags) 0" unfolding e by (simp add: bit_make [OF k] flag_simps)
  show "0 < n \<Longrightarrow> n < 12 \<Longrightarrow> bit (mk_pte k flags) n = bit flags n"
    unfolding e bit_make [OF k] by (simp add: flag_simps bit_flags_mask)
qed

abbreviation upper :: "64 word \<Rightarrow> nat list" where "upper v \<equiv> [pml4i v, pdpti v, pdi v]"

lemma mm_map_single_view:
  assumes inv: "vm_ok S vm" and s: "s \<in> S" "user_addr v" and none: "vm_view S vm (s, vpath v) = None"
    and k: "k \<in> data_set (vm_phys vm)" and free: "missing (vm_tab vm) s (upper v) \<le> ph_pages_free (vm_phys vm)"
  shows "\<exists>vm' ph. mm_map_single s v (k * MM_PAGE_SIZE) flags vm = Some vm' \<and> vm_ok S vm'
     \<and> vm_view S vm' = (vm_view S vm)((s, vpath v) \<mapsto> mk_pte k flags)
     \<and> data_same (vm_phys vm) ph \<and> vm_phys vm' = set_refs k (Suc (refcount (vm_phys vm) k)) ph
     \<and> vm_mem vm' = vm_mem vm \<and> vm_kernel vm' = vm_kernel vm
     \<and> ph_pages_free (vm_phys vm) = ph_pages_free (vm_phys vm') + missing (vm_tab vm) s (upper v)"
proof -
  note up = upath_vpath_prefix [OF s(2)]
  let ?m = missing
  obtain a1 vm1 where n1: "next_table s (pml4i v) vm = Some (a1, vm1)" "grown S vm vm1" "at S (vm_tab vm1) s [pml4i v] a1"
    "ph_pages_free (vm_phys vm) + ?m (vm_tab vm1) a1 [pdpti v, pdi v] = ph_pages_free (vm_phys vm1) + ?m (vm_tab vm) s (upper v)"
    using next_table_ok [OF inv at_root [OF s(1)] _ _ free] up by (simp del: missing.simps) blast
  have f1: "?m (vm_tab vm1) a1 [pdpti v, pdi v] \<le> ph_pages_free (vm_phys vm1)" using n1(4) free by linarith
  obtain a2 vm2 where n2: "next_table a1 (pdpti v) vm1 = Some (a2, vm2)" "grown S vm1 vm2" "at S (vm_tab vm2) s [pml4i v, pdpti v] a2"
    "ph_pages_free (vm_phys vm1) + ?m (vm_tab vm2) a2 [pdi v] = ph_pages_free (vm_phys vm2) + ?m (vm_tab vm1) a1 [pdpti v, pdi v]"
    using next_table_ok [OF _ n1(3) _ _ f1] n1(2) up by (simp add: grown_def del: missing.simps) blast
  have f2: "?m (vm_tab vm2) a2 [pdi v] \<le> ph_pages_free (vm_phys vm2)" using n2(4) f1 by linarith
  obtain a3 vm3 where n3: "next_table a2 (pdi v) vm2 = Some (a3, vm3)" "grown S vm2 vm3" "at S (vm_tab vm3) s (upper v) a3"
    "ph_pages_free (vm_phys vm2) + ?m (vm_tab vm3) a3 [] = ph_pages_free (vm_phys vm3) + ?m (vm_tab vm2) a2 [pdi v]"
    using next_table_ok [OF _ n2(3) _ _ f2] n2(2) up by (simp add: grown_def del: missing.simps) blast
  have used: "ph_pages_free (vm_phys vm) = ph_pages_free (vm_phys vm3) + ?m (vm_tab vm) s (upper v)"
    using n1(4) n2(4) n3(4) by (simp del: missing.simps(2))
  have g: "grown S vm vm3" using n1(2) n2(2) n3(2) grown_trans by blast
  hence inv3: "vm_ok S vm3" and ds: "data_same (vm_phys vm) (vm_phys vm3)" by (simp_all add: grown_def)
  have k3: "k \<in> data_set (vm_phys vm3)" "mm_pages (vm_phys vm3) k = mm_pages (vm_phys vm) k"
    using k ds data_sameD [OF ds] by (simp_all add: data_same_def)
  have kb: "k < PHYS_MAX_PAGES" using data_setD [OF k] by simp
  have p: "upper v @ [pti v] = vpath v" by (simp add: vpath_def)
  have "vm_view S vm3 (s, vpath v) = None" using g none by (simp add: grown_def)
  hence absent: "\<not> bit (vm_tab vm3 a3 (pti v)) 0"
    using view_snoc [of s S "upper v" "pti v" "vm_tab vm3" a3, unfolded p] n3(3) s vpath_ok(1) [OF s(2)]
    by (auto simp: at_def simp del: walk.simps split: if_splits)
  have e: "(of_nat (k * MM_PAGE_SIZE) AND MM_PAGE_MASK) OR (flags AND MM_PTE_FLAGS_MASK) OR MM_PAGE_PRESENT = mk_pte k flags"
    unfolding page_mask_addr [OF kb] mk_pte_def ..
  let ?vm = "set_entry a3 (pti v) (mk_pte k flags) (vm3\<lparr>vm_phys := set_refs k (Suc (refcount (vm_phys vm3) k)) (vm_phys vm3)\<rparr>)"
  have "page_ref (k * MM_PAGE_SIZE) vm3 = Some (vm3\<lparr>vm_phys := set_refs k (Suc (refcount (vm_phys vm3) k)) (vm_phys vm3)\<rparr>)"
    by (rule page_ref_eq [OF kb])
  hence "mm_map_single s v (k * MM_PAGE_SIZE) flags vm = Some ?vm"
    using n1(1) n2(1) n3(1) absent unfolding mm_map_single_def Let_def e by (simp add: index_stripsx del: of_nat_mult)
  moreover have "vm_ok S ?vm" "vm_view S ?vm = (vm_view S vm3)((s, vpath v) \<mapsto> mk_pte k flags)"
    using vm_inv_map(1,2) [OF inv3 n3(3) _ up(4) absent mk_pte(3) [OF kb], unfolded p mk_pte(2) [OF kb]] k3(1) by simp_all
  ultimately show ?thesis using g k3 used
    by (intro exI [of _ ?vm] exI [of _ "vm_phys vm3"]) (simp add: grown_def del: missing.simps)
qed

text \<open>With all tables in place the map of one page is total, and a page that is mapped is not mapped again.\<close>

lemma missing_mapped: "s \<in> S \<Longrightarrow> user_addr v \<Longrightarrow> view S T (s, vpath v) = Some e \<Longrightarrow> missing T s (upper v) = 0"
  by (auto simp: view_vpath Let_def split: if_splits)

lemma missing_store_leaf:
  assumes ok: "trees_ok S T P" and t: "at S T s (upper v) t"
  shows "missing (store t (pti v) e T) s (upper v) = 0"
proof -
  have "s \<in> S" "upath (upper v)" using t by (simp_all add: at_def)
  hence "walk (store t (pti v) e T) s (upper v) = Some t"
    using walk_store_leaf [OF ok t _ \<open>s \<in> S\<close>, of "upper v" "pti v" e] t by (simp add: at_def del: walk.simps)
  thus ?thesis by (simp split: if_splits)
qed

lemma mm_map_single_twice:
  assumes s: "s \<in> S" "user_addr v" and e: "vm_view S vm (s, vpath v) = Some e"
  shows "mm_map_single s v pa flags vm = None"
  using e by (auto simp: view_vpath [OF s] Let_def mm_map_single_def next_table_def split: if_splits)

section \<open>Page faults\<close>

definition user_byte :: "nat set \<Rightarrow> vm \<Rightarrow> nat \<Rightarrow> 64 word \<Rightarrow> byte option" where
  "user_byte S vm s v = map_option (\<lambda>e. vm_mem vm (pte_phys e) (page_offset v)) (vm_view S vm (s, vpath v))"

lemma stripsx_bits: "n \<le> 63 \<Longrightarrow> bit (AMD64_MM_STRIPSX v) n = (n < 48 \<and> bit v n)"
  by (auto simp: AMD64_MM_STRIPSX_def bit_and_iff bit_mask_iff)

lemma index_page_mask: "12 \<le> n \<Longrightarrow> pte_index n (v AND MM_PAGE_MASK) = pte_index n v"
proof -
  assume n: "12 \<le> n"
  have "drop_bit n (AMD64_MM_STRIPSX (v AND MM_PAGE_MASK)) AND mask 9 = drop_bit n (AMD64_MM_STRIPSX v) AND (mask 9 :: 64 word)"
    by (rule bit_eqI)
      (use n in \<open>auto simp: bit_and_iff bit_drop_bit_eq bit_mask_iff AMD64_MM_STRIPSX_def MM_PAGE_MASK_def bit_not_iff\<close>)
  thus ?thesis by (simp add: pte_index_def)
qed

lemma vpath_page_mask [simp]: "vpath (v AND MM_PAGE_MASK) = vpath v" "user_addr (v AND MM_PAGE_MASK) = user_addr v"
  "page_offset (v AND MM_PAGE_MASK) = 0"
proof -
  show "vpath (v AND MM_PAGE_MASK) = vpath v" "user_addr (v AND MM_PAGE_MASK) = user_addr v"
    by (simp_all add: vpath_def user_addr_def pml4i_def pdpti_def pdi_def pti_def index_page_mask)
  have "(v AND MM_PAGE_MASK) AND mask 12 = 0"
    by (rule bit_eqI) (auto simp: bit_and_iff bit_mask_iff MM_PAGE_MASK_def bit_not_iff)
  thus "page_offset (v AND MM_PAGE_MASK) = 0" by (simp add: page_offset_def)
qed

text \<open>Both branches of the handler unmap the page and map a page at the same address again.\<close>

lemma umap_keeps_tables:
  assumes inv: "vm_ok S vm" and s: "s \<in> S" "user_addr v" and e: "vm_view S vm (s, vpath v) = Some e"
    and run: "mm_umap_single s v vm = Some (r, vm1)"
  shows "missing (vm_tab vm1) s (upper v) = 0"
proof -
  define e4 e3 e2 where "e4 = vm_tab vm s (pml4i v)" and "e3 = vm_tab vm (pte_phys e4) (pdpti v)"
    and "e2 = vm_tab vm (pte_phys e3) (pdi v)"
  note es = e4_def [symmetric] e3_def [symmetric] e2_def [symmetric]
  have b: "bit e4 0" "bit e3 0" "bit e2 0" "bit (vm_tab vm (pte_phys e2) (pti v)) 0"
    using e by (auto simp: view_vpath [OF s] Let_def es split: if_splits)
  note huge = no_huge [OF vm_invD(2) [OF inv] s, unfolded es]
  have "vm_tab vm1 = store (pte_phys e2) (pti v) 0 (vm_tab vm)"
    using run b huge(1-3)
    by (auto simp: mm_umap_single_def Let_def es and_BIT_eq_0 page_unref_def put_page_def split: Option.bind_splits)
  thus ?thesis using missing_store_leaf [OF vm_invD(2) [OF inv] huge(4) [OF b(1-3)], of 0] by (simp only:)
qed

lemma remap_ok:
  assumes inv: "vm_ok S vm" and s: "s \<in> S" "user_addr v" and e: "vm_view S vm (s, vpath v) = Some e"
    and k: "k \<in> data_set (vm_phys vm)"
  shows "\<exists>vm1 vm2. mm_umap_single s v vm = Some (Some (pte_phys e), vm1)
     \<and> mm_map_single s v (k * MM_PAGE_SIZE) flags vm1 = Some vm2 \<and> vm_ok S vm2
     \<and> vm_view S vm2 = (vm_view S vm)((s, vpath v) \<mapsto> mk_pte k flags)
     \<and> data_set (vm_phys vm2) = data_set (vm_phys vm) \<and> vm_mem vm2 = vm_mem vm"
proof -
  obtain vm1 where vm1: "mm_umap_single s v vm = Some (Some (pte_phys e), vm1)" "vm_ok S vm1"
    "vm_view S vm1 = (vm_view S vm)((s, vpath v) := None)"
    "vm_phys vm1 = set_refs (frame e) (refcount (vm_phys vm) (frame e) - 1) (vm_phys vm)" "vm_mem vm1 = vm_mem vm"
    using mm_umap_single_view [OF inv s] e by auto
  have fe: "frame e \<in> data_set (vm_phys vm)" using vm_invD(3) [OF inv] e by (auto simp: refs_ok_def)
  have "refcount (vm_phys vm) (frame e) = card (mapped (vm_view S vm) (frame e))"
    using vm_invD(3) [OF inv] fe by (simp add: refs_ok_def)
  hence "refcount (vm_phys vm) (frame e) - 1 \<noteq> REFCOUNT_RESERVED"
    using mapped_view_bound(2) [OF vm_invD(2) [OF inv], of "frame e"] by simp
  hence ds: "data_set (vm_phys vm1) = data_set (vm_phys vm)" using data_set_set_refs [OF fe] vm1(4) by simp
  have "missing (vm_tab vm1) s (upper v) \<le> ph_pages_free (vm_phys vm1)"
    using umap_keeps_tables [OF inv s e vm1(1)] by (simp only: le0)
  then obtain vm2 ph where vm2: "mm_map_single s v (k * MM_PAGE_SIZE) flags vm1 = Some vm2" "vm_ok S vm2"
    "vm_view S vm2 = (vm_view S vm1)((s, vpath v) \<mapsto> mk_pte k flags)" "data_same (vm_phys vm1) ph"
    "vm_phys vm2 = set_refs k (Suc (refcount (vm_phys vm1) k)) ph" "vm_mem vm2 = vm_mem vm1"
    using mm_map_single_view [OF vm1(2) s, of k flags] k vm1(3) ds by auto
  have k1: "k \<in> data_set (vm_phys vm1)" using k ds by simp
  have "refcount (vm_phys vm1) k = card (mapped (vm_view S vm1) k)"
    using vm_invD(3) [OF vm1(2)] k1 by (simp add: refs_ok_def)
  hence "Suc (refcount (vm_phys vm1) k) \<noteq> REFCOUNT_RESERVED"
    using mapped_view_bound(2) [OF vm_invD(2) [OF vm1(2)], of k] by simp
  hence "data_set (vm_phys vm2) = data_set (vm_phys vm)"
    using vm2(4,5) data_sameD [OF vm2(4)] data_set_set_refs [of k ph] k1 ds by simp
  thus ?thesis using vm1 vm2 by auto
qed

text \<open>A fresh page for data leaves all maps as they are.\<close>

lemma took_data:
  assumes inv: "vm_inv S T ph" and took: "phys_took pu {k} ph ph'" and pu: "pu = PU_PRIVATE \<or> pu = PU_SHARED"
  shows "vm_inv S T ph'" "k \<in> data_set ph'" "k \<notin> data_set ph" "data_set ph \<subseteq> data_set ph'"
proof -
  have used: "used_set ph' u = (if u = pu then insert k (used_set ph u) else used_set ph u)" for u
    using took by (simp add: phys_took_def)
  have free: "k \<in> free_set ph" using took by (simp add: phys_took_def)
  hence nk: "k \<notin> used_set ph u" for u by (auto simp: free_set_def used_set_def)
  have same: "mm_pages ph' j = mm_pages ph j" if "j \<noteq> k" for j using took that by (simp add: phys_took_def)
  show d: "k \<in> data_set ph'" "k \<notin> data_set ph" "data_set ph \<subseteq> data_set ph'"
    using pu nk by (auto simp: data_set_def used)
  have d': "data_set ph' = insert k (data_set ph)" using pu by (auto simp: data_set_def used)
  have "{i \<in> used_set ph' PU_PAGING. refcount ph' i = 0} = {i \<in> used_set ph PU_PAGING. refcount ph i = 0}"
    using pu nk same by (auto simp: used) metis+
  hence own: "owned_pages PU_PAGING ph' = owned_pages PU_PAGING ph" by (simp only: owned_pages_def)
  have "mapped (view S T) k = {}"
    using vm_invD(3) [OF inv] d(2) by (auto simp: refs_ok_def mapped_def)
  moreover have "refcount ph' k = 0" using took by (simp add: phys_took_def)
  moreover have "refcount ph' j = card (mapped (view S T) j)" if "j \<in> data_set ph" for j
    using that vm_invD(3) [OF inv] d(2) same by (metis refs_ok_def)
  ultimately have "refs_ok (view S T) ph'"
    using vm_invD(3) [OF inv] by (auto simp: refs_ok_def d')
  moreover have "phys_inv ph'" using took by (simp add: phys_took_def)
  ultimately show "vm_inv S T ph'" using vm_invD(2) [OF inv] by (simp add: vm_inv_def own)
qed

end
