(* ===== verification/Paging_Demo.thy ===== *)
theory Paging_Demo
  imports Paging_Ops
begin

text \<open>
  A small concrete state: two address spaces, at pages 256 and 257, the first with its lowest page mapped to
  frame 258 through the tables at pages 259 to 261, with access bits that are a parameter, and a kernel stack at pages
  300 to 303. The instances
  of the properties are taken at this state.
\<close>

definition demo_A :: nat where "demo_A = 256 * MM_PAGE_SIZE"
definition demo_B :: nat where "demo_B = 257 * MM_PAGE_SIZE"

definition demo_tab :: "64 word \<Rightarrow> table_map" where
  "demo_tab fl t i = (if i \<noteq> 0 then 0
     else if t = 256 * MM_PAGE_SIZE then mk_pte 259 (MM_PAGE_USER OR MM_PAGE_WRITE)
     else if t = 259 * MM_PAGE_SIZE then mk_pte 260 (MM_PAGE_USER OR MM_PAGE_WRITE)
     else if t = 260 * MM_PAGE_SIZE then mk_pte 261 (MM_PAGE_USER OR MM_PAGE_WRITE)
     else if t = 261 * MM_PAGE_SIZE then mk_pte 258 fl else 0)"

definition demo_vm_phys :: phys where
  "demo_vm_phys = \<lparr>mm_pages = (\<lambda>i. if i = 258 then \<lparr>pg_flags = PG_ALLOC, pg_usage = PU_PRIVATE, pg_refcount = 1\<rparr>
       else if 256 \<le> i \<and> i < 262 then \<lparr>pg_flags = PG_ALLOC, pg_usage = PU_PAGING, pg_refcount = 0\<rparr>
       else if 262 \<le> i \<and> i < 300 then \<lparr>pg_flags = 0, pg_usage = PU_UNKNOWN, pg_refcount = 0\<rparr>
       else if 300 \<le> i \<and> i < 304 then \<lparr>pg_flags = PG_ALLOC, pg_usage = PU_KERNEL, pg_refcount = 0\<rparr>
       else \<lparr>pg_flags = PG_ALLOC, pg_usage = PU_UNKNOWN, pg_refcount = REFCOUNT_RESERVED\<rparr>),
     ph_total_pages = 48, ph_pages_free = 38,
     ph_alloc_pages = (\<lambda>u. if u = PU_PRIVATE then 1 else if u = PU_PAGING then 5 else if u = PU_KERNEL then 4 else 0), ph_reserved = []\<rparr>"

definition demo_vm :: "64 word \<Rightarrow> vm" where
  "demo_vm fl = \<lparr>vm_phys = demo_vm_phys, vm_tab = demo_tab fl, vm_mem = (\<lambda>_ _. 7), vm_kernel = 0\<rparr>"

definition demo_S :: "nat set" where "demo_S = {demo_A, demo_B}"

lemma demo_sets:
  "free_set demo_vm_phys = {262..<300}" "used_set demo_vm_phys PU_PRIVATE = {258}"
  "used_set demo_vm_phys PU_PAGING = {256, 257, 259, 260, 261}" "used_set demo_vm_phys PU_KERNEL = {300..<304}"
  "u \<noteq> PU_PRIVATE \<Longrightarrow> u \<noteq> PU_PAGING \<Longrightarrow> u \<noteq> PU_KERNEL \<Longrightarrow> used_set demo_vm_phys u = {}"
  by (auto simp: free_set_def used_set_def demo_vm_phys_def pg_alloc_def flag_simps LOW_PAGE_def PHYS_MAX_PAGES_def
      REFCOUNT_RESERVED_def split: if_splits)

lemma demo_vm_phys_inv: "phys_inv demo_vm_phys"
proof -
  have "ph_alloc_pages demo_vm_phys u = card (used_set demo_vm_phys u)" for u
    using demo_sets by (cases "u = PU_PRIVATE"; cases "u = PU_PAGING"; cases "u = PU_KERNEL") (simp_all add: demo_vm_phys_def)
  moreover have "ph_pages_free demo_vm_phys = card (free_set demo_vm_phys)" by (simp add: demo_sets) (simp add: demo_vm_phys_def)
  moreover have "used_set demo_vm_phys PU_UNKNOWN = {}" by (simp add: demo_sets)
  moreover have "LOW_PAGE \<le> i \<and> pg_usage (mm_pages demo_vm_phys i) = PU_UNKNOWN \<and> refcount demo_vm_phys i = 0"
    if "\<not> pg_alloc (mm_pages demo_vm_phys i)" for i
    using that by (auto simp: demo_vm_phys_def pg_alloc_def flag_simps LOW_PAGE_def split: if_splits)
  moreover have "refcount demo_vm_phys i = REFCOUNT_RESERVED" if "i < LOW_PAGE" for i
    using that by (simp add: demo_vm_phys_def LOW_PAGE_def)
  ultimately show ?thesis unfolding phys_inv_def by blast
qed

lemma demo_data: "data_set demo_vm_phys = {258}"
  by (simp add: data_set_def demo_sets)

lemma demo_owned: "owned_pages PU_PAGING demo_vm_phys = (\<lambda>i. i * MM_PAGE_SIZE) ` {256, 257, 259, 260, 261}"
proof -
  have "{i \<in> used_set demo_vm_phys PU_PAGING. refcount demo_vm_phys i = 0} = {256, 257, 259, 260, 261}"
    unfolding demo_sets(3) by (auto simp: demo_vm_phys_def)
  thus ?thesis by (simp only: owned_pages_def)
qed

lemma demo_pte [simp]:
  "k < PHYS_MAX_PAGES \<Longrightarrow> bit (mk_pte k f) 0" "k < PHYS_MAX_PAGES \<Longrightarrow> pte_phys (mk_pte k f) = k * MM_PAGE_SIZE"
  by (simp_all add: mk_pte)

lemma page_num [simp]: "(258::nat) < PHYS_MAX_PAGES" "(259::nat) < PHYS_MAX_PAGES" "(260::nat) < PHYS_MAX_PAGES" "(261::nat) < PHYS_MAX_PAGES"
  by (simp_all add: PHYS_MAX_PAGES_def)

lemma demo_tab_simps [simp]:
  "demo_tab fl (256 * MM_PAGE_SIZE) 0 = mk_pte 259 (MM_PAGE_USER OR MM_PAGE_WRITE)"
  "demo_tab fl (259 * MM_PAGE_SIZE) 0 = mk_pte 260 (MM_PAGE_USER OR MM_PAGE_WRITE)"
  "demo_tab fl (260 * MM_PAGE_SIZE) 0 = mk_pte 261 (MM_PAGE_USER OR MM_PAGE_WRITE)"
  "demo_tab fl (261 * MM_PAGE_SIZE) 0 = mk_pte 258 fl" "demo_tab fl (257 * MM_PAGE_SIZE) i = 0" "i \<noteq> 0 \<Longrightarrow> demo_tab fl t i = 0"
  by (simp_all add: demo_tab_def MM_PAGE_SIZE_def)

definition demo_path :: "nat list \<Rightarrow> nat option" where
  "demo_path p = (if p = [] then Some 256 else if p = [0] then Some 259 else if p = [0, 0] then Some 260
     else if p = [0, 0, 0] then Some 261 else None)"

lemma demo_walk_A: "length p \<le> 3 \<Longrightarrow> walk (demo_tab fl) demo_A p = map_option (\<lambda>k. k * MM_PAGE_SIZE) (demo_path p)"
proof -
  assume "length p \<le> 3"
  then consider "p = []" | i where "p = [i]" | i j where "p = [i, j]" | i j k where "p = [i, j, k]"
    by (cases p rule: remdups_adj.cases) (auto simp: le_Suc_eq length_Suc_conv numeral_3_eq_3)
  thus ?thesis
  proof cases
    case 1 thus ?thesis by (simp add: demo_A_def demo_path_def)
  next
    case (2 i) thus ?thesis by (cases "i = 0") (simp_all add: demo_A_def demo_path_def)
  next
    case (3 i j) thus ?thesis by (cases "i = 0"; cases "j = 0") (simp_all add: demo_A_def demo_path_def)
  next
    case (4 i j k) thus ?thesis
      by (cases "i = 0"; cases "j = 0"; cases "k = 0") (simp_all add: demo_A_def demo_path_def)
  qed
qed

lemma demo_walk_B: "walk (demo_tab fl) demo_B p = (if p = [] then Some demo_B else None)"
  by (cases p) (simp_all add: demo_B_def)

lemma demo_at:
  "at demo_S (demo_tab fl) s p t \<longleftrightarrow> s = demo_A \<and> (\<exists>k. demo_path p = Some k \<and> t = k * MM_PAGE_SIZE) \<or> s = demo_B \<and> p = [] \<and> t = demo_B"
proof -
  have up: "upath p \<and> length p \<le> 3" if "demo_path p = Some k" for k
    using that by (auto simp: demo_path_def upath_def AMD64_PML4I_USER_END_def split: if_splits)
  have "demo_A \<noteq> demo_B" by (simp add: demo_A_def demo_B_def MM_PAGE_SIZE_def)
  thus ?thesis using up by (auto simp: at_def demo_S_def demo_walk_A demo_walk_B split: if_splits)
qed

lemma demo_trees: "trees_ok demo_S (demo_tab fl) (owned_pages PU_PAGING demo_vm_phys)"
  unfolding trees_ok_def demo_at
proof (intro conjI allI impI)
  show "t \<in> owned_pages PU_PAGING demo_vm_phys"
    if "s = demo_A \<and> (\<exists>k. demo_path p = Some k \<and> t = k * MM_PAGE_SIZE) \<or> s = demo_B \<and> p = [] \<and> t = demo_B" for s p t
    using that by (auto simp: demo_owned demo_path_def demo_B_def split: if_splits)
  fix s p s' p' t
  assume a: "s = demo_A \<and> (\<exists>k. demo_path p = Some k \<and> t = k * MM_PAGE_SIZE) \<or> s = demo_B \<and> p = [] \<and> t = demo_B"
    and b: "s' = demo_A \<and> (\<exists>k. demo_path p' = Some k \<and> t = k * MM_PAGE_SIZE) \<or> s' = demo_B \<and> p' = [] \<and> t = demo_B"
  show "s = s'" "p = p'"
    using a b by (auto simp: demo_path_def demo_B_def MM_PAGE_SIZE_def split: if_splits)
next
  fix s p t i
  assume a: "s = demo_A \<and> (\<exists>k. demo_path p = Some k \<and> t = k * MM_PAGE_SIZE) \<or> s = demo_B \<and> p = [] \<and> t = demo_B"
    and p: "length p < 3"
  have small: "\<not> bit (mk_pte k (MM_PAGE_USER OR MM_PAGE_WRITE)) 7" if "k < PHYS_MAX_PAGES" for k
    using mk_pte(4) [OF that, of 7 "MM_PAGE_USER OR MM_PAGE_WRITE"] by (simp add: flag_simps)
  show "\<not> bit (demo_tab fl t i) 7"
  proof (cases "i = 0")
    case True
    show ?thesis using a p small [of 259] small [of 260] small [of 261] True
      by (auto simp: demo_path_def demo_B_def split: if_splits)
  qed simp
qed

lemma demo_view: "view demo_S (demo_tab fl) = (\<lambda>x. if x = (demo_A, [0, 0, 0, 0]) then Some (mk_pte 258 fl) else None)"
proof (rule ext, clarify)
  fix s p
  show "view demo_S (demo_tab fl) (s, p) = (if (s, p) = (demo_A, [0, 0, 0, 0]) then Some (mk_pte 258 fl) else None)"
  proof (cases "s \<in> demo_S \<and> upath p \<and> length p = 4")
    case True
    then obtain q i where q: "p = q @ [i]" "length q = 3" by (cases p rule: rev_cases) auto
    show ?thesis
    proof (cases "s = demo_A")
      case A: True
      show ?thesis using True q A demo_walk_A [of q fl]
        by (cases "q = [0, 0, 0]"; cases "i = 0") (auto simp: view_def demo_path_def split: if_splits)
    next
      case False
      hence "s = demo_B" using True by (simp add: demo_S_def)
      moreover have "q \<noteq> []" using q by auto
      ultimately show ?thesis using q False by (simp add: view_def demo_walk_B)
    qed
  next
    case False
    moreover have "(s, p) \<noteq> (demo_A, [0, 0, 0, 0])"
      using False by (auto simp: demo_S_def upath_def AMD64_PML4I_USER_END_def)
    ultimately show ?thesis by (auto simp: view_def)
  qed
qed

lemma demo_vm_ok: "vm_ok demo_S (demo_vm fl)"
proof -
  have "mapped (view demo_S (demo_tab fl)) 258 = {(demo_A, [0, 0, 0, 0])}"
    by (auto simp: mapped_def demo_view mk_pte(2))
  hence "\<forall>k \<in> data_set demo_vm_phys. refcount demo_vm_phys k = card (mapped (view demo_S (demo_tab fl)) k)"
    unfolding demo_data by (simp add: demo_vm_phys_def)
  moreover have "frame e \<in> data_set demo_vm_phys" if "view demo_S (demo_tab fl) x = Some e" for x e
    using that mk_pte(2) [of 258 fl] unfolding demo_view by (auto simp: demo_data split: if_splits)
  ultimately have "refs_ok (view demo_S (demo_tab fl)) demo_vm_phys" by (simp add: refs_ok_def)
  thus ?thesis using demo_trees demo_vm_phys_inv by (simp add: vm_inv_def demo_vm_def)
qed

lemma demo_vm_simps [simp]: "vm_phys (demo_vm fl) = demo_vm_phys" "vm_tab (demo_vm fl) = demo_tab fl" "vm_kernel (demo_vm fl) = 0"
  "ph_pages_free demo_vm_phys = 38" "refcount demo_vm_phys 258 = 1" "demo_A \<in> demo_S" "demo_B \<in> demo_S"
  by (simp_all add: demo_vm_def demo_vm_phys_def demo_S_def)

lemma demo_upper: "upper 8 = upper 0x1000"
  by (simp add: pml4i_def pdpti_def pdi_def pte_index_def AMD64_MM_STRIPSX_def mask_eq_exp_minus_1)

lemma demo_addrs [simp]:
  "vpath 8 = [0, 0, 0, 0]" "vpath 0x1000 = [0, 0, 0, 1]" "user_addr 8" "user_addr 0x1000"
  by (simp_all add: vpath_def user_addr_def pml4i_def pdpti_def pdi_def pti_def pte_index_def AMD64_MM_STRIPSX_def
      AMD64_PML4I_USER_END_def mask_eq_exp_minus_1)

end
