(* ===== verification/Paging_Fault.thy ===== *)
theory Paging_Fault
  imports Paging_Demo
begin

text \<open>
  The properties of single pages: lookup, mapping and unmapping refine operations on a partial map, and
  the write fault handler makes a copy-on-write page private without changing what any process sees.
\<close>

lemma do_pfault_copy:
  assumes inv: "vm_ok S vm" and s: "s \<in> S" "user_addr cr2" and cr2: "cr2 \<noteq> 0" "cr2 < KERNEL_VIRT_BASE"
    and w: "bit exc_no 1" and e: "vm_view S vm (s, vpath cr2) = Some e" "bit e 2" "\<not> bit e 1"
    and own: "frame e \<in> used_set (vm_phys vm) PU_PRIVATE"
  shows "do_pfault exc_no cr2 s vm = (let v = cr2 AND MM_PAGE_MASK; pa = pte_phys e in
     if 2 \<le> refcount (vm_phys vm) (frame e) then do {
       (new_phys, vm1) \<leftarrow> alloc_frame PU_PRIVATE vm;
       (old, vm2) \<leftarrow> mm_umap_single s v (vm1\<lparr>vm_mem := (vm_mem vm1)(new_phys := vm_mem vm1 pa)\<rparr>);
       kassert (old = Some pa);
       vm3 \<leftarrow> mm_map_single s v new_phys (MM_PAGE_USER OR MM_PAGE_WRITE) vm2;
       Some (0, vm3)
     } else do {
       (old, vm1) \<leftarrow> mm_umap_single s v vm;
       kassert (old = Some pa);
       vm2 \<leftarrow> mm_map_single s v pa (MM_PAGE_USER OR MM_PAGE_WRITE) vm1;
       Some (0, vm2)
     })"
proof -
  have k: "frame e \<in> data_set (vm_phys vm)" using own by (simp add: data_set_def)
  have pg: "get_page (pte_phys e) vm = Some (mm_pages (vm_phys vm) (frame e))"
    using get_page_data [of "frame e" vm] data_setD [OF k] by (simp only: pte_phys_frame [of e])
  have get: "mm_map_get s (cr2 AND MM_PAGE_MASK) vm = Some (Some (pte_phys e), Some (e AND MM_PTE_FLAGS_MASK))"
    using mm_map_get_view [OF inv s(1), of "cr2 AND MM_PAGE_MASK"] s(2) e(1) by simp
  have "(e AND MM_PTE_FLAGS_MASK) AND MM_PAGE_USER \<noteq> 0" "(e AND MM_PTE_FLAGS_MASK) AND MM_PAGE_WRITE = 0"
    using e by (simp_all add: and_BIT_eq_0 bit_and_iff bit_flags_mask)
  moreover have "refcount (vm_phys vm) (frame e) \<noteq> 0"
    by (rule refs_pos [OF vm_invD(3) [OF inv] e(1) mapped_view_bound(1) [OF vm_invD(2) [OF inv]]])
  moreover have "pg_usage (mm_pages (vm_phys vm) (frame e)) = PU_PRIVATE" using own by (simp add: used_set_def)
  moreover have "exc_no AND X86_PF_WRITE \<noteq> 0" using w by (simp add: and_BIT_eq_0)
  ultimately show ?thesis using cr2 unfolding do_pfault_def Let_def
    by (simp only: get pg if_False if_True bind.bind_lunit prod.case option.case simp_thms kassert_simps)
qed

lemma user_byte_upd:
  assumes V: "vm_view S vm' = (vm_view S vm)((s, vpath v) \<mapsto> e')" and e: "vm_view S vm (s, vpath v) = Some e"
    and same: "vm_mem vm' (pte_phys e') = vm_mem vm (pte_phys e)"
    and other: "\<And>x e1. vm_view S vm x = Some e1 \<Longrightarrow> vm_mem vm' (pte_phys e1) = vm_mem vm (pte_phys e1)"
  shows "user_byte S vm' s' v' = user_byte S vm s' v'"
proof (cases "(s', vpath v') = (s, vpath v)")
  case True
  thus ?thesis using V e same by (simp add: user_byte_def)
next
  case False
  hence "vm_view S vm' (s', vpath v') = vm_view S vm (s', vpath v')" using V by auto
  thus ?thesis using other [of "(s', vpath v')"] by (cases "vm_view S vm (s', vpath v')") (auto simp: user_byte_def)
qed

lemma fault_shared:
  assumes inv: "vm_ok S vm" and s: "s \<in> S" "user_addr v" and e: "vm_view S vm (s, vpath v) = Some e"
    and free: "ph_pages_free (vm_phys vm) \<noteq> 0"
  shows "\<exists>k vm1 vm2 vm3. alloc_frame PU_PRIVATE vm = Some (k * MM_PAGE_SIZE, vm1)
     \<and> mm_umap_single s v (vm1\<lparr>vm_mem := (vm_mem vm1)(k * MM_PAGE_SIZE := vm_mem vm1 (pte_phys e))\<rparr>) = Some (Some (pte_phys e), vm2)
     \<and> mm_map_single s v (k * MM_PAGE_SIZE) flags vm2 = Some vm3
     \<and> vm_ok S vm3 \<and> vm_view S vm3 = (vm_view S vm)((s, vpath v) \<mapsto> mk_pte k flags) \<and> k < PHYS_MAX_PAGES
     \<and> mapped (vm_view S vm3) k = {(s, vpath v)} \<and> (\<forall>s' v'. user_byte S vm3 s' v' = user_byte S vm s' v')"
proof -
  obtain k ph where a: "alloc_frame PU_PRIVATE vm = Some (k * MM_PAGE_SIZE, vm\<lparr>vm_phys := ph\<rparr>)"
    and took: "phys_took PU_PRIVATE {k} (vm_phys vm) ph"
    using alloc_frame_ok [OF vm_invD(1) [OF inv] _ free, of PU_PRIVATE] by auto
  note d = took_data [OF inv took disjI1 [OF refl]]
  have kb: "k < PHYS_MAX_PAGES" using data_setD [OF d(2)] by simp
  let ?vm = "vm\<lparr>vm_phys := ph, vm_mem := (vm_mem vm)(k * MM_PAGE_SIZE := vm_mem vm (pte_phys e))\<rparr>"
  have "vm_ok S ?vm" "vm_view S ?vm (s, vpath v) = Some e" "k \<in> data_set (vm_phys ?vm)" using d e by simp_all
  then obtain vm2 vm3 where r: "mm_umap_single s v ?vm = Some (Some (pte_phys e), vm2)"
    "mm_map_single s v (k * MM_PAGE_SIZE) flags vm2 = Some vm3" "vm_ok S vm3"
    "vm_view S vm3 = (vm_view S ?vm)((s, vpath v) \<mapsto> mk_pte k flags)" "vm_mem vm3 = vm_mem ?vm"
    using remap_ok [of S ?vm s v e k flags] s by auto
  have fresh: "frame e1 \<noteq> k" if "vm_view S vm x = Some e1" for x e1
    using vm_invD(3) [OF inv] d(3) that unfolding refs_ok_def by blast
  hence "mapped (vm_view S vm3) k = {(s, vpath v)}"
    using r(4) mk_pte(2) [OF kb] by (auto simp: mapped_def)
  moreover have "user_byte S vm3 s' v' = user_byte S vm s' v'" for s' v'
  proof (rule user_byte_upd [OF _ e])
    show "vm_view S vm3 = (vm_view S vm)((s, vpath v) \<mapsto> mk_pte k flags)" using r(4) by simp
    show "vm_mem vm3 (pte_phys (mk_pte k flags)) = vm_mem vm (pte_phys e)" using r(5) by (simp add: mk_pte(1) [OF kb])
    show "vm_mem vm3 (pte_phys e1) = vm_mem vm (pte_phys e1)" if "vm_view S vm x = Some e1" for x e1
      using r(5) fresh [OF that] by (simp add: pte_phys_frame [of e1] MM_PAGE_SIZE_def)
  qed
  ultimately show ?thesis using a r kb by auto
qed

lemma fault_owned:
  assumes inv: "vm_ok S vm" and s: "s \<in> S" "user_addr v" and e: "vm_view S vm (s, vpath v) = Some e"
    and one: "refcount (vm_phys vm) (frame e) = 1"
  shows "\<exists>vm1 vm2. mm_umap_single s v vm = Some (Some (pte_phys e), vm1)
     \<and> mm_map_single s v (pte_phys e) flags vm1 = Some vm2
     \<and> vm_ok S vm2 \<and> vm_view S vm2 = (vm_view S vm)((s, vpath v) \<mapsto> mk_pte (frame e) flags)
     \<and> mapped (vm_view S vm2) (frame e) = {(s, vpath v)} \<and> (\<forall>s' v'. user_byte S vm2 s' v' = user_byte S vm s' v')"
proof -
  have k: "frame e \<in> data_set (vm_phys vm)" using vm_invD(3) [OF inv] e by (auto simp: refs_ok_def)
  have kb: "frame e < PHYS_MAX_PAGES" using data_setD [OF k] by simp
  obtain vm1 vm2 where r: "mm_umap_single s v vm = Some (Some (pte_phys e), vm1)"
    "mm_map_single s v (pte_phys e) flags vm1 = Some vm2" "vm_ok S vm2"
    "vm_view S vm2 = (vm_view S vm)((s, vpath v) \<mapsto> mk_pte (frame e) flags)" "vm_mem vm2 = vm_mem vm"
    using remap_ok [OF inv s e k, of flags] by (auto simp: pte_phys_frame [of e, symmetric])
  have "card (mapped (vm_view S vm) (frame e)) = 1" using vm_invD(3) [OF inv] k one by (simp add: refs_ok_def)
  moreover have "(s, vpath v) \<in> mapped (vm_view S vm) (frame e)" using e by (auto simp: mapped_def)
  ultimately have "mapped (vm_view S vm) (frame e) = {(s, vpath v)}" by (auto simp: card_1_singleton_iff)
  hence "mapped (vm_view S vm2) (frame e) = {(s, vpath v)}"
    using mapped_retag [of "vm_view S vm" "(s, vpath v)" e "mk_pte (frame e) flags" "frame e", OF e] r(4) mk_pte(2) [OF kb] by simp
  moreover have "user_byte S vm2 s' v' = user_byte S vm s' v'" for s' v'
    by (rule user_byte_upd [OF r(4) e]) (simp_all add: r(5) mk_pte(1) [OF kb] pte_phys_frame [of e, symmetric])
  ultimately show ?thesis using r by auto
qed

section \<open>Properties\<close>

text \<open>
  C10: On the user half of an address space the page-table code is a partial map from pages to entries. Under
  the invariant of the tables, \<open>mm_map_get\<close> reads the map; \<open>mm_umap_single\<close> removes the entry of a mapped
  page, returns its frame and drops one reference, and does nothing for an unmapped page; \<open>mm_map_single\<close>
  enters a page that is not mapped, provided that as many pages are free as tables are missing, takes
  one reference, changes no other translation of any space, and refuses a page that is mapped. All
  of them keep the invariant: disjoint trees of table pages, and reference counts that are the number
  of entries which lead to the page.
\<close>

theorem page_map_refines:
  assumes inv: "vm_ok S vm" and s: "s \<in> S" "user_addr v"
  shows "case vm_view S vm (s, vpath v) of
      None \<Rightarrow> mm_map_get s v vm = Some (None, None) \<and> mm_umap_single s v vm = Some (None, vm)
        \<and> (\<forall>k \<in> data_set (vm_phys vm). missing (vm_tab vm) s (upper v) \<le> ph_pages_free (vm_phys vm) \<longrightarrow>
             (\<exists>vm'. mm_map_single s v (k * MM_PAGE_SIZE) flags vm = Some vm' \<and> vm_ok S vm'
                \<and> vm_view S vm' = (vm_view S vm)((s, vpath v) \<mapsto> mk_pte k flags)
                \<and> refcount (vm_phys vm') k = Suc (refcount (vm_phys vm) k) \<and> vm_mem vm' = vm_mem vm))
    | Some e \<Rightarrow> mm_map_get s v vm = Some (Some (pte_phys e + page_offset v), Some (e AND MM_PTE_FLAGS_MASK))
        \<and> mm_map_single s v pa flags vm = None
        \<and> (\<exists>vm'. mm_umap_single s v vm = Some (Some (pte_phys e), vm') \<and> vm_ok S vm'
             \<and> vm_view S vm' = (vm_view S vm)((s, vpath v) := None)
             \<and> Suc (refcount (vm_phys vm') (frame e)) = refcount (vm_phys vm) (frame e) \<and> vm_mem vm' = vm_mem vm)"
proof (cases "vm_view S vm (s, vpath v)")
  case None
  have "\<exists>vm'. mm_map_single s v (k * MM_PAGE_SIZE) flags vm = Some vm' \<and> vm_ok S vm'
     \<and> vm_view S vm' = (vm_view S vm)((s, vpath v) \<mapsto> mk_pte k flags)
     \<and> refcount (vm_phys vm') k = Suc (refcount (vm_phys vm) k) \<and> vm_mem vm' = vm_mem vm"
    if "k \<in> data_set (vm_phys vm)" "missing (vm_tab vm) s (upper v) \<le> ph_pages_free (vm_phys vm)" for k
    using mm_map_single_view [OF inv s None that, of flags] by fastforce
  thus ?thesis using None mm_map_get_view [OF inv s] mm_umap_single_view [OF inv s] by simp
next
  case (Some e)
  have "refcount (vm_phys vm) (frame e) \<noteq> 0"
    by (rule refs_pos [OF vm_invD(3) [OF inv] Some mapped_view_bound(1) [OF vm_invD(2) [OF inv]]])
  moreover have "\<exists>vm'. mm_umap_single s v vm = Some (Some (pte_phys e), vm') \<and> vm_ok S vm'
     \<and> vm_view S vm' = (vm_view S vm)((s, vpath v) := None)
     \<and> vm_phys vm' = set_refs (frame e) (refcount (vm_phys vm) (frame e) - 1) (vm_phys vm) \<and> vm_mem vm' = vm_mem vm"
    using mm_umap_single_view [OF inv s] Some by simp blast
  ultimately show ?thesis using Some mm_map_get_view [OF inv s] mm_map_single_twice [OF s Some] by force
qed

theorem page_map_refines_witness:
  "\<exists>vm'. mm_map_single demo_A 0x1000 (258 * MM_PAGE_SIZE) MM_PAGE_USER (demo_vm MM_PAGE_USER) = Some vm'
     \<and> vm_ok demo_S vm' \<and> refcount (vm_phys vm') 258 = 2"
proof -
  have "vm_view demo_S (demo_vm MM_PAGE_USER) (demo_A, vpath 0x1000) = None" by (simp add: demo_view)
  moreover have "missing (demo_tab MM_PAGE_USER) demo_A (upper 0x1000) = 0"
    by (rule missing_mapped [of _ demo_S 8 _ "mk_pte 258 MM_PAGE_USER", unfolded demo_upper]) (simp_all add: demo_view)
  ultimately show ?thesis
    using page_map_refines [OF demo_vm_ok [of MM_PAGE_USER], where s = demo_A and v = "0x1000" and flags = MM_PAGE_USER]
    by (auto simp: demo_data simp del: missing.simps)
qed

text \<open>
  C3: Copy on write isolates processes. When a process writes to a user page that is mapped read-only to a
  private frame, \<open>do_pfault\<close> succeeds (one free page is needed if the frame is shared), the page is
  writable afterwards and its frame is mapped nowhere else, no other translation changes, and every
  byte that any process can read through its address space is what it was. The vector number of a
  page fault, 14, is what the handler tests for the write flag.
\<close>

theorem cow_fault_isolates:
  assumes inv: "vm_ok S vm" and s: "s \<in> S" "user_addr cr2" and cr2: "cr2 \<noteq> 0" "cr2 < KERNEL_VIRT_BASE"
    and e: "vm_view S vm (s, vpath cr2) = Some e" "bit e 2" "\<not> bit e 1"
    and own: "frame e \<in> used_set (vm_phys vm) PU_PRIVATE"
    and free: "2 \<le> refcount (vm_phys vm) (frame e) \<Longrightarrow> ph_pages_free (vm_phys vm) \<noteq> 0"
  shows "\<exists>vm' e'. do_pfault 14 cr2 s vm = Some (0, vm') \<and> vm_ok S vm'
     \<and> vm_view S vm' = (vm_view S vm)((s, vpath cr2) \<mapsto> e') \<and> bit e' 1 \<and> bit e' 2
     \<and> mapped (vm_view S vm') (frame e') = {(s, vpath cr2)}
     \<and> (\<forall>s' v'. user_byte S vm' s' v' = user_byte S vm s' v')"
proof -
  let ?v = "cr2 AND MM_PAGE_MASK" and ?f = "MM_PAGE_USER OR MM_PAGE_WRITE"
  have w: "bit (14 :: 64 word) 1" by (simp add: bit_iff_odd)
  note run = do_pfault_copy [OF inv s cr2 w e own]
  have v: "user_addr ?v" "vpath ?v = vpath cr2" using s(2) by simp_all
  have bits: "bit (mk_pte k ?f) 1 \<and> bit (mk_pte k ?f) 2" if "k < PHYS_MAX_PAGES" for k
    using mk_pte(4) [OF that, of _ ?f] by (simp add: flag_simps)
  have k: "frame e \<in> data_set (vm_phys vm)" using own by (simp add: data_set_def)
  show ?thesis
  proof (cases "2 \<le> refcount (vm_phys vm) (frame e)")
    case True
    obtain k vm1 vm2 vm3 where r: "alloc_frame PU_PRIVATE vm = Some (k * MM_PAGE_SIZE, vm1)"
      "mm_umap_single s ?v (vm1\<lparr>vm_mem := (vm_mem vm1)(k * MM_PAGE_SIZE := vm_mem vm1 (pte_phys e))\<rparr>) = Some (Some (pte_phys e), vm2)"
      "mm_map_single s ?v (k * MM_PAGE_SIZE) ?f vm2 = Some vm3" "vm_ok S vm3"
      "vm_view S vm3 = (vm_view S vm)((s, vpath cr2) \<mapsto> mk_pte k ?f)" "k < PHYS_MAX_PAGES"
      "mapped (vm_view S vm3) k = {(s, vpath cr2)}" "\<forall>s' v'. user_byte S vm3 s' v' = user_byte S vm s' v'"
      using fault_shared [OF inv s(1) v(1) _ free [OF True], of e ?f, unfolded v(2), OF e(1)] by (elim exE conjE) (rule that)
    hence "do_pfault 14 cr2 s vm = Some (0, vm3)" using True by (simp add: run Let_def)
    thus ?thesis using r(4-8) bits mk_pte(2) [OF r(6)] by (intro exI [of _ vm3] exI [of _ "mk_pte k ?f"]) simp
  next
    case False
    have "refcount (vm_phys vm) (frame e) \<noteq> 0"
      by (rule refs_pos [OF vm_invD(3) [OF inv] e(1) mapped_view_bound(1) [OF vm_invD(2) [OF inv]]])
    hence one: "refcount (vm_phys vm) (frame e) = 1" using False by linarith
    obtain vm1 vm2 where r: "mm_umap_single s ?v vm = Some (Some (pte_phys e), vm1)"
      "mm_map_single s ?v (pte_phys e) ?f vm1 = Some vm2" "vm_ok S vm2"
      "vm_view S vm2 = (vm_view S vm)((s, vpath cr2) \<mapsto> mk_pte (frame e) ?f)"
      "mapped (vm_view S vm2) (frame e) = {(s, vpath cr2)}" "\<forall>s' v'. user_byte S vm2 s' v' = user_byte S vm s' v'"
      using fault_owned [OF inv s(1) v(1), of e ?f] e(1) one unfolding v(2) by blast
    have kb: "frame e < PHYS_MAX_PAGES" using data_setD [OF k] by simp
    have "do_pfault 14 cr2 s vm = Some (0, vm2)" using False r(1,2) by (simp add: run Let_def)
    thus ?thesis using r(3-6) bits [OF kb] mk_pte(2) [OF kb]
      by (intro exI [of _ vm2] exI [of _ "mk_pte (frame e) ?f"]) simp
  qed
qed

theorem cow_fault_isolates_witness:
  "\<exists>vm' e'. do_pfault 14 8 demo_A (demo_vm MM_PAGE_USER) = Some (0, vm')
     \<and> vm_view demo_S vm' = (vm_view demo_S (demo_vm MM_PAGE_USER))((demo_A, [0, 0, 0, 0]) \<mapsto> e') \<and> bit e' 1"
proof -
  let ?e = "mk_pte 258 MM_PAGE_USER"
  have e: "vm_view demo_S (demo_vm MM_PAGE_USER) (demo_A, vpath 8) = Some ?e" by (simp add: demo_view)
  have "bit ?e 2" "\<not> bit ?e 1"
    using mk_pte(4) [of 258 2 MM_PAGE_USER] mk_pte(4) [of 258 1 MM_PAGE_USER] by (simp_all add: flag_simps)
  moreover have "(8::64 word) < KERNEL_VIRT_BASE" by (simp add: KERNEL_VIRT_BASE_def)
  moreover have "frame ?e = 258" by (simp add: mk_pte(2))
  ultimately show ?thesis
    using cow_fault_isolates [OF demo_vm_ok [of MM_PAGE_USER], of demo_A 8 ?e] e by (fastforce simp: demo_sets)
qed

end
