(* ===== verification/Paging_Fork.thy ===== *)
theory Paging_Fork
  imports Paging_Fault
begin

text \<open>
  \<open>mm_space_fork\<close>: the four nested loops build a second tree with the same frames, and take the write
  permission from private pages in both. \<open>fork_rel\<close> says what a part of the loops has done, for the paths \<open>Q\<close>
  that it has covered.
\<close>

section \<open>The effect of a fork on the maps\<close>

definition cow :: "nat set \<Rightarrow> 64 word \<Rightarrow> 64 word" where
  "cow Pr e = (if bit e 1 \<and> frame e \<in> Pr then e AND NOT MM_PAGE_WRITE else e)"

lemma frame_and_not_write: "frame (e AND NOT MM_PAGE_WRITE) = frame e"
proof -
  have "(e AND NOT MM_PAGE_WRITE) AND MM_PTE_MASK = e AND MM_PTE_MASK"
    by (rule bit_eqI) (auto simp: flag_simps bit_pte_mask)
  thus ?thesis by (simp only: frame_def pte_phys_def)
qed

lemma cow_simps [simp]: "frame (cow Pr e) = frame e" "cow Pr (cow Pr e) = cow Pr e" "bit (cow Pr e) 0 = bit e 0"
proof -
  show f: "frame (cow Pr e) = frame e" unfolding cow_def by (split if_split) (simp only: frame_and_not_write simp_thms)
  have "\<not> bit (e AND NOT MM_PAGE_WRITE) 1" by (simp add: flag_simps)
  thus "cow Pr (cow Pr e) = cow Pr e" by (auto simp: cow_def simp del: One_nat_def)
  show "bit (cow Pr e) 0 = bit e 0" by (simp add: cow_def flag_simps)
qed

lemma pte_split: "(of_nat (pte_phys e) OR (e AND MM_PTE_FLAGS_MASK) :: 64 word) = e"
  "(of_nat (pte_phys e) OR (e AND (MM_PTE_FLAGS_MASK AND NOT MM_PAGE_WRITE)) :: 64 word) = e AND NOT MM_PAGE_WRITE"
proof -
  have p: "(of_nat (pte_phys e) :: 64 word) = e AND MM_PTE_MASK" by (simp add: pte_phys_def)
  show "(of_nat (pte_phys e) OR (e AND MM_PTE_FLAGS_MASK) :: 64 word) = e"
    unfolding p by (rule bit_eqI) (auto simp: flag_simps bit_pte_mask bit_flags_mask)
  show "(of_nat (pte_phys e) OR (e AND (MM_PTE_FLAGS_MASK AND NOT MM_PAGE_WRITE)) :: 64 word) = e AND NOT MM_PAGE_WRITE"
    unfolding p by (rule bit_eqI) (auto simp: flag_simps bit_pte_mask bit_flags_mask)
qed

definition forked :: "nat set \<Rightarrow> nat \<Rightarrow> nat \<Rightarrow> nat list set \<Rightarrow> (nat \<times> nat list \<Rightarrow> 64 word option) \<Rightarrow> nat \<times> nat list \<Rightarrow> 64 word option" where
  "forked Pr s d Q V = (\<lambda>(s', p). if (s' = s \<or> s' = d) \<and> p \<in> Q then map_option (cow Pr) (V (s, p)) else V (s', p))"

lemma forked_empty [simp]: "forked Pr s d {} V = V"
  by (auto simp: forked_def)

lemma forked_union: "forked Pr s d Q2 (forked Pr s d Q1 V) = forked Pr s d (Q1 \<union> Q2) V"
proof (rule ext, clarify)
  fix s' p
  show "forked Pr s d Q2 (forked Pr s d Q1 V) (s', p) = forked Pr s d (Q1 \<union> Q2) V (s', p)"
    by (cases "V (s, p)") (auto simp: forked_def)
qed

definition shrunk :: "phys \<Rightarrow> phys \<Rightarrow> bool" where
  "shrunk ph ph' \<longleftrightarrow> kern_same ph ph' \<and> free_set ph' \<subseteq> free_set ph"

lemma shrunk_refl [simp]: "shrunk ph ph" by (simp add: shrunk_def)

lemma shrunk_trans: "shrunk ph ph1 \<Longrightarrow> shrunk ph1 ph2 \<Longrightarrow> shrunk ph ph2"
  unfolding shrunk_def using kern_same_trans by blast

lemma shrunk_refs: "k \<in> data_set ph \<Longrightarrow> shrunk ph (set_refs k n ph)"
  by (auto simp: shrunk_def kern_same_refs) (auto simp: free_set_def set_refs_def pg_alloc_def split: if_splits)

lemma shrunk_took: "phys_took PU_PAGING {k} ph ph' \<Longrightarrow> shrunk ph ph'"
  using took_paging(1) [of k ph ph'] by (auto simp: shrunk_def data_same_def phys_took_def)

definition fork_rel :: "nat set \<Rightarrow> nat \<Rightarrow> nat \<Rightarrow> nat list set \<Rightarrow> nat \<Rightarrow> nat set \<Rightarrow> vm \<Rightarrow> vm \<Rightarrow> bool" where
  "fork_rel S s d Q m X vm vm' \<longleftrightarrow> vm_ok S vm'
     \<and> vm_view S vm' = forked (used_set (vm_phys vm) PU_PRIVATE) s d Q (vm_view S vm)
     \<and> (\<forall>u \<in> {PU_PRIVATE, PU_SHARED}. used_set (vm_phys vm') u = used_set (vm_phys vm) u)
     \<and> vm_mem vm' = vm_mem vm \<and> vm_kernel vm' = vm_kernel vm
     \<and> ph_pages_free (vm_phys vm) = ph_pages_free (vm_phys vm') + m
     \<and> owned_pages PU_PAGING (vm_phys vm) \<subseteq> owned_pages PU_PAGING (vm_phys vm')
     \<and> (\<forall>s' q u. s' \<noteq> d \<longrightarrow> at S (vm_tab vm') s' q u = at S (vm_tab vm) s' q u)
     \<and> (\<forall>q u. at S (vm_tab vm) d q u \<longrightarrow> at S (vm_tab vm') d q u)
     \<and> (\<forall>u \<in> owned_pages PU_PAGING (vm_phys vm). u \<notin> X \<longrightarrow> vm_tab vm' u = vm_tab vm u)
     \<and> shrunk (vm_phys vm) (vm_phys vm')"

lemma fork_relD:
  assumes "fork_rel S s d Q m X vm vm'"
  shows "vm_ok S vm'" "ph_pages_free (vm_phys vm) = ph_pages_free (vm_phys vm') + m"
    "s' \<noteq> d \<Longrightarrow> at S (vm_tab vm') s' q u = at S (vm_tab vm) s' q u"
    "at S (vm_tab vm) s' q u \<Longrightarrow> at S (vm_tab vm') s' q u"
    "u \<in> owned_pages PU_PAGING (vm_phys vm) \<Longrightarrow> u \<notin> X \<Longrightarrow> vm_tab vm' u = vm_tab vm u"
  using assms by (auto simp: fork_rel_def) (cases "s' = d"; simp)+

lemma fork_rel_refl: "vm_ok S vm \<Longrightarrow> fork_rel S s d {} 0 X vm vm"
  by (simp add: fork_rel_def)

lemma fork_rel_trans:
  assumes a: "fork_rel S s d Q1 m1 X1 vm vm1" and b: "fork_rel S s d Q2 m2 X2 vm1 vm2"
    and X: "\<And>u. u \<in> owned_pages PU_PAGING (vm_phys vm) \<Longrightarrow> u \<in> X1 \<union> X2 \<Longrightarrow> u \<in> X"
  shows "fork_rel S s d (Q1 \<union> Q2) (m1 + m2) X vm vm2"
proof -
  have "vm_view S vm2 = forked (used_set (vm_phys vm) PU_PRIVATE) s d (Q1 \<union> Q2) (vm_view S vm)"
    using a b by (simp add: fork_rel_def forked_union)
  moreover have "vm_tab vm2 u = vm_tab vm u" if u: "u \<in> owned_pages PU_PAGING (vm_phys vm)" "u \<notin> X" for u
  proof -
    have "u \<notin> X1" "u \<notin> X2" using u X by blast+
    moreover have "u \<in> owned_pages PU_PAGING (vm_phys vm1)" using u(1) a by (auto simp: fork_rel_def)
    ultimately show ?thesis using fork_relD(5) [OF a u(1)] fork_relD(5) [OF b] by simp
  qed
  moreover have "shrunk (vm_phys vm) (vm_phys vm2)" using a b shrunk_trans by (auto simp: fork_rel_def)
  ultimately show ?thesis using a b by (auto simp: fork_rel_def)
qed

section \<open>Paths below a table\<close>

definition below :: "nat list \<Rightarrow> nat \<Rightarrow> nat list set" where
  "below p i = {p @ i # q |q. upath (p @ i # q) \<and> length (p @ i # q) = 4}"

definition below_upto :: "nat list \<Rightarrow> nat \<Rightarrow> nat list set" where
  "below_upto p n = (\<Union>i < n. below p i)"

lemma below_upto_simps: "below_upto p 0 = {}" "below_upto p (Suc n) = below_upto p n \<union> below p n"
  by (auto simp: below_upto_def lessThan_Suc)

lemma below_snoc: "length p < 3 \<Longrightarrow> below_upto (p @ [i]) 512 = below p i"
proof (rule set_eqI)
  fix r assume p: "length p < 3"
  show "r \<in> below_upto (p @ [i]) 512 \<longleftrightarrow> r \<in> below p i"
  proof
    assume "r \<in> below p i"
    then obtain q where q: "r = p @ i # q" "upath r" "length r = 4" by (auto simp: below_def)
    then obtain j q' where jq: "q = j # q'" using p by (cases q) auto
    have "j < 512" using q(1,2) jq by (simp add: upath_def)
    thus "r \<in> below_upto (p @ [i]) 512" using q jq by (auto simp: below_upto_def below_def)
  qed (auto simp: below_upto_def below_def)
qed

lemma below_leaf: "length p = 3 \<Longrightarrow> upath (p @ [i]) \<Longrightarrow> below p i = {p @ [i]}"
  by (auto simp: below_def)

lemma view_absent:
  assumes t: "at S T s p t" and i: "\<not> bit (T t i) 0" and r: "r \<in> below p i"
  shows "view S T (s, r) = None"
proof -
  obtain q where q: "r = p @ i # q" using r by (auto simp: below_def)
  show ?thesis
  proof (cases q rule: rev_cases)
    case Nil
    thus ?thesis using t i q by (simp add: view_def at_def)
  next
    case (snoc q' j)
    have "walk T s (p @ i # q') = None" using t i by (simp add: at_def walk_append)
    thus ?thesis using q snoc by (simp add: view_def butlast_append)
  qed
qed

lemma forked_absent:
  assumes "\<And>r. r \<in> Q \<Longrightarrow> V (s, r) = None" "\<And>r. r \<in> Q \<Longrightarrow> V (d, r) = None"
  shows "forked Pr s d Q V = V"
  using assms by (auto simp: forked_def fun_eq_iff)

section \<open>The number of tables below a table\<close>

fun weight :: "table_map \<Rightarrow> nat \<Rightarrow> nat \<Rightarrow> nat \<Rightarrow> nat" where
  "weight T 0 t i = 0"
| "weight T (Suc n) t i = (if bit (T t i) 0 then Suc (\<Sum>j < 512. weight T n (pte_phys (T t i)) j) else 0)"

lemma weight_cong:
  assumes "at S T s p t" "length p + n = 3" "upath (p @ [i])"
    and same: "\<And>q u. at S T s q u \<Longrightarrow> length q < 3 \<Longrightarrow> T' u = T u"
  shows "weight T' n t i = weight T n t i"
  using assms(1-3)
proof (induction n arbitrary: p t i)
  case (Suc n)
  have t: "T' t = T t" using same Suc.prems by auto
  have "weight T' n (pte_phys (T t i)) j = weight T n (pte_phys (T t i)) j" if "bit (T t i) 0" "j < 512" for j
  proof (rule Suc.IH)
    show "at S T s (p @ [i]) (pte_phys (T t i))" using Suc.prems that by (intro at_snoc) auto
    show "length (p @ [i]) + n = 3" using Suc.prems by simp
    show "upath ((p @ [i]) @ [j])" using Suc.prems that upath_snoc [of "p @ [i]" j] by simp
  qed
  thus ?case by (simp add: t)
qed simp

section \<open>The loops\<close>

definition leaves :: "nat set \<Rightarrow> table_map \<Rightarrow> nat \<Rightarrow> nat set" where
  "leaves S T s = {u. \<exists>q. at S T s q u \<and> length q = 3}"

definition fork_step :: "nat set \<Rightarrow> nat \<Rightarrow> nat \<Rightarrow> nat \<Rightarrow> (nat \<Rightarrow> nat \<Rightarrow> nat \<Rightarrow> vm \<Rightarrow> vm kern) \<Rightarrow> bool" where
  "fork_step S s d n g \<longleftrightarrow> (\<forall>vm p a b i. vm_ok S vm \<longrightarrow> at S (vm_tab vm) s p a \<longrightarrow> at S (vm_tab vm) d p b
     \<longrightarrow> length p + n = 3 \<longrightarrow> upath (p @ [i]) \<longrightarrow> \<not> bit (vm_tab vm b i) 0
     \<longrightarrow> weight (vm_tab vm) n a i \<le> ph_pages_free (vm_phys vm)
     \<longrightarrow> (\<exists>vm'. g a b i vm = Some vm'
           \<and> fork_rel S s d (below p i) (weight (vm_tab vm) n a i) (leaves S (vm_tab vm) s \<union> {b}) vm vm'
           \<and> (\<forall>j. j \<noteq> i \<longrightarrow> vm_tab vm' b j = vm_tab vm b j)))"

lemma fork_rel_absent:
  assumes inv: "vm_ok S vm" and a: "at S (vm_tab vm) s p a" "\<not> bit (vm_tab vm a i) 0"
    and b: "at S (vm_tab vm) d p b" "\<not> bit (vm_tab vm b i) 0"
  shows "fork_rel S s d (below p i) 0 X vm vm"
proof -
  have "forked Pr s d (below p i) (vm_view S vm) = vm_view S vm" for Pr
    using view_absent [OF a] view_absent [OF b] by (rule forked_absent)
  thus ?thesis using inv by (simp add: fork_rel_def)
qed

lemma fork_rel_leaf:
  assumes inv: "vm_ok S vm" and a: "at S (vm_tab vm) s p a" and b: "at S (vm_tab vm) d p b" and p: "length p = 3" "i < 512"
    and sd: "s \<noteq> d" and pres: "bit (vm_tab vm a i) 0" "\<not> bit (vm_tab vm b i) 0"
    and e': "e' = cow (used_set (vm_phys vm) PU_PRIVATE) (vm_tab vm a i)" and k: "k = frame (vm_tab vm a i)"
    and vm': "vm_tab vm' = store a i e' (store b i e' (vm_tab vm))" "vm_mem vm' = vm_mem vm" "vm_kernel vm' = vm_kernel vm"
      "vm_phys vm' = set_refs k (Suc (refcount (vm_phys vm) k)) (vm_phys vm)"
  shows "fork_rel S s d (below p i) 0 (leaves S (vm_tab vm) s \<union> {b}) vm vm'" "j \<noteq> i \<Longrightarrow> vm_tab vm' b j = vm_tab vm b j"
proof -
  let ?T = "vm_tab vm" and ?e = "vm_tab vm a i" and ?Pr = "used_set (vm_phys vm) PU_PRIVATE"
  note ok = vm_invD(2) [OF inv]
  have ab: "a \<noteq> b" using trees_okD(2) [OF ok a, of d p] b sd by blast
  have up: "upath (p @ [i])" using a p by (auto simp: at_def upath_snoc)
  have fe: "frame e' = k" "bit e' 0" using pres k by (simp_all add: e')
  note un = vm_inv_unmap [OF inv a p pres(1)]
  have kd: "frame e' \<in> data_set (vm_phys vm)" using un(4) fe k by simp
  note m = vm_inv_map [OF inv b p pres(2) fe(2) kd, unfolded fe(1)]
  have a1: "at S (store b i e' ?T) s p a" using a by (simp add: at_store_leaf [OF ok b p(1)])
  have e1: "store b i e' ?T a i = ?e" using ab by (simp add: store_other)
  have "bit (store b i e' ?T a i) 0" "frame e' = frame (store b i e' ?T a i)" using pres fe k by (simp_all add: e1)
  note r = vm_inv_retag [OF m(1) a1 p this(1) fe(2) this(2)]
  have V: "view S (store a i e' (store b i e' ?T)) = forked ?Pr s d (below p i) (view S ?T)"
    using un(3) unfolding r(2) m(2) below_leaf [OF p(1) up]
    by (auto simp: forked_def fun_eq_iff e')
  have n: "Suc (refcount (vm_phys vm) k) \<noteq> REFCOUNT_RESERVED" using m(4) .
  have kd': "k \<in> data_set (vm_phys vm)" using kd fe by simp
  have at2: "at S (store a i e' (store b i e' ?T)) s' q u = at S ?T s' q u" for s' q u
    using at_store_leaf [OF vm_invD(2) [OF m(1)] a1 p(1)] at_store_leaf [OF ok b p(1)] by simp
  have "a \<in> leaves S ?T s" using a p by (auto simp: leaves_def)
  hence "store a i e' (store b i e' ?T) u = ?T u" if "u \<notin> leaves S ?T s" "u \<noteq> b" for u
    using that by (auto simp: store_def)
  thus "fork_rel S s d (below p i) 0 (leaves S ?T s \<union> {b}) vm vm'"
    using r(1) V unfolding fork_rel_def vm'
    by (auto simp: used_set_set_refs [OF kd' n] owned_set_refs [OF kd' n] at2 shrunk_refs [OF kd'])
  show "j \<noteq> i \<Longrightarrow> vm_tab vm' b j = ?T b j" using ab by (simp add: vm' store_other)
qed

lemma fork_page_step:
  assumes sd: "s \<noteq> d"
  shows "fork_step S s d 0 fork_page"
  unfolding fork_step_def
proof (intro allI impI)
  fix vm p a b i
  assume inv: "vm_ok S vm" and a: "at S (vm_tab vm) s p a" and b: "at S (vm_tab vm) d p b"
    and p: "length p + 0 = 3" "upath (p @ [i])" and pb: "\<not> bit (vm_tab vm b i) 0"
  let ?e = "vm_tab vm a i" and ?Pr = "used_set (vm_phys vm) PU_PRIVATE"
  let ?goal = "\<exists>vm'. fork_page a b i vm = Some vm'
     \<and> fork_rel S s d (below p i) (weight (vm_tab vm) 0 a i) (leaves S (vm_tab vm) s \<union> {b}) vm vm'
     \<and> (\<forall>j. j \<noteq> i \<longrightarrow> vm_tab vm' b j = vm_tab vm b j)"
  have p3: "length p = 3" "i < 512" using p by (auto simp: upath_snoc split: if_splits)
  show ?goal
  proof (cases "bit ?e 0")
    case False
    thus ?goal using fork_rel_absent [OF inv a False b pb] by (simp add: fork_page_def Let_def)
  next
    case True
    note un = vm_inv_unmap [OF inv a p3 True]
    let ?k = "frame ?e"
    have kb: "?k < PHYS_MAX_PAGES" using data_setD [OF un(4)] by simp
    have pg: "get_page (pte_phys ?e) vm = Some (mm_pages (vm_phys vm) ?k)"
      using get_page_data [OF kb, of vm] by (simp only: pte_phys_frame [of ?e])
    have us: "pg_usage (mm_pages (vm_phys vm) ?k) = PU_PRIVATE \<longleftrightarrow> ?k \<in> ?Pr"
      using un(4) by (auto simp: data_set_def used_set_def)
    have ab: "a \<noteq> b" using trees_okD(2) [OF vm_invD(2) [OF inv] a, of d p] b sd by blast
    define e' where "e' = cow ?Pr ?e"
    define vm' where "vm' = (set_entry a i e' (set_entry b i e' vm))\<lparr>vm_phys := set_refs ?k (Suc (refcount (vm_phys vm) ?k)) (vm_phys vm)\<rparr>"
    have ref: "page_ref (pte_phys ?e) x = Some (x\<lparr>vm_phys := set_refs ?k (Suc (refcount (vm_phys x) ?k)) (vm_phys x)\<rparr>)" for x
      using page_ref_eq [OF kb, of x] by (simp only: pte_phys_frame [of ?e])
    have "fork_page a b i vm = Some vm'"
    proof (cases "bit ?e 1 \<and> ?k \<in> ?Pr")
      case True
      have "?e AND MM_PAGE_WRITE \<noteq> 0" using True by (simp add: and_BIT_eq_0)
      moreover have "e' = ?e AND NOT MM_PAGE_WRITE" using True by (simp only: e'_def cow_def if_True simp_thms)
      moreover have "vm_tab (set_entry b i e' vm) a i = ?e" using ab by (simp add: store_other)
      ultimately show ?thesis using \<open>bit ?e 0\<close> un(5) True pte_split(2) [of ?e] us unfolding fork_page_def Let_def vm'_def
        by (simp only: pg ref present_iff if_False if_True bind.bind_lunit simp_thms kassert_simps set_entry_sel)
    next
      case False
      have "\<not> (?e AND MM_PAGE_WRITE \<noteq> 0 \<and> ?k \<in> ?Pr)" using False by (simp add: and_BIT_eq_0)
      moreover have e: "e' = ?e" using False by (simp only: e'_def cow_def if_False)
      moreover have "set_entry a i ?e (set_entry b i ?e vm) = set_entry b i ?e vm"
        using ab by (simp add: set_entry_def fun_upd_idem_iff)
      ultimately show ?thesis using \<open>bit ?e 0\<close> un(5) pte_split(1) [of ?e] us unfolding fork_page_def Let_def vm'_def
        by (simp only: pg ref present_iff if_False if_True bind.bind_lunit simp_thms kassert_simps set_entry_sel)
    qed
    moreover have "vm_tab vm' = store a i e' (store b i e' (vm_tab vm))" "vm_mem vm' = vm_mem vm" "vm_kernel vm' = vm_kernel vm"
      "vm_phys vm' = set_refs ?k (Suc (refcount (vm_phys vm) ?k)) (vm_phys vm)"
      by (simp_all add: vm'_def)
    note fork_rel_leaf [OF inv a b p3 sd True pb e'_def refl this]
    ultimately show ?goal by auto
  qed
qed

lemma kfold_snoc: "kfold f (is @ [i]) vm = (case kfold f is vm of None \<Rightarrow> None | Some vm' \<Rightarrow> f i vm')"
  by (induction "is" arbitrary: vm) (auto split: Option.bind_splits option.splits)

lemma kfold_upto:
  assumes "I 0 vm" "\<And>i vm'. i < n \<Longrightarrow> I i vm' \<Longrightarrow> \<exists>vm''. f i vm' = Some vm'' \<and> I (Suc i) vm''"
  shows "\<exists>vm'. kfold f [0..<n] vm = Some vm' \<and> I n vm'"
  using assms(2)
proof (induction n)
  case (Suc n)
  obtain vm' where "kfold f [0..<n] vm = Some vm'" "I n vm'" using Suc by (metis less_Suc_eq)
  thus ?case using Suc.prems [of n vm'] by (auto simp: kfold_snoc)
qed (simp add: assms(1))

lemma non_leaf_same:
  assumes ok: "trees_ok S (vm_tab vm) (owned_pages PU_PAGING (vm_phys vm))"
    and rel: "fork_rel S s d Q m (leaves S (vm_tab vm) s \<union> X) vm vm'" and X: "\<And>u. u \<in> X \<Longrightarrow> \<exists>q. at S (vm_tab vm) d q u"
    and sd: "s \<noteq> d" and u: "at S (vm_tab vm) s q u" "length q < 3"
  shows "vm_tab vm' u = vm_tab vm u"
proof (rule fork_relD(5) [OF rel trees_okD(1) [OF ok u(1)]])
  have "u \<notin> leaves S (vm_tab vm) s" using trees_okD(2) [OF ok u(1)] u(2) by (fastforce simp: leaves_def)
  moreover have "u \<notin> X" using trees_okD(2) [OF ok u(1)] X sd by metis
  ultimately show "u \<notin> leaves S (vm_tab vm) s \<union> X" by simp
qed

lemma leaves_cong: "(\<And>q u. at S T' s q u = at S T s q u) \<Longrightarrow> leaves S T' s = leaves S T s"
  by (simp add: leaves_def)

lemma fork_loop:
  assumes step: "fork_step S s d n g" and sd: "s \<noteq> d" and inv: "vm_ok S vm"
    and a: "at S (vm_tab vm) s p a" and b: "at S (vm_tab vm) d p b" and p: "length p + n = 3"
    and N: "\<And>i. i < N \<Longrightarrow> upath (p @ [i])" and zero: "\<And>i. i < N \<Longrightarrow> \<not> bit (vm_tab vm b i) 0"
    and free: "(\<Sum>i < N. weight (vm_tab vm) n a i) \<le> ph_pages_free (vm_phys vm)"
  shows "\<exists>vm'. kfold (g a b) [0..<N] vm = Some vm'
     \<and> fork_rel S s d (below_upto p N) (\<Sum>i < N. weight (vm_tab vm) n a i) (leaves S (vm_tab vm) s \<union> {b}) vm vm'"
proof -
  let ?T = "vm_tab vm" and ?X = "leaves S (vm_tab vm) s \<union> {b}"
  let ?I = "\<lambda>i vm'. fork_rel S s d (below_upto p i) (\<Sum>j < i. weight ?T n a j) ?X vm vm' \<and> (\<forall>j. i \<le> j \<longrightarrow> vm_tab vm' b j = ?T b j)"
  have "\<exists>vm'. kfold (g a b) [0..<N] vm = Some vm' \<and> ?I N vm'"
  proof (rule kfold_upto)
    show "?I 0 vm" using fork_rel_refl [OF inv] by (simp add: below_upto_simps)
    fix i vm1 assume i: "i < N" and I: "?I i vm1"
    hence rel: "fork_rel S s d (below_upto p i) (\<Sum>j < i. weight ?T n a j) ?X vm vm1" by simp
    note r = fork_relD [OF rel]
    have at1: "at S (vm_tab vm1) s q u = at S ?T s q u" for q u using r(3) sd by simp
    have w: "weight (vm_tab vm1) n a i = weight ?T n a i"
      by (rule weight_cong [OF a p N [OF i]], rule non_leaf_same [OF vm_invD(2) [OF inv] rel _ sd]) (use b in auto)
    have "(\<Sum>j < Suc i. weight ?T n a j) \<le> (\<Sum>j < N. weight ?T n a j)"
      by (rule sum_mono2) (use i in auto)
    hence "weight (vm_tab vm1) n a i \<le> ph_pages_free (vm_phys vm1)" using r(2) free w by simp
    moreover have "\<not> bit (vm_tab vm1 b i) 0" using I zero [OF i] by simp
    moreover have "at S (vm_tab vm1) s p a" "at S (vm_tab vm1) d p b" using at1 a r(4) [OF b] by auto
    ultimately obtain vm2 where vm2: "g a b i vm1 = Some vm2"
      "fork_rel S s d (below p i) (weight (vm_tab vm1) n a i) (leaves S (vm_tab vm1) s \<union> {b}) vm1 vm2"
      "\<forall>j. j \<noteq> i \<longrightarrow> vm_tab vm2 b j = vm_tab vm1 b j"
      using step r(1) p N [OF i] unfolding fork_step_def by blast
    have "fork_rel S s d (below_upto p (Suc i)) (\<Sum>j < Suc i. weight ?T n a j) ?X vm vm2"
      using fork_rel_trans [OF rel vm2(2), of ?X] leaves_cong [OF at1] w by (simp add: below_upto_simps)
    thus "\<exists>vm''. g a b i vm1 = Some vm'' \<and> ?I (Suc i) vm''" using vm2 I by auto
  qed
  thus ?thesis by blast
qed

lemma fork_entry_step:
  assumes step: "fork_step S s d n g" and sd: "s \<noteq> d"
  shows "fork_step S s d (Suc n) (fork_entry (\<lambda>a b. kfold (g a b) [0..<512]))"
  unfolding fork_step_def
proof (intro allI impI)
  fix vm p a b i
  assume inv: "vm_ok S vm" and a: "at S (vm_tab vm) s p a" and b: "at S (vm_tab vm) d p b"
    and p: "length p + Suc n = 3" and up: "upath (p @ [i])" and pb: "\<not> bit (vm_tab vm b i) 0"
    and free: "weight (vm_tab vm) (Suc n) a i \<le> ph_pages_free (vm_phys vm)"
  let ?T = "vm_tab vm" and ?f = "fork_entry (\<lambda>a b. kfold (g a b) [0..<512])" and ?X = "leaves S (vm_tab vm) s \<union> {b}"
  let ?goal = "\<exists>vm'. ?f a b i vm = Some vm' \<and> fork_rel S s d (below p i) (weight ?T (Suc n) a i) ?X vm vm'
     \<and> (\<forall>j. j \<noteq> i \<longrightarrow> vm_tab vm' b j = ?T b j)"
  note ok = vm_invD(2) [OF inv]
  have p3: "length p < 3" using p by simp
  show ?goal
  proof (cases "bit (?T a i) 0")
    case False
    thus ?goal using fork_rel_absent [OF inv a False b pb] by (simp add: fork_entry_def Let_def)
  next
    case True
    let ?fl = "?T a i AND MM_PTE_FLAGS_MASK"
    have small: "\<not> bit (?T a i) 7" by (rule trees_okD(3) [OF ok a p3 up True])
    have "ph_pages_free (vm_phys vm) \<noteq> 0" using free True by simp
    then obtain k ph where run: "amd64_mm_pool_alloc vm
         = Some (k * MM_PAGE_SIZE, vm\<lparr>vm_phys := ph, vm_tab := fill (k * MM_PAGE_SIZE) (\<lambda>_. 0) ?T\<rparr>)"
      and took: "phys_took PU_PAGING {k} (vm_phys vm) ph" "ph_pages_free (vm_phys vm) = Suc (ph_pages_free ph)"
      using pool_alloc_ok [OF vm_invD(1) [OF inv]] by blast
    note new = took_paging [OF took(1)]
    define c where "c = k * MM_PAGE_SIZE"
    define vm1 where "vm1 = set_entry b i (of_nat c OR ?fl) (vm\<lparr>vm_phys := ph, vm_tab := fill c (\<lambda>_. 0) ?T\<rparr>)"
    have T1: "vm_tab vm1 = store b i (of_nat c OR ?fl) (fill c (\<lambda>_. 0) ?T)" by (simp add: vm1_def)
    have fl: "\<And>m. bit ?fl m \<Longrightarrow> m < 12 \<or> m = 63" "bit ?fl 0" "\<not> bit ?fl 7"
      using True small by (auto simp: bit_and_iff bit_flags_mask)
    note add = vm_inv_add [OF inv took(1) b p3 up pb fl _ T1 [unfolded c_def], OF _ refl, folded c_def]
    have ac: "a \<noteq> c" "b \<noteq> c" using trees_okD(1) [OF ok] a b new(3) c_def by auto
    have ab: "a \<noteq> b" using trees_okD(2) [OF ok a, of d p] b sd by blast
    have inv1: "vm_ok S vm1" using add(1) by (simp add: vm1_def)
    have at1: "at S (vm_tab vm1) s q u = at S ?T s q u" for q u using add(5) sd by simp
    have rel1: "fork_rel S s d {} 1 {b} vm vm1"
    proof -
      have "vm_tab vm1 u = ?T u" if "u \<noteq> c" "u \<noteq> b" for u using that by (simp add: T1 store_def fill_def)
      moreover have "u \<noteq> c" if "u \<in> owned_pages PU_PAGING (vm_phys vm)" for u using that new(3) c_def by blast
      ultimately show ?thesis
        using inv1 add(2,5) new(1,2) took(2) shrunk_took [OF took(1)] unfolding fork_rel_def
        by (auto simp: vm1_def data_same_def)
    qed
    have same1: "vm_tab vm1 u = ?T u" if "at S ?T s q u" for q u
    proof (rule fork_relD(5) [OF rel1 trees_okD(1) [OF ok that]])
      show "u \<notin> {b}" using trees_okD(2) [OF ok that, of d p] b sd by blast
    qed
    define a' where "a' = pte_phys (?T a i)"
    have a': "at S (vm_tab vm1) s (p @ [i]) a'" using at_snoc [OF a p3 up True] at1 by (simp add: a'_def)
    have w: "weight (vm_tab vm1) n a' j = weight ?T n a' j" if "j < 512" for j
    proof (rule weight_cong)
      show "at S ?T s (p @ [i]) a'" using a' at1 by simp
      show "length (p @ [i]) + n = 3" using p by simp
      show "upath ((p @ [i]) @ [j])" using up that upath_snoc [of "p @ [i]" j] by simp
    qed (rule same1)
    hence ws: "(\<Sum>j < 512. weight (vm_tab vm1) n a' j) = (\<Sum>j < 512. weight ?T n a' j)" by (intro sum.cong) auto
    have wt: "weight ?T (Suc n) a i = 1 + (\<Sum>j < 512. weight ?T n a' j)" using True by (simp add: a'_def)
    have "\<exists>vm2. kfold (g a' c) [0..<512] vm1 = Some vm2
       \<and> fork_rel S s d (below_upto (p @ [i]) 512) (\<Sum>j < 512. weight (vm_tab vm1) n a' j) (leaves S (vm_tab vm1) s \<union> {c}) vm1 vm2"
    proof (rule fork_loop [OF step sd inv1 a' add(3)])
      show "length (p @ [i]) + n = 3" using p by simp
      show "upath ((p @ [i]) @ [j])" if "j < 512" for j using up that upath_snoc [of "p @ [i]" j] by simp
      show "\<not> bit (vm_tab vm1 c j) 0" for j using add(4) by simp
      show "(\<Sum>j < 512. weight (vm_tab vm1) n a' j) \<le> ph_pages_free (vm_phys vm1)"
        using free wt ws fork_relD(2) [OF rel1] by simp
    qed
    then obtain vm2 where vm2: "kfold (g a' c) [0..<512] vm1 = Some vm2"
      "fork_rel S s d (below p i) (\<Sum>j < 512. weight (vm_tab vm1) n a' j) (leaves S ?T s \<union> {c}) vm1 vm2"
      using below_snoc [OF p3, of i] leaves_cong [OF at1] by auto
    have "fork_rel S s d ({} \<union> below p i) (1 + (\<Sum>j < 512. weight (vm_tab vm1) n a' j)) ?X vm vm2"
      by (rule fork_rel_trans [OF rel1 vm2(2)]) (use new(3) c_def in auto)
    hence "fork_rel S s d (below p i) (weight ?T (Suc n) a i) ?X vm vm2" using ws wt by simp
    moreover have "vm_tab vm2 b j = ?T b j" if "j \<noteq> i" for j
    proof -
      have "at S (vm_tab vm1) d p b" by (rule fork_relD(4) [OF rel1 b])
      hence "b \<in> owned_pages PU_PAGING (vm_phys vm1)" by (rule trees_okD(1) [OF vm_invD(2) [OF inv1]])
      moreover have "b \<notin> leaves S ?T s" using trees_okD(2) [OF ok b] sd unfolding leaves_def by blast
      ultimately have "vm_tab vm2 b = vm_tab vm1 b" using fork_relD(5) [OF vm2(2)] ac by simp
      thus ?thesis using that ac by (simp add: T1 store_other fill_other)
    qed
    moreover have "?f a b i vm = Some vm2"
      using True small run vm2(1) ac(1) unfolding fork_entry_def Let_def
      by (simp add: and_BIT_eq_0 fill_other vm1_def a'_def c_def)
    ultimately show ?goal by blast
  qed
qed

lemma fork_levels:
  assumes sd: "s \<noteq> d"
  shows "fork_step S s d 3 fork_pml4_entry"
proof -
  have pt: "fork_pt = (\<lambda>a b. kfold (fork_page a b) [0..<512])" by (rule ext)+ (simp add: fork_pt_def)
  have pd: "fork_pd = (\<lambda>a b. kfold (fork_entry fork_pt a b) [0..<512])" by (rule ext)+ (simp add: fork_pd_def)
  have pdpt: "fork_pdpt = (\<lambda>a b. kfold (fork_entry fork_pd a b) [0..<512])" by (rule ext)+ (simp add: fork_pdpt_def)
  have "fork_step S s d 1 (fork_entry fork_pt)" using fork_entry_step [OF fork_page_step [OF sd] sd, folded pt] by simp
  hence "fork_step S s d 2 (fork_entry fork_pd)" using fork_entry_step [OF _ sd, of S 1 "fork_entry fork_pt", folded pd] by (simp add: numeral_2_eq_2)
  hence "fork_step S s d 3 (fork_entry fork_pdpt)" using fork_entry_step [OF _ sd, of S 2 "fork_entry fork_pd", folded pdpt] by (simp add: numeral_3_eq_3)
  moreover have "fork_pml4_entry a b i vm = fork_entry fork_pdpt a b i vm" if "\<not> bit (vm_tab vm b i) 0" for a b i vm
    using that by (simp add: fork_pml4_entry_def)
  ultimately show ?thesis unfolding fork_step_def by simp
qed

section \<open>The kernel half\<close>

definition clone_kernel :: "nat \<Rightarrow> nat \<Rightarrow> nat list \<Rightarrow> vm \<Rightarrow> vm" where
  "clone_kernel d s is vm = vm\<lparr>vm_tab := fill d (\<lambda>i. if i \<in> set is then vm_tab vm s i else vm_tab vm d i) (vm_tab vm)\<rparr>"

lemma clone_kernel_loop:
  "s \<noteq> d \<Longrightarrow> kfold (\<lambda>i vm. Some (set_entry d i (vm_tab vm s i) vm)) is vm = Some (clone_kernel d s is vm)"
proof (induction "is" arbitrary: vm)
  case (Cons i "is")
  have "clone_kernel d s is (set_entry d i (vm_tab vm s i) vm) = clone_kernel d s (i # is) vm"
    using Cons.prems by (auto simp: clone_kernel_def set_entry_def fill_def fun_eq_iff)
  thus ?case using Cons by simp
qed (simp add: clone_kernel_def fill_def)

lemma clone_kernel_ok:
  assumes inv: "vm_ok S vm" and d: "d \<in> S" and "is": "\<And>i. i \<in> set is \<Longrightarrow> AMD64_PML4I_USER_END \<le> i"
  shows "vm_ok S (clone_kernel d s is vm)" "vm_view S (clone_kernel d s is vm) = vm_view S vm"
proof -
  let ?f = "\<lambda>i. if i \<in> set is then vm_tab vm s i else vm_tab vm d i"
  have f: "\<forall>i < AMD64_PML4I_USER_END. ?f i = vm_tab vm d i" using "is" by (meson not_less)
  note k = kernel_half [OF vm_invD(2) [OF inv] d f]
  show "vm_view S (clone_kernel d s is vm) = vm_view S vm" using k(2) by (simp add: clone_kernel_def)
  thus "vm_ok S (clone_kernel d s is vm)" using inv k by (simp add: vm_inv_def clone_kernel_def)
qed

lemma mm_space_clone_eq:
  assumes "s \<noteq> d" "flags AND MM_CLONE_FLG_USER = 0"
  shows "mm_space_clone d s flags vm
    = Some (if bit flags 0 then clone_kernel d s [AMD64_PML4I_USER_END..<512] vm else vm)"
  using assms by (simp add: mm_space_clone_def clone_kernel_loop and_BIT_eq_0)

section \<open>The whole fork\<close>

definition space_tables :: "table_map \<Rightarrow> nat \<Rightarrow> nat" where
  "space_tables T s = (\<Sum>i < AMD64_PML4I_USER_END. weight T 3 s i)"

lemma all_below: "upath p \<Longrightarrow> length p = 4 \<Longrightarrow> p \<in> below_upto [] AMD64_PML4I_USER_END"
  by (cases p) (auto simp: below_upto_def below_def upath_def)

lemma forked_all:
  "forked Pr s d (below_upto [] AMD64_PML4I_USER_END) (view S T) (s', p)
     = (if s' = s \<or> s' = d then map_option (cow Pr) (view S T (s, p))
        else view S T (s', p))"
proof (cases "p \<in> below_upto [] AMD64_PML4I_USER_END")
  case False
  hence "view S T (s, p) = None" for s using view_SomeD [of S T s p] all_below [of p] by (cases "view S T (s, p)") auto
  thus ?thesis using False by (simp add: forked_def)
qed (simp add: forked_def)

lemma fork_user_half:
  assumes inv: "vm_ok S vm" and sd: "src \<in> S" "dst \<in> S" "src \<noteq> dst"
    and empty: "\<forall>i < AMD64_PML4I_USER_END. \<not> bit (vm_tab vm dst i) 0"
    and free: "space_tables (vm_tab vm) src \<le> ph_pages_free (vm_phys vm)"
  shows "\<exists>vm'. kfold (fork_pml4_entry src dst) [0..<AMD64_PML4I_USER_END] vm = Some vm' \<and> vm_tab vm' src = vm_tab vm src
     \<and> fork_rel S src dst (below_upto [] AMD64_PML4I_USER_END) (space_tables (vm_tab vm) src)
          (leaves S (vm_tab vm) src \<union> {dst}) vm vm'"
proof -
  obtain vm' where vm': "kfold (fork_pml4_entry src dst) [0..<AMD64_PML4I_USER_END] vm = Some vm'"
    "fork_rel S src dst (below_upto [] AMD64_PML4I_USER_END) (space_tables (vm_tab vm) src)
          (leaves S (vm_tab vm) src \<union> {dst}) vm vm'"
    using fork_loop [OF fork_levels [OF sd(3)] sd(3) inv at_root [OF sd(1)] at_root [OF sd(2)], of AMD64_PML4I_USER_END]
      empty free by (auto simp: space_tables_def upath_def AMD64_PML4I_USER_END_def)
  have "vm_tab vm' src = vm_tab vm src"
    by (rule non_leaf_same [OF vm_invD(2) [OF inv] vm'(2) _ sd(3) at_root [OF sd(1)]]) (use at_root [OF sd(2)] in auto)
  thus ?thesis using vm' by blast
qed

lemma fork_space_ok:
  assumes inv: "vm_ok S vm" and sd: "src \<in> S" "dst \<in> S" "src \<noteq> dst"
    and empty: "\<forall>i < AMD64_PML4I_USER_END. \<not> bit (vm_tab vm dst i) 0"
    and free: "space_tables (vm_tab vm) src \<le> ph_pages_free (vm_phys vm)"
  shows "\<exists>vm'. mm_space_fork dst src (MM_CLONE_FLG_KERNEL OR MM_CLONE_FLG_USER) vm = Some vm' \<and> vm_ok S vm'
     \<and> (\<forall>s p. vm_view S vm' (s, p) =
          (if s = src \<or> s = dst then map_option (cow (used_set (vm_phys vm) PU_PRIVATE)) (vm_view S vm (src, p))
           else vm_view S vm (s, p)))
     \<and> (\<forall>s v. user_byte S vm' s v = user_byte S vm (if s = dst then src else s) v)
     \<and> (\<forall>i. AMD64_PML4I_USER_END \<le> i \<and> i < 512 \<longrightarrow> vm_tab vm' dst i = vm_tab vm src i)
     \<and> ph_pages_free (vm_phys vm) = ph_pages_free (vm_phys vm') + space_tables (vm_tab vm) src
     \<and> shrunk (vm_phys vm) (vm_phys vm') \<and> vm_kernel vm' = vm_kernel vm"
proof -
  obtain vm1 where run: "kfold (fork_pml4_entry src dst) [0..<AMD64_PML4I_USER_END] vm = Some vm1"
    and root: "vm_tab vm1 src = vm_tab vm src"
    and rel: "fork_rel S src dst (below_upto [] AMD64_PML4I_USER_END) (space_tables (vm_tab vm) src)
          (leaves S (vm_tab vm) src \<union> {dst}) vm vm1"
    using fork_user_half [OF assms] by blast
  define vm2 where "vm2 = clone_kernel dst src [AMD64_PML4I_USER_END..<512] vm1"
  note k = clone_kernel_ok [OF fork_relD(1) [OF rel] sd(2), of "[AMD64_PML4I_USER_END..<512]" src, folded vm2_def]
  have "mm_space_fork dst src (MM_CLONE_FLG_KERNEL OR MM_CLONE_FLG_USER) vm = Some vm2"
  proof -
    have "(MM_CLONE_FLG_KERNEL OR MM_CLONE_FLG_USER) AND MM_CLONE_FLG_USER \<noteq> 0"
      "(MM_CLONE_FLG_KERNEL AND (MM_CLONE_FLG_KERNEL OR MM_CLONE_FLG_USER)) AND MM_CLONE_FLG_USER = 0"
      "bit (MM_CLONE_FLG_KERNEL AND (MM_CLONE_FLG_KERNEL OR MM_CLONE_FLG_USER)) 0"
      by (simp_all add: flag_simps)
    thus ?thesis using run mm_space_clone_eq [OF sd(3)] by (simp add: mm_space_fork_def vm2_def)
  qed
  moreover have V: "vm_view S vm2 (s, p) =
          (if s = src \<or> s = dst then map_option (cow (used_set (vm_phys vm) PU_PRIVATE)) (vm_view S vm (src, p))
           else vm_view S vm (s, p))" for s p
  proof -
    have "vm_view S vm2 = forked (used_set (vm_phys vm) PU_PRIVATE) src dst (below_upto [] AMD64_PML4I_USER_END) (vm_view S vm)"
      using k(2) rel by (auto simp: fork_rel_def)
    thus ?thesis by (simp add: forked_all)
  qed
  moreover have "user_byte S vm2 s v = user_byte S vm (if s = dst then src else s) v" for s v
  proof -
    have m: "vm_mem vm2 = vm_mem vm" using rel by (simp add: vm2_def clone_kernel_def fork_rel_def)
    have "pte_phys (cow Pr e) = pte_phys e" for Pr e
      unfolding pte_phys_frame [of "cow Pr e"] pte_phys_frame [of e] by simp
    thus ?thesis by (auto simp: user_byte_def V m option.map_comp comp_def)
  qed
  moreover have "vm_tab vm2 dst i = vm_tab vm src i" if "AMD64_PML4I_USER_END \<le> i \<and> i < 512" for i
    using that root by (simp add: vm2_def clone_kernel_def)
  moreover have "ph_pages_free (vm_phys vm) = ph_pages_free (vm_phys vm2) + space_tables (vm_tab vm) src"
    using fork_relD(2) [OF rel] by (simp add: vm2_def clone_kernel_def)
  moreover have "shrunk (vm_phys vm) (vm_phys vm2)" "vm_kernel vm2 = vm_kernel vm"
    using rel by (simp_all add: vm2_def clone_kernel_def fork_rel_def)
  ultimately show ?thesis using k(1) by auto
qed

text \<open>
  C4: Forking an address space. Given a child with an empty user half and as many free pages as the parent has
  tables, \<open>mm_space_fork\<close> succeeds. The child then translates exactly the user pages the parent does, to the
  same frames; private writable pages have lost the write permission in both and everything else is
  as it was; no other space changes; child and parent read the same bytes as the parent did; the
  kernel half is the parent's; the reference counts again count the entries; and the number of pages
  taken is the number of tables of the parent.
\<close>

theorem fork_copies_space:
  assumes inv: "vm_ok S vm" and sd: "src \<in> S" "dst \<in> S" "src \<noteq> dst"
    and empty: "\<forall>i < AMD64_PML4I_USER_END. \<not> bit (vm_tab vm dst i) 0"
    and free: "space_tables (vm_tab vm) src \<le> ph_pages_free (vm_phys vm)"
  shows "\<exists>vm'. mm_space_fork dst src (MM_CLONE_FLG_KERNEL OR MM_CLONE_FLG_USER) vm = Some vm' \<and> vm_ok S vm'
     \<and> (\<forall>s p. vm_view S vm' (s, p) =
          (if s = src \<or> s = dst then map_option (cow (used_set (vm_phys vm) PU_PRIVATE)) (vm_view S vm (src, p))
           else vm_view S vm (s, p)))
     \<and> (\<forall>s v. user_byte S vm' s v = user_byte S vm (if s = dst then src else s) v)
     \<and> (\<forall>i. AMD64_PML4I_USER_END \<le> i \<and> i < 512 \<longrightarrow> vm_tab vm' dst i = vm_tab vm src i)
     \<and> ph_pages_free (vm_phys vm) = ph_pages_free (vm_phys vm') + space_tables (vm_tab vm) src"
  using fork_space_ok [OF assms] by blast

lemma sum_first:
  fixes w :: "nat \<Rightarrow> nat"
  assumes "\<And>j. 0 < j \<Longrightarrow> w j = 0" "0 < n"
  shows "(\<Sum>j < n. w j) = w 0"
proof (cases n)
  case (Suc m)
  thus ?thesis using assms(1) by (simp add: sum.lessThan_Suc_shift del: sum.lessThan_Suc)
qed (use assms(2) in simp)

lemma demo_space_tables: "space_tables (demo_tab fl) demo_A = 3"
proof -
  have z: "weight (demo_tab fl) n t j = 0" if "0 < j" for n t j using that by (cases n) simp_all
  have one: "(\<Sum>j < m. weight (demo_tab fl) n t j) = weight (demo_tab fl) n t 0" if "0 < m" for m n t
    using z that by (intro sum_first) auto
  have st: "weight (demo_tab fl) (Suc n) t 0
      = (if bit (demo_tab fl t 0) 0 then Suc (weight (demo_tab fl) n (pte_phys (demo_tab fl t 0)) 0) else 0)" for n t
    using one [of 512 n] by simp
  have "weight (demo_tab fl) (Suc (Suc (Suc 0))) (256 * MM_PAGE_SIZE) 0 = 3"
    by (simp add: st del: weight.simps(2))
  hence "weight (demo_tab fl) 3 (256 * MM_PAGE_SIZE) 0 = 3" by (simp only: numeral_3_eq_3)
  thus ?thesis by (simp add: space_tables_def one demo_A_def AMD64_PML4I_USER_END_def)
qed

theorem fork_copies_space_witness:
  "\<exists>vm'. mm_space_fork demo_B demo_A (MM_CLONE_FLG_KERNEL OR MM_CLONE_FLG_USER) (demo_vm (MM_PAGE_USER OR MM_PAGE_WRITE)) = Some vm'
     \<and> vm_ok demo_S vm' \<and> ph_pages_free (vm_phys vm') = 35 \<and> user_byte demo_S vm' demo_B 8 = Some 7"
proof -
  let ?vm = "demo_vm (MM_PAGE_USER OR MM_PAGE_WRITE)"
  have ne: "demo_A \<noteq> demo_B" by (simp add: demo_A_def demo_B_def MM_PAGE_SIZE_def)
  have empty: "\<forall>i < AMD64_PML4I_USER_END. \<not> bit (vm_tab ?vm demo_B i) 0" by (simp add: demo_B_def)
  have "user_byte demo_S ?vm demo_A 8 = Some 7" by (simp add: user_byte_def demo_view) (simp add: demo_vm_def)
  moreover have "space_tables (vm_tab ?vm) demo_A \<le> ph_pages_free (vm_phys ?vm)" by (simp add: demo_space_tables)
  ultimately show ?thesis
    using fork_copies_space [OF demo_vm_ok demo_vm_simps(6,7) ne empty] by (auto simp: demo_space_tables)
qed

end
