(* ===== verification/Paging_Release.thy ===== *)
theory Paging_Release
  imports Paging_Fork
begin

text \<open>
  \<open>mm_space_release\<close> and \<open>mm_space_free\<close>. While the loops run, tables still hold entries whose pages are gone:
  an entry is only cleared in the PML4, and the other tables are overwritten when they are freed. The
  proofs therefore follow a second table map \<open>G\<close> in which every entry is cleared once it is dealt with, and which
  satisfies the invariant all the time; what is left of the real tables agrees with it.
\<close>

section \<open>Giving pages back\<close>

lemma gave_data:
  assumes inv: "vm_inv S T ph" and gave: "phys_gave k ph ph'" and k: "k \<in> data_set ph" "mapped (view S T) k = {}"
  shows "vm_inv S T ph'" "data_set ph' = data_set ph - {k}" "owned_pages PU_PAGING ph' = owned_pages PU_PAGING ph"
    "kern_same ph ph'"
proof -
  have used: "used_set ph' u = used_set ph u - {k}" for u using gave by (simp add: phys_gave_def)
  have same: "mm_pages ph' j = mm_pages ph j" if "j \<noteq> k" for j using gave that by (simp add: phys_gave_def)
  show d: "data_set ph' = data_set ph - {k}" by (auto simp: data_set_def used)
  have nk: "k \<notin> used_set ph PU_PAGING" using k by (auto simp: data_set_def used_set_def)
  hence "{i \<in> used_set ph' PU_PAGING. refcount ph' i = 0} = {i \<in> used_set ph PU_PAGING. refcount ph i = 0}"
    using same by (auto simp: used) metis+
  thus own: "owned_pages PU_PAGING ph' = owned_pages PU_PAGING ph" by (simp only: owned_pages_def)
  have "k \<notin> used_set ph PU_KERNEL" using k by (auto simp: data_set_def used_set_def)
  moreover have "j \<noteq> k" if "j \<in> used_set ph PU_KERNEL" for j using that calculation by metis
  ultimately show "kern_same ph ph'" using same by (simp add: kern_same_def used)
  have "frame e \<noteq> k" if "view S T x = Some e" for x e using k(2) that unfolding mapped_def by blast
  hence "refs_ok (view S T) ph'" using vm_invD(3) [OF inv] same unfolding refs_ok_def d by auto
  moreover have "phys_inv ph'" using gave by (simp add: phys_gave_def)
  ultimately show "vm_inv S T ph'" using vm_invD(2) [OF inv] by (simp add: vm_inv_def own)
qed

lemma gave_table:
  assumes gave: "phys_gave k ph ph'" and k: "k \<in> used_set ph PU_PAGING"
  shows "owned_pages PU_PAGING ph' = owned_pages PU_PAGING ph - {k * MM_PAGE_SIZE}" "data_same ph ph'"
proof -
  have used: "used_set ph' u = used_set ph u - {k}" for u using gave by (simp add: phys_gave_def)
  have same: "mm_pages ph' j = mm_pages ph j" if "j \<noteq> k" for j using gave that by (simp add: phys_gave_def)
  have nk: "k \<notin> used_set ph u" if "u \<noteq> PU_PAGING" for u using k that by (auto simp: used_set_def)
  have "{i \<in> used_set ph' PU_PAGING. refcount ph' i = 0} = {i \<in> used_set ph PU_PAGING. refcount ph i = 0} - {k}"
    using same by (auto simp: used)
  moreover have "inj (\<lambda>i. i * MM_PAGE_SIZE)" by (simp add: inj_def MM_PAGE_SIZE_def)
  ultimately show "owned_pages PU_PAGING ph' = owned_pages PU_PAGING ph - {k * MM_PAGE_SIZE}"
    by (simp add: owned_pages_def image_set_diff)
  have "k \<notin> data_set ph" using nk by (simp add: data_set_def)
  hence "\<forall>j \<in> data_set ph. mm_pages ph' j = mm_pages ph j" using same by metis
  moreover have "kern_same ph ph'" 
  proof -
    have "k \<notin> used_set ph PU_KERNEL" using nk by simp
    moreover have "j \<noteq> k" if "j \<in> used_set ph PU_KERNEL" for j using that calculation by metis
    ultimately show ?thesis using same by (simp add: kern_same_def used)
  qed
  ultimately show "data_same ph ph'" using nk by (simp add: data_same_def used)
qed

lemma free_table_ok:
  assumes inv: "phys_inv (vm_phys vm)" and c: "c \<in> owned_pages PU_PAGING (vm_phys vm)"
  shows "\<exists>ph. amd64_mm_pool_free c vm = Some (vm\<lparr>vm_phys := ph, vm_tab := fill c (\<lambda>_. NOT 0) (vm_tab vm)\<rparr>)
     \<and> phys_inv ph \<and> data_same (vm_phys vm) ph
     \<and> owned_pages PU_PAGING ph = owned_pages PU_PAGING (vm_phys vm) - {c}"
proof -
  obtain k where k: "k \<in> used_set (vm_phys vm) PU_PAGING" "refcount (vm_phys vm) k = 0" "c = k * MM_PAGE_SIZE"
    using c by (auto simp: owned_pages_def)
  obtain ph where ph: "mm_phys_free_page c (vm_phys vm) = Some ph" "phys_gave k (vm_phys vm) ph"
    using mm_phys_free_page_ok [OF inv k(1,2), of c] k(3) by auto
  have "amd64_mm_pool_free c vm = Some (vm\<lparr>vm_phys := ph, vm_tab := fill c (\<lambda>_. NOT 0) (vm_tab vm)\<rparr>)"
    using ph(1) by (simp add: amd64_mm_pool_free_def free_frame_def fill_def)
  thus ?thesis using gave_table [OF ph(2) k(1)] k(3) ph(2) by (auto simp: phys_gave_def)
qed

lemma free_frame_ok:
  assumes inv: "vm_inv S G (vm_phys vm)" and k: "k \<in> data_set (vm_phys vm)" "refcount (vm_phys vm) k = 0"
  shows "\<exists>ph. free_frame (k * MM_PAGE_SIZE) vm = Some (vm\<lparr>vm_phys := ph\<rparr>) \<and> vm_inv S G ph
     \<and> data_set ph = data_set (vm_phys vm) - {k} \<and> owned_pages PU_PAGING ph = owned_pages PU_PAGING (vm_phys vm)
     \<and> kern_same (vm_phys vm) ph"
proof -
  have "card (mapped (view S G) k) = 0" using vm_invD(3) [OF inv] k by (simp add: refs_ok_def)
  hence none: "mapped (view S G) k = {}" using mapped_view_bound(1) [OF vm_invD(2) [OF inv]] by simp
  obtain u where u: "k \<in> used_set (vm_phys vm) u" using k(1) by (auto simp: data_set_def)
  obtain ph where ph: "mm_phys_free_page (k * MM_PAGE_SIZE) (vm_phys vm) = Some ph" "phys_gave k (vm_phys vm) ph"
    using mm_phys_free_page_ok [OF vm_invD(1) [OF inv] u k(2), of "k * MM_PAGE_SIZE"] by auto
  thus ?thesis using gave_data [OF inv ph(2) k(1) none] by (auto simp: free_frame_def)
qed

section \<open>What one part of the loops does\<close>

definition cleared :: "nat \<Rightarrow> nat list set \<Rightarrow> (nat \<times> nat list \<Rightarrow> 64 word option) \<Rightarrow> nat \<times> nat list \<Rightarrow> 64 word option" where
  "cleared s Q V = (\<lambda>(s', p). if s' = s \<and> p \<in> Q then None else V (s', p))"

lemma cleared_empty [simp]: "cleared s {} V = V" by (auto simp: cleared_def)

lemma cleared_union: "cleared s Q2 (cleared s Q1 V) = cleared s (Q1 \<union> Q2) V"
  by (auto simp: cleared_def fun_eq_iff)

lemma mapped_cleared: "mapped (cleared s Q V) k \<subseteq> mapped V k"
  by (auto simp: mapped_def cleared_def split: if_splits)

text \<open>The frames that survive when the map shrinks from \<open>V\<close> to \<open>V'\<close>.\<close>

definition kept :: "('x \<Rightarrow> 64 word option) \<Rightarrow> ('x \<Rightarrow> 64 word option) \<Rightarrow> nat set" where
  "kept V V' = {k. mapped V k = {} \<or> mapped V' k \<noteq> {}}"

lemma rest_kept_refl [simp]: "kept V V = UNIV" by (auto simp: kept_def)

lemma rest_kept_trans: "(\<And>k. mapped V1 k \<subseteq> mapped V k) \<Longrightarrow> (\<And>k. mapped V2 k \<subseteq> mapped V1 k) \<Longrightarrow> kept V V1 \<inter> kept V1 V2 = kept V V2"
  unfolding kept_def by blast

definition under :: "nat set \<Rightarrow> table_map \<Rightarrow> nat \<Rightarrow> nat list \<Rightarrow> nat set \<Rightarrow> nat set" where
  "under S G s p J = {u. \<exists>j q. j \<in> J \<and> at S G s (p @ j # q) u}"

definition release_rel ::
  "nat set \<Rightarrow> nat \<Rightarrow> nat list \<Rightarrow> nat set \<Rightarrow> nat \<Rightarrow> table_map \<Rightarrow> vm \<Rightarrow> table_map \<Rightarrow> vm \<Rightarrow> bool" where
  "release_rel S s p J t G vm G' vm' \<longleftrightarrow> vm_inv S G' (vm_phys vm')
     \<and> view S G' = cleared s (\<Union>j \<in> J. below p j) (view S G)
     \<and> vm_mem vm' = vm_mem vm \<and> vm_kernel vm' = vm_kernel vm
     \<and> data_set (vm_phys vm') = data_set (vm_phys vm) \<inter> kept (view S G) (view S G')
     \<and> owned_pages PU_PAGING (vm_phys vm') = owned_pages PU_PAGING (vm_phys vm) - under S G s p J
     \<and> (\<forall>s' q u. at S G' s' q u \<longleftrightarrow> at S G s' q u \<and> \<not> (s' = s \<and> (\<exists>j r. j \<in> J \<and> q = p @ j # r)))
     \<and> (\<forall>u. u \<notin> under S G s p J \<longrightarrow> u \<noteq> t \<longrightarrow> vm_tab vm' u = vm_tab vm u \<and> G' u = G u)
     \<and> (\<forall>j. j \<notin> J \<longrightarrow> vm_tab vm' t j = vm_tab vm t j \<and> G' t j = G t j)
     \<and> (\<forall>j \<in> J. upath (p @ [j]) \<longrightarrow> \<not> bit (G' t j) 0) \<and> kern_same (vm_phys vm) (vm_phys vm')"

lemma release_relD:
  assumes "release_rel S s p J t G vm G' vm'"
  shows "vm_inv S G' (vm_phys vm')"
    "at S G' s' q u \<longleftrightarrow> at S G s' q u \<and> \<not> (s' = s \<and> (\<exists>j r. j \<in> J \<and> q = p @ j # r))"
    "u \<notin> under S G s p J \<Longrightarrow> u \<noteq> t \<Longrightarrow> vm_tab vm' u = vm_tab vm u \<and> G' u = G u"
    "j \<notin> J \<Longrightarrow> vm_tab vm' t j = vm_tab vm t j \<and> G' t j = G t j"
    "j \<in> J \<Longrightarrow> upath (p @ [j]) \<Longrightarrow> \<not> bit (G' t j) 0"
    "owned_pages PU_PAGING (vm_phys vm') = owned_pages PU_PAGING (vm_phys vm) - under S G s p J"
    "kern_same (vm_phys vm) (vm_phys vm')"
  using assms by (simp_all add: release_rel_def)

lemma release_refl: "vm_inv S G (vm_phys vm) \<Longrightarrow> release_rel S s p {} t G vm G vm"
  by (simp add: release_rel_def under_def)

lemma release_trans:
  assumes a: "release_rel S s p J t G vm G1 vm1" and b: "release_rel S s p {i} t G1 vm1 G2 vm2"
    and i: "i \<notin> J"
  shows "release_rel S s p (insert i J) t G vm G2 vm2"
proof -
  note A = release_relD [OF a] and B = release_relD [OF b]
  have under: "under S G s p (insert i J) = under S G s p J \<union> under S G1 s p {i}"
  proof -
    have "at S G1 s (p @ i # q) u = at S G s (p @ i # q) u" for q u using A(2) [of s "p @ i # q" u] i by auto
    thus ?thesis by (auto simp: under_def)
  qed
  have "view S G2 = cleared s (\<Union>j \<in> insert i J. below p j) (view S G)"
    using a b by (simp add: release_rel_def cleared_union Un_commute)
  moreover have "data_set (vm_phys vm2) = data_set (vm_phys vm) \<inter> kept (view S G) (view S G2)"
  proof -
    have "mapped (view S G1) k \<subseteq> mapped (view S G) k" "mapped (view S G2) k \<subseteq> mapped (view S G1) k" for k
      using a b mapped_cleared by (simp_all add: release_rel_def)
    hence "kept (view S G) (view S G1) \<inter> kept (view S G1) (view S G2) = kept (view S G) (view S G2)"
      by (rule rest_kept_trans)
    thus ?thesis using a b by (auto simp: release_rel_def)
  qed
  moreover have "owned_pages PU_PAGING (vm_phys vm2) = owned_pages PU_PAGING (vm_phys vm) - under S G s p (insert i J)"
    using A(6) B(6) under by auto
  moreover have "at S G2 s' q u \<longleftrightarrow> at S G s' q u \<and> \<not> (s' = s \<and> (\<exists>j r. j \<in> insert i J \<and> q = p @ j # r))" for s' q u
    using A(2) B(2) by auto
  moreover have "vm_tab vm2 u = vm_tab vm u \<and> G2 u = G u" if "u \<notin> under S G s p (insert i J)" "u \<noteq> t" for u
    using A(3) [of u] B(3) [of u] that under by simp
  moreover have "vm_tab vm2 t j = vm_tab vm t j \<and> G2 t j = G t j" if "j \<notin> insert i J" for j
    using A(4) [of j] B(4) [of j] that by simp
  moreover have "\<not> bit (G2 t j) 0" if "j \<in> insert i J" "upath (p @ [j])" for j
    using that A(5) [of j] B(4) [of j] B(5) [of j] by (cases "j = i") auto
  ultimately show ?thesis using a b kern_same_trans [OF A(7) B(7)] unfolding release_rel_def by simp
qed

section \<open>The loops\<close>

definition release_step :: "nat set \<Rightarrow> nat \<Rightarrow> nat \<Rightarrow> bool \<Rightarrow> (nat \<Rightarrow> nat \<Rightarrow> vm \<Rightarrow> vm kern) \<Rightarrow> bool" where
  "release_step S s n z g \<longleftrightarrow> (\<forall>G vm p t i. vm_inv S G (vm_phys vm) \<longrightarrow> at S G s p t \<longrightarrow> length p + n = 3
     \<longrightarrow> upath (p @ [i]) \<longrightarrow> vm_tab vm t i = G t i \<longrightarrow> (\<forall>u \<in> under S G s p {i}. vm_tab vm u = G u)
     \<longrightarrow> (\<exists>vm' G'. g t i vm = Some vm' \<and> release_rel S s p {i} t G vm G' vm' \<and> (z \<longrightarrow> \<not> bit (vm_tab vm' t i) 0)))"

lemma at_absent: "at S G s p t \<Longrightarrow> \<not> bit (G t i) 0 \<Longrightarrow> \<not> at S G s (p @ i # q) u"
  by (auto simp: at_def walk_append)

lemma release_absent:
  assumes inv: "vm_inv S G (vm_phys vm)" and t: "at S G s p t" "\<not> bit (G t i) 0"
  shows "release_rel S s p {i} t G vm G vm"
proof -
  have "cleared s (below p i) (view S G) = view S G"
    using view_absent [OF t] by (auto simp: cleared_def fun_eq_iff)
  moreover have "under S G s p {i} = {}" using at_absent [OF t] by (simp add: under_def)
  ultimately show ?thesis using inv t(2) at_absent [OF t] by (auto simp: release_rel_def)
qed

lemma release_leaf:
  assumes inv: "vm_inv S G (vm_phys vm)" and t: "at S G s p t" "length p = 3" "i < 512" "bit (G t i) 0"
    and k: "k = frame (G t i)" and ph1: "ph1 = set_refs k (refcount (vm_phys vm) k - 1) (vm_phys vm)"
    and ph2: "vm_inv S (store t i 0 G) ph2" "owned_pages PU_PAGING ph2 = owned_pages PU_PAGING ph1"
      "data_set ph2 = (if refcount ph1 k = 0 then data_set ph1 - {k} else data_set ph1)" "kern_same ph1 ph2"
  shows "release_rel S s p {i} t G vm (store t i 0 G) (vm\<lparr>vm_phys := ph2\<rparr>)"
proof -
  note un = vm_inv_unmap [OF inv t, folded k]
  note ok = vm_invD(2) [OF inv]
  have up: "upath (p @ [i])" using t by (auto simp: at_def upath_snoc)
  have none: "\<not> at S G s (p @ i # q) u" for q u using t(2) by (simp add: at_def)
  hence under: "under S G s p {i} = {}" by (simp add: under_def)
  have b: "below p i = {p @ [i]}" by (rule below_leaf [OF t(2) up])
  have V: "view S (store t i 0 G) = cleared s (below p i) (view S G)"
    unfolding un(2) b by (auto simp: cleared_def fun_eq_iff)
  have data1: "data_set ph1 = data_set (vm_phys vm)" "owned_pages PU_PAGING ph1 = owned_pages PU_PAGING (vm_phys vm)"
    unfolding ph1 using data_set_set_refs [OF un(4,6)] owned_set_refs [OF un(4,6)] by auto
  let ?V = "view S G" and ?V' = "view S (store t i 0 G)"
  have x: "(s, p @ [i]) \<in> mapped ?V k" using un(3) k by (auto simp: mapped_def)
  have other: "mapped ?V' j = mapped ?V j" if "j \<noteq> k" for j
  proof -
    have "(s, p @ [i]) \<notin> mapped ?V j" using un(3) k that by (auto simp: mapped_def)
    thus ?thesis unfolding un(2) mapped_upd_None by blast
  qed
  have rc: "refcount ph1 k = card (mapped ?V' k)"
  proof -
    have "refcount (vm_phys vm) k = card (mapped ?V k)" using vm_invD(3) [OF inv] un(4) by (simp add: refs_ok_def)
    thus ?thesis using x mapped_view_bound(1) [OF ok, of k] unfolding un(2) mapped_upd_None ph1 by simp
  qed
  have fin: "finite (mapped ?V' k)" using mapped_view_bound(1) [OF ok, of k] unfolding un(2) mapped_upd_None by simp
  have "data_set ph2 = data_set (vm_phys vm) \<inter> kept ?V ?V'"
  proof -
    have "j \<in> kept ?V ?V' \<longleftrightarrow> (j = k \<longrightarrow> mapped ?V' k \<noteq> {})" for j
      using x other [of j] by (cases "j = k") (auto simp: kept_def)
    thus ?thesis using ph2(3) data1 rc fin by (auto simp del: mem_Collect_eq)
  qed
  moreover have "at S (store t i 0 G) s' q u = at S G s' q u" for s' q u by (rule at_store_leaf [OF ok t(1,2)])
  moreover have "kern_same (vm_phys vm) ph2"
    using kern_same_trans [OF kern_same_refs [OF un(4)] ph2(4) [unfolded ph1]] .
  ultimately show ?thesis unfolding release_rel_def
    using ph2(1,2) V data1 under none by (auto simp: store_def)
qed

lemma release_page_step: "release_step S s 0 False release_page"
  unfolding release_step_def
proof (intro allI impI)
  fix G :: table_map and vm :: vm and p t i
  assume inv: "vm_inv S G (vm_phys vm)" and t: "at S G s p t" and p: "length p + 0 = 3" and up: "upath (p @ [i])"
    and e: "vm_tab vm t i = G t i"
  let ?goal = "\<exists>vm' G'. release_page t i vm = Some vm' \<and> release_rel S s p {i} t G vm G' vm' \<and> (False \<longrightarrow> \<not> bit (vm_tab vm' t i) 0)"
  have p3: "length p = 3" "i < 512" using p up by (auto simp: upath_snoc split: if_splits)
  show ?goal
  proof (cases "bit (G t i) 0")
    case False
    thus ?goal using release_absent [OF inv t False] e by (auto simp: release_page_def)
  next
    case True
    define k where "k = frame (G t i)"
    note un = vm_inv_unmap [OF inv t p3 True, folded k_def]
    define ph1 where "ph1 = set_refs k (refcount (vm_phys vm) k - 1) (vm_phys vm)"
    have kb: "k < PHYS_MAX_PAGES" using data_setD [OF un(4)] by simp
    have pa: "pte_phys (G t i) = k * MM_PAGE_SIZE" by (simp add: k_def pte_phys_frame [of "G t i"])
    have unref: "page_unref (pte_phys (G t i)) vm = Some (vm\<lparr>vm_phys := ph1\<rparr>)"
      unfolding pa ph1_def by (rule page_unref_eq [OF kb un(5)])
    have get: "get_page (pte_phys (G t i)) (vm\<lparr>vm_phys := ph1\<rparr>) = Some (mm_pages ph1 k)"
      unfolding pa using get_page_data [OF kb] by simp
    have run: "release_page t i vm = (if refcount ph1 k = 0 then free_frame (k * MM_PAGE_SIZE) (vm\<lparr>vm_phys := ph1\<rparr>)
        else Some (vm\<lparr>vm_phys := ph1\<rparr>))"
      using True e unref get pa by (simp add: release_page_def Let_def)
    note leaf = release_leaf [OF inv t p3 True k_def ph1_def]
    have inv1: "vm_inv S (store t i 0 G) ph1" using un(1) by (simp add: ph1_def)
    show ?goal
    proof (cases "refcount ph1 k = 0")
      case zero: True
      have "k \<in> data_set ph1" using un(4) data_set_set_refs [OF un(4,6)] by (simp add: ph1_def)
      then obtain ph2 where "free_frame (k * MM_PAGE_SIZE) (vm\<lparr>vm_phys := ph1\<rparr>) = Some (vm\<lparr>vm_phys := ph2\<rparr>)"
        "vm_inv S (store t i 0 G) ph2" "data_set ph2 = data_set ph1 - {k}" "owned_pages PU_PAGING ph2 = owned_pages PU_PAGING ph1"
        "kern_same ph1 ph2"
        using free_frame_ok [of S "store t i 0 G" "vm\<lparr>vm_phys := ph1\<rparr>" k] inv1 zero by auto
      thus ?goal using run zero leaf [of ph2] by auto
    next
      case False
      thus ?goal using run leaf [of ph1] inv1 by auto
    qed
  qed
qed

lemma under_mono: "J \<subseteq> J' \<Longrightarrow> under S G s p J \<subseteq> under S G s p J'"
  by (auto simp: under_def)

lemma under_not_self:
  assumes ok: "trees_ok S G P" and t: "at S G s p t"
  shows "t \<notin> under S G s p J"
  using trees_okD(2) [OF ok t] by (fastforce simp: under_def)

lemma under_disjoint:
  assumes ok: "trees_ok S G P" and i: "i \<notin> J"
  shows "under S G s p {i} \<inter> under S G s p J = {}"
proof -
  have False if "at S G s (p @ i # q) u" "at S G s (p @ j # r) u" "j \<in> J" for q u j r
    using trees_okD(2) [OF ok that(1,2)] that(3) i by auto
  thus ?thesis by (auto simp: under_def)
qed

lemma release_loop:
  assumes step: "release_step S s n z g" and inv: "vm_inv S G (vm_phys vm)" and t: "at S G s p t" and p: "length p + n = 3"
    and N: "\<And>i. i < N \<Longrightarrow> upath (p @ [i])" and agree: "\<And>i. i < N \<Longrightarrow> vm_tab vm t i = G t i"
      "\<And>u. u \<in> under S G s p {..<N} \<Longrightarrow> vm_tab vm u = G u"
  shows "\<exists>vm' G'. kfold (g t) [0..<N] vm = Some vm' \<and> release_rel S s p {..<N} t G vm G' vm'
     \<and> (z \<longrightarrow> (\<forall>i < N. \<not> bit (vm_tab vm' t i) 0))"
proof -
  let ?I = "\<lambda>i vm'. \<exists>G'. release_rel S s p {..<i} t G vm G' vm' \<and> (z \<longrightarrow> (\<forall>j < i. \<not> bit (vm_tab vm' t j) 0))"
  note ok = vm_invD(2) [OF inv]
  have "\<exists>vm'. kfold (g t) [0..<N] vm = Some vm' \<and> ?I N vm'"
  proof (rule kfold_upto)
    show "?I 0 vm" using release_refl [OF inv, of s p t] by (intro exI [of _ G]) simp
    fix i vm1 assume i: "i < N" and "?I i vm1"
    then obtain G1 where rel: "release_rel S s p {..<i} t G vm G1 vm1" and z: "z \<longrightarrow> (\<forall>j < i. \<not> bit (vm_tab vm1 t j) 0)"
      by blast
    note r = release_relD [OF rel]
    have t1: "at S G1 s p t" using t r(2) [of s p t] by auto
    have ti: "vm_tab vm1 t i = G1 t i" using r(4) [of i] agree(1) [OF i] by simp
    have ui: "vm_tab vm1 u = G1 u" if "u \<in> under S G1 s p {i}" for u
    proof -
      have u: "u \<in> under S G s p {i}" using that r(2) by (auto simp: under_def)
      hence "u \<notin> under S G s p {..<i}" using under_disjoint [OF ok, of i "{..<i}" s p] by auto
      moreover have "u \<noteq> t" using under_not_self [OF ok t] u by blast
      moreover have "u \<in> under S G s p {..<N}" using u under_mono [of "{i}" "{..<N}" S G s p] i by auto
      ultimately show ?thesis using r(3) agree(2) by simp
    qed
    obtain vm2 G2 where s2: "g t i vm1 = Some vm2" "release_rel S s p {i} t G1 vm1 G2 vm2" "z \<longrightarrow> \<not> bit (vm_tab vm2 t i) 0"
      using step r(1) t1 p N [OF i] ti ui unfolding release_step_def by blast
    have "release_rel S s p {..<Suc i} t G vm G2 vm2"
      using release_trans [OF rel s2(2)] by (simp add: lessThan_Suc)
    moreover have "\<forall>j < Suc i. \<not> bit (vm_tab vm2 t j) 0" if z
      using that z s2(3) release_relD(4) [OF s2(2)] by (auto simp: less_Suc_eq)
    ultimately show "\<exists>vm''. g t i vm1 = Some vm'' \<and> ?I (Suc i) vm''" using s2(1) by blast
  qed
  thus ?thesis by blast
qed

lemma release_child:
  assumes ok: "trees_ok S G P" and t: "at S G s p t" and p: "length p < 3" "upath (p @ [i])" and c: "at S G s (p @ [i]) c"
    and rel: "release_rel S s (p @ [i]) {..<512} c G vm G1 vm1"
    and vm2: "vm_tab vm2 = fill c f (vm_tab vm1)" "vm_mem vm2 = vm_mem vm1" "vm_kernel vm2 = vm_kernel vm1"
      "phys_inv (vm_phys vm2)" "data_same (vm_phys vm1) (vm_phys vm2)"
      "owned_pages PU_PAGING (vm_phys vm2) = owned_pages PU_PAGING (vm_phys vm1) - {c}"
  shows "release_rel S s p {i} t G vm (store t i 0 G1) vm2"
proof -
  note r = release_relD [OF rel]
  let ?G = "store t i 0 G1"
  have tc: "t \<noteq> c" using trees_okD(2) [OF ok t, of s "p @ [i]"] c by auto
  have t1: "at S G1 s p t" using t r(2) [of s p t] by auto
  have c1: "at S G1 s (p @ [i]) c" using c r(2) [of s "p @ [i]" c] by auto
  have zero: "\<forall>j < 512. \<not> bit (G1 c j) 0"
  proof (intro allI impI)
    fix j :: nat assume "j < 512"
    thus "\<not> bit (G1 c j) 0" using r(5) [of j] p(2) upath_snoc [of "p @ [i]" j] by simp
  qed
  note ok1 = vm_invD(2) [OF r(1)]
  have at2: "at S ?G s' q u \<longleftrightarrow> at S G s' q u \<and> \<not> (s' = s \<and> (\<exists>q'. q = p @ i # q'))" for s' q u
  proof -
    have "at S ?G s' q u \<longleftrightarrow> at S G1 s' q u \<and> u \<noteq> c" by (rule at_cut [OF ok1 t1 p c1 zero])
    also have "\<dots> \<longleftrightarrow> at S G s' q u \<and> \<not> (s' = s \<and> (\<exists>j r. j < 512 \<and> q = (p @ [i]) @ j # r)) \<and> u \<noteq> c" using r(2) by auto
    also have "\<dots> \<longleftrightarrow> at S G s' q u \<and> \<not> (s' = s \<and> (\<exists>q'. q = p @ i # q'))"
    proof -
      have "u = c \<longleftrightarrow> s' = s \<and> q = p @ [i]" if "at S G s' q u"
        using that c trees_okD(2) [OF ok c, of s' q] by (auto simp: at_def)
      moreover have "j < 512" if "at S G s' (p @ i # j # r) u" for j r using that by (simp add: at_def upath_def)
      ultimately show ?thesis by (auto simp: neq_Nil_conv) (metis list.exhaust)+
    qed
    finally show ?thesis .
  qed
  have under: "under S G s p {i} = insert c (under S G s (p @ [i]) {..<512})"
  proof (rule set_eqI)
    fix u
    have lt: "j < 512" if "at S G s (p @ i # j # r) u" for j r using that by (simp add: at_def upath_def)
    have "u = c" if "at S G s (p @ [i]) u" using that c by (simp add: at_def)
    thus "u \<in> under S G s p {i} \<longleftrightarrow> u \<in> insert c (under S G s (p @ [i]) {..<512})"
      using c lt by (auto simp: under_def) (metis list.exhaust)+
  qed
  have below: "(\<Union>j < 512. below (p @ [i]) j) = below p i"
    using below_snoc [OF p(1), of i] by (simp add: below_upto_def)
  have V: "view S ?G = view S G1" by (rule view_cut [OF ok1 t1 p c1 zero])
  have V1: "view S G1 = cleared s (below p i) (view S G)" using rel below by (simp add: release_rel_def)
  have inv2: "vm_inv S ?G (vm_phys vm2)"
    using trees_cut [OF ok1 t1 p c1 zero] vm2(4,6) refs_data_same [OF vm_invD(3) [OF r(1)] vm2(5)]
    by (simp add: vm_inv_def V)
  have "owned_pages PU_PAGING (vm_phys vm2) = owned_pages PU_PAGING (vm_phys vm) - under S G s p {i}"
    using vm2(6) r(6) under by auto
  moreover have "vm_tab vm2 u = vm_tab vm u \<and> ?G u = G u" if "u \<notin> under S G s p {i}" "u \<noteq> t" for u
    using r(3) [of u] that under vm2(1) by (simp add: fill_other store_def)
  moreover have "vm_tab vm2 t j = vm_tab vm t j \<and> ?G t j = G t j" if "j \<noteq> i" for j
  proof -
    have "t \<notin> under S G s (p @ [i]) {..<512}" using under_not_self [OF ok t, of "{i}"] under by simp
    thus ?thesis using r(3) [of t] tc that vm2(1) by (simp add: fill_other store_other)
  qed
  moreover have "data_set (vm_phys vm2) = data_set (vm_phys vm) \<inter> kept (view S G) (view S ?G)"
    using rel data_sameD [OF vm2(5)] by (simp add: release_rel_def V)
  moreover have "kern_same (vm_phys vm) (vm_phys vm2)"
    using kern_same_trans [OF r(7)] vm2(5) by (simp add: data_same_def)
  ultimately show ?thesis using inv2 at2 V V1 rel vm2(2,3) unfolding release_rel_def by auto
qed

lemma release_entry_step:
  assumes step: "release_step S s n False g"
  shows "release_step S s (Suc n) False (release_entry (\<lambda>t. kfold (g t) [0..<512]))"
  unfolding release_step_def
proof (intro allI impI)
  fix G :: table_map and vm :: vm and p t i
  assume inv: "vm_inv S G (vm_phys vm)" and t: "at S G s p t" and p: "length p + Suc n = 3" and up: "upath (p @ [i])"
    and e: "vm_tab vm t i = G t i" and agree: "\<forall>u \<in> under S G s p {i}. vm_tab vm u = G u"
  let ?f = "release_entry (\<lambda>t. kfold (g t) [0..<512])"
  let ?goal = "\<exists>vm' G'. ?f t i vm = Some vm' \<and> release_rel S s p {i} t G vm G' vm' \<and> (False \<longrightarrow> \<not> bit (vm_tab vm' t i) 0)"
  have p3: "length p < 3" using p by simp
  note ok = vm_invD(2) [OF inv]
  show ?goal
  proof (cases "bit (G t i) 0")
    case False
    thus ?goal using release_absent [OF inv t False] e by (auto simp: release_entry_def)
  next
    case True
    define c where "c = pte_phys (G t i)"
    have c: "at S G s (p @ [i]) c" using at_snoc [OF t p3 up True] by (simp add: c_def)
    have cu: "c \<in> under S G s p {i}" using c by (auto simp: under_def)
    have sub: "u \<in> under S G s p {i}" if "u \<in> under S G s (p @ [i]) {..<512}" for u
      using that by (auto simp: under_def)
    obtain vm1 G1 where r1: "kfold (g c) [0..<512] vm = Some vm1" "release_rel S s (p @ [i]) {..<512} c G vm G1 vm1"
    proof -
      have "\<exists>vm' G'. kfold (g c) [0..<512] vm = Some vm' \<and> release_rel S s (p @ [i]) {..<512} c G vm G' vm'
         \<and> (False \<longrightarrow> (\<forall>i < 512. \<not> bit (vm_tab vm' c i) 0))"
      proof (rule release_loop [OF step inv c])
        show "length (p @ [i]) + n = 3" using p by simp
        show "upath ((p @ [i]) @ [j])" if "j < 512" for j using up that upath_snoc [of "p @ [i]" j] by simp
        show "vm_tab vm c j = G c j" for j using agree cu by simp
        show "vm_tab vm u = G u" if "u \<in> under S G s (p @ [i]) {..<512}" for u using agree sub [OF that] by simp
      qed
      thus thesis using that by blast
    qed
    have "at S G1 s (p @ [i]) c" using c release_relD(2) [OF r1(2), of s "p @ [i]" c] by auto
    hence "c \<in> owned_pages PU_PAGING (vm_phys vm1)"
      by (rule trees_okD(1) [OF vm_invD(2) [OF release_relD(1) [OF r1(2)]]])
    then obtain ph where ph: "amd64_mm_pool_free c vm1 = Some (vm1\<lparr>vm_phys := ph, vm_tab := fill c (\<lambda>_. NOT 0) (vm_tab vm1)\<rparr>)"
      "phys_inv ph" "data_same (vm_phys vm1) ph" "owned_pages PU_PAGING ph = owned_pages PU_PAGING (vm_phys vm1) - {c}"
      using free_table_ok [OF vm_invD(1) [OF release_relD(1) [OF r1(2)]]] by blast
    let ?vm = "vm1\<lparr>vm_phys := ph, vm_tab := fill c (\<lambda>_. NOT 0) (vm_tab vm1)\<rparr>"
    have "release_rel S s p {i} t G vm (store t i 0 G1) ?vm"
      by (rule release_child [OF ok t p3 up c r1(2)]) (use ph in simp_all)
    moreover have "?f t i vm = Some ?vm" using True e r1(1) ph(1) by (simp add: release_entry_def c_def)
    ultimately show ?goal by blast
  qed
qed

lemma release_pml4_step:
  assumes step: "release_step S s n False (release_entry release_pdpt)"
  shows "release_step S s n True release_pml4_entry"
  unfolding release_step_def
proof (intro allI impI)
  fix G :: table_map and vm :: vm and p t i
  assume a: "vm_inv S G (vm_phys vm)" "at S G s p t" "length p + n = 3" "upath (p @ [i])" "vm_tab vm t i = G t i"
    "\<forall>u \<in> under S G s p {i}. vm_tab vm u = G u"
  let ?goal = "\<exists>vm' G'. release_pml4_entry t i vm = Some vm' \<and> release_rel S s p {i} t G vm G' vm' \<and> (True \<longrightarrow> \<not> bit (vm_tab vm' t i) 0)"
  show ?goal
  proof (cases "bit (G t i) 0")
    case False
    thus ?goal using release_absent [OF a(1,2) False] a(5) by (auto simp: release_pml4_entry_def)
  next
    case True
    obtain vm1 G1 where r: "release_entry release_pdpt t i vm = Some vm1" "release_rel S s p {i} t G vm G1 vm1"
      using step a unfolding release_step_def by blast
    have "release_rel S s p {i} t G vm G1 (set_entry t i 0 vm1)"
      using r(2) under_not_self [OF vm_invD(2) [OF a(1)] a(2), of "{i}"]
      unfolding release_rel_def by (auto simp: store_def)
    moreover have "release_pml4_entry t i vm = Some (set_entry t i 0 vm1)"
      using True a(5) r(1) by (simp add: release_pml4_entry_def)
    ultimately show ?goal by (intro exI [of _ "set_entry t i 0 vm1"] exI [of _ G1]) simp
  qed
qed

lemma release_levels: "release_step S s 3 True release_pml4_entry"
proof -
  have pt: "release_pt = (\<lambda>t. kfold (release_page t) [0..<512])" by (rule ext)+ (simp add: release_pt_def)
  have pd: "release_pd = (\<lambda>t. kfold (release_entry release_pt t) [0..<512])" by (rule ext)+ (simp add: release_pd_def)
  have pdpt: "release_pdpt = (\<lambda>t. kfold (release_entry release_pd t) [0..<512])" by (rule ext)+ (simp add: release_pdpt_def)
  have "release_step S s 1 False (release_entry release_pt)" using release_entry_step [OF release_page_step, folded pt] by simp
  hence "release_step S s 2 False (release_entry release_pd)"
    using release_entry_step [of S s 1 "release_entry release_pt", folded pd] by (simp add: numeral_2_eq_2)
  hence "release_step S s 3 False (release_entry release_pdpt)"
    using release_entry_step [of S s 2 "release_entry release_pd", folded pdpt] by (simp add: numeral_3_eq_3)
  thus ?thesis by (rule release_pml4_step)
qed

section \<open>The whole release\<close>

lemma at_agree:
  assumes agree: "\<And>s q u j. at S G s q u \<Longrightarrow> upath (q @ [j]) \<Longrightarrow> T u j = G u j \<or> \<not> bit (T u j) 0 \<and> \<not> bit (G u j) 0"
  shows "at S T s q u = at S G s q u" "trees_ok S G P \<Longrightarrow> trees_ok S T P" "view S T = view S G"
proof -
  have walk: "walk T s q = walk G s q" if "s \<in> S" "upath q" "length q \<le> 3" for s q
    using that
  proof (induction q rule: rev_induct)
    case (snoc j q)
    have up: "upath q" using snoc.prems by (simp add: upath_snoc)
    hence IH: "walk T s q = walk G s q" using snoc by simp
    show ?case
    proof (cases "walk G s q")
      case (Some u)
      hence "at S G s q u" using snoc.prems up by (simp add: at_def)
      hence "T u j = G u j \<or> \<not> bit (T u j) 0 \<and> \<not> bit (G u j) 0" by (rule agree) (use snoc.prems in simp)
      thus ?thesis using Some IH by (auto simp: walk_snoc)
    qed (simp add: walk_snoc IH)
  qed simp
  show at: "at S T s q u = at S G s q u" for s q u using walk by (auto simp: at_def)
  show "trees_ok S T P" if "trees_ok S G P" using that agree unfolding trees_ok_def at by metis
  show "view S T = view S G"
  proof (rule ext, clarify)
    fix s q
    show "view S T (s, q) = view S G (s, q)"
    proof (cases "s \<in> S \<and> upath q \<and> length q = 4")
      case True
      then obtain r j where q: "q = r @ [j]" "length r = 3" by (cases q rule: rev_cases) auto
      have r: "upath r" using True q by (simp add: upath_snoc)
      have "walk T s r = walk G s r" using True q r by (intro walk) auto
      moreover have "T u j = G u j \<or> \<not> bit (T u j) 0 \<and> \<not> bit (G u j) 0" if "walk G s r = Some u" for u
        using that True q r by (intro agree [of s r]) (auto simp: at_def)
      ultimately show ?thesis using q True by (cases "walk G s r") (auto simp: view_def)
    qed (auto simp: view_def)
  qed
qed

lemma release_ok:
  assumes inv: "vm_ok S vm" and s: "s \<in> S" "s \<noteq> vm_kernel vm"
  shows "\<exists>vm'. mm_space_release s vm = Some vm' \<and> vm_ok S vm'
     \<and> vm_view S vm' = (\<lambda>(s', p). if s' = s then None else vm_view S vm (s', p))
     \<and> vm_mem vm' = vm_mem vm \<and> data_set (vm_phys vm') = data_set (vm_phys vm) \<inter> kept (vm_view S vm) (vm_view S vm')
     \<and> owned_pages PU_PAGING (vm_phys vm') = owned_pages PU_PAGING (vm_phys vm) - {u. \<exists>q. q \<noteq> [] \<and> at S (vm_tab vm) s q u}
     \<and> (\<forall>q u. at S (vm_tab vm') s q u \<longrightarrow> q = []) \<and> (\<forall>s' q u. s' \<noteq> s \<longrightarrow> at S (vm_tab vm') s' q u = at S (vm_tab vm) s' q u)
     \<and> kern_same (vm_phys vm) (vm_phys vm') \<and> vm_kernel vm' = vm_kernel vm"
proof -
  let ?N = AMD64_PML4I_USER_END and ?T = "vm_tab vm"
  note ok = vm_invD(2) [OF inv]
  obtain vm' G where run: "kfold (release_pml4_entry s) [0..<?N] vm = Some vm'"
    and rel: "release_rel S s [] {..<?N} s ?T vm G vm'" and z: "\<forall>i < ?N. \<not> bit (vm_tab vm' s i) 0"
    using release_loop [OF release_levels inv at_root [OF s(1)], of ?N] by (auto simp: upath_def AMD64_PML4I_USER_END_def)
  note r = release_relD [OF rel]
  have "j < ?N" if "at S ?T s (j # q) u" for j q u using that by (simp add: at_def upath_def)
  hence under: "under S ?T s [] {..<?N} = {u. \<exists>q. q \<noteq> [] \<and> at S ?T s q u}"
    by (auto simp: under_def neq_Nil_conv)
  have atG: "at S G s' q u \<longleftrightarrow> at S ?T s' q u \<and> (s' = s \<longrightarrow> q = [])" for s' q u
    using r(2) [of s' q u] by (cases q) (auto simp: at_def upath_def)
  have agree: "vm_tab vm' u j = G u j \<or> \<not> bit (vm_tab vm' u j) 0 \<and> \<not> bit (G u j) 0"
    if u: "at S G s' q u" "upath (q @ [j])" for s' q u j
  proof (cases "s' = s")
    case True
    hence "q = []" "at S ?T s q u" using u(1) atG by auto
    hence "q = []" "u = s" by (auto simp: at_def)
    thus ?thesis using z r(5) [of j] u(2) by (simp add: upath_def)
  next
    case False
    have "at S ?T s' q u" using u(1) atG by simp
    hence "u \<notin> under S ?T s [] {..<?N}" "u \<noteq> s"
      using trees_okD(2) [OF ok] False at_root [OF s(1)] unfolding under by blast+
    thus ?thesis using r(3) [of u] by simp
  qed
  have ag1: "at S (vm_tab vm') s' q u = at S G s' q u" for s' q u by (rule at_agree(1)) (rule agree)
  have ag2: "trees_ok S (vm_tab vm') P" if "trees_ok S G P" for P using _ that by (rule at_agree(2)) (rule agree)
  have ag3: "view S (vm_tab vm') = view S G" by (rule at_agree(3)) (rule agree)
  have "(\<Union>j < ?N. below [] j) = below_upto [] ?N" by (simp add: below_upto_def)
  hence VG: "view S G = cleared s (below_upto [] ?N) (vm_view S vm)" using rel by (simp add: release_rel_def)
  have V: "vm_view S vm' = (\<lambda>(s', p). if s' = s then None else vm_view S vm (s', p))"
  proof (rule ext, clarify)
    fix s' p
    have "vm_view S vm (s', p) = None" if "p \<notin> below_upto [] ?N"
      using that view_SomeD [of S ?T s' p] all_below [of p] by (cases "vm_view S vm (s', p)") auto
    thus "vm_view S vm' (s', p) = (if s' = s then None else vm_view S vm (s', p))"
      unfolding ag3 VG by (auto simp: cleared_def)
  qed
  have "vm_ok S vm'" using r(1) ag2 ag3 by (simp add: vm_inv_def)
  moreover have "mm_space_release s vm = Some vm'" using run s(2) by (simp add: mm_space_release_def)
  moreover have "data_set (vm_phys vm') = data_set (vm_phys vm) \<inter> kept (vm_view S vm) (vm_view S vm')" "vm_mem vm' = vm_mem vm"
    using rel ag3 by (simp_all add: release_rel_def)
  moreover have "at S (vm_tab vm') s q u \<Longrightarrow> q = []" for q u using ag1 atG by simp
  moreover have "s' \<noteq> s \<Longrightarrow> at S (vm_tab vm') s' q u = at S ?T s' q u" for s' q u using ag1 atG by simp
  moreover have "vm_kernel vm' = vm_kernel vm" using rel by (simp add: release_rel_def)
  ultimately show ?thesis using V r(6,7) under by blast
qed

text \<open>A space without tables can be left out.\<close>

lemma drop_space:
  assumes ok: "trees_ok S T P" and s: "s \<in> S" and none: "\<And>p. view S T (s, p) = None"
  shows "trees_ok (S - {s}) (fill s f T) (P - {s})" "view (S - {s}) (fill s f T) = view S T"
proof -
  have at: "at (S - {s}) T s' q u \<longleftrightarrow> at S T s' q u \<and> s' \<noteq> s" for s' q u by (auto simp: at_def)
  have ok1: "trees_ok (S - {s}) T (P - {s})"
    using ok at_root [OF s, of T] unfolding trees_ok_def at by blast
  show "trees_ok (S - {s}) (fill s f T) (P - {s})" by (rule trees_fresh [OF ok1]) simp
  have "view (S - {s}) (fill s f T) = view (S - {s}) T" by (rule view_fresh [OF ok1]) simp
  also have "\<dots> = view S T"
  proof (rule ext, clarify)
    fix s' p
    show "view (S - {s}) T (s', p) = view S T (s', p)" using none by (cases "s' = s") (auto simp: view_def)
  qed
  finally show "view (S - {s}) (fill s f T) = view S T" .
qed

lemma space_free_ok:
  assumes inv: "vm_ok S vm" and s: "s \<in> S" "s \<noteq> vm_kernel vm"
  shows "\<exists>vm'. mm_space_free s vm = Some vm' \<and> vm_ok (S - {s}) vm'
     \<and> vm_view (S - {s}) vm' = (\<lambda>(s', p). if s' = s then None else vm_view S vm (s', p))
     \<and> (\<forall>s' v. s' \<noteq> s \<longrightarrow> user_byte (S - {s}) vm' s' v = user_byte S vm s' v)
     \<and> data_set (vm_phys vm') = {k \<in> data_set (vm_phys vm). mapped (vm_view S vm) k = {} \<or> mapped (vm_view (S - {s}) vm') k \<noteq> {}}
     \<and> owned_pages PU_PAGING (vm_phys vm') = owned_pages PU_PAGING (vm_phys vm) - {u. \<exists>q. at S (vm_tab vm) s q u}
     \<and> kern_same (vm_phys vm) (vm_phys vm') \<and> vm_kernel vm' = vm_kernel vm"
proof -
  obtain vm1 where run: "mm_space_release s vm = Some vm1" and inv1: "vm_ok S vm1"
    and V: "vm_view S vm1 = (\<lambda>(s', p). if s' = s then None else vm_view S vm (s', p))" and m: "vm_mem vm1 = vm_mem vm"
    and d: "data_set (vm_phys vm1) = data_set (vm_phys vm) \<inter> kept (vm_view S vm) (vm_view S vm1)"
    and own: "owned_pages PU_PAGING (vm_phys vm1) = owned_pages PU_PAGING (vm_phys vm) - {u. \<exists>q. q \<noteq> [] \<and> at S (vm_tab vm) s q u}"
    and ks: "kern_same (vm_phys vm) (vm_phys vm1)" "vm_kernel vm1 = vm_kernel vm"
    using release_ok [OF assms] by blast
  note ok1 = vm_invD(2) [OF inv1]
  have "s \<in> owned_pages PU_PAGING (vm_phys vm1)" by (rule trees_okD(1) [OF ok1 at_root [OF s(1)]])
  then obtain ph where ph: "amd64_mm_pool_free s vm1 = Some (vm1\<lparr>vm_phys := ph, vm_tab := fill s (\<lambda>_. NOT 0) (vm_tab vm1)\<rparr>)"
      "phys_inv ph" "data_same (vm_phys vm1) ph" "owned_pages PU_PAGING ph = owned_pages PU_PAGING (vm_phys vm1) - {s}"
    using free_table_ok [OF vm_invD(1) [OF inv1]] by blast
  let ?vm = "vm1\<lparr>vm_phys := ph, vm_tab := fill s (\<lambda>_. NOT 0) (vm_tab vm1)\<rparr>"
  have none: "vm_view S vm1 (s, p) = None" for p by (simp add: V)
  note dr = drop_space [OF ok1 s(1) none, of "\<lambda>_. NOT 0"]
  have V2: "vm_view (S - {s}) ?vm = (\<lambda>(s', p). if s' = s then None else vm_view S vm (s', p))" using dr(2) V by simp
  have "vm_ok (S - {s}) ?vm"
    using dr ph(2,4) refs_data_same [OF vm_invD(3) [OF inv1] ph(3)] by (simp add: vm_inv_def)
  moreover have "mm_space_free s vm = Some ?vm" using run ph(1) by (simp add: mm_space_free_def)
  moreover have "data_set (vm_phys ?vm) = {k \<in> data_set (vm_phys vm). mapped (vm_view S vm) k = {} \<or> mapped (vm_view (S - {s}) ?vm) k \<noteq> {}}"
    using d data_sameD [OF ph(3)] dr(2) by (auto simp: kept_def)
  moreover have "owned_pages PU_PAGING (vm_phys ?vm) = owned_pages PU_PAGING (vm_phys vm) - {u. \<exists>q. at S (vm_tab vm) s q u}"
  proof -
    have "at S (vm_tab vm) s [] u \<longleftrightarrow> u = s" for u using s(1) by (auto simp: at_def)
    hence "(\<exists>q. at S (vm_tab vm) s q u) \<longleftrightarrow> u = s \<or> (\<exists>q. q \<noteq> [] \<and> at S (vm_tab vm) s q u)" for u by metis
    hence Y: "{u. \<exists>q. at S (vm_tab vm) s q u} = insert s {u. \<exists>q. q \<noteq> [] \<and> at S (vm_tab vm) s q u}"
      by (intro set_eqI) (simp only: mem_Collect_eq insert_iff)
    have "owned_pages PU_PAGING (vm_phys ?vm) = owned_pages PU_PAGING (vm_phys vm1) - {s}" using ph(4) by simp
    also have "\<dots> = owned_pages PU_PAGING (vm_phys vm) - {u. \<exists>q. q \<noteq> [] \<and> at S (vm_tab vm) s q u} - {s}" unfolding own ..
    also have "\<dots> = owned_pages PU_PAGING (vm_phys vm) - {u. \<exists>q. at S (vm_tab vm) s q u}" unfolding Y by (rule Diff_insert [symmetric])
    finally show ?thesis .
  qed
  moreover have "user_byte (S - {s}) ?vm s' v = user_byte S vm s' v" if "s' \<noteq> s" for s' v
    unfolding user_byte_def V2 using that m by simp
  moreover have "kern_same (vm_phys vm) (vm_phys ?vm)" using kern_same_trans [OF ks(1)] ph(3) by (simp add: data_same_def)
  moreover have "vm_kernel ?vm = vm_kernel vm" using ks(2) by simp
  ultimately show ?thesis using V2 by blast
qed

text \<open>
  C5: Releasing an address space loses nothing and leaks nothing. \<open>mm_space_free\<close> of a space other than the
  kernel's runs without an assertion failure; the space translates nothing any more, every other space
  translates as before and reads the same bytes; exactly the tables of the space are given back, its PML4
  included; of the frames exactly those are given back that were mapped and that no other space maps; and
  the invariant holds for the remaining spaces.
\<close>

theorem space_free_exact:
  assumes inv: "vm_ok S vm" and s: "s \<in> S" "s \<noteq> vm_kernel vm"
  shows "\<exists>vm'. mm_space_free s vm = Some vm' \<and> vm_ok (S - {s}) vm'
     \<and> vm_view (S - {s}) vm' = (\<lambda>(s', p). if s' = s then None else vm_view S vm (s', p))
     \<and> (\<forall>s' v. s' \<noteq> s \<longrightarrow> user_byte (S - {s}) vm' s' v = user_byte S vm s' v)
     \<and> data_set (vm_phys vm') = {k \<in> data_set (vm_phys vm). mapped (vm_view S vm) k = {} \<or> mapped (vm_view (S - {s}) vm') k \<noteq> {}}
     \<and> owned_pages PU_PAGING (vm_phys vm') = owned_pages PU_PAGING (vm_phys vm) - {u. \<exists>q. at S (vm_tab vm) s q u}"
  using space_free_ok [OF assms] by blast

theorem space_free_exact_witness:
  "\<exists>vm'. mm_space_free demo_A (demo_vm MM_PAGE_USER) = Some vm' \<and> vm_ok (demo_S - {demo_A}) vm'
     \<and> 258 \<notin> data_set (vm_phys vm')"
proof -
  have "demo_A \<noteq> vm_kernel (demo_vm MM_PAGE_USER)" by (simp add: demo_A_def MM_PAGE_SIZE_def)
  then obtain vm' where vm': "mm_space_free demo_A (demo_vm MM_PAGE_USER) = Some vm'" "vm_ok (demo_S - {demo_A}) vm'"
    "vm_view (demo_S - {demo_A}) vm' = (\<lambda>(s', p). if s' = demo_A then None else vm_view demo_S (demo_vm MM_PAGE_USER) (s', p))"
    "data_set (vm_phys vm') = {k \<in> data_set (vm_phys (demo_vm MM_PAGE_USER)). mapped (vm_view demo_S (demo_vm MM_PAGE_USER)) k = {}
       \<or> mapped (vm_view (demo_S - {demo_A}) vm') k \<noteq> {}}"
    using space_free_exact [OF demo_vm_ok demo_vm_simps(6)] by blast
  have "(demo_A, [0, 0, 0, 0]) \<in> mapped (vm_view demo_S (demo_vm MM_PAGE_USER)) 258"
    by (simp add: mapped_def demo_view mk_pte(2))
  moreover have "mapped (vm_view (demo_S - {demo_A}) vm') 258 = {}"
    unfolding vm'(3) by (auto simp: mapped_def demo_view)
  ultimately have "258 \<notin> data_set (vm_phys vm')" unfolding vm'(4) by blast
  thus ?thesis using vm' by blast
qed

section \<open>A new space\<close>

lemma add_space:
  assumes ok: "trees_ok S T P" and a: "a \<notin> P"
  shows "trees_ok (insert a S) (fill a (\<lambda>_. 0) T) (insert a P)" "view (insert a S) (fill a (\<lambda>_. 0) T) = view S T"
    "a \<notin> S"
proof -
  let ?T = "fill a (\<lambda>_. 0) T"
  show aS: "a \<notin> S" using trees_okD(1) [OF ok at_root] a by blast
  have wa: "walk ?T a q = (if q = [] then Some a else None)" for q by (cases q) simp_all
  have at: "at (insert a S) ?T s q u \<longleftrightarrow> at S T s q u \<or> s = a \<and> q = [] \<and> u = a" for s q u
  proof (cases "s = a")
    case True
    thus ?thesis using aS by (auto simp: at_def wa split: if_splits)
  next
    case False
    hence "at (insert a S) ?T s q u = at S ?T s q u" by (simp add: at_def)
    thus ?thesis using False at_fresh [OF ok a] by simp
  qed
  have na: "u \<noteq> a" if "at S T s q u" for s q u using trees_okD(1) [OF ok that] a by blast
  show "trees_ok (insert a S) ?T (insert a P)"
    unfolding trees_ok_def at
  proof (intro conjI allI impI)
    fix s p t assume "at S T s p t \<or> s = a \<and> p = [] \<and> t = a"
    thus "t \<in> insert a P" using trees_okD(1) [OF ok] by blast
  next
    fix s p s' p' t
    assume "at S T s p t \<or> s = a \<and> p = [] \<and> t = a" "at S T s' p' t \<or> s' = a \<and> p' = [] \<and> t = a"
    thus "s = s'" "p = p'" using trees_okD(2) [OF ok] na by blast+
  next
    fix s p t i
    assume u: "at S T s p t \<or> s = a \<and> p = [] \<and> t = a" and "length p < 3" "upath (p @ [i])" "bit (?T t i) 0"
    hence "t \<noteq> a" by auto
    hence "at S T s p t" "?T t i = T t i" using u by (auto simp: fill_other)
    thus "\<not> bit (?T t i) 7" using trees_okD(3) [OF ok] \<open>length p < 3\<close> \<open>upath (p @ [i])\<close> \<open>bit (?T t i) 0\<close> by simp
  qed
  show "view (insert a S) ?T = view S T"
  proof (rule ext, clarify)
    fix s p
    show "view (insert a S) ?T (s, p) = view S T (s, p)"
    proof (cases "s = a")
      case True
      thus ?thesis using aS wa [of "butlast p"] by (auto simp: view_def)
    next
      case False
      hence "view (insert a S) ?T (s, p) = view S ?T (s, p)" by (simp add: view_def)
      thus ?thesis using view_fresh [OF ok a] by simp
    qed
  qed
qed

lemma new_space:
  assumes inv: "vm_ok S vm" and free: "ph_pages_free (vm_phys vm) \<noteq> 0"
  shows "\<exists>a vm'. amd64_mm_pool_alloc vm = Some (a, vm') \<and> a \<notin> S \<and> vm_ok (insert a S) vm' \<and> vm_view (insert a S) vm' = vm_view S vm
     \<and> vm_mem vm' = vm_mem vm \<and> vm_kernel vm' = vm_kernel vm \<and> (\<forall>i. vm_tab vm' a i = 0) \<and> (\<forall>s \<in> S. \<forall>q u. at S (vm_tab vm) s q u \<longrightarrow> vm_tab vm' u = vm_tab vm u)
     \<and> shrunk (vm_phys vm) (vm_phys vm') \<and> ph_pages_free (vm_phys vm) = Suc (ph_pages_free (vm_phys vm'))
     \<and> used_set (vm_phys vm') PU_PRIVATE = used_set (vm_phys vm) PU_PRIVATE"
proof -
  obtain k ph where run: "amd64_mm_pool_alloc vm
       = Some (k * MM_PAGE_SIZE, vm\<lparr>vm_phys := ph, vm_tab := fill (k * MM_PAGE_SIZE) (\<lambda>_. 0) (vm_tab vm)\<rparr>)"
    and took: "phys_took PU_PAGING {k} (vm_phys vm) ph" "ph_pages_free (vm_phys vm) = Suc (ph_pages_free ph)"
    using pool_alloc_ok [OF vm_invD(1) [OF inv] free] by blast
  note new = took_paging [OF took(1)]
  note ok = vm_invD(2) [OF inv]
  let ?a = "k * MM_PAGE_SIZE"
  note add = add_space [OF ok new(3)]
  have "vm_inv (insert ?a S) (fill ?a (\<lambda>_. 0) (vm_tab vm)) ph"
    using add refs_data_same [OF vm_invD(3) [OF inv] new(1)] took(1) new(2) by (simp add: vm_inv_def phys_took_def)
  moreover have "fill ?a (\<lambda>_. 0) (vm_tab vm) u = vm_tab vm u" if "at S (vm_tab vm) s q u" for s q u
    using trees_okD(1) [OF ok that] new(3) by (metis fill_other)
  ultimately show ?thesis using run took(2) shrunk_took [OF took(1)] add new(1) by (auto simp: data_same_def)
qed

end
