(* ===== verification/Mmap.thy ===== *)
theory Mmap
  imports Paging_Release Sys_File
begin

text \<open>
  Memory system calls (src/sys/mem/shmem.c): anonymous and device mappings, unmapping and shared memory
  segments, with \<open>blk_mmap\<close> of src/sys/block/blk.c and the frame buffer's \<open>display_blk_mmap\<close> of
  src/sys/display.c. Results are the sum of a negative error number and the value; the \<open>mmap\<close> function
  pointers of block devices are an argument. The address space of the calling process is passed as
  its PML4.
\<close>

abbreviation MAP_ANONYMOUS :: "32 word" where "MAP_ANONYMOUS \<equiv> BIT 0"
abbreviation MAP_SHARED :: "32 word" where "MAP_SHARED \<equiv> BIT 1"
abbreviation MAP_FIXED :: "32 word" where "MAP_FIXED \<equiv> BIT 3"
abbreviation PROT_WRITE :: "32 word" where "PROT_WRITE \<equiv> BIT 1"

section \<open>Mapping\<close>

definition mmap_page :: "nat \<Rightarrow> page_usage \<Rightarrow> 64 word \<Rightarrow> 64 word \<Rightarrow> vm \<Rightarrow> vm kern" where
  "mmap_page space map_usage map_flags v vm = do {
     (pa, vm) \<leftarrow> alloc_frame map_usage vm;
     pg \<leftarrow> get_page pa vm;
     mm_map_single space v pa map_flags (put_page pa (pg\<lparr>pg_flags := pg_flags pg OR PG_MMAPED\<rparr>) vm)
   }"

fun mmap_pages :: "nat \<Rightarrow> page_usage \<Rightarrow> 64 word \<Rightarrow> 64 word list \<Rightarrow> vm \<Rightarrow> vm kern" where
  "mmap_pages space map_usage map_flags [] vm = Some vm"
| "mmap_pages space map_usage map_flags (v # vs) vm = do {
     vm \<leftarrow> mmap_page space map_usage map_flags v vm;
     mmap_pages space map_usage map_flags vs vm
   }"

definition mmap_flags :: "32 word \<Rightarrow> 64 word" where
  "mmap_flags prot = MM_PAGE_USER OR (if prot AND PROT_WRITE \<noteq> 0 then MM_PAGE_WRITE else 0)"

definition mmap_usage :: "32 word \<Rightarrow> page_usage" where
  "mmap_usage flags = (if flags AND MAP_SHARED \<noteq> 0 then PU_SHARED else PU_PRIVATE)"

definition sys_mmap_anon :: "nat \<Rightarrow> 64 word \<Rightarrow> nat \<Rightarrow> 32 word \<Rightarrow> 32 word \<Rightarrow> vm \<Rightarrow> (int \<times> vm) kern" where
  "sys_mmap_anon space base page_count prot flags vm = do {
     vm \<leftarrow> mmap_pages space (mmap_usage flags) (mmap_flags prot) (page_range base page_count) vm;
     Some (0, vm)
   }"

definition mmap_findmem :: "nat \<Rightarrow> 64 word \<Rightarrow> nat \<Rightarrow> 32 word \<Rightarrow> vm \<Rightarrow> 64 word option kern" where
  "mmap_findmem space hint page_count flags vm =
     (if flags AND MAP_FIXED \<noteq> 0 then
        if hint = 0 \<or> hint AND mask 12 \<noteq> 0 then Some None
        else do {
          ok \<leftarrow> range_unmapped space (page_range hint page_count) vm;
          Some (if ok then Some hint else None)
        }
      else do {
        r \<leftarrow> vmfind space 0x100000000 0x400000000 page_count vm;
        kassert (r \<noteq> None);
        Some r
      })"

type_synonym blk_mmap_fn = "64 word \<Rightarrow> nat \<Rightarrow> 32 word \<Rightarrow> 32 word \<Rightarrow> vm \<Rightarrow> (int \<times> vm) kern"

definition blk_mmap :: "(nat \<Rightarrow> blk_mmap_fn option) \<Rightarrow> nat option \<Rightarrow> blk_mmap_fn" where
  "blk_mmap ops blk base page_count prot flags vm = do {
     dev \<leftarrow> blk;
     (case ops dev of
        Some f \<Rightarrow> f base page_count prot flags vm
      | None \<Rightarrow> Some (- EINVAL, vm))
   }"

definition sys_mmap ::
  "(nat \<Rightarrow> blk_mmap_fn option) \<Rightarrow> nat \<Rightarrow> nat \<Rightarrow> 64 word \<Rightarrow> 64 word \<Rightarrow> 32 word \<Rightarrow> 32 word \<Rightarrow> int \<Rightarrow> ('d, 'w) fsys \<Rightarrow> vm
     \<Rightarrow> ((int + 64 word) \<times> vm) kern" where
  "sys_mmap ops p space hint len prot flags fd s vm =
     (if len AND mask 12 \<noteq> 0 then Some (Inl (- EINVAL), vm)
      else do {
        let page_count = unat len div MM_PAGE_SIZE;
        r \<leftarrow> mmap_findmem space hint page_count flags vm;
        (case r of
           None \<Rightarrow> Some (Inl (- ENOMEM), vm)
         | Some base \<Rightarrow>
             if flags AND MAP_ANONYMOUS \<noteq> 0 then do {
               (res, vm) \<leftarrow> sys_mmap_anon space base page_count prot flags vm;
               Some (if res \<noteq> 0 then Inl res else Inr base, vm)
             }
             else (case get_fd p fd s of
                     None \<Rightarrow> Some (Inl (- EBADF), vm)
                   | Some i \<Rightarrow> do {
                       fl \<leftarrow> fy_files s i;
                       (if ofile_is_socket fl then Some (Inl (- EINVAL), vm)
                        else do {
                          v \<leftarrow> of_vnode fl;
                          vn \<leftarrow> vf_node (fy_vfs s) v;
                          (case vn_type vn of
                             VN_BLK \<Rightarrow> do {
                               (res, vm) \<leftarrow> blk_mmap ops (vn_dev vn) base page_count prot flags vm;
                               Some (if res \<noteq> 0 then Inl res else Inr base, vm)
                             }
                           | _ \<Rightarrow> Some (Inl (- EINVAL), vm))
                        })
                     }))
      })"

section \<open>Unmapping\<close>

definition munmap_page :: "nat \<Rightarrow> 64 word \<Rightarrow> vm \<Rightarrow> vm kern" where
  "munmap_page space v vm = do {
     (r, _) \<leftarrow> mm_map_get space v vm;
     (case r of
        None \<Rightarrow> Some vm
      | Some pa \<Rightarrow> do {
          pg \<leftarrow> get_page pa vm;
          (if pg_usage pg = PU_DEVICE then do {
             kassert (pg_refcount pg \<noteq> 0);
             (old, vm) \<leftarrow> mm_umap_single space v vm;
             kassert (old = Some pa);
             Some vm
           }
           else do {
             kassert (pg_flags pg AND PG_MMAPED \<noteq> 0);
             kassert (pg_refcount pg \<noteq> 0);
             (old, vm) \<leftarrow> mm_umap_single space v vm;
             kassert (old = Some pa);
             pg \<leftarrow> get_page pa vm;
             kassert (pg_usage pg = PU_SHARED \<or> pg_usage pg = PU_PRIVATE);
             (if pg_refcount pg = 0 then free_frame pa vm else Some vm)
           })
        })
   }"

fun munmap_pages :: "nat \<Rightarrow> 64 word list \<Rightarrow> vm \<Rightarrow> vm kern" where
  "munmap_pages space [] vm = Some vm"
| "munmap_pages space (v # vs) vm = do {
     vm \<leftarrow> munmap_page space v vm;
     munmap_pages space vs vm
   }"

definition sys_munmap :: "nat \<Rightarrow> 64 word \<Rightarrow> 64 word \<Rightarrow> vm \<Rightarrow> (int \<times> vm) kern" where
  "sys_munmap space addr len vm =
     (if addr AND mask 12 \<noteq> 0 then Some (- EINVAL, vm)
      else if KERNEL_VIRT_BASE \<le> addr then Some (- EACCES, vm)
      else if len AND mask 12 \<noteq> 0 then Some (- EINVAL, vm)
      else do {
        vm \<leftarrow> munmap_pages space (page_range addr (unat len div MM_PAGE_SIZE)) vm;
        Some (0, vm)
      })"

section \<open>Shared memory and the frame buffer\<close>

record shm_chunk =
  shm_id :: nat
  shm_pages :: "nat list"

record shm_state =
  g_shm_chunks :: "shm_chunk list"
  shm_last_id :: nat

fun shm_alloc :: "nat \<Rightarrow> vm \<Rightarrow> (nat list \<times> vm) kern" where
  "shm_alloc 0 vm = Some ([], vm)"
| "shm_alloc (Suc n) vm = do {
     (pa, vm) \<leftarrow> alloc_frame PU_SHARED vm;
     (pas, vm) \<leftarrow> shm_alloc n vm;
     Some (pa # pas, vm)
   }"

text \<open>\<open>list_add\<close> puts a chunk at the head of the list. The memory of the chunk itself is not modelled.\<close>

definition sys_shmget :: "64 word \<Rightarrow> shm_state \<Rightarrow> vm \<Rightarrow> (nat \<times> shm_state \<times> vm) kern" where
  "sys_shmget sz st vm = do {
     (pas, vm) \<leftarrow> shm_alloc (unat ((sz + of_nat MM_PAGE_SIZE - 1) div of_nat MM_PAGE_SIZE)) vm;
     let i = Suc (shm_last_id st);
     Some (i, \<lparr>g_shm_chunks = \<lparr>shm_id = i, shm_pages = pas\<rparr> # g_shm_chunks st, shm_last_id = i\<rparr>, vm)
   }"

fun shm_map :: "nat \<Rightarrow> (64 word \<times> nat) list \<Rightarrow> vm \<Rightarrow> vm kern" where
  "shm_map space [] vm = Some vm"
| "shm_map space ((v, pa) # ps) vm = do {
     pg \<leftarrow> get_page pa vm;
     kassert (pg_usage pg = PU_SHARED);
     vm \<leftarrow> mm_map_single space v pa (MM_PAGE_WRITE OR MM_PAGE_USER) vm;
     shm_map space ps vm
   }"

definition sys_shmat :: "nat \<Rightarrow> nat \<Rightarrow> shm_state \<Rightarrow> vm \<Rightarrow> ((int + 64 word) \<times> vm) kern" where
  "sys_shmat space i st vm =
     (case find (\<lambda>c. shm_id c = i) (g_shm_chunks st) of
        None \<Rightarrow> Some (Inl (- ENOENT), vm)
      | Some c \<Rightarrow> do {
          let n = length (shm_pages c);
          r \<leftarrow> vmfind space 0x100000000 0x400000000 n vm;
          virt_base \<leftarrow> r;
          vm \<leftarrow> shm_map space (zip (page_range virt_base n) (shm_pages c)) vm;
          Some (Inr virt_base, vm)
        })"

fun display_map :: "nat \<Rightarrow> 64 word \<Rightarrow> (64 word \<times> nat) list \<Rightarrow> vm \<Rightarrow> vm kern" where
  "display_map space pf [] vm = Some vm"
| "display_map space pf ((v, pa) # ps) vm = do {
     vm \<leftarrow> mm_map_single space v pa (pf OR MM_PAGE_USER) vm;
     display_map space pf ps vm
   }"

text \<open>The display is given by its pitch, its height in pixels and the physical address of its frame buffer.\<close>

definition display_blk_mmap :: "nat \<Rightarrow> 32 word \<Rightarrow> 32 word \<Rightarrow> nat \<Rightarrow> blk_mmap_fn" where
  "display_blk_mmap space pitch height_pixels framebuffer base page_count prot flags vm =
     (if unat ((pitch * height_pixels + 0x1000 - 1) div 0x1000) < page_count then Some (- EINVAL, vm)
      else do {
        let pf = (if prot AND PROT_WRITE \<noteq> 0 then MM_PAGE_WRITE else 0);
        vm \<leftarrow> display_map space pf
                (zip (page_range base page_count) (map (\<lambda>i. framebuffer + i * MM_PAGE_SIZE) [0..<page_count])) vm;
        Some (0, vm)
      })"

end
