(* ===== verification/Mmap_Maps.thy ===== *)
theory Mmap_Maps
  imports Mmap
begin

text \<open>
  Anonymous mappings: \<open>vmfind\<close> finds the lowest free range, \<open>sys_mmap\<close> fills it with fresh pages, and \<open>sys_munmap\<close>
  of the same range takes exactly these pages away again.
\<close>

section \<open>Addresses of pages\<close>

definition page_addr :: "nat \<Rightarrow> 64 word" where "page_addr i = of_nat (i * MM_PAGE_SIZE)"

text \<open>The page numbers that \<open>vmfind\<close> is asked for lie below 16 GiB.\<close>

lemma page_addr_bits: "i < 2 ^ 26 \<Longrightarrow> bit (page_addr i) n \<Longrightarrow> 12 \<le> n \<and> n < 38"
proof -
  assume i: "i < 2 ^ 26" and b: "bit (page_addr i) n"
  have *: "page_addr i = push_bit 12 (of_nat i)"
    by (simp add: page_addr_def push_bit_eq_mult MM_PAGE_SIZE_def mult.commute)
  have n: "12 \<le> n" "bit i (n - 12)" using b unfolding * by (auto simp: bit_push_bit_iff bit_of_nat_iff)
  moreover have "n - 12 < 26"
  proof (rule ccontr)
    assume "\<not> n - 12 < 26"
    hence "i < 2 ^ (n - 12)" using i power_increasing [of 26 "n - 12" "2::nat"] by simp
    thus False using n(2) by (simp add: bit_iff_odd)
  qed
  ultimately show ?thesis by simp
qed

lemma page_addr_user: "i < 2 ^ 26 \<Longrightarrow> user_addr (page_addr i)"
proof -
  assume i: "i < 2 ^ 26"
  have "drop_bit 39 (AMD64_MM_STRIPSX (page_addr i)) AND mask 9 = 0"
    by (rule bit_eqI) (use page_addr_bits [OF i] in \<open>force simp: bit_and_iff bit_drop_bit_eq AMD64_MM_STRIPSX_def\<close>)
  thus ?thesis by (simp add: user_addr_def pml4i_def pte_index_def AMD64_PML4I_USER_END_def)
qed

lemma page_addr_offset: "i < 2 ^ 26 \<Longrightarrow> page_offset (page_addr i) = 0" "i < 2 ^ 26 \<Longrightarrow> page_addr i AND mask 12 = 0"
proof -
  assume i: "i < 2 ^ 26"
  show "page_addr i AND mask 12 = 0"
    by (rule bit_eqI) (use page_addr_bits [OF i] in \<open>force simp: bit_and_iff bit_mask_iff\<close>)
  thus "page_offset (page_addr i) = 0" by (simp add: page_offset_def)
qed

lemma index_bits:
  assumes "pte_index m v = pte_index m w" "n < 9" "m + n < 48"
  shows "bit v (m + n) = bit w (m + n)"
proof -
  have "drop_bit m (AMD64_MM_STRIPSX v) AND mask 9 = drop_bit m (AMD64_MM_STRIPSX w) AND (mask 9 :: 64 word)"
    using assms(1) unfolding pte_index_def by (rule unsigned_word_eqI)
  hence "bit (drop_bit m (AMD64_MM_STRIPSX v) AND mask 9) n = bit (drop_bit m (AMD64_MM_STRIPSX w) AND (mask 9 :: 64 word)) n" by simp
  thus ?thesis using assms(2,3) by (simp add: bit_and_iff bit_mask_iff bit_drop_bit_eq AMD64_MM_STRIPSX_def)
qed

lemma page_addr_vpath_inj:
  assumes i: "i < 2 ^ 26" and j: "j < 2 ^ 26" and eq: "vpath (page_addr i) = vpath (page_addr j)"
  shows "i = j"
proof -
  let ?v = "page_addr i" and ?w = "page_addr j"
  have ix: "pte_index 12 ?v = pte_index 12 ?w" "pte_index 21 ?v = pte_index 21 ?w" "pte_index 30 ?v = pte_index 30 ?w"
    using eq by (simp_all add: vpath_def pti_def pdi_def pdpti_def)
  have "bit ?v n = bit ?w n" for n
  proof (cases "12 \<le> n \<and> n < 38")
    case True
    then consider "n < 21" | "21 \<le> n" "n < 30" | "30 \<le> n" by linarith
    thus ?thesis
    proof cases
      case 1 thus ?thesis using index_bits [OF ix(1), of "n - 12"] True by simp
    next
      case 2 thus ?thesis using index_bits [OF ix(2), of "n - 21"] by simp
    next
      case 3 thus ?thesis using index_bits [OF ix(3), of "n - 30"] True by simp
    qed
  qed (use page_addr_bits [OF i] page_addr_bits [OF j] in blast)
  hence "?v = ?w" by (simp add: bit_eq_iff)
  hence "unat ?v = unat ?w" by simp
  moreover have "unat (page_addr m) = m * MM_PAGE_SIZE" if "m < 2 ^ 26" for m
    unfolding page_addr_def using that by (subst unat_of_nat) (simp add: MM_PAGE_SIZE_def)
  ultimately show ?thesis using i j by (simp add: MM_PAGE_SIZE_def)
qed

lemma page_range_addr: "page_range (page_addr i) n = map page_addr [i..<i + n]"
proof -
  have "page_addr i + of_nat (j * MM_PAGE_SIZE) = page_addr (i + j)" for j
    by (simp add: page_addr_def algebra_simps)
  hence "page_range (page_addr i) n = map (\<lambda>j. page_addr (i + j)) [0..<n]" by (simp add: page_range_def)
  also have "\<dots> = map page_addr (map (\<lambda>j. j + i) [0..<n])" by (simp add: add.commute)
  also have "map (\<lambda>j. j + i) [0..<n] = [i..<i + n]" by (simp add: map_add_upt add.commute)
  finally show ?thesis .
qed

section \<open>Finding a range\<close>

lemma range_unmapped_view:
  assumes "vm_ok S vm" "s \<in> S" "\<forall>v \<in> set vs. user_addr v"
  shows "range_unmapped s vs vm = Some (\<forall>v \<in> set vs. vm_view S vm (s, vpath v) = None)"
  using assms(3)
proof (induction vs)
  case (Cons v vs)
  thus ?case using mm_map_get_view [OF assms(1,2), of v] by (cases "vm_view S vm (s, vpath v)") auto
qed simp

definition free_range :: "nat set \<Rightarrow> vm \<Rightarrow> nat \<Rightarrow> nat \<Rightarrow> nat \<Rightarrow> bool" where
  "free_range S vm s n i = (\<forall>j \<in> {i..<i + n}. vm_view S vm (s, vpath (page_addr j)) = None)"

lemma vmfind_from_ok:
  assumes inv: "vm_ok S vm" "s \<in> S" and lim: "lim \<le> 2 ^ 26" and ex: "\<exists>i \<ge> k. i + n \<le> lim \<and> free_range S vm s n i"
  shows "\<exists>i. vmfind_from s lim n k vm = Some (Some (page_addr i)) \<and> k \<le> i \<and> i + n \<le> lim \<and> free_range S vm s n i
     \<and> (\<forall>j. k \<le> j \<and> j < i \<longrightarrow> \<not> free_range S vm s n j)"
  using ex
proof (induction "Suc lim - k" arbitrary: k)
  case (Suc d)
  then obtain i where i: "k \<le> i" "i + n \<le> lim" "free_range S vm s n i" by blast
  have le: "k + n \<le> lim" using i by linarith
  have user: "\<forall>v \<in> set (page_range (page_addr k) n). user_addr v"
    using le lim page_addr_user by (auto simp: page_range_addr)
  have r: "range_unmapped s (page_range (page_addr k) n) vm = Some (free_range S vm s n k)"
    unfolding range_unmapped_view [OF inv user] by (auto simp: page_range_addr free_range_def)
  have run: "vmfind_from s lim n k vm = (if free_range S vm s n k then Some (Some (page_addr k)) else vmfind_from s lim n (Suc k) vm)"
    using le r by (subst vmfind_from.simps) (simp add: page_addr_def)
  show ?case
  proof (cases "free_range S vm s n k")
    case True
    thus ?thesis using run le by (intro exI [of _ k]) auto
  next
    case False
    hence "Suc k \<le> i" using i by (cases "k = i") auto
    then obtain i' where "vmfind_from s lim n (Suc k) vm = Some (Some (page_addr i'))" "Suc k \<le> i'" "i' + n \<le> lim"
      "free_range S vm s n i'" "\<forall>j. Suc k \<le> j \<and> j < i' \<longrightarrow> \<not> free_range S vm s n j"
    proof -
      have "d = Suc lim - Suc k" using Suc.hyps(2) by simp
      moreover have "\<exists>i \<ge> Suc k. i + n \<le> lim \<and> free_range S vm s n i" using i \<open>Suc k \<le> i\<close> by blast
      ultimately show thesis using Suc.hyps(1) [of "Suc k"] that by blast
    qed
    thus ?thesis using run False by (intro exI [of _ i']) (auto simp: Suc_le_eq nat_less_le)
  qed
qed auto

section \<open>Mapping fresh pages\<close>

definition set_flags :: "nat \<Rightarrow> phys \<Rightarrow> phys" where
  "set_flags k ph = ph\<lparr>mm_pages := (mm_pages ph)(k := (mm_pages ph k)\<lparr>pg_flags := pg_flags (mm_pages ph k) OR PG_MMAPED\<rparr>)\<rparr>"

lemma set_flags_sets:
  "used_set (set_flags k ph) u = used_set ph u" "free_set (set_flags k ph) = free_set ph"
  "refcount (set_flags k ph) j = refcount ph j" "pg_usage (mm_pages (set_flags k ph) j) = pg_usage (mm_pages ph j)"
  "ph_pages_free (set_flags k ph) = ph_pages_free ph" "data_set (set_flags k ph) = data_set ph"
  "owned_pages u (set_flags k ph) = owned_pages u ph" "pg_alloc (mm_pages (set_flags k ph) j) = pg_alloc (mm_pages ph j)"
proof -
  show rc: "refcount (set_flags k ph) j = refcount ph j" for j by (simp add: set_flags_def)
  show us: "pg_usage (mm_pages (set_flags k ph) j) = pg_usage (mm_pages ph j)" for j by (simp add: set_flags_def)
  show al: "pg_alloc (mm_pages (set_flags k ph) j) = pg_alloc (mm_pages ph j)" for j
    by (simp add: set_flags_def pg_alloc_def flag_simps)
  show used: "used_set (set_flags k ph) u = used_set ph u" for u by (simp add: used_set_def rc us al)
  show "free_set (set_flags k ph) = free_set ph" by (simp add: free_set_def al)
  show "data_set (set_flags k ph) = data_set ph" by (simp add: data_set_def used)
  show "owned_pages u (set_flags k ph) = owned_pages u ph" by (simp add: owned_pages_def used rc)
qed (simp add: set_flags_def)

lemma vm_inv_set_flags: "vm_inv S T ph \<Longrightarrow> vm_inv S T (set_flags k ph)"
proof -
  assume inv: "vm_inv S T ph"
  have "ph_alloc_pages (set_flags k ph) = ph_alloc_pages ph" by (simp add: set_flags_def)
  hence "phys_inv (set_flags k ph)" using vm_invD(1) [OF inv] by (simp add: phys_inv_def set_flags_sets)
  thus ?thesis using inv by (simp add: vm_inv_def refs_ok_def set_flags_sets)
qed

lemma missing_le: "missing T t is \<le> length is"
  by (induction "is" arbitrary: t) (auto intro: le_SucI)

definition mmaped :: "phys \<Rightarrow> nat \<Rightarrow> bool" where
  "mmaped ph k \<longleftrightarrow> bit (pg_flags (mm_pages ph k)) 1"

lemma mmap_page_ok:
  assumes inv: "vm_ok S vm" and s: "s \<in> S" "user_addr v" and none: "vm_view S vm (s, vpath v) = None"
    and pu: "pu = PU_PRIVATE \<or> pu = PU_SHARED" and free: "4 \<le> ph_pages_free (vm_phys vm)"
  shows "\<exists>k vm'. mmap_page s pu fl v vm = Some vm' \<and> vm_ok S vm'
     \<and> vm_view S vm' = (vm_view S vm)((s, vpath v) \<mapsto> mk_pte k fl)
     \<and> k \<notin> data_set (vm_phys vm) \<and> data_set (vm_phys vm') = insert k (data_set (vm_phys vm)) \<and> k \<in> used_set (vm_phys vm') pu
     \<and> mmaped (vm_phys vm') k \<and> (\<forall>j \<in> data_set (vm_phys vm). mm_pages (vm_phys vm') j = mm_pages (vm_phys vm) j)
     \<and> vm_mem vm' = vm_mem vm \<and> ph_pages_free (vm_phys vm) \<le> ph_pages_free (vm_phys vm') + 4"
proof -
  have "pu \<noteq> PU_UNKNOWN" "ph_pages_free (vm_phys vm) \<noteq> 0" using pu free by auto
  then obtain k ph where a: "alloc_frame pu vm = Some (k * MM_PAGE_SIZE, vm\<lparr>vm_phys := ph\<rparr>)"
    and took: "phys_took pu {k} (vm_phys vm) ph" and f1: "ph_pages_free (vm_phys vm) = Suc (ph_pages_free ph)"
    using alloc_frame_ok [OF vm_invD(1) [OF inv]] by blast
  note d = took_data [OF inv took pu]
  have kb: "k < PHYS_MAX_PAGES" using data_setD [OF d(2)] by simp
  have d': "data_set ph = insert k (data_set (vm_phys vm))"
    using took pu by (auto simp: phys_took_def data_set_def)
  have ku: "k \<in> used_set ph pu" using took by (simp add: phys_took_def)
  define vm1 where "vm1 = vm\<lparr>vm_phys := set_flags k ph\<rparr>"
  have put: "put_page (k * MM_PAGE_SIZE) ((mm_pages ph k)\<lparr>pg_flags := pg_flags (mm_pages ph k) OR PG_MMAPED\<rparr>) (vm\<lparr>vm_phys := ph\<rparr>) = vm1"
    by (simp add: put_page_def vm1_def set_flags_def)
  have run: "mmap_page s pu fl v vm = mm_map_single s v (k * MM_PAGE_SIZE) fl vm1"
    using a put get_page_data [OF kb, of "vm\<lparr>vm_phys := ph\<rparr>"] by (simp add: mmap_page_def)
  have ok1: "vm_ok S vm1" using vm_inv_set_flags [OF d(1)] by (simp add: vm1_def)
  have k1: "k \<in> data_set (vm_phys vm1)" using d(2) by (simp add: vm1_def set_flags_sets)
  have m3: "missing (vm_tab vm1) s (upper v) \<le> 3" using missing_le [of "vm_tab vm1" s "upper v"] by simp
  have "missing (vm_tab vm1) s (upper v) \<le> ph_pages_free (vm_phys vm1)"
    using m3 free f1 by (simp add: vm1_def set_flags_sets del: missing.simps)
  moreover have "vm_view S vm1 (s, vpath v) = None" using none by (simp add: vm1_def)
  ultimately obtain vm2 ph2 where m: "mm_map_single s v (k * MM_PAGE_SIZE) fl vm1 = Some vm2" "vm_ok S vm2"
    "vm_view S vm2 = (vm_view S vm1)((s, vpath v) \<mapsto> mk_pte k fl)" "data_same (vm_phys vm1) ph2"
    "vm_phys vm2 = set_refs k (Suc (refcount (vm_phys vm1) k)) ph2" "vm_mem vm2 = vm_mem vm1"
    "ph_pages_free (vm_phys vm1) = ph_pages_free (vm_phys vm2) + missing (vm_tab vm1) s (upper v)"
    using mm_map_single_view [OF ok1 s _ k1, of fl] by blast
  have rc0: "refcount (vm_phys vm1) k = 0" using took by (simp add: vm1_def set_flags_sets phys_took_def)
  have k2: "k \<in> data_set ph2" "Suc (refcount (vm_phys vm1) k) \<noteq> REFCOUNT_RESERVED"
    using k1 data_sameD [OF m(4)] rc0 by (simp_all add: REFCOUNT_RESERVED_def)
  have dset: "data_set (vm_phys vm2) = insert k (data_set (vm_phys vm))"
    using m(5) data_set_set_refs [OF k2] data_sameD [OF m(4)] d' by (simp add: vm1_def set_flags_sets)
  have same2: "mm_pages ph2 j = mm_pages (set_flags k ph) j" if "j \<in> data_set ph" for j
    using m(4) that by (simp add: data_same_def vm1_def set_flags_sets)
  have kd: "k \<in> data_set ph" using d(2) .
  have "mmaped (vm_phys vm2) k" using same2 [OF kd] by (simp add: mmaped_def m(5) set_flags_def flag_simps)
  moreover have "k \<in> used_set (vm_phys vm2) pu"
    using ku m(4,5) used_set_set_refs(1) [OF k2] pu by (auto simp: data_same_def vm1_def set_flags_sets)
  moreover have "mm_pages (vm_phys vm2) j = mm_pages (vm_phys vm) j" if "j \<in> data_set (vm_phys vm)" for j
  proof -
    have "j \<noteq> k" "j \<in> data_set ph" using that d by auto
    thus ?thesis using same2 [of j] took by (simp add: m(5) set_flags_def phys_took_def)
  qed
  moreover have "ph_pages_free (vm_phys vm) \<le> ph_pages_free (vm_phys vm2) + 4"
    using f1 m(7) m3 by (simp add: vm1_def set_flags_sets del: missing.simps)
  moreover have "vm_view S vm2 = (vm_view S vm)((s, vpath v) \<mapsto> mk_pte k fl)" "vm_mem vm2 = vm_mem vm" using m(3,6) by (simp_all add: vm1_def)
  ultimately show ?thesis using run m(1,2) d(3) dset by (intro exI [of _ k] exI [of _ vm2]) simp
qed

definition entries :: "nat \<Rightarrow> 64 word \<Rightarrow> 64 word list \<Rightarrow> nat list \<Rightarrow> nat \<times> nat list \<Rightarrow> 64 word option" where
  "entries s fl vs ks = map_of (zip (map (\<lambda>v. (s, vpath v)) vs) (map (\<lambda>k. mk_pte k fl) ks))"

lemma entries_simps:
  "entries s fl [] ks = Map.empty" "entries s fl (v # vs) (k # ks) = (entries s fl vs ks)((s, vpath v) \<mapsto> mk_pte k fl)"
  by (simp_all add: entries_def)

lemma dom_entries: "length ks = length vs \<Longrightarrow> dom (entries s fl vs ks) = (\<lambda>v. (s, vpath v)) ` set vs"
  by (simp add: entries_def)

lemma mmap_pages_ok:
  assumes "vm_ok S vm" "s \<in> S" "\<forall>v \<in> set vs. user_addr v \<and> vm_view S vm (s, vpath v) = None" "distinct (map vpath vs)"
    and pu: "pu = PU_PRIVATE \<or> pu = PU_SHARED" and "4 * length vs \<le> ph_pages_free (vm_phys vm)"
  shows "\<exists>ks vm'. mmap_pages s pu fl vs vm = Some vm' \<and> vm_ok S vm' \<and> length ks = length vs \<and> distinct ks
     \<and> set ks \<inter> data_set (vm_phys vm) = {} \<and> data_set (vm_phys vm') = data_set (vm_phys vm) \<union> set ks
     \<and> vm_view S vm' = vm_view S vm ++ entries s fl vs ks \<and> set ks \<subseteq> used_set (vm_phys vm') pu
     \<and> (\<forall>k \<in> set ks. mmaped (vm_phys vm') k)
     \<and> (\<forall>j \<in> data_set (vm_phys vm). mm_pages (vm_phys vm') j = mm_pages (vm_phys vm) j) \<and> vm_mem vm' = vm_mem vm"
  using assms(1-4,6)
proof (induction vs arbitrary: vm)
  case Nil
  thus ?case by (intro exI [of _ "[]"] exI [of _ vm]) (simp add: entries_simps)
next
  case (Cons v vs)
  obtain k vm1 where p: "mmap_page s pu fl v vm = Some vm1" "vm_ok S vm1"
    "vm_view S vm1 = (vm_view S vm)((s, vpath v) \<mapsto> mk_pte k fl)"
    "k \<notin> data_set (vm_phys vm)" "data_set (vm_phys vm1) = insert k (data_set (vm_phys vm))" "k \<in> used_set (vm_phys vm1) pu"
    "mmaped (vm_phys vm1) k" "\<forall>j \<in> data_set (vm_phys vm). mm_pages (vm_phys vm1) j = mm_pages (vm_phys vm) j"
    "vm_mem vm1 = vm_mem vm" "ph_pages_free (vm_phys vm) \<le> ph_pages_free (vm_phys vm1) + 4"
    using mmap_page_ok [OF Cons.prems(1,2) _ _ pu, of v fl] Cons.prems(3,5) by auto
  have "\<forall>w \<in> set vs. user_addr w \<and> vm_view S vm1 (s, vpath w) = None"
    using Cons.prems(3,4) p(3) by (auto simp: image_iff)
  moreover have "4 * length vs \<le> ph_pages_free (vm_phys vm1)" using Cons.prems(5) p(10) by simp
  ultimately obtain ks vm2 where q: "mmap_pages s pu fl vs vm1 = Some vm2" "vm_ok S vm2" "length ks = length vs" "distinct ks"
    "set ks \<inter> data_set (vm_phys vm1) = {}" "data_set (vm_phys vm2) = data_set (vm_phys vm1) \<union> set ks"
    "vm_view S vm2 = vm_view S vm1 ++ entries s fl vs ks" "set ks \<subseteq> used_set (vm_phys vm2) pu" "\<forall>k \<in> set ks. mmaped (vm_phys vm2) k"
    "\<forall>j \<in> data_set (vm_phys vm1). mm_pages (vm_phys vm2) j = mm_pages (vm_phys vm1) j" "vm_mem vm2 = vm_mem vm1"
    using Cons.IH [OF p(2) Cons.prems(2)] Cons.prems(4) by auto
  have kk: "mm_pages (vm_phys vm2) k = mm_pages (vm_phys vm1) k" using q(10) p(5) by simp
  have V: "vm_view S vm2 = vm_view S vm ++ entries s fl (v # vs) (k # ks)"
  proof -
    have "(s, vpath v) \<notin> dom (entries s fl vs ks)" using Cons.prems(4) dom_entries [OF q(3)] by auto
    thus ?thesis using q(7) p(3) by (auto simp: entries_simps map_add_def fun_eq_iff domIff split: option.splits)
  qed
  have "mmaped (vm_phys vm2) k" "k \<in> used_set (vm_phys vm2) pu" using p(6,7) kk by (simp_all add: mmaped_def used_set_def)
  thus ?case using p q V by (intro exI [of _ "k # ks"] exI [of _ vm2]) auto
qed

section \<open>Unmapping them again\<close>

lemma munmap_page_ok:
  assumes inv: "vm_ok S vm" and s: "s \<in> S" "user_addr v" "page_offset v = 0" and e: "vm_view S vm (s, vpath v) = Some e"
    and own: "mapped (vm_view S vm) (frame e) = {(s, vpath v)}" "mmaped (vm_phys vm) (frame e)"
  shows "\<exists>vm'. munmap_page s v vm = Some vm' \<and> vm_ok S vm' \<and> vm_view S vm' = (vm_view S vm)((s, vpath v) := None)
     \<and> data_set (vm_phys vm') = data_set (vm_phys vm) - {frame e}
     \<and> (\<forall>j. j \<noteq> frame e \<longrightarrow> mm_pages (vm_phys vm') j = mm_pages (vm_phys vm) j) \<and> vm_mem vm' = vm_mem vm"
proof -
  let ?k = "frame e"
  have k: "?k \<in> data_set (vm_phys vm)" using vm_invD(3) [OF inv] e by (auto simp: refs_ok_def)
  have kb: "?k < PHYS_MAX_PAGES" using data_setD [OF k] by simp
  have rc: "refcount (vm_phys vm) ?k = 1" using vm_invD(3) [OF inv] k own(1) by (simp add: refs_ok_def)
  have us: "pg_usage (mm_pages (vm_phys vm) ?k) = PU_SHARED \<or> pg_usage (mm_pages (vm_phys vm) ?k) = PU_PRIVATE"
    using k by (auto simp: data_set_def used_set_def)
  obtain vm1 where u: "mm_umap_single s v vm = Some (Some (pte_phys e), vm1)" "vm_ok S vm1"
    "vm_view S vm1 = (vm_view S vm)((s, vpath v) := None)" "vm_phys vm1 = set_refs ?k 0 (vm_phys vm)" "vm_mem vm1 = vm_mem vm"
    using mm_umap_single_view [OF inv s(1,2)] e rc by auto
  have d1: "data_set (vm_phys vm1) = data_set (vm_phys vm)"
    using data_set_set_refs [OF k, of 0] by (simp add: u(4) REFCOUNT_RESERVED_def)
  have "?k \<in> data_set (vm_phys vm1)" "refcount (vm_phys vm1) ?k = 0" using k d1 u(4) by simp_all
  hence "\<exists>u. ?k \<in> used_set (vm_phys vm1) u" by (auto simp: data_set_def)
  then obtain ph where ph: "mm_phys_free_page (?k * MM_PAGE_SIZE) (vm_phys vm1) = Some ph" "phys_gave ?k (vm_phys vm1) ph"
    using mm_phys_free_page_ok [OF vm_invD(1) [OF u(2)], of ?k _ "?k * MM_PAGE_SIZE"] \<open>refcount (vm_phys vm1) ?k = 0\<close> by auto
  have none: "mapped (vm_view S vm1) ?k = {}" using own(1) by (simp add: u(3) mapped_upd_None)
  note g = gave_data [OF u(2) ph(2) \<open>?k \<in> data_set (vm_phys vm1)\<close> none]
  have pg: "get_page (pte_phys e) x = Some (mm_pages (vm_phys x) ?k)" for x
    using get_page_data [OF kb, of x] by (simp only: pte_phys_frame [of e])
  have fr: "free_frame (pte_phys e) vm1 = Some (vm1\<lparr>vm_phys := ph\<rparr>)"
    using ph(1) unfolding pte_phys_frame [of e] by (simp add: free_frame_def)
  have "pg_flags (mm_pages (vm_phys vm) ?k) AND PG_MMAPED \<noteq> 0" using own(2) by (simp add: mmaped_def and_BIT_eq_0)
  hence "munmap_page s v vm = Some (vm1\<lparr>vm_phys := ph\<rparr>)"
    using mm_map_get_view [OF inv s(1,2)] e s(3) u(1) us rc fr
    unfolding munmap_page_def by (auto simp: pg u(4))
  moreover have "mm_pages ph j = mm_pages (vm_phys vm) j" if "j \<noteq> ?k" for j
    using ph(2) that by (simp add: phys_gave_def u(4))
  ultimately show ?thesis using g u d1 by (intro exI [of _ "vm1\<lparr>vm_phys := ph\<rparr>"]) simp
qed

lemma munmap_pages_ok:
  assumes "vm_ok S vm" "s \<in> S" "\<forall>v \<in> set vs. user_addr v \<and> page_offset v = 0" "distinct (map vpath vs)"
    and "length ks = length vs" "distinct ks"
    and "\<forall>i < length vs. \<exists>e. vm_view S vm (s, vpath (vs ! i)) = Some e \<and> frame e = ks ! i
       \<and> mapped (vm_view S vm) (ks ! i) = {(s, vpath (vs ! i))} \<and> mmaped (vm_phys vm) (ks ! i)"
  shows "\<exists>vm'. munmap_pages s vs vm = Some vm' \<and> vm_ok S vm'
     \<and> vm_view S vm' = (vm_view S vm) |` (- (\<lambda>v. (s, vpath v)) ` set vs)
     \<and> data_set (vm_phys vm') = data_set (vm_phys vm) - set ks \<and> vm_mem vm' = vm_mem vm"
  using assms(1-7)
proof (induction vs arbitrary: vm ks)
  case Nil
  thus ?case by simp
next
  case (Cons v vs)
  obtain k ks' where ks: "ks = k # ks'" "length ks' = length vs" using Cons.prems(5) by (cases ks) auto
  obtain e where e: "vm_view S vm (s, vpath v) = Some e" "frame e = k" "mapped (vm_view S vm) k = {(s, vpath v)}" "mmaped (vm_phys vm) k"
    using Cons.prems(7) [rule_format, of 0] ks by auto
  obtain vm1 where p: "munmap_page s v vm = Some vm1" "vm_ok S vm1" "vm_view S vm1 = (vm_view S vm)((s, vpath v) := None)"
    "data_set (vm_phys vm1) = data_set (vm_phys vm) - {k}"
    "\<forall>j. j \<noteq> k \<longrightarrow> mm_pages (vm_phys vm1) j = mm_pages (vm_phys vm) j" "vm_mem vm1 = vm_mem vm"
    using munmap_page_ok [OF Cons.prems(1,2) _ _ e(1)] Cons.prems(3) e by auto
  have "\<exists>e. vm_view S vm1 (s, vpath (vs ! i)) = Some e \<and> frame e = ks' ! i
       \<and> mapped (vm_view S vm1) (ks' ! i) = {(s, vpath (vs ! i))} \<and> mmaped (vm_phys vm1) (ks' ! i)" if i: "i < length vs" for i
  proof -
    obtain e' where e': "vm_view S vm (s, vpath (vs ! i)) = Some e'" "frame e' = ks' ! i"
      "mapped (vm_view S vm) (ks' ! i) = {(s, vpath (vs ! i))}" "mmaped (vm_phys vm) (ks' ! i)"
      using Cons.prems(7) [rule_format, of "Suc i"] ks i by auto
    have "vpath (vs ! i) \<in> vpath ` set vs" "vpath v \<notin> vpath ` set vs" using Cons.prems(4) i by simp_all
    hence ne: "vpath (vs ! i) \<noteq> vpath v" by metis
    have "ks' ! i \<noteq> k" using Cons.prems(6) ks i by (metis distinct.simps(2) nth_mem)
    hence "mmaped (vm_phys vm1) (ks' ! i)" using p(5) e'(4) by (simp add: mmaped_def)
    moreover have "mapped (vm_view S vm1) (ks' ! i) = {(s, vpath (vs ! i))}"
      unfolding p(3) mapped_upd_None e'(3) using ne by auto
    ultimately show ?thesis using e' p(3) ne by auto
  qed
  then obtain vm2 where q: "munmap_pages s vs vm1 = Some vm2" "vm_ok S vm2"
    "vm_view S vm2 = (vm_view S vm1) |` (- (\<lambda>v. (s, vpath v)) ` set vs)"
    "data_set (vm_phys vm2) = data_set (vm_phys vm1) - set ks'" "vm_mem vm2 = vm_mem vm1"
    using Cons.IH [OF p(2) Cons.prems(2), of ks'] Cons.prems(3,4,6) ks by auto
  have "vm_view S vm2 = (vm_view S vm) |` (- (\<lambda>v. (s, vpath v)) ` set (v # vs))"
    unfolding q(3) p(3) by (auto simp: restrict_map_def fun_eq_iff)
  thus ?case using p q ks by auto
qed

section \<open>The property\<close>

lemma unat_page_addr_small: "i < 2 ^ 26 \<Longrightarrow> unat (page_addr i) = i * MM_PAGE_SIZE"
  unfolding page_addr_def by (subst unat_of_nat) (simp add: MM_PAGE_SIZE_def)

lemma page_addr_below: "i < 2 ^ 26 \<Longrightarrow> page_addr i < KERNEL_VIRT_BASE"
  using unat_page_addr_small [of i] by (simp add: word_less_nat_alt KERNEL_VIRT_BASE_def MM_PAGE_SIZE_def)

lemma mapped_entries:
  assumes len: "length ks = length vs" and d: "distinct ks" "distinct (map vpath vs)" and i: "i < length vs"
    and kb: "\<forall>k \<in> set ks. k < PHYS_MAX_PAGES" and fresh: "mapped V (ks ! i) = {}"
  shows "(V ++ entries s fl vs ks) (s, vpath (vs ! i)) = Some (mk_pte (ks ! i) fl)"
    "mapped (V ++ entries s fl vs ks) (ks ! i) = {(s, vpath (vs ! i))}"
proof -
  let ?xs = "map (\<lambda>v. (s, vpath v)) vs" and ?es = "map (\<lambda>k. mk_pte k fl) ks"
  have dx: "distinct ?xs" using d(2) by (auto simp: distinct_map inj_on_def)
  have E: "entries s fl vs ks x = Some e \<longleftrightarrow> (\<exists>j < length vs. x = (s, vpath (vs ! j)) \<and> e = mk_pte (ks ! j) fl)" for x e
  proof -
    have "entries s fl vs ks x = Some e \<longleftrightarrow> (x, e) \<in> set (zip ?xs ?es)"
      unfolding entries_def by (rule map_of_eq_Some_iff) (use dx len in simp)
    also have "\<dots> \<longleftrightarrow> (\<exists>j. j < length vs \<and> (x, e) = (?xs ! j, ?es ! j))" using len by (auto simp: set_zip)
    also have "\<dots> \<longleftrightarrow> (\<exists>j < length vs. x = (s, vpath (vs ! j)) \<and> e = mk_pte (ks ! j) fl)" using len by (auto cong: conj_cong)
    finally show ?thesis .
  qed
  show one: "(V ++ entries s fl vs ks) (s, vpath (vs ! i)) = Some (mk_pte (ks ! i) fl)"
    using E [of "(s, vpath (vs ! i))"] i by (simp add: map_add_Some_iff) blast
  have fr: "frame (mk_pte (ks ! j) fl) = ks ! j" if "j < length vs" for j using kb that len by (simp add: mk_pte(2))
  show "mapped (V ++ entries s fl vs ks) (ks ! i) = {(s, vpath (vs ! i))}"
  proof (rule set_eqI)
    fix x
    have "x = (s, vpath (vs ! i))" if x: "x \<in> mapped (V ++ entries s fl vs ks) (ks ! i)"
    proof -
      obtain e where e: "(V ++ entries s fl vs ks) x = Some e" "frame e = ks ! i" using x unfolding mapped_def mem_Collect_eq by (elim exE conjE)
      from e(1) consider "entries s fl vs ks x = Some e" | "V x = Some e" by (auto simp: map_add_Some_iff)
      thus ?thesis
      proof cases
        case 1
        then obtain j where j: "j < length vs" "x = (s, vpath (vs ! j))" "e = mk_pte (ks ! j) fl" using E by blast
        hence "j = i" using e(2) fr d(1) i len by (metis nth_eq_iff_index_eq)
        thus ?thesis using j by simp
      next
        case 2
        hence "x \<in> mapped V (ks ! i)" using e(2) unfolding mapped_def by blast
        thus ?thesis using fresh by simp
      qed
    qed
    moreover have "(s, vpath (vs ! i)) \<in> mapped (V ++ entries s fl vs ks) (ks ! i)"
      using one fr [OF i] unfolding mapped_def mem_Collect_eq by (intro exI conjI)
    ultimately show "x \<in> mapped (V ++ entries s fl vs ks) (ks ! i) \<longleftrightarrow> x \<in> {(s, vpath (vs ! i))}" by blast
  qed
qed

lemma munmap_entries:
  assumes inv: "vm_ok S vm1" and s: "s \<in> S" and user: "\<forall>v \<in> set vs. user_addr v \<and> page_offset v = 0" and dist: "distinct (map vpath vs)"
    and ks: "length ks = length vs" "distinct ks" "\<forall>k \<in> set ks. k < PHYS_MAX_PAGES \<and> mapped V k = {} \<and> mmaped (vm_phys vm1) k"
    and view: "vm_view S vm1 = V ++ entries s fl vs ks" and none: "\<forall>v \<in> set vs. V (s, vpath v) = None"
  shows "\<exists>vm2. munmap_pages s vs vm1 = Some vm2 \<and> vm_ok S vm2 \<and> vm_view S vm2 = V \<and> data_set (vm_phys vm2) = data_set (vm_phys vm1) - set ks"
proof -
  have kb: "\<forall>k \<in> set ks. k < PHYS_MAX_PAGES" using ks(3) by blast
  have "\<forall>j < length vs. \<exists>e. vm_view S vm1 (s, vpath (vs ! j)) = Some e \<and> frame e = ks ! j
       \<and> mapped (vm_view S vm1) (ks ! j) = {(s, vpath (vs ! j))} \<and> mmaped (vm_phys vm1) (ks ! j)"
  proof (intro allI impI)
    fix j assume j: "j < length vs"
    have kj: "ks ! j \<in> set ks" using j ks(1) by simp
    hence "mapped V (ks ! j) = {}" using ks(3) by blast
    note me = mapped_entries [OF ks(1,2) dist j kb this, of s fl, folded view]
    have "frame (mk_pte (ks ! j) fl) = ks ! j" using kb kj by (simp add: mk_pte(2))
    thus "\<exists>e. vm_view S vm1 (s, vpath (vs ! j)) = Some e \<and> frame e = ks ! j
       \<and> mapped (vm_view S vm1) (ks ! j) = {(s, vpath (vs ! j))} \<and> mmaped (vm_phys vm1) (ks ! j)"
      using me ks(3) kj by blast
  qed
  then obtain vm2 where u: "munmap_pages s vs vm1 = Some vm2" "vm_ok S vm2"
    "vm_view S vm2 = (vm_view S vm1) |` (- (\<lambda>v. (s, vpath v)) ` set vs)" "data_set (vm_phys vm2) = data_set (vm_phys vm1) - set ks"
    using munmap_pages_ok [OF inv s user dist ks(1,2)] by blast
  have "vm_view S vm2 x = V x" for x
  proof (cases "x \<in> (\<lambda>v. (s, vpath v)) ` set vs")
    case True
    hence "V x = None" using none by auto
    thus ?thesis using True by (simp add: u(3))
  next
    case False
    hence "entries s fl vs ks x = None" using dom_entries [OF ks(1), of s fl] by (metis domIff)
    thus ?thesis using False by (simp add: u(3) view map_add_def)
  qed
  thus ?thesis using u(1,2,4) by blast
qed

text \<open>
  C11: Anonymous memory. If the area from 4 to 16 GiB has \<open>n\<close> unmapped pages in a row and there are four free page
  frames for each, \<open>sys_mmap\<close> without \<open>MAP_FIXED\<close> returns the lowest such range, mapped to \<open>n\<close> different frames
  that belonged to nobody, with the access asked for; no other translation of any space changes. A
  following \<open>sys_munmap\<close> of the range succeeds and restores all translations and the set of user frames.
\<close>

theorem mmap_munmap_roundtrip:
  assumes inv: "vm_ok S vm" and s: "s \<in> S" and flags: "bit flags 0" "\<not> bit flags 3"
    and n: "n < 2 ^ 26" and room: "\<exists>i \<ge> 0x100000. i + n \<le> 0x400000 \<and> free_range S vm s n i"
    and free: "4 * n \<le> ph_pages_free (vm_phys vm)"
  shows "\<exists>i ks vm1 vm2. sys_mmap ops p s hint (page_addr n) prot flags fd st vm = Some (Inr (page_addr i), vm1)
     \<and> 0x100000 \<le> i \<and> i + n \<le> 0x400000 \<and> free_range S vm s n i \<and> (\<forall>j. 0x100000 \<le> j \<and> j < i \<longrightarrow> \<not> free_range S vm s n j)
     \<and> length ks = n \<and> distinct ks \<and> set ks \<inter> data_set (vm_phys vm) = {} \<and> set ks \<subseteq> used_set (vm_phys vm1) (mmap_usage flags)
     \<and> vm_ok S vm1 \<and> vm_view S vm1 = vm_view S vm ++ entries s (mmap_flags prot) (map page_addr [i..<i + n]) ks
     \<and> sys_munmap s (page_addr i) (page_addr n) vm1 = Some (0, vm2)
     \<and> vm_ok S vm2 \<and> vm_view S vm2 = vm_view S vm \<and> data_set (vm_phys vm2) = data_set (vm_phys vm)"
proof -
  obtain i where f: "vmfind_from s 0x400000 n 0x100000 vm = Some (Some (page_addr i))" "0x100000 \<le> i" "i + n \<le> 0x400000"
    "free_range S vm s n i" "\<forall>j. 0x100000 \<le> j \<and> j < i \<longrightarrow> \<not> free_range S vm s n j"
    using vmfind_from_ok [OF inv s _ room] by auto
  let ?vs = "map page_addr [i..<i + n]" and ?fl = "mmap_flags prot"
  have small: "j < 2 ^ 26" if "j < i + n" for j using that f(3) by simp
  have user: "\<forall>v \<in> set ?vs. user_addr v \<and> page_offset v = 0" using small page_addr_user page_addr_offset by auto
  have dist: "distinct (map vpath ?vs)"
    using page_addr_vpath_inj small by (auto simp: distinct_map inj_on_def)
  have none: "\<forall>v \<in> set ?vs. user_addr v \<and> vm_view S vm (s, vpath v) = None" using user f(4) by (auto simp: free_range_def)
  have cnt: "unat (page_addr n) div MM_PAGE_SIZE = n" using unat_page_addr_small [OF n] by simp
  have pu: "mmap_usage flags = PU_PRIVATE \<or> mmap_usage flags = PU_SHARED" by (simp add: mmap_usage_def)
  obtain ks vm1 where m: "mmap_pages s (mmap_usage flags) ?fl ?vs vm = Some vm1" "vm_ok S vm1" "length ks = length ?vs" "distinct ks"
    "set ks \<inter> data_set (vm_phys vm) = {}" "data_set (vm_phys vm1) = data_set (vm_phys vm) \<union> set ks"
    "vm_view S vm1 = vm_view S vm ++ entries s ?fl ?vs ks" "set ks \<subseteq> used_set (vm_phys vm1) (mmap_usage flags)"
    "\<forall>k \<in> set ks. mmaped (vm_phys vm1) k"
    using mmap_pages_ok [OF inv s none dist pu, of ?fl] free by auto
  have "mmap_findmem s hint n flags vm = Some (Some (page_addr i))"
    using f(1) flags by (simp add: mmap_findmem_def vmfind_def and_BIT_eq_0 MM_PAGE_SIZE_def)
  hence run: "sys_mmap ops p s hint (page_addr n) prot flags fd st vm = Some (Inr (page_addr i), vm1)"
    using m(1) flags page_addr_offset(2) [OF n] by (simp add: sys_mmap_def cnt sys_mmap_anon_def page_range_addr and_BIT_eq_0)
  have "k < PHYS_MAX_PAGES \<and> mapped (vm_view S vm) k = {} \<and> mmaped (vm_phys vm1) k" if "k \<in> set ks" for k
  proof -
    have "k < PHYS_MAX_PAGES" using m(6) that data_setD by blast
    moreover have "mapped (vm_view S vm) k = {}" using vm_invD(3) [OF inv] m(5) that unfolding refs_ok_def mapped_def by blast
    ultimately show ?thesis using m(9) that by blast
  qed
  then obtain vm2 where u: "munmap_pages s ?vs vm1 = Some vm2" "vm_ok S vm2" "vm_view S vm2 = vm_view S vm"
    "data_set (vm_phys vm2) = data_set (vm_phys vm1) - set ks"
    using munmap_entries [OF m(2) s user dist m(3,4) _ m(7)] none by blast
  have "i < 2 ^ 26" using f(3) by simp
  hence "page_addr i AND mask 12 = 0" "page_addr i < KERNEL_VIRT_BASE"
    using page_addr_offset(2) page_addr_below by blast+
  hence "sys_munmap s (page_addr i) (page_addr n) vm1 = Some (0, vm2)"
    using u(1) page_addr_offset(2) [OF n] by (simp add: sys_munmap_def cnt page_range_addr not_le)
  moreover have "data_set (vm_phys vm2) = data_set (vm_phys vm)" using u(4) m(5,6) by auto
  ultimately show ?thesis using run f m u(2,3)
    by (intro exI [of _ i] exI [of _ ks] exI [of _ vm1] exI [of _ vm2]) simp
qed

theorem mmap_munmap_roundtrip_witness:
  "\<exists>i vm1 vm2. sys_mmap (\<lambda>_. None) 0 demo_A 0 (page_addr 2) PROT_WRITE MAP_ANONYMOUS 0 (undefined :: (unit, unit) fsys) (demo_vm MM_PAGE_USER)
       = Some (Inr (page_addr i), vm1)
     \<and> sys_munmap demo_A (page_addr i) (page_addr 2) vm1 = Some (0, vm2) \<and> vm_view demo_S vm2 = vm_view demo_S (demo_vm MM_PAGE_USER)"
proof -
  have "vpath (page_addr 0) = [0, 0, 0, 0]"
    by (simp add: page_addr_def vpath_def pml4i_def pdpti_def pdi_def pti_def pte_index_def AMD64_MM_STRIPSX_def)
  hence "vpath (page_addr j) \<noteq> [0, 0, 0, 0]" if "0 < j" "j < 2 ^ 26" for j using page_addr_vpath_inj [OF that(2), of 0] that by auto
  hence "free_range demo_S (demo_vm MM_PAGE_USER) demo_A 2 0x100000" by (auto simp: free_range_def demo_view)
  hence "\<exists>i \<ge> 0x100000. i + 2 \<le> 0x400000 \<and> free_range demo_S (demo_vm MM_PAGE_USER) demo_A 2 i" by (intro exI [of _ "0x100000"]) simp
  moreover have "bit MAP_ANONYMOUS 0" "\<not> bit MAP_ANONYMOUS 3" by (simp_all add: flag_simps)
  ultimately show ?thesis
    using mmap_munmap_roundtrip [OF demo_vm_ok demo_vm_simps(6), of MAP_ANONYMOUS 2 MM_PAGE_USER "\<lambda>_. None" 0 0 PROT_WRITE 0 "undefined :: (unit, unit) fsys"]
    by auto
qed

end
