(* ===== verification/Sched.thy ===== *)
theory Sched
  imports Wait_IO
begin

text \<open>
  The scheduler (src/sys/sched.c), with the threads and processes of src/include/sys/thread.h and the
  signal delivery of src/sys/thread.c and src/sys/process.c that it is entangled with.

  Threads and processes live in the stores \<open>thr\<close> and \<open>pcb\<close>; a pointer is a key. The run queue of a CPU is a
  ring linked through \<open>sched_next\<close> and \<open>sched_prev\<close>. The calling CPU is the argument \<open>c\<close>. A context switch is the
  change of \<open>cpu->thread\<close>; the code after it runs when the thread is current again, so an operation ends
  there. A section that holds the scheduler lock is atomic, and so are \<open>sched_queue_to\<close>, \<open>sched_leave\<close> and \<open>sched_unlink\<close>.
  \<open>sched_unqueue\<close> is two such sections: it drops the lock while it checks for signals and uses afterwards the
  links it read before. \<open>sched_queue\<close> drops the lock between the choice of a CPU and the insertion.
  Both are written as the composition of their sections, which is what they do when nothing else happens in between.
  The system is built with \<open>AMD64_SMP\<close> (src/etc/Kernel.makefile).
\<close>

datatype thread_state = THREAD_READY | THREAD_RUNNING | THREAD_WAITING | THREAD_STOPPED
datatype process_state = PROC_ACTIVE | PROC_SUSPENDED | PROC_FINISHED

abbreviation (input) SIGFPE :: int where "SIGFPE \<equiv> 8"
abbreviation (input) SIGKILL :: int where "SIGKILL \<equiv> 9"
abbreviation (input) SIGSEGV :: int where "SIGSEGV \<equiv> 11"
abbreviation (input) SIGCHLD :: int where "SIGCHLD \<equiv> 17"
abbreviation (input) SIGCONT :: int where "SIGCONT \<equiv> 18"
abbreviation (input) SIGSTOP :: int where "SIGSTOP \<equiv> 19"

text \<open>
  Of \<open>struct thread_data\<close> the record keeps the kernel stack (the physical address of its pages), the user stack and the
  words that the first context switch pops. \<open>wait_head\<close> lists the processes whose \<open>pid_notify\<close> the thread waits for.
\<close>

record kthread =
  th_state :: thread_state
  th_cpu :: int
  sched_prev :: "tid option"
  sched_next :: "tid option"
  th_proc :: "nat option"
  th_sigq :: "64 word"
  sleep_notify :: io_notify
  wait_head :: "nat list"
  signal_entry :: "64 word option"
  signal_stack_base :: "64 word option"
  signal_stack_size :: "64 word"
  rsp0_base :: nat
  rsp0_pages :: nat
  rsp3_base :: "64 word"
  rsp3_size :: "64 word"
  th_cr3 :: nat
  th_frame :: "64 word list"
  th_flags :: "32 word"

record kproc =
  pr_state :: process_state
  pr_space :: nat
  pr_pid :: int
  pr_pgid :: int
  pr_parent :: "nat option"
  pr_children :: "nat list"
  pr_threads :: "tid list"
  thread_count :: nat
  pr_sigq :: "64 word"
  pid_notify :: io_notify
  exit_status :: int
  pr_flags :: "32 word"
  pr_name :: string

record ksys =
  thr :: "tid \<Rightarrow> kthread"
  pcb :: "nat \<Rightarrow> kproc"
  queue_heads :: "nat \<Rightarrow> tid option"
  queue_sizes :: "nat \<Rightarrow> nat"
  cpu_thread :: "nat \<Rightarrow> tid option"
  threads_idle :: "nat \<Rightarrow> tid"
  sched_ncpus :: nat
  clk :: nat
  proc_all :: "nat list"
  last_user_pid :: int
  last_kernel_pid :: int

definition upd_thr :: "tid \<Rightarrow> (kthread \<Rightarrow> kthread) \<Rightarrow> ksys \<Rightarrow> ksys" where
  "upd_thr t f s = s\<lparr>thr := (thr s)(t := f (thr s t))\<rparr>"

definition upd_proc :: "nat \<Rightarrow> (kproc \<Rightarrow> kproc) \<Rightarrow> ksys \<Rightarrow> ksys" where
  "upd_proc p f s = s\<lparr>pcb := (pcb s)(p := f (pcb s p))\<rparr>"

section \<open>Queueing\<close>

definition sched_queue_to :: "tid \<Rightarrow> nat \<Rightarrow> ksys \<Rightarrow> ksys kern" where
  "sched_queue_to t c s =
     (if sched_prev (thr s t) \<noteq> None \<or> sched_next (thr s t) \<noteq> None then Some s
      else do {
        let s = upd_thr t (\<lambda>x. x\<lparr>th_state := THREAD_READY, th_cpu := int c\<rparr>) s;
        s \<leftarrow> (case queue_heads s c of
            Some h \<Rightarrow> do {
              queue_tail \<leftarrow> sched_prev (thr s h);
              let s = upd_thr queue_tail (\<lambda>x. x\<lparr>sched_next := Some t\<rparr>) s;
              let s = upd_thr t (\<lambda>x. x\<lparr>sched_prev := Some queue_tail\<rparr>) s;
              let s = upd_thr h (\<lambda>x. x\<lparr>sched_prev := Some t\<rparr>) s;
              Some (upd_thr t (\<lambda>x. x\<lparr>sched_next := Some h\<rparr>) s)
            }
          | None \<Rightarrow>
              Some ((upd_thr t (\<lambda>x. x\<lparr>sched_next := Some t, sched_prev := Some t\<rparr>) s)
                      \<lparr>queue_heads := (queue_heads s)(c := Some t)\<rparr>));
        Some (s\<lparr>queue_sizes := (queue_sizes s)(c := Suc (queue_sizes s c))\<rparr>)
      })"

text \<open>
  The scan for the shortest queue starts from the largest \<open>size_t\<close>. \<open>clk\<close> is an \<open>int\<close>; its overflow is
  undefined.
\<close>

fun min_queue :: "(nat \<Rightarrow> nat) \<Rightarrow> nat list \<Rightarrow> nat \<times> nat \<Rightarrow> nat \<times> nat" where
  "min_queue sizes [] best = best"
| "min_queue sizes (i # is) (idx, sz) =
     min_queue sizes is (if sizes i < sz then (i, sizes i) else (idx, sz))"

definition sched_queue :: "tid \<Rightarrow> ksys \<Rightarrow> ksys kern" where
  "sched_queue t s = do {
     kassert (case th_proc (thr s t) of Some p \<Rightarrow> pr_state (pcb s p) \<noteq> PROC_SUSPENDED | None \<Rightarrow> True);
     let (i, sz) = min_queue (queue_sizes s) [0..<sched_ncpus s] (0, 2 ^ 64 - 1);
     (if sz = 0 then do {
        kassert (clk s < 2 ^ 31 - 1);
        sched_queue_to t (clk s mod sched_ncpus s) (s\<lparr>clk := Suc (clk s)\<rparr>)
      }
      else sched_queue_to t i s)
   }"

section \<open>Signals\<close>

definition signal_is_exception :: "int \<Rightarrow> bool" where
  "signal_is_exception signum = (signum = SIGFPE \<or> signum = SIGSEGV)"

text \<open>\<open>1ULL << (signum - 1)\<close>; a shift outside the word is undefined.\<close>

definition signal_bit :: "int \<Rightarrow> 64 word kern" where
  "signal_bit signum = (if 1 \<le> signum \<and> signum \<le> 64 then Some (BIT (nat (signum - 1))) else None)"

definition thread_check_signal ::
  "(tid \<Rightarrow> int \<Rightarrow> ksys \<Rightarrow> ksys kern) \<Rightarrow> tid \<Rightarrow> int \<Rightarrow> ksys \<Rightarrow> (int \<times> ksys) kern" where
  "thread_check_signal sigenter t ret s =
     (case th_proc (thr s t) of
        None \<Rightarrow> Some (ret, s)
      | Some p \<Rightarrow> do {
          kassert (th_sigq (thr s t) = 0);
          (if pr_sigq (pcb s p) \<noteq> 0 then do {
             i \<leftarrow> find (\<lambda>i. pr_sigq (pcb s p) AND BIT i \<noteq> 0) [0..<64];
             let s = upd_proc p (\<lambda>x. x\<lparr>pr_sigq := pr_sigq x AND NOT (BIT i)\<rparr>) s;
             s \<leftarrow> sigenter t (int i + 1) s;
             Some (- EINTR, s)
           }
           else Some (ret, s))
        })"

text \<open>
  The two locked sections of \<open>sched_unqueue\<close>. The first takes the thread off the CPU's account and reads its links; the
  second unlinks it with the links read before and switches to another thread.
\<close>

definition sched_leave :: "nat \<Rightarrow> tid \<Rightarrow> thread_state \<Rightarrow> ksys \<Rightarrow> (tid option \<times> tid option \<times> ksys) kern" where
  "sched_leave c t new_state s = do {
     kassert (0 \<le> th_cpu (thr s t));
     kassert (int c = th_cpu (thr s t));
     let s = upd_thr t (\<lambda>x. x\<lparr>th_cpu := - 1\<rparr>) s;
     let prv = sched_prev (thr s t);
     let nxt = sched_next (thr s t);
     kassert (new_state = THREAD_WAITING \<or> new_state = THREAD_STOPPED);
     kassert (queue_sizes s c \<noteq> 0);
     let s = s\<lparr>queue_sizes := (queue_sizes s)(c := queue_sizes s c - 1)\<rparr>;
     let s = upd_thr t (\<lambda>x. x\<lparr>th_state := new_state\<rparr>) s;
     Some (prv, nxt, s)
   }"

definition sched_unlink :: "nat \<Rightarrow> tid \<Rightarrow> tid option \<Rightarrow> tid option \<Rightarrow> ksys \<Rightarrow> ksys kern" where
  "sched_unlink c t prv nxt s =
     (if nxt = Some t then do {
        let s = upd_thr t (\<lambda>x. x\<lparr>sched_next := None, sched_prev := None\<rparr>) s;
        let s = s\<lparr>queue_heads := (queue_heads s)(c := None)\<rparr>;
        Some (s\<lparr>cpu_thread := (cpu_thread s)(c := Some (threads_idle s c))\<rparr>)
      }
      else do {
        let s = (if queue_heads s c = Some t then s\<lparr>queue_heads := (queue_heads s)(c := nxt)\<rparr> else s);
        n \<leftarrow> nxt;
        p \<leftarrow> prv;
        let s = upd_thr n (\<lambda>x. x\<lparr>sched_prev := Some p\<rparr>) s;
        let s = upd_thr p (\<lambda>x. x\<lparr>sched_next := Some n\<rparr>) s;
        let s = upd_thr t (\<lambda>x. x\<lparr>sched_prev := None, sched_next := None\<rparr>) s;
        Some (if cpu_thread s c = Some t then s\<lparr>cpu_thread := (cpu_thread s)(c := Some n)\<rparr> else s)
      })"

definition sched_unqueue ::
  "(tid \<Rightarrow> int \<Rightarrow> ksys \<Rightarrow> ksys kern) \<Rightarrow> nat \<Rightarrow> tid \<Rightarrow> thread_state \<Rightarrow> ksys \<Rightarrow> ksys kern" where
  "sched_unqueue sigenter c t new_state s = do {
     (prv, nxt, s) \<leftarrow> sched_leave c t new_state s;
     (_, s) \<leftarrow> thread_check_signal sigenter t 0 s;
     sched_unlink c t prv nxt s
   }"

text \<open>\<open>yield\<close> without a current thread reads through a null pointer.\<close>

definition yield_to :: "nat \<Rightarrow> tid \<Rightarrow> ksys \<Rightarrow> tid" where
  "yield_to c from s =
     (case sched_next (thr s from) of
        Some n \<Rightarrow> n
      | None \<Rightarrow> (case queue_heads s c of Some h \<Rightarrow> h | None \<Rightarrow> threads_idle s c))"

definition yield :: "(tid \<Rightarrow> int \<Rightarrow> ksys \<Rightarrow> ksys kern) \<Rightarrow> nat \<Rightarrow> ksys \<Rightarrow> ksys kern" where
  "yield sigenter c s = do {
     from \<leftarrow> cpu_thread s c;
     let to = yield_to c from s;
     (_, s) \<leftarrow> thread_check_signal sigenter from 0 s;
     let s = upd_thr from (\<lambda>x. x\<lparr>th_state := THREAD_READY\<rparr>) s;
     kassert (th_state (thr s to) \<noteq> THREAD_STOPPED);
     let s = upd_thr to (\<lambda>x. x\<lparr>th_state := THREAD_RUNNING\<rparr>) s;
     Some (s\<lparr>cpu_thread := (cpu_thread s)(c := Some to)\<rparr>)
   }"

definition sched_enter :: "nat \<Rightarrow> ksys \<Rightarrow> ksys" where
  "sched_enter c s =
     (let first_task = (case queue_heads s c of Some h \<Rightarrow> h | None \<Rightarrow> threads_idle s c) in
      (upd_thr first_task (\<lambda>x. x\<lparr>th_state := THREAD_RUNNING\<rparr>) s)\<lparr>cpu_thread := (cpu_thread s)(c := Some first_task)\<rparr>)"

section \<open>Wake-ups and delivery\<close>

definition wake :: "tid option \<Rightarrow> ksys \<Rightarrow> ksys kern" where
  "wake owner s =
     (case owner of
        None \<Rightarrow> Some s
      | Some t \<Rightarrow> if sched_next (thr s t) \<noteq> None then Some s else sched_queue t s)"

definition notify_pid :: "nat \<Rightarrow> ksys \<Rightarrow> ksys kern" where
  "notify_pid p s =
     (let (w, n) = thread_notify_io (pid_notify (pcb s p)) in wake w (upd_proc p (\<lambda>x. x\<lparr>pid_notify := n\<rparr>) s))"

definition notify_sleep :: "tid \<Rightarrow> ksys \<Rightarrow> ksys kern" where
  "notify_sleep t s =
     (let (w, n) = thread_notify_io (sleep_notify (thr s t)) in wake w (upd_thr t (\<lambda>x. x\<lparr>sleep_notify := n\<rparr>) s))"

text \<open>
  \<open>thread_sigenter\<close> and \<open>sched_unqueue\<close> call each other; the first argument bounds the depth of the calls. \<open>user\<close> is
  \<open>context_sigenter\<close>: the thread runs its handler in user mode and comes back with \<open>sys_sigreturn\<close>.
  A stopped thread leaves the CPU; what it does when it is queued again is \<open>thread_sigenter_resume\<close>.
\<close>

fun thread_sigenter ::
  "nat \<Rightarrow> (tid \<Rightarrow> int \<Rightarrow> ksys \<Rightarrow> ksys) \<Rightarrow> nat \<Rightarrow> tid \<Rightarrow> int \<Rightarrow> ksys \<Rightarrow> ksys kern" where
  "thread_sigenter 0 user c t signum s = None"
| "thread_sigenter (Suc d) user c t signum s =
     (if signum = SIGCHLD \<or> signum = SIGCONT then Some s
      else if signum = SIGSTOP then do {
        p \<leftarrow> th_proc (thr s t);
        let s = upd_proc p (\<lambda>x. x\<lparr>pr_state := PROC_SUSPENDED\<rparr>) s;
        s \<leftarrow> (if ion_owner (pid_notify (pcb s p)) \<noteq> None then notify_pid p s else Some s);
        sched_unqueue (thread_sigenter d user c) c t THREAD_WAITING s
      }
      else do {
        kassert (signal_entry (thr s t) \<noteq> None);
        kassert (signal_stack_base (thr s t) \<noteq> None);
        Some (user t signum s)
      })"

definition thread_sigenter_resume ::
  "nat \<Rightarrow> (tid \<Rightarrow> int \<Rightarrow> ksys \<Rightarrow> ksys) \<Rightarrow> nat \<Rightarrow> tid \<Rightarrow> ksys \<Rightarrow> ksys kern" where
  "thread_sigenter_resume d user c t s = do {
     p \<leftarrow> th_proc (thr s t);
     (if pr_state (pcb s p) = PROC_SUSPENDED then sched_unqueue (thread_sigenter d user c) c t THREAD_WAITING s
      else do { kassert (pr_state (pcb s p) = PROC_ACTIVE); Some s })
   }"

definition thread_signal ::
  "(tid \<Rightarrow> int \<Rightarrow> ksys \<Rightarrow> ksys kern) \<Rightarrow> nat \<Rightarrow> tid \<Rightarrow> int \<Rightarrow> ksys \<Rightarrow> ksys kern" where
  "thread_signal sigenter c t signum s = do {
     s \<leftarrow> (if ion_owner (sleep_notify (thr s t)) \<noteq> None then notify_sleep t s else Some s);
     (if th_cpu (thr s t) = int c \<and> cpu_thread s c = Some t then sigenter t signum s
      else do {
        b \<leftarrow> signal_bit signum;
        s \<leftarrow> (if signal_is_exception signum then Some (upd_thr t (\<lambda>x. x\<lparr>th_sigq := th_sigq x OR b\<rparr>) s)
              else do {
                p \<leftarrow> th_proc (thr s t);
                Some (upd_proc p (\<lambda>x. x\<lparr>pr_sigq := pr_sigq x OR b\<rparr>) s)
              });
        sched_queue t s
      })
   }"

end
