(* ===== verification/Proc.thy ===== *)
theory Proc
  imports Sched Paging_Release Sys_File
begin

text \<open>
  Processes and their threads (src/sys/process.c, src/sys/thread.c, \<open>sys_waitpid\<close> of src/sys/wait.c): the process tree,
  signals sent by \<open>sys_kill\<close>, and the life cycle from \<open>sys_fork\<close> or \<open>process_init_thread\<close> over \<open>sys_exit\<close> to the
  parent's \<open>sys_waitpid\<close>, on top of address spaces, descriptors and run queues.

  The chain \<open>first_child\<close>, \<open>next_child\<close>, ... is the list \<open>pr_children\<close>, \<open>proc_all\<close> the global list. Keys of new
  threads and processes, which \<open>kmalloc\<close> returns, are arguments. The directory of a process in sysfs
  (\<open>proc_add_entry\<close>, \<open>proc_del_entry\<close>), the saved floating point state and the flag \<open>sched_ready\<close> are left out. The
  counters of process ids are unbounded integers: the \<open>int\<close> counters of the code are exact below \<open>2\<^sup>3\<^sup>1\<close> processes.
\<close>

abbreviation THREAD_KERNEL :: "32 word" where "THREAD_KERNEL \<equiv> BIT 0"
abbreviation PROC_EMPTY :: "32 word" where "PROC_EMPTY \<equiv> BIT 1"
abbreviation WSTOPPED :: "32 word" where "WSTOPPED \<equiv> BIT 1"
abbreviation (input) THREAD_KSTACK_PAGES :: nat where "THREAD_KSTACK_PAGES \<equiv> 4"
abbreviation (input) THREAD_USTACK_PAGES :: nat where "THREAD_USTACK_PAGES \<equiv> 8"
abbreviation (input) THREAD_USTACK_BEGIN :: "64 word" where "THREAD_USTACK_BEGIN \<equiv> 0x10000000"
abbreviation (input) THREAD_USTACK_END :: "64 word" where "THREAD_USTACK_END \<equiv> 0xF0000000"
abbreviation THR_INIT_USER :: "32 word" where "THR_INIT_USER \<equiv> BIT 0"
abbreviation THR_INIT_STACK_SET :: "32 word" where "THR_INIT_STACK_SET \<equiv> BIT 1"

definition thread_self :: "nat \<Rightarrow> ksys \<Rightarrow> tid kern" where
  "thread_self c s = cpu_thread s c"

definition proc_self :: "nat \<Rightarrow> ksys \<Rightarrow> nat kern" where
  "proc_self c s = do { t \<leftarrow> thread_self c s; th_proc (thr s t) }"

section \<open>The process tree\<close>

definition process_alloc_pid :: "bool \<Rightarrow> ksys \<Rightarrow> int \<times> ksys" where
  "process_alloc_pid is_user s =
     (if is_user then (last_user_pid s + 1, s\<lparr>last_user_pid := last_user_pid s + 1\<rparr>)
      else (- (last_kernel_pid s + 1), s\<lparr>last_kernel_pid := last_kernel_pid s + 1\<rparr>))"

definition process_find :: "int \<Rightarrow> ksys \<Rightarrow> nat option" where
  "process_find pid s = find (\<lambda>p. pr_pid (pcb s p) = pid) (proc_all s)"

definition process_child :: "nat \<Rightarrow> int \<Rightarrow> ksys \<Rightarrow> nat option" where
  "process_child par pid s = find (\<lambda>p. pr_pid (pcb s p) = pid) (pr_children (pcb s par))"

definition process_first_thread :: "nat \<Rightarrow> ksys \<Rightarrow> tid kern" where
  "process_first_thread p s = do {
     kassert (pr_threads (pcb s p) \<noteq> [] \<and> thread_count (pcb s p) \<noteq> 0);
     Some (hd (pr_threads (pcb s p)))
   }"

definition process_unchild :: "nat \<Rightarrow> ksys \<Rightarrow> ksys kern" where
  "process_unchild p s = do {
     par \<leftarrow> pr_parent (pcb s p);
     kassert (p \<in> set (pr_children (pcb s par)));
     Some (upd_proc par (\<lambda>x. x\<lparr>pr_children := remove1 p (pr_children x)\<rparr>) s)
   }"

text \<open>The loop of \<open>process_cleanup\<close> that hands the children of a process to init.\<close>

fun reparent :: "nat list \<Rightarrow> ksys \<Rightarrow> ksys kern" where
  "reparent [] s = Some s"
| "reparent (ch # chs) s = do {
     init \<leftarrow> process_find 1 s;
     let s = upd_proc ch (\<lambda>x. x\<lparr>pr_parent := Some init\<rparr>) s;
     reparent chs (upd_proc init (\<lambda>x. x\<lparr>pr_children := ch # pr_children x\<rparr>) s)
   }"

section \<open>Sending signals\<close>

definition process_signal ::
  "(tid \<Rightarrow> int \<Rightarrow> ksys \<Rightarrow> ksys kern) \<Rightarrow> nat \<Rightarrow> nat \<Rightarrow> int \<Rightarrow> ksys \<Rightarrow> ksys kern" where
  "process_signal sg c p signum s = do {
     kassert (\<not> signal_is_exception signum);
     let susp = (pr_state (pcb s p) = PROC_SUSPENDED);
     let s = (if susp \<and> signum = SIGCONT then upd_proc p (\<lambda>x. x\<lparr>pr_state := PROC_ACTIVE\<rparr>) s else s);
     (if susp \<and> signum \<noteq> SIGKILL \<and> signum \<noteq> SIGCONT then Some s
      else do {
        t \<leftarrow> find (\<lambda>t. th_state (thr s t) \<noteq> THREAD_STOPPED) (pr_threads (pcb s p));
        thread_signal sg c t signum s
      })
   }"

fun signal_each ::
  "(tid \<Rightarrow> int \<Rightarrow> ksys \<Rightarrow> ksys kern) \<Rightarrow> nat \<Rightarrow> (nat \<Rightarrow> ksys \<Rightarrow> bool) \<Rightarrow> nat list \<Rightarrow> int \<Rightarrow> int \<Rightarrow> ksys \<Rightarrow> (int \<times> ksys) kern" where
  "signal_each sg c cond [] signum ret s = Some (ret, s)"
| "signal_each sg c cond (p # ps) signum ret s =
     (if cond p s then do {
        s \<leftarrow> process_signal sg c p signum s;
        signal_each sg c cond ps signum (ret + 1) s
      }
      else signal_each sg c cond ps signum ret s)"

definition process_signal_pgid ::
  "(tid \<Rightarrow> int \<Rightarrow> ksys \<Rightarrow> ksys kern) \<Rightarrow> nat \<Rightarrow> int \<Rightarrow> int \<Rightarrow> ksys \<Rightarrow> (int \<times> ksys) kern" where
  "process_signal_pgid sg c pgid signum s = do {
     (ret, s) \<leftarrow> signal_each sg c (\<lambda>p s. pr_state (pcb s p) \<noteq> PROC_FINISHED \<and> pr_pgid (pcb s p) = pgid)
                   (proc_all s) signum 0 s;
     Some (if ret = 0 then - ECHILD else ret, s)
   }"

text \<open>The condition of this loop looks at the parent, not at the child.\<close>

definition process_signal_children ::
  "(tid \<Rightarrow> int \<Rightarrow> ksys \<Rightarrow> ksys kern) \<Rightarrow> nat \<Rightarrow> nat \<Rightarrow> int \<Rightarrow> ksys \<Rightarrow> (int \<times> ksys) kern" where
  "process_signal_children sg c par signum s = do {
     (ret, s) \<leftarrow> signal_each sg c (\<lambda>_ s. pr_state (pcb s par) \<noteq> PROC_FINISHED) (pr_children (pcb s par)) signum 0 s;
     Some (if ret = 0 then - ECHILD else 0, s)
   }"

definition sys_kill ::
  "(tid \<Rightarrow> int \<Rightarrow> ksys \<Rightarrow> ksys kern) \<Rightarrow> nat \<Rightarrow> int \<Rightarrow> int \<Rightarrow> ksys \<Rightarrow> (int \<times> ksys) kern" where
  "sys_kill sg c pid signum s =
     (if pid < - 1 then process_signal_pgid sg c (- pid) signum s
      else if pid = - 1 then do { self \<leftarrow> proc_self c s; process_signal_children sg c self signum s }
      else do {
        target \<leftarrow> (if pid = 0 then do { self \<leftarrow> proc_self c s; Some (Some self) } else Some (process_find pid s));
        (case target of
           None \<Rightarrow> Some (- ESRCH, s)
         | Some p \<Rightarrow>
             if pr_state (pcb s p) = PROC_FINISHED then Some (- ESRCH, s)
             else if signum = 0 then Some (0, s)
             else if signum \<le> 0 \<or> 64 \<le> signum then Some (- EINVAL, s)
             else do { s \<leftarrow> process_signal sg c p signum s; Some (0, s) })
      })"

section \<open>Process groups and identities\<close>

definition sys_getpid :: "nat \<Rightarrow> ksys \<Rightarrow> int kern" where
  "sys_getpid c s = do { p \<leftarrow> proc_self c s; Some (pr_pid (pcb s p)) }"

definition sys_getppid :: "nat \<Rightarrow> ksys \<Rightarrow> int kern" where
  "sys_getppid c s = do {
     p \<leftarrow> proc_self c s;
     (case pr_parent (pcb s p) of
        None \<Rightarrow> do { kassert (pr_pid (pcb s p) = 1); Some 1 }
      | Some q \<Rightarrow> Some (pr_pid (pcb s q)))
   }"

definition sys_getpgid :: "nat \<Rightarrow> int \<Rightarrow> ksys \<Rightarrow> int kern" where
  "sys_getpgid c pid s = do {
     target \<leftarrow> (if pid = 0 then do { self \<leftarrow> proc_self c s; Some (Some self) } else Some (process_find pid s));
     Some (case target of None \<Rightarrow> - ESRCH | Some p \<Rightarrow> pr_pgid (pcb s p))
   }"

definition sys_setpgid :: "nat \<Rightarrow> int \<Rightarrow> int \<Rightarrow> ksys \<Rightarrow> (int \<times> ksys) kern" where
  "sys_setpgid c pid pgrp s = do {
     p \<leftarrow> proc_self c s;
     (if pid = 0 \<and> pgrp = 0 then Some (0, upd_proc p (\<lambda>x. x\<lparr>pr_pgid := pr_pid x\<rparr>) s)
      else if pid = pr_pid (pcb s p) then Some (0, upd_proc p (\<lambda>x. x\<lparr>pr_pgid := pgrp\<rparr>) s)
      else case process_child p pid s of
        None \<Rightarrow> Some (- ESRCH, s)
      | Some ch \<Rightarrow>
          if pr_pgid (pcb s ch) \<noteq> pr_pgid (pcb s p) then Some (- EACCES, s)
          else Some (0, upd_proc ch (\<lambda>x. x\<lparr>pr_pgid := pgrp\<rparr>) s))
   }"

definition sys_sigentry :: "nat \<Rightarrow> 64 word \<Rightarrow> ksys \<Rightarrow> ksys kern" where
  "sys_sigentry c entry s = do { t \<leftarrow> thread_self c s; Some (upd_thr t (\<lambda>x. x\<lparr>signal_entry := Some entry\<rparr>) s) }"

text \<open>The old stack is returned; \<open>MM_NADDR\<close> for a stack that was never set is \<^term>\<open>None\<close>.\<close>

definition sys_sigaltstack ::
  "nat \<Rightarrow> (64 word \<times> 64 word) option \<Rightarrow> ksys \<Rightarrow> ((64 word option \<times> 64 word) \<times> ksys) kern" where
  "sys_sigaltstack c ss s = do {
     t \<leftarrow> thread_self c s;
     let old = (signal_stack_base (thr s t), signal_stack_size (thr s t));
     Some (old, case ss of None \<Rightarrow> s
       | Some (sp, sz) \<Rightarrow> upd_thr t (\<lambda>x. x\<lparr>signal_stack_base := Some sp, signal_stack_size := sz\<rparr>) s)
   }"

section \<open>Threads and processes come into being\<close>

record ('d, 'w) kernel =
  ks :: ksys
  k_vm :: vm
  k_fs :: "('d, 'w) fsys"

text \<open>
  The words on a new kernel stack, lowest address first: what \<open>context_switch_to\<close> and \<open>context_enter\<close> pop. \<open>enter\<close> is the
  address of \<open>context_enter\<close>.
\<close>

definition init_frame :: "64 word \<Rightarrow> bool \<Rightarrow> 64 word \<Rightarrow> 64 word \<Rightarrow> 64 word \<Rightarrow> 64 word list" where
  "init_frame enter user entry arg rsp =
     [0, 0, 0, 0, 0, 0, enter, 0, arg, 0, 0, 0, 0, 0, 0, 0, entry, (if user then 0x23 else 0x08), 0x200, rsp,
      (if user then 0x1B else 0x10)]"

fun map_ustack :: "nat \<Rightarrow> 64 word list \<Rightarrow> vm \<Rightarrow> vm kern" where
  "map_ustack space [] vm = Some vm"
| "map_ustack space (v # vs) vm = do {
     (pa, vm) \<leftarrow> alloc_frame PU_PRIVATE vm;
     vm \<leftarrow> mm_map_single space v pa (MM_PAGE_WRITE OR MM_PAGE_USER) vm;
     map_ustack space vs vm
   }"

definition alloc_kstack :: "vm \<Rightarrow> (nat \<times> vm) kern" where
  "alloc_kstack vm = do {
     (r, ph) \<leftarrow> mm_phys_alloc_contiguous THREAD_KSTACK_PAGES PU_KERNEL (vm_phys vm);
     stack_pages \<leftarrow> r;
     Some (stack_pages, vm\<lparr>vm_phys := ph\<rparr>)
   }"

definition kstack_top :: "nat \<Rightarrow> 64 word" where
  "kstack_top stack_pages = KERNEL_VIRT_BASE + of_nat (stack_pages + THREAD_KSTACK_PAGES * MM_PAGE_SIZE)"

definition thread_init ::
  "64 word \<Rightarrow> tid \<Rightarrow> 64 word \<Rightarrow> 64 word \<Rightarrow> 32 word \<Rightarrow> ('d, 'w) kernel \<Rightarrow> ('d, 'w) kernel kern" where
  "thread_init enter t entry arg flags k = do {
     (stack_pages, vm) \<leftarrow> alloc_kstack (k_vm k);
     let user = (flags AND THR_INIT_USER \<noteq> 0);
     space \<leftarrow> (case th_proc (thr (ks k) t) of
         Some p \<Rightarrow> Some (pr_space (pcb (ks k) p))
       | None \<Rightarrow> if user then None else Some (vm_kernel vm));
     (base, size, vm) \<leftarrow>
       (if user \<and> flags AND THR_INIT_STACK_SET = 0 then do {
          r \<leftarrow> vmfind space (unat THREAD_USTACK_BEGIN) (unat THREAD_USTACK_END) THREAD_USTACK_PAGES vm;
          ustack_base \<leftarrow> r;
          vm \<leftarrow> map_ustack space (page_range ustack_base THREAD_USTACK_PAGES) vm;
          Some (ustack_base, of_nat (MM_PAGE_SIZE * THREAD_USTACK_PAGES), vm)
        }
        else Some (rsp3_base (thr (ks k) t), rsp3_size (thr (ks k) t), vm));
     let rsp = (if user then base + size - 8 else kstack_top stack_pages);
     let s = upd_thr t (\<lambda>x. x\<lparr>signal_entry := None, signal_stack_base := None, signal_stack_size := 0,
       sched_prev := None, sched_next := None, rsp0_base := stack_pages, rsp0_pages := THREAD_KSTACK_PAGES,
       th_flags := if user then 0 else THREAD_KERNEL, th_sigq := 0, wait_head := [],
       sleep_notify := thread_wait_io_init, th_cr3 := space, rsp3_base := base, rsp3_size := size,
       th_state := THREAD_READY, th_frame := init_frame enter user entry arg rsp\<rparr>) (ks k);
     Some (k\<lparr>ks := s, k_vm := vm\<rparr>)
   }"

text \<open>\<open>idle\<close> is the address of the function the idle threads run.\<close>

definition sched_set_ncpus :: "nat \<Rightarrow> ksys \<Rightarrow> ksys" where
  "sched_set_ncpus ncpus s = s\<lparr>sched_ncpus := ncpus\<rparr>"

fun idle_init :: "64 word \<Rightarrow> 64 word \<Rightarrow> nat list \<Rightarrow> ('d, 'w) kernel \<Rightarrow> ('d, 'w) kernel kern" where
  "idle_init enter idle [] k = Some k"
| "idle_init enter idle (i # is) k = do {
     k \<leftarrow> thread_init enter (threads_idle (ks k) i) idle 0 0 k;
     idle_init enter idle is (k\<lparr>ks := upd_thr (threads_idle (ks k) i) (\<lambda>x. x\<lparr>th_cpu := int i, th_proc := None\<rparr>) (ks k)\<rparr>)
   }"

definition sched_init :: "64 word \<Rightarrow> 64 word \<Rightarrow> ('d, 'w) kernel \<Rightarrow> ('d, 'w) kernel kern" where
  "sched_init enter idle k = idle_init enter idle [0..<sched_ncpus (ks k)] k"

definition process_init_thread ::
  "64 word \<Rightarrow> nat \<Rightarrow> tid \<Rightarrow> 64 word \<Rightarrow> 64 word \<Rightarrow> bool \<Rightarrow> ('d, 'w) kernel \<Rightarrow> ('d, 'w) kernel kern" where
  "process_init_thread enter p t entry arg user k = do {
     (space, vm) \<leftarrow>
       (if user then do {
          (space, vm) \<leftarrow> amd64_mm_pool_alloc (k_vm k);
          vm \<leftarrow> mm_space_clone space (vm_kernel vm) MM_CLONE_FLG_KERNEL vm;
          Some (space, vm)
        }
        else Some (vm_kernel (k_vm k), k_vm k));
     let s = upd_proc p (\<lambda>x. x\<lparr>pid_notify := thread_wait_io_init, pr_name := [],
       pr_flags := if user then 0 else THREAD_KERNEL, pr_space := space\<rparr>) (ks k);
     let s = upd_thr t (\<lambda>x. x\<lparr>th_proc := Some p\<rparr>) s;
     k \<leftarrow> thread_init enter t entry arg (if user then THR_INIT_USER else 0) (k\<lparr>ks := s, k_vm := vm\<rparr>);
     let fs = k_fs k;
     let fs = fs\<lparr>fy_fd := (\<lambda>(q, j). if q = p then None else fy_fd fs (q, j)),
                fy_procs := (fy_procs fs)(p \<mapsto> \<lparr>pi_ioctx = process_ioctx_empty, pi_ctty = None\<rparr>)\<rparr>;
     let (pid, s) = process_alloc_pid user (ks k);
     let s = upd_proc p (\<lambda>x. x\<lparr>pr_threads := [t], thread_count := 1, pr_parent := None, pr_children := [],
       pr_pgid := - 1, pr_pid := pid, pr_sigq := 0, pr_state := PROC_ACTIVE\<rparr>) s;
     Some (k\<lparr>ks := s\<lparr>proc_all := p # proc_all s\<rparr>, k_fs := fs\<rparr>)
   }"

definition task_start :: "64 word \<Rightarrow> nat \<Rightarrow> tid \<Rightarrow> 64 word \<Rightarrow> 64 word \<Rightarrow> ('d, 'w) kernel \<Rightarrow> ('d, 'w) kernel kern" where
  "task_start enter p t entry arg k = do {
     k \<leftarrow> process_init_thread enter p t entry arg False k;
     t \<leftarrow> process_first_thread p (ks k);
     s \<leftarrow> sched_queue t (ks k);
     Some (k\<lparr>ks := s\<rparr>)
   }"

definition sys_clone ::
  "64 word \<Rightarrow> nat \<Rightarrow> tid \<Rightarrow> 64 word \<Rightarrow> 64 word \<Rightarrow> 64 word \<Rightarrow> ('d, 'w) kernel \<Rightarrow> (int \<times> ('d, 'w) kernel) kern" where
  "sys_clone enter c t fn stack arg k = do {
     self \<leftarrow> thread_self c (ks k);
     p \<leftarrow> th_proc (thr (ks k) self);
     let s = upd_thr t (\<lambda>x. x\<lparr>th_proc := Some p, rsp3_base := stack, rsp3_size := 0, th_cpu := 0\<rparr>) (ks k);
     k \<leftarrow> thread_init enter t fn arg (THR_INIT_USER OR THR_INIT_STACK_SET) (k\<lparr>ks := s\<rparr>);
     let s = upd_thr t (\<lambda>x. x\<lparr>signal_entry := signal_entry (thr (ks k) self)\<rparr>) (ks k);
     let s = upd_proc p (\<lambda>x. x\<lparr>pr_threads := t # pr_threads x, thread_count := Suc (thread_count x)\<rparr>) s;
     s \<leftarrow> sched_queue t s;
     Some (0, k\<lparr>ks := s\<rparr>)
   }"

section \<open>Fork\<close>

record sys_fork_frame =
  ff_rdi :: "64 word"
  ff_rsi :: "64 word"
  ff_rdx :: "64 word"
  ff_rcx :: "64 word"
  ff_r8 :: "64 word"
  ff_r9 :: "64 word"
  ff_r10 :: "64 word"
  ff_r11 :: "64 word"
  ff_rbx :: "64 word"
  ff_rbp :: "64 word"
  ff_r12 :: "64 word"
  ff_r13 :: "64 word"
  ff_r14 :: "64 word"
  ff_r15 :: "64 word"
  ff_rsp :: "64 word"
  ff_rflags :: "64 word"
  ff_rip :: "64 word"

definition fork_frame :: "64 word \<Rightarrow> sys_fork_frame \<Rightarrow> 64 word list" where
  "fork_frame enter f =
     [ff_rbx f, ff_rbp f, ff_r12 f, ff_r13 f, ff_r14 f, ff_r15 f, enter, 0, ff_rdi f, ff_rsi f, ff_rdx f, ff_rcx f,
      ff_r8 f, ff_r9 f, ff_r10 f, ff_r11 f, ff_rip f, 0x23, ff_rflags f, ff_rsp f, 0x1B]"

text \<open>\<open>dst\<close> and \<open>dst_thread\<close> are what \<open>kmalloc\<close> returns.\<close>

definition sys_fork ::
  "64 word \<Rightarrow> nat \<Rightarrow> sys_fork_frame \<Rightarrow> nat \<Rightarrow> tid \<Rightarrow> ('d, 'w) kernel \<Rightarrow> (int \<times> ('d, 'w) kernel) kern" where
  "sys_fork enter c frm dst dst_thread k = do {
     src_thread \<leftarrow> thread_self c (ks k);
     src \<leftarrow> th_proc (thr (ks k) src_thread);
     kassert (pr_flags (pcb (ks k) src) AND THREAD_KERNEL = 0);
     kassert (thread_count (pcb (ks k) src) = 1);
     (space, vm) \<leftarrow> amd64_mm_pool_alloc (k_vm k);
     vm \<leftarrow> mm_space_fork space (pr_space (pcb (ks k) src)) (MM_CLONE_FLG_KERNEL OR MM_CLONE_FLG_USER) vm;
     fs \<leftarrow> fork_io dst src (k_fs k);
     let (pid, s) = process_alloc_pid True (ks k);
     let sp = pcb s src;
     let s = upd_proc dst (\<lambda>x. x\<lparr>pr_threads := [dst_thread], thread_count := 1, pr_space := space,
       pid_notify := thread_wait_io_init, pr_flags := 0, pr_name := pr_name sp, pr_parent := Some src,
       pr_children := [], pr_pid := pid, pr_pgid := pr_pgid sp, pr_sigq := 0, pr_state := PROC_ACTIVE\<rparr>) s;
     let s = upd_proc src (\<lambda>x. x\<lparr>pr_children := dst # pr_children x\<rparr>) s;
     (stack_pages, vm) \<leftarrow> alloc_kstack vm;
     kassert (ff_rflags frm AND 0x200 \<noteq> 0);
     let st = thr s src_thread;
     let s = upd_thr dst_thread (\<lambda>x. x\<lparr>th_proc := Some dst, wait_head := [], sleep_notify := thread_wait_io_init,
       sched_prev := None, sched_next := None, rsp0_base := stack_pages, rsp0_pages := THREAD_KSTACK_PAGES,
       th_flags := 0, th_sigq := 0, rsp3_base := rsp3_base st, rsp3_size := rsp3_size st,
       signal_entry := signal_entry st, signal_stack_base := signal_stack_base st,
       signal_stack_size := signal_stack_size st, th_cr3 := space, th_state := THREAD_READY,
       th_frame := fork_frame enter frm\<rparr>) s;
     s \<leftarrow> sched_queue dst_thread (s\<lparr>proc_all := dst # proc_all s\<rparr>);
     Some (pid, k\<lparr>ks := s, k_vm := vm, k_fs := fs\<rparr>)
   }"

section \<open>Exit\<close>

text \<open>
  \<open>sys_exit\<close> ends in \<open>sched_unqueue\<close>. For the last thread of a process it is cut where the parent, which has just been
  notified, can run: \<open>exit_announce\<close> closes the descriptors and notifies the parent, \<open>exit_complete\<close> sets the state of
  the process and takes the thread out of its queue.
\<close>

definition exit_clear :: "tid \<Rightarrow> ksys \<Rightarrow> ksys" where
  "exit_clear t s =
     upd_thr t (\<lambda>x. x\<lparr>wait_head := []\<rparr>)
       (s\<lparr>pcb := (\<lambda>p. if p \<in> set (wait_head (thr s t)) then (pcb s p)\<lparr>pid_notify := (pid_notify (pcb s p))\<lparr>ion_owner := None\<rparr>\<rparr>
                  else pcb s p)\<rparr>)"

definition exit_notify :: "nat \<Rightarrow> int \<Rightarrow> ksys \<Rightarrow> ksys kern" where
  "exit_notify p status s = do {
     let s = upd_proc p (\<lambda>x. x\<lparr>exit_status := status\<rparr>) s;
     (if ion_owner (pid_notify (pcb s p)) \<noteq> None then notify_pid p s else Some s)
   }"

definition exit_finish :: "nat \<Rightarrow> ksys \<Rightarrow> ksys" where
  "exit_finish p s = upd_proc p (\<lambda>x. x\<lparr>pr_state := PROC_FINISHED\<rparr>) s"

definition exit_announce ::
  "('d, 'w) vfs_env \<Rightarrow> tid \<Rightarrow> nat \<Rightarrow> int \<Rightarrow> ('d, 'w) kernel \<Rightarrow> ('d, 'w) kernel kern" where
  "exit_announce env t p status k = do {
     let s = exit_clear t (ks k);
     fs \<leftarrow> exit_close_fds env p (k_fs k);
     s \<leftarrow> exit_notify p status s;
     Some (k\<lparr>ks := s, k_fs := fs\<rparr>)
   }"

definition exit_complete ::
  "(tid \<Rightarrow> int \<Rightarrow> ksys \<Rightarrow> ksys kern) \<Rightarrow> nat \<Rightarrow> tid \<Rightarrow> nat \<Rightarrow> ('d, 'w) kernel \<Rightarrow> ('d, 'w) kernel kern" where
  "exit_complete sg c t p k = do {
     s \<leftarrow> sched_unqueue sg c t THREAD_STOPPED (exit_finish p (ks k));
     Some (k\<lparr>ks := s\<rparr>)
   }"

definition sys_exit ::
  "(tid \<Rightarrow> int \<Rightarrow> ksys \<Rightarrow> ksys kern) \<Rightarrow> ('d, 'w) vfs_env \<Rightarrow> nat \<Rightarrow> int \<Rightarrow> ('d, 'w) kernel \<Rightarrow> ('d, 'w) kernel kern" where
  "sys_exit sg env c status k = do {
     t \<leftarrow> thread_self c (ks k);
     p \<leftarrow> th_proc (thr (ks k) t);
     (if thread_count (pcb (ks k) p) \<noteq> 1 then do {
        let s = exit_clear t (ks k);
        s \<leftarrow> sched_unqueue sg c t THREAD_STOPPED (upd_proc p (\<lambda>x. x\<lparr>thread_count := thread_count x - 1\<rparr>) s);
        Some (k\<lparr>ks := s\<rparr>)
      }
      else do {
        k \<leftarrow> exit_announce env t p status k;
        exit_complete sg c t p k
      })
   }"

section \<open>Wait\<close>

definition wait_check_pid :: "32 word \<Rightarrow> nat \<Rightarrow> ksys \<Rightarrow> bool" where
  "wait_check_pid flags ch s \<longleftrightarrow> pr_state (pcb s ch) = PROC_FINISHED
     \<or> flags AND WSTOPPED \<noteq> 0 \<and> pr_state (pcb s ch) = PROC_SUSPENDED"

definition wait_check_pgrp :: "nat \<Rightarrow> int \<Rightarrow> 32 word \<Rightarrow> ksys \<Rightarrow> nat option" where
  "wait_check_pgrp self pgrp flags s =
     find (\<lambda>ch. (pgrp = - 1 \<or> pr_pgid (pcb s ch) = - pgrp) \<and> wait_check_pid flags ch s) (pr_children (pcb s self))"

text \<open>
  Both loops of \<open>sys_waitpid\<close> run until a child is ready or the thread has to sleep. The result says which child is ready;
  \<^term>\<open>None\<close> inside it means that the thread sleeps.
\<close>

partial_function (option) wait_one :: "tid \<Rightarrow> 32 word \<Rightarrow> nat \<Rightarrow> ksys \<Rightarrow> (nat option \<times> ksys) option" where
  "wait_one t flags ch s =
     (if wait_check_pid flags ch s then Some (Some ch, s)
      else do {
        (r, n) \<leftarrow> thread_wait_io t (pid_notify (pcb s ch));
        let s = upd_proc ch (\<lambda>x. x\<lparr>pid_notify := n\<rparr>) s;
        (case r of WRet _ \<Rightarrow> wait_one t flags ch s | WSleep \<Rightarrow> Some (None, s))
      })"

fun wait_add :: "tid \<Rightarrow> nat list \<Rightarrow> ksys \<Rightarrow> ksys kern" where
  "wait_add t [] s = Some s"
| "wait_add t (ch # chs) s = do {
     n \<leftarrow> thread_wait_io_add t (pid_notify (pcb s ch));
     let s = upd_proc ch (\<lambda>x. x\<lparr>pid_notify := n\<rparr>) s;
     wait_add t chs (upd_thr t (\<lambda>x. x\<lparr>wait_head := ch # wait_head x\<rparr>) s)
   }"

partial_function (option) wait_group :: "tid \<Rightarrow> nat \<Rightarrow> int \<Rightarrow> 32 word \<Rightarrow> ksys \<Rightarrow> (nat option \<times> ksys) option" where
  "wait_group t self pgrp flags s =
     (case wait_check_pgrp self pgrp flags s of
        Some ch \<Rightarrow> Some (Some ch, s)
      | None \<Rightarrow> do {
          s \<leftarrow> wait_add t (filter (\<lambda>ch. pgrp = - 1 \<or> pr_pgid (pcb s ch) = - pgrp) (pr_children (pcb s self))) s;
          (case find (\<lambda>ch. ion_value (pid_notify (pcb s ch)) \<noteq> 0) (wait_head (thr s t)) of
             Some ch \<Rightarrow> wait_group t self pgrp flags
               (exit_clear t (upd_proc ch (\<lambda>x. x\<lparr>pid_notify := (pid_notify x)\<lparr>ion_value := ion_value (pid_notify x) - 1\<rparr>\<rparr>) s))
           | None \<Rightarrow> Some (None, s))
        })"

definition free_kstack :: "tid \<Rightarrow> ('d, 'w) kernel \<Rightarrow> ('d, 'w) kernel kern" where
  "free_kstack t k = do {
     vm \<leftarrow> kfold (\<lambda>i vm. free_frame (i * MM_PAGE_SIZE + rsp0_base (thr (ks k) t)) vm) [0..<rsp0_pages (thr (ks k) t)] (k_vm k);
     Some (k\<lparr>k_vm := vm\<rparr>)
   }"

definition process_cleanup :: "nat \<Rightarrow> ('d, 'w) kernel \<Rightarrow> ('d, 'w) kernel kern" where
  "process_cleanup p k = do {
     s \<leftarrow> reparent (pr_children (pcb (ks k) p)) (ks k);
     let s = upd_proc p (\<lambda>x. x\<lparr>pr_children := []\<rparr>) s;
     kassert (pr_state (pcb s p) = PROC_FINISHED);
     kassert (thread_count (pcb s p) = 1);
     let s = upd_proc p (\<lambda>x. x\<lparr>pr_flags := pr_flags x OR PROC_EMPTY\<rparr>) s;
     vm \<leftarrow> mm_space_release (pr_space (pcb s p)) (k_vm k);
     Some (k\<lparr>ks := s, k_vm := vm\<rparr>)
   }"

text \<open>
  \<open>cr3\<close> is the address space the CPU runs in. The end of the function, which clears and frees the heap blocks of the thread and
  the process, is left out: the stores hold no heap blocks, and the keys are not used again.
\<close>

definition process_free :: "nat \<Rightarrow> nat \<Rightarrow> ('d, 'w) kernel \<Rightarrow> ('d, 'w) kernel kern" where
  "process_free cr3 p k = do {
     kassert (thread_count (pcb (ks k) p) = 1);
     k \<leftarrow> process_cleanup p k;
     kassert (pr_state (pcb (ks k) p) = PROC_FINISHED);
     t \<leftarrow> (case pr_threads (pcb (ks k) p) of [] \<Rightarrow> None | t # _ \<Rightarrow> Some t);
     k \<leftarrow> free_kstack t k;
     (if pr_space (pcb (ks k) p) \<noteq> vm_kernel (k_vm k) then do {
        kassert (cr3 \<noteq> pr_space (pcb (ks k) p));
        vm \<leftarrow> mm_space_free (pr_space (pcb (ks k) p)) (k_vm k);
        Some (k\<lparr>k_vm := vm\<rparr>)
      }
      else Some k)
   }"

text \<open>The end of \<open>sys_waitpid\<close>: the pid, the status if there is one, and the new state.\<close>

definition wait_reap :: "nat \<Rightarrow> nat \<Rightarrow> ('d, 'w) kernel \<Rightarrow> ((int \<times> int option) \<times> ('d, 'w) kernel) kern" where
  "wait_reap cr3 ch k =
     (let cp = pcb (ks k) ch in
      if pr_state cp = PROC_FINISHED then do {
        s \<leftarrow> process_unchild ch (ks k);
        let s = s\<lparr>proc_all := remove1 ch (proc_all s)\<rparr>;
        k \<leftarrow> process_free cr3 ch (k\<lparr>ks := s\<rparr>);
        Some ((pr_pid cp, Some (exit_status cp)), k)
      }
      else if pr_state cp = PROC_SUSPENDED then Some ((pr_pid cp, Some 127), k)
      else Some ((pr_pid cp, None), k))"

datatype ('d, 'w) waitpid_result = Waited int "int option" "('d, 'w) kernel" | Sleeping "('d, 'w) kernel"

definition wait_outcome ::
  "(tid \<Rightarrow> int \<Rightarrow> ksys \<Rightarrow> ksys kern) \<Rightarrow> nat \<Rightarrow> tid \<Rightarrow> nat option \<times> ksys \<Rightarrow> ('d, 'w) kernel \<Rightarrow> ('d, 'w) waitpid_result kern" where
  "wait_outcome sg c t r k =
     (case r of
        (Some ch, s) \<Rightarrow> do {
          ((pid, status), k) \<leftarrow> wait_reap (th_cr3 (thr s t)) ch (k\<lparr>ks := s\<rparr>);
          Some (Waited pid status k)
        }
      | (None, s) \<Rightarrow> do {
          s \<leftarrow> sched_unqueue sg c t THREAD_WAITING s;
          Some (Sleeping (k\<lparr>ks := s\<rparr>))
        })"

definition sys_waitpid ::
  "(tid \<Rightarrow> int \<Rightarrow> ksys \<Rightarrow> ksys kern) \<Rightarrow> nat \<Rightarrow> int \<Rightarrow> 32 word \<Rightarrow> ('d, 'w) kernel \<Rightarrow> ('d, 'w) waitpid_result kern" where
  "sys_waitpid sg c pid flags k = do {
     t \<leftarrow> thread_self c (ks k);
     self \<leftarrow> th_proc (thr (ks k) t);
     (if 0 < pid then
        (case process_child self pid (ks k) of
           None \<Rightarrow> Some (Waited (- ECHILD) None k)
         | Some ch \<Rightarrow> do { r \<leftarrow> wait_one t flags ch (ks k); wait_outcome sg c t r k })
      else if pid < - 1 \<and> (\<forall>ch \<in> set (pr_children (pcb (ks k) self)). pr_pgid (pcb (ks k) ch) \<noteq> - pid)
        then Some (Waited (- ECHILD) None k)
      else if pid \<le> - 1 then do { r \<leftarrow> wait_group t self pid flags (ks k); wait_outcome sg c t r k }
      else None)
   }"

text \<open>What the thread does when it is queued again after waiting for one child.\<close>

definition waitpid_resume ::
  "(tid \<Rightarrow> int \<Rightarrow> ksys \<Rightarrow> ksys kern) \<Rightarrow> nat \<Rightarrow> nat \<Rightarrow> 32 word \<Rightarrow> ('d, 'w) kernel \<Rightarrow> ('d, 'w) waitpid_result kern" where
  "waitpid_resume sg c ch flags k = do {
     t \<leftarrow> thread_self c (ks k);
     let s = upd_proc ch (\<lambda>x. x\<lparr>pid_notify := (pid_notify x)\<lparr>ion_owner := None\<rparr>\<rparr>) (ks k);
     (r, s) \<leftarrow> thread_check_signal sg t 0 s;
     (if r \<noteq> 0 then Some (Waited r None (k\<lparr>ks := s\<rparr>))
      else do {
        (w, n) \<leftarrow> thread_wait_io t (pid_notify (pcb s ch));
        let s = upd_proc ch (\<lambda>x. x\<lparr>pid_notify := n\<rparr>) s;
        (case w of
           WSleep \<Rightarrow> do { s \<leftarrow> sched_unqueue sg c t THREAD_WAITING s; Some (Sleeping (k\<lparr>ks := s\<rparr>)) }
         | WRet _ \<Rightarrow> do { r \<leftarrow> wait_one t flags ch s; wait_outcome sg c t r (k\<lparr>ks := s\<rparr>) })
      })
   }"

text \<open>The same for a thread that waits for several children.\<close>

definition waitgroup_resume ::
  "(tid \<Rightarrow> int \<Rightarrow> ksys \<Rightarrow> ksys kern) \<Rightarrow> nat \<Rightarrow> int \<Rightarrow> 32 word \<Rightarrow> ('d, 'w) kernel \<Rightarrow> ('d, 'w) waitpid_result kern" where
  "waitgroup_resume sg c pgrp flags k = do {
     t \<leftarrow> thread_self c (ks k);
     self \<leftarrow> th_proc (thr (ks k) t);
     (r, s) \<leftarrow> thread_check_signal sg t 0 (ks k);
     (if r \<noteq> 0 then Some (Waited r None (k\<lparr>ks := exit_clear t s\<rparr>))
      else case find (\<lambda>ch. ion_value (pid_notify (pcb s ch)) \<noteq> 0) (wait_head (thr s t)) of
        None \<Rightarrow> do { s \<leftarrow> sched_unqueue sg c t THREAD_WAITING s; Some (Sleeping (k\<lparr>ks := s\<rparr>)) }
      | Some ch \<Rightarrow> do {
          let s = exit_clear t (upd_proc ch (\<lambda>x. x\<lparr>pid_notify := (pid_notify x)\<lparr>ion_value := ion_value (pid_notify x) - 1\<rparr>\<rparr>) s);
          r \<leftarrow> wait_group t self pgrp flags s;
          wait_outcome sg c t r (k\<lparr>ks := s\<rparr>)
        })
   }"

end
