(* ===== verification/Sched_Queue.thy ===== *)
theory Sched_Queue
  imports Sched
begin

text \<open>
  The run queues as lists. \<open>dseg\<close> describes a stretch of a doubly linked list by the threads between its ends, a ring
  is a stretch that ends where it begins, and \<open>sched_ok\<close> says that every CPU has a ring of its own. Queueing
  appends, unqueueing removes, and \<open>yield\<close> goes on to the next thread of the ring.
\<close>

section \<open>Doubly linked rings\<close>

fun dseg :: "(tid \<Rightarrow> tid option) \<Rightarrow> (tid \<Rightarrow> tid option) \<Rightarrow> tid \<Rightarrow> tid list \<Rightarrow> tid \<Rightarrow> bool" where
  "dseg nx pv a [] b = (nx a = Some b \<and> pv b = Some a)"
| "dseg nx pv a (x # xs) b = (nx a = Some x \<and> pv x = Some a \<and> dseg nx pv x xs b)"

lemma dseg_append:
  "dseg nx pv a (xs @ y # ys) b = (dseg nx pv a xs y \<and> dseg nx pv y ys b)"
  by (induction xs arbitrary: a) auto

lemma dseg_cong:
  assumes "dseg nx pv a xs b"
    and "\<And>x. x \<in> insert a (set xs) \<Longrightarrow> nx' x = nx x" "\<And>x. x \<in> insert b (set xs) \<Longrightarrow> pv' x = pv x"
  shows "dseg nx' pv' a xs b"
  using assms by (induction xs arbitrary: a) auto

lemma dseg_prev: "dseg nx pv a xs b \<Longrightarrow> pv b = Some (last (a # xs))"
  by (induction xs arbitrary: a) auto

lemma dseg_next: "dseg nx pv a xs b \<Longrightarrow> nx a = Some (hd (xs @ [b]))"
  by (cases xs) auto

lemma dseg_retarget:
  assumes "dseg nx pv a xs b" "distinct (a # xs)" "d \<notin> set xs"
  shows "dseg (nx(last (a # xs) := Some d)) (pv(d := Some (last (a # xs)))) a xs d"
  using assms
proof (induction xs arbitrary: a)
  case (Cons x xs)
  from Cons.prems have seg: "nx a = Some x" "pv x = Some a" "dseg nx pv x xs b"
    and dist: "distinct (x # xs)" "a \<notin> set (x # xs)" and d: "d \<notin> set xs" "x \<noteq> d" by auto
  have "last (x # xs) \<in> set (x # xs)" by (rule last_in_set) simp
  hence "a \<noteq> last (x # xs)" using dist(2) by metis
  with Cons.IH [OF seg(3) dist(1) d(1)] seg d(2) show ?case by simp
qed simp

fun ring :: "(tid \<Rightarrow> tid option) \<Rightarrow> (tid \<Rightarrow> tid option) \<Rightarrow> tid list \<Rightarrow> bool" where
  "ring nx pv [] = True"
| "ring nx pv (x # xs) = (distinct (x # xs) \<and> dseg nx pv x xs x)"

lemma ring_distinct: "ring nx pv q \<Longrightarrow> distinct q"
  by (cases q) auto

lemma ring_cong:
  assumes "ring nx pv q" "\<And>x. x \<in> set q \<Longrightarrow> nx' x = nx x" "\<And>x. x \<in> set q \<Longrightarrow> pv' x = pv x"
  shows "ring nx' pv' q"
proof (cases q)
  case (Cons x xs)
  with assms(1) have "dseg nx pv x xs x" by simp
  hence "dseg nx' pv' x xs x" by (rule dseg_cong) (use assms(2,3) Cons in auto)
  with assms(1) Cons show ?thesis by simp
qed simp

text \<open>The successor of a thread in the cyclic order of its queue.\<close>

definition succ_in :: "tid list \<Rightarrow> tid \<Rightarrow> tid" where
  "succ_in q t = hd (tl (dropWhile (\<lambda>x. x \<noteq> t) q) @ q)"

lemma succ_in_split: "t \<notin> set as \<Longrightarrow> succ_in (as @ t # bs) t = hd (bs @ as @ [t])"
proof -
  assume "t \<notin> set as"
  hence "dropWhile (\<lambda>x. x \<noteq> t) (as @ t # bs) = t # bs" by (subst dropWhile_append2) auto
  thus ?thesis by (cases bs; cases as) (simp_all add: succ_in_def)
qed

lemma ring_split:
  assumes "ring nx pv (as @ t # bs)"
  shows "dseg nx pv t (bs @ as) t" "distinct (t # bs @ as)"
proof -
  show "distinct (t # bs @ as)" using ring_distinct [OF assms] by auto
  show "dseg nx pv t (bs @ as) t"
    using assms by (cases as) (auto simp: dseg_append)
qed

lemma ring_rotate:
  assumes "dseg nx pv t (bs @ as) t" "distinct (t # bs @ as)"
  shows "ring nx pv (as @ t # bs)"
  using assms by (cases as) (auto simp: dseg_append)

lemma ring_next:
  assumes "ring nx pv q" "t \<in> set q"
  shows "nx t = Some (succ_in q t)"
proof -
  obtain as bs where q: "q = as @ t # bs" and t: "t \<notin> set as"
    using split_list_first [OF assms(2)] by blast
  from ring_split(1) assms(1) q have "dseg nx pv t (bs @ as) t" by blast
  from dseg_next [OF this] show ?thesis using t by (simp add: q succ_in_split)
qed

lemma succ_in_mem: "t \<in> set q \<Longrightarrow> succ_in q t \<in> set q"
proof -
  assume "t \<in> set q"
  then obtain as bs where q: "q = as @ t # bs" and t: "t \<notin> set as"
    using split_list_first by metis
  have "hd (bs @ as @ [t]) \<in> set (bs @ as @ [t])" by (rule hd_in_set) simp
  thus ?thesis using t by (auto simp: q succ_in_split)
qed

lemma ring_insert:
  assumes "ring nx pv (x # xs)" "t \<notin> set (x # xs)" "tail = last (x # xs)"
  shows "ring (nx(tail := Some t, t := Some x)) (pv(t := Some tail, x := Some t)) (x # xs @ [t])"
proof -
  from assms(1) have d: "dseg nx pv x xs x" "distinct (x # xs)" by auto
  have tail: "tail \<in> set (x # xs)" using assms(3) by simp
  have "dseg (nx(tail := Some t)) (pv(t := Some tail)) x xs t"
    using dseg_retarget [OF d] assms(2,3) by simp
  hence "dseg (nx(tail := Some t, t := Some x)) (pv(t := Some tail, x := Some t)) x xs t"
    by (rule dseg_cong) (use assms(2) d(2) in auto)
  moreover have "distinct (x # xs @ [t])" using d(2) assms(2) by auto
  ultimately show ?thesis using assms(2) tail by (auto simp: dseg_append)
qed

lemma ring_remove:
  assumes "ring nx pv (as @ t # bs)" "as @ bs \<noteq> []"
  shows "\<exists>p n. pv t = Some p \<and> nx t = Some n \<and> p \<in> set (as @ bs) \<and> n \<in> set (as @ bs) \<and> n = hd (bs @ as)
      \<and> ring (nx(p := Some n, t := None)) (pv(n := Some p, t := None)) (as @ bs)"
proof -
  note split = ring_split [OF assms(1)]
  from assms(2) obtain n r where nr: "bs @ as = n # r" by (cases "bs @ as") auto
  let ?p = "last (n # r)"
  have dseg: "nx t = Some n" "pv n = Some t" "dseg nx pv n r t" using split(1) nr by auto
  have dist: "distinct (n # r)" "t \<notin> set (n # r)" using split(2) nr by auto
  have mem: "set (n # r) = set (as @ bs)" by (simp flip: nr) auto
  have p: "?p \<in> set (n # r)" by (rule last_in_set) simp
  have "dseg (nx(?p := Some n)) (pv(n := Some ?p)) n r n"
    using dseg_retarget [OF dseg(3) dist(1), of n] dist(1) by simp
  hence new: "dseg (nx(?p := Some n, t := None)) (pv(n := Some ?p, t := None)) n r n"
    by (rule dseg_cong) (use dist in auto)
  have "ring (nx(?p := Some n, t := None)) (pv(n := Some ?p, t := None)) (as @ bs)"
  proof (cases bs)
    case Nil
    thus ?thesis using new nr dist(1) by simp
  next
    case (Cons b bs')
    hence "n = b" "r = bs' @ as" using nr by auto
    thus ?thesis using ring_rotate [of _ _ b bs' as] new dist(1) Cons by simp
  qed
  thus ?thesis using dseg dseg_prev [OF dseg(3)] p mem nr by (metis list.sel(1) list.set_intros(1))
qed

section \<open>The run queues\<close>

abbreviation nx :: "ksys \<Rightarrow> tid \<Rightarrow> tid option" where "nx s \<equiv> (\<lambda>t. sched_next (thr s t))"
abbreviation pv :: "ksys \<Rightarrow> tid \<Rightarrow> tid option" where "pv s \<equiv> (\<lambda>t. sched_prev (thr s t))"

definition head_of :: "tid list \<Rightarrow> tid option" where
  "head_of q = (case q of [] \<Rightarrow> None | x # _ \<Rightarrow> Some x)"

lemma head_of_simps [simp]: "head_of [] = None" "head_of (x # xs) = Some x"
  by (simp_all add: head_of_def)

definition sched_ok :: "(nat \<Rightarrow> tid list) \<Rightarrow> ksys \<Rightarrow> bool" where
  "sched_ok Q s \<longleftrightarrow>
     (\<forall>c. ring (nx s) (pv s) (Q c) \<and> queue_heads s c = head_of (Q c) \<and> queue_sizes s c = length (Q c))
     \<and> (\<forall>c d. c \<noteq> d \<longrightarrow> set (Q c) \<inter> set (Q d) = {})
     \<and> (\<forall>t. (\<forall>c. t \<notin> set (Q c)) \<longrightarrow> nx s t = None \<and> pv s t = None)
     \<and> (\<forall>c. \<forall>t \<in> set (Q c). th_cpu (thr s t) = int c \<and> th_state (thr s t) \<in> {THREAD_READY, THREAD_RUNNING})
     \<and> (\<forall>c d. threads_idle s c \<notin> set (Q d) \<and> th_state (thr s (threads_idle s c)) \<noteq> THREAD_STOPPED)
     \<and> (\<forall>c t. cpu_thread s c = Some t \<longrightarrow> t \<in> set (Q c) \<or> t = threads_idle s c)"

lemma sched_okD:
  assumes "sched_ok Q s"
  shows "ring (nx s) (pv s) (Q c)" "queue_heads s c = head_of (Q c)" "queue_sizes s c = length (Q c)"
    and "c \<noteq> d \<Longrightarrow> t \<in> set (Q c) \<Longrightarrow> t \<notin> set (Q d)"
    and "(\<And>c. t \<notin> set (Q c)) \<Longrightarrow> nx s t = None \<and> pv s t = None"
    and "t \<in> set (Q c) \<Longrightarrow> th_cpu (thr s t) = int c \<and> th_state (thr s t) \<in> {THREAD_READY, THREAD_RUNNING}"
    and "threads_idle s c \<notin> set (Q d)" "th_state (thr s (threads_idle s c)) \<noteq> THREAD_STOPPED"
    and "cpu_thread s c = Some t \<Longrightarrow> t \<in> set (Q c) \<or> t = threads_idle s c"
  using assms unfolding sched_ok_def by (blast+)

text \<open>What the operations of the scheduler leave alone: processes, and what threads know about them.\<close>

definition same_procs :: "ksys \<Rightarrow> ksys \<Rightarrow> bool" where
  "same_procs s s' \<longleftrightarrow> pcb s' = pcb s \<and> threads_idle s' = threads_idle s \<and> sched_ncpus s' = sched_ncpus s
     \<and> proc_all s' = proc_all s
     \<and> (\<forall>t. th_proc (thr s' t) = th_proc (thr s t) \<and> th_sigq (thr s' t) = th_sigq (thr s t))"

lemma same_procs_refl [simp]: "same_procs s s"
  by (simp add: same_procs_def)

lemma same_procs_trans: "same_procs s s' \<Longrightarrow> same_procs s' s'' \<Longrightarrow> same_procs s s''"
  by (simp add: same_procs_def)

definition calm :: "ksys \<Rightarrow> tid \<Rightarrow> bool" where
  "calm s t = (case th_proc (thr s t) of None \<Rightarrow> True
     | Some p \<Rightarrow> th_sigq (thr s t) = 0 \<and> pr_sigq (pcb s p) = 0 \<and> pr_state (pcb s p) \<noteq> PROC_SUSPENDED)"

lemma same_procs_calm: "same_procs s s' \<Longrightarrow> calm s' t = calm s t"
  unfolding same_procs_def calm_def by (elim conjE) (simp split: option.split)

lemma calm_check: "calm s t \<Longrightarrow> thread_check_signal sigenter t r s = Some (r, s)"
  by (auto simp: calm_def thread_check_signal_def split: option.splits)

lemma queue_to_linked:
  assumes "sched_ok Q s" "t \<in> set (Q d)"
  shows "sched_queue_to t c s = Some s"
  using ring_next [OF sched_okD(1) [OF assms(1)] assms(2)] by (simp add: sched_queue_to_def)

text \<open>One queue changes by one thread.\<close>

lemma sched_ok_change:
  assumes ok: "sched_ok Q s"
    and q: "ring (nx s') (pv s') q" "set q \<subseteq> insert t (set (Q c))" "set (Q c) \<subseteq> insert t (set q)"
    and heads: "queue_heads s' = (queue_heads s)(c := head_of q)" "queue_sizes s' = (queue_sizes s)(c := length q)"
    and t: "\<And>d. d \<noteq> c \<Longrightarrow> t \<notin> set (Q d)" "\<And>d. t \<noteq> threads_idle s d"
    and same: "\<And>x. x \<notin> insert t (set (Q c)) \<Longrightarrow> thr s' x = thr s x"
      "\<And>x. x \<noteq> t \<Longrightarrow> th_cpu (thr s' x) = th_cpu (thr s x) \<and> th_state (thr s' x) = th_state (thr s x)"
    and tin: "t \<in> set q \<Longrightarrow> th_cpu (thr s' t) = int c \<and> th_state (thr s' t) \<in> {THREAD_READY, THREAD_RUNNING}"
    and tout: "t \<notin> set q \<Longrightarrow> nx s' t = None \<and> pv s' t = None"
    and idle: "threads_idle s' = threads_idle s"
    and cur: "\<And>d. d \<noteq> c \<Longrightarrow> cpu_thread s' d = cpu_thread s d"
      "\<And>x. cpu_thread s' c = Some x \<Longrightarrow> x \<in> set q \<or> x = threads_idle s c"
  shows "sched_ok (Q(c := q)) s'"
proof -
  have old: "\<And>x. x \<noteq> t \<Longrightarrow> x \<in> set q \<longleftrightarrow> x \<in> set (Q c)" using q(2,3) by blast
  have other: "thr s' x = thr s x" if "d \<noteq> c" "x \<in> set (Q d)" for d x
    by (rule same(1)) (use that t(1) sched_okD(4) [OF ok that(1)] in blast)
  show ?thesis
    unfolding sched_ok_def
  proof (intro conjI allI impI ballI)
    fix d
    have "ring (nx s') (pv s') (Q d)" if "d \<noteq> c"
      by (rule ring_cong [OF sched_okD(1) [OF ok]]) (simp_all add: other [OF that])
    thus "ring (nx s') (pv s') ((Q(c := q)) d)" using q(1) by simp
    show "queue_heads s' d = head_of ((Q(c := q)) d)" using heads(1) sched_okD(2) [OF ok] by simp
    show "queue_sizes s' d = length ((Q(c := q)) d)" using heads(2) sched_okD(3) [OF ok] by simp
  next
    fix d e :: nat assume "d \<noteq> e"
    thus "set ((Q(c := q)) d) \<inter> set ((Q(c := q)) e) = {}"
      using t(1) old sched_okD(4) [OF ok] by (simp add: disjoint_iff) metis
  next
    fix x assume "\<forall>d. x \<notin> set ((Q(c := q)) d)"
    hence x: "\<And>d. d \<noteq> c \<Longrightarrow> x \<notin> set (Q d)" "x \<notin> set q" by (metis fun_upd_apply)+
    have "nx s' x = None \<and> pv s' x = None"
    proof (cases "x = t")
      case False
      hence none: "\<And>d. x \<notin> set (Q d)" using x old by metis
      hence "thr s' x = thr s x" using same(1) False by blast
      thus ?thesis using sched_okD(5) [OF ok none] by simp
    qed (use tout x in simp)
    thus "nx s' x = None" "pv s' x = None" by auto
  next
    fix d x assume "x \<in> set ((Q(c := q)) d)"
    hence "x = t \<and> d = c \<and> t \<in> set q \<or> x \<noteq> t \<and> x \<in> set (Q d)" using t(1) old by (metis fun_upd_apply)
    thus "th_cpu (thr s' x) = int d" "th_state (thr s' x) \<in> {THREAD_READY, THREAD_RUNNING}"
      using sched_okD(6) [OF ok] same(2) tin by metis+
  next
    fix d e show "threads_idle s' d \<notin> set ((Q(c := q)) e)"
      using sched_okD(7) [OF ok] t(2) idle old by (metis fun_upd_apply)
    show "th_state (thr s' (threads_idle s' d)) \<noteq> THREAD_STOPPED"
      using sched_okD(8) [OF ok] t(2) same(2) idle by metis
  next
    fix d x assume "cpu_thread s' d = Some x"
    thus "x \<in> set ((Q(c := q)) d) \<or> x = threads_idle s' d"
      using sched_okD(9) [OF ok] idle cur by (cases "d = c") auto
  qed
qed

lemma queue_to_ok:
  assumes ok: "sched_ok Q s" and t: "\<And>d. t \<notin> set (Q d)" "\<And>d. t \<noteq> threads_idle s d"
  shows "\<exists>s'. sched_queue_to t c s = Some s' \<and> sched_ok (Q(c := Q c @ [t])) s' \<and> same_procs s s'
      \<and> cpu_thread s' = cpu_thread s \<and> clk s' = clk s"
proof -
  have unlinked: "nx s t = None" "pv s t = None" using sched_okD(5) [OF ok t(1)] by auto
  note qs = sched_okD(2,3) [OF ok, of c]
  show ?thesis
  proof (cases "Q c")
    case Nil
    let ?s' = "((upd_thr t (\<lambda>x. x\<lparr>th_state := THREAD_READY, th_cpu := int c, sched_next := Some t, sched_prev := Some t\<rparr>) s)
        \<lparr>queue_heads := (queue_heads s)(c := Some t)\<rparr>)\<lparr>queue_sizes := (queue_sizes s)(c := Suc (queue_sizes s c))\<rparr>"
    have "sched_queue_to t c s = Some ?s'"
      using unlinked qs Nil by (simp add: sched_queue_to_def upd_thr_def)
    moreover have "sched_ok (Q(c := Q c @ [t])) ?s'"
      by (rule sched_ok_change [OF ok, where t = t])
        (use t qs sched_okD(9) [OF ok, of c] Nil in \<open>auto simp: Nil upd_thr_def\<close>)
    ultimately show ?thesis by (auto simp: same_procs_def upd_thr_def)
  next
    case (Cons h qs)
    define tail where "tail = last (h # qs)"
    have r: "ring (nx s) (pv s) (h # qs)" using sched_okD(1) [OF ok, of c] Cons by simp
    hence tail: "pv s h = Some tail" unfolding tail_def by (intro dseg_prev [of "nx s"]) simp
    have tail_in: "tail \<in> set (Q c)" unfolding tail_def Cons by (rule last_in_set) simp
    hence ne: "t \<noteq> h" "t \<noteq> tail" "h \<noteq> t" "tail \<noteq> t" using t(1) [of c] Cons by auto
    let ?s1 = "upd_thr t (\<lambda>x. x\<lparr>th_state := THREAD_READY, th_cpu := int c\<rparr>) s"
    let ?s2 = "upd_thr tail (\<lambda>x. x\<lparr>sched_next := Some t\<rparr>) ?s1"
    let ?s3 = "upd_thr t (\<lambda>x. x\<lparr>sched_prev := Some tail\<rparr>) ?s2"
    let ?s4 = "upd_thr h (\<lambda>x. x\<lparr>sched_prev := Some t\<rparr>) ?s3"
    let ?s5 = "upd_thr t (\<lambda>x. x\<lparr>sched_next := Some h\<rparr>) ?s4"
    define s' where "s' = ?s5\<lparr>queue_sizes := (queue_sizes s)(c := Suc (queue_sizes s c))\<rparr>"
    have run: "sched_queue_to t c s = Some s'"
      using unlinked sched_okD(2) [OF ok, of c] Cons tail ne
      by (simp add: sched_queue_to_def upd_thr_def s'_def)
    have nx: "nx s' = (nx s)(tail := Some t, t := Some h)"
      using ne by (auto simp: upd_thr_def fun_eq_iff s'_def)
    have pv: "pv s' = (pv s)(t := Some tail, h := Some t)"
      using ne by (auto simp: upd_thr_def fun_eq_iff s'_def)
    have "ring (nx s') (pv s') (h # qs @ [t])"
      unfolding nx pv by (rule ring_insert [OF r _ tail_def]) (use t(1) [of c] Cons in auto)
    hence "sched_ok (Q(c := Q c @ [t])) s'"
      by (intro sched_ok_change [OF ok, where t = t])
        (use ne t Cons tail_in sched_okD(2,3) [OF ok, of c] sched_okD(9) [OF ok, of c] in \<open>auto simp: upd_thr_def s'_def\<close>)
    with run show ?thesis by (auto simp: same_procs_def upd_thr_def s'_def)
  qed
qed

lemma min_queue_mem: "fst (min_queue sizes is (i, z)) \<in> insert i (set is)"
proof (induction "is" arbitrary: i z)
  case (Cons a "is")
  show ?case using Cons.IH [of a "sizes a"] Cons.IH [of i z] by auto
qed simp

definition enq :: "nat \<Rightarrow> tid \<Rightarrow> (nat \<Rightarrow> tid list) \<Rightarrow> nat \<Rightarrow> tid list" where
  "enq c t Q = (if \<exists>d. t \<in> set (Q d) then Q else Q(c := Q c @ [t]))"

lemma queue_to_enq:
  assumes "sched_ok Q s" "\<And>d. t \<noteq> threads_idle s d"
  shows "\<exists>s'. sched_queue_to t c s = Some s' \<and> sched_ok (enq c t Q) s' \<and> same_procs s s'
      \<and> cpu_thread s' = cpu_thread s \<and> clk s' = clk s"
proof (cases "\<exists>d. t \<in> set (Q d)")
  case True
  then obtain d where "t \<in> set (Q d)" by blast
  from queue_to_linked [OF assms(1) this, of c] True assms(1) show ?thesis by (auto simp: enq_def)
next
  case False
  hence "\<And>d. t \<notin> set (Q d)" by blast
  from queue_to_ok [OF assms(1) this assms(2), of c] False show ?thesis by (simp add: enq_def)
qed

lemma sched_ok_clk [simp]: "sched_ok Q (s\<lparr>clk := k\<rparr>) = sched_ok Q s"
  by (simp add: sched_ok_def)

lemma sched_queue_ok:
  assumes ok: "sched_ok Q s" and t: "\<And>d. t \<noteq> threads_idle s d" and calm: "calm s t"
    and k: "0 < sched_ncpus s" "clk s < 2 ^ 31 - 1"
  shows "\<exists>c s'. c < sched_ncpus s \<and> sched_queue t s = Some s' \<and> sched_ok (enq c t Q) s' \<and> same_procs s s'
      \<and> cpu_thread s' = cpu_thread s \<and> clk s' \<le> Suc (clk s)"
proof -
  obtain i z where "min_queue (queue_sizes s) [0..<sched_ncpus s] (0, 2 ^ 64 - 1) = (i, z)" by fastforce
  note iz = this [simplified]
  have i: "i < sched_ncpus s"
    using min_queue_mem [of "queue_sizes s" "[0..<sched_ncpus s]" 0 "2 ^ 64 - 1"] k(1) by (auto simp: iz)
  have live: "case th_proc (thr s t) of Some p \<Rightarrow> pr_state (pcb s p) \<noteq> PROC_SUSPENDED | None \<Rightarrow> True"
    using calm by (auto simp: calm_def split: option.splits)
  show ?thesis
  proof (cases "z = 0")
    case True
    let ?s = "s\<lparr>clk := Suc (clk s)\<rparr>"
    have "sched_ok Q ?s" "\<And>d. t \<noteq> threads_idle ?s d" using ok t by auto
    from queue_to_enq [OF this, of "clk s mod sched_ncpus s"]
    obtain s' where s': "sched_queue_to t (clk s mod sched_ncpus s) ?s = Some s'"
      "sched_ok (enq (clk s mod sched_ncpus s) t Q) s'" "same_procs ?s s'" "cpu_thread s' = cpu_thread s"
      "clk s' = Suc (clk s)" by auto
    have "sched_queue t s = Some s'" using s'(1) k(2) live by (simp add: sched_queue_def iz True)
    moreover have "same_procs s s'" using s'(3) by (simp add: same_procs_def)
    moreover have "clk s mod sched_ncpus s < sched_ncpus s" using k(1) by simp
    ultimately show ?thesis using s' by (metis order_refl)
  next
    case False
    from queue_to_enq [OF ok t, of i]
    obtain s' where s': "sched_queue_to t i s = Some s'" "sched_ok (enq i t Q) s'" "same_procs s s'"
      "cpu_thread s' = cpu_thread s" "clk s' = clk s" by auto
    have "sched_queue t s = Some s'" using s'(1) live False by (simp add: sched_queue_def iz)
    thus ?thesis using s' i by (metis lessI less_imp_le)
  qed
qed

lemma yield_ok:
  assumes ok: "sched_ok Q s" and cur: "cpu_thread s c = Some f" and calm: "calm s f"
  shows "\<exists>s'. yield sigenter c s = Some s' \<and> sched_ok Q s' \<and> same_procs s s' \<and> clk s' = clk s
      \<and> cpu_thread s' = (cpu_thread s)(c \<mapsto>
           (if f \<in> set (Q c) then succ_in (Q c) f else case Q c of [] \<Rightarrow> threads_idle s c | h # _ \<Rightarrow> h))"
proof -
  define to where "to = (if f \<in> set (Q c) then succ_in (Q c) f else case Q c of [] \<Rightarrow> threads_idle s c | h # _ \<Rightarrow> h)"
  have f: "f \<in> set (Q c) \<or> f = threads_idle s c" by (rule sched_okD(9) [OF ok cur])
  have idle: "nx s (threads_idle s c) = None" using sched_okD(5) [OF ok sched_okD(7) [OF ok]] by simp
  have to: "yield_to c f s = to"
  proof (cases "f \<in> set (Q c)")
    case True
    from ring_next [OF sched_okD(1) [OF ok] True] True show ?thesis by (simp add: yield_to_def to_def)
  next
    case False
    hence "nx s f = None" using f idle by simp
    thus ?thesis using False sched_okD(2) [OF ok, of c] by (cases "Q c") (simp_all add: yield_to_def to_def)
  qed
  have mem: "to \<in> set (Q c) \<or> to = threads_idle s c"
    using succ_in_mem [of f "Q c"] by (auto simp: to_def split: list.splits)
  have alive: "th_state (thr s to) \<noteq> THREAD_STOPPED"
    using mem sched_okD(6) [OF ok, of to c] sched_okD(8) [OF ok, of c] by auto
  define s1 where "s1 = upd_thr f (\<lambda>x. x\<lparr>th_state := THREAD_READY\<rparr>) s"
  define s' where "s' = (upd_thr to (\<lambda>x. x\<lparr>th_state := THREAD_RUNNING\<rparr>) s1)\<lparr>cpu_thread := (cpu_thread s)(c := Some to)\<rparr>"
  have run: "yield sigenter c s = Some s'"
    using alive by (simp add: yield_def cur to calm_check [OF calm] s'_def s1_def upd_thr_def)
  have links: "nx s' = nx s" "pv s' = pv s" by (auto simp: s'_def s1_def upd_thr_def)
  have frame: "th_cpu (thr s' x) = th_cpu (thr s x)"
    "th_state (thr s' x) \<in> {th_state (thr s x), THREAD_READY, THREAD_RUNNING}" for x
    by (auto simp: s'_def s1_def upd_thr_def)
  have "sched_ok Q s'"
    unfolding sched_ok_def links
  proof (intro conjI allI impI ballI)
    fix d x assume "cpu_thread s' d = Some x"
    thus "x \<in> set (Q d) \<or> x = threads_idle s' d"
      using mem sched_okD(9) [OF ok, of d x] by (auto simp: s'_def s1_def upd_thr_def split: if_splits)
  next
    fix d show "th_state (thr s' (threads_idle s' d)) \<noteq> THREAD_STOPPED"
      using frame(2) [of "threads_idle s d"] sched_okD(8) [OF ok, of d] by (auto simp: s'_def s1_def upd_thr_def)
  next
    fix d x assume "x \<in> set (Q d)"
    thus "th_cpu (thr s' x) = int d" "th_state (thr s' x) \<in> {THREAD_READY, THREAD_RUNNING}"
      using frame [of x] sched_okD(6) [OF ok, of x d] by auto
  next
    fix d e :: nat assume "d \<noteq> e" thus "set (Q d) \<inter> set (Q e) = {}" using sched_okD(4) [OF ok] by blast
  qed (use sched_okD(1,2,3,5,7) [OF ok] in \<open>auto simp: s'_def s1_def upd_thr_def\<close>)
  with run show ?thesis unfolding to_def [symmetric] by (auto simp: same_procs_def s'_def s1_def upd_thr_def)
qed

lemma unqueue_ok:
  assumes ok: "sched_ok Q s" and t: "t \<in> set (Q c)" and calm: "calm s t"
    and new: "new = THREAD_WAITING \<or> new = THREAD_STOPPED"
  shows "\<exists>s'. sched_unqueue sigenter c t new s = Some s' \<and> sched_ok (Q(c := remove1 t (Q c))) s' \<and> same_procs s s'
      \<and> clk s' = clk s \<and> th_state (thr s' t) = new \<and> (\<forall>d. d \<noteq> c \<longrightarrow> cpu_thread s' d = cpu_thread s d)
      \<and> (cpu_thread s c = Some t \<longrightarrow>
           cpu_thread s' c = Some (if Q c = [t] then threads_idle s c else succ_in (Q c) t))"
proof -
  obtain as bs where q: "Q c = as @ t # bs" and t_as: "t \<notin> set as"
    using split_list_first [OF t] by blast
  have r: "ring (nx s) (pv s) (as @ t # bs)" using sched_okD(1) [OF ok, of c] q by simp
  have t_bs: "t \<notin> set bs" "distinct (as @ bs)" using ring_distinct [OF r] by auto
  have rem: "remove1 t (Q c) = as @ bs" using t_as by (simp add: q remove1_append)
  have cpu: "th_cpu (thr s t) = int c" using sched_okD(6) [OF ok t] by simp
  have size: "queue_sizes s c = Suc (length (as @ bs))" using sched_okD(3) [OF ok, of c] q by simp
  have not_idle: "\<And>d. t \<noteq> threads_idle s d" using sched_okD(7) [OF ok] t by metis
  have other: "\<And>d. d \<noteq> c \<Longrightarrow> t \<notin> set (Q d)" using sched_okD(4) [OF ok _ t] by metis
  define s1 where "s1 = upd_thr t (\<lambda>x. x\<lparr>th_cpu := - 1, th_state := new\<rparr>)
    (s\<lparr>queue_sizes := (queue_sizes s)(c := length (as @ bs))\<rparr>)"
  have procs: "same_procs s s1" by (simp add: same_procs_def s1_def upd_thr_def)
  have sel: "nx s1 = nx s" "pv s1 = pv s" "queue_heads s1 = queue_heads s" "cpu_thread s1 = cpu_thread s"
    "threads_idle s1 = threads_idle s"
    by (auto simp: s1_def upd_thr_def)
  have body: "sched_unqueue sigenter c t new s = sched_unlink c t (pv s t) (nx s t) s1"
    using calm_check [of s1 t sigenter 0] same_procs_calm [OF procs, of t] calm cpu new size
    by (simp add: sched_unqueue_def sched_leave_def s1_def upd_thr_def Let_def)
  show ?thesis
  proof (cases "as @ bs = []")
    case True
    hence single: "Q c = [t]" "as = []" "bs = []" using q by auto
    define s' where "s' = (upd_thr t (\<lambda>x. x\<lparr>sched_next := None, sched_prev := None\<rparr>) s1)
          \<lparr>queue_heads := (queue_heads s)(c := None), cpu_thread := (cpu_thread s)(c := Some (threads_idle s c))\<rparr>"
    have "nx s t = Some t" using r single by simp
    hence run: "sched_unqueue sigenter c t new s = Some s'" by (simp add: body sched_unlink_def Let_def sel s'_def) (simp add: upd_thr_def sel)
    have "sched_ok (Q(c := [])) s'"
      by (rule sched_ok_change [OF ok, where t = t])
        (use not_idle other single in \<open>auto simp: s'_def s1_def upd_thr_def\<close>)
    with run single show ?thesis by (auto simp: same_procs_def s'_def s1_def upd_thr_def)
  next
    case False
    from ring_remove [OF r False] obtain p n where pn: "pv s t = Some p" "nx s t = Some n" "p \<in> set (as @ bs)"
      "n \<in> set (as @ bs)" "n = hd (bs @ as)"
      and r': "ring ((nx s)(p := Some n, t := None)) ((pv s)(n := Some p, t := None)) (as @ bs)" by blast
    have ne: "n \<noteq> t" "p \<noteq> t" using pn t_as t_bs by auto
    define h where "h = (if queue_heads s c = Some t then Some n else queue_heads s c)"
    define s' where "s' = (upd_thr t (\<lambda>x. x\<lparr>sched_prev := None, sched_next := None\<rparr>)
        (upd_thr p (\<lambda>x. x\<lparr>sched_next := Some n\<rparr>) (upd_thr n (\<lambda>x. x\<lparr>sched_prev := Some p\<rparr>) s1)))
        \<lparr>queue_heads := (queue_heads s)(c := h),
         cpu_thread := (cpu_thread s)(c := if cpu_thread s c = Some t then Some n else cpu_thread s c)\<rparr>"
    have run: "sched_unqueue sigenter c t new s = Some s'"
      using pn ne by (cases "queue_heads s c = Some t"; cases "cpu_thread s c = Some t")
        (simp_all add: body sched_unlink_def Let_def s'_def h_def s1_def upd_thr_def)
    have nx': "nx s' = (nx s)(p := Some n, t := None)" using ne by (auto simp: s'_def s1_def upd_thr_def)
    have pv': "pv s' = (pv s)(n := Some p, t := None)" using ne by (auto simp: s'_def s1_def upd_thr_def)
    have head: "h = head_of (as @ bs)"
    proof (cases as)
      case Nil
      thus ?thesis using sched_okD(2) [OF ok, of c] pn(5) False by (cases bs) (auto simp: q h_def)
    next
      case (Cons a as')
      thus ?thesis using sched_okD(2) [OF ok, of c] t_as by (simp add: q h_def)
    qed
    have "sched_ok (Q(c := as @ bs)) s'"
    proof (rule sched_ok_change [OF ok, where t = t])
      show "ring (nx s') (pv s') (as @ bs)" unfolding nx' pv' by (rule r')
      show "queue_heads s' = (queue_heads s)(c := head_of (as @ bs))" by (simp add: s'_def head)
      show "set (as @ bs) \<subseteq> insert t (set (Q c))" "set (Q c) \<subseteq> insert t (set (as @ bs))" by (auto simp: q)
    next
      fix x assume "cpu_thread s' c = Some x"
      thus "x \<in> set (as @ bs) \<or> x = threads_idle s c"
        using pn(4) sched_okD(9) [OF ok, of c x] by (auto simp: s'_def q split: if_splits)
    next
      fix x assume x: "x \<notin> insert t (set (Q c))"
      hence "x \<noteq> t" "x \<noteq> n" "x \<noteq> p" using pn(3,4) q by auto
      thus "thr s' x = thr s x" by (simp add: s'_def s1_def upd_thr_def)
    next
      fix x assume "x \<noteq> t"
      thus "th_cpu (thr s' x) = th_cpu (thr s x) \<and> th_state (thr s' x) = th_state (thr s x)"
        by (simp add: s'_def s1_def upd_thr_def)
    qed (simp_all add: s'_def s1_def upd_thr_def q t_as t_bs not_idle other)
    moreover have "n = succ_in (Q c) t"
      using pn(5) False by (simp add: q succ_in_split [OF t_as] hd_append)
    moreover have "Q c \<noteq> [t]" using q False by (cases as) auto
    moreover have "same_procs s s'" "clk s' = clk s" "th_state (thr s' t) = new"
      "\<And>d. d \<noteq> c \<Longrightarrow> cpu_thread s' d = cpu_thread s d" "cpu_thread s c = Some t \<Longrightarrow> cpu_thread s' c = Some n"
      by (simp_all add: same_procs_def s'_def s1_def upd_thr_def)
    ultimately show ?thesis using run by (simp add: rem)
  qed
qed

end
