(* ===== verification/Proc_Tree.thy ===== *)
theory Proc_Tree
  imports Proc Sched_Queue
begin

text \<open>
  The process tree: parent pointers and lists of children agree, process ids are unique. Forking adds a leaf, reaping removes
  a process and hands its children to init.
\<close>

definition proc_tree :: "ksys \<Rightarrow> bool" where
  "proc_tree s \<longleftrightarrow> distinct (proc_all s) \<and> inj_on (\<lambda>p. pr_pid (pcb s p)) (set (proc_all s))
     \<and> (\<forall>p \<in> set (proc_all s). \<forall>q. pr_parent (pcb s p) = Some q \<longrightarrow> q \<in> set (proc_all s) \<and> p \<in> set (pr_children (pcb s q)))
     \<and> (\<forall>q \<in> set (proc_all s). distinct (pr_children (pcb s q))
          \<and> (\<forall>p \<in> set (pr_children (pcb s q)). p \<in> set (proc_all s) \<and> pr_parent (pcb s p) = Some q))
     \<and> (\<forall>p \<in> set (proc_all s). - last_kernel_pid s \<le> pr_pid (pcb s p) \<and> pr_pid (pcb s p) \<le> last_user_pid s)"

lemma proc_treeD:
  assumes "proc_tree s"
  shows "distinct (proc_all s)" "inj_on (\<lambda>p. pr_pid (pcb s p)) (set (proc_all s))"
    and "p \<in> set (proc_all s) \<Longrightarrow> pr_parent (pcb s p) = Some q \<Longrightarrow> q \<in> set (proc_all s) \<and> p \<in> set (pr_children (pcb s q))"
    and "q \<in> set (proc_all s) \<Longrightarrow> distinct (pr_children (pcb s q))"
    and "q \<in> set (proc_all s) \<Longrightarrow> p \<in> set (pr_children (pcb s q)) \<Longrightarrow> p \<in> set (proc_all s) \<and> pr_parent (pcb s p) = Some q"
    and "p \<in> set (proc_all s) \<Longrightarrow> - last_kernel_pid s \<le> pr_pid (pcb s p) \<and> pr_pid (pcb s p) \<le> last_user_pid s"
  using assms unfolding proc_tree_def by blast+

text \<open>The tree only depends on these fields.\<close>

definition same_tree :: "ksys \<Rightarrow> ksys \<Rightarrow> bool" where
  "same_tree s s' \<longleftrightarrow> proc_all s' = proc_all s \<and> last_user_pid s' = last_user_pid s \<and> last_kernel_pid s' = last_kernel_pid s
     \<and> (\<forall>p. pr_pid (pcb s' p) = pr_pid (pcb s p) \<and> pr_parent (pcb s' p) = pr_parent (pcb s p)
          \<and> pr_children (pcb s' p) = pr_children (pcb s p))"

lemma same_tree_kept: "same_tree s s' \<Longrightarrow> proc_tree s' = proc_tree s"
  unfolding same_tree_def proc_tree_def by (elim conjE) (simp only: )

lemma find_inj:
  assumes "inj_on f (set xs)" "x \<in> set xs"
  shows "find (\<lambda>y. f y = f x) xs = Some x"
  using assms
proof (induction xs)
  case (Cons a xs)
  hence inj: "inj_on f (set xs)" and a: "f a = f x \<Longrightarrow> a = x" by (auto dest: inj_onD)
  show ?case using a Cons.IH [OF inj] Cons.prems(2) by (cases "f a = f x") auto
qed simp

lemma process_find_self:
  "proc_tree s \<Longrightarrow> p \<in> set (proc_all s) \<Longrightarrow> process_find (pr_pid (pcb s p)) s = Some p"
  unfolding process_find_def by (rule find_inj [OF proc_treeD(2)])

lemma process_find_Some: "process_find pid s = Some p \<Longrightarrow> p \<in> set (proc_all s) \<and> pr_pid (pcb s p) = pid"
  by (auto simp: process_find_def find_Some_iff)

section \<open>Adding a child\<close>

lemma tree_add_child:
  assumes ok: "proc_tree s" and p: "src \<in> set (proc_all s)" "dst \<notin> set (proc_all s)"
    and s': "proc_all s' = dst # proc_all s" "last_user_pid s' = last_user_pid s + 1" "last_kernel_pid s' = last_kernel_pid s"
      "pr_pid (pcb s' dst) = last_user_pid s + 1" "pr_parent (pcb s' dst) = Some src" "pr_children (pcb s' dst) = []"
      "pr_children (pcb s' src) = dst # pr_children (pcb s src)" "pr_parent (pcb s' src) = pr_parent (pcb s src)"
      "pr_pid (pcb s' src) = pr_pid (pcb s src)"
      "\<And>q. q \<noteq> src \<Longrightarrow> q \<noteq> dst \<Longrightarrow> pcb s' q = pcb s q"
    and pids: "0 \<le> last_user_pid s" "0 \<le> last_kernel_pid s"
  shows "proc_tree s'"
proof -
  have ne: "src \<noteq> dst" using p by metis
  have pid: "pr_pid (pcb s' q) = pr_pid (pcb s q)" "pr_parent (pcb s' q) = pr_parent (pcb s q)" if "q \<noteq> dst" for q
    using s' that by (cases "q = src"; simp)+
  have ch: "pr_children (pcb s' q) = (if q = dst then [] else if q = src then dst # pr_children (pcb s src) else pr_children (pcb s q))" for q
    using s' ne by simp
  have old: "q \<noteq> dst" if "q \<in> set (proc_all s)" for q using that p by metis
  have nodst: "dst \<notin> set (pr_children (pcb s q))" if "q \<in> set (proc_all s)" for q
    using proc_treeD(5) [OF ok that] p(2) by metis
  have "inj_on (\<lambda>p. pr_pid (pcb s' p)) (set (proc_all s'))"
  proof -
    have "pr_pid (pcb s' q) \<noteq> pr_pid (pcb s' dst)" if "q \<in> set (proc_all s)" for q
      using proc_treeD(6) [OF ok that] pid(1) [OF old [OF that]] s'(4) by simp
    hence "pr_pid (pcb s' dst) \<notin> (\<lambda>p. pr_pid (pcb s' p)) ` (set (proc_all s) - {dst})" by force
    moreover have "inj_on (\<lambda>p. pr_pid (pcb s' p)) (set (proc_all s))"
      using proc_treeD(2) [OF ok] pid(1) [OF old] by (simp add: inj_on_def)
    ultimately show ?thesis using s'(1) by (simp add: inj_on_insert)
  qed
  moreover have "q \<in> set (proc_all s') \<and> x \<in> set (pr_children (pcb s' q))"
    if "x \<in> set (proc_all s')" "pr_parent (pcb s' x) = Some q" for x q
  proof (cases "x = dst")
    case False
    hence "x \<in> set (proc_all s)" "pr_parent (pcb s x) = Some q" using that s'(1) pid by auto
    from proc_treeD(3) [OF ok this] show ?thesis using s'(1) ch [of q] old by auto
  next
    case True
    hence "q = src" using that(2) s'(5) by simp
    thus ?thesis using True s'(1,7) p(1) by simp
  qed
  moreover have "distinct (pr_children (pcb s' q)) \<and> (\<forall>x \<in> set (pr_children (pcb s' q)). x \<in> set (proc_all s') \<and> pr_parent (pcb s' x) = Some q)"
    if "q \<in> set (proc_all s')" for q
  proof (cases "q = dst")
    case False
    hence q: "q \<in> set (proc_all s)" using that s'(1) by simp
    have "x \<noteq> dst" if "x \<in> set (pr_children (pcb s q))" for x using that nodst [OF q] by metis
    thus ?thesis using ch [of q] False s'(1,5) pid nodst [OF q] proc_treeD(4,5) [OF ok q] by auto
  qed (use ch [of dst] in simp)
  moreover have "- last_kernel_pid s' \<le> pr_pid (pcb s' x) \<and> pr_pid (pcb s' x) \<le> last_user_pid s'" if "x \<in> set (proc_all s')" for x
    using that s'(1-4) pid(1) [of x] proc_treeD(6) [OF ok, of x] pids by (cases "x = dst") auto
  moreover have "distinct (proc_all s')" using s'(1) p(2) proc_treeD(1) [OF ok] by simp
  ultimately show ?thesis unfolding proc_tree_def by blast
qed

section \<open>Removing a process\<close>

definition handed :: "nat \<Rightarrow> nat list \<Rightarrow> ksys \<Rightarrow> nat \<Rightarrow> kproc" where
  "handed i chs s q = (pcb s q)\<lparr>
     pr_parent := (if q \<in> set chs then Some i else pr_parent (pcb s q)),
     pr_children := (if q = i then rev chs @ pr_children (pcb s q) else pr_children (pcb s q))\<rparr>"

lemma handed_simps [simp]:
  "pr_parent (handed i chs s q) = (if q \<in> set chs then Some i else pr_parent (pcb s q))"
  "pr_children (handed i chs s q) = (if q = i then rev chs @ pr_children (pcb s q) else pr_children (pcb s q))"
  "pr_pid (handed i chs s q) = pr_pid (pcb s q)" "pr_state (handed i chs s q) = pr_state (pcb s q)"
  "thread_count (handed i chs s q) = thread_count (pcb s q)" "pr_space (handed i chs s q) = pr_space (pcb s q)"
  "pr_threads (handed i chs s q) = pr_threads (pcb s q)" "pr_flags (handed i chs s q) = pr_flags (pcb s q)"
  by (simp_all add: handed_def)

lemma process_find_cong:
  "proc_all s' = proc_all s \<Longrightarrow> (\<And>q. pr_pid (pcb s' q) = pr_pid (pcb s q)) \<Longrightarrow> process_find pid s' = process_find pid s"
  by (simp add: process_find_def)

lemma reparent_eq:
  "process_find 1 s = Some i \<Longrightarrow> reparent chs s = Some (s\<lparr>pcb := handed i chs s\<rparr>)"
proof (induction chs arbitrary: s)
  case Nil
  have "handed i [] s = pcb s" by (rule ext) (simp add: handed_def)
  thus ?case by simp
next
  case (Cons ch chs)
  let ?s = "upd_proc i (\<lambda>x. x\<lparr>pr_children := ch # pr_children x\<rparr>) (upd_proc ch (\<lambda>x. x\<lparr>pr_parent := Some i\<rparr>) s)"
  have "process_find 1 ?s = Some i"
    using Cons.prems process_find_cong [of ?s s 1] by (simp add: upd_proc_def)
  from Cons.IH [OF this] have "reparent (ch # chs) s = Some (?s\<lparr>pcb := handed i chs ?s\<rparr>)" using Cons.prems by simp
  moreover have "handed i chs ?s = handed i (ch # chs) s"
    by (rule ext) (auto simp: handed_def upd_proc_def)
  ultimately show ?case by (simp add: upd_proc_def)
qed

text \<open>The tree after \<open>ch\<close>, a child of \<open>par\<close>, is gone.\<close>

definition reaped :: "nat \<Rightarrow> nat \<Rightarrow> nat \<Rightarrow> ksys \<Rightarrow> ksys \<Rightarrow> bool" where
  "reaped i par ch s s' \<longleftrightarrow> proc_all s' = remove1 ch (proc_all s) \<and> last_user_pid s' = last_user_pid s
     \<and> last_kernel_pid s' = last_kernel_pid s
     \<and> (\<forall>q \<in> set (proc_all s'). pr_pid (pcb s' q) = pr_pid (pcb s q)
         \<and> pr_parent (pcb s' q) = (if q \<in> set (pr_children (pcb s ch)) then Some i else pr_parent (pcb s q))
         \<and> pr_children (pcb s' q) = (if q = i then rev (pr_children (pcb s ch)) else [])
              @ (if q = par then remove1 ch (pr_children (pcb s q)) else pr_children (pcb s q)))"

lemma tree_reap:
  assumes ok: "proc_tree s" and ch: "ch \<in> set (proc_all s)" "pr_parent (pcb s ch) = Some par"
    and i: "i \<in> set (proc_all s)" "i \<noteq> ch" and ne: "par \<noteq> ch" and r: "reaped i par ch s s'"
  shows "proc_tree s'"
proof -
  let ?A = "set (proc_all s)" and ?K = "set (pr_children (pcb s ch))"
  note D = proc_treeD [OF ok]
  have all: "proc_all s' = remove1 ch (proc_all s)" "set (proc_all s') = ?A - {ch}"
    using r D(1) by (auto simp: reaped_def)
  have pid: "\<And>q. q \<in> ?A - {ch} \<Longrightarrow> pr_pid (pcb s' q) = pr_pid (pcb s q)"
    and par: "\<And>q. q \<in> ?A - {ch} \<Longrightarrow> pr_parent (pcb s' q) = (if q \<in> ?K then Some i else pr_parent (pcb s q))"
    and kids: "\<And>q. q \<in> ?A - {ch} \<Longrightarrow> pr_children (pcb s' q) = (if q = i then rev (pr_children (pcb s ch)) else [])
         @ (if q = par then remove1 ch (pr_children (pcb s q)) else pr_children (pcb s q))"
    using r by (simp_all add: reaped_def all(2))
  have K: "x \<in> ?A" "pr_parent (pcb s x) = Some ch" if "x \<in> ?K" for x using D(5) [OF ch(1) that] by auto
  have set_kids: "set (pr_children (pcb s' q)) = (if q = i then ?K else {}) \<union> (set (pr_children (pcb s q)) - {ch})"
    if "q \<in> ?A - {ch}" for q
  proof -
    have "ch \<notin> set (pr_children (pcb s q))" if "q \<noteq> par" using that D(5) [of q ch] \<open>q \<in> ?A - {ch}\<close> ch(2) by auto
    moreover have "distinct (pr_children (pcb s q))" using D(4) that by simp
    ultimately show ?thesis using kids [OF that] by auto
  qed
  have chK: "x \<noteq> ch" if "x \<in> ?K" for x using K(2) [OF that] ch(2) ne by auto
  show ?thesis
    unfolding proc_tree_def all(2)
  proof (intro conjI ballI allI impI)
    show "distinct (proc_all s')" unfolding all(1) by (rule distinct_remove1 [OF D(1)])
    have "inj_on (\<lambda>p. pr_pid (pcb s p)) (?A - {ch})" by (rule inj_on_subset [OF D(2)]) blast
    thus "inj_on (\<lambda>p. pr_pid (pcb s' p)) (?A - {ch})" using pid by (simp add: inj_on_def)
  next
    fix q t assume q: "q \<in> ?A - {ch}" and t: "pr_parent (pcb s' q) = Some t"
    have "t \<in> ?A - {ch} \<and> q \<in> set (pr_children (pcb s' t))"
    proof (cases "q \<in> ?K")
      case True
      hence "t = i" using t par [OF q] by simp
      thus ?thesis using True i set_kids [of i] by simp
    next
      case False
      hence old: "pr_parent (pcb s q) = Some t" using t par [OF q] by simp
      have "q \<in> ?A" using q by blast
      note up = D(3) [OF this old]
      have "t \<noteq> ch" using up False by metis
      thus ?thesis using up q set_kids [of t] by blast
    qed
    thus "t \<in> ?A - {ch}" "q \<in> set (pr_children (pcb s' t))" by blast+
  next
    fix q assume q: "q \<in> ?A - {ch}"
    hence qA: "q \<in> ?A" "q \<noteq> ch" by blast+
    have notK: "x \<notin> ?K" if "x \<in> set (pr_children (pcb s q))" for x
      using D(5) [OF qA(1) that] K(2) [of x] qA(2) by auto
    show "distinct (pr_children (pcb s' q))"
      using kids [OF q] D(4) [OF qA(1)] D(4) [OF ch(1)] notK by (auto dest: notin_set_remove1 in_set_remove1 [THEN iffD1, rotated])
    fix x assume x: "x \<in> set (pr_children (pcb s' q))"
    hence c: "q = i \<and> x \<in> ?K \<or> x \<in> set (pr_children (pcb s q)) \<and> x \<noteq> ch" using set_kids [OF q] by (auto split: if_splits)
    hence xA: "x \<in> ?A - {ch}" using K(1) chK D(5) [OF qA(1)] by blast
    thus "x \<in> ?A - {ch}" .
    show "pr_parent (pcb s' x) = Some q" using c par [OF xA] notK D(5) [OF qA(1)] by auto
  next
    fix x assume x: "x \<in> ?A - {ch}"
    hence "x \<in> ?A" by blast
    note b = D(6) [OF this]
    show "- last_kernel_pid s' \<le> pr_pid (pcb s' x)" "pr_pid (pcb s' x) \<le> last_user_pid s'"
      using b pid [OF x] r by (simp_all add: reaped_def)
  qed
qed

end
