(* ===== verification/Sched_Fair.thy ===== *)
theory Sched_Fair
  imports Sched_Queue
begin

text \<open>
  Fairness of the scheduler: the threads of a CPU take turns. An execution is a sequence of timer ticks, of
  threads that give up the CPU and of wake-ups, on all CPUs; a thread in a run queue is reached after one tick more
  than there are threads before it and threads woken in the meantime. An event is a whole call: nothing happens between the two
  locked sections of \<open>sched_unqueue\<close>. The last section shows what a wake-up there does.
\<close>

datatype sched_event = Tick nat | Block nat thread_state | Wake tid

text \<open>The idle thread never blocks.\<close>

fun sched_do :: "(tid \<Rightarrow> int \<Rightarrow> ksys \<Rightarrow> ksys kern) \<Rightarrow> sched_event \<Rightarrow> ksys \<Rightarrow> ksys kern" where
  "sched_do sg (Tick c) s = yield sg c s"
| "sched_do sg (Block c st) s =
     (case cpu_thread s c of
        None \<Rightarrow> Some s
      | Some t \<Rightarrow> if t = threads_idle s c then Some s else sched_unqueue sg c t st s)"
| "sched_do sg (Wake t) s = sched_queue t s"

fun sched_run :: "(tid \<Rightarrow> int \<Rightarrow> ksys \<Rightarrow> ksys kern) \<Rightarrow> sched_event list \<Rightarrow> ksys \<Rightarrow> ksys kern" where
  "sched_run sg [] s = Some s"
| "sched_run sg (e # es) s = do { s \<leftarrow> sched_do sg e s; sched_run sg es s }"

fun event_ok :: "ksys \<Rightarrow> sched_event \<Rightarrow> bool" where
  "event_ok s (Tick c) = (cpu_thread s c \<noteq> None)"
| "event_ok s (Block c st) = (st = THREAD_WAITING \<or> st = THREAD_STOPPED)"
| "event_ok s (Wake t) = (\<forall>c. t \<noteq> threads_idle s c)"

definition ticks :: "nat \<Rightarrow> sched_event list \<Rightarrow> nat" where
  "ticks c es = length (filter (\<lambda>e. e = Tick c) es)"

fun is_wake :: "sched_event \<Rightarrow> bool" where
  "is_wake (Wake t) = True"
| "is_wake _ = False"

definition wakes :: "sched_event list \<Rightarrow> nat" where
  "wakes es = length (filter is_wake es)"

text \<open>The order in which the threads of a queue come to run when nothing else happens.\<close>

definition after :: "tid list \<Rightarrow> tid \<Rightarrow> tid list" where
  "after q f = (if f \<in> set q then tl (dropWhile (\<lambda>x. x \<noteq> f) q) @ takeWhile (\<lambda>x. x \<noteq> f) q @ [f] else q)"

definition before :: "tid \<Rightarrow> tid list \<Rightarrow> nat" where
  "before t xs = length (takeWhile (\<lambda>x. x \<noteq> t) xs)"

lemma after_split: "f \<notin> set as \<Longrightarrow> after (as @ f # bs) f = bs @ as @ [f]"
proof -
  assume f: "f \<notin> set as"
  have "dropWhile (\<lambda>x. x \<noteq> f) (as @ f # bs) = f # bs" using f by (subst dropWhile_append2) auto
  moreover have "takeWhile (\<lambda>x. x \<noteq> f) (as @ f # bs) = as" using f by (subst takeWhile_append2) auto
  ultimately show ?thesis by (simp add: after_def)
qed

lemma after_notin: "f \<notin> set q \<Longrightarrow> after q f = q"
  by (simp add: after_def)

lemma after_head: "distinct (h # q) \<Longrightarrow> after (h # q) h = q @ [h]"
  using after_split [of h "[]" q] by simp

lemma after_succ:
  assumes "distinct q" "f \<in> set q" "after q f = n # us"
  shows "succ_in q f = n" "after q n = us @ [n]"
proof -
  obtain as bs where q: "q = as @ f # bs" and f: "f \<notin> set as"
    using split_list_first [OF assms(2)] by blast
  have aft: "bs @ as @ [f] = n # us" using assms(3) f by (simp add: q after_split)
  show "succ_in q f = n" using aft f by (simp add: q succ_in_split)
  show "after q n = us @ [n]"
  proof (cases bs)
    case Nil
    hence "q = n # us" using aft q by simp
    thus ?thesis using assms(1) after_head [of n us] by simp
  next
    case (Cons b bs')
    hence "n = b" "us = bs' @ as @ [f]" using aft by auto
    thus ?thesis using assms(1) after_split [of n "as @ [f]" bs'] by (simp add: q Cons)
  qed
qed

lemma before_simps [simp]:
  "before t [] = 0" "before t (x # xs) = (if x = t then 0 else Suc (before t xs))"
  by (simp_all add: before_def)

lemma before_append: "before t (xs @ ys) = (if t \<in> set xs then before t xs else length xs + before t ys)"
  by (induction xs) auto

lemma before_enqueue:
  assumes "distinct q" "u \<noteq> t" "t \<in> set q"
  shows "before t (after (q @ [u]) f) \<le> Suc (before t (after q f))"
proof (cases "f \<in> set q")
  case True
  then obtain as bs where q: "q = as @ f # bs" and f: "f \<notin> set as" using split_list_first by metis
  have "after (q @ [u]) f = bs @ u # as @ [f]" using after_split [OF f, of "bs @ [u]"] by (simp add: q)
  moreover have "after q f = bs @ as @ [f]" using after_split [OF f] by (simp add: q)
  ultimately show ?thesis by (simp add: before_append assms(2))
next
  case False
  show ?thesis
  proof (cases "f = u")
    case True
    hence "after (q @ [u]) f = q @ [u]" using after_split [of u q "[]"] False by simp
    thus ?thesis using assms(3) False by (simp add: after_notin before_append)
  next
    case nu: False
    thus ?thesis using assms(3) False by (simp add: after_notin before_append)
  qed
qed

lemma before_remove:
  assumes "distinct q" "f \<in> set q" "t \<in> set q" "t \<noteq> f"
  shows "before t (after (remove1 f q) (succ_in q f)) \<le> before t (after q f) \<or> succ_in q f = t"
proof -
  obtain as bs where q: "q = as @ f # bs" and f: "f \<notin> set as"
    using split_list_first [OF assms(2)] by blast
  have rem: "remove1 f q = as @ bs" using f by (simp add: q remove1_append)
  have d: "distinct (as @ bs)" "t \<in> set (bs @ as)" using assms by (auto simp: q)
  from d(2) obtain n us where nus: "bs @ as = n # us" by (cases "bs @ as") auto
  have succ: "succ_in q f = n" 
    using f by (simp add: q succ_in_split nus flip: append_assoc)
  have "after (as @ bs) n = us @ [n]"
  proof (cases bs)
    case Nil
    thus ?thesis using nus d(1) after_head [of n us] by simp
  next
    case (Cons b bs')
    hence "n = b" "us = bs' @ as" using nus by auto
    thus ?thesis using d(1) after_split [of n as bs'] by (simp add: Cons)
  qed
  moreover have "after q f = n # us @ [f]" using after_split [OF f] nus by (simp add: q)
  ultimately show ?thesis using d(2) nus by (auto simp: rem succ before_append)
qed

section \<open>One event\<close>

lemma set_after: "set (after q f) = set q"
proof (cases "f \<in> set q")
  case True
  then obtain as bs where "q = as @ f # bs" "f \<notin> set as" using split_list_first by metis
  thus ?thesis by (auto simp: after_split)
qed (simp add: after_notin)

text \<open>What an event does for the thread \<open>t\<close> in the queue of \<open>c\<close> behind the current thread \<open>f\<close>.\<close>

definition nearer :: "nat \<Rightarrow> tid \<Rightarrow> tid list \<Rightarrow> tid \<Rightarrow> sched_event \<Rightarrow> tid list \<Rightarrow> tid \<Rightarrow> bool" where
  "nearer c t q f e q' f' \<longleftrightarrow> t \<in> set q' \<and> (f' = t \<or>
     before t (after q' f') + (if e = Tick c then 1 else 0) \<le> before t (after q f) + (if is_wake e then 1 else 0))"

lemma tick_nearer:
  assumes "sched_ok Q s" "t \<in> set (Q c)" "f \<noteq> t"
  shows "nearer c t (Q c) f (Tick c) (Q c)
    (if f \<in> set (Q c) then succ_in (Q c) f else case Q c of [] \<Rightarrow> threads_idle s c | h # _ \<Rightarrow> h)"
proof -
  have d: "distinct (Q c)" by (rule ring_distinct [OF sched_okD(1) [OF assms(1)]])
  show ?thesis
  proof (cases "f \<in> set (Q c)")
    case True
    have "after (Q c) f \<noteq> []" using assms(2) set_after [of "Q c" f] by auto
    then obtain n us where nus: "after (Q c) f = n # us" by (cases "after (Q c) f") auto
    have "t = n \<or> t \<in> set us" using assms(2) set_after [of "Q c" f] nus by auto
    thus ?thesis using after_succ [OF d True nus] True assms(2) nus by (auto simp: nearer_def before_append)
  next
    case False
    obtain h us where q: "Q c = h # us" using assms(2) by (cases "Q c") auto
    thus ?thesis using False assms(2) d after_head [of h us]
      by (auto simp: nearer_def before_append after_notin)
  qed
qed

lemma event_nearer:
  assumes ok: "sched_ok Q s" "\<And>u. calm s u" "0 < sched_ncpus s" "clk s < 2 ^ 31 - 1" and e: "event_ok s e"
    and t: "t \<in> set (Q c)" and f: "cpu_thread s c = Some f" "f \<noteq> t"
  shows "\<exists>Q' s' f'. sched_do sg e s = Some s' \<and> sched_ok Q' s' \<and> same_procs s s' \<and> clk s' \<le> Suc (clk s)
      \<and> (\<forall>d. cpu_thread s d \<noteq> None \<longrightarrow> cpu_thread s' d \<noteq> None) \<and> cpu_thread s' c = Some f'
      \<and> nearer c t (Q c) f e (Q' c) f'"
proof (cases e)
  case (Tick d)
  then obtain g where g: "cpu_thread s d = Some g" using e by auto
  from yield_ok [OF ok(1) g ok(2), of sg] obtain s' where s': "yield sg d s = Some s'" "sched_ok Q s'"
    "same_procs s s'" "clk s' = clk s" "cpu_thread s' = (cpu_thread s)(d \<mapsto>
      (if g \<in> set (Q d) then succ_in (Q d) g else case Q d of [] \<Rightarrow> threads_idle s d | h # _ \<Rightarrow> h))" by blast
  show ?thesis
  proof (cases "d = c")
    case True
    hence "g = f" using f g by simp
    with True tick_nearer [OF ok(1) t f(2)] s' show ?thesis by (auto simp: Tick)
  next
    case False
    with s' f t show ?thesis by (auto simp: Tick nearer_def)
  qed
next
  case (Block d st)
  show ?thesis
  proof (cases "\<exists>u. cpu_thread s d = Some u \<and> u \<noteq> threads_idle s d")
    case True
    then obtain u where u: "cpu_thread s d = Some u" "u \<noteq> threads_idle s d" by blast
    hence ud: "u \<in> set (Q d)" using sched_okD(9) [OF ok(1), of d u] by blast
    from unqueue_ok [OF ok(1) ud ok(2), of st sg] e Block obtain s' where s': "sched_unqueue sg d u st s = Some s'"
      "sched_ok (Q(d := remove1 u (Q d))) s'" "same_procs s s'" "clk s' = clk s"
      "\<And>k. k \<noteq> d \<Longrightarrow> cpu_thread s' k = cpu_thread s k"
      "cpu_thread s' d = Some (if Q d = [u] then threads_idle s d else succ_in (Q d) u)"
      using u(1) by auto
    have "\<exists>f'. cpu_thread s' c = Some f' \<and> nearer c t (Q c) f e ((Q(d := remove1 u (Q d))) c) f'"
    proof (cases "d = c")
      case True
      hence uf: "u = f" using u(1) f(1) by simp
      have d: "distinct (Q c)" by (rule ring_distinct [OF sched_okD(1) [OF ok(1)]])
      have "Q c \<noteq> [f]" using t f(2) by auto
      thus ?thesis using before_remove [OF d _ t f(2) [symmetric]] ud s'(6) True uf t f(2)
        by (auto simp: nearer_def Block)
    qed (use s'(5) [of c] f(1) t in \<open>simp add: nearer_def Block\<close>)
    then obtain f' where "cpu_thread s' c = Some f'" "nearer c t (Q c) f e ((Q(d := remove1 u (Q d))) c) f'" by blast
    moreover have "\<forall>k. cpu_thread s k \<noteq> None \<longrightarrow> cpu_thread s' k \<noteq> None" using s'(5,6) by (metis option.distinct(1))
    moreover have "sched_do sg e s = Some s'" using u s'(1) by (simp add: Block)
    ultimately show ?thesis using s'(2-4) by (metis le_SucI order_refl)
  next
    case False
    hence "sched_do sg e s = Some s" by (auto simp: Block split: option.split)
    moreover have "nearer c t (Q c) f e (Q c) f" using t by (simp add: nearer_def Block)
    ultimately show ?thesis using ok(1) f(1) by (metis le_SucI order_refl same_procs_refl)
  qed
next
  case (Wake u)
  hence u: "\<And>d. u \<noteq> threads_idle s d" using e by simp
  from sched_queue_ok [OF ok(1) u ok(2-4)] obtain d s' where s': "sched_queue u s = Some s'" "sched_ok (enq d u Q) s'"
    "same_procs s s'" "cpu_thread s' = cpu_thread s" "clk s' \<le> Suc (clk s)" by blast
  have "nearer c t (Q c) f e (enq d u Q c) f"
  proof (cases "(\<exists>k. u \<in> set (Q k)) \<or> d \<noteq> c")
    case False
    have "distinct (Q c)" by (rule ring_distinct [OF sched_okD(1) [OF ok(1)]])
    moreover have "u \<noteq> t" using False t by blast
    ultimately show ?thesis using before_enqueue [of "Q c" u t f] False t by (simp add: nearer_def enq_def Wake)
  qed (use t in \<open>auto simp: nearer_def enq_def Wake\<close>)
  with s' f(1) show ?thesis by (auto simp: Wake)
qed

section \<open>Turns\<close>

lemma event_ok_same:
  assumes "same_procs s s'" "\<And>d. cpu_thread s d \<noteq> None \<Longrightarrow> cpu_thread s' d \<noteq> None" "event_ok s e"
  shows "event_ok s' e"
  using assms by (cases e) (auto simp: same_procs_def)

lemma run_turn:
  assumes "sched_ok Q s" "\<And>u. calm s u" "0 < sched_ncpus s" "clk s + length es < 2 ^ 31 - 1"
    and "\<forall>e \<in> set es. event_ok s e" "t \<in> set (Q c)" "cpu_thread s c = Some f"
    and "before t (after (Q c) f) + wakes es < ticks c es"
  shows "\<exists>k s'. k \<le> length es \<and> sched_run sg (take k es) s = Some s' \<and> cpu_thread s' c = Some t"
  using assms
proof (induction es arbitrary: Q s f)
  case (Cons e es)
  show ?case
  proof (cases "f = t")
    case True
    thus ?thesis using Cons.prems(7) by (intro exI [of _ 0]) simp
  next
    case False
    from Cons.prems(4) have k: "clk s < 2 ^ 31 - 1" by simp
    from Cons.prems(5) have e: "event_ok s e" by simp
    from event_nearer [OF Cons.prems(1-3) k e Cons.prems(6,7) False, of sg]
    obtain Q' s' f' where s': "sched_do sg e s = Some s'" "sched_ok Q' s'" "same_procs s s'" "clk s' \<le> Suc (clk s)"
      "\<And>d. cpu_thread s d \<noteq> None \<Longrightarrow> cpu_thread s' d \<noteq> None" "cpu_thread s' c = Some f'"
      and near: "nearer c t (Q c) f e (Q' c) f'" by blast
    show ?thesis
    proof (cases "f' = t")
      case True
      thus ?thesis using s'(1,6) by (intro exI [of _ 1]) simp
    next
      case ne: False
      have pre: "\<And>u. calm s' u" "0 < sched_ncpus s'" "clk s' + length es < 2 ^ 31 - 1" "\<forall>e \<in> set es. event_ok s' e"
        using same_procs_calm [OF s'(3)] Cons.prems(2-5) s'(3,4) event_ok_same [OF s'(3,5)]
        by (auto simp: same_procs_def)
      have "t \<in> set (Q' c)" "before t (after (Q' c) f') + wakes es < ticks c es"
        using near ne Cons.prems(8) by (auto simp: nearer_def wakes_def ticks_def split: if_splits)
      from Cons.IH [OF s'(2) pre this(1) s'(6) this(2)] obtain k s'' where
        "k \<le> length es" "sched_run sg (take k es) s' = Some s''" "cpu_thread s'' c = Some t" by blast
      thus ?thesis using s'(1) by (intro exI [of _ "Suc k"]) simp
    qed
  qed
qed (simp add: ticks_def)

text \<open>
  C8: Every thread in a run queue gets the CPU. Take any sequence of timer ticks, blocking threads and wake-ups on all
  CPUs, each of them a call that runs without another event in its midst, with no signals pending, no
  suspended process and a wake-up counter far from its overflow. If the queue of a CPU holds a thread, and that CPU sees
  more ticks than there are threads before it plus wake-ups in the sequence, then the kernel runs without a failing
  assertion to a point where that thread is the current one.
\<close>
theorem sched_turn:
  assumes "sched_ok Q s" "\<And>u. calm s u" "0 < sched_ncpus s" "clk s + length es < 2 ^ 31 - 1"
    and "\<forall>e \<in> set es. event_ok s e" "t \<in> set (Q c)" "cpu_thread s c = Some f"
    and "before t (after (Q c) f) + wakes es < ticks c es"
  shows "\<exists>k s'. k \<le> length es \<and> sched_run sg (take k es) s = Some s' \<and> cpu_thread s' c = Some t"
  using assms by (rule run_turn)

section \<open>A small system\<close>

definition demo_thread :: kthread where
  "demo_thread = \<lparr>th_state = THREAD_READY, th_cpu = 0, sched_prev = None, sched_next = None, th_proc = None,
     th_sigq = 0, sleep_notify = thread_wait_io_init, wait_head = [], signal_entry = None, signal_stack_base = None,
     signal_stack_size = 0, rsp0_base = 0, rsp0_pages = 0, rsp3_base = 0, rsp3_size = 0, th_cr3 = 0, th_frame = [],
     th_flags = 0\<rparr>"

definition demo_proc :: kproc where
  "demo_proc = \<lparr>pr_state = PROC_ACTIVE, pr_space = 0, pr_pid = 1, pr_pgid = 1, pr_parent = None, pr_children = [],
     pr_threads = [], thread_count = 1, pr_sigq = 0, pid_notify = thread_wait_io_init, exit_status = 0,
     pr_flags = 0, pr_name = []\<rparr>"

text \<open>Two CPUs; threads 1 and 2 in the queue of the first, which is idle; threads 10 and up are the idle ones.\<close>

definition demo_sched :: ksys where
  "demo_sched = \<lparr>thr = (\<lambda>t. demo_thread)
       (1 := demo_thread\<lparr>sched_prev := Some 2, sched_next := Some 2\<rparr>,
        2 := demo_thread\<lparr>sched_prev := Some 1, sched_next := Some 1\<rparr>),
     pcb = (\<lambda>p. demo_proc), queue_heads = (\<lambda>c. None)(0 := Some 1), queue_sizes = (\<lambda>c. 0)(0 := 2),
     cpu_thread = (\<lambda>c. Some (c + 10)), threads_idle = (\<lambda>c. c + 10), sched_ncpus = 2, clk = 0,
     proc_all = [], last_user_pid = 1, last_kernel_pid = 0\<rparr>"

definition demo_queues :: "nat \<Rightarrow> tid list" where
  "demo_queues = (\<lambda>c. [])(0 := [1, 2])"

lemma demo_sched_ok: "sched_ok demo_queues demo_sched"
  by (auto simp: sched_ok_def demo_queues_def demo_sched_def demo_thread_def)

theorem sched_turn_witness:
  "\<exists>k s'. k \<le> length [Tick 0, Wake 3, Tick 0, Tick 0] \<and> sched_run (\<lambda>t n s. None) (take k [Tick 0, Wake 3, Tick 0, Tick 0]) demo_sched = Some s'
     \<and> cpu_thread s' 0 = Some 2"
proof -
  let ?es = "[Tick 0, Wake 3, Tick 0, Tick 0]"
  have "\<And>u. calm demo_sched u" "0 < sched_ncpus demo_sched" "clk demo_sched + length ?es < 2 ^ 31 - 1"
    "\<forall>e \<in> set ?es. event_ok demo_sched e" "2 \<in> set (demo_queues 0)" "cpu_thread demo_sched 0 = Some 10"
    by (auto simp: calm_def demo_sched_def demo_thread_def demo_queues_def)
  moreover have "before 2 (after (demo_queues 0) 10) + wakes ?es < ticks 0 ?es"
    by (simp add: demo_queues_def after_def wakes_def ticks_def)
  ultimately have "\<exists>k s'. k \<le> length ?es \<and> sched_run (\<lambda>t n s. None) (take k ?es) demo_sched = Some s' \<and> cpu_thread s' 0 = Some 2"
    by (rule sched_turn [OF demo_sched_ok])
  thus ?thesis .
qed

section \<open>A wake-up inside \<open>sched_unqueue\<close>\<close>

lemma lost_ticks:
  assumes "cpu_thread s c = Some i" "i = threads_idle s c" "nx s i = None" "queue_heads s c = None" "calm s i"
    "th_state (thr s i) \<noteq> THREAD_STOPPED"
  shows "\<exists>s'. sched_run sg (replicate n (Tick c)) s = Some s' \<and> cpu_thread s' c = Some i"
  using assms
proof (induction n arbitrary: s)
  case (Suc n)
  let ?s = "(upd_thr i (\<lambda>x. x\<lparr>th_state := THREAD_RUNNING\<rparr>) s)\<lparr>cpu_thread := (cpu_thread s)(c := Some i)\<rparr>"
  have to: "yield_to c i s = i" using Suc.prems by (simp add: yield_to_def)
  have run: "yield sg c s = Some ?s"
    using Suc.prems(1,6) by (simp add: yield_def to calm_check [OF Suc.prems(5)] upd_thr_def Let_def)
  have "calm ?s i" using Suc.prems(5) by (auto simp: calm_def upd_thr_def split: option.splits)
  with Suc.prems have "\<exists>s'. sched_run sg (replicate n (Tick c)) ?s = Some s' \<and> cpu_thread s' c = Some i"
    by (intro Suc.IH) (simp_all add: upd_thr_def)
  thus ?case using run by simp
qed simp

text \<open>
  C34: A thread that is woken while another one leaves the CPU can be lost. On a machine with one CPU the only queued thread \<open>t\<close>
  blocks. Between the two locked sections of \<open>sched_unqueue\<close>, where the lock is free, the sleeping thread \<open>u\<close> is
  woken and linked into the ring behind \<open>t\<close>. The second section still believes that \<open>t\<close> is alone and empties the queue. Then \<open>u\<close>
  is ready and linked, but no queue contains it: the CPU idles however often it is interrupted, and further wake-ups of
  \<open>u\<close> do nothing.
\<close>
theorem unqueue_gap_loses_thread:
  assumes "sched_ok Q s" "Q 0 = [t]" "cpu_thread s 0 = Some t" "\<And>v. calm s v" "sched_ncpus s = 1" "clk s < 2 ^ 31 - 1"
    and "\<And>d. u \<notin> set (Q d)" "\<And>d. u \<noteq> threads_idle s d"
  shows "\<exists>prv nxt s1 s2 s3. sched_leave 0 t THREAD_WAITING s = Some (prv, nxt, s1) \<and> sched_queue u s1 = Some s2
     \<and> thread_check_signal sg t 0 s2 = Some (0, s2) \<and> sched_unlink 0 t prv nxt s2 = Some s3
     \<and> th_state (thr s3 u) = THREAD_READY \<and> queue_sizes s3 0 = 1 \<and> queue_heads s3 0 = None
     \<and> (\<forall>n. \<exists>s'. sched_run sg (replicate n (Tick 0)) s3 = Some s' \<and> cpu_thread s' 0 = Some (threads_idle s 0))
     \<and> (\<exists>s'. sched_queue u s3 = Some s' \<and> queue_heads s' 0 = None \<and> thr s' = thr s3)"
proof -
  have "ring (nx s) (pv s) [t]" "queue_heads s 0 = Some t" "queue_sizes s 0 = 1"
    using sched_okD(1-3) [OF assms(1), of 0] assms(2) by simp_all
  moreover have "t \<in> set (Q 0)" "u \<notin> set (Q 0)" using assms(2) assms(7) [of 0] by simp_all
  ultimately have t: "nx s t = Some t" "pv s t = Some t" "queue_heads s 0 = Some t" "queue_sizes s 0 = 1" "th_cpu (thr s t) = 0"
    and ut: "u \<noteq> t" using sched_okD(6) [OF assms(1), of t 0] assms(2) by auto
  have u: "nx s u = None" "pv s u = None" using sched_okD(5) [OF assms(1,7)] by auto
  let ?i = "threads_idle s 0"
  have i: "?i \<noteq> t" "?i \<noteq> u" "nx s ?i = None" "th_state (thr s ?i) \<noteq> THREAD_STOPPED"
    using sched_okD(7) [OF assms(1), of 0] sched_okD(8) [OF assms(1), of 0] sched_okD(5) [OF assms(1), of ?i] assms(2) assms(8) [of 0]
    by (simp_all, metis list.set_intros(1))
  define s1 where "s1 = s\<lparr>queue_sizes := (queue_sizes s)(0 := 0), thr := (thr s)(t := (thr s t)\<lparr>th_cpu := - 1, th_state := THREAD_WAITING\<rparr>)\<rparr>"
  define s2 where "s2 = s1\<lparr>clk := Suc (clk s), queue_sizes := (queue_sizes s)(0 := 1),
    thr := (thr s1)(t := (thr s1 t)\<lparr>sched_next := Some u, sched_prev := Some u\<rparr>,
      u := (thr s u)\<lparr>th_state := THREAD_READY, th_cpu := 0, sched_prev := Some t, sched_next := Some t\<rparr>)\<rparr>"
  define s3 where "s3 = s2\<lparr>thr := (thr s2)(t := (thr s2 t)\<lparr>sched_next := None, sched_prev := None\<rparr>), queue_heads := (queue_heads s)(0 := None),
    cpu_thread := (cpu_thread s)(0 := Some ?i)\<rparr>"
  have leave: "sched_leave 0 t THREAD_WAITING s = Some (Some t, Some t, s1)"
    using t by (simp add: sched_leave_def s1_def upd_thr_def Let_def)
  have pu: "pr_state (pcb s p) \<noteq> PROC_SUSPENDED" if "th_proc (thr s u) = Some p" for p
    using assms(4) [of u] that by (simp add: calm_def)
  have queue: "sched_queue u s1 = Some s2"
    using t u ut pu assms(5,6) by (auto simp: sched_queue_def sched_queue_to_def s1_def s2_def upd_thr_def Let_def fun_eq_iff split: option.split)
  have calm: "calm s2 t" "calm s3 ?i" using assms(4) [of t] assms(4) [of ?i] i(1,2) ut
    by (auto simp: calm_def s3_def s2_def s1_def split: option.splits)
  have unlink: "sched_unlink 0 t (Some t) (Some t) s2 = Some s3"
    by (simp add: sched_unlink_def s3_def s2_def s1_def upd_thr_def Let_def)
  have ticks: "\<exists>s'. sched_run sg (replicate n (Tick 0)) s3 = Some s' \<and> cpu_thread s' 0 = Some ?i" for n
    by (rule lost_ticks [OF _ _ _ _ calm(2)]) (use i in \<open>simp_all add: s3_def s2_def s1_def\<close>)
  have again: "\<exists>s'. sched_queue u s3 = Some s' \<and> queue_heads s' 0 = None \<and> thr s' = thr s3"
    using ut pu assms(5) by (auto simp: sched_queue_def sched_queue_to_def s3_def s2_def s1_def split: option.split)
  show ?thesis
    by (intro exI [of _ "Some t"] exI [of _ s1] exI [of _ s2] exI [of _ s3] conjI allI leave queue unlink ticks again calm_check [OF calm(1)])
      (use ut in \<open>simp_all add: s3_def s2_def s1_def\<close>)
qed

text \<open>Thread 2 alone on a machine with one CPU.\<close>

definition demo_alone :: ksys where
  "demo_alone = demo_sched\<lparr>thr := (\<lambda>t. demo_thread)(2 := demo_thread\<lparr>sched_prev := Some 2, sched_next := Some 2\<rparr>),
     queue_heads := (\<lambda>c. None)(0 := Some 2), queue_sizes := (\<lambda>c. 0)(0 := 1), cpu_thread := (\<lambda>c. None)(0 := Some 2), sched_ncpus := 1\<rparr>"

theorem unqueue_gap_loses_thread_witness:
  "\<exists>prv nxt s1 s2 s3. sched_leave 0 2 THREAD_WAITING demo_alone = Some (prv, nxt, s1) \<and> sched_queue 3 s1 = Some s2
     \<and> sched_unlink 0 2 prv nxt s2 = Some s3 \<and> th_state (thr s3 3) = THREAD_READY \<and> queue_heads s3 0 = None"
proof -
  let ?Q = "(\<lambda>c. [])(0 := [2]) :: nat \<Rightarrow> tid list"
  have "sched_ok ?Q demo_alone"
    by (auto simp: sched_ok_def demo_alone_def demo_sched_def demo_thread_def)
  moreover have "?Q 0 = [2]" "cpu_thread demo_alone 0 = Some 2" "\<And>v. calm demo_alone v" "sched_ncpus demo_alone = 1"
    "clk demo_alone < 2 ^ 31 - 1" "\<And>d. 3 \<notin> set (?Q d)" "\<And>d. 3 \<noteq> threads_idle demo_alone d"
    by (simp_all add: demo_alone_def demo_sched_def demo_thread_def calm_def)
  ultimately show ?thesis using unqueue_gap_loses_thread [of _ demo_alone 2 3 "\<lambda>t n s. None"] by blast
qed

end
