(* ===== verification/Proc_Reap.thy ===== *)
theory Proc_Reap
  imports Proc_Tree Sched_Fair
begin

text \<open>
  The end of a process: what \<open>sys_waitpid\<close> does with a child that has finished. The process leaves the tree, its children go to
  init, and its kernel stack, its tables and the frames nobody else maps are given back.
\<close>

section \<open>Kernel stacks\<close>

lemma free_kernel_page:
  assumes inv: "vm_ok S vm" and j: "j \<in> used_set (vm_phys vm) PU_KERNEL" "refcount (vm_phys vm) j = 0"
  shows "\<exists>ph. free_frame (j * MM_PAGE_SIZE) vm = Some (vm\<lparr>vm_phys := ph\<rparr>) \<and> vm_ok S (vm\<lparr>vm_phys := ph\<rparr>)
     \<and> data_set ph = data_set (vm_phys vm) \<and> owned_pages PU_PAGING ph = owned_pages PU_PAGING (vm_phys vm)
     \<and> phys_gave j (vm_phys vm) ph"
proof -
  obtain ph where ph: "mm_phys_free_page (j * MM_PAGE_SIZE) (vm_phys vm) = Some ph" "phys_gave j (vm_phys vm) ph"
    using mm_phys_free_page_ok [OF vm_invD(1) [OF inv] j, of "j * MM_PAGE_SIZE"] by auto
  have used: "used_set ph u = used_set (vm_phys vm) u - {j}" for u using ph(2) by (simp add: phys_gave_def)
  have same: "mm_pages ph i = mm_pages (vm_phys vm) i" if "i \<noteq> j" for i using ph(2) that by (simp add: phys_gave_def)
  have nj: "j \<notin> used_set (vm_phys vm) u" if "u \<noteq> PU_KERNEL" for u using j(1) that by (auto simp: used_set_def)
  have data: "data_set ph = data_set (vm_phys vm)" using nj by (simp add: data_set_def used)
  have "{i \<in> used_set ph PU_PAGING. refcount ph i = 0} = {i \<in> used_set (vm_phys vm) PU_PAGING. refcount (vm_phys vm) i = 0}"
    using nj [of PU_PAGING] same by (auto simp: used) metis+
  hence own: "owned_pages PU_PAGING ph = owned_pages PU_PAGING (vm_phys vm)" by (simp add: owned_pages_def)
  have "j \<notin> data_set (vm_phys vm)" using nj by (simp add: data_set_def)
  hence "mm_pages ph i = mm_pages (vm_phys vm) i" if "i \<in> data_set (vm_phys vm)" for i using same that by metis
  hence "refs_ok (vm_view S vm) ph" using vm_invD(3) [OF inv] by (simp add: refs_ok_def data)
  moreover have "phys_inv ph" using ph(2) by (simp add: phys_gave_def)
  ultimately have "vm_inv S (vm_tab vm) ph" using vm_invD(2) [OF inv] by (simp add: vm_inv_def own)
  thus ?thesis using ph data own by (intro exI [of _ ph]) (simp add: free_frame_def)
qed

definition kstack_at :: "nat \<Rightarrow> nat \<Rightarrow> phys \<Rightarrow> bool" where
  "kstack_at b n ph \<longleftrightarrow> (\<forall>j. b \<le> j \<and> j < b + n \<longrightarrow> j \<in> used_set ph PU_KERNEL \<and> refcount ph j = 0)"

lemma kstack_kern_same: "kstack_at b n ph \<Longrightarrow> kern_same ph ph' \<Longrightarrow> kstack_at b n ph'"
  by (simp add: kstack_at_def kern_same_def)

lemma free_stack_pages:
  assumes inv: "vm_ok S vm" and st: "kstack_at b n (vm_phys vm)"
  shows "\<exists>ph. kfold (\<lambda>i vm. free_frame (i * MM_PAGE_SIZE + b * MM_PAGE_SIZE) vm) [0..<n] vm = Some (vm\<lparr>vm_phys := ph\<rparr>)
     \<and> vm_ok S (vm\<lparr>vm_phys := ph\<rparr>) \<and> data_set ph = data_set (vm_phys vm)
     \<and> owned_pages PU_PAGING ph = owned_pages PU_PAGING (vm_phys vm)
     \<and> used_set ph PU_KERNEL = used_set (vm_phys vm) PU_KERNEL - {b..<b + n}"
proof -
  let ?I = "\<lambda>m vm'. \<exists>ph. vm' = vm\<lparr>vm_phys := ph\<rparr> \<and> vm_ok S (vm\<lparr>vm_phys := ph\<rparr>) \<and> data_set ph = data_set (vm_phys vm)
     \<and> owned_pages PU_PAGING ph = owned_pages PU_PAGING (vm_phys vm)
     \<and> used_set ph PU_KERNEL = used_set (vm_phys vm) PU_KERNEL - {b..<b + m}
     \<and> (\<forall>j. b + m \<le> j \<longrightarrow> mm_pages ph j = mm_pages (vm_phys vm) j)"
  have "\<exists>vm'. kfold (\<lambda>i vm. free_frame (i * MM_PAGE_SIZE + b * MM_PAGE_SIZE) vm) [0..<n] vm = Some vm' \<and> ?I n vm'"
  proof (rule kfold_upto)
    show "?I 0 vm" using inv by (intro exI [of _ "vm_phys vm"]) simp
    fix i vm1 assume i: "i < n" and "?I i vm1"
    then obtain ph where ph: "vm1 = vm\<lparr>vm_phys := ph\<rparr>" "vm_ok S vm1" "data_set ph = data_set (vm_phys vm)"
      "owned_pages PU_PAGING ph = owned_pages PU_PAGING (vm_phys vm)"
      "used_set ph PU_KERNEL = used_set (vm_phys vm) PU_KERNEL - {b..<b + i}"
      "\<And>j. b + i \<le> j \<Longrightarrow> mm_pages ph j = mm_pages (vm_phys vm) j" by blast
    have j: "b + i \<in> used_set (vm_phys vm1) PU_KERNEL" "refcount (vm_phys vm1) (b + i) = 0"
      using st i ph(1,5,6) by (auto simp: kstack_at_def)
    from free_kernel_page [OF ph(2) j] obtain ph2 where
      p2: "free_frame ((b + i) * MM_PAGE_SIZE) vm1 = Some (vm1\<lparr>vm_phys := ph2\<rparr>)" "vm_ok S (vm1\<lparr>vm_phys := ph2\<rparr>)"
        "data_set ph2 = data_set (vm_phys vm1)" "owned_pages PU_PAGING ph2 = owned_pages PU_PAGING (vm_phys vm1)"
        "phys_gave (b + i) (vm_phys vm1) ph2" by blast
    have "used_set ph2 PU_KERNEL = used_set (vm_phys vm) PU_KERNEL - {b..<b + Suc i}"
      using p2(5) ph(1,5) by (auto simp: phys_gave_def)
    moreover have "mm_pages ph2 j = mm_pages (vm_phys vm) j" if "b + Suc i \<le> j" for j
      using p2(5) ph(1,6) that by (simp add: phys_gave_def)
    moreover have "free_frame (i * MM_PAGE_SIZE + b * MM_PAGE_SIZE) vm1 = Some (vm\<lparr>vm_phys := ph2\<rparr>)"
      using p2(1) ph(1) by (simp add: algebra_simps)
    ultimately show "\<exists>vm''. free_frame (i * MM_PAGE_SIZE + b * MM_PAGE_SIZE) vm1 = Some vm'' \<and> ?I (Suc i) vm''"
      using p2 ph by auto
  qed
  thus ?thesis by blast
qed

section \<open>Freeing a process\<close>

text \<open>What a finished process owns: its space, which is not the kernel's, and the stack of its only thread.\<close>

definition finished :: "nat set \<Rightarrow> nat \<Rightarrow> nat \<Rightarrow> ('d, 'w) kernel \<Rightarrow> bool" where
  "finished S ch b k \<longleftrightarrow> pr_state (pcb (ks k) ch) = PROC_FINISHED \<and> thread_count (pcb (ks k) ch) = 1
     \<and> pr_threads (pcb (ks k) ch) \<noteq> []
     \<and> pr_space (pcb (ks k) ch) \<in> S \<and> pr_space (pcb (ks k) ch) \<noteq> vm_kernel (k_vm k)
     \<and> rsp0_base (thr (ks k) (hd (pr_threads (pcb (ks k) ch)))) = b * MM_PAGE_SIZE
     \<and> kstack_at b (rsp0_pages (thr (ks k) (hd (pr_threads (pcb (ks k) ch))))) (vm_phys (k_vm k))"

text \<open>The memory after the space \<open>sp\<close> and a stack of \<open>n\<close> pages are gone.\<close>

definition vm_without :: "nat set \<Rightarrow> nat \<Rightarrow> nat \<Rightarrow> nat \<Rightarrow> vm \<Rightarrow> vm \<Rightarrow> bool" where
  "vm_without S sp b n vm vm' \<longleftrightarrow> vm_ok (S - {sp}) vm'
     \<and> vm_view (S - {sp}) vm' = (\<lambda>(s', p). if s' = sp then None else vm_view S vm (s', p))
     \<and> (\<forall>s' v. s' \<noteq> sp \<longrightarrow> user_byte (S - {sp}) vm' s' v = user_byte S vm s' v)
     \<and> data_set (vm_phys vm') = {j \<in> data_set (vm_phys vm). mapped (vm_view S vm) j = {} \<or> mapped (vm_view (S - {sp}) vm') j \<noteq> {}}
     \<and> owned_pages PU_PAGING (vm_phys vm') = owned_pages PU_PAGING (vm_phys vm) - {u. \<exists>q. at S (vm_tab vm) sp q u}
     \<and> used_set (vm_phys vm') PU_KERNEL = used_set (vm_phys vm) PU_KERNEL - {b..<b + n}"

lemma release_twice:
  assumes inv: "vm_ok S vm" and sp: "sp \<in> S" "sp \<noteq> vm_kernel vm" and st: "kstack_at b n (vm_phys vm)"
  shows "\<exists>vm1 vm2 vm3. mm_space_release sp vm = Some vm1
     \<and> kfold (\<lambda>i vm. free_frame (i * MM_PAGE_SIZE + b * MM_PAGE_SIZE) vm) [0..<n] vm1 = Some vm2
     \<and> mm_space_free sp vm2 = Some vm3 \<and> vm_kernel vm2 = vm_kernel vm \<and> vm_without S sp b n vm vm3"
proof -
  obtain vm1 where r: "mm_space_release sp vm = Some vm1" "vm_ok S vm1"
    "vm_view S vm1 = (\<lambda>(s', p). if s' = sp then None else vm_view S vm (s', p))"
    "vm_mem vm1 = vm_mem vm" "data_set (vm_phys vm1) = data_set (vm_phys vm) \<inter> Paging_Release.kept (vm_view S vm) (vm_view S vm1)"
    "owned_pages PU_PAGING (vm_phys vm1) = owned_pages PU_PAGING (vm_phys vm) - {u. \<exists>q. q \<noteq> [] \<and> at S (vm_tab vm) sp q u}"
    "\<And>q u. at S (vm_tab vm1) sp q u \<Longrightarrow> q = []" "kern_same (vm_phys vm) (vm_phys vm1)" "vm_kernel vm1 = vm_kernel vm"
    using release_ok [OF inv sp] by blast
  from free_stack_pages [OF r(2) kstack_kern_same [OF st r(8)]] obtain ph where
    f: "kfold (\<lambda>i vm. free_frame (i * MM_PAGE_SIZE + b * MM_PAGE_SIZE) vm) [0..<n] vm1 = Some (vm1\<lparr>vm_phys := ph\<rparr>)"
    "vm_ok S (vm1\<lparr>vm_phys := ph\<rparr>)" "data_set ph = data_set (vm_phys vm1)"
    "owned_pages PU_PAGING ph = owned_pages PU_PAGING (vm_phys vm1)"
    "used_set ph PU_KERNEL = used_set (vm_phys vm1) PU_KERNEL - {b..<b + n}" by blast
  let ?vm2 = "vm1\<lparr>vm_phys := ph\<rparr>"
  have "sp \<noteq> vm_kernel ?vm2" using sp(2) r(9) by simp
  from space_free_ok [OF f(2) sp(1) this] obtain vm3 where
    g: "mm_space_free sp ?vm2 = Some vm3" "vm_ok (S - {sp}) vm3"
    "vm_view (S - {sp}) vm3 = (\<lambda>(s', p). if s' = sp then None else vm_view S ?vm2 (s', p))"
    "\<And>s' v. s' \<noteq> sp \<Longrightarrow> user_byte (S - {sp}) vm3 s' v = user_byte S ?vm2 s' v"
    "data_set (vm_phys vm3) = {k \<in> data_set ph. mapped (vm_view S ?vm2) k = {} \<or> mapped (vm_view (S - {sp}) vm3) k \<noteq> {}}"
    "owned_pages PU_PAGING (vm_phys vm3) = owned_pages PU_PAGING ph - {u. \<exists>q. at S (vm_tab vm1) sp q u}"
    "kern_same ph (vm_phys vm3)" by auto
  have V: "vm_view (S - {sp}) vm3 = vm_view S vm1" unfolding g(3) by (auto simp: r(3) fun_eq_iff)
  have "user_byte (S - {sp}) vm3 s' v = user_byte S vm s' v" if "s' \<noteq> sp" for s' v
    using g(4) [OF that] that by (simp add: user_byte_def r(3,4))
  moreover have "data_set (vm_phys vm3) = {j \<in> data_set (vm_phys vm). mapped (vm_view S vm) j = {} \<or> mapped (vm_view (S - {sp}) vm3) j \<noteq> {}}"
    using g(5) f(3) r(5) unfolding V Paging_Release.kept_def by auto
  moreover have "owned_pages PU_PAGING (vm_phys vm3) = owned_pages PU_PAGING (vm_phys vm) - {u. \<exists>q. at S (vm_tab vm) sp q u}"
  proof -
    have a: "at S T sp [] u \<longleftrightarrow> u = sp" for T u using sp(1) by (auto simp: at_def)
    have "(\<exists>q. at S (vm_tab vm1) sp q u) \<longleftrightarrow> u = sp" for u using r(7) a by metis
    moreover have "(\<exists>q. at S (vm_tab vm) sp q u) \<longleftrightarrow> u = sp \<or> (\<exists>q. q \<noteq> [] \<and> at S (vm_tab vm) sp q u)" for u
      using a by metis
    ultimately show ?thesis using g(6) f(4) r(6) by auto
  qed
  moreover have "used_set (vm_phys vm3) PU_KERNEL = used_set (vm_phys vm) PU_KERNEL - {b..<b + n}"
    using r(8) g(7) f(5) by (simp add: kern_same_def)
  ultimately have "vm_without S sp b n vm vm3"
    using g(2) V r(3) unfolding vm_without_def by simp
  thus ?thesis using r(1,9) f(1) g(1) by auto
qed

lemma process_free_ok:
  fixes k :: "('d, 'w) kernel"
  assumes inv: "vm_ok S (k_vm k)" and fin: "finished S ch b k" and i: "process_find 1 (ks k) = Some i"
    and cr3: "cr3 \<noteq> pr_space (pcb (ks k) ch)"
  shows "\<exists>k'. process_free cr3 ch k = Some k' \<and> k_fs k' = k_fs k \<and> thr (ks k') = thr (ks k)
     \<and> proc_all (ks k') = proc_all (ks k) \<and> last_user_pid (ks k') = last_user_pid (ks k)
     \<and> last_kernel_pid (ks k') = last_kernel_pid (ks k)
     \<and> (\<forall>q. q \<noteq> ch \<longrightarrow> pcb (ks k') q = handed i (pr_children (pcb (ks k) ch)) (ks k) q)
     \<and> vm_without S (pr_space (pcb (ks k) ch)) b (rsp0_pages (thr (ks k) (hd (pr_threads (pcb (ks k) ch))))) (k_vm k) (k_vm k')"
proof -
  let ?s = "ks k" and ?sp = "pr_space (pcb (ks k) ch)"
  obtain t ts where t: "pr_threads (pcb ?s ch) = t # ts" using fin by (auto simp: finished_def neq_Nil_conv)
  let ?n = "rsp0_pages (thr ?s t)"
  have F: "pr_state (pcb ?s ch) = PROC_FINISHED" "thread_count (pcb ?s ch) = 1" "?sp \<in> S" "?sp \<noteq> vm_kernel (k_vm k)"
    "rsp0_base (thr ?s t) = b * MM_PAGE_SIZE" "kstack_at b ?n (vm_phys (k_vm k))"
    using fin t by (auto simp: finished_def)
  obtain vm1 vm2 vm3 where m: "mm_space_release ?sp (k_vm k) = Some vm1"
    "kfold (\<lambda>i vm. free_frame (i * MM_PAGE_SIZE + b * MM_PAGE_SIZE) vm) [0..<?n] vm1 = Some vm2"
    "mm_space_free ?sp vm2 = Some vm3" "vm_kernel vm2 = vm_kernel (k_vm k)" "vm_without S ?sp b ?n (k_vm k) vm3"
    using release_twice [OF inv F(3,4,6)] by blast
  let ?K = "pr_children (pcb ?s ch)"
  define s1 where "s1 = upd_proc ch (\<lambda>x. x\<lparr>pr_flags := pr_flags x OR PROC_EMPTY\<rparr>)
    (upd_proc ch (\<lambda>x. x\<lparr>pr_children := []\<rparr>) (?s\<lparr>pcb := handed i ?K ?s\<rparr>))"
  have s1: "pr_state (pcb s1 ch) = PROC_FINISHED" "pr_threads (pcb s1 ch) = t # ts" "pr_space (pcb s1 ch) = ?sp" "thr s1 = thr ?s"
    using F(1) t by (simp_all add: s1_def upd_proc_def)
  have clean: "process_cleanup ch k = Some (k\<lparr>ks := s1, k_vm := vm1\<rparr>)"
    using F(1,2) m(1) reparent_eq [OF i, of ?K] by (simp add: process_cleanup_def s1_def upd_proc_def Let_def)
  have stack: "free_kstack t (k\<lparr>ks := s1, k_vm := vm1\<rparr>) = Some (k\<lparr>ks := s1, k_vm := vm2\<rparr>)"
    using m(2) F(5) s1(4) by (simp add: free_kstack_def)
  have "process_free cr3 ch k = Some (k\<lparr>ks := s1, k_vm := vm3\<rparr>)"
    using F(2,4) clean stack s1 m(3,4) cr3 by (simp add: process_free_def)
  thus ?thesis using m(5) t by (intro exI [of _ "k\<lparr>ks := s1, k_vm := vm3\<rparr>"]) (simp add: s1_def upd_proc_def)
qed

lemma wait_reap_ok:
  fixes k :: "('d, 'w) kernel"
  assumes tree: "proc_tree (ks k)" and par: "par \<in> set (proc_all (ks k))" "ch \<in> set (pr_children (pcb (ks k) par))" "par \<noteq> ch"
    and i: "process_find 1 (ks k) = Some i" "i \<noteq> ch"
    and inv: "vm_ok S (k_vm k)" and fin: "finished S ch b k" and cr3: "cr3 \<noteq> pr_space (pcb (ks k) ch)"
  shows "\<exists>k'. wait_reap cr3 ch k = Some ((pr_pid (pcb (ks k) ch), Some (exit_status (pcb (ks k) ch))), k')
     \<and> proc_tree (ks k') \<and> reaped i par ch (ks k) (ks k') \<and> k_fs k' = k_fs k \<and> thr (ks k') = thr (ks k)
     \<and> vm_without S (pr_space (pcb (ks k) ch)) b (rsp0_pages (thr (ks k) (hd (pr_threads (pcb (ks k) ch))))) (k_vm k) (k_vm k')"
proof -
  let ?s = "ks k" and ?K = "pr_children (pcb (ks k) ch)"
  have ch: "ch \<in> set (proc_all ?s)" "pr_parent (pcb ?s ch) = Some par" using proc_treeD(5) [OF tree par(1,2)] by auto
  have iA: "i \<in> set (proc_all ?s)" "pr_pid (pcb ?s i) = 1" using process_find_Some [OF i(1)] by auto
  define s1 where "s1 = (upd_proc par (\<lambda>x. x\<lparr>pr_children := remove1 ch (pr_children x)\<rparr>) ?s)\<lparr>proc_all := remove1 ch (proc_all ?s)\<rparr>"
  have pcb1: "pcb s1 q = (if q = par then (pcb ?s q)\<lparr>pr_children := remove1 ch (pr_children (pcb ?s q))\<rparr> else pcb ?s q)" for q
    by (simp add: s1_def upd_proc_def)
  have find1: "process_find 1 s1 = Some i"
  proof -
    have "inj_on (\<lambda>p. pr_pid (pcb ?s p)) (set (remove1 ch (proc_all ?s)))"
      by (rule inj_on_subset [OF proc_treeD(2) [OF tree]]) (rule set_remove1_subset)
    moreover have "i \<in> set (remove1 ch (proc_all ?s))" using iA(1) i(2) by (simp add: in_set_remove1)
    ultimately have "find (\<lambda>p. pr_pid (pcb ?s p) = pr_pid (pcb ?s i)) (remove1 ch (proc_all ?s)) = Some i"
      by (rule find_inj)
    moreover have "pr_pid (pcb s1 q) = pr_pid (pcb ?s q)" for q by (simp add: pcb1)
    ultimately show ?thesis by (simp add: process_find_def iA(2)) (simp add: s1_def)
  qed
  have "finished S ch b (k\<lparr>ks := s1\<rparr>)" using fin par(3) by (simp add: finished_def pcb1) (simp add: s1_def upd_proc_def)
  from process_free_ok [OF _ this, of i cr3] inv find1 cr3 par(3) obtain k' where
    k': "process_free cr3 ch (k\<lparr>ks := s1\<rparr>) = Some k'" "k_fs k' = k_fs k" "thr (ks k') = thr ?s"
    "proc_all (ks k') = remove1 ch (proc_all ?s)" "last_user_pid (ks k') = last_user_pid ?s"
    "last_kernel_pid (ks k') = last_kernel_pid ?s" "\<And>q. q \<noteq> ch \<Longrightarrow> pcb (ks k') q = handed i ?K s1 q"
    "vm_without S (pr_space (pcb ?s ch)) b (rsp0_pages (thr ?s (hd (pr_threads (pcb ?s ch))))) (k_vm k) (k_vm k')"
    by (auto simp: pcb1) (auto simp: s1_def upd_proc_def)
  have "q \<noteq> ch" if "q \<in> set (remove1 ch (proc_all ?s))" for q
    using that proc_treeD(1) [OF tree] by auto
  hence r: "reaped i par ch ?s (ks k')" using k'(4-7) by (simp add: reaped_def pcb1)
  have "wait_reap cr3 ch k = Some ((pr_pid (pcb ?s ch), Some (exit_status (pcb ?s ch))), k')"
    using fin k'(1) ch(2) par(2) by (simp add: wait_reap_def finished_def process_unchild_def s1_def Let_def upd_proc_def)
  moreover have "proc_tree (ks k')" by (rule tree_reap [OF tree ch iA(1) i(2) par(3) r])
  ultimately show ?thesis using k' r by blast
qed

text \<open>
  C6: Waiting for a finished child. If the calling process has a child with the given pid that has finished, \<open>sys_waitpid\<close> runs
  without a failing assertion and returns the pid and the exit status of the child. The child is gone from the process
  table, its own children now belong to init, and the tree is consistent. Its address space is gone: every other process
  sees the bytes it saw, and given back are exactly the tables of the space, the frames that no other space maps, and the
  pages of the kernel stack. Descriptors and threads stay as they are.
\<close>
theorem waitpid_reaps:
  fixes k :: "('d, 'w) kernel"
  assumes tree: "proc_tree (ks k)" and self: "cpu_thread (ks k) c = Some t" "th_proc (thr (ks k) t) = Some par"
    and par: "par \<in> set (proc_all (ks k))" "ch \<in> set (pr_children (pcb (ks k) par))" "par \<noteq> ch" "0 < pr_pid (pcb (ks k) ch)"
    and i: "process_find 1 (ks k) = Some i" "i \<noteq> ch"
    and inv: "vm_ok S (k_vm k)" and fin: "finished S ch b k" and cr3: "th_cr3 (thr (ks k) t) \<noteq> pr_space (pcb (ks k) ch)"
  shows "\<exists>k'. sys_waitpid sg c (pr_pid (pcb (ks k) ch)) flags k
       = Some (Waited (pr_pid (pcb (ks k) ch)) (Some (exit_status (pcb (ks k) ch))) k')
     \<and> proc_tree (ks k') \<and> reaped i par ch (ks k) (ks k') \<and> k_fs k' = k_fs k \<and> thr (ks k') = thr (ks k)
     \<and> vm_without S (pr_space (pcb (ks k) ch)) b (rsp0_pages (thr (ks k) (hd (pr_threads (pcb (ks k) ch))))) (k_vm k) (k_vm k')"
proof -
  have "inj_on (\<lambda>p. pr_pid (pcb (ks k) p)) (set (pr_children (pcb (ks k) par)))"
    by (rule inj_on_subset [OF proc_treeD(2) [OF tree]]) (use proc_treeD(5) [OF tree par(1)] in blast)
  hence child: "process_child par (pr_pid (pcb (ks k) ch)) (ks k) = Some ch"
    unfolding process_child_def using par(2) by (rule find_inj)
  have "wait_check_pid flags ch (ks k)" using fin by (simp add: wait_check_pid_def finished_def)
  hence one: "wait_one t flags ch (ks k) = Some (Some ch, ks k)" by (simp add: wait_one.simps)
  show ?thesis
    using wait_reap_ok [OF tree par(1-3) i inv fin cr3] child one self par(4)
    by (auto simp: sys_waitpid_def thread_self_def wait_outcome_def)
qed

text \<open>Three processes: init, its finished child, and a child of that one.\<close>

definition demo_procs :: ksys where
  "demo_procs = demo_sched\<lparr>thr := (\<lambda>t. demo_thread)
       (7 := demo_thread\<lparr>th_proc := Some 7, th_cr3 := demo_B\<rparr>,
        2 := demo_thread\<lparr>th_proc := Some 2, th_cr3 := demo_A, rsp0_base := 300 * MM_PAGE_SIZE, rsp0_pages := 4\<rparr>),
     pcb := (\<lambda>p. demo_proc)
       (7 := demo_proc\<lparr>pr_space := demo_B, pr_children := [2], pr_threads := [7]\<rparr>,
        2 := demo_proc\<lparr>pr_pid := 2, pr_space := demo_A, pr_parent := Some 7, pr_children := [3], pr_threads := [2],
               pr_state := PROC_FINISHED, exit_status := 42\<rparr>,
        3 := demo_proc\<lparr>pr_pid := 3, pr_parent := Some 2\<rparr>),
     cpu_thread := (\<lambda>c. None)(0 := Some 7), proc_all := [3, 2, 7], last_user_pid := 3\<rparr>"

lemma demo_procs_simps:
  "cpu_thread demo_procs 0 = Some 7" "th_proc (thr demo_procs 7) = Some 7" "th_cr3 (thr demo_procs 7) = demo_B"
  "proc_all demo_procs = [3, 2, 7]" "pr_children (pcb demo_procs 7) = [2]" "pr_pid (pcb demo_procs 2) = 2"
  "pr_space (pcb demo_procs 2) = demo_A" "exit_status (pcb demo_procs 2) = 42" "pr_children (pcb demo_procs 2) = [3]"
  "pr_threads (pcb demo_procs 2) = [2]" "process_find 1 demo_procs = Some 7"
  by (simp_all add: demo_procs_def demo_proc_def process_find_def)

lemma demo_proc_tree: "proc_tree demo_procs"
  by (auto simp: proc_tree_def demo_procs_def demo_proc_def demo_sched_def)

lemma demo_finished: "finished demo_S 2 300 \<lparr>ks = demo_procs, k_vm = demo_vm fl, k_fs = fs\<rparr>"
proof -
  have "kstack_at 300 4 demo_vm_phys"
    unfolding kstack_at_def demo_sets by (auto simp: demo_vm_phys_def)
  moreover have "demo_A \<noteq> 0" by (simp add: demo_A_def MM_PAGE_SIZE_def)
  ultimately show ?thesis
    by (simp add: finished_def demo_procs_simps demo_vm_simps) (simp add: demo_procs_def demo_proc_def demo_vm_def)
qed

theorem waitpid_reaps_witness:
  "\<forall>fs :: (nat, nat) fsys. \<exists>k'. sys_waitpid (\<lambda>t n s. None) 0 2 0 \<lparr>ks = demo_procs, k_vm = demo_vm MM_PAGE_USER, k_fs = fs\<rparr>
     = Some (Waited 2 (Some 42) k') \<and> proc_all (ks k') = [3, 7] \<and> pr_parent (pcb (ks k') 3) = Some 7
     \<and> used_set (vm_phys (k_vm k')) PU_KERNEL = {}"
proof
  fix fs :: "(nat, nat) fsys"
  let ?k = "\<lparr>ks = demo_procs, k_vm = demo_vm MM_PAGE_USER, k_fs = fs\<rparr>"
  have "demo_A \<noteq> demo_B" by (simp add: demo_A_def demo_B_def MM_PAGE_SIZE_def)
  then obtain k' where k': "sys_waitpid (\<lambda>t n s. None) 0 2 0 ?k = Some (Waited 2 (Some 42) k')"
    "reaped 7 7 2 demo_procs (ks k')" "vm_without demo_S demo_A 300 (rsp0_pages (thr demo_procs 2)) (demo_vm MM_PAGE_USER) (k_vm k')"
    using waitpid_reaps [of ?k 0 7 7 2 7 demo_S 300 "\<lambda>t n s. None" 0] demo_proc_tree demo_vm_ok demo_finished
    by (auto simp: demo_procs_simps)
  have "rsp0_pages (thr demo_procs 2) = 4" by (simp add: demo_procs_def)
  hence "used_set (vm_phys (k_vm k')) PU_KERNEL = {}" using k'(3) by (auto simp: vm_without_def demo_vm_simps demo_sets)
  moreover have "proc_all (ks k') = [3, 7]" "pr_parent (pcb (ks k') 3) = Some 7"
    using k'(2) by (simp_all add: reaped_def demo_procs_simps)
  ultimately show "\<exists>k'. sys_waitpid (\<lambda>t n s. None) 0 2 0 ?k = Some (Waited 2 (Some 42) k') \<and> proc_all (ks k') = [3, 7]
     \<and> pr_parent (pcb (ks k') 3) = Some 7 \<and> used_set (vm_phys (k_vm k')) PU_KERNEL = {}" using k'(1) by blast
qed

end
