(* ===== verification/Proc_Fork.thy ===== *)
theory Proc_Fork
  imports Proc_Reap File_Refs Ramfs_Driver
begin

text \<open>
  \<open>sys_fork\<close> as a whole: a new address space and a kernel stack, shared descriptors, a new leaf of the process tree and a
  new thread in a run queue.
\<close>

section \<open>Kernel stacks\<close>

lemma took_kernel:
  assumes inv: "vm_ok S vm" and took: "phys_took PU_KERNEL I (vm_phys vm) ph"
  shows "vm_ok S (vm\<lparr>vm_phys := ph\<rparr>)"
proof -
  have nI: "j \<notin> I" if "j \<in> used_set (vm_phys vm) u" for j u
    using took that by (auto simp: phys_took_def free_set_def used_set_def)
  have same: "mm_pages ph j = mm_pages (vm_phys vm) j" if "j \<in> used_set (vm_phys vm) u" for j u
    using took nI [OF that] by (simp add: phys_took_def)
  have used: "used_set ph u = used_set (vm_phys vm) u" if "u \<noteq> PU_KERNEL" for u
    using took that by (simp add: phys_took_def)
  have data: "data_set ph = data_set (vm_phys vm)" by (simp add: data_set_def used)
  have "{i \<in> used_set ph PU_PAGING. refcount ph i = 0} = {i \<in> used_set (vm_phys vm) PU_PAGING. refcount (vm_phys vm) i = 0}"
    using same [of _ PU_PAGING] used [of PU_PAGING] by auto
  hence own: "owned_pages PU_PAGING ph = owned_pages PU_PAGING (vm_phys vm)" by (simp add: owned_pages_def)
  have "refs_ok (vm_view S vm) ph"
    using vm_invD(3) [OF inv] same unfolding refs_ok_def data by (auto simp: data_set_def)
  thus ?thesis using vm_invD(2) [OF inv] took by (simp add: vm_inv_def own phys_took_def)
qed

text \<open>Room for \<open>n\<close> stacks that do not overlap.\<close>

definition stack_room :: "phys \<Rightarrow> nat \<Rightarrow> bool" where
  "stack_room ph n \<longleftrightarrow> (\<exists>W. finite W \<and> card W = n
     \<and> (\<forall>w \<in> W. LOW_PAGE \<le> w \<and> w + THREAD_KSTACK_PAGES < PHYS_MAX_PAGES \<and> {w..<w + THREAD_KSTACK_PAGES} \<subseteq> free_set ph)
     \<and> (\<forall>v \<in> W. \<forall>w \<in> W. v \<noteq> w \<longrightarrow> {v..<v + THREAD_KSTACK_PAGES} \<inter> {w..<w + THREAD_KSTACK_PAGES} = {}))"

lemma stack_room_left:
  assumes room: "stack_room ph (Suc m)" and sub: "free_set ph' \<subseteq> free_set ph"
    and card: "card (free_set ph) = card (free_set ph') + m"
  shows "\<exists>w. LOW_PAGE \<le> w \<and> w + THREAD_KSTACK_PAGES < PHYS_MAX_PAGES \<and> {w..<w + THREAD_KSTACK_PAGES} \<subseteq> free_set ph'"
proof -
  define win where "win = (\<lambda>w. {w..<w + THREAD_KSTACK_PAGES})"
  obtain W where W: "finite W" "card W = Suc m"
    "\<And>w. w \<in> W \<Longrightarrow> LOW_PAGE \<le> w \<and> w + THREAD_KSTACK_PAGES < PHYS_MAX_PAGES \<and> win w \<subseteq> free_set ph"
    "\<And>v w. v \<in> W \<Longrightarrow> w \<in> W \<Longrightarrow> v \<noteq> w \<Longrightarrow> win v \<inter> win w = {}"
    using room unfolding stack_room_def win_def by (elim exE conjE) blast
  let ?T = "free_set ph - free_set ph'"
  have "\<exists>w \<in> W. win w \<subseteq> free_set ph'"
  proof (rule ccontr)
    assume none: "\<not> (\<exists>w \<in> W. win w \<subseteq> free_set ph')"
    have "\<exists>j. j \<in> win w \<and> j \<in> ?T" if "w \<in> W" for w
    proof -
      have "\<not> win w \<subseteq> free_set ph'" "win w \<subseteq> free_set ph" using none W(3) [OF that] that by simp_all
      thus ?thesis by blast
    qed
    then obtain f where f: "\<And>w. w \<in> W \<Longrightarrow> f w \<in> win w \<and> f w \<in> ?T" by metis
    have "inj_on f W"
    proof (rule inj_onI, rule ccontr)
      fix v w assume "v \<in> W" "w \<in> W" "f v = f w" "v \<noteq> w"
      thus False using f [of v] f [of w] W(4) [of v w] by auto
    qed
    moreover have "f ` W \<subseteq> ?T" using f by blast
    ultimately have "card W \<le> card ?T" by (intro card_inj_on_le) auto
    moreover have "card ?T = m" using card card_Diff_subset [OF _ sub] by simp
    ultimately show False using W(2) by simp
  qed
  thus ?thesis using W(3) unfolding win_def by metis
qed

lemma alloc_kstack_ok:
  assumes inv: "vm_ok S vm" and w: "LOW_PAGE \<le> w" "w + THREAD_KSTACK_PAGES < PHYS_MAX_PAGES"
    "{w..<w + THREAD_KSTACK_PAGES} \<subseteq> free_set (vm_phys vm)"
  shows "\<exists>b ph. alloc_kstack vm = Some (b * MM_PAGE_SIZE, vm\<lparr>vm_phys := ph\<rparr>) \<and> vm_ok S (vm\<lparr>vm_phys := ph\<rparr>)
     \<and> kstack_at b THREAD_KSTACK_PAGES ph"
proof -
  have "(PU_KERNEL::page_usage) \<noteq> PU_UNKNOWN" "THREAD_KSTACK_PAGES \<le> PHYS_MAX_PAGES" by (simp_all add: PHYS_MAX_PAGES_def)
  note disj = mm_phys_alloc_contiguous_ok [OF vm_invD(1) [OF inv] this]
  obtain b ph where r: "mm_phys_alloc_contiguous THREAD_KSTACK_PAGES PU_KERNEL (vm_phys vm) = Some (Some (b * MM_PAGE_SIZE), ph)"
    and took: "phys_took PU_KERNEL {b..<b + THREAD_KSTACK_PAGES} (vm_phys vm) ph"
    using disj
  proof (elim disjE conjE exE)
    assume "\<forall>k. LOW_PAGE \<le> k \<longrightarrow> k + THREAD_KSTACK_PAGES < PHYS_MAX_PAGES
      \<longrightarrow> \<not> {k..<k + THREAD_KSTACK_PAGES} \<subseteq> free_set (vm_phys vm)"
    from this [rule_format, OF w(1,2)] w(3) show ?thesis by blast
  qed (rule that)
  have "kstack_at b THREAD_KSTACK_PAGES ph"
    using took by (auto simp: kstack_at_def phys_took_def)
  thus ?thesis using r took_kernel [OF inv took] by (auto simp: alloc_kstack_def)
qed

section \<open>Descriptors\<close>

lemma fork_fds_share:
  "files_ok s \<Longrightarrow> dst \<noteq> src \<Longrightarrow> fy_procs s dst \<noteq> None \<Longrightarrow> \<forall>j \<in> set js. fy_fd s (dst, j) = None \<and> j < 16 \<Longrightarrow> distinct js
    \<Longrightarrow> \<exists>s'. fork_fds dst src js s = Some s'
      \<and> fy_fd s' = (\<lambda>(q, j). if q = dst \<and> j \<in> set js then fy_fd s (src, j) else fy_fd s (q, j))"
proof (induction js arbitrary: s)
  case (Cons j js)
  show ?case
  proof (cases "fy_fd s (src, j)")
    case None
    from Cons.IH [OF Cons.prems(1-3)] Cons.prems(4,5) obtain s' where
      "fork_fds dst src js s = Some s'" "fy_fd s' = (\<lambda>(q, j). if q = dst \<and> j \<in> set js then fy_fd s (src, j) else fy_fd s (q, j))"
      by auto
    thus ?thesis using None Cons.prems(4) by (auto simp: fun_eq_iff)
  next
    case (Some i)
    obtain fl where fl: "fy_files s i = Some fl" using files_ok_procs(4) [OF Cons.prems(1) Some] by blast
    have "0 \<le> of_refcount fl" using files_okD(3) [OF Cons.prems(1) fl] by (simp add: file_ok_def)
    let ?s = "s\<lparr>fy_files := (fy_files s)(i \<mapsto> fl\<lparr>of_refcount := of_refcount fl + 1\<rparr>), fy_fd := (fy_fd s)((dst, j) \<mapsto> i)\<rparr>"
    have ok: "files_ok ?s"
      using files_ok_dup [OF Cons.prems(1) fl, of "(dst, j)"] Cons.prems(3,4) by auto
    have fresh: "\<forall>ja \<in> set js. fy_fd ?s (dst, ja) = None \<and> ja < 16" using Cons.prems(4,5) by auto
    have "fy_procs ?s dst \<noteq> None" "distinct js" using Cons.prems(3,5) by simp_all
    from Cons.IH [OF ok Cons.prems(2) this(1) fresh this(2)] obtain s' where
      "fork_fds dst src js ?s = Some s'"
      "fy_fd s' = (\<lambda>(q, j). if q = dst \<and> j \<in> set js then fy_fd ?s (src, j) else fy_fd ?s (q, j))" by blast
    thus ?thesis using Some fl Cons.prems(2) \<open>0 \<le> of_refcount fl\<close> by (auto simp: ofile_dup_def fun_eq_iff)
  qed
qed simp

lemma fork_io_share:
  assumes "files_ok s" "fy_procs s src \<noteq> None" "fy_procs s dst = None"
    "THREAD_MAX_FDS * Suc (card (dom (fy_procs s))) < 2 ^ 32"
  shows "\<exists>s'. fork_io dst src s = Some s' \<and> files_ok s' \<and> (\<forall>q j. fy_fd s' (q, j) = fy_fd s (if q = dst then src else q, j))"
proof -
  obtain sp where sp: "fy_procs s src = Some sp" using assms(2) by blast
  define ctx where "ctx = process_ioctx_empty\<lparr>cwd_vnode := cwd_vnode (pi_ioctx sp), io_gid := io_gid (pi_ioctx sp),
                                   io_uid := io_uid (pi_ioctx sp), io_umask := io_umask (pi_ioctx sp)\<rparr>"
  define s1 where "s1 = s\<lparr>fy_fd := (\<lambda>(q, j). if q = dst then None else fy_fd s (q, j)),
    fy_procs := (fy_procs s)(dst \<mapsto> \<lparr>pi_ioctx = ctx, pi_ctty = None\<rparr>)\<rparr>"
  note new = files_ok_new_proc [OF assms(1,3,4)]
  have ok1: "files_ok s1" and fd1: "fy_fd s1 = fy_fd s" using new by (simp_all add: s1_def)
  have none: "fy_fd s (dst, j) = None" for j using files_ok_procs(3) [OF assms(1), of "(dst, j)"] assms(3) by (cases "fy_fd s (dst, j)") auto
  have ne: "dst \<noteq> src" using sp assms(3) by auto
  have fresh: "\<forall>j \<in> set [0..<16]. fy_fd s1 (dst, j) = None \<and> j < 16" using none by (simp add: fd1)
  have "fy_procs s1 dst \<noteq> None" "distinct [0..<16::nat]" by (simp_all add: s1_def)
  from fork_fds_share [OF ok1 ne this(1) fresh this(2)] obtain s2 where
    s2: "fork_fds dst src [0..<16] s1 = Some s2"
      "fy_fd s2 = (\<lambda>(q, j). if q = dst \<and> j \<in> set [0..<16] then fy_fd s1 (src, j) else fy_fd s1 (q, j))" by blast
  have big: "fy_fd s (src, j) = None" if "\<not> j < 16" for j
    using files_ok_procs(3) [OF assms(1), of "(src, j)"] that by (cases "fy_fd s (src, j)") auto
  have "fy_procs s2 = fy_procs s1" using files_ok_fork_fds [OF ok1 ne _ fresh _ s2(1)] by (simp add: s1_def)
  hence pr: "fy_procs s2 src = Some sp" "fy_procs s2 dst = Some \<lparr>pi_ioctx = ctx, pi_ctty = None\<rparr>" using sp ne by (simp_all add: s1_def)
  have "process_ioctx_fork dst src s = Some s2" using sp s2(1) by (simp add: process_ioctx_fork_def ctx_def s1_def)
  then obtain s3 where s3: "fork_io dst src s = Some s3" "fy_fd s3 = fy_fd s2" using pr by (simp add: fork_io_def)
  have "fy_fd s3 (q, j) = fy_fd s (if q = dst then src else q, j)" for q j
    using none big by (cases "j < 16") (simp_all add: s3(2) s2(2) fd1)
  thus ?thesis using s3(1) files_ok_fork [OF assms(1) s3(1) assms(3,4)] by blast
qed

section \<open>A new thread\<close>

lemma sched_ok_new:
  assumes ok: "sched_ok Q s" and t: "\<And>d. t \<notin> set (Q d)" "\<And>d. t \<noteq> threads_idle s d"
    and f: "sched_next (thr s' t) = None" "sched_prev (thr s' t) = None"
    and same: "\<And>x. x \<noteq> t \<Longrightarrow> thr s' x = thr s x" "queue_heads s' = queue_heads s" "queue_sizes s' = queue_sizes s"
      "threads_idle s' = threads_idle s" "cpu_thread s' = cpu_thread s"
  shows "sched_ok Q s'"
proof -
  have eq: "thr s' x = thr s x" if "x \<in> set (Q d)" for x d using same(1) [of x] that t(1) by metis
  show ?thesis
    unfolding sched_ok_def same
  proof (intro conjI allI impI ballI)
    fix d
    show "ring (nx s') (pv s') (Q d)" by (rule ring_cong [OF sched_okD(1) [OF ok]]) (simp_all add: eq)
  next
    fix x assume x: "\<forall>d. x \<notin> set (Q d)"
    show "nx s' x = None" "pv s' x = None" using sched_okD(5) [OF ok, of x] x f same(1) [of x] by (cases "x = t"; simp)+
  next
    fix d show "th_state (thr s' (threads_idle s d)) \<noteq> THREAD_STOPPED" using sched_okD(8) [OF ok] same(1) t(2) by metis
  next
    fix d e :: nat assume "d \<noteq> e" thus "set (Q d) \<inter> set (Q e) = {}" using sched_okD(4) [OF ok] by blast
  next
    fix d x assume x: "x \<in> set (Q d)"
    show "th_cpu (thr s' x) = int d" "th_state (thr s' x) \<in> {THREAD_READY, THREAD_RUNNING}"
      using sched_okD(6) [OF ok x] eq [OF x] by auto
  next
    fix d x assume "cpu_thread s d = Some x"
    thus "x \<in> set (Q d) \<or> x = threads_idle s d" by (rule sched_okD(9) [OF ok])
  qed (use sched_okD(2,3,7) [OF ok] in auto)
qed

section \<open>The memory of the child\<close>

lemma stack_room_free: "stack_room ph n \<Longrightarrow> n \<le> card (free_set ph)"
proof -
  assume "stack_room ph n"
  then obtain W where W: "finite W" "card W = n" "\<And>w. w \<in> W \<Longrightarrow> {w..<w + THREAD_KSTACK_PAGES} \<subseteq> free_set ph"
    unfolding stack_room_def by blast
  have "w \<in> {w..<w + THREAD_KSTACK_PAGES}" for w :: nat by simp
  hence "W \<subseteq> free_set ph" using W(3) by blast
  thus ?thesis using card_mono [of "free_set ph" W] W(2) by simp
qed

lemma fork_memory:
  assumes inv: "vm_ok S vm" and sp: "sp \<in> S" and room: "stack_room (vm_phys vm) (space_tables (vm_tab vm) sp + 2)"
  shows "\<exists>a vm1 vm2 b vm3. amd64_mm_pool_alloc vm = Some (a, vm1)
     \<and> mm_space_fork a sp (MM_CLONE_FLG_KERNEL OR MM_CLONE_FLG_USER) vm1 = Some vm2
     \<and> alloc_kstack vm2 = Some (b * MM_PAGE_SIZE, vm3)
     \<and> a \<notin> S \<and> vm_ok (insert a S) vm3 \<and> kstack_at b THREAD_KSTACK_PAGES (vm_phys vm3)
     \<and> (\<forall>s v. user_byte (insert a S) vm3 s v = user_byte S vm (if s = a then sp else s) v)"
proof -
  have card: "ph_pages_free (vm_phys vm) = card (free_set (vm_phys vm))" using vm_invD(1) [OF inv] by (simp add: phys_inv_def)
  have many: "space_tables (vm_tab vm) sp + 2 \<le> ph_pages_free (vm_phys vm)" using stack_room_free [OF room] card by simp
  have "ph_pages_free (vm_phys vm) \<noteq> 0" using many by simp
  from new_space [OF inv this] obtain a vm1 where n: "amd64_mm_pool_alloc vm = Some (a, vm1)" "a \<notin> S" "vm_ok (insert a S) vm1"
    "vm_view (insert a S) vm1 = vm_view S vm" "vm_mem vm1 = vm_mem vm" "\<forall>i. vm_tab vm1 a i = 0"
    "\<And>s q u. s \<in> S \<Longrightarrow> at S (vm_tab vm) s q u \<Longrightarrow> vm_tab vm1 u = vm_tab vm u" "shrunk (vm_phys vm) (vm_phys vm1)"
    "ph_pages_free (vm_phys vm) = Suc (ph_pages_free (vm_phys vm1))" by metis
  have "weight (vm_tab vm1) 3 sp j = weight (vm_tab vm) 3 sp j" if "j < AMD64_PML4I_USER_END" for j
  proof (rule weight_cong)
    show "at S (vm_tab vm) sp [] sp" by (rule at_root [OF sp])
    show "upath ([] @ [j])" using that by (simp add: upath_def AMD64_PML4I_USER_END_def)
  qed (use n(7) [OF sp] in auto)
  hence tables: "space_tables (vm_tab vm1) sp = space_tables (vm_tab vm) sp" by (simp add: space_tables_def)
  have "\<forall>i < AMD64_PML4I_USER_END. \<not> bit (vm_tab vm1 a i) 0" using n(6) by simp
  moreover have "space_tables (vm_tab vm1) sp \<le> ph_pages_free (vm_phys vm1)" using many n(9) tables by simp
  moreover have "sp \<in> insert a S" "a \<in> insert a S" "sp \<noteq> a" using sp n(2) by auto
  ultimately obtain vm2 where f: "mm_space_fork a sp (MM_CLONE_FLG_KERNEL OR MM_CLONE_FLG_USER) vm1 = Some vm2"
    "vm_ok (insert a S) vm2" "\<And>s v. user_byte (insert a S) vm2 s v = user_byte (insert a S) vm1 (if s = a then sp else s) v"
    "ph_pages_free (vm_phys vm1) = ph_pages_free (vm_phys vm2) + space_tables (vm_tab vm) sp" "shrunk (vm_phys vm1) (vm_phys vm2)"
    using fork_space_ok [OF n(3)] tables by metis
  have sub: "free_set (vm_phys vm2) \<subseteq> free_set (vm_phys vm)"
    using shrunk_trans [OF n(8) f(5)] by (simp add: shrunk_def)
  have "card (free_set (vm_phys vm)) = card (free_set (vm_phys vm2)) + (space_tables (vm_tab vm) sp + 1)"
    using card n(9) f(4) vm_invD(1) [OF f(2)] by (simp add: phys_inv_def)
  moreover have "stack_room (vm_phys vm) (Suc (space_tables (vm_tab vm) sp + 1))" using room by simp
  ultimately obtain w where w: "LOW_PAGE \<le> w" "w + THREAD_KSTACK_PAGES < PHYS_MAX_PAGES"
    "{w..<w + THREAD_KSTACK_PAGES} \<subseteq> free_set (vm_phys vm2)"
    using stack_room_left [OF _ sub] by metis
  from alloc_kstack_ok [OF f(2) w] obtain b ph where st: "alloc_kstack vm2 = Some (b * MM_PAGE_SIZE, vm2\<lparr>vm_phys := ph\<rparr>)"
    "vm_ok (insert a S) (vm2\<lparr>vm_phys := ph\<rparr>)" "kstack_at b THREAD_KSTACK_PAGES ph" by blast
  have "user_byte (insert a S) (vm2\<lparr>vm_phys := ph\<rparr>) s v = user_byte S vm (if s = a then sp else s) v" for s v
  proof -
    have "user_byte (insert a S) (vm2\<lparr>vm_phys := ph\<rparr>) s v = user_byte (insert a S) vm2 s v" by (simp add: user_byte_def)
    also have "\<dots> = user_byte S vm (if s = a then sp else s) v" unfolding f(3) by (simp add: user_byte_def n(4,5))
    finally show ?thesis .
  qed
  moreover have "vm_phys (vm2\<lparr>vm_phys := ph\<rparr>) = ph" by simp
  ultimately show ?thesis using n(1,2) f(1) st by metis
qed

section \<open>The child's thread and process\<close>

text \<open>The state of the scheduler and of the processes that \<^const>\<open>sys_fork\<close> hands to \<^const>\<open>sched_queue\<close>.\<close>

definition fork_sys :: "64 word \<Rightarrow> sys_fork_frame \<Rightarrow> nat \<Rightarrow> tid \<Rightarrow> nat \<Rightarrow> tid \<Rightarrow> nat \<Rightarrow> nat \<Rightarrow> ksys \<Rightarrow> ksys" where
  "fork_sys enter frm src st dst t space stack s =
     (let sp = pcb s src; x = thr s st in
      s\<lparr>last_user_pid := last_user_pid s + 1,
        pcb := (pcb s)(dst := (pcb s dst)\<lparr>pr_threads := [t], thread_count := 1, pr_space := space,
            pid_notify := thread_wait_io_init, pr_flags := 0, pr_name := pr_name sp, pr_parent := Some src,
            pr_children := [], pr_pid := last_user_pid s + 1, pr_pgid := pr_pgid sp, pr_sigq := 0, pr_state := PROC_ACTIVE\<rparr>,
          src := sp\<lparr>pr_children := dst # pr_children sp\<rparr>),
        thr := (thr s)(t := (thr s t)\<lparr>th_proc := Some dst, wait_head := [], sleep_notify := thread_wait_io_init,
            sched_prev := None, sched_next := None, rsp0_base := stack, rsp0_pages := THREAD_KSTACK_PAGES,
            th_flags := 0, th_sigq := 0, rsp3_base := rsp3_base x, rsp3_size := rsp3_size x,
            signal_entry := signal_entry x, signal_stack_base := signal_stack_base x,
            signal_stack_size := signal_stack_size x, th_cr3 := space, th_state := THREAD_READY,
            th_frame := fork_frame enter frm\<rparr>),
        proc_all := dst # proc_all s\<rparr>)"

lemma sys_fork_eq:
  assumes "cpu_thread (ks k) c = Some st" "th_proc (thr (ks k) st) = Some src" "src \<noteq> dst"
    "pr_flags (pcb (ks k) src) AND THREAD_KERNEL = 0" "thread_count (pcb (ks k) src) = 1" "ff_rflags frm AND 0x200 \<noteq> 0"
    "amd64_mm_pool_alloc (k_vm k) = Some (a, vm1)"
    "mm_space_fork a (pr_space (pcb (ks k) src)) (MM_CLONE_FLG_KERNEL OR MM_CLONE_FLG_USER) vm1 = Some vm2"
    "alloc_kstack vm2 = Some (b, vm3)" "fork_io dst src (k_fs k) = Some fs"
    "sched_queue t (fork_sys enter frm src st dst t a b (ks k)) = Some s'"
  shows "sys_fork enter c frm dst t k = Some (last_user_pid (ks k) + 1, k\<lparr>ks := s', k_vm := vm3, k_fs := fs\<rparr>)"
  using assms(3,6) assms(11) [unfolded fork_sys_def]
  by (simp add: sys_fork_def thread_self_def assms(1,2,4,5,7,9,10) assms(8) [simplified] process_alloc_pid_def upd_proc_def upd_thr_def kassert_def Let_def)

text \<open>What queueing a thread leaves of every thread, beside what \<^const>\<open>same_procs\<close> says.\<close>

definition same_context :: "ksys \<Rightarrow> ksys \<Rightarrow> bool" where
  "same_context s s' \<longleftrightarrow> last_user_pid s' = last_user_pid s \<and> last_kernel_pid s' = last_kernel_pid s
     \<and> (\<forall>t. th_frame (thr s' t) = th_frame (thr s t) \<and> th_cr3 (thr s' t) = th_cr3 (thr s t)
          \<and> rsp0_base (thr s' t) = rsp0_base (thr s t) \<and> rsp0_pages (thr s' t) = rsp0_pages (thr s t))"

lemma sched_queue_to_context: "sched_queue_to t c s = Some s' \<Longrightarrow> same_context s s'"
  by (auto simp: sched_queue_to_def same_context_def upd_thr_def Let_def split: if_splits option.splits bind_splits)

lemma sched_queue_context: "sched_queue t s = Some s' \<Longrightarrow> same_context s s'"
  by (auto simp: sched_queue_def Let_def same_context_def kassert_def split: if_splits prod.splits option.splits
      dest!: sched_queue_to_context)

lemma fork_sys_tree:
  assumes "proc_tree s" "src \<in> set (proc_all s)" "dst \<notin> set (proc_all s)" "0 \<le> last_user_pid s" "0 \<le> last_kernel_pid s"
  shows "proc_tree (fork_sys enter frm src st dst t a b s)"
proof -
  have "src \<noteq> dst" using assms(2,3) by metis
  thus ?thesis using assms by (intro tree_add_child [OF assms(1-3)]) (simp_all add: fork_sys_def Let_def)
qed

lemma fork_sys_queued:
  assumes ok: "sched_ok Q s" and t: "\<And>d. t \<notin> set (Q d)" "\<And>d. t \<noteq> threads_idle s d"
    and n: "0 < sched_ncpus s" "clk s < 2 ^ 31 - 1" and ne: "src \<noteq> dst"
  shows "\<exists>c s'. c < sched_ncpus s \<and> sched_queue t (fork_sys enter frm src st dst t a b s) = Some s'
     \<and> sched_ok (Q(c := Q c @ [t])) s' \<and> same_procs (fork_sys enter frm src st dst t a b s) s'
     \<and> same_context (fork_sys enter frm src st dst t a b s) s' \<and> cpu_thread s' = cpu_thread s"
proof -
  let ?s = "fork_sys enter frm src st dst t a b s"
  have "sched_ok Q ?s" by (rule sched_ok_new [OF ok t]) (simp_all add: fork_sys_def Let_def)
  moreover have "\<And>d. t \<noteq> threads_idle ?s d" "calm ?s t" "0 < sched_ncpus ?s" "clk ?s < 2 ^ 31 - 1"
    using t(2) n ne by (simp_all add: fork_sys_def Let_def calm_def)
  moreover have "sched_ncpus ?s = sched_ncpus s" "cpu_thread ?s = cpu_thread s" by (simp_all add: fork_sys_def Let_def)
  moreover have "enq c t Q = Q(c := Q c @ [t])" for c using t(1) by (simp add: enq_def)
  ultimately show ?thesis using sched_queue_ok [of Q ?s t] sched_queue_context [of t ?s] by metis
qed

lemma same_procs_tree:
  assumes "same_procs s s'" "same_context s s'" "proc_tree s"
  shows "proc_tree s'"
proof -
  have eq: "pcb s' = pcb s" "proc_all s' = proc_all s" "last_user_pid s' = last_user_pid s" "last_kernel_pid s' = last_kernel_pid s"
    using assms(1,2) by (simp_all add: same_procs_def same_context_def)
  show ?thesis using assms(3) unfolding proc_tree_def eq .
qed

text \<open>
  C2: A process with one thread forks. The caller gets a positive process id that no process had. The new process is in the tree
  as a child of the caller, and its thread is at the end of the queue of some processor with the caller's frame, in which
  the register of the return value is zero. Its address space reads byte for byte what the caller's does, and no other
  space changes. Its descriptors name the caller's open files, and no other descriptor changes. The invariants of
  memory, of the open files, of the run queues and of the process tree all still hold.
\<close>

theorem fork_process:
  assumes run: "cpu_thread (ks k) c = Some st" "th_proc (thr (ks k) st) = Some src" "src \<in> set (proc_all (ks k))"
      "pr_flags (pcb (ks k) src) AND THREAD_KERNEL = 0" "thread_count (pcb (ks k) src) = 1" "ff_rflags frm AND 0x200 \<noteq> 0"
    and tree: "proc_tree (ks k)" "dst \<notin> set (proc_all (ks k))" "0 \<le> last_user_pid (ks k)" "0 \<le> last_kernel_pid (ks k)"
    and queues: "sched_ok Q (ks k)" "\<And>d. t \<notin> set (Q d)" "\<And>d. t \<noteq> threads_idle (ks k) d" "0 < sched_ncpus (ks k)" "clk (ks k) < 2 ^ 31 - 1"
    and mem: "vm_ok S (k_vm k)" "pr_space (pcb (ks k) src) \<in> S"
      "stack_room (vm_phys (k_vm k)) (space_tables (vm_tab (k_vm k)) (pr_space (pcb (ks k) src)) + 2)"
    and files: "files_ok (k_fs k)" "fy_procs (k_fs k) src \<noteq> None" "fy_procs (k_fs k) dst = None"
      "THREAD_MAX_FDS * Suc (card (dom (fy_procs (k_fs k)))) < 2 ^ 32"
  shows "\<exists>pid k' a b d. sys_fork enter c frm dst t k = Some (pid, k') \<and> 0 < pid
     \<and> (\<forall>p \<in> set (proc_all (ks k)). pr_pid (pcb (ks k) p) \<noteq> pid) \<and> process_find pid (ks k') = Some dst
     \<and> proc_tree (ks k') \<and> pr_parent (pcb (ks k') dst) = Some src \<and> pr_state (pcb (ks k') dst) = PROC_ACTIVE
     \<and> d < sched_ncpus (ks k) \<and> sched_ok (Q(d := Q d @ [t])) (ks k') \<and> cpu_thread (ks k') = cpu_thread (ks k)
     \<and> th_proc (thr (ks k') t) = Some dst \<and> th_frame (thr (ks k') t) = fork_frame enter frm \<and> fork_frame enter frm ! 7 = 0
     \<and> pr_space (pcb (ks k') dst) = a \<and> th_cr3 (thr (ks k') t) = a \<and> a \<notin> S \<and> vm_ok (insert a S) (k_vm k')
     \<and> (\<forall>s v. user_byte (insert a S) (k_vm k') s v = user_byte S (k_vm k) (if s = a then pr_space (pcb (ks k) src) else s) v)
     \<and> rsp0_base (thr (ks k') t) = b * MM_PAGE_SIZE \<and> kstack_at b THREAD_KSTACK_PAGES (vm_phys (k_vm k'))
     \<and> files_ok (k_fs k') \<and> (\<forall>q j. fy_fd (k_fs k') (q, j) = fy_fd (k_fs k) (if q = dst then src else q, j))"
proof -
  have ne: "src \<noteq> dst" using run(3) tree(2) by metis
  from fork_memory [OF mem] obtain a vm1 vm2 b vm3 where m: "amd64_mm_pool_alloc (k_vm k) = Some (a, vm1)"
    "mm_space_fork a (pr_space (pcb (ks k) src)) (MM_CLONE_FLG_KERNEL OR MM_CLONE_FLG_USER) vm1 = Some vm2"
    "alloc_kstack vm2 = Some (b * MM_PAGE_SIZE, vm3)" "a \<notin> S" "vm_ok (insert a S) vm3" "kstack_at b THREAD_KSTACK_PAGES (vm_phys vm3)"
    "\<forall>s v. user_byte (insert a S) vm3 s v = user_byte S (k_vm k) (if s = a then pr_space (pcb (ks k) src) else s) v"
    by (elim exE conjE) (rule that)
  from fork_io_share [OF files] obtain fs where fs: "fork_io dst src (k_fs k) = Some fs" "files_ok fs"
    "\<forall>q j. fy_fd fs (q, j) = fy_fd (k_fs k) (if q = dst then src else q, j)" by (elim exE conjE) (rule that)
  let ?s = "fork_sys enter frm src st dst t a (b * MM_PAGE_SIZE) (ks k)"
  from fork_sys_queued [OF queues ne, of enter frm st a "b * MM_PAGE_SIZE"] obtain d s' where q: "d < sched_ncpus (ks k)" "sched_queue t ?s = Some s'"
    "sched_ok (Q(d := Q d @ [t])) s'" "same_procs ?s s'" "same_context ?s s'" "cpu_thread s' = cpu_thread (ks k)" by (elim exE conjE) (rule that)
  have tree': "proc_tree s'"
    by (rule same_procs_tree [OF q(4,5) fork_sys_tree [OF tree(1) run(3) tree(2-4)]])
  have child: "pr_parent (pcb s' dst) = Some src" "pr_state (pcb s' dst) = PROC_ACTIVE" "pr_space (pcb s' dst) = a"
      "pr_pid (pcb s' dst) = last_user_pid (ks k) + 1" "dst \<in> set (proc_all s')"
    using q(4) ne by (simp_all add: same_procs_def fork_sys_def Let_def)
  have thread: "th_proc (thr s' t) = Some dst" "th_frame (thr s' t) = fork_frame enter frm" "th_cr3 (thr s' t) = a"
      "rsp0_base (thr s' t) = b * MM_PAGE_SIZE"
    using q(4,5) by (simp_all add: same_procs_def same_context_def fork_sys_def Let_def)
  have "process_find (last_user_pid (ks k) + 1) s' = Some dst"
    using process_find_self [OF tree' child(5)] child(4) by simp
  moreover have "\<forall>p \<in> set (proc_all (ks k)). pr_pid (pcb (ks k) p) \<noteq> last_user_pid (ks k) + 1"
    using proc_treeD(6) [OF tree(1)] by fastforce
  moreover have "fork_frame enter frm ! 7 = 0" by (simp add: fork_frame_def)
  moreover have "0 < last_user_pid (ks k) + 1" using tree(3) by simp
  moreover note sys_fork_eq [OF run(1,2) ne run(4-6) m(1-3) fs(1) q(2)] tree' child(1-3) thread q(1,3,6) m(4-7) fs(2,3)
  ultimately show ?thesis
    by (intro exI [of _ "last_user_pid (ks k) + 1"] exI [of _ "k\<lparr>ks := s', k_vm := vm3, k_fs := fs\<rparr>"] exI [of _ a] exI [of _ b] exI [of _ d])
      simp
qed

text \<open>One process, with one mapped page and one open file, running on the first of two processors.\<close>

definition demo_fork_sys :: ksys where
  "demo_fork_sys = demo_sched\<lparr>thr := (thr demo_sched)(2 := (thr demo_sched 2)\<lparr>th_proc := Some 1\<rparr>),
     pcb := (\<lambda>p. demo_proc)(1 := demo_proc\<lparr>pr_space := demo_A, pr_threads := [2]\<rparr>),
     cpu_thread := (\<lambda>c. Some (c + 10))(0 := Some 2), proc_all := [1]\<rparr>"

definition demo_fork_frame :: sys_fork_frame where
  "demo_fork_frame = \<lparr>ff_rdi = 0, ff_rsi = 0, ff_rdx = 0, ff_rcx = 0, ff_r8 = 0, ff_r9 = 0, ff_r10 = 0, ff_r11 = 0, ff_rbx = 0,
     ff_rbp = 0, ff_r12 = 0, ff_r13 = 0, ff_r14 = 0, ff_r15 = 0, ff_rsp = 0, ff_rflags = 0x200, ff_rip = 0\<rparr>"

lemma demo_fork_simps:
  "cpu_thread demo_fork_sys 0 = Some 2" "th_proc (thr demo_fork_sys 2) = Some 1" "proc_all demo_fork_sys = [1]"
  "pcb demo_fork_sys 1 = demo_proc\<lparr>pr_space := demo_A, pr_threads := [2]\<rparr>" "last_user_pid demo_fork_sys = 1"
  "last_kernel_pid demo_fork_sys = 0" "threads_idle demo_fork_sys d = d + 10" "sched_ncpus demo_fork_sys = 2"
  "clk demo_fork_sys = 0"
  by (simp_all add: demo_fork_sys_def demo_sched_def)

lemma demo_fork_ok: "sched_ok demo_queues demo_fork_sys" "proc_tree demo_fork_sys"
proof -
  show "sched_ok demo_queues demo_fork_sys"
    by (auto simp: sched_ok_def demo_queues_def demo_fork_sys_def demo_sched_def demo_thread_def)
  show "proc_tree demo_fork_sys"
    by (simp add: proc_tree_def demo_fork_sys_def demo_proc_def demo_sched_def)
qed

lemma demo_stack_room: "stack_room demo_vm_phys 5"
  unfolding stack_room_def demo_sets
  by (rule exI [of _ "{262, 266, 270, 274, 278}"]) (auto simp: LOW_PAGE_def PHYS_MAX_PAGES_def)

theorem fork_process_witness:
  "\<exists>pid k' a. sys_fork 0 0 demo_fork_frame 5 3 \<lparr>ks = demo_fork_sys, k_vm = demo_vm MM_PAGE_USER, k_fs = demo_sys demo_vm_phys\<rparr> = Some (pid, k')
     \<and> pr_parent (pcb (ks k') 5) = Some 1 \<and> pr_space (pcb (ks k') 5) = a
     \<and> user_byte (insert a demo_S) (k_vm k') a 8 = Some 7 \<and> fy_fd (k_fs k') (5, 0) = Some 0"
proof -
  let ?k = "\<lparr>ks = demo_fork_sys, k_vm = demo_vm MM_PAGE_USER, k_fs = demo_sys demo_vm_phys\<rparr>"
  have run: "cpu_thread (ks ?k) 0 = Some 2" "th_proc (thr (ks ?k) 2) = Some 1" "1 \<in> set (proc_all (ks ?k))"
      "pr_flags (pcb (ks ?k) 1) AND THREAD_KERNEL = 0" "thread_count (pcb (ks ?k) 1) = 1" "ff_rflags demo_fork_frame AND 0x200 \<noteq> 0"
    by (simp_all add: demo_fork_simps) (simp_all add: demo_fork_sys_def demo_proc_def demo_fork_frame_def)
  have tree: "proc_tree (ks ?k)" "5 \<notin> set (proc_all (ks ?k))" "0 \<le> last_user_pid (ks ?k)" "0 \<le> last_kernel_pid (ks ?k)"
    by (simp_all add: demo_fork_simps demo_fork_ok)
  have queues: "sched_ok demo_queues (ks ?k)" "\<And>d. 3 \<notin> set (demo_queues d)" "\<And>d. 3 \<noteq> threads_idle (ks ?k) d"
      "0 < sched_ncpus (ks ?k)" "clk (ks ?k) < 2 ^ 31 - 1"
    by (simp_all add: demo_fork_simps demo_fork_ok) (simp add: demo_queues_def)
  have space: "pr_space (pcb (ks ?k) 1) = demo_A" by (simp only: kernel.simps demo_fork_simps) simp
  have mem: "vm_ok demo_S (k_vm ?k)" "pr_space (pcb (ks ?k) 1) \<in> demo_S"
      "stack_room (vm_phys (k_vm ?k)) (space_tables (vm_tab (k_vm ?k)) (pr_space (pcb (ks ?k) 1)) + 2)"
    unfolding space using demo_vm_ok by (simp_all add: demo_vm_simps demo_space_tables demo_stack_room)
  have files: "files_ok (k_fs ?k)" "fy_procs (k_fs ?k) 1 \<noteq> None" "fy_procs (k_fs ?k) 5 = None"
      "THREAD_MAX_FDS * Suc (card (dom (fy_procs (k_fs ?k)))) < 2 ^ 32"
    by (simp_all add: demo_files_ok)
  have "user_byte demo_S (demo_vm MM_PAGE_USER) demo_A 8 = Some 7" by (simp add: user_byte_def demo_view) (simp add: demo_vm_def)
  thus ?thesis
    using fork_process [OF run tree queues mem files, of 0] by (elim exE conjE) (auto simp: space space [simplified])
qed

end
