(* ===== verification/Proc_Exit.thy ===== *)
theory Proc_Exit
  imports Proc_Fork
begin

text \<open>
  \<open>sys_exit\<close> of the last thread of a process together with the \<open>sys_waitpid\<close> of a parent that sleeps for it: when the
  exiting thread is not preempted between the notification and the change of its state, and when it is.
\<close>

section \<open>What leaves the queues alone\<close>

lemma sched_ok_cong:
  assumes "sched_ok Q s" "\<And>t. nx s' t = nx s t \<and> pv s' t = pv s t \<and> th_cpu (thr s' t) = th_cpu (thr s t) \<and> th_state (thr s' t) = th_state (thr s t)"
    "queue_heads s' = queue_heads s" "queue_sizes s' = queue_sizes s" "threads_idle s' = threads_idle s" "cpu_thread s' = cpu_thread s"
  shows "sched_ok Q s'"
proof -
  have eq: "nx s' = nx s" "pv s' = pv s" using assms(2) by auto
  show ?thesis using assms(1) unfolding sched_ok_def eq assms(3-6) by (simp add: assms(2))
qed

lemma sched_unqueue_context:
  assumes "calm s t" "sched_unqueue sg c t new s = Some s'"
  shows "same_context s s'"
proof -
  let ?s = "s\<lparr>queue_sizes := (queue_sizes s)(c := queue_sizes s c - 1), thr := (thr s)(t := (thr s t)\<lparr>th_cpu := - 1, th_state := new\<rparr>)\<rparr>"
  have "calm ?s t" using assms(1) by (auto simp: calm_def split: option.splits)
  note this [THEN calm_check, of sg 0]
  hence "sched_unlink c t (sched_prev (thr s t)) (sched_next (thr s t)) ?s = Some s'"
    using assms(2) by (simp add: sched_unqueue_def sched_leave_def upd_thr_def kassert_def split: if_splits)
  thus ?thesis
    by (auto simp: sched_unlink_def same_context_def upd_thr_def Let_def split: if_splits option.splits bind_splits)
qed

section \<open>The exiting process\<close>

text \<open>The system when the parent has been notified, before it is queued.\<close>

definition exit_state :: "tid \<Rightarrow> nat \<Rightarrow> int \<Rightarrow> ksys \<Rightarrow> ksys" where
  "exit_state t ch status s =
     upd_proc ch (\<lambda>x. x\<lparr>exit_status := status, pid_notify := snd (thread_notify_io (pid_notify x))\<rparr>) (exit_clear t s)"

lemma exit_state_simps [simp]:
  "nx (exit_state t ch status s) x = nx s x" "pv (exit_state t ch status s) x = pv s x"
  "th_cpu (thr (exit_state t ch status s) x) = th_cpu (thr s x)" "th_state (thr (exit_state t ch status s) x) = th_state (thr s x)"
  "th_proc (thr (exit_state t ch status s) x) = th_proc (thr s x)" "th_sigq (thr (exit_state t ch status s) x) = th_sigq (thr s x)"
  "pr_sigq (pcb (exit_state t ch status s) p) = pr_sigq (pcb s p)" "pr_state (pcb (exit_state t ch status s) p) = pr_state (pcb s p)"
  "queue_heads (exit_state t ch status s) = queue_heads s" "queue_sizes (exit_state t ch status s) = queue_sizes s"
  "threads_idle (exit_state t ch status s) = threads_idle s" "cpu_thread (exit_state t ch status s) = cpu_thread s"
  "sched_ncpus (exit_state t ch status s) = sched_ncpus s" "clk (exit_state t ch status s) = clk s"
  by (simp_all add: exit_state_def exit_clear_def upd_proc_def upd_thr_def)

lemma exit_state_ok:
  "sched_ok Q s \<Longrightarrow> sched_ok Q (exit_state t ch status s)" "calm (exit_state t ch status s) x = calm s x"
  by (erule sched_ok_cong; simp) (simp add: calm_def split: option.splits)

lemma exit_notify_wakes:
  assumes "ion_owner (pid_notify (pcb s ch)) = Some w" "ch \<notin> set (wait_head (thr s t))" "nx s w = None"
  shows "exit_notify ch status (exit_clear t s) = sched_queue w (exit_state t ch status s)"
proof -
  have "nx (exit_clear t s) w = None" using assms(3) by (auto simp add: exit_clear_def upd_thr_def)
  moreover have "pid_notify (pcb (exit_clear t s) ch) = pid_notify (pcb s ch)" using assms(2) by (simp add: exit_clear_def upd_thr_def)
  ultimately show ?thesis
    using assms(1) by (simp add: exit_notify_def notify_pid_def exit_state_def thread_notify_io_def wake_def upd_proc_def)
qed

text \<open>The queues after the parent's thread \<open>w\<close> has been added to the one of \<open>d\<close> and \<open>t\<close> has left the one of \<open>c\<close>.\<close>

definition handover :: "nat \<Rightarrow> tid \<Rightarrow> nat \<Rightarrow> tid \<Rightarrow> (nat \<Rightarrow> tid list) \<Rightarrow> nat \<Rightarrow> tid list" where
  "handover d w c t Q = (let Q = Q(d := Q d @ [w]) in Q(c := remove1 t (Q c)))"

text \<open>The first half of the call: the descriptors are closed and the parent's thread is queued somewhere.\<close>

lemma exit_announce_runs:
  assumes queues: "sched_ok Q (ks k)" "0 < sched_ncpus (ks k)" "clk (ks k) < 2 ^ 31 - 1"
    and w: "ion_owner (pid_notify (pcb (ks k) ch)) = Some w" "ch \<notin> set (wait_head (thr (ks k) t))"
      "\<And>d. w \<notin> set (Q d)" "\<And>d. w \<noteq> threads_idle (ks k) d" "calm (ks k) w"
    and fs: "exit_close_fds env ch (k_fs k) = Some fs"
  shows "\<exists>s1 d. exit_announce env t ch status k = Some (k\<lparr>ks := s1, k_fs := fs\<rparr>) \<and> d < sched_ncpus (ks k)
     \<and> sched_ok (Q(d := Q d @ [w])) s1
     \<and> same_procs (exit_state t ch status (ks k)) s1 \<and> same_context (exit_state t ch status (ks k)) s1"
proof -
  let ?s = "exit_state t ch status (ks k)"
  have "nx (ks k) w = None" using sched_okD(5) [OF queues(1) w(3)] by blast
  note notify = exit_notify_wakes [OF w(1,2) this]
  have "sched_ok Q ?s" "\<And>d. w \<noteq> threads_idle ?s d" "calm ?s w" "0 < sched_ncpus ?s" "clk ?s < 2 ^ 31 - 1"
    using queues w(4,5) by (simp_all add: exit_state_ok)
  from sched_queue_ok [OF this] obtain d s1 where s1: "d < sched_ncpus (ks k)" "sched_queue w ?s = Some s1"
    "sched_ok (enq d w Q) s1" "same_procs ?s s1" by auto
  have "exit_announce env t ch status k = Some (k\<lparr>ks := s1, k_fs := fs\<rparr>)"
    using fs s1(2) by (simp add: exit_announce_def notify)
  moreover have "enq d w Q = Q(d := Q d @ [w])" using w(3) by (simp add: enq_def)
  ultimately show ?thesis using s1 sched_queue_context [OF s1(2)] by metis
qed

text \<open>The second half.\<close>

lemma exit_complete_runs:
  assumes "sched_ok Q (ks k)" "t \<in> set (Q c)" "calm (ks k) t" "th_proc (thr (ks k) t) = Some ch"
  shows "\<exists>s'. exit_complete sg c t ch k = Some (k\<lparr>ks := s'\<rparr>) \<and> sched_ok (Q(c := remove1 t (Q c))) s'
     \<and> th_state (thr s' t) = THREAD_STOPPED \<and> same_procs (exit_finish ch (ks k)) s' \<and> same_context (ks k) s'"
proof -
  let ?f = "exit_finish ch (ks k)"
  have "sched_ok Q ?f" by (rule sched_ok_cong [OF assms(1)]) (simp_all add: exit_finish_def upd_proc_def)
  moreover have calm: "calm ?f t" using assms(3,4) by (simp add: calm_def exit_finish_def upd_proc_def)
  ultimately obtain s' where s': "sched_unqueue sg c t THREAD_STOPPED ?f = Some s'"
    "sched_ok (Q(c := remove1 t (Q c))) s'" "same_procs ?f s'" "th_state (thr s' t) = THREAD_STOPPED"
    using unqueue_ok assms(2) by blast
  have "same_context (ks k) s'"
    using sched_unqueue_context [OF calm s'(1)] by (simp add: same_context_def exit_finish_def upd_proc_def)
  thus ?thesis using s' by (intro exI [of _ s']) (simp add: exit_complete_def)
qed

lemma exit_runs:
  assumes cur: "cpu_thread (ks k) c = Some t" "th_proc (thr (ks k) t) = Some ch" "thread_count (pcb (ks k) ch) = 1"
    and queues: "sched_ok Q (ks k)" "t \<in> set (Q c)" "calm (ks k) t" "0 < sched_ncpus (ks k)" "clk (ks k) < 2 ^ 31 - 1"
    and w: "ion_owner (pid_notify (pcb (ks k) ch)) = Some w" "ch \<notin> set (wait_head (thr (ks k) t))"
      "\<And>d. w \<notin> set (Q d)" "\<And>d. w \<noteq> threads_idle (ks k) d" "calm (ks k) w"
    and fs: "exit_close_fds env ch (k_fs k) = Some fs"
  shows "\<exists>s' d. sys_exit sg env c status k = Some (k\<lparr>ks := s', k_fs := fs\<rparr>) \<and> d < sched_ncpus (ks k)
     \<and> sched_ok (handover d w c t Q) s' \<and> th_state (thr s' t) = THREAD_STOPPED
     \<and> same_procs (exit_finish ch (exit_state t ch status (ks k))) s' \<and> same_context (exit_state t ch status (ks k)) s'"
proof -
  let ?s = "exit_state t ch status (ks k)"
  from exit_announce_runs [OF queues(1,4,5) w fs, of status] obtain s1 d where
    s1: "exit_announce env t ch status k = Some (k\<lparr>ks := s1, k_fs := fs\<rparr>)" "d < sched_ncpus (ks k)"
      "sched_ok (Q(d := Q d @ [w])) s1" "same_procs ?s s1" "same_context ?s s1" by (elim exE conjE) (rule that)
  let ?k = "k\<lparr>ks := s1, k_fs := fs\<rparr>" and ?Q = "Q(d := Q d @ [w])"
  have pr: "th_proc (thr s1 t) = Some ch" using cur(2) s1(4) by (simp add: same_procs_def)
  have "calm s1 t" using same_procs_calm [OF s1(4)] queues(3) by (simp add: exit_state_ok)
  hence "sched_ok ?Q (ks ?k)" "t \<in> set (?Q c)" "calm (ks ?k) t" "th_proc (thr (ks ?k) t) = Some ch"
    using s1(3) queues(2) pr by auto
  from exit_complete_runs [OF this, of sg] obtain s' where
    s': "exit_complete sg c t ch ?k = Some (?k\<lparr>ks := s'\<rparr>)" "sched_ok (?Q(c := remove1 t (?Q c))) s'" "th_state (thr s' t) = THREAD_STOPPED"
      "same_procs (exit_finish ch (ks ?k)) s'" "same_context (ks ?k) s'" by (elim exE conjE) (rule that)
  have "same_procs (exit_finish ch ?s) s'" using s1(4) s'(4) by (simp add: same_procs_def exit_finish_def upd_proc_def)
  moreover have "same_context ?s s'" using s1(5) s'(5) by (simp add: same_context_def)
  moreover have "sys_exit sg env c status k = Some (k\<lparr>ks := s', k_fs := fs\<rparr>)"
    using cur s1(1) s'(1) by (simp add: sys_exit_def thread_self_def)
  moreover have "handover d w c t Q = ?Q(c := remove1 t (?Q c))" by (simp add: handover_def Let_def)
  ultimately show ?thesis using s1(2) s'(2,3) by metis
qed

section \<open>The waiting parent\<close>

lemma resume_reaps:
  assumes "cpu_thread (ks k) d = Some w" "calm (ks k) w" "ion_value (pid_notify (pcb (ks k) ch)) \<noteq> 0"
    "pr_state (pcb (ks k) ch) = PROC_FINISHED"
  shows "waitpid_resume sg d ch flags k = do {
      ((pid, status), k) \<leftarrow> wait_reap (th_cr3 (thr (ks k) w)) ch (k\<lparr>ks := upd_proc ch (\<lambda>x. x\<lparr>pid_notify := thread_wait_io_init\<rparr>) (ks k)\<rparr>);
      Some (Waited pid status k)
    }"
proof -
  let ?s = "upd_proc ch (\<lambda>x. x\<lparr>pid_notify := (pid_notify x)\<lparr>ion_owner := None\<rparr>\<rparr>) (ks k)"
  let ?r = "upd_proc ch (\<lambda>x. x\<lparr>pid_notify := thread_wait_io_init\<rparr>) (ks k)"
  have "calm ?s w" using assms(2) by (auto simp: calm_def upd_proc_def split: option.splits)
  note check = calm_check [OF this, of sg 0]
  have io: "thread_wait_io w (pid_notify (pcb ?s ch)) = Some (WRet 0, thread_wait_io_init)"
    using assms(3) by (simp add: upd_proc_def thread_wait_io_def thread_wait_io_init_def)
  have r: "upd_proc ch (\<lambda>x. x\<lparr>pid_notify := thread_wait_io_init\<rparr>) ?s = ?r" by (simp add: upd_proc_def)
  have "wait_check_pid flags ch ?r" using assms(4) by (simp add: wait_check_pid_def upd_proc_def)
  hence one: "wait_one w flags ch ?r = Some (Some ch, ?r)" by (simp add: wait_one.simps)
  have "thr ?r = thr (ks k)" by (simp add: upd_proc_def)
  thus ?thesis by (simp add: waitpid_resume_def thread_self_def assms(1) check io r one wait_outcome_def)
qed

text \<open>The processes after the exit, seen from the parent's thread when it is the current one of \<open>e\<close>.\<close>

lemma exit_resume:
  fixes k K :: "('d, 'w) kernel"
  assumes procs: "same_procs (exit_finish ch (exit_state t ch status (ks k))) s'"
    and ctx: "same_context (exit_state t ch status (ks k)) s'"
    and K: "ks K = s'\<lparr>cpu_thread := (cpu_thread s')(e := Some w)\<rparr>" "k_vm K = k_vm k"
    and cur: "pr_threads (pcb (ks k) ch) = [t]" "thread_count (pcb (ks k) ch) = 1"
    and w: "calm (ks k) w"
    and tree: "proc_tree (ks k)" "par \<in> set (proc_all (ks k))" "ch \<in> set (pr_children (pcb (ks k) par))" "par \<noteq> ch"
      "process_find 1 (ks k) = Some i" "i \<noteq> ch"
    and mem: "vm_ok S (k_vm k)" "sp = pr_space (pcb (ks k) ch)" "sp \<in> S" "sp \<noteq> vm_kernel (k_vm k)" "th_cr3 (thr (ks k) w) \<noteq> sp"
      "rsp0_base (thr (ks k) t) = b * MM_PAGE_SIZE" "kstack_at b (rsp0_pages (thr (ks k) t)) (vm_phys (k_vm k))"
  shows "\<exists>r. waitpid_resume sg e ch flags K = Some (Waited (pr_pid (pcb (ks k) ch)) (Some status) r)
      \<and> proc_tree (ks r) \<and> proc_all (ks r) = remove1 ch (proc_all (ks k)) \<and> k_fs r = k_fs K
      \<and> vm_without S sp b (rsp0_pages (thr (ks k) t)) (k_vm k) (k_vm r)"
proof -
  have pcb: "pcb (ks K) = pcb (exit_finish ch (exit_state t ch status (ks k)))" "proc_all (ks K) = proc_all (ks k)"
    using procs by (simp_all add: K(1) same_procs_def exit_finish_def exit_state_def exit_clear_def upd_proc_def upd_thr_def)
  have same: "pr_pid (pcb (ks K) q) = pr_pid (pcb (ks k) q)" "pr_parent (pcb (ks K) q) = pr_parent (pcb (ks k) q)"
    "pr_children (pcb (ks K) q) = pr_children (pcb (ks k) q)" "pr_space (pcb (ks K) q) = pr_space (pcb (ks k) q)"
    "pr_threads (pcb (ks K) q) = pr_threads (pcb (ks k) q)" "thread_count (pcb (ks K) q) = thread_count (pcb (ks k) q)" for q
    unfolding pcb by (simp_all add: exit_finish_def exit_state_def exit_clear_def upd_proc_def upd_thr_def)
  have ch: "pr_state (pcb (ks K) ch) = PROC_FINISHED" "exit_status (pcb (ks K) ch) = status"
    "ion_value (pid_notify (pcb (ks K) ch)) \<noteq> 0"
    unfolding pcb by (simp_all add: exit_finish_def exit_state_def exit_clear_def upd_proc_def upd_thr_def)
  have thr: "th_cr3 (thr (ks K) x) = th_cr3 (thr (ks k) x)" "rsp0_base (thr (ks K) x) = rsp0_base (thr (ks k) x)"
    "rsp0_pages (thr (ks K) x) = rsp0_pages (thr (ks k) x)" for x
    using ctx by (simp_all add: K(1) same_context_def exit_state_def exit_clear_def upd_proc_def upd_thr_def)
  have "calm (exit_finish ch (exit_state t ch status (ks k))) w"
    using w by (auto simp: calm_def exit_finish_def upd_proc_def exit_state_simps [unfolded upd_proc_def] split: option.splits)
  hence "calm s' w" using same_procs_calm [OF procs] by simp
  hence calm: "calm (ks K) w" by (auto simp: calm_def K(1) split: option.splits)
  have cur': "cpu_thread (ks K) e = Some w" by (simp add: K(1))
  define R where "R = K\<lparr>ks := upd_proc ch (\<lambda>x. x\<lparr>pid_notify := thread_wait_io_init\<rparr>) (ks K)\<rparr>"
  have R: "pr_pid (pcb (ks R) q) = pr_pid (pcb (ks k) q)" "pr_parent (pcb (ks R) q) = pr_parent (pcb (ks k) q)"
    "pr_children (pcb (ks R) q) = pr_children (pcb (ks k) q)" "proc_all (ks R) = proc_all (ks k)" "thr (ks R) = thr (ks K)" "k_vm R = k_vm k"
    "k_fs R = k_fs K" "pr_threads (pcb (ks R) q) = pr_threads (pcb (ks k) q)" "thread_count (pcb (ks R) q) = thread_count (pcb (ks k) q)"
    "pr_state (pcb (ks R) ch) = PROC_FINISHED" "exit_status (pcb (ks R) ch) = status" "pr_space (pcb (ks R) q) = pr_space (pcb (ks k) q)"
    "last_user_pid (ks R) = last_user_pid (ks k)" "last_kernel_pid (ks R) = last_kernel_pid (ks k)" for q
    using ctx by (simp_all add: R_def upd_proc_def same pcb(2) ch K(2))
      (simp_all add: K(1) same_context_def exit_state_def exit_clear_def upd_proc_def upd_thr_def)
  have "proc_tree (ks R)" using tree(1) same_tree_kept [of "ks k" "ks R"] by (simp add: same_tree_def R)
  moreover have "par \<in> set (proc_all (ks R))" "ch \<in> set (pr_children (pcb (ks R) par))" using tree(2,3) by (simp_all add: R)
  moreover have "process_find 1 (ks R) = Some i" using tree(5) process_find_cong [of "ks R" "ks k" 1] R by simp
  moreover have "finished S ch b R" using cur mem by (simp add: finished_def R thr)
  moreover have "th_cr3 (thr (ks K) w) \<noteq> pr_space (pcb (ks R) ch)" using mem by (simp add: R thr)
  moreover have "vm_ok S (k_vm R)" using mem(1) by (simp add: R)
  ultimately obtain r where r: "wait_reap (th_cr3 (thr (ks K) w)) ch R = Some ((pr_pid (pcb (ks k) ch), Some status), r)"
    "proc_tree (ks r)" "reaped i par ch (ks R) (ks r)" "k_fs r = k_fs K"
    "vm_without S sp b (rsp0_pages (thr (ks k) t)) (k_vm k) (k_vm r)"
    using wait_reap_ok [of R par ch i S b "th_cr3 (thr (ks K) w)"] tree(4,6) cur(1) mem(2) by (auto simp: R thr)
  show ?thesis
    using r resume_reaps [OF cur' calm ch(3,1), of sg flags] by (simp add: R_def [symmetric] reaped_def R)
qed

text \<open>
  C7: Exit reaches the waiting parent. The last thread of a process exits while a thread of the parent sleeps in
  \<open>sys_waitpid\<close> for it, and it is not preempted on the way. The call runs without a failing assertion. It closes the
  descriptors of the process, and no others, so that every file that stays open has a descriptor in another process, and
  it takes the thread out of its queue for good. The thread of the parent is in a queue, and when it
  is next on a processor, whichever one, its wait returns the pid and the status that was passed to exit. The child is then
  gone from the process table and so is its memory.
\<close>

theorem exit_reaches_parent:
  fixes k :: "(ram_vnode_private, ram_world) kernel"
  assumes cur: "cpu_thread (ks k) c = Some t" "th_proc (thr (ks k) t) = Some ch" "thread_count (pcb (ks k) ch) = 1"
      "pr_threads (pcb (ks k) ch) = [t]"
    and queues: "sched_ok Q (ks k)" "t \<in> set (Q c)" "calm (ks k) t" "0 < sched_ncpus (ks k)" "clk (ks k) < 2 ^ 31 - 1"
    and w: "ion_owner (pid_notify (pcb (ks k) ch)) = Some w" "ch \<notin> set (wait_head (thr (ks k) t))"
      "\<And>d. w \<notin> set (Q d)" "\<And>d. w \<noteq> threads_idle (ks k) d" "calm (ks k) w" "th_proc (thr (ks k) w) = Some par"
    and tree: "proc_tree (ks k)" "par \<in> set (proc_all (ks k))" "ch \<in> set (pr_children (pcb (ks k) par))" "par \<noteq> ch"
      "process_find 1 (ks k) = Some i" "i \<noteq> ch"
    and mem: "vm_ok S (k_vm k)" "sp = pr_space (pcb (ks k) ch)" "sp \<in> S" "sp \<noteq> vm_kernel (k_vm k)" "th_cr3 (thr (ks k) w) \<noteq> sp"
      "rsp0_base (thr (ks k) t) = b * MM_PAGE_SIZE" "kstack_at b (rsp0_pages (thr (ks k) t)) (vm_phys (k_vm k))"
    and files: "files_ok (k_fs k)"
  shows "\<exists>k' d. sys_exit sg ramfs_env c status k = Some k' \<and> d < sched_ncpus (ks k)
     \<and> sched_ok (handover d w c t Q) (ks k') \<and> th_state (thr (ks k') t) = THREAD_STOPPED
     \<and> files_ok (k_fs k') \<and> (\<forall>j. fy_fd (k_fs k') (ch, j) = None) \<and> (\<forall>q j. q \<noteq> ch \<longrightarrow> fy_fd (k_fs k') (q, j) = fy_fd (k_fs k) (q, j))
     \<and> (\<forall>f. fy_files (k_fs k') f \<noteq> None \<longrightarrow> (\<exists>q j. q \<noteq> ch \<and> fy_fd (k_fs k') (q, j) = Some f))
     \<and> (\<forall>e flags. \<exists>r. waitpid_resume sg e ch flags (k'\<lparr>ks := (ks k')\<lparr>cpu_thread := (cpu_thread (ks k'))(e := Some w)\<rparr>\<rparr>)
            = Some (Waited (pr_pid (pcb (ks k) ch)) (Some status) r)
          \<and> proc_tree (ks r) \<and> proc_all (ks r) = remove1 ch (proc_all (ks k)) \<and> k_fs r = k_fs k'
          \<and> vm_without S sp b (rsp0_pages (thr (ks k) t)) (k_vm k) (k_vm r))"
proof -
  obtain fs where fs: "exit_close_fds ramfs_env ch (k_fs k) = Some fs" "files_ok fs" "\<forall>j. fy_fd fs (ch, j) = None"
    "\<forall>q j. q \<noteq> ch \<longrightarrow> fy_fd fs (q, j) = fy_fd (k_fs k) (q, j)" "\<forall>f. fy_files fs f \<noteq> None \<longrightarrow> (\<exists>q j. q \<noteq> ch \<and> fy_fd fs (q, j) = Some f)"
    using exit_releases_files [OF files, of ch] by (elim exE conjE) (rule that)
  from exit_runs [OF cur(1-3) queues w(1-5) fs(1), of sg status] obtain s' d where
    e: "sys_exit sg ramfs_env c status k = Some (k\<lparr>ks := s', k_fs := fs\<rparr>)" "d < sched_ncpus (ks k)"
      "sched_ok (handover d w c t Q) s'" "th_state (thr s' t) = THREAD_STOPPED"
    and procs: "same_procs (exit_finish ch (exit_state t ch status (ks k))) s'"
    and ctx: "same_context (exit_state t ch status (ks k)) s'" by (elim exE conjE) (rule that)
  let ?k = "k\<lparr>ks := s', k_fs := fs\<rparr>"
  have "\<forall>e flags. \<exists>r. waitpid_resume sg e ch flags (?k\<lparr>ks := (ks ?k)\<lparr>cpu_thread := (cpu_thread (ks ?k))(e := Some w)\<rparr>\<rparr>)
            = Some (Waited (pr_pid (pcb (ks k) ch)) (Some status) r)
          \<and> proc_tree (ks r) \<and> proc_all (ks r) = remove1 ch (proc_all (ks k)) \<and> k_fs r = k_fs ?k
          \<and> vm_without S sp b (rsp0_pages (thr (ks k) t)) (k_vm k) (k_vm r)"
    using exit_resume [OF procs ctx _ _ cur(4,3) w(5) tree mem, of "?k\<lparr>ks := (ks ?k)\<lparr>cpu_thread := (cpu_thread (ks ?k))(e := Some w)\<rparr>\<rparr>" e for e]
    by simp
  moreover have "ks ?k = s'" "k_fs ?k = fs" by simp_all
  ultimately show ?thesis using e fs(2-5) by metis
qed

section \<open>Preemption in the middle of exit\<close>

text \<open>A context switch on \<open>c\<close> to the queued thread \<open>t\<close>.\<close>

definition on_cpu :: "nat \<Rightarrow> tid \<Rightarrow> ('d, 'w) kernel \<Rightarrow> ('d, 'w) kernel" where
  "on_cpu c t k = k\<lparr>ks := (ks k)\<lparr>cpu_thread := (cpu_thread (ks k))(c := Some t)\<rparr>\<rparr>"

lemma on_cpu_ok:
  assumes "sched_ok Q (ks k)" "t \<in> set (Q c)"
  shows "sched_ok Q (ks (on_cpu c t k))"
  using assms unfolding sched_ok_def on_cpu_def by simp

lemma on_cpu_simps [simp]:
  "cpu_thread (ks (on_cpu c t k)) c = Some t" "pcb (ks (on_cpu c t k)) = pcb (ks k)" "thr (ks (on_cpu c t k)) = thr (ks k)"
  "calm (ks (on_cpu c t k)) x = calm (ks k) x"
  by (simp_all add: on_cpu_def calm_def split: option.split)

lemma resume_sleeps:
  assumes "cpu_thread (ks k) e = Some w" "calm (ks k) w" "ion_value (pid_notify (pcb (ks k) ch)) \<noteq> 0"
    "pr_state (pcb (ks k) ch) = PROC_ACTIVE"
  shows "waitpid_resume sg e ch flags k = do {
      s \<leftarrow> sched_unqueue sg e w THREAD_WAITING (upd_proc ch (\<lambda>x. x\<lparr>pid_notify := \<lparr>ion_owner = Some w, ion_value = 0\<rparr>\<rparr>) (ks k));
      Some (Sleeping (k\<lparr>ks := s\<rparr>))
    }"
proof -
  let ?s = "upd_proc ch (\<lambda>x. x\<lparr>pid_notify := (pid_notify x)\<lparr>ion_owner := None\<rparr>\<rparr>) (ks k)"
  let ?i = "upd_proc ch (\<lambda>x. x\<lparr>pid_notify := thread_wait_io_init\<rparr>) (ks k)"
  let ?r = "upd_proc ch (\<lambda>x. x\<lparr>pid_notify := \<lparr>ion_owner = Some w, ion_value = 0\<rparr>\<rparr>) (ks k)"
  have "calm ?s w" using assms(2) by (auto simp: calm_def upd_proc_def split: option.splits)
  note check = calm_check [OF this, of sg 0]
  have io: "thread_wait_io w (pid_notify (pcb ?s ch)) = Some (WRet 0, thread_wait_io_init)"
    using assms(3) by (simp add: upd_proc_def thread_wait_io_def thread_wait_io_init_def)
  have r: "upd_proc ch (\<lambda>x. x\<lparr>pid_notify := thread_wait_io_init\<rparr>) ?s = ?i" by (simp add: upd_proc_def)
  have "\<not> wait_check_pid flags ch ?i" using assms(4) by (simp add: wait_check_pid_def upd_proc_def)
  hence one: "wait_one w flags ch ?i = Some (None, ?r)"
    by (subst wait_one.simps) (simp add: upd_proc_def thread_wait_io_def thread_wait_io_init_def)
  show ?thesis by (simp add: waitpid_resume_def thread_self_def assms(1) check io r one wait_outcome_def)
qed

lemma parent_sleeps_again:
  assumes ok: "sched_ok Q (ks k)" "w \<in> set (Q d)" "cpu_thread (ks k) d = Some w" "calm (ks k) w"
    and ch: "ion_value (pid_notify (pcb (ks k) ch)) \<noteq> 0" "pr_state (pcb (ks k) ch) = PROC_ACTIVE"
  shows "\<exists>s. waitpid_resume sg d ch flags k = Some (Sleeping (k\<lparr>ks := s\<rparr>)) \<and> sched_ok (Q(d := remove1 w (Q d))) s
     \<and> same_procs (upd_proc ch (\<lambda>x. x\<lparr>pid_notify := \<lparr>ion_owner = Some w, ion_value = 0\<rparr>\<rparr>) (ks k)) s"
proof -
  let ?s = "upd_proc ch (\<lambda>x. x\<lparr>pid_notify := \<lparr>ion_owner = Some w, ion_value = 0\<rparr>\<rparr>) (ks k)"
  have "sched_ok Q ?s" by (rule sched_ok_cong [OF ok(1)]) (simp_all add: upd_proc_def)
  moreover have "calm ?s w" using ok(4) by (auto simp: calm_def upd_proc_def split: option.splits)
  ultimately obtain s1 where "sched_unqueue sg d w THREAD_WAITING ?s = Some s1"
    "sched_ok (Q(d := remove1 w (Q d))) s1" "same_procs ?s s1" using unqueue_ok ok(2) by blast
  thus ?thesis by (intro exI [of _ s1]) (simp add: resume_sleeps [OF ok(3,4) ch])
qed

text \<open>
  C33: A process that is preempted while it exits can leave its parent asleep for ever. \<open>sys_exit\<close> of the last thread of a
  process is \<open>exit_announce\<close> followed by \<open>exit_complete\<close>. A thread of the parent sleeps for the process.
  When \<open>exit_announce\<close> has notified it, it is in a queue and may run before the exiting thread goes on: it consumes the
  notification, finds the process active and sleeps again. When \<open>exit_complete\<close> then runs, the process is finished and waits to be
  reaped, the thread that had to notify the parent has stopped, and the parent's thread is in no queue.
\<close>

theorem exit_preempted_parent_sleeps:
  fixes k :: "(ram_vnode_private, ram_world) kernel"
  assumes cur: "cpu_thread (ks k) c = Some t" "th_proc (thr (ks k) t) = Some ch" "thread_count (pcb (ks k) ch) = 1"
      "pr_state (pcb (ks k) ch) = PROC_ACTIVE"
    and queues: "sched_ok Q (ks k)" "t \<in> set (Q c)" "calm (ks k) t" "0 < sched_ncpus (ks k)" "clk (ks k) < 2 ^ 31 - 1"
    and w: "ion_owner (pid_notify (pcb (ks k) ch)) = Some w" "ch \<notin> set (wait_head (thr (ks k) t))"
      "\<And>d. w \<notin> set (Q d)" "\<And>d. w \<noteq> threads_idle (ks k) d" "calm (ks k) w"
    and files: "files_ok (k_fs k)"
  shows "\<exists>k1 d k2 k3. exit_announce ramfs_env t ch status k = Some k1
     \<and> sys_exit sg ramfs_env c status k = exit_complete sg c t ch k1
     \<and> d < sched_ncpus (ks k) \<and> sched_ok (Q(d := Q d @ [w])) (ks k1)
     \<and> waitpid_resume sg d ch flags (on_cpu d w k1) = Some (Sleeping k2)
     \<and> exit_complete sg c t ch (on_cpu c t k2) = Some k3
     \<and> pr_state (pcb (ks k3) ch) = PROC_FINISHED \<and> th_state (thr (ks k3) t) = THREAD_STOPPED
     \<and> ion_owner (pid_notify (pcb (ks k3) ch)) = Some w \<and> ion_value (pid_notify (pcb (ks k3) ch)) = 0
     \<and> sched_ok (Q(c := remove1 t (Q c))) (ks k3) \<and> sched_next (thr (ks k3) w) = None"
proof -
  let ?s = "exit_state t ch status (ks k)"
  obtain fs where fs: "exit_close_fds ramfs_env ch (k_fs k) = Some fs" using exit_releases_files [OF files, of ch] by blast
  from exit_announce_runs [OF queues(1,4,5) w fs, of status] obtain s1 d where
    s1: "exit_announce ramfs_env t ch status k = Some (k\<lparr>ks := s1, k_fs := fs\<rparr>)" "d < sched_ncpus (ks k)"
      "sched_ok (Q(d := Q d @ [w])) s1" "same_procs ?s s1" by (elim exE conjE) (rule that)
  define k1 where "k1 = k\<lparr>ks := s1, k_fs := fs\<rparr>"
  let ?Q = "Q(d := Q d @ [w])" and ?k = "on_cpu d w k1"
  have pcb1: "pcb (ks k1) = pcb ?s" "\<And>x. calm (ks k1) x = calm (ks k) x" "th_proc (thr (ks k1) t) = Some ch"
    using s1(4) same_procs_calm [OF s1(4)] cur(2) by (simp_all add: k1_def exit_state_ok) (simp_all add: same_procs_def)
  have "sched_ok ?Q (ks ?k)" by (rule on_cpu_ok) (use s1(3) in \<open>simp_all add: k1_def\<close>)
  moreover have "ion_value (pid_notify (pcb (ks ?k) ch)) \<noteq> 0" "pr_state (pcb (ks ?k) ch) = PROC_ACTIVE"
    using cur(4) by (simp_all add: pcb1(1)) (simp add: exit_state_def upd_proc_def)
  ultimately obtain s2 where s2: "waitpid_resume sg d ch flags ?k = Some (Sleeping (?k\<lparr>ks := s2\<rparr>))"
      "sched_ok (?Q(d := remove1 w (?Q d))) s2"
      "same_procs (upd_proc ch (\<lambda>x. x\<lparr>pid_notify := \<lparr>ion_owner = Some w, ion_value = 0\<rparr>\<rparr>) (ks ?k)) s2"
    using parent_sleeps_again [of ?Q ?k w d ch sg flags] w(5) pcb1(2) by auto
  have "?Q(d := remove1 w (?Q d)) = Q" using w(3) [of d] by (auto simp: remove1_append remove1_idem)
  hence ok2: "sched_ok Q s2" using s2(2) by simp
  define k2 where "k2 = ?k\<lparr>ks := s2\<rparr>"
  let ?k2 = "on_cpu c t k2"
  have "calm (ks k1) t" using pcb1(2) queues(3) by simp
  hence "calm (upd_proc ch (\<lambda>x. x\<lparr>pid_notify := \<lparr>ion_owner = Some w, ion_value = 0\<rparr>\<rparr>) (ks ?k)) t"
    by (simp add: calm_def upd_proc_def pcb1(3))
  hence "calm s2 t" using same_procs_calm [OF s2(3)] by simp
  moreover have "th_proc (thr s2 t) = Some ch" using s2(3) pcb1(3) by (simp add: same_procs_def upd_proc_def)
  ultimately have "calm (ks ?k2) t" "th_proc (thr (ks ?k2) t) = Some ch" by (simp_all add: k2_def)
  moreover have "sched_ok Q (ks ?k2)" by (rule on_cpu_ok) (simp_all add: k2_def ok2 queues(2))
  ultimately obtain s3 where s3: "exit_complete sg c t ch ?k2 = Some (?k2\<lparr>ks := s3\<rparr>)" "sched_ok (Q(c := remove1 t (Q c))) s3"
      "th_state (thr s3 t) = THREAD_STOPPED" "same_procs (exit_finish ch (ks ?k2)) s3"
    using exit_complete_runs [of Q ?k2 t c ch sg] queues(2) by blast
  have "w \<notin> set ((Q(c := remove1 t (Q c))) e)" for e using w(3) [of e] set_remove1_subset [of t "Q c"] by auto
  hence nx: "sched_next (thr s3 w) = None" using sched_okD(5) [OF s3(2)] by blast
  have pcb3: "pr_state (pcb s3 ch) = PROC_FINISHED" "pid_notify (pcb s3 ch) = \<lparr>ion_owner = Some w, ion_value = 0\<rparr>"
    using s2(3) s3(4) by (simp_all add: same_procs_def exit_finish_def upd_proc_def k2_def)
  have "sys_exit sg ramfs_env c status k = exit_complete sg c t ch k1"
    using cur s1(1) by (simp add: sys_exit_def thread_self_def k1_def)
  thus ?thesis using s1 s2(1) s3(1-3) pcb3 nx
    by (intro exI [of _ k1] exI [of _ d] exI [of _ k2] exI [of _ "?k2\<lparr>ks := s3\<rparr>"]) (simp add: k1_def k2_def)
qed

text \<open>Init waits in thread 9 for its child, which has one open file and runs in thread 2.\<close>

definition demo_exit_sys :: ksys where
  "demo_exit_sys = demo_sched\<lparr>thr := (thr demo_sched)
       (2 := (thr demo_sched 2)\<lparr>th_proc := Some 1, rsp0_base := 300 * MM_PAGE_SIZE, rsp0_pages := 4\<rparr>,
        9 := demo_thread\<lparr>th_proc := Some 7, th_state := THREAD_WAITING, th_cr3 := demo_B\<rparr>),
     pcb := (\<lambda>p. demo_proc)
       (1 := demo_proc\<lparr>pr_pid := 2, pr_space := demo_A, pr_parent := Some 7, pr_threads := [2], pid_notify := \<lparr>ion_owner = Some 9, ion_value = 0\<rparr>\<rparr>,
        7 := demo_proc\<lparr>pr_space := demo_B, pr_children := [1], pr_threads := [9]\<rparr>),
     cpu_thread := (\<lambda>c. Some (c + 10))(0 := Some 2), proc_all := [1, 7], last_user_pid := 2\<rparr>"

lemma demo_exit_ok: "sched_ok demo_queues demo_exit_sys" "proc_tree demo_exit_sys"
proof -
  show "sched_ok demo_queues demo_exit_sys"
    by (auto simp: sched_ok_def demo_queues_def demo_exit_sys_def demo_sched_def demo_thread_def)
  show "proc_tree demo_exit_sys"
    by (auto simp: proc_tree_def demo_exit_sys_def demo_proc_def demo_sched_def)
qed

theorem exit_reaches_parent_witness:
  "\<exists>k' r. sys_exit (\<lambda>t n s. None) ramfs_env 0 42 \<lparr>ks = demo_exit_sys, k_vm = demo_vm MM_PAGE_USER, k_fs = demo_sys demo_vm_phys\<rparr> = Some k'
     \<and> fy_fd (k_fs k') (1, 0) = None
     \<and> waitpid_resume (\<lambda>t n s. None) 1 1 0 (k'\<lparr>ks := (ks k')\<lparr>cpu_thread := (cpu_thread (ks k'))(1 := Some 9)\<rparr>\<rparr>) = Some (Waited 2 (Some 42) r)
     \<and> proc_all (ks r) = [7]"
proof -
  let ?k = "\<lparr>ks = demo_exit_sys, k_vm = demo_vm MM_PAGE_USER, k_fs = demo_sys demo_vm_phys\<rparr>"
  note defs = demo_exit_sys_def demo_sched_def demo_thread_def demo_proc_def
  have cur: "cpu_thread (ks ?k) 0 = Some 2" "th_proc (thr (ks ?k) 2) = Some 1" "thread_count (pcb (ks ?k) 1) = 1"
      "pr_threads (pcb (ks ?k) 1) = [2]" by (simp_all add: defs)
  have queues: "sched_ok demo_queues (ks ?k)" "2 \<in> set (demo_queues 0)" "calm (ks ?k) 2" "0 < sched_ncpus (ks ?k)" "clk (ks ?k) < 2 ^ 31 - 1"
    by (simp_all add: demo_exit_ok) (simp_all add: demo_queues_def calm_def defs)
  have w: "ion_owner (pid_notify (pcb (ks ?k) 1)) = Some 9" "1 \<notin> set (wait_head (thr (ks ?k) 2))"
      "\<And>d. 9 \<notin> set (demo_queues d)" "\<And>d. 9 \<noteq> threads_idle (ks ?k) d" "calm (ks ?k) 9" "th_proc (thr (ks ?k) 9) = Some 7"
    by (simp_all add: demo_queues_def calm_def defs)
  have tree: "proc_tree (ks ?k)" "7 \<in> set (proc_all (ks ?k))" "1 \<in> set (pr_children (pcb (ks ?k) 7))" "7 \<noteq> (1 :: nat)"
      "process_find 1 (ks ?k) = Some 7" "7 \<noteq> (1 :: nat)"
    by (simp_all add: demo_exit_ok) (simp_all add: process_find_def defs)
  have "kstack_at 300 4 demo_vm_phys" unfolding kstack_at_def demo_sets by (auto simp: demo_vm_phys_def)
  hence mem: "vm_ok demo_S (k_vm ?k)" "demo_A = pr_space (pcb (ks ?k) 1)" "demo_A \<in> demo_S" "demo_A \<noteq> vm_kernel (k_vm ?k)" "th_cr3 (thr (ks ?k) 9) \<noteq> demo_A"
      "rsp0_base (thr (ks ?k) 2) = 300 * MM_PAGE_SIZE" "kstack_at 300 (rsp0_pages (thr (ks ?k) 2)) (vm_phys (k_vm ?k))"
    using demo_vm_ok [of MM_PAGE_USER]
    by (simp_all add: demo_vm_simps) (simp_all add: defs demo_vm_def demo_A_def demo_B_def MM_PAGE_SIZE_def)
  have files: "files_ok (k_fs ?k)" by (simp add: demo_files_ok)
  have "pr_pid (pcb (ks ?k) 1) = 2" "proc_all (ks ?k) = [1, 7]" by (simp_all add: defs)
  with exit_reaches_parent [OF cur queues w tree mem files, of "\<lambda>t n s. None" 42] show ?thesis by auto metis
qed

theorem exit_preempted_parent_sleeps_witness:
  "\<exists>k1 d k2 k3. exit_announce ramfs_env 2 1 42 \<lparr>ks = demo_exit_sys, k_vm = demo_vm MM_PAGE_USER, k_fs = demo_sys demo_vm_phys\<rparr> = Some k1
     \<and> waitpid_resume (\<lambda>t n s. None) d 1 0 (on_cpu d 9 k1) = Some (Sleeping k2)
     \<and> exit_complete (\<lambda>t n s. None) 0 2 1 (on_cpu 0 2 k2) = Some k3
     \<and> pr_state (pcb (ks k3) 1) = PROC_FINISHED \<and> sched_next (thr (ks k3) 9) = None"
proof -
  let ?k = "\<lparr>ks = demo_exit_sys, k_vm = demo_vm MM_PAGE_USER, k_fs = demo_sys demo_vm_phys\<rparr>"
  note defs = demo_exit_sys_def demo_sched_def demo_thread_def demo_proc_def
  have cur: "cpu_thread (ks ?k) 0 = Some 2" "th_proc (thr (ks ?k) 2) = Some 1" "thread_count (pcb (ks ?k) 1) = 1"
      "pr_state (pcb (ks ?k) 1) = PROC_ACTIVE" by (simp_all add: defs)
  have queues: "sched_ok demo_queues (ks ?k)" "2 \<in> set (demo_queues 0)" "calm (ks ?k) 2" "0 < sched_ncpus (ks ?k)" "clk (ks ?k) < 2 ^ 31 - 1"
    by (simp_all add: demo_exit_ok) (simp_all add: demo_queues_def calm_def defs)
  have w: "ion_owner (pid_notify (pcb (ks ?k) 1)) = Some 9" "1 \<notin> set (wait_head (thr (ks ?k) 2))"
      "\<And>d. 9 \<notin> set (demo_queues d)" "\<And>d. 9 \<noteq> threads_idle (ks ?k) d" "calm (ks ?k) 9"
    by (simp_all add: demo_queues_def calm_def defs)
  have files: "files_ok (k_fs ?k)" by (simp add: demo_files_ok)
  from exit_preempted_parent_sleeps [OF cur queues w files, of 42 "\<lambda>t n s. None" 0] show ?thesis by blast
qed

end
