(* ===== verification/Spec2Isabelle.thy ===== *)
theory Spec2Isabelle
  imports Tty Pipe_Window File_Pipe Kheap Slab Tables Bcache Ramfs_Shrink Ramfs_Unpack Mmap_Maps Proc_Exit
begin

text \<open>
  A verification library for the yggdrasil kernel for amd64 (C sources under src/).

  \<^bold>\<open>What is modelled.\<close> The kernel's memory management from physical pages to system calls, its file
  systems from vnodes to descriptor tables, block caching, the character path of pipes and
  terminals, and processes with their threads, signals and run queues. Each C function of a modelled part is one definition with the name it has in the source;
  parts of a function that get a definition of their own (loop bodies, repeated blocks) are named
  after it. Data are records and datatypes with the fields and constructors of the source, machine
  words have their width where overflow or bits matter, and counters that the code keeps below the
  size of memory are natural numbers.

  \<^bold>\<open>Conventions\<close> (Ygg_Prelude). A routine that can panic, fail an assertion or read where there is nothing returns
  an option and \<^term>\<open>None\<close> is that failure. Error codes are the negative numbers the code returns. Pointers are
  keys of stores. Function pointers of drivers are arguments. What runs under one spin
  lock or with interrupts disabled is atomic, and blocking routines are cut where the thread gives up the CPU. Routines
  that drop their lock or can be interrupted halfway have their parts as definitions of their own: \<open>sched_unqueue\<close>
  (\<open>sched_leave\<close>, then \<open>sched_unlink\<close>), \<open>sys_exit\<close> (\<open>exit_announce\<close>, then \<open>exit_complete\<close>) and
  \<open>thread_wait_io\<close> (Pipe_Window). Where an interrupt between the parts does harm, a theorem shows it.

  \<^bold>\<open>Memory.\<close>
    \<^item> Phys: src/arch/amd64/mm/phys.c, the page array with usage, flags and reference counts, boot from the memory
      map, single pages and contiguous ranges. The invariant \<open>phys_inv\<close> holds from boot on, counters agree with the
      array whatever references the clients take, allocation takes free pages only, and freeing fails exactly on pages
      that are outside the array, not allocated or referenced. The locale \<open>page_allocator\<close> is the contract for clients.
    \<^item> Kheap: src/arch/amd64/mm/heap.c, first fit on a linked list of headers; Slab: src/sys/mem/slab.c, one page per
      slab with a free list of indices. Both implement \<open>object_allocator\<close> of Alloc_Iface: what they hand out
      is disjoint from everything outstanding, over any history of calls.
    \<^item> Paging: src/arch/amd64/mm/map.c, vmalloc.c, mm.c, \<open>do_pfault\<close> of src/arch/amd64/hw/exc.c. Paging_Walk and Paging_Maps
      give table trees the view of one partial map from user pages to entries, with the invariant \<open>vm_inv\<close>: trees
      are disjoint and reference counts are exact. Paging_Ops and Paging_Fault show that mapping, unmapping and the
      copy-on-write fault are updates of that map, Paging_Fork and Paging_Release that the nested loops
      copy and free a whole space. Paging_Demo is the concrete state of the instances.
    \<^item> Mmap: src/sys/mem/shmem.c, \<open>blk_mmap\<close> and \<open>display_blk_mmap\<close>; Mmap_Maps: an anonymous mapping and its removal.

  \<^bold>\<open>Files.\<close>
    \<^item> Vfs, Vfs_Path, Vfs_Ops: src/fs/node.c, vfs_access.c, vfs.c, fs_class.c, vfs_ops.c, ofile.c, src/sys/char/chr.c.
      Vfs_Wf is the well-formedness of the vnode tree; path lookup is proved equal to a walk over path components.
    \<^item> Vfs_Driver: the locale \<open>vfs_driver\<close>, what the core relies on from a file system; its lemmas hold for every driver.
    \<^item> Sys_File: src/sys/sys_file.c and the descriptor handling of src/sys/process.c, thread.c and execve.c. File_Refs: for every
      driver, descriptors, open files and vnode use counts stay in agreement, whatever processes do with files. File_Pipe:
      \<open>sys_pipe\<close> and \<open>pipe_create\<close> of src/sys/char/pipe.c, the exception, whose vnode count wraps.
    \<^item> Ramfs, Ramfs_Tar: src/fs/ram.c and ram_tar.c. Ramfs_Driver interprets \<open>vfs_driver\<close> on ramfs with the RAM disk and the pseudo
      devices (src/sys/block/ram.c, pseudo.c). Ramfs_Data and Ramfs_Shrink: reads, writes and truncation are
      operations on byte sequences, with exact page ownership. Ramfs_Archive: the contents
      of files in the boot archive; Ramfs_Unpack: for an archive written by an independent byte encoder, the first pass
      visits its headers in order and stops at the end.
    \<^item> Bcache: src/sys/block/cache.c and blk.c; cached reads and writes are those of an ideal disk and a flush brings the
      real disk up to date. Tables: src/sys/hash.c and src/net/ports.c; Index_Map is their contract.

  \<^bold>\<open>Characters.\<close>
    \<^item> Ring, Wait_IO, Pipe: src/sys/char/ring.c, pipe.c, src/sys/wait.c. The ring is a bounded queue (locale \<open>bounded_queue\<close>); a
      writing and a reading thread are an interleaved system with reachable states, first in first out. Pipe_Window adds
      the time between the release of the lock in \<open>thread_wait_io\<close> and the removal from the run queue: a sleeper that
      was not notified sleeps for a reason, and one notified within that time is lost until a signal comes.
    \<^item> Tty, Kstring: src/sys/char/tty.c, line.c, src/sys/string.c, ctype.c.

  \<^bold>\<open>Processes.\<close>
    \<^item> Sched: src/sys/sched.c with the threads of src/include/sys/thread.h and the signal delivery of src/sys/thread.c. Sched_Queue:
      the linked rings are lists (\<open>sched_ok\<close>), and every operation is the expected list operation. Sched_Fair: over any sequence of
      ticks, blocking and wake-ups a queued thread gets its turn within a bound; a wake-up between the two locked sections of
      \<open>sched_unqueue\<close> can be lost.
    \<^item> Proc: src/sys/process.c, thread.c and \<open>sys_waitpid\<close> of src/sys/wait.c, on a state that joins run queues, memory and
      descriptors (\<open>kernel\<close>). Proc_Tree: the invariant \<open>proc_tree\<close> of parents, children and process ids. Proc_Fork:
      \<open>sys_fork\<close> creates a process that shares nothing it should not and everything it should. Proc_Reap: \<open>sys_waitpid\<close>
      removes a finished child and returns exactly its memory. Proc_Exit: an exit that is not preempted reaches the waiting
      parent; one that is preempted at the wrong place does not.

  \<^bold>\<open>How the parts interact.\<close> Paging takes tables and frames from Phys and keeps its invariant; the slabs, ramfs and the
  block cache take their pages from the same allocator through \<open>page_allocator\<close>. System calls on files go through
  Sys_File to Vfs_Ops, Vfs_Path and the driver; the descriptor theorem composes all of them with ramfs. Pipes and
  terminals share the ring. The process theories use the theorems on memory, on descriptors and on run queues as they are.

  \<^bold>\<open>Bounds and fuel.\<close> Loops over data are structural or have a termination proof. Loops that follow pointers in memory
  (heap blocks, slab retries, archive headers, terminal input) are partial functions into options, and the
  theorems about them state that they return. \<open>vfs_find\<close> recurses through links and mounts; its first argument
  bounds the call depth, and the number of path components plus five is enough for a tree in memory. Signal entry and
  \<open>sched_unqueue\<close> call each other with a bounded depth; the properties hold for every signal handler.

  \<^bold>\<open>Not modelled.\<close> Assembly, boot, interrupt controllers and device drivers: hardware access only. ACPICA:
  third-party code. Context switches are assembly: a switch is the change of the current thread, and floating point
  state is not part of a thread. Translation caches: the code flushes every changed user entry. The components ext2, sysfs, networking, program loading, modules and formatted output have no definitions here; they
  are clients of the modelled interfaces.
\<close>

end
